(* ===== verification/Cq_Prelude.thy ===== *)
theory Cq_Prelude
  imports Complex_Main "HOL-Library.Multiset" "HOL-Library.List_Lexorder" "HOL-Library.Char_ord"
begin

text \<open>
  The prelude of the development: names for the model's basic types, the results of fallible
  code, insertion-ordered maps (a JavaScript \<open>Map\<close> keeps its keys in the order of their first
  insertion, and the code iterates over them), least-fixed-point reachability for step relations
  with one locale that turns "holds initially and every step keeps it" into "holds in every
  reachable state", and the small list facts the components share.
\<close>

section \<open>Names and results\<close>

type_synonym job_id = string
type_synonym op_name = string
type_synonym run_id = string
type_synonym plan_id = string

text \<open>
  Fallible code returns a sum: \<open>Inl\<close> carries the thrown error (a constructor of the component's
  own error datatype), \<open>Inr\<close> the returned value.
\<close>

abbreviation throw :: "'e \<Rightarrow> 'e + 'a" where "throw m \<equiv> Inl m"
abbreviation ok :: "'a \<Rightarrow> 'e + 'a" where "ok x \<equiv> Inr x"

definition bind_result :: "'e + 'a \<Rightarrow> ('a \<Rightarrow> 'e + 'b) \<Rightarrow> 'e + 'b" where
  "bind_result r f = (case r of Inl e \<Rightarrow> Inl e | Inr x \<Rightarrow> f x)"

lemma bind_result_simps [simp]:
  "bind_result (Inl e) f = Inl e"
  "bind_result (Inr x) f = f x"
  by (simp_all add: bind_result_def)

lemma bind_result_eq_Inr:
  "bind_result r f = Inr y \<longleftrightarrow> (\<exists>x. r = Inr x \<and> f x = Inr y)"
  by (cases r) auto

lemma bind_result_eq_Inl:
  "bind_result r f = Inl e \<longleftrightarrow> r = Inl e \<or> (\<exists>x. r = Inr x \<and> f x = Inl e)"
  by (cases r) auto

definition is_ok :: "'e + 'a \<Rightarrow> bool" where
  "is_ok r = (case r of Inl _ \<Rightarrow> False | Inr _ \<Rightarrow> True)"

lemma is_ok_simps [simp]: "is_ok (Inr x)" "\<not> is_ok (Inl e)"
  by (simp_all add: is_ok_def)

section \<open>Collections of facts\<close>

named_theorems opt_cases \<open>case splits on options, sums and lists used by the component proofs\<close>

declare option.splits [opt_cases] sum.splits [opt_cases] if_splits [opt_cases]

section \<open>Insertion-ordered maps\<close>

text \<open>
  \<open>omap_set\<close> is \<open>Map.prototype.set\<close>: an existing key keeps its position and gets the new value, a
  new key goes last. \<open>omap_del\<close> is \<open>Map.prototype.delete\<close>. Lookup is \<open>map_of\<close>.
\<close>

type_synonym ('k, 'v) omap = "('k \<times> 'v) list"

fun omap_set :: "'k \<Rightarrow> 'v \<Rightarrow> ('k, 'v) omap \<Rightarrow> ('k, 'v) omap" where
  "omap_set k v [] = [(k, v)]"
| "omap_set k v ((k', v') # m) = (if k' = k then (k, v) # m else (k', v') # omap_set k v m)"

definition omap_del :: "'k \<Rightarrow> ('k, 'v) omap \<Rightarrow> ('k, 'v) omap" where
  "omap_del k m = filter (\<lambda>(k', _). k' \<noteq> k) m"

definition omap_has :: "'k \<Rightarrow> ('k, 'v) omap \<Rightarrow> bool" where
  "omap_has k m \<longleftrightarrow> map_of m k \<noteq> None"

abbreviation okeys :: "('k, 'v) omap \<Rightarrow> 'k list" where "okeys m \<equiv> map fst m"

lemma map_of_omap_set [simp]: "map_of (omap_set k v m) = (map_of m)(k \<mapsto> v)"
  by (induction m) (auto simp: fun_eq_iff)

lemma map_of_omap_del [simp]: "map_of (omap_del k m) = (map_of m)(k := None)"
  by (induction m) (auto simp: fun_eq_iff omap_del_def)

lemma set_okeys_omap_set: "set (okeys (omap_set k v m)) = insert k (set (okeys m))"
  by (induction k v m rule: omap_set.induct) (simp_all add: insert_commute)

lemma distinct_omap_set: "distinct (okeys m) \<Longrightarrow> distinct (okeys (omap_set k v m))"
proof (induction k v m rule: omap_set.induct)
  case (2 k v k' v' m)
  then show ?case using set_okeys_omap_set [of k v m] by auto
qed simp

lemma set_okeys_omap_del: "set (okeys (omap_del k m)) = set (okeys m) - {k}"
  by (auto simp: omap_del_def image_iff)

lemma distinct_omap_del: "distinct (okeys m) \<Longrightarrow> distinct (okeys (omap_del k m))"
  by (induction m) (auto simp: omap_del_def)

lemma omap_has_iff: "omap_has k m \<longleftrightarrow> k \<in> set (okeys m)"
  by (auto simp: omap_has_def map_of_eq_None_iff)

lemma omap_set_new: "k \<notin> set (okeys m) \<Longrightarrow> omap_set k v m = m @ [(k, v)]"
  by (induction m) auto

lemma omap_set_not_Nil [simp]: "omap_set k v m \<noteq> []"
  by (induction m) (auto split: if_splits)

lemma map_of_append_new:
  "k \<notin> set (okeys m) \<Longrightarrow> map_of (m @ [(k, v)]) = (map_of m)(k \<mapsto> v)"
  using map_of_omap_set [of k v m] by (simp add: omap_set_new)

lemma omap_del_absent: "k \<notin> set (okeys m) \<Longrightarrow> omap_del k m = m"
  by (induction m) (auto simp: omap_del_def)

section \<open>Reachable states\<close>

inductive reach :: "('s \<Rightarrow> bool) \<Rightarrow> ('s \<Rightarrow> 's \<Rightarrow> bool) \<Rightarrow> 's \<Rightarrow> bool" for init step where
  reach_init: "init s \<Longrightarrow> reach init step s"
| reach_step: "reach init step s \<Longrightarrow> step s t \<Longrightarrow> reach init step t"

text \<open>
  The interface every state machine of the development is verified through: what holds in the
  initial states and is kept by every step holds in every reachable state.
\<close>

locale invariant_system =
  fixes init :: "'s \<Rightarrow> bool" and step :: "'s \<Rightarrow> 's \<Rightarrow> bool" and inv :: "'s \<Rightarrow> bool"
  assumes inv_init: "init s \<Longrightarrow> inv s"
    and inv_step: "inv s \<Longrightarrow> step s t \<Longrightarrow> inv t"
begin

lemma reach_inv: "reach init step s \<Longrightarrow> inv s"
  by (induction rule: reach.induct) (auto intro: inv_init inv_step)

lemma steps_inv: "step\<^sup>*\<^sup>* s t \<Longrightarrow> inv s \<Longrightarrow> inv t"
  by (induction rule: rtranclp_induct) (auto intro: inv_step)

end

section \<open>Sums over lists\<close>

lemma sum_list_map_nonneg: "(\<And>x. x \<in> set xs \<Longrightarrow> 0 \<le> f x) \<Longrightarrow> 0 \<le> sum_list (map f xs)"
  for f :: "'a \<Rightarrow> rat"
  by (rule sum_list_nonneg) auto

lemma sum_list_map_filter_out:
  fixes f :: "'k \<times> 'v \<Rightarrow> rat"
  assumes "distinct (okeys m)" and "map_of m k = Some v"
  shows "sum_list (map f m) = f (k, v) + sum_list (map f (omap_del k m))"
  using assms
proof (induction m)
  case Nil
  then show ?case by simp
next
  case (Cons p m)
  obtain k' v' where p: "p = (k', v')" by fastforce
  show ?case
  proof (cases "k' = k")
    case True
    with Cons.prems p have "omap_del k m = m" by (simp add: omap_del_absent)
    with True Cons.prems p show ?thesis by (simp add: omap_del_def)
  next
    case False
    with Cons p show ?thesis by (simp add: omap_del_def)
  qed
qed

lemma sum_list_map_omap_set:
  fixes f :: "'k \<times> 'v \<Rightarrow> rat"
  assumes "distinct (okeys m)" and "map_of m k = Some v"
  shows "sum_list (map f (omap_set k w m)) = sum_list (map f m) - f (k, v) + f (k, w)"
  using assms by (induction m) (auto split: if_splits)

end
