(* ===== verification/Js_Values.thy ===== *)
theory Js_Values
  imports Cq_Prelude
begin

text \<open>
  The JavaScript values the kernel inspects at its boundaries: numbers with their non-finite
  values (the budget code's validation is about exactly these), untyped values an operation hands
  back, and decimal rendering of naturals, which the code puts into identifiers.

  Finite numbers are exact rationals: the rounding of IEEE doubles is not modelled (the code's
  money comparisons carry the tolerance \<open>USD_EPSILON\<close> for it, which the model keeps).
\<close>

section \<open>Numbers\<close>

datatype jsnum = Fin rat | PosInf | NegInf | NaN

text \<open>\<open>Number.isFinite\<close>, \<open>Number.isInteger\<close> and \<open>x >= m\<close> on numbers (\<open>NaN\<close> compares false).\<close>

fun js_is_finite :: "jsnum \<Rightarrow> bool" where
  "js_is_finite (Fin r) = True"
| "js_is_finite _ = False"

fun js_is_integer :: "jsnum \<Rightarrow> bool" where
  "js_is_integer (Fin r) = (of_int \<lfloor>r\<rfloor> = r)"
| "js_is_integer _ = False"

fun js_lt :: "jsnum \<Rightarrow> rat \<Rightarrow> bool" where
  "js_lt (Fin r) m = (r < m)"
| "js_lt NegInf m = True"
| "js_lt _ m = False"

fun js_le :: "jsnum \<Rightarrow> rat \<Rightarrow> bool" where
  "js_le (Fin r) m = (r \<le> m)"
| "js_le NegInf m = True"
| "js_le _ m = False"

fun fin_val :: "jsnum \<Rightarrow> rat" where
  "fin_val (Fin r) = r"
| "fin_val _ = 0"

lemma js_is_finite_iff: "js_is_finite n \<longleftrightarrow> (\<exists>r. n = Fin r)"
  by (cases n) auto

lemma js_is_integer_iff: "js_is_integer n \<longleftrightarrow> (\<exists>i. n = Fin (of_int i))"
proof (cases n)
  case (Fin r)
  then show ?thesis by (auto dest: sym)
qed auto

section \<open>Values\<close>

text \<open>
  \<open>JFun\<close> is a value that is not an object and not JSON data (a function or symbol); \<open>JExotic\<close> is an
  object whose prototype is neither \<open>Object.prototype\<close> nor \<open>null\<close> (a date, a map, a class
  instance), with its class name. Objects carry their own enumerable string-keyed members in
  order; their keys are distinct (\<open>wf_jsv\<close>).
\<close>

datatype jsv =
    JUndef
  | JNull
  | JBool bool
  | JNum jsnum
  | JStr string
  | JArr "jsv list"
  | JObj "(string \<times> jsv) list"
  | JExotic string "(string \<times> jsv) list"
  | JFun

fun wf_jsv :: "jsv \<Rightarrow> bool" where
  "wf_jsv (JArr vs) = list_all wf_jsv vs"
| "wf_jsv (JObj ms) = (distinct (map fst ms) \<and> list_all (\<lambda>(k, v). wf_jsv v) ms)"
| "wf_jsv (JExotic c ms) = (distinct (map fst ms) \<and> list_all (\<lambda>(k, v). wf_jsv v) ms)"
| "wf_jsv _ = True"

text \<open>Member access \<open>v[k]\<close> on an object; a member that is absent reads as \<open>undefined\<close>.\<close>

definition js_get :: "(string \<times> jsv) list \<Rightarrow> string \<Rightarrow> jsv" where
  "js_get ms k = (case map_of ms k of None \<Rightarrow> JUndef | Some v \<Rightarrow> v)"

section \<open>Decimal rendering\<close>

definition digit :: "nat \<Rightarrow> char" where
  "digit d = char_of (48 + d)"

fun nat_str :: "nat \<Rightarrow> string" where
  "nat_str n = (if n < 10 then [digit n] else nat_str (n div 10) @ [digit (n mod 10)])"

declare nat_str.simps [simp del]

definition digits_val :: "string \<Rightarrow> nat" where
  "digits_val s = foldl (\<lambda>a c. 10 * a + (of_char c - 48)) 0 s"

lemma of_char_digit: "d < 10 \<Longrightarrow> (of_char (digit d) :: nat) = 48 + d"
  by (simp add: digit_def)

lemma digits_val_nat_str [simp]: "digits_val (nat_str n) = n"
proof (induction n rule: nat_str.induct)
  case (1 n)
  show ?case
  proof (cases "n < 10")
    case True
    then show ?thesis by (simp add: nat_str.simps [of n] digits_val_def of_char_digit)
  next
    case False
    with 1 show ?thesis
      by (simp add: nat_str.simps [of n] digits_val_def of_char_digit)
  qed
qed

lemma nat_str_inj [simp]: "nat_str m = nat_str n \<longleftrightarrow> m = n"
  by (metis digits_val_nat_str)

lemma digit_neq_colon: "d < 10 \<Longrightarrow> digit d \<noteq> CHR '':''"
proof
  assume d: "d < 10" and "digit d = CHR '':''"
  then have "(of_char (digit d) :: nat) = of_char (CHR '':'')" by simp
  with d show False by (simp add: of_char_digit)
qed

lemma colon_notin_nat_str: "CHR '':'' \<notin> set (nat_str n)"
proof (induction n rule: nat_str.induct)
  case (1 n)
  show ?case
  proof (cases "n < 10")
    case True
    then show ?thesis using digit_neq_colon [of n] by (auto simp: nat_str.simps [of n])
  next
    case False
    with 1 show ?thesis
      using digit_neq_colon [of "n mod 10"] by (auto simp: nat_str.simps [of n])
  qed
qed

text \<open>Text after the last colon is determined by the whole: colon-joined identifiers with a number at the end.\<close>

lemma colon_suffix_inj:
  assumes "xs @ CHR '':'' # s = ys @ CHR '':'' # t"
    and "CHR '':'' \<notin> set s" "CHR '':'' \<notin> set t"
  shows "s = t"
proof -
  have "takeWhile (\<lambda>c. c \<noteq> CHR '':'') (rev (xs @ CHR '':'' # s))
      = takeWhile (\<lambda>c. c \<noteq> CHR '':'') (rev (ys @ CHR '':'' # t))"
    using assms(1) by simp
  moreover have "takeWhile (\<lambda>c. c \<noteq> CHR '':'') (rev (zs @ CHR '':'' # u)) = rev u"
    if "CHR '':'' \<notin> set u" for zs u
  proof -
    have "takeWhile (\<lambda>c. c \<noteq> CHR '':'') (rev u @ CHR '':'' # rev zs) = rev u"
      using that by (subst takeWhile_append2) auto
    then show ?thesis by simp
  qed
  ultimately show ?thesis using assms(2,3) by (metis rev_rev_ident)
qed

end
