(* ===== verification/Kernel_Types.thy ===== *)
theory Kernel_Types
  imports Js_Values
begin

text \<open>
  The frozen kernel types of \<open>src/kernel/types.ts\<close> (and \<open>Usage\<close> of \<open>src/driver/types.ts\<close>): the op
  result taxonomy, job states and counts, plans, run options and limits, the governance record and
  the kernel journal events. The v3 observational events are one constructor: the kernel's folds
  read only their kind and the run they name.
\<close>

section \<open>Usage\<close>

datatype usage = Usage
  (u_input: rat) (u_output: rat) (u_cache_read: rat) (u_cache_write: rat)
  (u_reasoning: "rat option")

text \<open>\<open>(a.reasoning ?? 0) + (b.reasoning ?? 0)\<close>, present when either is.\<close>

fun add_reasoning :: "rat option \<Rightarrow> rat option \<Rightarrow> rat option" where
  "add_reasoning None None = None"
| "add_reasoning a b = Some ((case a of None \<Rightarrow> 0 | Some x \<Rightarrow> x) + (case b of None \<Rightarrow> 0 | Some y \<Rightarrow> y))"

definition addUsage :: "usage \<Rightarrow> usage \<Rightarrow> usage" where
  "addUsage a b = Usage
     (u_input a + u_input b) (u_output a + u_output b)
     (u_cache_read a + u_cache_read b) (u_cache_write a + u_cache_write b)
     (add_reasoning (u_reasoning a) (u_reasoning b))"

definition totalTokensOf :: "usage \<Rightarrow> rat" where
  "totalTokensOf u = u_input u + u_output u + u_cache_read u + u_cache_write u
     + (case u_reasoning u of None \<Rightarrow> 0 | Some r \<Rightarrow> r)"

lemma add_reasoning_comm: "add_reasoning a b = add_reasoning b a"
  by (cases a; cases b) auto

lemma add_reasoning_assoc:
  "add_reasoning (add_reasoning a b) c = add_reasoning a (add_reasoning b c)"
  by (cases a; cases b; cases c) auto

lemma add_reasoning_left_comm:
  "add_reasoning a (add_reasoning b c) = add_reasoning b (add_reasoning a c)"
  by (cases a; cases b; cases c) auto

lemma add_reasoning_val:
  "(case add_reasoning a b of None \<Rightarrow> 0 | Some r \<Rightarrow> r)
   = (case a of None \<Rightarrow> 0 | Some r \<Rightarrow> r) + (case b of None \<Rightarrow> 0 | Some r \<Rightarrow> r)"
  by (cases a; cases b) auto

text \<open>Usage folds form a commutative semigroup, so the library's fold lemmas apply to them.\<close>

instantiation usage :: ab_semigroup_add
begin

definition plus_usage :: "usage \<Rightarrow> usage \<Rightarrow> usage" where
  "plus_usage a b = addUsage a b"

instance
  by standard (auto simp: plus_usage_def addUsage_def add_reasoning_assoc add_reasoning_left_comm
      intro: add_reasoning_comm)

end

lemma totalTokensOf_add [simp]: "totalTokensOf (addUsage a b) = totalTokensOf a + totalTokensOf b"
  by (simp add: totalTokensOf_def addUsage_def add_reasoning_val)

definition valid_usage :: "usage \<Rightarrow> bool" where
  "valid_usage u \<longleftrightarrow> 0 \<le> u_input u \<and> 0 \<le> u_output u \<and> 0 \<le> u_cache_read u \<and> 0 \<le> u_cache_write u
     \<and> (case u_reasoning u of None \<Rightarrow> True | Some r \<Rightarrow> 0 \<le> r)"

lemma totalTokensOf_nonneg: "valid_usage u \<Longrightarrow> 0 \<le> totalTokensOf u"
  by (auto simp: valid_usage_def totalTokensOf_def split: option.splits)

lemma valid_usage_add: "valid_usage a \<Longrightarrow> valid_usage b \<Longrightarrow> valid_usage (addUsage a b)"
  by (cases "u_reasoning a"; cases "u_reasoning b") (auto simp: valid_usage_def addUsage_def)

section \<open>Op results and job states\<close>

datatype op_result =
    ROk jsv
  | RFailed string
  | RNeedsHuman string
  | RBudgetExhausted
  | RIndeterminate string

datatype op_status = Ok_st | Failed_st | NeedsHuman_st | BudgetExhausted_st | Indeterminate_st

fun status :: "op_result \<Rightarrow> op_status" where
  "status (ROk _) = Ok_st"
| "status (RFailed _) = Failed_st"
| "status (RNeedsHuman _) = NeedsHuman_st"
| "status RBudgetExhausted = BudgetExhausted_st"
| "status (RIndeterminate _) = Indeterminate_st"

datatype job_state = Queued | Running | Blocked | Done | Failed | Budget_Exhausted

record run_counts =
  c_queued :: nat
  c_running :: nat
  c_blocked :: nat
  c_done :: nat
  c_failed :: nat
  c_budget :: nat

section \<open>Plans, options and limits\<close>

record job =
  job_id :: job_id
  job_op :: op_name
  job_input :: jsv
  job_deps :: "job_id list option"

record plan =
  plan_id :: plan_id
  plan_jobs :: "job list"

text \<open>\<open>cqEnv_errors\<close> are the messages of the errors of the \<open>CQ_*\<close> environment snapshot: the one given as the
  option, or the one read from the process's environment.\<close>

record run_options =
  concurrency :: jsnum
  stopOnError :: bool
  journaled :: bool
  opt_maxUsd :: "jsnum option"
  opt_maxTokens :: "jsnum option"
  resume :: bool
  cqEnv_errors :: "string list"

record limits =
  lim_maxUsd :: "jsnum option"
  lim_wallClockMs :: "jsnum option"
  lim_attempts :: "jsnum option"
  lim_inFlight :: "jsnum option"
  lim_quota :: "jsnum option"

datatype opt_in = LegacyJournalReset | RaiseCap | UngovernedOverGoverned

datatype escape_by = Operator | Product

record governance_record =
  gr_capUsd :: "rat option"
  gr_capTokens :: "rat option"
  gr_attended :: bool
  gr_allowAdvisory :: bool
  gr_provenance :: "escape_by option"
  gr_inheritedCapUsd :: "rat option"
  gr_legacyReset :: "run_id list option"
  gr_raiseCap :: "(rat \<times> rat) option"

section \<open>Budget classes and trips\<close>

datatype budget_class = Hard | Advisory

datatype charge_basis = Observed | Full

datatype trip_kind = Exhausted | TokenCap | Breach | Signal

datatype early_stop = StopBudget | StopSignal

section \<open>Journal events\<close>

record run_started =
  rs_run :: run_id
  rs_at :: string
  rs_plan :: plan_id
  rs_version :: "nat option"
  rs_seq :: "nat option"
  rs_governance :: "governance_record option"
  rs_ungoverned :: bool

record job_started =
  js_run :: run_id
  js_job :: job_id
  js_op :: op_name
  js_attempt :: nat

record session_link =
  sl_driver :: string
  sl_session :: string
  sl_native :: "string option"
  sl_path :: "string option"

record job_finished =
  jf_run :: run_id
  jf_job :: job_id
  jf_op :: op_name
  jf_hash :: string
  jf_result :: op_result
  jf_usage :: "usage option"
  jf_cost :: "rat option"
  jf_charged :: "rat option"
  jf_workId :: "string option"
  jf_parent :: "string option"
  jf_role :: "string option"
  jf_sessions :: "session_link list option"

record run_finished =
  rf_run :: run_id
  rf_stoppedEarly :: bool
  rf_reason :: "early_stop option"
  rf_eventCount :: "nat option"

record reservation_opened =
  ro_run :: run_id
  ro_job :: job_id
  ro_op :: op_name
  ro_attempt :: nat
  ro_id :: string
  ro_usd :: rat
  ro_class :: budget_class
  ro_proposed :: "rat option"

record reservation_settled =
  rt_run :: run_id
  rt_job :: job_id
  rt_id :: string
  rt_charged :: rat
  rt_basis :: charge_basis
  rt_priced :: bool
  rt_usage :: "usage option"

datatype v3_kind =
    AttemptFinished | ApprovalExpired | ApprovalGranted | FindingDisposition | GateVerdict
  | HeadAcceptance | MeasurementSummary | ReviewObserved | TaskFinished
  | WritePathCapTripped | WritePathDenied

datatype journal_event =
    Run_Started run_started
  | Job_Started job_started
  | Job_Finished job_finished
  | Run_Finished run_finished
  | Reservation_Opened reservation_opened
  | Reservation_Settled reservation_settled
  | Reservation_Refused run_id job_id op_name
  | Job_Quarantined run_id job_id string rat
  | Quarantine_Released run_id job_id
  | Budget_Tripped run_id trip_kind
  | Observation v3_kind run_id

fun event_run :: "journal_event \<Rightarrow> run_id" where
  "event_run (Run_Started e) = rs_run e"
| "event_run (Job_Started e) = js_run e"
| "event_run (Job_Finished e) = jf_run e"
| "event_run (Run_Finished e) = rf_run e"
| "event_run (Reservation_Opened e) = ro_run e"
| "event_run (Reservation_Settled e) = rt_run e"
| "event_run (Reservation_Refused r _ _) = r"
| "event_run (Job_Quarantined r _ _ _) = r"
| "event_run (Quarantine_Released r _) = r"
| "event_run (Budget_Tripped r _) = r"
| "event_run (Observation _ r) = r"

end
