(* ===== verification/Governor_Config.thy ===== *)
theory Governor_Config
  imports Kernel_Types
begin

text \<open>
  The governor's configuration (\<open>src/kernel/governor.ts\<close>): \<open>validateConfig\<close> over raw numbers,
  \<open>governorConfig\<close> with its cap-precedence rule, \<open>validateLadderSpec\<close> and the default graces of
  \<open>src/kernel/governor.config.ts\<close>. A validated configuration holds plain numbers.
\<close>

definition DEFAULT_ABORT_GRACE_MS :: nat where "DEFAULT_ABORT_GRACE_MS = 5000"
definition DEFAULT_KILL_GRACE_MS :: nat where "DEFAULT_KILL_GRACE_MS = 5000"

record raw_config =
  rc_maxUsd :: "jsnum option"
  rc_maxTokens :: "jsnum option"
  rc_wallClockMs :: "jsnum option"
  rc_abortGraceMs :: "jsnum option"
  rc_killGraceMs :: "jsnum option"
  rc_maxAttempts :: "jsnum option"
  rc_dispatchQuota :: "jsnum option"
  rc_inFlight :: "jsnum option"

record gov_config =
  gc_maxUsd :: "rat option"
  gc_maxTokens :: "rat option"
  gc_wallClockMs :: "nat option"
  gc_abortGraceMs :: "nat option"
  gc_killGraceMs :: "nat option"
  gc_maxAttempts :: "nat option"
  gc_dispatchQuota :: "nat option"
  gc_inFlight :: "nat option"

datatype config_error = BadConfig string jsnum

definition checkInt :: "string \<Rightarrow> jsnum option \<Rightarrow> nat \<Rightarrow> config_error + nat option" where
  "checkInt name value m =
     (case value of
        None \<Rightarrow> ok None
      | Some n \<Rightarrow> if \<not> js_is_integer n \<or> js_lt n (of_nat m) then throw (BadConfig name n)
                  else ok (Some (nat \<lfloor>fin_val n\<rfloor>)))"

definition checkMaxUsd :: "jsnum option \<Rightarrow> config_error + rat option" where
  "checkMaxUsd value =
     (case value of
        None \<Rightarrow> ok None
      | Some n \<Rightarrow> if \<not> js_is_finite n \<or> js_lt n 0 then throw (BadConfig ''maxUsd'' n)
                  else ok (Some (fin_val n)))"

definition checkMaxTokens :: "jsnum option \<Rightarrow> config_error + rat option" where
  "checkMaxTokens value =
     (case value of
        None \<Rightarrow> ok None
      | Some n \<Rightarrow> if \<not> js_is_finite n \<or> js_le n 0 then throw (BadConfig ''maxTokens'' n)
                  else ok (Some (fin_val n)))"

definition validateConfig :: "raw_config \<Rightarrow> config_error + gov_config" where
  "validateConfig c =
     bind_result (checkMaxUsd (rc_maxUsd c)) (\<lambda>usd.
     bind_result (checkMaxTokens (rc_maxTokens c)) (\<lambda>tok.
     bind_result (checkInt ''perJobWallClockMs'' (rc_wallClockMs c) 1) (\<lambda>wall.
     bind_result (checkInt ''abortGraceMs'' (rc_abortGraceMs c) 0) (\<lambda>ab.
     bind_result (checkInt ''killGraceMs'' (rc_killGraceMs c) 0) (\<lambda>ki.
     bind_result (checkInt ''maxAttemptsPerJob'' (rc_maxAttempts c) 1) (\<lambda>att.
     bind_result (checkInt ''runDispatchQuota'' (rc_dispatchQuota c) 1) (\<lambda>quota.
     bind_result (checkInt ''inFlightCeiling'' (rc_inFlight c) 1) (\<lambda>infl.
       ok \<lparr>gc_maxUsd = usd, gc_maxTokens = tok, gc_wallClockMs = wall, gc_abortGraceMs = ab,
           gc_killGraceMs = ki, gc_maxAttempts = att, gc_dispatchQuota = quota, gc_inFlight = infl\<rparr>))))))))"

text \<open>\<open>Math.min\<close>: \<open>NaN\<close> absorbs.\<close>

fun js_min :: "jsnum \<Rightarrow> jsnum \<Rightarrow> jsnum" where
  "js_min NaN _ = NaN"
| "js_min _ NaN = NaN"
| "js_min NegInf _ = NegInf"
| "js_min _ NegInf = NegInf"
| "js_min PosInf n = n"
| "js_min n PosInf = n"
| "js_min (Fin a) (Fin b) = Fin (min a b)"

fun js_min_list :: "jsnum list \<Rightarrow> jsnum" where
  "js_min_list [] = PosInf"
| "js_min_list (n # ns) = js_min n (js_min_list ns)"

definition somes :: "'a option list \<Rightarrow> 'a list" where
  "somes xs = map the (filter (\<lambda>x. x \<noteq> None) xs)"

definition governorConfig :: "run_options \<Rightarrow> limits \<Rightarrow> jsnum option \<Rightarrow> jsnum option \<Rightarrow> raw_config" where
  "governorConfig opts lims abortGrace killGrace =
     (let usdCaps = somes [opt_maxUsd opts, lim_maxUsd lims]
      in \<lparr>rc_maxUsd = (if usdCaps \<noteq> [] then Some (js_min_list usdCaps) else None),
          rc_maxTokens = opt_maxTokens opts, rc_wallClockMs = lim_wallClockMs lims,
          rc_abortGraceMs = abortGrace, rc_killGraceMs = killGrace,
          rc_maxAttempts = lim_attempts lims, rc_dispatchQuota = lim_quota lims,
          rc_inFlight = lim_inFlight lims\<rparr>)"

section \<open>Ladder specifications\<close>

record raw_ladder_spec =
  rl_wallClockMs :: "jsnum option"
  rl_abortGraceMs :: "jsnum option"
  rl_killGraceMs :: "jsnum option"

record ladder_spec =
  ls_wallClockMs :: "rat option"
  ls_abortGraceMs :: nat
  ls_killGraceMs :: nat

definition checkGrace :: "string \<Rightarrow> jsnum option \<Rightarrow> config_error + nat option" where
  "checkGrace name value =
     (case value of
        None \<Rightarrow> ok None
      | Some n \<Rightarrow> if \<not> js_is_integer n \<or> js_lt n 0 then throw (BadConfig name n)
                  else ok (Some (nat \<lfloor>fin_val n\<rfloor>)))"

text \<open>\<open>validateLadderSpec\<close>, returning the spec with the default graces \<open>runLadder\<close> applies.\<close>

definition validateLadderSpec :: "raw_ladder_spec \<Rightarrow> config_error + ladder_spec" where
  "validateLadderSpec s =
     bind_result
       (case rl_wallClockMs s of
          None \<Rightarrow> ok None
        | Some n \<Rightarrow> if \<not> js_is_finite n \<or> js_le n 0 then throw (BadConfig ''wallClockMs'' n)
                    else ok (Some (fin_val n))) (\<lambda>wall.
     bind_result (checkGrace ''abortGraceMs'' (rl_abortGraceMs s)) (\<lambda>ab.
     bind_result (checkGrace ''killGraceMs'' (rl_killGraceMs s)) (\<lambda>ki.
       ok \<lparr>ls_wallClockMs = wall,
           ls_abortGraceMs = (case ab of None \<Rightarrow> DEFAULT_ABORT_GRACE_MS | Some a \<Rightarrow> a),
           ls_killGraceMs = (case ki of None \<Rightarrow> DEFAULT_KILL_GRACE_MS | Some k \<Rightarrow> k)\<rparr>)))"

definition raw_nat :: "nat \<Rightarrow> jsnum" where "raw_nat n = Fin (of_nat n)"

definition ladderSpec :: "gov_config \<Rightarrow> raw_ladder_spec" where
  "ladderSpec c = \<lparr>rl_wallClockMs = map_option raw_nat (gc_wallClockMs c),
     rl_abortGraceMs = Some (raw_nat (case gc_abortGraceMs c of None \<Rightarrow> DEFAULT_ABORT_GRACE_MS | Some a \<Rightarrow> a)),
     rl_killGraceMs = Some (raw_nat (case gc_killGraceMs c of None \<Rightarrow> DEFAULT_KILL_GRACE_MS | Some k \<Rightarrow> k))\<rparr>"

section \<open>What validation establishes\<close>

definition wf_config :: "gov_config \<Rightarrow> bool" where
  "wf_config c \<longleftrightarrow> (case gc_maxUsd c of None \<Rightarrow> True | Some u \<Rightarrow> 0 \<le> u)
     \<and> (case gc_maxTokens c of None \<Rightarrow> True | Some t \<Rightarrow> 0 < t)
     \<and> (case gc_wallClockMs c of None \<Rightarrow> True | Some n \<Rightarrow> 1 \<le> n)
     \<and> (case gc_maxAttempts c of None \<Rightarrow> True | Some n \<Rightarrow> 1 \<le> n)
     \<and> (case gc_dispatchQuota c of None \<Rightarrow> True | Some n \<Rightarrow> 1 \<le> n)
     \<and> (case gc_inFlight c of None \<Rightarrow> True | Some n \<Rightarrow> 1 \<le> n)"

lemma checkInt_ge: "checkInt name v m = ok r \<Longrightarrow> (case r of None \<Rightarrow> True | Some n \<Rightarrow> m \<le> n)"
proof (cases v)
  case (Some n)
  assume r: "checkInt name v m = ok r"
  with Some obtain i where i: "n = Fin (of_int i)" "r = Some (nat i)" "\<not> (of_int i < (of_nat m :: rat))"
    by (auto simp: checkInt_def js_is_integer_iff split: if_splits)
  then have "int m \<le> i" by (metis not_less of_int_less_iff of_int_of_nat_eq)
  with i(2) show ?thesis by simp
qed (auto simp: checkInt_def)

lemma checkInt_raw_nat: "m \<le> n \<Longrightarrow> checkInt name (Some (raw_nat n)) m = ok (Some n)"
  by (simp add: checkInt_def raw_nat_def)

lemma checkMaxUsd_ge: "checkMaxUsd v = ok r \<Longrightarrow> (case r of None \<Rightarrow> True | Some u \<Rightarrow> 0 \<le> u)"
  by (auto simp: checkMaxUsd_def js_is_finite_iff split: option.splits if_splits)

lemma checkMaxTokens_gt: "checkMaxTokens v = ok r \<Longrightarrow> (case r of None \<Rightarrow> True | Some t \<Rightarrow> 0 < t)"
  by (auto simp: checkMaxTokens_def js_is_finite_iff split: option.splits if_splits)

lemma validateConfig_wf: "validateConfig c = ok g \<Longrightarrow> wf_config g"
  unfolding validateConfig_def wf_config_def bind_result_eq_Inr
  by (elim exE conjE) (auto dest: checkInt_ge checkMaxUsd_ge checkMaxTokens_gt simp del: One_nat_def)

text \<open>The ladder spec of a validated configuration passes the ladder's own validation.\<close>

lemma ladderSpec_valid:
  assumes "wf_config c"
  shows "\<exists>s. validateLadderSpec (ladderSpec c) = ok s"
  using assms
  by (auto simp: validateLadderSpec_def ladderSpec_def checkGrace_def raw_nat_def wf_config_def
      split: option.splits)

text \<open>The cap-precedence rule: the smaller of the two dollar caps binds.\<close>

lemma governorConfig_cap:
  "opt_maxUsd opts = Some (Fin a) \<Longrightarrow> lim_maxUsd lims = Some (Fin b)
   \<Longrightarrow> rc_maxUsd (governorConfig opts lims x y) = Some (Fin (min a b))"
  by (simp add: governorConfig_def somes_def)

end
