(* ===== verification/Spend_Evidence.thy ===== *)
theory Spend_Evidence
  imports Kernel_Types
begin

text \<open>
  The measurement guards of \<open>src/kernel/governor.ts\<close>: the throwing probes (\<open>assertValidUsd\<close>,
  \<open>assertValidTokens\<close>, \<open>assertValidUsage\<close>) that run before a rollup changes, and their
  non-throwing twins over raw operation values (\<open>isValidUsd\<close>, \<open>isValidUsage\<close>,
  \<open>workerResultOfValue\<close>, \<open>validSpendEvidence\<close>). A probe returns the number it has checked.
\<close>

datatype evidence_error = BadUsd string jsnum | BadTokens string jsnum

section \<open>Throwing probes\<close>

definition assertValidUsd :: "string \<Rightarrow> jsnum \<Rightarrow> evidence_error + rat" where
  "assertValidUsd field usd =
     (if \<not> js_is_finite usd \<or> js_lt usd 0 then throw (BadUsd field usd) else ok (fin_val usd))"

definition assertValidTokens :: "string \<Rightarrow> jsnum \<Rightarrow> evidence_error + rat" where
  "assertValidTokens field v =
     (if \<not> js_is_finite v \<or> js_lt v 0 then throw (BadTokens field v) else ok (fin_val v))"

record raw_usage =
  ru_input :: jsnum
  ru_output :: jsnum
  ru_cacheRead :: jsnum
  ru_cacheWrite :: jsnum
  ru_reasoning :: "jsnum option"

definition assertValidUsage :: "string \<Rightarrow> raw_usage \<Rightarrow> evidence_error + usage" where
  "assertValidUsage prefix u =
     bind_result (assertValidTokens (prefix @ ''.input'') (ru_input u)) (\<lambda>i.
     bind_result (assertValidTokens (prefix @ ''.output'') (ru_output u)) (\<lambda>ou.
     bind_result (assertValidTokens (prefix @ ''.cacheRead'') (ru_cacheRead u)) (\<lambda>cr.
     bind_result (assertValidTokens (prefix @ ''.cacheWrite'') (ru_cacheWrite u)) (\<lambda>cw.
       (case ru_reasoning u of
          None \<Rightarrow> ok (Usage i ou cr cw None)
        | Some r \<Rightarrow> bind_result (assertValidTokens (prefix @ ''.reasoning'') r)
                      (\<lambda>re. ok (Usage i ou cr cw (Some re))))))))"

text \<open>A usage already validated, read back as raw numbers.\<close>

definition raw_of_usage :: "usage \<Rightarrow> raw_usage" where
  "raw_of_usage u = \<lparr>ru_input = Fin (u_input u), ru_output = Fin (u_output u),
     ru_cacheRead = Fin (u_cache_read u), ru_cacheWrite = Fin (u_cache_write u),
     ru_reasoning = map_option Fin (u_reasoning u)\<rparr>"

lemma assertValidUsd_ok: "assertValidUsd f n = ok r \<longleftrightarrow> n = Fin r \<and> 0 \<le> r"
  by (cases n) (auto simp: assertValidUsd_def)

lemma assertValidTokens_ok: "assertValidTokens f n = ok r \<longleftrightarrow> n = Fin r \<and> 0 \<le> r"
  by (cases n) (auto simp: assertValidTokens_def)

lemma assertValidUsage_ok: "assertValidUsage p ru = ok u \<longleftrightarrow> ru = raw_of_usage u \<and> valid_usage u"
proof (cases "ru_reasoning ru")
  case None
  then show ?thesis
    by (cases ru; cases u)
      (auto simp: assertValidUsage_def bind_result_eq_Inr assertValidTokens_ok raw_of_usage_def valid_usage_def)
next
  case (Some r)
  then show ?thesis
    by (cases ru; cases u)
      (auto simp: assertValidUsage_def bind_result_eq_Inr assertValidTokens_ok raw_of_usage_def valid_usage_def
        split: option.splits)
qed

section \<open>Defensive guards over raw values\<close>

definition isValidTokensValue :: "jsv \<Rightarrow> bool" where
  "isValidTokensValue v = (case v of JNum n \<Rightarrow> js_is_finite n \<and> \<not> js_lt n 0 | _ \<Rightarrow> False)"

definition isValidUsd :: "jsv \<Rightarrow> bool" where
  "isValidUsd v = isValidTokensValue v"

definition isCardinality :: "jsv \<Rightarrow> bool" where
  "isCardinality v = (case v of JNum n \<Rightarrow> js_is_integer n \<and> \<not> js_lt n 0 | _ \<Rightarrow> False)"

text \<open>\<open>typeof v === 'object' && v !== null\<close>, with the own members; an array has none of the names read here.\<close>

fun object_members :: "jsv \<Rightarrow> (string \<times> jsv) list option" where
  "object_members (JObj ms) = Some ms"
| "object_members (JExotic c ms) = Some ms"
| "object_members (JArr vs) = Some []"
| "object_members _ = None"

definition usage_fields :: "string list" where
  "usage_fields = [''input'', ''output'', ''cacheRead'', ''cacheWrite'']"

definition isValidUsage :: "jsv \<Rightarrow> bool" where
  "isValidUsage v =
     (case object_members v of
        None \<Rightarrow> False
      | Some ms \<Rightarrow>
          list_all (\<lambda>f. isCardinality (js_get ms f)) usage_fields
          \<and> (js_get ms ''reasoning'' = JUndef \<or> isCardinality (js_get ms ''reasoning''))
          \<and> list_all (\<lambda>(k, _). k \<in> set (usage_fields @ [''reasoning''])) ms)"

fun num_of :: "jsv \<Rightarrow> jsnum" where
  "num_of (JNum n) = n"
| "num_of _ = NaN"

text \<open>The typed reading of a value the guards accepted.\<close>

definition raw_usage_of :: "jsv \<Rightarrow> raw_usage" where
  "raw_usage_of v =
     (let ms = (case object_members v of None \<Rightarrow> [] | Some ms \<Rightarrow> ms)
      in \<lparr>ru_input = num_of (js_get ms ''input''), ru_output = num_of (js_get ms ''output''),
          ru_cacheRead = num_of (js_get ms ''cacheRead''), ru_cacheWrite = num_of (js_get ms ''cacheWrite''),
          ru_reasoning = (if js_get ms ''reasoning'' = JUndef then None
                          else Some (num_of (js_get ms ''reasoning'')))\<rparr>)"

text \<open>The evidence of one result: \<open>JUndef\<close> for an absent member.\<close>

record spend_evidence =
  ev_usage :: jsv
  ev_cost :: jsv

definition no_evidence :: spend_evidence where
  "no_evidence = \<lparr>ev_usage = JUndef, ev_cost = JUndef\<rparr>"

definition validSpendEvidence :: "spend_evidence \<Rightarrow> spend_evidence" where
  "validSpendEvidence r = \<lparr>ev_usage = (if isValidUsage (ev_usage r) then ev_usage r else JUndef),
     ev_cost = (if isValidUsd (ev_cost r) then ev_cost r else JUndef)\<rparr>"

definition stop_reasons :: "string list" where
  "stop_reasons = [''complete'', ''aborted'', ''budget'', ''error'']"

definition workerResultOfValue :: "jsv \<Rightarrow> spend_evidence option" where
  "workerResultOfValue v =
     (case object_members v of
        None \<Rightarrow> None
      | Some ms \<Rightarrow>
         (case object_members (js_get ms ''usage'') of
            None \<Rightarrow> None
          | Some us \<Rightarrow>
              if \<not> list_all (\<lambda>f. isValidTokensValue (js_get us f)) usage_fields then None
              else if js_get us ''reasoning'' \<noteq> JUndef
                   \<and> \<not> isValidTokensValue (js_get us ''reasoning'') then None
              else if (case js_get ms ''denials'' of JArr _ \<Rightarrow> False | _ \<Rightarrow> True) then None
              else if js_get ms ''stopReason'' \<notin> JStr ` set stop_reasons then None
              else if js_get ms ''costUSD'' \<noteq> JUndef \<and> \<not> isValidTokensValue (js_get ms ''costUSD'') then None
              else Some \<lparr>ev_usage = js_get ms ''usage'', ev_cost = js_get ms ''costUSD''\<rparr>))"

section \<open>The guards decide what the probes accept\<close>

lemma isCardinality_valid: "isCardinality v \<Longrightarrow> \<exists>r. v = JNum (Fin r) \<and> 0 \<le> r \<and> of_int \<lfloor>r\<rfloor> = r"
  by (cases v) (auto simp: isCardinality_def js_is_integer_iff)

lemma isValidUsd_iff: "isValidUsd v \<longleftrightarrow> (\<exists>r. v = JNum (Fin r) \<and> 0 \<le> r)"
  by (cases v) (auto simp: isValidUsd_def isValidTokensValue_def js_is_finite_iff)

lemma isValidUsd_assert: "isValidUsd v \<longleftrightarrow> (\<exists>n r. v = JNum n \<and> assertValidUsd f n = ok r)"
  by (auto simp: isValidUsd_iff assertValidUsd_ok)

lemma isValidUsage_assert:
  assumes "isValidUsage v"
  shows "\<exists>u. assertValidUsage p (raw_usage_of v) = ok u"
proof -
  from assms obtain ms where ms: "object_members v = Some ms"
    "list_all (\<lambda>f. isCardinality (js_get ms f)) usage_fields"
    "js_get ms ''reasoning'' = JUndef \<or> isCardinality (js_get ms ''reasoning'')"
    by (auto simp: isValidUsage_def split: option.splits)
  then show ?thesis
    by (auto simp: assertValidUsage_def raw_usage_of_def usage_fields_def bind_result_eq_Inr
        assertValidTokens_ok dest!: isCardinality_valid)
qed

lemma workerResultOfValue_cost:
  "workerResultOfValue v = Some e \<Longrightarrow> ev_cost e = JUndef \<or> isValidUsd (ev_cost e)"
  by (auto simp: workerResultOfValue_def isValidUsd_def split: option.splits if_splits)

lemma validSpendEvidence_idem: "validSpendEvidence (validSpendEvidence e) = validSpendEvidence e"
  by (simp add: validSpendEvidence_def)

end
