(* ===== verification/Governor.thy ===== *)
theory Governor
  imports Governor_Config Spend_Evidence
begin

text \<open>
  \<open>BudgetGovernor\<close> of \<open>src/kernel/governor.ts\<close>: the per-run budget ledger with admission caps,
  reserve-then-settle reservations, FIFO capacity waiters and the trip. One definition per method;
  the promise a parked \<open>reserve\<close> leaves pending is its entry in \<open>g_waiters\<close>, and its resolution
  is appended to \<open>g_resolved\<close>. Clock readings on events are left out. The in-flight slots are the
  theory Slot_Pool; seeding from a journal is the theory Governor_Seed.
\<close>

section \<open>State\<close>

definition USD_EPSILON :: rat where "USD_EPSILON = 1 / 1000000000"

record reservation =
  rv_id :: string
  rv_job :: job_id
  rv_attempt :: nat
  rv_usd :: rat
  rv_class :: budget_class
  rv_proposed :: "rat option"

record hold =
  hd_res :: reservation
  hd_folded :: rat
  hd_priced :: bool

record waiter =
  wt_job :: job_id
  wt_attempt :: nat
  wt_proposed :: rat
  wt_class :: budget_class

datatype reserve_outcome = Reserved reservation | Tripped

datatype trip_reason =
    CapacityExhausted | UsdRollupExceeded | TokenRollupExceeded | ChargeOverReservation
  | UnpricedUsage | SeededUnpriced | SeededUsdOverrun | SeededTokenOverrun | CancelSignal string

datatype short_circuit =
    SC_Budget | SC_DispatchQuota | SC_AttemptCap | SC_BudgetWhileQueued | SC_CancelledWhileQueued
  | SC_AdvisoryLane

datatype governed_status = Verdict op_status | Threw_st | Invalid_st

datatype governor_event =
    Ev_Admitted op_name job_id nat
  | Ev_ShortCircuited op_name job_id short_circuit
  | Ev_Completed op_name job_id nat governed_status
  | Ev_Usage job_id "rat option"
  | Ev_BudgetTripped trip_kind trip_reason
  | Ev_Seeded nat nat
  | Ev_BoundExcludedUngoverned "run_id list"
  | Ev_Reserved job_id string rat budget_class
  | Ev_ReservationSettled job_id string rat charge_basis bool
  | Ev_Quarantined "(job_id \<times> string \<times> rat) list"
  | Ev_CapInherited rat

record governor =
  g_config :: gov_config
  g_events :: "governor_event list"
  g_tripAborted :: bool
  g_dispatched :: nat
  g_attempts :: "(job_id, nat) omap"
  g_usdSpent :: rat
  g_usage :: "usage option"
  g_trip :: "(trip_kind \<times> trip_reason) option"
  g_outstanding :: "(string, hold) omap"
  g_openByJob :: "(job_id, string) omap"
  g_outstandingUsd :: rat
  g_seq :: nat
  g_waiters :: "waiter list"
  g_resolved :: "(waiter \<times> reserve_outcome) list"
  g_inheritedCap :: "rat option"
  g_quarantined :: "(job_id, string \<times> rat) omap"

datatype gov_error =
    ConfigError config_error
  | EvidenceError evidence_error
  | ReserveNeedsCap
  | AlreadyHoldsReservation job_id
  | SettleUnknown string
  | CorruptSettleWithoutOpen string run_id
  | CorruptFinishWhileOpen job_id run_id string

definition createGovernor :: "gov_config \<Rightarrow> governor" where
  "createGovernor c = \<lparr>g_config = c, g_events = [], g_tripAborted = False, g_dispatched = 0,
     g_attempts = [], g_usdSpent = 0, g_usage = None, g_trip = None, g_outstanding = [],
     g_openByJob = [], g_outstandingUsd = 0, g_seq = 0, g_waiters = [], g_resolved = [],
     g_inheritedCap = None, g_quarantined = []\<rparr>"

definition newGovernor :: "raw_config \<Rightarrow> gov_error + governor" where
  "newGovernor c = (case validateConfig c of Inl e \<Rightarrow> throw (ConfigError e) | Inr g \<Rightarrow> ok (createGovernor g))"

section \<open>Readouts\<close>

definition tripped :: "governor \<Rightarrow> bool" where
  "tripped g \<longleftrightarrow> g_trip g \<noteq> None"

definition capUsd :: "governor \<Rightarrow> rat option" where
  "capUsd g = (case gc_maxUsd (g_config g) of Some c \<Rightarrow> Some c | None \<Rightarrow> g_inheritedCap g)"

definition attemptsFor :: "job_id \<Rightarrow> governor \<Rightarrow> nat" where
  "attemptsFor j g = (case map_of (g_attempts g) j of None \<Rightarrow> 0 | Some n \<Rightarrow> n)"

definition record_event :: "governor_event \<Rightarrow> governor \<Rightarrow> governor" where
  "record_event e g = g\<lparr>g_events := g_events g @ [e]\<rparr>"

definition beyond_folds :: "hold \<Rightarrow> rat" where
  "beyond_folds h = max 0 (rv_usd (hd_res h) - hd_folded h)"

definition heldBeyondFoldsUsd :: "governor \<Rightarrow> rat" where
  "heldBeyondFoldsUsd g = sum_list (map (\<lambda>(_, h). beyond_folds h) (g_outstanding g))"

section \<open>Tripping and waiters\<close>

text \<open>The tripped branch of \<open>drainWaiters\<close>: every waiter is refused.\<close>

definition refuse_waiters :: "governor \<Rightarrow> governor" where
  "refuse_waiters g = g\<lparr>g_waiters := [],
     g_resolved := g_resolved g @ map (\<lambda>w. (w, Tripped)) (g_waiters g)\<rparr>"

text \<open>
  \<open>trip\<close> sets the flag before it drains, so the drain it runs takes the tripped branch only.
\<close>

definition trip :: "trip_kind \<Rightarrow> trip_reason \<Rightarrow> governor \<Rightarrow> governor" where
  "trip k r g =
     (if tripped g then g
      else (refuse_waiters (record_event (Ev_BudgetTripped k r) (g\<lparr>g_trip := Some (k, r)\<rparr>)))
             \<lparr>g_tripAborted := True\<rparr>)"

definition tripSignal :: "string option \<Rightarrow> governor \<Rightarrow> governor" where
  "tripSignal detail g =
     trip Signal (CancelSignal (case detail of None \<Rightarrow> ''run-level cancel signal received'' | Some d \<Rightarrow> d)) g"

text \<open>The grant of one waiter: \<open>None\<close> when there is no capacity for it.\<close>

definition reservation_id :: "job_id \<Rightarrow> nat \<Rightarrow> nat \<Rightarrow> string" where
  "reservation_id j attempt n = j @ '':'' @ nat_str attempt @ '':'' @ nat_str n"

definition grant :: "waiter \<Rightarrow> rat \<Rightarrow> governor \<Rightarrow> governor \<times> reservation" where
  "grant w capacity g =
     (let usd = min (wt_proposed w) capacity;
          n = g_seq g + 1;
          rid = reservation_id (wt_job w) (wt_attempt w) n;
          r = \<lparr>rv_id = rid, rv_job = wt_job w, rv_attempt = wt_attempt w, rv_usd = usd,
               rv_class = wt_class w,
               rv_proposed = (if usd < wt_proposed w then Some (wt_proposed w) else None)\<rparr>
      in (record_event (Ev_Reserved (wt_job w) rid usd (wt_class w))
            (g\<lparr>g_seq := n,
               g_outstanding := omap_set rid \<lparr>hd_res = r, hd_folded = 0, hd_priced = False\<rparr> (g_outstanding g),
               g_openByJob := omap_set (wt_job w) rid (g_openByJob g),
               g_outstandingUsd := g_outstandingUsd g + usd\<rparr>), r))"

definition tryGrant :: "waiter \<Rightarrow> governor \<Rightarrow> gov_error + (governor \<times> reservation) option" where
  "tryGrant w g =
     (case capUsd g of
        None \<Rightarrow> ok None
      | Some cap \<Rightarrow>
         (let capacity = cap - g_usdSpent g - heldBeyondFoldsUsd g
          in if capacity \<le> USD_EPSILON then ok None
             else if wt_proposed w > capacity + USD_EPSILON \<and> g_outstanding g \<noteq> [] then ok None
             else if omap_has (wt_job w) (g_openByJob g) then throw (AlreadyHoldsReservation (wt_job w))
             else ok (Some (grant w capacity g))))"

definition pop_waiter :: "reservation \<Rightarrow> governor \<Rightarrow> governor" where
  "pop_waiter r g = g\<lparr>g_waiters := tl (g_waiters g),
     g_resolved := g_resolved g @ [(hd (g_waiters g), Reserved r)]\<rparr>"

lemma grant_waiters: "grant w c g = (g', r) \<Longrightarrow> g_waiters g' = g_waiters g"
  by (auto simp: grant_def record_event_def Let_def)

lemma tryGrant_waiters: "tryGrant w g = ok (Some (g', r)) \<Longrightarrow> g_waiters g' = g_waiters g"
  by (auto simp: tryGrant_def Let_def intro: grant_waiters split: option.splits if_splits)

function drainWaiters :: "governor \<Rightarrow> gov_error + governor" where
  "drainWaiters g =
     (case g_waiters g of
        [] \<Rightarrow> ok g
      | w # _ \<Rightarrow>
         if tripped g then ok (refuse_waiters g)
         else
           (let capacity = (case capUsd g of None \<Rightarrow> 0
                            | Some cap \<Rightarrow> cap - g_usdSpent g - heldBeyondFoldsUsd g)
            in if capacity \<le> USD_EPSILON
               then (if g_outstanding g = [] then ok (trip Exhausted CapacityExhausted g) else ok g)
               else (case tryGrant w g of
                       Inl e \<Rightarrow> throw e
                     | Inr None \<Rightarrow> ok g
                     | Inr (Some (g', r)) \<Rightarrow> drainWaiters (pop_waiter r g'))))"
  by pat_completeness auto
termination
  by (relation "measure (\<lambda>g. length (g_waiters g))")
    (auto simp: pop_waiter_def dest!: tryGrant_waiters)

declare drainWaiters.simps [simp del]

section \<open>Admission\<close>

datatype admission = Admit nat | Reject short_circuit

definition admit :: "job_id \<Rightarrow> governor \<Rightarrow> governor \<times> admission" where
  "admit j g =
     (if tripped g then (g, Reject SC_Budget)
      else if (case gc_dispatchQuota (g_config g) of None \<Rightarrow> False | Some q \<Rightarrow> g_dispatched g \<ge> q)
        then (g, Reject SC_DispatchQuota)
      else if (case gc_maxAttempts (g_config g) of None \<Rightarrow> False | Some m \<Rightarrow> attemptsFor j g \<ge> m)
        then (g, Reject SC_AttemptCap)
      else (g\<lparr>g_dispatched := g_dispatched g + 1,
              g_attempts := omap_set j (attemptsFor j g + 1) (g_attempts g)\<rparr>,
            Admit (attemptsFor j g + 1)))"

section \<open>Reservations\<close>

datatype reserve_result = Resolved reserve_outcome | Waiting

definition reserve :: "job_id \<Rightarrow> nat \<Rightarrow> jsnum \<Rightarrow> budget_class \<Rightarrow> governor
    \<Rightarrow> gov_error + governor \<times> reserve_result" where
  "reserve j attempt proposed cls g =
     (case capUsd g of
        None \<Rightarrow> throw ReserveNeedsCap
      | Some cap \<Rightarrow>
         (case assertValidUsd ''proposed reservation'' proposed of
            Inl e \<Rightarrow> throw (EvidenceError e)
          | Inr usd \<Rightarrow>
             if tripped g then ok (g, Resolved Tripped)
             else
               (let w = \<lparr>wt_job = j, wt_attempt = attempt, wt_proposed = usd, wt_class = cls\<rparr>
                in bind_result (if g_waiters g = [] then tryGrant w g else ok None) (\<lambda>granted.
                   case granted of
                     Some (g', r) \<Rightarrow> ok (g', Resolved (Reserved r))
                   | None \<Rightarrow>
                      if g_outstanding g = [] \<and> g_waiters g = []
                      then ok (trip Exhausted CapacityExhausted g, Resolved Tripped)
                      else ok (g\<lparr>g_waiters := g_waiters g @ [w]\<rparr>, Waiting)))))"

text \<open>A hold leaves the books, with \<open>outstandingUsd\<close> reduced by its reservation.\<close>

definition close_hold :: "reservation \<Rightarrow> governor \<Rightarrow> governor" where
  "close_hold r g = g\<lparr>g_outstanding := omap_del (rv_id r) (g_outstanding g),
     g_openByJob := omap_del (rv_job r) (g_openByJob g),
     g_outstandingUsd := g_outstandingUsd g - rv_usd r\<rparr>"

definition abandonReservation :: "reservation \<Rightarrow> governor \<Rightarrow> gov_error + governor" where
  "abandonReservation r g =
     (case map_of (g_outstanding g) (rv_id r) of
        None \<Rightarrow> ok g
      | Some h \<Rightarrow> if hd_res h \<noteq> r then ok g else drainWaiters (close_hold r g))"

definition charge_of :: "charge_basis \<Rightarrow> hold \<Rightarrow> rat" where
  "charge_of basis h = (case basis of Observed \<Rightarrow> hd_folded h | Full \<Rightarrow> max (rv_usd (hd_res h)) (hd_folded h))"

record settled =
  st_charged :: rat
  st_basis :: charge_basis
  st_priced :: bool

text \<open>The ledger part of \<open>settle\<close>, before capacity is handed on.\<close>

definition settle_books :: "hold \<Rightarrow> charge_basis \<Rightarrow> governor \<Rightarrow> governor" where
  "settle_books h basis g =
     (let r = hd_res h;
          charged = charge_of basis h;
          g1 = (close_hold r g)\<lparr>g_usdSpent := g_usdSpent g + max 0 (charged - hd_folded h)\<rparr>;
          g2 = record_event (Ev_ReservationSettled (rv_job r) (rv_id r) charged basis (hd_priced h)) g1
      in if charged > rv_usd r + USD_EPSILON then trip Breach ChargeOverReservation g2
         else (case capUsd g2 of
                 Some cap \<Rightarrow> if g_usdSpent g2 > cap + USD_EPSILON then trip Exhausted UsdRollupExceeded g2 else g2
               | None \<Rightarrow> g2))"

definition settle :: "reservation \<Rightarrow> charge_basis \<Rightarrow> raw_usage option \<Rightarrow> governor
    \<Rightarrow> gov_error + governor \<times> settled" where
  "settle r basis usage g =
     (case (case usage of None \<Rightarrow> ok () | Some u \<Rightarrow>
              (case assertValidUsage ''settled usage'' u of Inl e \<Rightarrow> throw e | Inr _ \<Rightarrow> ok ())) of
        Inl e \<Rightarrow> throw (EvidenceError e)
      | Inr _ \<Rightarrow>
         (case map_of (g_outstanding g) (rv_id r) of
            None \<Rightarrow> throw (SettleUnknown (rv_id r))
          | Some h \<Rightarrow>
             if hd_res h \<noteq> r then throw (SettleUnknown (rv_id r))
             else bind_result (drainWaiters (settle_books h basis g)) (\<lambda>g'.
                    ok (g', \<lparr>st_charged = charge_of basis h, st_basis = basis, st_priced = hd_priced h\<rparr>))))"

definition inheritCapUsd :: "jsnum \<Rightarrow> governor \<Rightarrow> gov_error + governor \<times> bool" where
  "inheritCapUsd cap g =
     (if gc_maxUsd (g_config g) \<noteq> None then ok (g, False)
      else (case assertValidUsd ''inherited cap'' cap of
              Inl e \<Rightarrow> throw (EvidenceError e)
            | Inr c \<Rightarrow>
               (case g_inheritedCap g of
                  Some c' \<Rightarrow> ok (g, c' = c)
                | None \<Rightarrow> ok (record_event (Ev_CapInherited c) (g\<lparr>g_inheritedCap := Some c\<rparr>), True))))"

section \<open>Observation\<close>

definition add_usage_opt :: "usage option \<Rightarrow> usage \<Rightarrow> usage" where
  "add_usage_opt m u = (case m of None \<Rightarrow> u | Some v \<Rightarrow> addUsage v u)"

definition fold_usage :: "job_id \<Rightarrow> usage \<Rightarrow> governor \<Rightarrow> governor" where
  "fold_usage j u g =
     (let t = add_usage_opt (g_usage g) u;
          g1 = record_event (Ev_Usage j None) (g\<lparr>g_usage := Some t\<rparr>)
      in case gc_maxTokens (g_config g) of
           Some c \<Rightarrow> if totalTokensOf t > c then trip TokenCap TokenRollupExceeded g1 else g1
         | None \<Rightarrow> g1)"

definition observeUsage :: "job_id \<Rightarrow> raw_usage \<Rightarrow> governor \<Rightarrow> gov_error + governor" where
  "observeUsage j ru g =
     (case assertValidUsage ''usage'' ru of Inl e \<Rightarrow> throw (EvidenceError e) | Inr u \<Rightarrow> ok (fold_usage j u g))"

definition attribute_fold :: "job_id \<Rightarrow> rat \<Rightarrow> governor \<Rightarrow> governor" where
  "attribute_fold j usd g =
     (case map_of (g_openByJob g) j of
        None \<Rightarrow> g
      | Some rid \<Rightarrow>
         (case map_of (g_outstanding g) rid of
            None \<Rightarrow> g
          | Some h \<Rightarrow> g\<lparr>g_outstanding :=
              omap_set rid (h\<lparr>hd_folded := hd_folded h + usd, hd_priced := True\<rparr>) (g_outstanding g)\<rparr>))"

definition fold_cost :: "job_id \<Rightarrow> rat \<Rightarrow> governor \<Rightarrow> governor" where
  "fold_cost j usd g =
     (let g1 = record_event (Ev_Usage j (Some usd))
                 (attribute_fold j usd (g\<lparr>g_usdSpent := g_usdSpent g + usd\<rparr>))
      in case capUsd g1 of
           Some cap \<Rightarrow> if g_usdSpent g1 > cap + USD_EPSILON then trip Exhausted UsdRollupExceeded g1 else g1
         | None \<Rightarrow> g1)"

definition observeCost :: "job_id \<Rightarrow> jsnum \<Rightarrow> governor \<Rightarrow> gov_error + governor" where
  "observeCost j n g =
     (case assertValidUsd ''observed cost'' n of
        Inl e \<Rightarrow> throw (EvidenceError e)
      | Inr usd \<Rightarrow> ok (fold_cost j usd g))"

definition real_usage :: "jsv \<Rightarrow> bool" where
  "real_usage v \<longleftrightarrow> isValidUsage v \<and>
     (case assertValidUsage '''' (raw_usage_of v) of Inl _ \<Rightarrow> False | Inr u \<Rightarrow> totalTokensOf u > 0)"

definition observeResult :: "job_id \<Rightarrow> spend_evidence \<Rightarrow> bool \<Rightarrow> bool \<Rightarrow> governor \<Rightarrow> gov_error + governor" where
  "observeResult j e usageCounted costCounted g =
     bind_result
       (if real_usage (ev_usage e) \<and> \<not> usageCounted then observeUsage j (raw_usage_of (ev_usage e)) g else ok g)
       (\<lambda>g1. if isValidUsd (ev_cost e)
             then (if \<not> costCounted then observeCost j (num_of (ev_cost e)) g1 else ok g1)
             else if real_usage (ev_usage e) \<and> capUsd g1 \<noteq> None \<and> \<not> costCounted
             then ok (trip Exhausted UnpricedUsage g1)
             else ok g1)"

end
