(* ===== verification/Governor_Books.thy ===== *)
theory Governor_Books
  imports Governor
begin

text \<open>
  The reservation books of the governor: what relates the open holds, the index by job, the
  running total of reserved dollars and the reservation counter, and that every operation of the
  reservation cycle keeps it. The waiters' requests are part of it: a job holds or waits once.
\<close>

section \<open>The books\<close>

definition hold_ok :: "governor \<Rightarrow> string \<Rightarrow> hold \<Rightarrow> bool" where
  "hold_ok g rid h \<longleftrightarrow> rv_id (hd_res h) = rid
     \<and> map_of (g_openByJob g) (rv_job (hd_res h)) = Some rid
     \<and> 0 \<le> rv_usd (hd_res h) \<and> 0 \<le> hd_folded h
     \<and> (\<exists>k \<le> g_seq g. rid = reservation_id (rv_job (hd_res h)) (rv_attempt (hd_res h)) k)"

definition books :: "governor \<Rightarrow> bool" where
  "books g \<longleftrightarrow> distinct (okeys (g_outstanding g)) \<and> distinct (okeys (g_openByJob g))
     \<and> (\<forall>rid h. map_of (g_outstanding g) rid = Some h \<longrightarrow> hold_ok g rid h)
     \<and> (\<forall>j rid. map_of (g_openByJob g) j = Some rid \<longrightarrow>
          (\<exists>h. map_of (g_outstanding g) rid = Some h \<and> rv_job (hd_res h) = j))
     \<and> g_outstandingUsd g = sum_list (map (\<lambda>(_, h). rv_usd (hd_res h)) (g_outstanding g))"

definition requests_ok :: "governor \<Rightarrow> bool" where
  "requests_ok g \<longleftrightarrow> distinct (map wt_job (g_waiters g))
     \<and> (\<forall>w \<in> set (g_waiters g). 0 \<le> wt_proposed w \<and> \<not> omap_has (wt_job w) (g_openByJob g))"

lemma books_cong:
  "g_outstanding g' = g_outstanding g \<Longrightarrow> g_openByJob g' = g_openByJob g
   \<Longrightarrow> g_outstandingUsd g' = g_outstandingUsd g \<Longrightarrow> g_seq g' = g_seq g \<Longrightarrow> books g' = books g"
  by (simp add: books_def hold_ok_def)

lemma booksD:
  assumes "books g" "map_of (g_outstanding g) rid = Some h"
  shows "rv_id (hd_res h) = rid" "map_of (g_openByJob g) (rv_job (hd_res h)) = Some rid"
    "0 \<le> rv_usd (hd_res h)" "0 \<le> hd_folded h"
  using assms by (auto simp: books_def hold_ok_def)

lemma books_open_inj:
  assumes "books g" "map_of (g_openByJob g) j = Some rid" "map_of (g_openByJob g) j' = Some rid"
  shows "j = j'"
  using assms unfolding books_def by (metis option.inject)

text \<open>The running total is nonnegative and bounds the part not yet folded.\<close>

lemma beyond_folds_nonneg [simp]: "0 \<le> beyond_folds h"
  by (simp add: beyond_folds_def)

lemma held_nonneg [simp]: "0 \<le> heldBeyondFoldsUsd g"
  unfolding heldBeyondFoldsUsd_def by (rule sum_list_map_nonneg) auto

lemma held_le_outstanding: "books g \<Longrightarrow> heldBeyondFoldsUsd g \<le> g_outstandingUsd g"
proof -
  assume b: "books g"
  have "beyond_folds h \<le> rv_usd (hd_res h)" if "(rid, h) \<in> set (g_outstanding g)" for rid h
  proof -
    have "map_of (g_outstanding g) rid = Some h" using b that by (simp add: books_def)
    from booksD [OF b this] show ?thesis by (simp add: beyond_folds_def)
  qed
  then have "sum_list (map (\<lambda>(_, h). beyond_folds h) (g_outstanding g))
      \<le> sum_list (map (\<lambda>(_, h). rv_usd (hd_res h)) (g_outstanding g))"
    by (intro sum_list_mono) auto
  with b show ?thesis by (simp add: heldBeyondFoldsUsd_def books_def)
qed

section \<open>What each operation leaves alone\<close>

lemma trip_ledger [simp]:
  "g_outstanding (trip k r g) = g_outstanding g" "g_openByJob (trip k r g) = g_openByJob g"
  "g_outstandingUsd (trip k r g) = g_outstandingUsd g" "g_seq (trip k r g) = g_seq g"
  "g_usdSpent (trip k r g) = g_usdSpent g" "g_usage (trip k r g) = g_usage g"
  "g_config (trip k r g) = g_config g" "g_inheritedCap (trip k r g) = g_inheritedCap g"
  "g_dispatched (trip k r g) = g_dispatched g" "g_attempts (trip k r g) = g_attempts g"
  "g_quarantined (trip k r g) = g_quarantined g"
  by (simp_all add: trip_def refuse_waiters_def record_event_def)

lemma trip_tripped [simp]: "tripped (trip k r g)"
  by (auto simp: trip_def refuse_waiters_def record_event_def tripped_def)

lemma trip_capUsd [simp]: "capUsd (trip k r g) = capUsd g"
  by (simp add: capUsd_def split: option.split)

lemma trip_held [simp]: "heldBeyondFoldsUsd (trip k r g) = heldBeyondFoldsUsd g"
  by (simp add: heldBeyondFoldsUsd_def)

lemma trip_waiters: "g_waiters (trip k r g) = (if tripped g then g_waiters g else [])"
  by (simp add: trip_def refuse_waiters_def)

lemma trip_first: "tripped g \<Longrightarrow> trip k r g = g"
  by (simp add: trip_def)

lemma trip_kind: "\<not> tripped g \<Longrightarrow> g_trip (trip k r g) = Some (k, r)"
  by (simp add: trip_def refuse_waiters_def record_event_def)

lemma record_event_simps [simp]:
  "g_outstanding (record_event e g) = g_outstanding g" "g_openByJob (record_event e g) = g_openByJob g"
  "g_outstandingUsd (record_event e g) = g_outstandingUsd g" "g_seq (record_event e g) = g_seq g"
  "g_usdSpent (record_event e g) = g_usdSpent g" "g_usage (record_event e g) = g_usage g"
  "g_config (record_event e g) = g_config g" "g_inheritedCap (record_event e g) = g_inheritedCap g"
  "g_dispatched (record_event e g) = g_dispatched g" "g_attempts (record_event e g) = g_attempts g"
  "g_quarantined (record_event e g) = g_quarantined g" "g_waiters (record_event e g) = g_waiters g"
  "g_trip (record_event e g) = g_trip g" "g_tripAborted (record_event e g) = g_tripAborted g"
  "g_resolved (record_event e g) = g_resolved g"
  "tripped (record_event e g) = tripped g" "capUsd (record_event e g) = capUsd g"
  "heldBeyondFoldsUsd (record_event e g) = heldBeyondFoldsUsd g"
  by (simp_all add: record_event_def tripped_def capUsd_def heldBeyondFoldsUsd_def split: option.split)

section \<open>Granting\<close>

lemma reservation_id_inj: "reservation_id j a m = reservation_id j' a' n \<Longrightarrow> m = n"
proof -
  assume "reservation_id j a m = reservation_id j' a' n"
  then have "(j @ CHR '':'' # nat_str a) @ CHR '':'' # nat_str m
      = (j' @ CHR '':'' # nat_str a') @ CHR '':'' # nat_str n"
    by (simp add: reservation_id_def)
  then show "m = n" using colon_suffix_inj colon_notin_nat_str nat_str_inj by blast
qed

lemma books_fresh_id:
  assumes "books g" shows "reservation_id j a (g_seq g + 1) \<notin> set (okeys (g_outstanding g))"
proof
  assume "reservation_id j a (g_seq g + 1) \<in> set (okeys (g_outstanding g))"
  then obtain h where "map_of (g_outstanding g) (reservation_id j a (g_seq g + 1)) = Some h"
    by (metis map_of_eq_None_iff list.set_map not_None_eq)
  with assms have "hold_ok g (reservation_id j a (g_seq g + 1)) h" by (simp add: books_def)
  then show False by (auto simp: hold_ok_def dest: reservation_id_inj)
qed

lemma grant_simps:
  assumes "grant w c g = (g', r)" "books g"
  shows "g_waiters g' = g_waiters g" "g_usdSpent g' = g_usdSpent g" "g_config g' = g_config g"
    "g_inheritedCap g' = g_inheritedCap g" "g_usage g' = g_usage g" "g_trip g' = g_trip g"
    "g_tripAborted g' = g_tripAborted g" "g_resolved g' = g_resolved g" "rv_job r = wt_job w"
    "rv_usd r = min (wt_proposed w) c" "rv_class r = wt_class w" "rv_attempt r = wt_attempt w"
    "rv_id r = reservation_id (wt_job w) (wt_attempt w) (g_seq g + 1)"
    "g_outstanding g' = g_outstanding g @ [(rv_id r, \<lparr>hd_res = r, hd_folded = 0, hd_priced = False\<rparr>)]"
    "g_openByJob g' = omap_set (wt_job w) (rv_id r) (g_openByJob g)"
    "g_outstandingUsd g' = g_outstandingUsd g + rv_usd r" "g_seq g' = g_seq g + 1"
    "g_dispatched g' = g_dispatched g" "g_attempts g' = g_attempts g" "g_quarantined g' = g_quarantined g"
  using assms books_fresh_id [OF assms(2), of "wt_job w" "wt_attempt w"]
  by (auto simp: grant_def Let_def omap_set_new)

lemma grant_held:
  assumes "grant w c g = (g', r)" "books g" "0 \<le> wt_proposed w" "0 \<le> c"
  shows "heldBeyondFoldsUsd g' = heldBeyondFoldsUsd g + min (wt_proposed w) c"
  using assms by (simp add: heldBeyondFoldsUsd_def grant_simps [OF assms(1,2)] beyond_folds_def)

lemma books_grant:
  assumes g: "grant w c g = (g', r)" and b: "books g" and "0 \<le> wt_proposed w" "0 \<le> c"
    and idle: "\<not> omap_has (wt_job w) (g_openByJob g)"
  shows "books g'"
proof -
  note gs = grant_simps [OF g b]
  let ?rid = "rv_id r"
  have fresh: "?rid \<notin> set (okeys (g_outstanding g))" using books_fresh_id [OF b] gs by simp
  have new: "map_of (g_outstanding g') = (map_of (g_outstanding g))(?rid \<mapsto> \<lparr>hd_res = r, hd_folded = 0, hd_priced = False\<rparr>)"
    by (simp only: gs(14) map_of_append_new [OF fresh])
  have idle': "map_of (g_openByJob g) (wt_job w) = None" using idle by (simp add: omap_has_def)
  have old: "hold_ok g' rid h" if "map_of (g_outstanding g) rid = Some h" for rid h
  proof -
    have "hold_ok g rid h" using b that by (simp add: books_def)
    moreover from this have "rv_job (hd_res h) \<noteq> wt_job w" using idle' by (auto simp: hold_ok_def)
    ultimately show ?thesis by (auto simp: hold_ok_def gs intro: le_SucI)
  qed
  have newok: "hold_ok g' ?rid \<lparr>hd_res = r, hd_folded = 0, hd_priced = False\<rparr>"
    using assms(3,4) by (auto simp: hold_ok_def gs)
  have "\<exists>h. map_of (g_outstanding g') rid = Some h \<and> rv_job (hd_res h) = j"
    if "map_of (g_openByJob g') j = Some rid" for j rid
  proof (cases "j = wt_job w")
    case True
    with that have "rid = ?rid" by (simp add: gs)
    with True show ?thesis by (simp add: new gs(9))
  next
    case False
    with that have "map_of (g_openByJob g) j = Some rid" by (simp add: gs)
    then obtain h where h: "map_of (g_outstanding g) rid = Some h" "rv_job (hd_res h) = j"
      using b unfolding books_def by blast
    with fresh have "rid \<noteq> ?rid" by (metis map_of_eq_None_iff list.set_map option.distinct(1))
    with h show ?thesis by (simp add: new)
  qed
  then show ?thesis
    using b fresh old newok unfolding books_def
    by (auto simp: gs(14,15,16) distinct_omap_set new [unfolded gs(14)] split: if_splits)
qed

section \<open>Closing a hold and folding into one\<close>

lemma close_hold_simps [simp]:
  "g_waiters (close_hold r g) = g_waiters g" "g_usdSpent (close_hold r g) = g_usdSpent g"
  "g_config (close_hold r g) = g_config g" "g_inheritedCap (close_hold r g) = g_inheritedCap g"
  "g_usage (close_hold r g) = g_usage g" "g_trip (close_hold r g) = g_trip g"
  "g_tripAborted (close_hold r g) = g_tripAborted g" "g_resolved (close_hold r g) = g_resolved g"
  "g_seq (close_hold r g) = g_seq g" "tripped (close_hold r g) = tripped g"
  "capUsd (close_hold r g) = capUsd g"
  "g_dispatched (close_hold r g) = g_dispatched g" "g_attempts (close_hold r g) = g_attempts g"
  "g_quarantined (close_hold r g) = g_quarantined g"
  by (simp_all add: close_hold_def tripped_def capUsd_def split: option.split)

lemma close_hold_books:
  assumes b: "books g" and h: "map_of (g_outstanding g) (rv_id (hd_res h)) = Some h"
  shows "books (close_hold (hd_res h) g)"
proof -
  let ?r = "hd_res h" and ?g = "close_hold (hd_res h) g"
  have out: "map_of (g_outstanding ?g) = (map_of (g_outstanding g))(rv_id ?r := None)"
    and opn: "map_of (g_openByJob ?g) = (map_of (g_openByJob g))(rv_job ?r := None)"
    by (simp_all add: close_hold_def)
  have "hold_ok ?g rid h'" if "map_of (g_outstanding ?g) rid = Some h'" for rid h'
  proof -
    from that have h': "rid \<noteq> rv_id ?r" "map_of (g_outstanding g) rid = Some h'"
      by (auto simp: out split: if_splits)
    then have "hold_ok g rid h'" using b by (simp add: books_def)
    moreover have "rv_job (hd_res h') \<noteq> rv_job ?r"
      using booksD(2) [OF b h'(2)] booksD(2) [OF b h] h'(1) by auto
    ultimately show ?thesis by (simp add: hold_ok_def opn)
  qed
  moreover have "\<exists>h'. map_of (g_outstanding ?g) rid = Some h' \<and> rv_job (hd_res h') = j"
    if "map_of (g_openByJob ?g) j = Some rid" for j rid
  proof -
    from that have j: "j \<noteq> rv_job ?r" "map_of (g_openByJob g) j = Some rid"
      by (auto simp: opn split: if_splits)
    then obtain h' where h': "map_of (g_outstanding g) rid = Some h'" "rv_job (hd_res h') = j"
      using b unfolding books_def by blast
    with j h have "rid \<noteq> rv_id ?r" by auto
    with h' show ?thesis by (auto simp: out)
  qed
  moreover have "g_outstandingUsd ?g = sum_list (map (\<lambda>(_, h). rv_usd (hd_res h)) (g_outstanding ?g))"
    using b sum_list_map_filter_out [OF _ h, of "\<lambda>(_, h). rv_usd (hd_res h)"]
    by (simp add: books_def close_hold_def)
  ultimately show ?thesis
    using b unfolding books_def by (simp add: close_hold_def distinct_omap_del)
qed

lemma close_hold_held:
  assumes "books g" and "map_of (g_outstanding g) (rv_id (hd_res h)) = Some h"
  shows "heldBeyondFoldsUsd (close_hold (hd_res h) g) = heldBeyondFoldsUsd g - beyond_folds h"
  using assms sum_list_map_filter_out [OF _ assms(2), of "\<lambda>(_, h). beyond_folds h"]
  by (simp add: books_def close_hold_def heldBeyondFoldsUsd_def)

lemma close_hold_length:
  assumes "books g" and "map_of (g_outstanding g) (rv_id (hd_res h)) = Some h"
  shows "length (g_outstanding (close_hold (hd_res h) g)) < length (g_outstanding g)"
  using map_of_SomeD [OF assms(2)] unfolding close_hold_def omap_del_def
  by (simp, intro length_filter_less) auto

lemma attribute_fold_simps [simp]:
  "g_waiters (attribute_fold j u g) = g_waiters g" "g_usdSpent (attribute_fold j u g) = g_usdSpent g"
  "g_config (attribute_fold j u g) = g_config g" "g_inheritedCap (attribute_fold j u g) = g_inheritedCap g"
  "g_usage (attribute_fold j u g) = g_usage g" "g_trip (attribute_fold j u g) = g_trip g"
  "g_tripAborted (attribute_fold j u g) = g_tripAborted g" "g_resolved (attribute_fold j u g) = g_resolved g"
  "g_seq (attribute_fold j u g) = g_seq g" "tripped (attribute_fold j u g) = tripped g"
  "capUsd (attribute_fold j u g) = capUsd g" "g_openByJob (attribute_fold j u g) = g_openByJob g"
  "g_outstandingUsd (attribute_fold j u g) = g_outstandingUsd g"
  "g_dispatched (attribute_fold j u g) = g_dispatched g" "g_attempts (attribute_fold j u g) = g_attempts g"
  "g_quarantined (attribute_fold j u g) = g_quarantined g"
  by (simp_all add: attribute_fold_def tripped_def capUsd_def split: option.splits)

lemma attribute_fold_open:
  assumes "map_of (g_openByJob g) j = Some rid" "map_of (g_outstanding g) rid = Some h"
  shows "g_outstanding (attribute_fold j u g)
       = omap_set rid (h\<lparr>hd_folded := hd_folded h + u, hd_priced := True\<rparr>) (g_outstanding g)"
  using assms by (simp add: attribute_fold_def)

lemma attribute_fold_none: "map_of (g_openByJob g) j = None \<Longrightarrow> attribute_fold j u g = g"
  by (simp add: attribute_fold_def)

lemma attribute_fold_nonempty: "g_outstanding (attribute_fold j u g) = [] \<longleftrightarrow> g_outstanding g = []"
  by (auto simp: attribute_fold_def split: option.splits)

lemma attribute_fold_books:
  assumes b: "books g" and u: "0 \<le> u"
  shows "books (attribute_fold j u g)"
proof (cases "map_of (g_openByJob g) j")
  case None
  with b show ?thesis by (simp add: attribute_fold_none)
next
  case (Some rid)
  with b obtain h where h: "map_of (g_outstanding g) rid = Some h" "rv_job (hd_res h) = j"
    unfolding books_def by blast
  let ?h = "h\<lparr>hd_folded := hd_folded h + u, hd_priced := True\<rparr>"
  note out = attribute_fold_open [OF Some h(1), of u]
  have "sum_list (map (\<lambda>(_, h). rv_usd (hd_res h)) (omap_set rid ?h (g_outstanding g)))
      = sum_list (map (\<lambda>(_, h). rv_usd (hd_res h)) (g_outstanding g))"
    using b h(1) by (subst sum_list_map_omap_set) (auto simp: books_def)
  moreover have "hold_ok (attribute_fold j u g) r h'" if "map_of (g_outstanding (attribute_fold j u g)) r = Some h'" for r h'
  proof (cases "r = rid")
    case True
    with that have "h' = ?h" by (simp add: out)
    with True b h u show ?thesis by (auto simp: books_def hold_ok_def)
  next
    case False
    with that b show ?thesis by (auto simp: out books_def hold_ok_def)
  qed
  moreover have "\<exists>h'. map_of (g_outstanding (attribute_fold j u g)) r = Some h' \<and> rv_job (hd_res h') = i"
    if "map_of (g_openByJob g) i = Some r" for i r
  proof -
    from that b obtain h' where "map_of (g_outstanding g) r = Some h'" "rv_job (hd_res h') = i"
      unfolding books_def by blast
    with h show ?thesis by (auto simp: out)
  qed
  ultimately show ?thesis
    using b unfolding books_def by (simp add: distinct_omap_set out)
qed

lemma attribute_fold_held:
  assumes b: "books g" and "map_of (g_openByJob g) j = Some rid" and h: "map_of (g_outstanding g) rid = Some h"
  shows "heldBeyondFoldsUsd (attribute_fold j u g)
       = heldBeyondFoldsUsd g - beyond_folds h + max 0 (rv_usd (hd_res h) - (hd_folded h + u))"
  using assms by (simp add: heldBeyondFoldsUsd_def attribute_fold_open sum_list_map_omap_set books_def beyond_folds_def)

end
