(* ===== verification/Governor_Drain.thy ===== *)
theory Governor_Drain
  imports Governor_Books
begin

text \<open>
  Handing capacity to the parked dispatches (\<open>drainWaiters\<close>): it never throws on consistent books,
  serves the queue from its head, consumes capacity it really has, and leaves no waiter that could
  be served or that nothing will ever wake. The proofs go through one induction rule over the ways
  the loop can go.
\<close>

section \<open>Capacity\<close>

definition capacity :: "governor \<Rightarrow> rat" where
  "capacity g = (case capUsd g of None \<Rightarrow> 0 | Some c \<Rightarrow> c - g_usdSpent g - heldBeyondFoldsUsd g)"

text \<open>The waiter cannot be granted now.\<close>

definition blocked :: "waiter \<Rightarrow> governor \<Rightarrow> bool" where
  "blocked w g \<longleftrightarrow> capacity g \<le> USD_EPSILON
     \<or> (wt_proposed w > capacity g + USD_EPSILON \<and> g_outstanding g \<noteq> [])"

lemma USD_EPSILON_pos [simp]: "0 < USD_EPSILON" "0 \<le> USD_EPSILON" "\<not> USD_EPSILON < 0" "\<not> USD_EPSILON \<le> 0"
  by (simp_all add: USD_EPSILON_def)

lemma tryGrant_eq:
  "tryGrant w g =
     (if blocked w g then ok None
      else if omap_has (wt_job w) (g_openByJob g) then throw (AlreadyHoldsReservation (wt_job w))
      else ok (Some (grant w (capacity g) g)))"
  using USD_EPSILON_pos by (auto simp: tryGrant_def blocked_def capacity_def Let_def split: option.splits)

lemma drain_unfold:
  "drainWaiters g =
     (case g_waiters g of
        [] \<Rightarrow> ok g
      | w # ws \<Rightarrow>
         if tripped g then ok (refuse_waiters g)
         else if capacity g \<le> USD_EPSILON \<and> g_outstanding g = [] then ok (trip Exhausted CapacityExhausted g)
         else if blocked w g then ok g
         else if omap_has (wt_job w) (g_openByJob g) then throw (AlreadyHoldsReservation (wt_job w))
         else (case grant w (capacity g) g of (g', r) \<Rightarrow> drainWaiters (pop_waiter r g')))"
  by (subst drainWaiters.simps)
    (auto simp: Let_def tryGrant_eq capacity_def [symmetric] blocked_def
      split: list.splits prod.splits)

lemma capUsd_cong:
  "g_config g' = g_config g \<Longrightarrow> g_inheritedCap g' = g_inheritedCap g \<Longrightarrow> capUsd g' = capUsd g"
  by (simp add: capUsd_def split: option.split)

lemma capacity_some: "USD_EPSILON < capacity g \<Longrightarrow> \<exists>c. capUsd g = Some c"
  using USD_EPSILON_pos by (auto simp: capacity_def split: option.splits)

lemma blocked_mono:
  "blocked w g \<Longrightarrow> capacity g' \<le> capacity g \<Longrightarrow> g_outstanding g' \<noteq> [] \<Longrightarrow> blocked w g'"
  by (auto simp: blocked_def)

section \<open>One grant from the head\<close>

lemma pop_waiter_simps [simp]:
  "g_outstanding (pop_waiter r g) = g_outstanding g" "g_openByJob (pop_waiter r g) = g_openByJob g"
  "g_outstandingUsd (pop_waiter r g) = g_outstandingUsd g" "g_seq (pop_waiter r g) = g_seq g"
  "g_usdSpent (pop_waiter r g) = g_usdSpent g" "g_usage (pop_waiter r g) = g_usage g"
  "g_config (pop_waiter r g) = g_config g" "g_inheritedCap (pop_waiter r g) = g_inheritedCap g"
  "g_trip (pop_waiter r g) = g_trip g" "g_tripAborted (pop_waiter r g) = g_tripAborted g"
  "g_waiters (pop_waiter r g) = tl (g_waiters g)"
  "g_resolved (pop_waiter r g) = g_resolved g @ [(hd (g_waiters g), Reserved r)]"
  "tripped (pop_waiter r g) = tripped g" "capUsd (pop_waiter r g) = capUsd g"
  "heldBeyondFoldsUsd (pop_waiter r g) = heldBeyondFoldsUsd g" "books (pop_waiter r g) = books g"
  "g_dispatched (pop_waiter r g) = g_dispatched g" "g_attempts (pop_waiter r g) = g_attempts g"
  "g_quarantined (pop_waiter r g) = g_quarantined g"
  by (simp_all add: pop_waiter_def tripped_def capUsd_def heldBeyondFoldsUsd_def books_def hold_ok_def
      split: option.split)

lemma requests_grant:
  assumes "grant w c g = (g', r)" "books g" "g_waiters g = w # ws" "requests_ok g"
  shows "requests_ok (pop_waiter r g')"
  using assms(3,4)
  by (auto simp: requests_ok_def grant_simps [OF assms(1,2)] omap_has_def image_iff)

lemma blocked_pos: "\<not> blocked w g \<Longrightarrow> 0 < capacity g"
  using less_trans [OF USD_EPSILON_pos(1), of "capacity g"] by (auto simp: blocked_def not_le)

section \<open>The induction rule of the loop\<close>

lemma drain_total:
  "books g \<Longrightarrow> requests_ok g \<Longrightarrow> \<exists>g'. drainWaiters g = ok g'"
proof (induction "length (g_waiters g)" arbitrary: g rule: less_induct)
  case less
  show ?case
  proof (cases "g_waiters g")
    case Nil
    then show ?thesis by (simp add: drain_unfold)
  next
    case (Cons w ws)
    obtain g1 r where g1: "grant w (capacity g) g = (g1, r)" by fastforce
    have idle: "\<not> omap_has (wt_job w) (g_openByJob g)" and p: "0 \<le> wt_proposed w"
      using less.prems(2) Cons by (auto simp: requests_ok_def)
    have "\<exists>g'. drainWaiters (pop_waiter r g1) = ok g'" if "\<not> blocked w g"
    proof (rule less.hyps)
      show "length (g_waiters (pop_waiter r g1)) < length (g_waiters g)"
        using Cons by (simp add: grant_waiters [OF g1])
      show "books (pop_waiter r g1)"
        using books_grant [OF g1 less.prems(1) p _ idle] blocked_pos [OF that] by simp
      show "requests_ok (pop_waiter r g1)"
        using requests_grant [OF g1 less.prems(1) Cons less.prems(2)] .
    qed
    with Cons idle g1 show ?thesis by (subst drain_unfold) auto
  qed
qed

lemma drain_induct [consumes 3, case_names empty refuse spent wait grant]:
  assumes "drainWaiters g = ok g'" "books g" "requests_ok g"
    and empty: "\<And>g. g_waiters g = [] \<Longrightarrow> P g g"
    and refuse: "\<And>g. tripped g \<Longrightarrow> g_waiters g \<noteq> [] \<Longrightarrow> P g (refuse_waiters g)"
    and spent: "\<And>g. \<not> tripped g \<Longrightarrow> g_waiters g \<noteq> [] \<Longrightarrow> g_outstanding g = []
        \<Longrightarrow> capacity g \<le> USD_EPSILON \<Longrightarrow> P g (trip Exhausted CapacityExhausted g)"
    and wait: "\<And>g w ws. \<not> tripped g \<Longrightarrow> g_waiters g = w # ws \<Longrightarrow> g_outstanding g \<noteq> []
        \<Longrightarrow> blocked w g \<Longrightarrow> P g g"
    and grant: "\<And>g w ws g1 r g'. \<not> tripped g \<Longrightarrow> g_waiters g = w # ws \<Longrightarrow> \<not> blocked w g
        \<Longrightarrow> books g \<Longrightarrow> requests_ok g \<Longrightarrow> grant w (capacity g) g = (g1, r)
        \<Longrightarrow> books (pop_waiter r g1) \<Longrightarrow> drainWaiters (pop_waiter r g1) = ok g'
        \<Longrightarrow> P (pop_waiter r g1) g' \<Longrightarrow> P g g'"
  shows "P g g'"
  using assms(1-3)
proof (induction "length (g_waiters g)" arbitrary: g rule: less_induct)
  case less
  show ?case
  proof (cases "g_waiters g")
    case Nil
    with less.prems(1) empty show ?thesis by (simp add: drain_unfold)
  next
    case (Cons w ws)
    have idle: "\<not> omap_has (wt_job w) (g_openByJob g)" and p: "0 \<le> wt_proposed w"
      using less.prems(3) Cons by (auto simp: requests_ok_def)
    obtain g1 r where g1: "grant w (capacity g) g = (g1, r)" by fastforce
    consider (t) "tripped g" | (s) "\<not> tripped g" "capacity g \<le> USD_EPSILON" "g_outstanding g = []"
      | (w) "\<not> tripped g" "blocked w g" "g_outstanding g \<noteq> []" | (g) "\<not> tripped g" "\<not> blocked w g"
      by (auto simp: blocked_def)
    then show ?thesis
    proof cases
      case t
      with less.prems(1) Cons have "g' = refuse_waiters g" by (simp add: drain_unfold)
      with refuse [OF t] Cons show ?thesis by simp
    next
      case s
      with less.prems(1) Cons have "g' = trip Exhausted CapacityExhausted g" by (simp add: drain_unfold)
      with spent [OF s(1) _ s(3,2)] Cons show ?thesis by simp
    next
      case w
      with less.prems(1) Cons wait [OF w(1) Cons w(3,2)] show ?thesis by (simp add: drain_unfold)
    next
      case g
      then have d: "drainWaiters (pop_waiter r g1) = ok g'"
        using less.prems(1) Cons idle g1 by (subst (asm) drain_unfold) (auto simp: blocked_def)
      have b: "books (pop_waiter r g1)"
        using books_grant [OF g1 less.prems(2) p _ idle] blocked_pos [OF g(2)] by simp
      have "P (pop_waiter r g1) g'"
        using less.hyps [OF _ d b requests_grant [OF g1 less.prems(2) Cons less.prems(3)]] Cons
        by (simp add: grant_waiters [OF g1])
      with grant [OF g(1) Cons g(2) less.prems(2,3) g1 b d] show ?thesis by blast
    qed
  qed
qed

section \<open>What a drain leaves\<close>

text \<open>
  Nobody is parked after a trip; a parked dispatch has an open reservation to wait for and cannot
  be granted now.
\<close>

definition quiet :: "governor \<Rightarrow> bool" where
  "quiet g \<longleftrightarrow> g_tripAborted g = tripped g
     \<and> (tripped g \<longrightarrow> g_waiters g = [])
     \<and> (g_waiters g \<noteq> [] \<longrightarrow> g_outstanding g \<noteq> [] \<and> blocked (hd (g_waiters g)) g)"

lemma refuse_waiters_simps [simp]:
  "g_outstanding (refuse_waiters g) = g_outstanding g" "g_openByJob (refuse_waiters g) = g_openByJob g"
  "g_outstandingUsd (refuse_waiters g) = g_outstandingUsd g" "g_seq (refuse_waiters g) = g_seq g"
  "g_usdSpent (refuse_waiters g) = g_usdSpent g" "g_usage (refuse_waiters g) = g_usage g"
  "g_config (refuse_waiters g) = g_config g" "g_inheritedCap (refuse_waiters g) = g_inheritedCap g"
  "g_trip (refuse_waiters g) = g_trip g" "g_tripAborted (refuse_waiters g) = g_tripAborted g"
  "g_waiters (refuse_waiters g) = []" "tripped (refuse_waiters g) = tripped g"
  "g_resolved (refuse_waiters g) = g_resolved g @ map (\<lambda>w. (w, Tripped)) (g_waiters g)"
  "capUsd (refuse_waiters g) = capUsd g" "heldBeyondFoldsUsd (refuse_waiters g) = heldBeyondFoldsUsd g"
  "books (refuse_waiters g) = books g"
  "g_dispatched (refuse_waiters g) = g_dispatched g" "g_attempts (refuse_waiters g) = g_attempts g"
  "g_quarantined (refuse_waiters g) = g_quarantined g"
  by (simp_all add: refuse_waiters_def tripped_def capUsd_def heldBeyondFoldsUsd_def books_def hold_ok_def
      split: option.split)

lemma trip_books [simp]: "books (trip k r g) = books g"
  by (rule books_cong) simp_all

lemma record_books [simp]: "books (record_event e g) = books g"
  by (rule books_cong) simp_all

lemma trip_aborted: "\<not> tripped g \<Longrightarrow> g_tripAborted (trip k r g)"
  by (simp add: trip_def)

lemma trip_resolved:
  "g_resolved (trip k r g) = (if tripped g then g_resolved g
     else g_resolved g @ map (\<lambda>w. (w, Tripped)) (g_waiters g))"
  by (simp add: trip_def)

lemma trip_quiet: "\<lbrakk>g_tripAborted g = tripped g; tripped g \<longrightarrow> g_waiters g = []\<rbrakk> \<Longrightarrow> quiet (trip k r g)"
  by (cases "tripped g") (simp_all add: quiet_def trip_first trip_waiters trip_aborted)

lemma trip_requests: "requests_ok g \<Longrightarrow> requests_ok (trip k r g)"
  by (simp add: requests_ok_def trip_waiters)

lemma drain_same:
  assumes "drainWaiters g = ok g'" "books g" "requests_ok g"
  shows "g_usdSpent g' = g_usdSpent g \<and> g_config g' = g_config g \<and> g_usage g' = g_usage g
    \<and> g_inheritedCap g' = g_inheritedCap g \<and> (tripped g \<longrightarrow> tripped g')
    \<and> g_dispatched g' = g_dispatched g \<and> g_attempts g' = g_attempts g
    \<and> g_quarantined g' = g_quarantined g"
  using assms
proof (induction rule: drain_induct)
  case (grant g w ws g1 r g')
  then show ?case by (simp add: grant_simps [OF grant(6,4)] tripped_def)
qed simp_all

lemma drain_capUsd:
  assumes "drainWaiters g = ok g'" "books g" "requests_ok g"
  shows "capUsd g' = capUsd g"
  using drain_same [OF assms] by (intro capUsd_cong) simp_all

lemma drain_books:
  assumes "drainWaiters g = ok g'" "books g" "requests_ok g"
  shows "books g \<longrightarrow> requests_ok g \<longrightarrow> books g' \<and> requests_ok g'"
  using assms
proof (induction rule: drain_induct)
  case (grant g w ws g1 r g')
  then show ?case using requests_grant [OF grant(6,4,2,5)] by blast
qed (auto simp: requests_ok_def trip_waiters)

lemma drain_quiet:
  assumes "drainWaiters g = ok g'" "books g" "requests_ok g"
  shows "g_tripAborted g = tripped g \<longrightarrow> quiet g'"
  using assms
proof (induction rule: drain_induct)
  case (spent g)
  then show ?case by (simp add: trip_quiet)
next
  case (grant g w ws g1 r g')
  then show ?case by (simp add: grant_simps [OF grant(6,4)] tripped_def)
qed (auto simp: quiet_def)

text \<open>A grant takes only capacity that is there.\<close>

lemma grant_within_cap:
  assumes g: "grant w (capacity g) g = (g1, r)" "books g" "capUsd g = Some c" "\<not> blocked w g"
    "0 \<le> wt_proposed w"
  shows "g_usdSpent g1 + heldBeyondFoldsUsd g1 \<le> c"
proof -
  have "capacity g = c - g_usdSpent g - heldBeyondFoldsUsd g" using g(3) by (simp add: capacity_def)
  moreover have "heldBeyondFoldsUsd g1 = heldBeyondFoldsUsd g + min (wt_proposed w) (capacity g)"
    using grant_held [OF g(1,2,5)] blocked_pos [OF g(4)] by simp
  ultimately show ?thesis using grant_simps(2) [OF g(1,2)] by (simp add: min_def)
qed

lemma drain_within_cap:
  assumes "drainWaiters g = ok g'" "books g" "requests_ok g"
  shows "capUsd g = Some c \<longrightarrow>
    g_usdSpent g' + heldBeyondFoldsUsd g' \<le> max c (g_usdSpent g + heldBeyondFoldsUsd g)"
  using assms
proof (induction rule: drain_induct)
  case (grant g w ws g1 r g')
  show ?case
  proof
    assume c: "capUsd g = Some c"
    have "0 \<le> wt_proposed w" using grant(2,5) by (simp add: requests_ok_def)
    then have "g_usdSpent g1 + heldBeyondFoldsUsd g1 \<le> c"
      using grant_within_cap [OF grant(6,4) c grant(3)] by simp
    moreover have "capUsd g1 = Some c" using c capUsd_cong [of g1 g] by (simp add: grant_simps [OF grant(6,4)])
    ultimately show "g_usdSpent g' + heldBeyondFoldsUsd g' \<le> max c (g_usdSpent g + heldBeyondFoldsUsd g)"
      using grant(9) by (simp add: max_def split: if_splits)
  qed
qed (simp_all add: heldBeyondFoldsUsd_def)

text \<open>
  The queue is served from its head: the waiters granted are a prefix of the queue in order, and
  the rest either stay parked in order or are all refused by a trip.
\<close>

lemma drain_fifo:
  assumes "drainWaiters g = ok g'" "books g" "requests_ok g"
  shows "\<exists>granted rest. g_waiters g = map fst granted @ rest
    \<and> ((g_waiters g' = rest \<and> g_resolved g' = g_resolved g @ map (\<lambda>(w, r). (w, Reserved r)) granted)
       \<or> (g_waiters g' = [] \<and> tripped g' \<and> g_resolved g' = g_resolved g
            @ map (\<lambda>(w, r). (w, Reserved r)) granted @ map (\<lambda>w. (w, Tripped)) rest))"
  using assms
proof (induction rule: drain_induct)
  case (empty g)
  then show ?case by (intro exI [of _ "[]"]) simp
next
  case (refuse g)
  then show ?case by (intro exI [of _ "[]"] exI [of _ "g_waiters g"]) simp
next
  case (spent g)
  then show ?case by (intro exI [of _ "[]"] exI [of _ "g_waiters g"]) (simp add: trip_waiters trip_resolved)
next
  case (wait g w ws)
  then show ?case by (intro exI [of _ "[]"] exI [of _ "g_waiters g"]) simp
next
  case (grant g w ws g1 r g')
  from grant(9) obtain gr rest where
    "ws = map fst gr @ rest"
    "(g_waiters g' = rest \<and> g_resolved g' = g_resolved g @ (w, Reserved r) # map (\<lambda>(w, r). (w, Reserved r)) gr)
      \<or> (g_waiters g' = [] \<and> tripped g' \<and> g_resolved g' = g_resolved g
            @ (w, Reserved r) # map (\<lambda>(w, r). (w, Reserved r)) gr @ map (\<lambda>w. (w, Tripped)) rest)"
    by (auto simp: grant_simps [OF grant(6,4)] grant(2))
  with grant(2) show ?case by (intro exI [of _ "(w, r) # gr"] exI [of _ rest]) auto
qed

text \<open>Each grant trades a waiter for a hold, so holds and waiters together never increase.\<close>

lemma drain_measure:
  assumes "drainWaiters g = ok g'" "books g" "requests_ok g"
  shows "length (g_outstanding g') + length (g_waiters g') \<le> length (g_outstanding g) + length (g_waiters g)"
  using assms
proof (induction rule: drain_induct)
  case (grant g w ws g1 r g')
  then show ?case by (simp add: grant_simps [OF grant(6,4)])
qed (simp_all add: trip_waiters)

end
