(* ===== verification/Governor_Inv.thy ===== *)
theory Governor_Inv
  imports Governor_Drain
begin

text \<open>
  The governor as a state machine: one command per method, a step relation over the calls the
  runner makes, the invariant of every reachable state, and the bound on what a run can spend.
\<close>

section \<open>Commands\<close>

datatype gov_cmd =
    C_Admit job_id
  | C_Reserve job_id nat jsnum budget_class
  | C_Abandon reservation
  | C_Settle reservation charge_basis "raw_usage option"
  | C_ObserveUsage job_id raw_usage
  | C_ObserveCost job_id jsnum
  | C_ObserveResult job_id spend_evidence bool bool
  | C_Trip trip_kind trip_reason
  | C_TripSignal "string option"

fun exec :: "gov_cmd \<Rightarrow> governor \<Rightarrow> gov_error + governor" where
  "exec (C_Admit j) g = ok (fst (admit j g))"
| "exec (C_Reserve j a p cls) g = bind_result (reserve j a p cls g) (\<lambda>(g', _). ok g')"
| "exec (C_Abandon r) g = abandonReservation r g"
| "exec (C_Settle r b u) g = bind_result (settle r b u g) (\<lambda>(g', _). ok g')"
| "exec (C_ObserveUsage j u) g = observeUsage j u g"
| "exec (C_ObserveCost j n) g = observeCost j n g"
| "exec (C_ObserveResult j e uc cc) g = observeResult j e uc cc g"
| "exec (C_Trip k r) g = ok (trip k r g)"
| "exec (C_TripSignal d) g = ok (tripSignal d g)"

text \<open>
  The runner dispatches a job once at a time: it reserves for a job only when the job neither
  holds a reservation nor waits for one.
\<close>

definition idle_job :: "job_id \<Rightarrow> governor \<Rightarrow> bool" where
  "idle_job j g \<longleftrightarrow> \<not> omap_has j (g_openByJob g) \<and> j \<notin> wt_job ` set (g_waiters g)"

fun allowed :: "gov_cmd \<Rightarrow> governor \<Rightarrow> bool" where
  "allowed (C_Reserve j a p cls) g = idle_job j g"
| "allowed _ g = True"

inductive gov_step :: "governor \<Rightarrow> governor \<Rightarrow> bool" where
  gov_cmd: "allowed c g \<Longrightarrow> exec c g = ok g' \<Longrightarrow> gov_step g g'"

inductive_cases gov_stepE: "gov_step g g'"

section \<open>The invariant\<close>

definition rollup_ok :: "governor \<Rightarrow> bool" where
  "rollup_ok g \<longleftrightarrow> \<not> tripped g \<longrightarrow>
     (case capUsd g of None \<Rightarrow> True | Some c \<Rightarrow> g_usdSpent g \<le> c + USD_EPSILON)
     \<and> (case gc_maxTokens (g_config g) of None \<Rightarrow> True
        | Some t \<Rightarrow> (case g_usage g of None \<Rightarrow> True | Some u \<Rightarrow> totalTokensOf u \<le> t))"

definition gov_inv :: "governor \<Rightarrow> bool" where
  "gov_inv g \<longleftrightarrow> books g \<and> requests_ok g \<and> quiet g \<and> rollup_ok g \<and> 0 \<le> g_usdSpent g
     \<and> (capUsd g = None \<longrightarrow> g_outstanding g = [])"

text \<open>
  A governor about to run: nothing open and nobody parked, tripped if a seeded rollup is past a
  cap. A fresh governor is one; a seeded one too (theory Governor_Seed).
\<close>

definition gov_start :: "governor \<Rightarrow> bool" where
  "gov_start g \<longleftrightarrow> g_outstanding g = [] \<and> g_openByJob g = [] \<and> g_outstandingUsd g = 0
     \<and> g_waiters g = [] \<and> g_tripAborted g = tripped g \<and> 0 \<le> g_usdSpent g \<and> rollup_ok g"

lemma gov_start_inv: "gov_start g \<Longrightarrow> gov_inv g"
  by (simp add: gov_start_def gov_inv_def books_def requests_ok_def quiet_def)

lemma gov_invD:
  "gov_inv g \<Longrightarrow> books g" "gov_inv g \<Longrightarrow> requests_ok g" "gov_inv g \<Longrightarrow> quiet g"
  "gov_inv g \<Longrightarrow> rollup_ok g" "gov_inv g \<Longrightarrow> 0 \<le> g_usdSpent g"
  "gov_inv g \<Longrightarrow> capUsd g = None \<Longrightarrow> g_outstanding g = []"
  by (simp_all add: gov_inv_def)

lemma capUsd_update [simp]:
  "capUsd (g\<lparr>g_waiters := ws\<rparr>) = capUsd g" "capUsd (g\<lparr>g_usdSpent := u\<rparr>) = capUsd g"
  "capUsd (g\<lparr>g_usage := us\<rparr>) = capUsd g" "capUsd (g\<lparr>g_dispatched := n\<rparr>) = capUsd g"
  "capUsd (g\<lparr>g_attempts := ats\<rparr>) = capUsd g"
  by (simp_all add: capUsd_def split: option.split)

lemma tripped_update [simp]:
  "tripped (g\<lparr>g_waiters := ws\<rparr>) = tripped g" "tripped (g\<lparr>g_usdSpent := u\<rparr>) = tripped g"
  "tripped (g\<lparr>g_usage := us\<rparr>) = tripped g" "tripped (g\<lparr>g_dispatched := n\<rparr>) = tripped g"
  "tripped (g\<lparr>g_attempts := ats\<rparr>) = tripped g"
  by (simp_all add: tripped_def)

lemma held_update [simp]:
  "heldBeyondFoldsUsd (g\<lparr>g_waiters := ws\<rparr>) = heldBeyondFoldsUsd g"
  "heldBeyondFoldsUsd (g\<lparr>g_usdSpent := u\<rparr>) = heldBeyondFoldsUsd g"
  "heldBeyondFoldsUsd (g\<lparr>g_usage := us\<rparr>) = heldBeyondFoldsUsd g"
  "heldBeyondFoldsUsd (g\<lparr>g_dispatched := n\<rparr>) = heldBeyondFoldsUsd g"
  "heldBeyondFoldsUsd (g\<lparr>g_attempts := ats\<rparr>) = heldBeyondFoldsUsd g"
  by (simp_all add: heldBeyondFoldsUsd_def)

lemma rollup_cong:
  "tripped g' = tripped g \<Longrightarrow> capUsd g' = capUsd g \<Longrightarrow> g_config g' = g_config g
   \<Longrightarrow> g_usdSpent g' = g_usdSpent g \<Longrightarrow> g_usage g' = g_usage g \<Longrightarrow> rollup_ok g' = rollup_ok g"
  by (simp add: rollup_ok_def cong: option.case_cong)

lemma blocked_cong:
  "capUsd g' = capUsd g \<Longrightarrow> g_usdSpent g' = g_usdSpent g \<Longrightarrow> g_outstanding g' = g_outstanding g
   \<Longrightarrow> blocked w g' = blocked w g"
  by (simp add: blocked_def capacity_def heldBeyondFoldsUsd_def cong: option.case_cong)

text \<open>The invariant reads none of the admission counters, the events or the resolved log.\<close>

lemma gov_inv_cong:
  assumes "g_outstanding g' = g_outstanding g" "g_openByJob g' = g_openByJob g"
    "g_outstandingUsd g' = g_outstandingUsd g" "g_seq g' = g_seq g" "g_waiters g' = g_waiters g"
    "g_trip g' = g_trip g" "g_tripAborted g' = g_tripAborted g" "g_config g' = g_config g"
    "g_inheritedCap g' = g_inheritedCap g" "g_usdSpent g' = g_usdSpent g" "g_usage g' = g_usage g"
  shows "gov_inv g' = gov_inv g"
proof -
  have c: "capUsd g' = capUsd g" using assms(8,9) by (rule capUsd_cong)
  have t: "tripped g' = tripped g" using assms(6) by (simp add: tripped_def)
  have "books g' = books g" using assms(1-4) by (rule books_cong)
  moreover have "requests_ok g' = requests_ok g" using assms(2,5) by (simp add: requests_ok_def)
  moreover have "quiet g' = quiet g"
    using assms(1,5,7) t blocked_cong [OF c assms(10,1)] by (simp add: quiet_def)
  moreover have "rollup_ok g' = rollup_ok g" using t c assms(8,10,11) by (rule rollup_cong)
  ultimately show ?thesis using assms(1,10) c by (simp add: gov_inv_def)
qed

lemma rollup_trip: "rollup_ok (trip k r g)"
  by (simp add: rollup_ok_def)

lemma inv_trip: "gov_inv g \<Longrightarrow> gov_inv (trip k r g)"
proof -
  assume g: "gov_inv g"
  then have "quiet (trip k r g)" by (intro trip_quiet) (simp_all add: gov_inv_def quiet_def)
  with g show ?thesis by (simp add: gov_inv_def rollup_trip trip_requests)
qed

lemma inv_tripSignal: "gov_inv g \<Longrightarrow> gov_inv (tripSignal d g)"
  by (simp add: tripSignal_def inv_trip)

section \<open>Admission and reservation\<close>

lemma inv_admit: "gov_inv g \<Longrightarrow> gov_inv (fst (admit j g))"
  by (simp add: admit_def gov_inv_cong [of "g\<lparr>g_dispatched := _, g_attempts := _\<rparr>" g])

lemma inv_grant:
  assumes g: "gov_inv g" "g_waiters g = []" "\<not> tripped g" "\<not> blocked w g" "0 \<le> wt_proposed w"
    and idle: "\<not> omap_has (wt_job w) (g_openByJob g)"
    and gr: "grant w (capacity g) g = (g', r)"
  shows "gov_inv g'"
proof -
  have b: "books g" using g(1) by (rule gov_invD)
  note gs = grant_simps [OF gr b]
  have cap: "capUsd g' = capUsd g" by (intro capUsd_cong gs)
  have tr: "tripped g' = tripped g" by (simp add: tripped_def gs)
  have "books g'" using books_grant [OF gr b g(5) _ idle] blocked_pos [OF g(4)] by simp
  moreover have "capUsd g \<noteq> None" using g(4) capacity_some [of g] by (auto simp: blocked_def not_le)
  ultimately show ?thesis
    using g cap tr gs(7) rollup_cong [OF tr cap gs(3,2,5)]
    by (auto simp: gov_inv_def requests_ok_def quiet_def gs(1) gs(2))
qed

lemma inv_park:
  assumes g: "gov_inv g" "\<not> tripped g" "idle_job (wt_job w) g" "0 \<le> wt_proposed w"
    and open_or_queued: "g_outstanding g \<noteq> [] \<or> g_waiters g \<noteq> []"
    and blk: "g_waiters g = [] \<longrightarrow> blocked w g"
  shows "gov_inv (g\<lparr>g_waiters := g_waiters g @ [w]\<rparr>)"
proof -
  let ?g = "g\<lparr>g_waiters := g_waiters g @ [w]\<rparr>"
  have "books ?g" using gov_invD(1) [OF g(1)] by (subst books_cong [of ?g g]) simp_all
  moreover have "requests_ok ?g"
    using gov_invD(2) [OF g(1)] g(3,4) by (auto simp: requests_ok_def idle_job_def)
  moreover have "blocked (hd (g_waiters ?g)) ?g"
    using blk gov_invD(3) [OF g(1)]
    by (subst blocked_cong [of ?g g]) (auto simp: quiet_def hd_append)
  ultimately show ?thesis
    using g(1,2) open_or_queued rollup_cong [of ?g g]
    by (auto simp: gov_inv_def quiet_def)
qed

definition request :: "job_id \<Rightarrow> nat \<Rightarrow> rat \<Rightarrow> budget_class \<Rightarrow> waiter" where
  "request j a u cls = \<lparr>wt_job = j, wt_attempt = a, wt_proposed = u, wt_class = cls\<rparr>"

lemma request_simps [simp]:
  "wt_job (request j a u cls) = j" "wt_proposed (request j a u cls) = u"
  by (simp_all add: request_def)

lemma reserve_eq:
  assumes "capUsd g = Some cap" "0 \<le> u" "idle_job j g"
  shows "reserve j a (Fin u) cls g =
      (if tripped g then ok (g, Resolved Tripped)
       else if g_waiters g = [] \<and> \<not> blocked (request j a u cls) g
         then (case grant (request j a u cls) (capacity g) g of (g1, r) \<Rightarrow> ok (g1, Resolved (Reserved r)))
       else if g_outstanding g = [] \<and> g_waiters g = []
         then ok (trip Exhausted CapacityExhausted g, Resolved Tripped)
       else ok (g\<lparr>g_waiters := g_waiters g @ [request j a u cls]\<rparr>, Waiting))"
  using assms
  by (simp add: reserve_def assertValidUsd_def tryGrant_eq Let_def idle_job_def
      request_def [symmetric] split: prod.split)

lemma reserve_okD:
  "reserve j a p cls g = ok (g', out) \<Longrightarrow> \<exists>cap u. capUsd g = Some cap \<and> p = Fin u \<and> 0 \<le> u"
  by (auto simp: reserve_def assertValidUsd_ok split: option.splits sum.splits)

lemma reserve_cases:
  assumes "reserve j a p cls g = ok (g', out)" "idle_job j g"
  obtains (refused) "tripped g" "g' = g" "out = Resolved Tripped"
  | (granted) u r where "p = Fin u" "0 \<le> u" "\<not> tripped g" "g_waiters g = []"
      "\<not> blocked (request j a u cls) g" "grant (request j a u cls) (capacity g) g = (g', r)"
      "out = Resolved (Reserved r)"
  | (spent) "\<not> tripped g" "g_outstanding g = []" "g_waiters g = []"
      "g' = trip Exhausted CapacityExhausted g" "out = Resolved Tripped"
  | (parked) u where "p = Fin u" "0 \<le> u" "\<not> tripped g" "g_outstanding g \<noteq> [] \<or> g_waiters g \<noteq> []"
      "g_waiters g = [] \<longrightarrow> blocked (request j a u cls) g"
      "g' = g\<lparr>g_waiters := g_waiters g @ [request j a u cls]\<rparr>" "out = Waiting"
proof -
  from reserve_okD [OF assms(1)] obtain cap u where u: "capUsd g = Some cap" "p = Fin u" "0 \<le> u" by blast
  note eq = assms(1) [unfolded u(2) reserve_eq [OF u(1,3) assms(2)]]
  show thesis
  proof (cases "tripped g")
    case True
    with eq have "g' = g" "out = Resolved Tripped" by simp_all
    with True show ?thesis by (rule refused)
  next
    case F: False
    show ?thesis
    proof (cases "g_waiters g = [] \<and> \<not> blocked (request j a u cls) g")
      case True
      obtain g1 r where gr: "grant (request j a u cls) (capacity g) g = (g1, r)" by fastforce
      with True F eq have "g' = g1" "out = Resolved (Reserved r)" by simp_all
      with gr True F show ?thesis by (intro granted [OF u(2,3)]) simp_all
    next
      case N: False
      show ?thesis
      proof (cases "g_outstanding g = [] \<and> g_waiters g = []")
        case True
        with eq F N have "g' = trip Exhausted CapacityExhausted g" "out = Resolved Tripped" by simp_all
        with True F show ?thesis by (intro spent) simp_all
      next
        case False
        with eq F N have "g' = g\<lparr>g_waiters := g_waiters g @ [request j a u cls]\<rparr>" "out = Waiting"
          by simp_all
        with False F N show ?thesis by (intro parked [OF u(2,3)]) simp_all
      qed
    qed
  qed
qed

lemma inv_reserve:
  assumes "gov_inv g" "idle_job j g" "reserve j a p cls g = ok (g', out)"
  shows "gov_inv g'"
  using assms(3,2)
proof (cases rule: reserve_cases)
  case (granted u r)
  then show ?thesis using assms(2) inv_grant [OF assms(1)] by (simp add: idle_job_def)
next
  case (parked u)
  then show ?thesis using assms(2) inv_park [OF assms(1)] by simp
qed (use assms(1) inv_trip in auto)

section \<open>Closing reservations\<close>

text \<open>What holds while a hold is being closed: everything but that the waiters have been drained.\<close>

definition draining :: "governor \<Rightarrow> bool" where
  "draining g \<longleftrightarrow> books g \<and> requests_ok g \<and> g_tripAborted g = tripped g
     \<and> (tripped g \<longrightarrow> g_waiters g = []) \<and> rollup_ok g \<and> 0 \<le> g_usdSpent g
     \<and> (capUsd g = None \<longrightarrow> g_outstanding g = [])"

lemma draining_of_inv: "gov_inv g \<Longrightarrow> draining g"
  by (simp add: gov_inv_def draining_def quiet_def)

lemma draining_trip: "draining g \<Longrightarrow> draining (trip k r g)"
  by (cases "tripped g") (simp_all add: draining_def trip_first trip_requests rollup_trip trip_aborted trip_waiters)

lemma draining_inv:
  assumes "draining g" "drainWaiters g = ok g'"
  shows "gov_inv g'"
proof -
  have b: "books g" "requests_ok g" using assms(1) by (simp_all add: draining_def)
  note d = assms(2) b
  have same: "g_usdSpent g' = g_usdSpent g" "g_config g' = g_config g" "g_usage g' = g_usage g"
    "tripped g \<longrightarrow> tripped g'" using drain_same [OF d] by simp_all
  have cap: "capUsd g' = capUsd g" by (rule drain_capUsd [OF d])
  have "rollup_ok g'" using assms(1) same cap
    by (auto simp: draining_def rollup_ok_def cong: option.case_cong)
  moreover have "g_outstanding g' = []" if "capUsd g' = None"
  proof -
    from that cap assms(1) have c: "capUsd g = None" "g_outstanding g = []" by (simp_all add: draining_def)
    then have "drainWaiters g = ok g \<or> (\<exists>k r. drainWaiters g = ok (trip k r g)) \<or> drainWaiters g = ok (refuse_waiters g)"
      by (subst (1 2 3) drain_unfold) (auto simp: capacity_def split: list.splits)
    with assms(2) c(2) show ?thesis by auto
  qed
  ultimately show ?thesis
    using drain_books [OF d] drain_quiet [OF d] assms(1) b same by (simp add: gov_inv_def draining_def)
qed

lemma close_hold_draining:
  assumes "gov_inv g" "map_of (g_outstanding g) (rv_id (hd_res h)) = Some h"
  shows "draining (close_hold (hd_res h) g)"
proof -
  have "rollup_ok (close_hold (hd_res h) g)"
    using gov_invD(4) [OF assms(1)] by (subst rollup_cong [of _ g]) simp_all
  moreover have "requests_ok (close_hold (hd_res h) g)"
    using gov_invD(2) [OF assms(1)] by (auto simp: requests_ok_def close_hold_def omap_has_def)
  moreover have "g_outstanding g \<noteq> []" using assms(2) by auto
  ultimately show ?thesis
    using close_hold_books [OF gov_invD(1) [OF assms(1)] assms(2)] assms(1)
    by (auto simp: gov_inv_def draining_def quiet_def)
qed

lemma settle_books_draining:
  assumes inv: "gov_inv g" and h: "map_of (g_outstanding g) (rv_id (hd_res h)) = Some h"
  shows "draining (settle_books h basis g)"
proof -
  define g1 where "g1 = record_event (Ev_ReservationSettled (rv_job (hd_res h)) (rv_id (hd_res h))
      (charge_of basis h) basis (hd_priced h))
    ((close_hold (hd_res h) g)\<lparr>g_usdSpent := g_usdSpent g + max 0 (charge_of basis h - hd_folded h)\<rparr>)"
  note dc = close_hold_draining [OF inv h]
  have base: "books g1" "requests_ok g1" "g_tripAborted g1 = tripped g1" "tripped g1 \<longrightarrow> g_waiters g1 = []"
    "0 \<le> g_usdSpent g1" "capUsd g1 = None \<longrightarrow> g_outstanding g1 = []" "g_usage g1 = g_usage g"
    "g_config g1 = g_config g" "tripped g1 = tripped g"
    using dc gov_invD(5) [OF inv] books_cong [of "close_hold (hd_res h) g\<lparr>g_usdSpent := _\<rparr>" "close_hold (hd_res h) g"]
    by (simp_all add: g1_def draining_def requests_ok_def)
  have tripped_case: "draining (trip k r g1)" for k r
    using base trip_requests [OF base(2)] rollup_trip
    by (cases "tripped g1") (auto simp: draining_def trip_first trip_waiters trip_aborted rollup_ok_def)
  have "draining g1" if "case capUsd g1 of None \<Rightarrow> True | Some c \<Rightarrow> g_usdSpent g1 \<le> c + USD_EPSILON"
    using base that gov_invD(4) [OF inv] by (auto simp: draining_def rollup_ok_def cong: option.case_cong)
  with tripped_case show ?thesis
    unfolding settle_books_def Let_def g1_def [symmetric] by (auto split: option.splits simp: not_less)
qed

lemma inv_settle:
  assumes "gov_inv g" "settle r b u g = ok (g', out)"
  shows "gov_inv g'"
proof -
  from assms(2) obtain h where "map_of (g_outstanding g) (rv_id (hd_res h)) = Some h"
    "drainWaiters (settle_books h b g) = ok g'"
    by (auto simp: settle_def bind_result_eq_Inr split: option.splits sum.splits if_splits)
  with draining_inv settle_books_draining [OF assms(1)] show ?thesis by blast
qed

lemma inv_abandon:
  assumes "gov_inv g" "abandonReservation r g = ok g'"
  shows "gov_inv g'"
proof (cases "g' = g")
  case False
  with assms(2) obtain h where "hd_res h = r" "map_of (g_outstanding g) (rv_id (hd_res h)) = Some h"
    "drainWaiters (close_hold (hd_res h) g) = ok g'"
    by (auto simp: abandonReservation_def split: option.splits if_splits)
  with draining_inv close_hold_draining [OF assms(1)] show ?thesis by blast
qed (use assms(1) in simp)

section \<open>Observations\<close>

lemma inv_fold_usage:
  assumes "gov_inv g"
  shows "gov_inv (fold_usage j u g)"
proof -
  let ?t = "add_usage_opt (g_usage g) u"
  define g1 where "g1 = record_event (Ev_Usage j None) (g\<lparr>g_usage := Some ?t\<rparr>)"
  have base: "books g1" "requests_ok g1" "quiet g1" "0 \<le> g_usdSpent g1"
    "capUsd g1 = None \<longrightarrow> g_outstanding g1 = []" "tripped g1 = tripped g" "capUsd g1 = capUsd g"
    "g_usage g1 = Some ?t" "g_config g1 = g_config g" "g_usdSpent g1 = g_usdSpent g"
    using assms blocked_cong [of g1 g]
    by (auto simp: g1_def gov_inv_def requests_ok_def books_def hold_ok_def quiet_def)
  have "gov_inv (trip k r g1)" for k r
    using base trip_requests [OF base(2)] rollup_trip trip_quiet [of g1 k r]
    by (auto simp: gov_inv_def quiet_def)
  moreover have "gov_inv g1"
    if "case gc_maxTokens (g_config g) of None \<Rightarrow> True | Some c \<Rightarrow> totalTokensOf ?t \<le> c"
    using base that gov_invD(4) [OF assms] by (auto simp: gov_inv_def rollup_ok_def cong: option.case_cong)
  ultimately show ?thesis
    unfolding fold_usage_def Let_def g1_def [symmetric] by (auto split: option.splits simp: not_less)
qed

lemma capacity_fold:
  assumes "books g" "0 \<le> u"
  shows "capacity (attribute_fold j u (g\<lparr>g_usdSpent := g_usdSpent g + u\<rparr>)) \<le> capacity g"
proof -
  let ?g = "g\<lparr>g_usdSpent := g_usdSpent g + u\<rparr>"
  have b: "books ?g" using assms(1) by (subst books_cong [of ?g g]) simp_all
  have "heldBeyondFoldsUsd g - u \<le> heldBeyondFoldsUsd (attribute_fold j u ?g)"
  proof (cases "map_of (g_openByJob g) j")
    case None
    with assms(2) show ?thesis by (simp add: attribute_fold_none)
  next
    case (Some rid)
    then obtain h where "map_of (g_outstanding ?g) rid = Some h"
      using assms(1) unfolding books_def by force
    with b Some assms(2) show ?thesis
      by (simp add: attribute_fold_held beyond_folds_def max_def)
  qed
  then show ?thesis by (auto simp: capacity_def split: option.split)
qed

lemma inv_fold_cost:
  assumes inv: "gov_inv g" and u: "0 \<le> u"
  shows "gov_inv (fold_cost j u g)"
proof -
  define g0 where "g0 = attribute_fold j u (g\<lparr>g_usdSpent := g_usdSpent g + u\<rparr>)"
  define g1 where "g1 = record_event (Ev_Usage j (Some u)) g0"
  note b = gov_invD(1) [OF inv]
  have bu: "books (g\<lparr>g_usdSpent := g_usdSpent g + u\<rparr>)" using b by (subst books_cong [of _ g]) simp_all
  have "capacity g1 = capacity g0" by (simp add: g1_def capacity_def cong: option.case_cong)
  with capacity_fold [OF b u, of j] have "capacity g1 \<le> capacity g" by (simp add: g0_def)
  then have blk: "blocked w g1 \<or> g_outstanding g = []" if "blocked w g" for w
    using blocked_mono [OF that, of g1] by (auto simp: g1_def g0_def attribute_fold_nonempty)
  have base: "books g1" "requests_ok g1" "quiet g1" "0 \<le> g_usdSpent g1"
    "capUsd g1 = None \<longrightarrow> g_outstanding g1 = []" "tripped g1 = tripped g" "capUsd g1 = capUsd g"
    "g_usage g1 = g_usage g" "g_config g1 = g_config g"
    using inv u attribute_fold_books [OF bu u, of j] blk
    by (auto simp: g1_def g0_def gov_inv_def requests_ok_def quiet_def attribute_fold_nonempty)
  have "gov_inv (trip k r g1)" for k r
    using base trip_requests [OF base(2)] rollup_trip trip_quiet [of g1 k r]
    by (auto simp: gov_inv_def quiet_def)
  moreover have "gov_inv g1"
    if "case capUsd g of None \<Rightarrow> True | Some c \<Rightarrow> g_usdSpent g1 \<le> c + USD_EPSILON"
    using base that gov_invD(4) [OF inv] by (auto simp: gov_inv_def rollup_ok_def cong: option.case_cong)
  ultimately show ?thesis
    unfolding fold_cost_def Let_def g0_def [symmetric] g1_def [symmetric] base(7)
    by (auto split: option.splits simp: not_less base(7))
qed

lemma inv_observeUsage: "gov_inv g \<Longrightarrow> observeUsage j u g = ok g' \<Longrightarrow> gov_inv g'"
  by (auto simp: observeUsage_def inv_fold_usage split: sum.splits)

lemma inv_observeCost: "gov_inv g \<Longrightarrow> observeCost j n g = ok g' \<Longrightarrow> gov_inv g'"
  by (auto simp: observeCost_def assertValidUsd_ok inv_fold_cost split: sum.splits)

lemma inv_observeResult: "gov_inv g \<Longrightarrow> observeResult j e uc cc g = ok g' \<Longrightarrow> gov_inv g'"
  by (auto simp: observeResult_def bind_result_eq_Inr
      intro: inv_observeUsage inv_observeCost inv_trip split: if_splits)

section \<open>Reachable governors\<close>

lemma inv_exec: "gov_inv g \<Longrightarrow> allowed c g \<Longrightarrow> exec c g = ok g' \<Longrightarrow> gov_inv g'"
  by (cases c) (auto simp: bind_result_eq_Inr inv_admit inv_trip inv_tripSignal
      intro: inv_reserve inv_settle inv_abandon inv_observeUsage inv_observeCost inv_observeResult)

interpretation gov: invariant_system gov_start gov_step gov_inv
proof
  show "gov_start g \<Longrightarrow> gov_inv g" for g by (rule gov_start_inv)
  show "gov_inv g \<Longrightarrow> gov_step g g' \<Longrightarrow> gov_inv g'" for g g'
    by (auto elim!: gov_stepE intro: inv_exec)
qed

end
