(* ===== verification/Governor_Bound.thy ===== *)
theory Governor_Bound
  imports Governor_Inv
begin

text \<open>
  What the governor promises over a whole run: the bound on spend (settled plus reserved dollars
  never pass the cap but by what folds overshoot their reservations), the order in which parked
  dispatches are served, that none is stranded, that a trip is final, and that evidence folding is
  total and fails closed.
\<close>

section \<open>Overshoot\<close>

text \<open>Room left in the open reservation of a job, and the part of a fold that finds none.\<close>

definition room :: "job_id \<Rightarrow> governor \<Rightarrow> rat" where
  "room j g = (case map_of (g_openByJob g) j of
      None \<Rightarrow> 0
    | Some rid \<Rightarrow> (case map_of (g_outstanding g) rid of None \<Rightarrow> 0 | Some h \<Rightarrow> beyond_folds h))"

definition unheld :: "job_id \<Rightarrow> rat \<Rightarrow> governor \<Rightarrow> rat" where
  "unheld j u g = u - min u (room j g)"

fun overshoot :: "gov_cmd \<Rightarrow> governor \<Rightarrow> rat" where
  "overshoot (C_ObserveCost j n) g = unheld j (fin_val n) g"
| "overshoot (C_ObserveResult j e uc cc) g =
     (if isValidUsd (ev_cost e) \<and> \<not> cc then unheld j (fin_val (num_of (ev_cost e))) g else 0)"
| "overshoot _ g = 0"

text \<open>A run is a list of commands; \<open>total_overshoot\<close> adds up along it.\<close>

fun exec_all :: "gov_cmd list \<Rightarrow> governor \<Rightarrow> gov_error + governor" where
  "exec_all [] g = ok g"
| "exec_all (c # cs) g = bind_result (exec c g) (exec_all cs)"

fun total_overshoot :: "gov_cmd list \<Rightarrow> governor \<Rightarrow> rat" where
  "total_overshoot [] g = 0"
| "total_overshoot (c # cs) g =
     overshoot c g + (case exec c g of Inl _ \<Rightarrow> 0 | Inr g' \<Rightarrow> total_overshoot cs g')"

fun all_allowed :: "gov_cmd list \<Rightarrow> governor \<Rightarrow> bool" where
  "all_allowed [] g = True"
| "all_allowed (c # cs) g =
     (allowed c g \<and> (case exec c g of Inl _ \<Rightarrow> True | Inr g' \<Rightarrow> all_allowed cs g'))"

definition exposure :: "governor \<Rightarrow> rat" where
  "exposure g = g_usdSpent g + heldBeyondFoldsUsd g"

lemma exposure_trip [simp]: "exposure (trip k r g) = exposure g"
  by (simp add: exposure_def)

lemma exposure_record [simp]: "exposure (record_event e g) = exposure g"
  by (simp add: exposure_def)

section \<open>Each command and the exposure\<close>

lemma fold_cost_exposure:
  assumes "books g" "0 \<le> u"
  shows "exposure (fold_cost j u g) = exposure g + unheld j u g"
proof -
  let ?g = "g\<lparr>g_usdSpent := g_usdSpent g + u\<rparr>"
  have b: "books ?g" using assms(1) by (subst books_cong [of ?g g]) simp_all
  have "exposure (attribute_fold j u ?g) = exposure g + unheld j u g"
  proof (cases "map_of (g_openByJob g) j")
    case None
    with assms(2) show ?thesis by (simp add: attribute_fold_none exposure_def unheld_def room_def)
  next
    case (Some rid)
    then obtain h where "map_of (g_outstanding g) rid = Some h" using assms(1) unfolding books_def by blast
    with Some b assms(2) show ?thesis
      by (simp add: attribute_fold_held exposure_def unheld_def room_def beyond_folds_def max_def min_def)
  qed
  then show ?thesis by (auto simp: fold_cost_def Let_def split: option.split)
qed

lemma fold_usage_exposure: "exposure (fold_usage j u g) = exposure g"
  by (auto simp: fold_usage_def Let_def exposure_def split: option.split)

lemma fold_usage_ledger [simp]:
  "g_outstanding (fold_usage j u g) = g_outstanding g" "g_openByJob (fold_usage j u g) = g_openByJob g"
  "capUsd (fold_usage j u g) = capUsd g" "g_usdSpent (fold_usage j u g) = g_usdSpent g"
  by (auto simp: fold_usage_def Let_def split: option.split)

lemma fold_cost_cap [simp]: "capUsd (fold_cost j u g) = capUsd g"
  by (auto simp: fold_cost_def Let_def split: option.split)

lemma unheld_nonneg: "0 \<le> unheld j u g"
  by (simp add: unheld_def)

lemma settle_books_exposure:
  assumes "books g" "map_of (g_outstanding g) (rv_id (hd_res h)) = Some h"
  shows "exposure (settle_books h basis g) \<le> exposure g"
proof -
  have "max 0 (charge_of basis h - hd_folded h) \<le> beyond_folds h"
    by (cases basis) (auto simp: charge_of_def beyond_folds_def)
  with close_hold_held [OF assms] show ?thesis
    by (auto simp: settle_books_def Let_def exposure_def split: option.split)
qed

lemma settle_books_cap: "capUsd (settle_books h basis g) = capUsd g"
  by (auto simp: settle_books_def Let_def split: option.split)

lemma drain_exposure:
  assumes "draining g" "drainWaiters g = ok g'" "capUsd g = Some c"
  shows "exposure g' \<le> max c (exposure g) \<and> capUsd g' = Some c"
proof -
  have b: "books g" "requests_ok g" using assms(1) by (simp_all add: draining_def)
  show ?thesis
    using drain_within_cap [OF assms(2) b, of c] drain_capUsd [OF assms(2) b] assms(3)
    by (simp add: exposure_def)
qed

lemma observeUsage_okD: "observeUsage j ru g = ok g' \<Longrightarrow> \<exists>u. g' = fold_usage j u g"
  by (auto simp: observeUsage_def split: sum.splits)

lemma observeCost_okD: "observeCost j n g = ok g' \<Longrightarrow> \<exists>u. n = Fin u \<and> 0 \<le> u \<and> g' = fold_cost j u g"
  by (auto simp: observeCost_def assertValidUsd_ok split: sum.splits)

lemma observeResult_okE:
  assumes "observeResult j e uc cc g = ok g'"
  obtains g1 where
    "(if real_usage (ev_usage e) \<and> \<not> uc then observeUsage j (raw_usage_of (ev_usage e)) g else ok g) = ok g1"
    "(if isValidUsd (ev_cost e)
        then (if \<not> cc then observeCost j (num_of (ev_cost e)) g1 else ok g1)
      else if real_usage (ev_usage e) \<and> capUsd g1 \<noteq> None \<and> \<not> cc
        then ok (trip Exhausted UnpricedUsage g1) else ok g1) = ok g'"
  using assms unfolding observeResult_def bind_result_eq_Inr by blast

lemma reserve_exposure:
  assumes inv: "gov_inv g" and "idle_job j g" "capUsd g = Some c" "reserve j a p cls g = ok (g', out)"
  shows "exposure g' \<le> max c (exposure g) \<and> capUsd g' = Some c"
  using assms(4,2)
proof (cases rule: reserve_cases)
  case (granted u r)
  have "exposure g' \<le> c"
    using grant_within_cap [OF granted(6) gov_invD(1) [OF inv] assms(3) granted(5)] granted(2)
    by (simp add: exposure_def)
  moreover have "capUsd g' = capUsd g"
    by (intro capUsd_cong grant_simps [OF granted(6) gov_invD(1) [OF inv]])
  ultimately show ?thesis using assms(3) by simp
next
  case (parked u)
  then show ?thesis using assms(3) by (simp add: exposure_def)
qed (use assms(3) in simp_all)

lemma exec_exposure:
  assumes inv: "gov_inv g" and al: "allowed c g" and cap: "capUsd g = Some m" and ex: "exec c g = ok g'"
  shows "exposure g' \<le> max m (exposure g) + overshoot c g \<and> capUsd g' = Some m"
proof (cases c)
  case (C_Admit j)
  with ex cap show ?thesis by (auto simp: admit_def exposure_def)
next
  case (C_Reserve j a p cls)
  with ex al show ?thesis
    using reserve_exposure [OF inv _ cap] by (auto simp: bind_result_eq_Inr)
next
  case (C_Abandon r)
  show ?thesis
  proof (cases "g' = g")
    case False
    with C_Abandon ex obtain h where h: "map_of (g_outstanding g) (rv_id (hd_res h)) = Some h"
      "drainWaiters (close_hold (hd_res h) g) = ok g'"
      by (auto simp: abandonReservation_def split: option.splits if_splits)
    have "exposure (close_hold (hd_res h) g) \<le> exposure g"
      using close_hold_held [OF gov_invD(1) [OF inv] h(1)] by (simp add: exposure_def)
    with drain_exposure [OF close_hold_draining [OF inv h(1)] h(2)] cap C_Abandon show ?thesis
      by auto
  qed (use C_Abandon cap in simp)
next
  case (C_Settle r b u)
  with ex obtain h where h: "map_of (g_outstanding g) (rv_id (hd_res h)) = Some h"
    "drainWaiters (settle_books h b g) = ok g'"
    by (auto simp: settle_def bind_result_eq_Inr split: option.splits sum.splits if_splits)
  with drain_exposure [OF settle_books_draining [OF inv h(1)] h(2)] cap C_Settle
    settle_books_exposure [OF gov_invD(1) [OF inv] h(1), of b]
  show ?thesis by (auto simp: settle_books_cap)
next
  case (C_ObserveUsage j u)
  with ex cap show ?thesis by (auto simp: fold_usage_exposure dest!: observeUsage_okD)
next
  case (C_ObserveCost j n)
  with ex obtain u where "n = Fin u" "0 \<le> u" "g' = fold_cost j u g" by (auto dest!: observeCost_okD)
  with C_ObserveCost cap fold_cost_exposure [OF gov_invD(1) [OF inv], of u j] show ?thesis by simp
next
  case (C_ObserveResult j e uc cc)
  from ex have res: "observeResult j e uc cc g = ok g'" by (simp only: C_ObserveResult exec.simps)
  from res obtain g1 where
    first: "(if real_usage (ev_usage e) \<and> \<not> uc then observeUsage j (raw_usage_of (ev_usage e)) g else ok g) = ok g1"
    and rest: "(if isValidUsd (ev_cost e)
             then (if \<not> cc then observeCost j (num_of (ev_cost e)) g1 else ok g1)
             else if real_usage (ev_usage e) \<and> capUsd g1 \<noteq> None \<and> \<not> cc
             then ok (trip Exhausted UnpricedUsage g1) else ok g1) = ok g'"
    by (rule observeResult_okE)
  have g1: "g1 = g \<or> (\<exists>u. g1 = fold_usage j u g)" "gov_inv g1"
    using first inv inv_observeUsage [OF inv] by (auto dest: observeUsage_okD split: if_splits)
  have e1: "exposure g1 = exposure g" "capUsd g1 = capUsd g" "unheld j v g1 = unheld j v g" for v
    using g1 by (auto simp: fold_usage_exposure unheld_def room_def cong: option.case_cong)
  show ?thesis
  proof (cases "isValidUsd (ev_cost e) \<and> \<not> cc")
    case True
    with rest obtain u where u: "num_of (ev_cost e) = Fin u" "0 \<le> u" "g' = fold_cost j u g1"
      by (auto dest!: observeCost_okD)
    with C_ObserveResult True cap e1 fold_cost_exposure [OF gov_invD(1) [OF g1(2)], of u j]
    show ?thesis by simp
  next
    case False
    with rest have "g' = g1 \<or> g' = trip Exhausted UnpricedUsage g1" by (auto split: if_splits)
    with False C_ObserveResult cap e1 show ?thesis by auto
  qed
qed (use ex cap in \<open>auto simp: tripSignal_def\<close>)

lemma overshoot_nonneg: "0 \<le> overshoot c g"
  by (cases c) (simp_all add: unheld_nonneg)

lemma exec_all_exposure:
  "gov_inv g \<Longrightarrow> all_allowed cs g \<Longrightarrow> capUsd g = Some m \<Longrightarrow> exec_all cs g = ok g'
   \<Longrightarrow> exposure g' \<le> max m (exposure g) + total_overshoot cs g \<and> gov_inv g' \<and> capUsd g' = Some m"
proof (induction cs arbitrary: g)
  case (Cons c cs)
  from Cons.prems(4) obtain g1 where g1: "exec c g = ok g1" "exec_all cs g1 = ok g'"
    by (auto simp: bind_result_eq_Inr)
  have al: "allowed c g" "all_allowed cs g1" using Cons.prems(2) g1(1) by simp_all
  note e = exec_exposure [OF Cons.prems(1) al(1) Cons.prems(3) g1(1)]
  have "exposure g' \<le> max m (exposure g1) + total_overshoot cs g1 \<and> gov_inv g' \<and> capUsd g' = Some m"
    using Cons.IH [OF inv_exec [OF Cons.prems(1) al(1) g1(1)] al(2) _ g1(2)] e by blast
  moreover have "max m (exposure g1) \<le> max m (exposure g) + overshoot c g"
    using e overshoot_nonneg [of c g] by (auto simp: max_def)
  ultimately show ?case using g1(1) by auto
qed simp

section \<open>The bound on a run\<close>

lemma start_exposure: "gov_start g \<Longrightarrow> exposure g = g_usdSpent g"
  by (simp add: gov_start_def exposure_def heldBeyondFoldsUsd_def)

text \<open>C1 Reserve-then-settle bound. However the calls of a run interleave, what has been settled
  plus what open reservations still hold never exceeds the dollar cap (or the seeded spend, when
  that was already past it) by more than the parts of folds that found no room in their own
  reservation. In particular a run whose folds stay within their reservations stays within the
  cap, exactly.\<close>

theorem run_spend_bound:
  assumes "gov_start g" "capUsd g = Some c" "all_allowed cs g" "exec_all cs g = ok g'"
  shows "g_usdSpent g' + heldBeyondFoldsUsd g' \<le> max c (g_usdSpent g) + total_overshoot cs g"
proof -
  have "exposure g' \<le> max c (exposure g) + total_overshoot cs g"
    using exec_all_exposure [OF gov_start_inv [OF assms(1)] assms(3,2,4)] by simp
  then have "exposure g' \<le> max c (g_usdSpent g) + total_overshoot cs g"
    by (simp only: start_exposure [OF assms(1)])
  then show ?thesis by (simp only: exposure_def)
qed

lemma exec_all_reach:
  "reach gov_start gov_step g \<Longrightarrow> all_allowed cs g \<Longrightarrow> exec_all cs g = ok g' \<Longrightarrow> reach gov_start gov_step g'"
proof (induction cs arbitrary: g)
  case (Cons c cs)
  from Cons.prems(3) obtain g1 where g1: "exec c g = ok g1" "exec_all cs g1 = ok g'"
    by (auto simp: bind_result_eq_Inr)
  with Cons.prems(2) have "gov_step g g1" "all_allowed cs g1" by (auto intro: gov_step.intros)
  with Cons.IH g1(2) reach_step [OF Cons.prems(1)] show ?case by blast
qed simp

text \<open>A small run to evaluate the theorems on: two jobs, a cap of ten dollars, one parked dispatch.\<close>

definition demo_config :: "rat option \<Rightarrow> gov_config" where
  "demo_config usd = \<lparr>gc_maxUsd = usd, gc_maxTokens = None, gc_wallClockMs = None, gc_abortGraceMs = None,
     gc_killGraceMs = None, gc_maxAttempts = None, gc_dispatchQuota = None, gc_inFlight = None\<rparr>"

definition demo_start :: governor where
  "demo_start = createGovernor (demo_config (Some 10))"

definition demo_run :: "gov_cmd list" where
  "demo_run = [C_Admit ''a'', C_Reserve ''a'' 1 (Fin 6) Hard, C_Reserve ''b'' 1 (Fin 7) Hard,
     C_ObserveCost ''a'' (Fin 5)]"

definition run_from :: "gov_cmd list \<Rightarrow> governor \<Rightarrow> governor" where
  "run_from cs g = (case exec_all cs g of Inl _ \<Rightarrow> g | Inr g' \<Rightarrow> g')"

definition demo_state :: governor where
  "demo_state = run_from demo_run demo_start"

definition demo_reservation :: reservation where
  "demo_reservation = \<lparr>rv_id = ''a:1:1'', rv_job = ''a'', rv_attempt = 1, rv_usd = 6, rv_class = Hard,
     rv_proposed = None\<rparr>"

lemma demo_start_ok: "gov_start demo_start" "capUsd demo_start = Some 10"
  by code_simp+

lemma demo_run_ok: "all_allowed demo_run demo_start" "exec_all demo_run demo_start = ok demo_state"
  by code_simp+

lemma demo_reach: "reach gov_start gov_step demo_state"
  by (rule exec_all_reach [OF reach_init demo_run_ok]) (rule demo_start_ok)

lemma run_spend_bound_witness:
  "g_usdSpent demo_state + heldBeyondFoldsUsd demo_state
     \<le> max 10 (g_usdSpent demo_start) + total_overshoot demo_run demo_start"
  by (rule run_spend_bound [OF demo_start_ok demo_run_ok])

text \<open>Until it trips, a governor's ledger is within its cap (up to the money tolerance): no
  interleaving of calls leaves it over the cap and still admitting work.\<close>

lemma reachable_within_cap:
  assumes "reach gov_start gov_step g" "\<not> tripped g" "capUsd g = Some c"
  shows "g_usdSpent g \<le> c + USD_EPSILON"
  using gov_invD(4) [OF gov.reach_inv [OF assms(1)]] assms(2,3) by (simp add: rollup_ok_def)

text \<open>C34 No dispatch is parked for ever. After a trip nobody waits; otherwise a waiting dispatch
  has an open reservation whose close will serve the queue again, and the head of the queue does
  not fit into the capacity there is now (no wake-up was missed).\<close>

theorem no_stranded_waiter:
  assumes "reach gov_start gov_step g" "g_waiters g \<noteq> []"
  shows "\<not> tripped g \<and> g_outstanding g \<noteq> [] \<and> tryGrant (hd (g_waiters g)) g = ok None"
proof -
  have "quiet g" by (rule gov_invD(3) [OF gov.reach_inv [OF assms(1)]])
  with assms(2) show ?thesis by (auto simp: quiet_def tryGrant_eq)
qed

lemma no_stranded_waiter_witness:
  "\<not> tripped demo_state \<and> g_outstanding demo_state \<noteq> []
   \<and> tryGrant (hd (g_waiters demo_state)) demo_state = ok None"
  by (rule no_stranded_waiter [OF demo_reach]) code_simp

section \<open>Serving the queue\<close>

lemma settle_books_waiters:
  "(\<not> tripped (settle_books h b g) \<and> g_waiters (settle_books h b g) = g_waiters g
      \<and> g_resolved (settle_books h b g) = g_resolved g)
   \<or> (tripped g \<and> g_waiters (settle_books h b g) = g_waiters g \<and> g_resolved (settle_books h b g) = g_resolved g)
   \<or> (\<not> tripped g \<and> tripped (settle_books h b g) \<and> g_waiters (settle_books h b g) = []
      \<and> g_resolved (settle_books h b g) = g_resolved g @ map (\<lambda>w. (w, Tripped)) (g_waiters g))"
  by (cases "tripped g")
    (auto simp: settle_books_def Let_def trip_waiters trip_resolved split: option.splits)

lemma settle_okD:
  "settle r b u g = ok (g', out) \<Longrightarrow>
   \<exists>h. map_of (g_outstanding g) (rv_id r) = Some h \<and> hd_res h = r
     \<and> drainWaiters (settle_books h b g) = ok g'
     \<and> out = \<lparr>st_charged = charge_of b h, st_basis = b, st_priced = hd_priced h\<rparr>"
  by (auto simp: settle_def bind_result_eq_Inr split: option.splits sum.splits if_splits)

text \<open>Capacity freed by a settle goes to the parked dispatches in the order they queued: those
  granted are a prefix of the queue, in order, and the others either stay queued in order or are
  all refused because the run tripped.\<close>

lemma settle_serves_fifo:
  assumes "reach gov_start gov_step g" "settle r b u g = ok (g', out)"
  shows "\<exists>granted rest. g_waiters g = map fst granted @ rest
    \<and> ((g_waiters g' = rest \<and> g_resolved g' = g_resolved g @ map (\<lambda>(w, r). (w, Reserved r)) granted)
       \<or> (g_waiters g' = [] \<and> tripped g' \<and> g_resolved g' = g_resolved g
            @ map (\<lambda>(w, r). (w, Reserved r)) granted @ map (\<lambda>w. (w, Tripped)) rest))"
proof -
  have inv: "gov_inv g" by (rule gov.reach_inv [OF assms(1)])
  from settle_okD [OF assms(2)] obtain h where h: "map_of (g_outstanding g) (rv_id (hd_res h)) = Some h"
    and d: "drainWaiters (settle_books h b g) = ok g'" by blast
  have dr: "books (settle_books h b g)" "requests_ok (settle_books h b g)"
    using settle_books_draining [OF inv h] by (simp_all add: draining_def)
  have w: "tripped g \<longrightarrow> g_waiters g = []" using gov_invD(3) [OF inv] by (simp add: quiet_def)
  note f = drain_fifo [OF d dr]
  from settle_books_waiters [of h b g] show ?thesis
  proof (elim disjE conjE)
    assume s: "\<not> tripped g" "tripped (settle_books h b g)" "g_waiters (settle_books h b g) = []"
      "g_resolved (settle_books h b g) = g_resolved g @ map (\<lambda>w. (w, Tripped)) (g_waiters g)"
    with d have "g' = settle_books h b g" by (simp add: drain_unfold)
    with s show ?thesis by (intro exI [of _ "[]"] exI [of _ "g_waiters g"]) simp
  qed (use f in auto)
qed

definition demo_settled :: governor where
  "demo_settled = run_from [C_Settle demo_reservation Observed None] demo_state"

lemma demo_settle:
  "settle demo_reservation Observed None demo_state
     = ok (demo_settled, \<lparr>st_charged = 5, st_basis = Observed, st_priced = True\<rparr>)"
  by code_simp

text \<open>Every close of a reservation makes progress: open reservations and parked dispatches
  together strictly decrease, so closing the open reservations drains the queue after finitely
  many closes.\<close>

lemma settle_progress:
  assumes "reach gov_start gov_step g" "settle r b u g = ok (g', out)"
  shows "length (g_outstanding g') + length (g_waiters g') < length (g_outstanding g) + length (g_waiters g)"
proof -
  have inv: "gov_inv g" by (rule gov.reach_inv [OF assms(1)])
  from settle_okD [OF assms(2)] obtain h where h: "map_of (g_outstanding g) (rv_id (hd_res h)) = Some h"
    and d: "drainWaiters (settle_books h b g) = ok g'" by blast
  have "length (g_outstanding (settle_books h b g)) < length (g_outstanding g)"
    using close_hold_length [OF gov_invD(1) [OF inv] h]
    by (auto simp: settle_books_def Let_def split: option.split)
  moreover have "length (g_waiters (settle_books h b g)) \<le> length (g_waiters g)"
    using settle_books_waiters [of h b g] by auto
  ultimately show ?thesis
    using drain_measure [OF d] settle_books_draining [OF inv h, of b] by (simp add: draining_def)
qed

section \<open>The corruption guard\<close>

lemma reserve_not_corrupt:
  assumes "idle_job j g" shows "reserve j a p cls g \<noteq> throw (AlreadyHoldsReservation i)"
proof
  assume r: "reserve j a p cls g = throw (AlreadyHoldsReservation i)"
  then obtain cap u where "capUsd g = Some cap" "p = Fin u" "0 \<le> u"
    by (cases p) (auto simp: reserve_def assertValidUsd_def split: option.splits if_splits)
  with r assms show False by (auto simp: reserve_eq split: if_splits prod.splits)
qed

lemma drain_not_corrupt: "draining g \<Longrightarrow> drainWaiters g \<noteq> throw e"
  using drain_total [of g] by (auto simp: draining_def)

text \<open>The guard against overwriting a job's fold attribution never fires: with one dispatch per
  job at a time, no call reaches the corrupt state it protects against.\<close>

lemma guard_unreachable:
  assumes "reach gov_start gov_step g" "allowed c g"
  shows "exec c g \<noteq> throw (AlreadyHoldsReservation i)"
proof (cases c)
  case (C_Reserve j a p cls)
  with assms(2) show ?thesis by (simp add: bind_result_eq_Inl reserve_not_corrupt)
next
  case (C_Abandon r)
  have "gov_inv g" by (rule gov.reach_inv [OF assms(1)])
  with C_Abandon show ?thesis
    using drain_not_corrupt [OF close_hold_draining [of g]]
    by (auto simp: abandonReservation_def split: option.splits)
next
  case (C_Settle r b u)
  have "gov_inv g" by (rule gov.reach_inv [OF assms(1)])
  with C_Settle show ?thesis
    using drain_not_corrupt [OF settle_books_draining [of g]]
    by (auto simp: settle_def bind_result_eq_Inl split: option.splits sum.splits)
qed (auto simp: observeUsage_def observeCost_def observeResult_def bind_result_eq_Inl split: sum.splits if_splits)

section \<open>A trip is final\<close>

lemma drain_tripped: "tripped g \<Longrightarrow> g_waiters g = [] \<Longrightarrow> drainWaiters g = ok g"
  by (simp add: drain_unfold)

lemma settle_books_final:
  "tripped g \<Longrightarrow> settle_books h b g =
     record_event (Ev_ReservationSettled (rv_job (hd_res h)) (rv_id (hd_res h)) (charge_of b h) b (hd_priced h))
       ((close_hold (hd_res h) g)\<lparr>g_usdSpent := g_usdSpent g + max 0 (charge_of b h - hd_folded h)\<rparr>)"
  by (simp add: settle_books_def Let_def trip_first split: option.split)

text \<open>What a trip freezes: its cause, the dispatch count, and the set of reservations, which only closes.\<close>

definition frozen :: "governor \<Rightarrow> governor \<Rightarrow> bool" where
  "frozen g g' \<longleftrightarrow> g_trip g' = g_trip g \<and> g_dispatched g' = g_dispatched g
     \<and> set (okeys (g_outstanding g')) \<subseteq> set (okeys (g_outstanding g))"

lemma frozen_trans: "frozen f g \<Longrightarrow> frozen g h \<Longrightarrow> frozen f h"
  unfolding frozen_def by (metis subset_trans)

lemma frozen_refl [simp]: "frozen g g"
  by (simp add: frozen_def)

lemma frozen_trip: "tripped g \<Longrightarrow> frozen g (trip k r g)"
  by (simp add: trip_first)

lemma frozen_tripped: "frozen g g' \<Longrightarrow> tripped g' = tripped g"
  by (simp add: frozen_def tripped_def)

lemma frozen_fold_usage: "tripped g \<Longrightarrow> frozen g (fold_usage j u g)"
  by (auto simp: fold_usage_def Let_def trip_first frozen_def split: option.split)

lemma okeys_attribute_fold: "set (okeys (g_outstanding (attribute_fold j u g))) = set (okeys (g_outstanding g))"
  by (auto simp: attribute_fold_def set_okeys_omap_set [simplified] map_of_SomeD [THEN rev_image_eqI] split: option.splits)

lemma frozen_fold_cost: "tripped g \<Longrightarrow> frozen g (fold_cost j u g)"
  by (auto simp: fold_cost_def Let_def trip_first frozen_def okeys_attribute_fold simp del: set_map split: option.splits)

lemma frozen_close_hold: "frozen g (close_hold r g)"
  by (auto simp: frozen_def close_hold_def omap_del_def)

lemma frozen_settle_books: "tripped g \<Longrightarrow> frozen g (settle_books h b g)"
  using frozen_close_hold [of g "hd_res h"] by (simp add: settle_books_final frozen_def)

lemma frozen_observeResult: "tripped g \<Longrightarrow> observeResult j e uc cc g = ok g' \<Longrightarrow> frozen g g'"
proof -
  assume t: "tripped g" and res: "observeResult j e uc cc g = ok g'"
  from res obtain g1 where
    "(if real_usage (ev_usage e) \<and> \<not> uc then observeUsage j (raw_usage_of (ev_usage e)) g else ok g) = ok g1"
    and r: "(if isValidUsd (ev_cost e)
             then (if \<not> cc then observeCost j (num_of (ev_cost e)) g1 else ok g1)
             else if real_usage (ev_usage e) \<and> capUsd g1 \<noteq> None \<and> \<not> cc
             then ok (trip Exhausted UnpricedUsage g1) else ok g1) = ok g'"
    by (rule observeResult_okE)
  then have f: "frozen g g1" using t frozen_fold_usage by (auto dest!: observeUsage_okD split: if_splits)
  then have "tripped g1" using t by (simp add: frozen_tripped)
  then have "frozen g1 g'" using r frozen_fold_cost frozen_trip
    by (auto dest!: observeCost_okD split: if_splits)
  with f show ?thesis by (rule frozen_trans)
qed

lemma exec_frozen:
  assumes inv: "gov_inv g" and al: "allowed c g" and ex: "exec c g = ok g'" and t: "tripped g"
  shows "frozen g g'"
proof -
  have nw: "g_waiters g = []" using gov_invD(3) [OF inv] t by (simp add: quiet_def)
  show ?thesis
  proof (cases c)
    case (C_Admit j)
    with ex t show ?thesis by (auto simp: admit_def)
  next
    case (C_Reserve j a p cls)
    with ex obtain out where r: "reserve j a p cls g = ok (g', out)" by (auto simp: bind_result_eq_Inr)
    moreover have "idle_job j g" using al C_Reserve by simp
    ultimately show ?thesis using t by (cases rule: reserve_cases) simp_all
  next
    case (C_Abandon r)
    have "drainWaiters (close_hold r g) = ok (close_hold r g)" using nw t by (simp add: drain_tripped)
    with C_Abandon ex frozen_close_hold [of g r] show ?thesis
      by (auto simp: abandonReservation_def split: option.splits if_splits)
  next
    case (C_Settle r b u)
    with ex obtain h where d: "drainWaiters (settle_books h b g) = ok g'" by (auto dest: settle_okD simp: bind_result_eq_Inr)
    have "tripped (settle_books h b g)" "g_waiters (settle_books h b g) = []"
      using nw t by (simp_all add: settle_books_final)
    with d have "g' = settle_books h b g" by (simp add: drain_tripped)
    with frozen_settle_books [OF t] show ?thesis by simp
  next
    case (C_ObserveUsage j u)
    with ex frozen_fold_usage [OF t] show ?thesis by (auto dest!: observeUsage_okD)
  next
    case (C_ObserveCost j n)
    with ex frozen_fold_cost [OF t] show ?thesis by (auto dest!: observeCost_okD)
  next
    case (C_ObserveResult j e uc cc)
    with ex frozen_observeResult [OF t] show ?thesis by simp
  qed (use ex frozen_trip [OF t] in \<open>auto simp: tripSignal_def\<close>)
qed

text \<open>A trip is final: the first cause is kept, nothing more is admitted or reserved, and every
  later call can only close what was open.\<close>

lemma trip_is_final:
  assumes "reach gov_start gov_step g" "gov_step g g'" "tripped g"
  shows "frozen g g'"
  using assms gov.reach_inv [OF assms(1)] by (auto elim!: gov_stepE intro: exec_frozen)

definition demo_tripped :: governor where
  "demo_tripped = run_from (demo_run @ [C_TripSignal None]) demo_start"

lemma demo_tripped_reach: "reach gov_start gov_step demo_tripped"
  by (rule exec_all_reach [OF reach_init, where cs = "demo_run @ [C_TripSignal None]"]) (rule demo_start_ok, code_simp+)

section \<open>Folding evidence\<close>

text \<open>The evidence fold is total: whatever an operation hands back as measurements, the fold
  never throws out of the dispatch (a measurement that lies is no evidence).\<close>

lemma observeResult_total: "\<exists>g'. observeResult j e uc cc g = ok g'"
proof -
  have u: "\<exists>g1. observeUsage j (raw_usage_of (ev_usage e)) g = ok g1" if "real_usage (ev_usage e)" for g
    using that isValidUsage_assert [of "ev_usage e" "''usage''"]
    by (auto simp: real_usage_def observeUsage_def)
  have c: "\<exists>g1. observeCost j (num_of (ev_cost e)) g = ok g1" if "isValidUsd (ev_cost e)" for g
    using that by (auto simp: isValidUsd_iff observeCost_def assertValidUsd_def)
  obtain g1 where
    "(if real_usage (ev_usage e) \<and> \<not> uc then observeUsage j (raw_usage_of (ev_usage e)) g else ok g) = ok g1"
    using u [of g] by (cases "real_usage (ev_usage e) \<and> \<not> uc") auto
  then show ?thesis using c [of g1] by (simp add: observeResult_def)
qed

text \<open>Unpriced work fails closed: when a result carries real token usage, no price, and the run
  has a dollar cap, the fold trips the governor.\<close>

lemma unpriced_usage_trips:
  assumes "real_usage (ev_usage e)" "\<not> isValidUsd (ev_cost e)" "capUsd g = Some c"
    and "observeResult j e uc False g = ok g'"
  shows "tripped g'"
proof -
  from assms(4) obtain g1 where
    g1: "(if real_usage (ev_usage e) \<and> \<not> uc then observeUsage j (raw_usage_of (ev_usage e)) g else ok g) = ok g1"
    and r: "(if isValidUsd (ev_cost e) then (if \<not> False then observeCost j (num_of (ev_cost e)) g1 else ok g1)
             else if real_usage (ev_usage e) \<and> capUsd g1 \<noteq> None \<and> \<not> False
             then ok (trip Exhausted UnpricedUsage g1) else ok g1) = ok g'"
    by (rule observeResult_okE)
  have "capUsd g1 = Some c" using g1 assms(3) by (auto dest!: observeUsage_okD split: if_splits)
  with r assms(1,2) show ?thesis by auto
qed

definition demo_evidence :: spend_evidence where
  "demo_evidence = \<lparr>ev_usage = JObj [(''input'', JNum (Fin 10)), (''output'', JNum (Fin 5)),
     (''cacheRead'', JNum (Fin 0)), (''cacheWrite'', JNum (Fin 0))], ev_cost = JUndef\<rparr>"

definition demo_unpriced :: governor where
  "demo_unpriced = run_from [C_ObserveResult ''a'' demo_evidence False False] demo_start"

end
