(* ===== verification/Governor_Seed.thy ===== *)
theory Governor_Seed
  imports Governor_Bound
begin

text \<open>
  \<open>seedFromJournal\<close> of \<open>src/kernel/governor.ts\<close>: a resumed run's governor continues the budget of
  the plan's journals. One step per event, then the closing pass over the reservations left open
  and the cap checks. The keys \<open>runId:jobId\<close> are the strings the code builds.
\<close>

section \<open>The fold over the journal\<close>

record open_reservation =
  or_job :: job_id
  or_usd :: rat
  or_index :: nat

record seed_state =
  sd_gov :: governor
  sd_jobIds :: "job_id list"
  sd_starts :: "(job_id, nat) omap"
  sd_totalStarts :: nat
  sd_unpriced :: bool
  sd_openStarts :: "string list"
  sd_open :: "(string, open_reservation) omap"
  sd_openByRunJob :: "(string, string) omap"
  sd_released :: "(job_id, nat) omap"
  sd_index :: nat

definition seed_init :: "governor \<Rightarrow> seed_state" where
  "seed_init g = \<lparr>sd_gov = g, sd_jobIds = [], sd_starts = [], sd_totalStarts = 0, sd_unpriced = False,
     sd_openStarts = [], sd_open = [], sd_openByRunJob = [], sd_released = [], sd_index = 0\<rparr>"

definition run_job :: "run_id \<Rightarrow> job_id \<Rightarrow> string" where
  "run_job r j = r @ '':'' @ j"

fun opened_run :: "journal_event \<Rightarrow> run_id list" where
  "opened_run (Reservation_Opened e) = [ro_run e]"
| "opened_run _ = []"

definition reservation_era :: "journal_event list \<Rightarrow> run_id list" where
  "reservation_era evs = concat (map opened_run evs)"

definition seed_usd :: "string \<Rightarrow> rat \<Rightarrow> governor \<Rightarrow> gov_error + governor" where
  "seed_usd field u g =
     (case assertValidUsd field (Fin u) of
        Inl e \<Rightarrow> throw (EvidenceError e)
      | Inr v \<Rightarrow> ok (g\<lparr>g_usdSpent := g_usdSpent g + v\<rparr>))"

definition seed_usage :: "string \<Rightarrow> usage \<Rightarrow> governor \<Rightarrow> gov_error + governor" where
  "seed_usage field u g =
     (case assertValidUsage field (raw_of_usage u) of
        Inl e \<Rightarrow> throw (EvidenceError e)
      | Inr v \<Rightarrow> ok (g\<lparr>g_usage := Some (add_usage_opt (g_usage g) v)\<rparr>))"

definition opt_usage :: "string \<Rightarrow> usage option \<Rightarrow> governor \<Rightarrow> gov_error + governor" where
  "opt_usage field m g = (case m of None \<Rightarrow> ok g | Some u \<Rightarrow> seed_usage field u g)"

definition opt_usd :: "string \<Rightarrow> rat option \<Rightarrow> governor \<Rightarrow> gov_error + governor" where
  "opt_usd field m g = (case m of None \<Rightarrow> ok g | Some u \<Rightarrow> seed_usd field u g)"

definition has_tokens :: "usage option \<Rightarrow> bool" where
  "has_tokens m = (case m of None \<Rightarrow> False | Some u \<Rightarrow> totalTokensOf u > 0)"

definition starts_of :: "job_id \<Rightarrow> (job_id, nat) omap \<Rightarrow> nat" where
  "starts_of j m = (case map_of m j of None \<Rightarrow> 0 | Some n \<Rightarrow> n)"

text \<open>A finish outside the reservation era: it counts only when it closes its own run's start.\<close>

definition seed_finish :: "job_finished \<Rightarrow> seed_state \<Rightarrow> gov_error + seed_state" where
  "seed_finish e s =
     (let key = run_job (jf_run e) (jf_job e) in
      if key \<notin> set (sd_openStarts s) then ok s
      else bind_result (opt_usage ''seeded usage'' (jf_usage e) (sd_gov s)) (\<lambda>g1.
           bind_result (opt_usd ''seeded costUSD'' (jf_cost e) g1) (\<lambda>g2.
             ok (s\<lparr>sd_gov := g2, sd_openStarts := filter (\<lambda>k. k \<noteq> key) (sd_openStarts s),
                   sd_unpriced := sd_unpriced s \<or> (has_tokens (jf_usage e) \<and> jf_cost e = None)\<rparr>))))"

fun seed_event :: "run_id list \<Rightarrow> journal_event \<Rightarrow> seed_state \<Rightarrow> gov_error + seed_state" where
  "seed_event era (Job_Started e) s =
     ok (s\<lparr>sd_jobIds := List.insert (js_job e) (sd_jobIds s),
           sd_starts := omap_set (js_job e) (starts_of (js_job e) (sd_starts s) + 1) (sd_starts s),
           sd_totalStarts := sd_totalStarts s + 1,
           sd_openStarts := List.insert (run_job (js_run e) (js_job e)) (sd_openStarts s)\<rparr>)"
| "seed_event era (Reservation_Opened e) s =
     ok (s\<lparr>sd_open := omap_set (ro_id e) \<lparr>or_job = ro_job e, or_usd = ro_usd e, or_index = sd_index s\<rparr> (sd_open s),
           sd_openByRunJob := omap_set (run_job (ro_run e) (ro_job e)) (ro_id e) (sd_openByRunJob s)\<rparr>)"
| "seed_event era (Quarantine_Released r j) s =
     ok (s\<lparr>sd_released := omap_set j (sd_index s) (sd_released s)\<rparr>)"
| "seed_event era (Reservation_Settled e) s =
     (if \<not> omap_has (rt_id e) (sd_open s) then throw (CorruptSettleWithoutOpen (rt_id e) (rt_run e))
      else bind_result (seed_usd ''seeded reservation charge'' (rt_charged e) (sd_gov s)) (\<lambda>g1.
           bind_result (opt_usage ''seeded reservation usage'' (rt_usage e) g1) (\<lambda>g2.
             ok (s\<lparr>sd_gov := g2, sd_open := omap_del (rt_id e) (sd_open s),
                   sd_openByRunJob := omap_del (run_job (rt_run e) (rt_job e)) (sd_openByRunJob s),
                   sd_unpriced := sd_unpriced s
                     \<or> (rt_charged e = 0 \<and> has_tokens (rt_usage e) \<and> \<not> rt_priced e)\<rparr>))))"
| "seed_event era (Job_Finished e) s =
     (let s1 = s\<lparr>sd_jobIds := List.insert (jf_job e) (sd_jobIds s)\<rparr> in
      if jf_run e \<in> set era
      then (case map_of (sd_openByRunJob s) (run_job (jf_run e) (jf_job e)) of
              Some rid \<Rightarrow> throw (CorruptFinishWhileOpen (jf_job e) (jf_run e) rid)
            | None \<Rightarrow> ok s1)
      else seed_finish e s1)"
| "seed_event era _ s = ok s"

fun seed_events :: "run_id list \<Rightarrow> journal_event list \<Rightarrow> seed_state \<Rightarrow> gov_error + seed_state" where
  "seed_events era [] s = ok s"
| "seed_events era (e # es) s =
     bind_result (seed_event era e (s\<lparr>sd_index := sd_index s + 1\<rparr>)) (seed_events era es)"

section \<open>The closing pass\<close>

text \<open>Every reservation left open is charged in full; its job is quarantined unless released since.\<close>

fun charge_open :: "(job_id, nat) omap \<Rightarrow> (string \<times> open_reservation) list \<Rightarrow> governor
    \<Rightarrow> gov_error + governor \<times> (job_id \<times> string \<times> rat) list" where
  "charge_open rel [] g = ok (g, [])"
| "charge_open rel ((rid, p) # ops) g =
     bind_result (seed_usd ''unresolved reservation'' (or_usd p) g) (\<lambda>g1.
       if (case map_of rel (or_job p) of None \<Rightarrow> False | Some k \<Rightarrow> k > or_index p)
       then charge_open rel ops g1
       else bind_result
              (charge_open rel ops
                 (g1\<lparr>g_quarantined := omap_set (or_job p) (rid, or_usd p) (g_quarantined g1)\<rparr>))
              (\<lambda>(g2, qs). ok (g2, (or_job p, rid, or_usd p) # qs)))"

fun seed_attempts :: "(job_id, nat) omap \<Rightarrow> governor \<Rightarrow> governor" where
  "seed_attempts [] g = g"
| "seed_attempts ((j, n) # m) g =
     seed_attempts m (if n > attemptsFor j g then g\<lparr>g_attempts := omap_set j n (g_attempts g)\<rparr> else g)"

definition trip_if :: "bool \<Rightarrow> trip_kind \<Rightarrow> trip_reason \<Rightarrow> governor \<Rightarrow> governor" where
  "trip_if b k r g = (if b then trip k r g else g)"

definition over_usd :: "governor \<Rightarrow> bool" where
  "over_usd g = (case capUsd g of None \<Rightarrow> False | Some c \<Rightarrow> g_usdSpent g > c + USD_EPSILON)"

definition over_tokens :: "governor \<Rightarrow> bool" where
  "over_tokens g = (case gc_maxTokens (g_config g) of None \<Rightarrow> False
     | Some t \<Rightarrow> (case g_usage g of None \<Rightarrow> False | Some u \<Rightarrow> totalTokensOf u > t))"

definition seed_checks :: "bool \<Rightarrow> governor \<Rightarrow> governor" where
  "seed_checks unpriced g =
     (let g1 = trip_if (capUsd g \<noteq> None \<and> unpriced) Exhausted SeededUnpriced g;
          g2 = trip_if (over_usd g1) Exhausted SeededUsdOverrun g1
      in trip_if (over_tokens g2) TokenCap SeededTokenOverrun g2)"

definition seedFromJournal :: "journal_event list \<Rightarrow> governor \<Rightarrow> gov_error + governor" where
  "seedFromJournal evs g =
     bind_result (seed_events (reservation_era evs) evs (seed_init g)) (\<lambda>s.
     bind_result (charge_open (sd_released s) (sd_open s) (sd_gov s)) (\<lambda>(g1, qs).
       (let g2 = (if qs \<noteq> [] then record_event (Ev_Quarantined qs) g1 else g1);
            g3 = seed_attempts (sd_starts s) g2;
            g4 = g3\<lparr>g_dispatched := g_dispatched g3 + sd_totalStarts s\<rparr>;
            g5 = seed_checks (sd_unpriced s) g4
        in ok (record_event (Ev_Seeded (length (sd_jobIds s)) (sd_totalStarts s)) g5))))"

section \<open>What the fold touches\<close>

definition ledger_update :: "governor \<Rightarrow> governor \<Rightarrow> bool" where
  "ledger_update g g' \<longleftrightarrow> g_usdSpent g \<le> g_usdSpent g'
     \<and> g' = g\<lparr>g_usdSpent := g_usdSpent g', g_usage := g_usage g'\<rparr>"

lemma ledger_update_refl [simp]: "ledger_update g g"
  by (simp add: ledger_update_def)

lemma ledger_update_trans: "ledger_update f g \<Longrightarrow> ledger_update g h \<Longrightarrow> ledger_update f h"
  by (cases f; cases g; cases h) (auto simp: ledger_update_def)

lemma seed_usd_ok: "seed_usd f u g = ok g' \<longleftrightarrow> 0 \<le> u \<and> g' = g\<lparr>g_usdSpent := g_usdSpent g + u\<rparr>"
  by (auto simp: seed_usd_def assertValidUsd_ok assertValidUsd_def split: sum.splits)

lemma seed_usd_update: "seed_usd f u g = ok g' \<Longrightarrow> ledger_update g g'"
  by (auto simp: seed_usd_ok ledger_update_def)

lemma opt_usd_update: "opt_usd f m g = ok g' \<Longrightarrow> ledger_update g g'"
  by (auto simp: opt_usd_def seed_usd_update split: option.splits)

lemma opt_usd_spent: "opt_usd f m g = ok g' \<Longrightarrow> g_usdSpent g' = g_usdSpent g + (case m of None \<Rightarrow> 0 | Some u \<Rightarrow> u)"
  by (auto simp: opt_usd_def seed_usd_ok split: option.splits)

lemma opt_usage_update: "opt_usage f m g = ok g' \<Longrightarrow> ledger_update g g'"
  by (auto simp: opt_usage_def seed_usage_def ledger_update_def split: option.splits sum.splits)

lemma opt_usage_spent: "opt_usage f m g = ok g' \<Longrightarrow> g_usdSpent g' = g_usdSpent g"
  by (auto simp: opt_usage_def seed_usage_def split: option.splits sum.splits)

lemma seed_event_update: "seed_event era e s = ok s' \<Longrightarrow> ledger_update (sd_gov s) (sd_gov s')"
proof (cases e)
  case (Reservation_Settled r)
  assume "seed_event era e s = ok s'"
  with Reservation_Settled show ?thesis
    by (auto simp: bind_result_eq_Inr split: if_splits
        dest!: seed_usd_update opt_usage_update intro: ledger_update_trans)
next
  case (Job_Finished j)
  assume "seed_event era e s = ok s'"
  with Job_Finished show ?thesis
    by (auto simp: Let_def seed_finish_def bind_result_eq_Inr split: if_splits option.splits
        dest!: opt_usd_update opt_usage_update intro: ledger_update_trans)
qed auto

lemma seed_events_update: "seed_events era es s = ok s' \<Longrightarrow> ledger_update (sd_gov s) (sd_gov s')"
  by (induction es arbitrary: s)
    (auto simp: bind_result_eq_Inr dest!: seed_event_update intro: ledger_update_trans)

section \<open>The ledger equation\<close>

text \<open>The charges settled in a journal, and the reservations opened there and never settled.\<close>

fun settled_charge :: "journal_event \<Rightarrow> rat" where
  "settled_charge (Reservation_Settled e) = rt_charged e"
| "settled_charge _ = 0"

fun track_open :: "journal_event \<Rightarrow> (string, rat) omap \<Rightarrow> (string, rat) omap" where
  "track_open (Reservation_Opened e) m = omap_set (ro_id e) (ro_usd e) m"
| "track_open (Reservation_Settled e) m = omap_del (rt_id e) m"
| "track_open _ m = m"

definition unresolved :: "journal_event list \<Rightarrow> (string, rat) omap" where
  "unresolved evs = fold track_open evs []"

text \<open>The era before reservations: a finish prices the dispatch whose start it closes in its own run.\<close>

fun legacy_cost :: "run_id list \<Rightarrow> string list \<Rightarrow> journal_event list \<Rightarrow> rat" where
  "legacy_cost era opens [] = 0"
| "legacy_cost era opens (Job_Started e # es) =
     legacy_cost era (List.insert (run_job (js_run e) (js_job e)) opens) es"
| "legacy_cost era opens (Job_Finished e # es) =
     (let key = run_job (jf_run e) (jf_job e) in
      if jf_run e \<in> set era \<or> key \<notin> set opens then legacy_cost era opens es
      else (case jf_cost e of None \<Rightarrow> 0 | Some u \<Rightarrow> u)
           + legacy_cost era (filter (\<lambda>k. k \<noteq> key) opens) es)"
| "legacy_cost era opens (_ # es) = legacy_cost era opens es"

definition open_usd :: "(string, open_reservation) omap \<Rightarrow> (string, rat) omap" where
  "open_usd m = map (\<lambda>(k, p). (k, or_usd p)) m"

lemma open_usd_set: "open_usd (omap_set k p m) = omap_set k (or_usd p) (open_usd m)"
  by (induction m) (auto simp: open_usd_def)

lemma open_usd_del: "open_usd (omap_del k m) = omap_del k (open_usd m)"
  by (induction m) (auto simp: open_usd_def omap_del_def)

lemma seed_event_open:
  "seed_event era e s = ok s' \<Longrightarrow> open_usd (sd_open s') = track_open e (open_usd (sd_open s))"
  by (cases e) (auto simp: open_usd_set open_usd_del bind_result_eq_Inr seed_finish_def Let_def
      split: if_splits option.splits)

lemma seed_events_open:
  "seed_events era es s = ok s' \<Longrightarrow> open_usd (sd_open s') = fold track_open es (open_usd (sd_open s))"
  by (induction es arbitrary: s) (auto simp: bind_result_eq_Inr seed_event_open)

lemma seed_events_spent:
  "seed_events era es s = ok s' \<Longrightarrow>
   g_usdSpent (sd_gov s') = g_usdSpent (sd_gov s) + sum_list (map settled_charge es)
     + legacy_cost era (sd_openStarts s) es"
proof (induction es arbitrary: s)
  case (Cons e es)
  from Cons.prems obtain s1 where s1: "seed_event era e (s\<lparr>sd_index := sd_index s + 1\<rparr>) = ok s1"
    "seed_events era es s1 = ok s'"
    by (auto simp: bind_result_eq_Inr)
  note IH = Cons.IH [OF s1(2)]
  show ?case
  proof (cases e)
    case (Reservation_Settled r)
    with s1(1) IH show ?thesis
      by (auto simp: bind_result_eq_Inr seed_usd_ok dest!: opt_usage_spent split: if_splits)
  next
    case (Job_Finished j)
    with s1(1) IH show ?thesis
      by (auto simp: Let_def seed_finish_def bind_result_eq_Inr dest!: opt_usage_spent opt_usd_spent
          split: if_splits option.splits)
  qed (use s1(1) IH in auto)
qed simp

lemma charge_open_props:
  "charge_open rel ops g = ok (g', qs) \<Longrightarrow>
   g_usdSpent g' = g_usdSpent g + sum_list (map (or_usd \<circ> snd) ops)
   \<and> g_usdSpent g \<le> g_usdSpent g'
   \<and> g' = g\<lparr>g_usdSpent := g_usdSpent g', g_quarantined := g_quarantined g'\<rparr>"
proof (induction rel ops g arbitrary: g' qs rule: charge_open.induct)
  case (1 rel g)
  then show ?case by simp
next
  case (2 rel rid p ops g)
  from 2(3) obtain g1 where g1: "seed_usd ''unresolved reservation'' (or_usd p) g = ok g1"
    by (auto simp: bind_result_eq_Inr)
  show ?case
  proof (cases "case map_of rel (or_job p) of None \<Rightarrow> False | Some k \<Rightarrow> k > or_index p")
    case True
    with 2(3) g1 have "charge_open rel ops g1 = ok (g', qs)" by (simp add: bind_result_eq_Inr)
    from 2(1) [OF True this] g1 show ?thesis by (cases g; cases g') (auto simp: seed_usd_ok)
  next
    case False
    with 2(3) g1 obtain qs' where
      "charge_open rel ops (g1\<lparr>g_quarantined := omap_set (or_job p) (rid, or_usd p) (g_quarantined g1)\<rparr>)
        = ok (g', qs')" by (auto simp: bind_result_eq_Inr)
    from 2(2) [OF False this] g1 show ?thesis by (cases g; cases g') (auto simp: seed_usd_ok)
  qed
qed

lemma seed_attempts_only: "\<exists>a. seed_attempts m g = g\<lparr>g_attempts := a\<rparr>"
proof (induction m g rule: seed_attempts.induct)
  case (1 g)
  show ?case by (auto intro!: exI [of _ "g_attempts g"])
next
  case (2 j n m g)
  then show ?case by auto
qed

lemma seed_checks_simps [simp]:
  "g_usdSpent (seed_checks b g) = g_usdSpent g" "g_outstanding (seed_checks b g) = g_outstanding g"
  "g_openByJob (seed_checks b g) = g_openByJob g" "g_outstandingUsd (seed_checks b g) = g_outstandingUsd g"
  "g_quarantined (seed_checks b g) = g_quarantined g" "capUsd (seed_checks b g) = capUsd g"
  "g_config (seed_checks b g) = g_config g" "g_usage (seed_checks b g) = g_usage g"
  "g_inheritedCap (seed_checks b g) = g_inheritedCap g"
  "g_dispatched (seed_checks b g) = g_dispatched g" "g_attempts (seed_checks b g) = g_attempts g"
  by (simp_all add: seed_checks_def trip_if_def Let_def)

lemma seed_okE:
  assumes "seedFromJournal evs g = ok g'"
  obtains s g1 qs a where "seed_events (reservation_era evs) evs (seed_init g) = ok s"
    "charge_open (sd_released s) (sd_open s) (sd_gov s) = ok (g1, qs)"
    "g' = record_event (Ev_Seeded (length (sd_jobIds s)) (sd_totalStarts s))
       (seed_checks (sd_unpriced s)
         ((if qs \<noteq> [] then record_event (Ev_Quarantined qs) g1 else g1)
            \<lparr>g_attempts := a, g_dispatched := g_dispatched g1 + sd_totalStarts s\<rparr>))"
proof -
  from assms obtain s g1 qs where s: "seed_events (reservation_era evs) evs (seed_init g) = ok s"
    "charge_open (sd_released s) (sd_open s) (sd_gov s) = ok (g1, qs)"
    and g': "g' = (let g2 = (if qs \<noteq> [] then record_event (Ev_Quarantined qs) g1 else g1);
            g3 = seed_attempts (sd_starts s) g2;
            g4 = g3\<lparr>g_dispatched := g_dispatched g3 + sd_totalStarts s\<rparr>;
            g5 = seed_checks (sd_unpriced s) g4
        in record_event (Ev_Seeded (length (sd_jobIds s)) (sd_totalStarts s)) g5)"
    by (auto simp: seedFromJournal_def bind_result_eq_Inr Let_def)
  obtain a where a: "seed_attempts (sd_starts s) (if qs \<noteq> [] then record_event (Ev_Quarantined qs) g1 else g1)
      = (if qs \<noteq> [] then record_event (Ev_Quarantined qs) g1 else g1)\<lparr>g_attempts := a\<rparr>"
    using seed_attempts_only by blast
  show thesis
    by (rule that [OF s, of a], unfold g' Let_def a) (simp split: if_split)
qed

lemma seeded_spend:
  assumes "seedFromJournal evs g = ok g'"
  shows "g_usdSpent g' = g_usdSpent g + sum_list (map settled_charge evs)
    + legacy_cost (reservation_era evs) [] evs + sum_list (map snd (unresolved evs))"
proof -
  from assms obtain s g1 qs a where s: "seed_events (reservation_era evs) evs (seed_init g) = ok s"
    "charge_open (sd_released s) (sd_open s) (sd_gov s) = ok (g1, qs)"
    and g': "g_usdSpent g' = g_usdSpent g1"
    by (rule seed_okE) (auto simp: record_event_def)
  have "unresolved evs = open_usd (sd_open s)"
    using seed_events_open [OF s(1)] by (simp add: unresolved_def seed_init_def open_usd_def)
  then have "map snd (unresolved evs) = map (or_usd \<circ> snd) (sd_open s)"
    by (simp add: open_usd_def comp_def case_prod_beta)
  moreover have "g_usdSpent g1 = g_usdSpent (sd_gov s) + sum_list (map (or_usd \<circ> snd) (sd_open s))"
    using charge_open_props [OF s(2)] by blast
  ultimately show ?thesis using seed_events_spent [OF s(1)] g' by (simp add: seed_init_def)
qed

text \<open>C32 The ledger equation of a resume: the seeded dollar rollup is the sum of the charges
  settled in the folded journals, the prices of dispatches closed before reservations existed, and
  the full amount of every reservation opened and never settled.\<close>

theorem seed_ledger:
  assumes "seedFromJournal evs g = ok g'"
  shows "g_usdSpent g' = g_usdSpent g + sum_list (map settled_charge evs)
    + legacy_cost (reservation_era evs) [] evs + sum_list (map snd (unresolved evs))"
  by (rule seeded_spend [OF assms])

text \<open>A journal to evaluate on: job \<open>a\<close> settled at three dollars, job \<open>b\<close> crashed behind a reservation of four.\<close>

definition demo_open :: "job_id \<Rightarrow> rat \<Rightarrow> journal_event" where
  "demo_open j u = Reservation_Opened \<lparr>ro_run = ''r'', ro_job = j, ro_op = ''op'', ro_attempt = 1,
     ro_id = ''r:'' @ j, ro_usd = u, ro_class = Advisory, ro_proposed = None\<rparr>"

definition demo_journal :: "journal_event list" where
  "demo_journal =
     [Job_Started \<lparr>js_run = ''r'', js_job = ''a'', js_op = ''op'', js_attempt = 1\<rparr>, demo_open ''a'' 5,
      Reservation_Settled \<lparr>rt_run = ''r'', rt_job = ''a'', rt_id = ''r:a'', rt_charged = 3, rt_basis = Observed,
        rt_priced = True, rt_usage = None\<rparr>,
      Job_Started \<lparr>js_run = ''r'', js_job = ''b'', js_op = ''op'', js_attempt = 1\<rparr>, demo_open ''b'' 4]"

definition demo_seeded :: governor where
  "demo_seeded = (case seedFromJournal demo_journal demo_start of Inl _ \<Rightarrow> demo_start | Inr g \<Rightarrow> g)"

lemma demo_seeded_ok: "seedFromJournal demo_journal demo_start = ok demo_seeded"
  by code_simp

lemma seed_ledger_witness:
  "g_usdSpent demo_seeded = g_usdSpent demo_start + sum_list (map settled_charge demo_journal)
    + legacy_cost (reservation_era demo_journal) [] demo_journal + sum_list (map snd (unresolved demo_journal))"
  by (rule seed_ledger [OF demo_seeded_ok])

section \<open>A seeded governor is ready to run\<close>

text \<open>What the governed runner does before its first dispatch: construct, inherit, seed.\<close>

definition launchGovernor :: "gov_config \<Rightarrow> rat option \<Rightarrow> journal_event list \<Rightarrow> gov_error + governor" where
  "launchGovernor c inherited evs =
     bind_result
       (case inherited of
          None \<Rightarrow> ok (createGovernor c)
        | Some cap \<Rightarrow> bind_result (inheritCapUsd (Fin cap) (createGovernor c)) (\<lambda>(g, _). ok g))
       (seedFromJournal evs)"

definition unused :: "governor \<Rightarrow> bool" where
  "unused g \<longleftrightarrow> g_outstanding g = [] \<and> g_openByJob g = [] \<and> g_outstandingUsd g = 0
     \<and> g_waiters g = [] \<and> g_trip g = None \<and> \<not> g_tripAborted g \<and> 0 \<le> g_usdSpent g"

lemma unused_create: "unused (createGovernor c)"
  by (simp add: unused_def createGovernor_def)

lemma unused_inherit: "unused g \<Longrightarrow> inheritCapUsd n g = ok (g', b) \<Longrightarrow> unused g'"
  by (auto simp: inheritCapUsd_def unused_def split: if_splits sum.splits option.splits)

lemma over_trip [simp]:
  "over_usd (trip k r g) = over_usd g" "over_tokens (trip k r g) = over_tokens g"
  by (simp_all add: over_usd_def over_tokens_def cong: option.case_cong)

lemma seed_checks_state:
  assumes "unused g"
  shows "g_waiters (seed_checks b g) = []" "g_tripAborted (seed_checks b g) = tripped (seed_checks b g)"
    "rollup_ok (seed_checks b g)"
proof -
  have g: "\<not> tripped g" "g_waiters g = []" "\<not> g_tripAborted g" using assms by (simp_all add: unused_def tripped_def)
  have t: "g_waiters (trip_if c k r h) = []" if "g_waiters h = []" for c k r h
    using that by (simp add: trip_if_def trip_waiters)
  have a: "g_tripAborted (trip_if c k r h) = tripped (trip_if c k r h)" if "g_tripAborted h = tripped h" for c k r h
    using that by (cases "tripped h") (simp_all add: trip_if_def trip_aborted trip_first)
  show "g_waiters (seed_checks b g) = []" "g_tripAborted (seed_checks b g) = tripped (seed_checks b g)"
    unfolding seed_checks_def Let_def by (intro t g) (intro a, use g in simp)
  have "\<not> over_usd g \<and> \<not> over_tokens g" if "\<not> tripped (seed_checks b g)"
    using that by (auto simp: seed_checks_def Let_def trip_if_def split: if_splits)
  then show "rollup_ok (seed_checks b g)"
    by (auto simp: rollup_ok_def over_usd_def over_tokens_def not_less cong: option.case_cong split: option.splits)
qed

lemma seed_gov_start:
  assumes "unused g" "seedFromJournal evs g = ok g'"
  shows "gov_start g'"
proof -
  from assms(2) obtain s g1 qs a where s: "seed_events (reservation_era evs) evs (seed_init g) = ok s"
    and c: "charge_open (sd_released s) (sd_open s) (sd_gov s) = ok (g1, qs)"
    and g': "g' = record_event (Ev_Seeded (length (sd_jobIds s)) (sd_totalStarts s))
       (seed_checks (sd_unpriced s)
         ((if qs \<noteq> [] then record_event (Ev_Quarantined qs) g1 else g1)
            \<lparr>g_attempts := a, g_dispatched := g_dispatched g1 + sd_totalStarts s\<rparr>))"
    by (rule seed_okE)
  let ?h = "(if qs \<noteq> [] then record_event (Ev_Quarantined qs) g1 else g1)
            \<lparr>g_attempts := a, g_dispatched := g_dispatched g1 + sd_totalStarts s\<rparr>"
  have "ledger_update g (sd_gov s)" using seed_events_update [OF s] by (simp add: seed_init_def)
  then have "unused (sd_gov s)" using assms(1)
    by (cases g; cases "sd_gov s") (auto simp: ledger_update_def unused_def)
  then have "unused g1" using charge_open_props [OF c]
    by (cases g1; cases "sd_gov s") (auto simp: unused_def)
  then have h: "unused ?h" by (simp add: unused_def record_event_def)
  note st = seed_checks_state [OF h, of "sd_unpriced s"]
  have "rollup_ok g' = rollup_ok (seed_checks (sd_unpriced s) ?h)"
    unfolding g' by (intro rollup_cong) simp_all
  with st h show ?thesis
    unfolding gov_start_def g' unused_def by (simp add: st)
qed

lemma launch_seeded:
  assumes "launchGovernor c inh evs = ok g"
  obtains g0 where "seedFromJournal evs g0 = ok g" "g_usdSpent g0 = 0" "unused g0"
proof -
  from assms obtain g0 where g0: "seedFromJournal evs g0 = ok g"
    "g0 = createGovernor c \<or> (\<exists>n b. inheritCapUsd n (createGovernor c) = ok (g0, b))"
    by (auto simp: launchGovernor_def bind_result_eq_Inr split: option.splits)
  moreover have "g_usdSpent g0 = 0"
    using g0(2) by (auto simp: inheritCapUsd_def createGovernor_def split: if_splits sum.splits option.splits)
  moreover have "unused g0" using g0(2) unused_create unused_inherit by blast
  ultimately show thesis using that by blast
qed

lemma launch_gov_start: "launchGovernor c inh evs = ok g \<Longrightarrow> gov_start g"
  by (erule launch_seeded) (rule seed_gov_start)

text \<open>A resumed run starts in a consistent governor: nothing reserved and nobody parked, and if
  the seeded rollups are past a cap it is already tripped, so the resumed run admits nothing.\<close>

lemma launch_ready:
  assumes "launchGovernor c inh evs = ok g"
  shows "gov_start g"
  by (rule launch_gov_start [OF assms])

section \<open>Quarantine\<close>

definition opens_at :: "journal_event list \<Rightarrow> nat \<Rightarrow> string \<Rightarrow> open_reservation \<Rightarrow> bool" where
  "opens_at evs i rid p \<longleftrightarrow> i < length evs \<and>
     (\<exists>e. evs ! i = Reservation_Opened e \<and> ro_id e = rid
        \<and> p = \<lparr>or_job = ro_job e, or_usd = ro_usd e, or_index = i + 1\<rparr>)"

fun touches :: "string \<Rightarrow> journal_event \<Rightarrow> bool" where
  "touches rid (Reservation_Opened e) = (ro_id e = rid)"
| "touches rid (Reservation_Settled e) = (rt_id e = rid)"
| "touches rid _ = False"

fun releases :: "job_id \<Rightarrow> journal_event \<Rightarrow> bool" where
  "releases j (Quarantine_Released r i) = (i = j)"
| "releases j _ = False"

definition untouched_after :: "journal_event list \<Rightarrow> nat \<Rightarrow> string \<Rightarrow> bool" where
  "untouched_after evs i rid \<longleftrightarrow> (\<forall>k < length evs. i < k \<longrightarrow> \<not> touches rid (evs ! k))"

definition released_after :: "journal_event list \<Rightarrow> nat \<Rightarrow> job_id \<Rightarrow> bool" where
  "released_after evs i j \<longleftrightarrow> (\<exists>k < length evs. i < k \<and> releases j (evs ! k))"

lemma seed_events_snoc:
  "seed_events era (xs @ [e]) s =
     bind_result (seed_events era xs s) (\<lambda>s1. seed_event era e (s1\<lparr>sd_index := sd_index s1 + 1\<rparr>))"
  by (induction xs arbitrary: s) (auto simp: bind_result_def split: sum.split)

lemma seed_event_index: "seed_event era e s = ok s' \<Longrightarrow> sd_index s' = sd_index s"
  by (cases e) (auto simp: bind_result_eq_Inr seed_finish_def Let_def split: if_splits option.splits)

lemma seed_event_map_open:
  "seed_event era e s = ok s' \<Longrightarrow> map_of (sd_open s') =
     (case e of Reservation_Opened r \<Rightarrow> (map_of (sd_open s))(ro_id r \<mapsto> \<lparr>or_job = ro_job r, or_usd = ro_usd r, or_index = sd_index s\<rparr>)
      | Reservation_Settled r \<Rightarrow> (map_of (sd_open s))(rt_id r := None)
      | _ \<Rightarrow> map_of (sd_open s))"
  by (cases e) (auto simp: bind_result_eq_Inr seed_finish_def Let_def split: if_splits option.splits)

lemma seed_event_distinct:
  "seed_event era e s = ok s' \<Longrightarrow> distinct (okeys (sd_open s)) \<Longrightarrow> distinct (okeys (sd_open s'))"
  by (cases e) (auto simp: bind_result_eq_Inr seed_finish_def Let_def distinct_omap_set distinct_omap_del
      simp del: map_map split: if_splits option.splits)

lemma seed_event_released:
  "seed_event era e s = ok s' \<Longrightarrow> map_of (sd_released s') =
     (case e of Quarantine_Released r j \<Rightarrow> (map_of (sd_released s))(j \<mapsto> sd_index s) | _ \<Rightarrow> map_of (sd_released s))"
  by (cases e) (auto simp: bind_result_eq_Inr seed_finish_def Let_def split: if_splits option.splits)

lemma opens_at_snoc:
  "opens_at (evs @ [e]) i rid p \<longleftrightarrow>
     (if i = length evs
      then (\<exists>r. e = Reservation_Opened r \<and> ro_id r = rid
              \<and> p = \<lparr>or_job = ro_job r, or_usd = ro_usd r, or_index = length evs + 1\<rparr>)
      else opens_at evs i rid p)"
  by (auto simp: opens_at_def nth_append)

lemma untouched_after_snoc:
  "untouched_after (evs @ [e]) i rid \<longleftrightarrow> untouched_after evs i rid \<and> (i < length evs \<longrightarrow> \<not> touches rid e)"
  by (auto simp: untouched_after_def nth_append less_Suc_eq)

lemma released_after_snoc:
  "released_after (evs @ [e]) i j \<longleftrightarrow> released_after evs i j \<or> (i < length evs \<and> releases j e)"
  unfolding released_after_def length_append list.size add_0_right add_Suc_right Ex_less_Suc
  by (simp add: nth_append disj_commute cong: conj_cong)

lemma open_now_snoc:
  "(\<exists>i. opens_at (evs @ [e]) i rid p \<and> untouched_after (evs @ [e]) i rid) \<longleftrightarrow>
     (\<exists>r. e = Reservation_Opened r \<and> ro_id r = rid
        \<and> p = \<lparr>or_job = ro_job r, or_usd = ro_usd r, or_index = length evs + 1\<rparr>)
     \<or> (\<not> touches rid e \<and> (\<exists>i. opens_at evs i rid p \<and> untouched_after evs i rid))"
  (is "?L \<longleftrightarrow> ?N \<or> ?O")
proof -
  have u: "untouched_after evs (length evs) rid" by (simp add: untouched_after_def)
  have lt: "opens_at evs i rid p \<Longrightarrow> i < length evs" for i by (simp add: opens_at_def)
  have "?O \<Longrightarrow> ?L"
  proof (elim conjE exE)
    fix i
    assume i: "\<not> touches rid e" "opens_at evs i rid p" "untouched_after evs i rid"
    then have "i \<noteq> length evs" using lt by blast
    with i show ?L by (intro exI [of _ i]) (simp add: opens_at_snoc untouched_after_snoc)
  qed
  moreover have "?N \<Longrightarrow> ?L" using u
    by (intro exI [of _ "length evs"]) (auto simp: opens_at_snoc untouched_after_snoc)
  moreover have "?L \<Longrightarrow> ?N \<or> ?O"
    using lt by (auto simp: opens_at_snoc untouched_after_snoc split: if_splits)
  ultimately show ?thesis by blast
qed

definition tracks :: "journal_event list \<Rightarrow> seed_state \<Rightarrow> bool" where
  "tracks evs s \<longleftrightarrow> sd_index s = length evs \<and> distinct (okeys (sd_open s))
     \<and> (\<forall>rid p. map_of (sd_open s) rid = Some p \<longleftrightarrow> (\<exists>i. opens_at evs i rid p \<and> untouched_after evs i rid))
     \<and> (\<forall>j i. (case map_of (sd_released s) j of None \<Rightarrow> False | Some k \<Rightarrow> k > i + 1) \<longleftrightarrow> released_after evs i j)"

lemma tracks_step:
  assumes t: "tracks evs s" and e: "seed_event era e (s\<lparr>sd_index := sd_index s + 1\<rparr>) = ok s'"
  shows "tracks (evs @ [e]) s'"
proof -
  note idx = seed_event_index [OF e] and mo = seed_event_map_open [OF e] and rel = seed_event_released [OF e]
  have len: "sd_index s = length evs" using t by (simp add: tracks_def)
  have "map_of (sd_open s') rid = Some p \<longleftrightarrow>
      (\<exists>i. opens_at (evs @ [e]) i rid p \<and> untouched_after (evs @ [e]) i rid)" for rid p
  proof -
    have old: "map_of (sd_open s) rid = Some p \<longleftrightarrow> (\<exists>i. opens_at evs i rid p \<and> untouched_after evs i rid)"
      using t by (simp add: tracks_def)
    show ?thesis unfolding open_now_snoc old [symmetric] using mo len
      by (cases e) auto
  qed
  moreover have "(case map_of (sd_released s') j of None \<Rightarrow> False | Some k \<Rightarrow> k > i + 1)
      \<longleftrightarrow> released_after (evs @ [e]) i j" for i j
  proof -
    have "(case map_of (sd_released s) j of None \<Rightarrow> False | Some k \<Rightarrow> k > i + 1) \<longleftrightarrow> released_after evs i j"
      using t unfolding tracks_def by blast
    moreover have "released_after evs i j \<Longrightarrow> i < length evs" by (auto simp: released_after_def)
    ultimately show ?thesis using rel len by (cases e) (auto simp: released_after_snoc)
  qed
  moreover have "distinct (okeys (sd_open s'))" using seed_event_distinct [OF e] t by (simp add: tracks_def)
  ultimately show ?thesis using idx len by (simp add: tracks_def)
qed

lemma tracks_events: "seed_events era evs (seed_init g) = ok s \<Longrightarrow> tracks evs s"
proof (induction evs arbitrary: s rule: rev_induct)
  case Nil
  then show ?case
    by (auto simp: tracks_def seed_init_def opens_at_def released_after_def)
next
  case (snoc e evs)
  then show ?case by (auto simp: seed_events_snoc bind_result_eq_Inr intro: tracks_step)
qed

lemma charge_open_quarantined:
  "charge_open rel ops g = ok (g', qs) \<Longrightarrow> omap_has j (g_quarantined g') \<longleftrightarrow>
     omap_has j (g_quarantined g) \<or>
     (\<exists>(rid, p) \<in> set ops. or_job p = j \<and> \<not> (case map_of rel j of None \<Rightarrow> False | Some k \<Rightarrow> k > or_index p))"
proof (induction rel ops g arbitrary: g' qs rule: charge_open.induct)
  case (2 rel rid p ops g)
  from 2(3) obtain g1 where g1: "seed_usd ''unresolved reservation'' (or_usd p) g = ok g1"
    by (auto simp: bind_result_eq_Inr)
  then have q: "g_quarantined g1 = g_quarantined g" by (auto simp: seed_usd_ok)
  show ?case
  proof (cases "case map_of rel (or_job p) of None \<Rightarrow> False | Some k \<Rightarrow> k > or_index p")
    case True
    with 2(3) g1 have "charge_open rel ops g1 = ok (g', qs)" by (simp add: bind_result_eq_Inr)
    from 2(1) [OF True this] True q show ?thesis by auto
  next
    case False
    with 2(3) g1 obtain qs' where
      "charge_open rel ops (g1\<lparr>g_quarantined := omap_set (or_job p) (rid, or_usd p) (g_quarantined g1)\<rparr>)
        = ok (g', qs')" by (auto simp: bind_result_eq_Inr)
    from 2(2) [OF False this] False q show ?thesis by (auto simp: omap_has_def)
  qed
qed auto

text \<open>Quarantine is exact: after seeding, a job is quarantined if and only if some journalled
  reservation of it was opened, never settled (nor reopened) since, and the job was not explicitly
  released after that opening.\<close>

lemma quarantine_exact:
  assumes "seedFromJournal evs g = ok g'" "g_quarantined g = []"
  shows "omap_has j (g_quarantined g') \<longleftrightarrow>
    (\<exists>i e. i < length evs \<and> evs ! i = Reservation_Opened e \<and> ro_job e = j
       \<and> untouched_after evs i (ro_id e) \<and> \<not> released_after evs i j)"
proof -
  from assms(1) obtain s g1 qs a where s: "seed_events (reservation_era evs) evs (seed_init g) = ok s"
    and c: "charge_open (sd_released s) (sd_open s) (sd_gov s) = ok (g1, qs)"
    and g': "g_quarantined g' = g_quarantined g1"
    by (rule seed_okE) simp
  note t = tracks_events [OF s]
  have op: "(rid, p) \<in> set (sd_open s) \<longleftrightarrow> (\<exists>i. opens_at evs i rid p \<and> untouched_after evs i rid)" for rid p
    using t unfolding tracks_def by (metis map_of_eq_Some_iff)
  have "g_quarantined (sd_gov s) = []"
    using seed_events_update [OF s] assms(2)
    by (cases g; cases "sd_gov s") (auto simp: ledger_update_def seed_init_def)
  with charge_open_quarantined [OF c, of j] g' have "omap_has j (g_quarantined g') \<longleftrightarrow>
     (\<exists>(rid, p) \<in> set (sd_open s). or_job p = j
        \<and> \<not> (case map_of (sd_released s) j of None \<Rightarrow> False | Some k \<Rightarrow> k > or_index p))"
    by (simp add: omap_has_def)
  also have "\<dots> \<longleftrightarrow> (\<exists>i rid p. opens_at evs i rid p \<and> untouched_after evs i rid \<and> or_job p = j
        \<and> \<not> released_after evs i j)"
  proof -
    have "(case map_of (sd_released s) j of None \<Rightarrow> False | Some k \<Rightarrow> k > or_index p) = released_after evs i j"
      if "opens_at evs i rid p" for i rid p
    proof -
      have "or_index p = i + 1" using that by (auto simp: opens_at_def)
      then show ?thesis using t unfolding tracks_def by metis
    qed
    then show ?thesis unfolding op [symmetric] case_prod_beta Bex_def
      by (metis (no_types, lifting) fst_conv op prod.collapse snd_conv)
  qed
  also have "\<dots> \<longleftrightarrow> (\<exists>i e. i < length evs \<and> evs ! i = Reservation_Opened e \<and> ro_job e = j
       \<and> untouched_after evs i (ro_id e) \<and> \<not> released_after evs i j)"
    by (auto simp: opens_at_def)
  finally show ?thesis .
qed

end
