(* ===== verification/Dispatch_Crash.thy ===== *)
theory Dispatch_Crash
  imports Governor_Seed
begin

text \<open>
  The governed dispatch of \<open>src/kernel/runner.ts\<close> seen from its durable record: admission, the
  write-ahead \<open>reservation-opened\<close>, the folds, the settle, the write-ahead \<open>reservation-settled\<close>
  and the finish, interleaved over all jobs of a run, against the journal a later run seeds from.
  A crash is any point of this system: what survives is the journal.
\<close>

section \<open>Journals the writer produces\<close>

fun track_job :: "journal_event \<Rightarrow> (string, string) omap \<Rightarrow> (string, string) omap" where
  "track_job (Reservation_Opened e) m = omap_set (run_job (ro_run e) (ro_job e)) (ro_id e) m"
| "track_job (Reservation_Settled e) m = omap_del (run_job (rt_run e) (rt_job e)) m"
| "track_job _ m = m"

definition unresolved_jobs :: "journal_event list \<Rightarrow> (string, string) omap" where
  "unresolved_jobs evs = fold track_job evs []"

definition opt_valid :: "usage option \<Rightarrow> bool" where
  "opt_valid m = (case m of None \<Rightarrow> True | Some u \<Rightarrow> valid_usage u)"

fun event_sound :: "(string, rat) omap \<Rightarrow> (string, string) omap \<Rightarrow> journal_event \<Rightarrow> bool" where
  "event_sound U B (Reservation_Opened e) = (0 \<le> ro_usd e)"
| "event_sound U B (Reservation_Settled e) = (omap_has (rt_id e) U \<and> 0 \<le> rt_charged e \<and> opt_valid (rt_usage e))"
| "event_sound U B (Job_Finished e) =
     (\<not> omap_has (run_job (jf_run e) (jf_job e)) B \<and> opt_valid (jf_usage e)
      \<and> (case jf_cost e of None \<Rightarrow> True | Some u \<Rightarrow> 0 \<le> u))"
| "event_sound U B _ = True"

fun sound_from :: "(string, rat) omap \<Rightarrow> (string, string) omap \<Rightarrow> journal_event list \<Rightarrow> bool" where
  "sound_from U B [] = True"
| "sound_from U B (e # es) = (event_sound U B e \<and> sound_from (track_open e U) (track_job e B) es)"

definition sound_journal :: "journal_event list \<Rightarrow> bool" where
  "sound_journal evs = sound_from [] [] evs"

lemma sound_from_snoc:
  "sound_from U B (es @ [e]) \<longleftrightarrow>
     sound_from U B es \<and> event_sound (fold track_open es U) (fold track_job es B) e"
  by (induction es arbitrary: U B) auto

lemma sound_journal_snoc:
  "sound_journal (es @ [e]) \<longleftrightarrow> sound_journal es \<and> event_sound (unresolved es) (unresolved_jobs es) e"
  by (simp add: sound_journal_def sound_from_snoc unresolved_def unresolved_jobs_def)

lemma unresolved_snoc: "unresolved (es @ [e]) = track_open e (unresolved es)"
  by (simp add: unresolved_def)

lemma omap_has_open_usd: "omap_has k (open_usd m) = omap_has k m"
  by (induction m) (auto simp: open_usd_def omap_has_def)

lemma opt_usage_total: "opt_valid m \<Longrightarrow> \<exists>g'. opt_usage f m g = ok g'"
  by (auto simp: opt_valid_def opt_usage_def seed_usage_def split: option.splits sum.splits)
    (metis assertValidUsage_ok Inl_Inr_False)

lemma seed_usd_total: "0 \<le> u \<Longrightarrow> \<exists>g'. seed_usd f u g = ok g'"
  by (simp add: seed_usd_ok)

lemma seed_event_total:
  assumes "event_sound (open_usd (sd_open s)) (sd_openByRunJob s) e"
  shows "\<exists>s'. seed_event era e s = ok s' \<and> open_usd (sd_open s') = track_open e (open_usd (sd_open s))
     \<and> sd_openByRunJob s' = track_job e (sd_openByRunJob s)"
proof (cases e)
  case (Reservation_Settled r)
  with assms obtain g1 g2 where
    "seed_usd ''seeded reservation charge'' (rt_charged r) (sd_gov s) = ok g1"
    "opt_usage ''seeded reservation usage'' (rt_usage r) g1 = ok g2"
    using seed_usd_total opt_usage_total by (metis event_sound.simps(2))
  with Reservation_Settled assms show ?thesis
    by (simp add: omap_has_open_usd open_usd_del)
next
  case (Job_Finished j)
  show ?thesis
  proof (cases "jf_run j \<in> set era")
    case True
    with Job_Finished assms show ?thesis by (simp add: Let_def omap_has_def)
  next
    case False
    have "\<exists>g2. opt_usd ''seeded costUSD'' (jf_cost j) g = ok g2" for g
      using assms Job_Finished by (auto simp: opt_usd_def seed_usd_ok split: option.splits)
    moreover have "\<exists>g1. opt_usage ''seeded usage'' (jf_usage j) (sd_gov s) = ok g1"
      using assms Job_Finished opt_usage_total by simp
    ultimately obtain g1 g2 where "opt_usage ''seeded usage'' (jf_usage j) (sd_gov s) = ok g1"
      "opt_usd ''seeded costUSD'' (jf_cost j) g1 = ok g2" by metis
    with False Job_Finished show ?thesis by (auto simp: Let_def seed_finish_def)
  qed
qed (simp_all add: open_usd_set)

lemma seed_events_total:
  "sound_from (open_usd (sd_open s)) (sd_openByRunJob s) es \<Longrightarrow> \<exists>s'. seed_events era es s = ok s'"
proof (induction es arbitrary: s)
  case (Cons e es)
  let ?s = "s\<lparr>sd_index := sd_index s + 1\<rparr>"
  from Cons.prems have "event_sound (open_usd (sd_open ?s)) (sd_openByRunJob ?s) e" by simp
  from seed_event_total [OF this, of era] obtain s1 where "seed_event era e ?s = ok s1"
    "open_usd (sd_open s1) = track_open e (open_usd (sd_open s))"
    "sd_openByRunJob s1 = track_job e (sd_openByRunJob s)" by auto
  with Cons.prems Cons.IH [of s1] show ?case by simp
qed simp

lemma omap_set_values: "(k, v) \<in> set (omap_set k' v' m) \<Longrightarrow> v = v' \<or> (k, v) \<in> set m"
  by (induction m) (auto split: if_splits)

lemma track_open_nonneg:
  "\<forall>(k, u) \<in> set U. 0 \<le> u \<Longrightarrow> event_sound U B e \<Longrightarrow> \<forall>(k, u) \<in> set (track_open e U). 0 \<le> (u :: rat)"
  by (cases e) (auto simp: omap_del_def dest!: omap_set_values)

lemma sound_nonneg: "sound_journal evs \<Longrightarrow> \<forall>(k, u) \<in> set (unresolved evs). 0 \<le> u"
proof (induction evs rule: rev_induct)
  case Nil
  then show ?case by (simp add: unresolved_def)
next
  case (snoc e evs)
  then have "\<forall>(k, u) \<in> set (unresolved evs). 0 \<le> u"
    "event_sound (unresolved evs) (unresolved_jobs evs) e" by (simp_all add: sound_journal_snoc)
  then show ?case unfolding unresolved_snoc by (rule track_open_nonneg)
qed

lemma charge_open_total: "\<forall>(k, p) \<in> set ops. 0 \<le> or_usd p \<Longrightarrow> \<exists>g' qs. charge_open rel ops g = ok (g', qs)"
proof (induction rel ops g rule: charge_open.induct)
  case (2 rel rid p ops g)
  obtain g1 where g1: "seed_usd ''unresolved reservation'' (or_usd p) g = ok g1"
    using 2(3) seed_usd_total by fastforce
  have ops: "\<forall>(k, p) \<in> set ops. 0 \<le> or_usd p" using 2(3) by simp
  show ?case
  proof (cases "case map_of rel (or_job p) of None \<Rightarrow> False | Some k \<Rightarrow> k > or_index p")
    case True
    with 2(1) [OF True ops] g1 show ?thesis by simp
  next
    case False
    with 2(2) [OF False ops] g1 show ?thesis by (auto simp: bind_result_eq_Inr)
  qed
qed simp

text \<open>A journal the writer produced always seeds.\<close>

lemma sound_seeds:
  assumes "sound_journal evs"
  shows "\<exists>g'. seedFromJournal evs g = ok g'"
proof -
  obtain s where s: "seed_events (reservation_era evs) evs (seed_init g) = ok s"
    using seed_events_total [of "seed_init g" evs] assms
    by (auto simp: sound_journal_def seed_init_def open_usd_def)
  have "open_usd (sd_open s) = unresolved evs"
    using seed_events_open [OF s] by (simp add: seed_init_def unresolved_def open_usd_def)
  with sound_nonneg [OF assms] have "\<forall>(k, u) \<in> set (open_usd (sd_open s)). 0 \<le> u" by simp
  then have "\<forall>(k, p) \<in> set (sd_open s). 0 \<le> or_usd p" by (auto simp: open_usd_def)
  then obtain g1 qs where "charge_open (sd_released s) (sd_open s) (sd_gov s) = ok (g1, qs)"
    using charge_open_total by blast
  with s show ?thesis by (auto simp: seedFromJournal_def Let_def)
qed

section \<open>Journals priced by their reservations\<close>

fun started_keys :: "journal_event \<Rightarrow> string list" where
  "started_keys (Job_Started e) = [run_job (js_run e) (js_job e)]"
| "started_keys _ = []"

text \<open>A priced finish belongs to a run with reservations, or closes no dispatch (a replay).\<close>

definition era_priced :: "journal_event list \<Rightarrow> bool" where
  "era_priced evs \<longleftrightarrow> (\<forall>e. Job_Finished e \<in> set evs \<longrightarrow>
     jf_cost e = None \<or> jf_run e \<in> set (reservation_era evs)
     \<or> run_job (jf_run e) (jf_job e) \<notin> set (concat (map started_keys evs)))"

lemma legacy_zero:
  "(\<And>e. Job_Finished e \<in> set evs \<Longrightarrow> jf_cost e = None \<or> jf_run e \<in> set era
      \<or> run_job (jf_run e) (jf_job e) \<notin> set K)
   \<Longrightarrow> set opens \<subseteq> set K \<Longrightarrow> set (concat (map started_keys evs)) \<subseteq> set K \<Longrightarrow> legacy_cost era opens evs = 0"
proof (induction era opens evs rule: legacy_cost.induct)
  case (3 era opens e es)
  show ?case
  proof (cases "jf_run e \<in> set era \<or> run_job (jf_run e) (jf_job e) \<notin> set opens")
    case True
    with 3 show ?thesis by (auto simp: Let_def)
  next
    case False
    have "jf_cost e = None" using False "3.prems"(1) [of e] "3.prems"(2) by auto
    moreover have "legacy_cost era (filter (\<lambda>k. k \<noteq> run_job (jf_run e) (jf_job e)) opens) es = 0"
      using False 3 by (auto simp: Let_def)
    ultimately show ?thesis using False by (simp add: Let_def)
  qed
qed (auto simp: insert_subset)

lemma era_priced_legacy: "era_priced evs \<Longrightarrow> legacy_cost (reservation_era evs) [] evs = 0"
  by (rule legacy_zero [where K = "concat (map started_keys evs)"]) (auto simp: era_priced_def)

section \<open>The dispatch system\<close>

record dispatch =
  dp_gov :: governor
  dp_journal :: "journal_event list"
  dp_opened :: "string list"
  dp_settling :: "(reservation \<times> rat) list"
  dp_lost :: rat

text \<open>
  \<open>dp_opened\<close>: open reservations whose opening is journalled; \<open>dp_settling\<close>: settled in the
  governor, the settle not yet journalled, with the charge; \<open>dp_lost\<close>: what the reservations
  abandoned behind a lost fence held beyond their folds. Journalled ids are \<open>runId:id\<close>.
\<close>

definition journal_id :: "run_id \<Rightarrow> string \<Rightarrow> string" where
  "journal_id r rid = r @ '':'' @ rid"

definition opened_event :: "run_id \<Rightarrow> op_name \<Rightarrow> reservation \<Rightarrow> journal_event" where
  "opened_event r op rv = Reservation_Opened \<lparr>ro_run = r, ro_job = rv_job rv, ro_op = op,
     ro_attempt = rv_attempt rv, ro_id = journal_id r (rv_id rv), ro_usd = rv_usd rv,
     ro_class = rv_class rv, ro_proposed = rv_proposed rv\<rparr>"

definition settled_event :: "run_id \<Rightarrow> reservation \<Rightarrow> settled \<Rightarrow> usage option \<Rightarrow> journal_event" where
  "settled_event r rv st us = Reservation_Settled \<lparr>rt_run = r, rt_job = rv_job rv,
     rt_id = journal_id r (rv_id rv), rt_charged = st_charged st, rt_basis = st_basis st,
     rt_priced = st_priced st, rt_usage = us\<rparr>"

definition hold_balance :: "hold \<Rightarrow> rat" where
  "hold_balance h = rv_usd (hd_res h) - hd_folded h"

definition open_job :: "job_id \<Rightarrow> dispatch \<Rightarrow> bool" where
  "open_job j d \<longleftrightarrow> (\<exists>rid \<in> set (dp_opened d). map_of (g_openByJob (dp_gov d)) j = Some rid)"

fun plain_event :: "journal_event \<Rightarrow> bool" where
  "plain_event (Run_Started _) = True"
| "plain_event (Run_Finished _) = True"
| "plain_event (Reservation_Refused _ _ _) = True"
| "plain_event (Job_Quarantined _ _ _ _) = True"
| "plain_event (Quarantine_Released _ _) = True"
| "plain_event (Budget_Tripped _ _) = True"
| "plain_event (Observation _ _) = True"
| "plain_event _ = False"

inductive dispatch_step :: "run_id \<Rightarrow> dispatch \<Rightarrow> dispatch \<Rightarrow> bool" for r where
  ds_admit: "admit j (dp_gov d) = (g', Admit a) \<Longrightarrow>
     (\<And>e. Job_Finished e \<in> set (dp_journal d) \<Longrightarrow> run_job (jf_run e) (jf_job e) \<noteq> run_job r j) \<Longrightarrow>
     dispatch_step r d (d\<lparr>dp_gov := g', dp_journal := dp_journal d
        @ [Job_Started \<lparr>js_run = r, js_job = j, js_op = op, js_attempt = a\<rparr>]\<rparr>)"
| ds_reserve: "idle_job j (dp_gov d) \<Longrightarrow> reserve j a p cls (dp_gov d) = ok (g', out) \<Longrightarrow>
     dispatch_step r d (d\<lparr>dp_gov := g'\<rparr>)"
| ds_open: "map_of (g_outstanding (dp_gov d)) rid = Some h \<Longrightarrow> rid \<notin> set (dp_opened d) \<Longrightarrow>
     dispatch_step r d (d\<lparr>dp_journal := dp_journal d @ [opened_event r op (hd_res h)],
        dp_opened := rid # dp_opened d\<rparr>)"
| ds_abandon: "map_of (g_outstanding (dp_gov d)) rid = Some h \<Longrightarrow> rid \<notin> set (dp_opened d) \<Longrightarrow>
     abandonReservation (hd_res h) (dp_gov d) = ok g' \<Longrightarrow> dispatch_step r d (d\<lparr>dp_gov := g'\<rparr>)"
| ds_result: "open_job j d \<Longrightarrow> observeResult j e uc cc (dp_gov d) = ok g' \<Longrightarrow>
     dispatch_step r d (d\<lparr>dp_gov := g'\<rparr>)"
| ds_settle: "map_of (g_outstanding (dp_gov d)) rid = Some h \<Longrightarrow> rid \<in> set (dp_opened d) \<Longrightarrow>
     settle (hd_res h) b (map_option raw_of_usage us) (dp_gov d) = ok (g', st) \<Longrightarrow>
     dispatch_step r d (d\<lparr>dp_gov := g', dp_opened := remove1 rid (dp_opened d),
        dp_settling := (hd_res h, st_charged st) # dp_settling d\<rparr>)"
| ds_settled: "(rv, c) \<in> set (dp_settling d) \<Longrightarrow> st_charged st = c \<Longrightarrow> opt_valid us \<Longrightarrow>
     dispatch_step r d (d\<lparr>dp_journal := dp_journal d @ [settled_event r rv st us],
        dp_settling := remove1 (rv, c) (dp_settling d)\<rparr>)"
| ds_fence_lost: "map_of (g_outstanding (dp_gov d)) rid = Some h \<Longrightarrow> rid \<in> set (dp_opened d) \<Longrightarrow>
     abandonReservation (hd_res h) (dp_gov d) = ok g' \<Longrightarrow>
     dispatch_step r d (d\<lparr>dp_gov := g', dp_opened := remove1 rid (dp_opened d),
        dp_lost := dp_lost d + hold_balance h\<rparr>)"
| ds_finish: "jf_run e = r \<Longrightarrow> \<not> omap_has (run_job r (jf_job e)) (unresolved_jobs (dp_journal d)) \<Longrightarrow>
     opt_valid (jf_usage e) \<Longrightarrow> (case jf_cost e of None \<Rightarrow> True | Some u \<Rightarrow> 0 \<le> u) \<Longrightarrow>
     jf_cost e = None \<or> r \<in> set (reservation_era (dp_journal d))
       \<or> run_job r (jf_job e) \<notin> set (concat (map started_keys (dp_journal d))) \<Longrightarrow>
     dispatch_step r d (d\<lparr>dp_journal := dp_journal d @ [Job_Finished e]\<rparr>)"
| ds_trip: "dispatch_step r d (d\<lparr>dp_gov := trip k t (dp_gov d)\<rparr>)"
| ds_plain: "plain_event e \<Longrightarrow> dispatch_step r d (d\<lparr>dp_journal := dp_journal d @ [e]\<rparr>)"

text \<open>A run starts on the journals of the plan's earlier runs, from which its governor was seeded.\<close>

definition dispatch_init :: "gov_config \<Rightarrow> rat option \<Rightarrow> run_id \<Rightarrow> dispatch \<Rightarrow> bool" where
  "dispatch_init c inh r d \<longleftrightarrow> launchGovernor c inh (dp_journal d) = ok (dp_gov d)
     \<and> sound_journal (dp_journal d) \<and> era_priced (dp_journal d)
     \<and> (\<forall>x. \<not> omap_has (journal_id r x) (unresolved (dp_journal d)))
     \<and> dp_opened d = [] \<and> dp_settling d = [] \<and> dp_lost d = 0"

section \<open>The balance between the live ledger and the journal\<close>

definition opened_balance :: "string list \<Rightarrow> (string, hold) omap \<Rightarrow> rat" where
  "opened_balance opened out = sum_list (map (\<lambda>(x, h). if x \<in> set opened then hold_balance h else 0) out)"

definition settling_balance :: "(reservation \<times> rat) list \<Rightarrow> rat" where
  "settling_balance st = sum_list (map (\<lambda>(rv, c). rv_usd rv - c) st)"

definition journal_spend :: "journal_event list \<Rightarrow> rat" where
  "journal_spend evs = sum_list (map settled_charge evs) + sum_list (map snd (unresolved evs))"

definition issued :: "nat \<Rightarrow> string \<Rightarrow> bool" where
  "issued n x \<longleftrightarrow> (\<exists>j a k. x = reservation_id j a k \<and> k \<le> n)"

text \<open>
  The governor's side of the invariant: which ids are journalled, and for how much. \<open>out\<close> and \<open>U\<close>
  are the lookup functions of the open holds and of the journal's unresolved reservations.
\<close>

definition ids_ok :: "run_id \<Rightarrow> (string \<Rightarrow> hold option) \<Rightarrow> nat \<Rightarrow> (string \<Rightarrow> rat option) \<Rightarrow> string list
    \<Rightarrow> (reservation \<times> rat) list \<Rightarrow> bool" where
  "ids_ok r out n U opened settling \<longleftrightarrow>
     (\<forall>x h. out x = Some h \<longrightarrow> issued n x \<and> rv_id (hd_res h) = x)
     \<and> distinct opened
     \<and> (\<forall>x \<in> set opened. \<exists>h. out x = Some h \<and> U (journal_id r x) = Some (rv_usd (hd_res h)))
     \<and> (\<forall>x v. U (journal_id r x) = Some v \<longrightarrow> issued n x)
     \<and> (\<forall>x v h. U (journal_id r x) = Some v \<longrightarrow> out x = Some h \<longrightarrow> x \<in> set opened)
     \<and> distinct (map (rv_id \<circ> fst) settling)
     \<and> (\<forall>(rv, c) \<in> set settling. out (rv_id rv) = None
          \<and> U (journal_id r (rv_id rv)) = Some (rv_usd rv) \<and> 0 \<le> c)
     \<and> (\<forall>x h. out x = Some h \<longrightarrow> x \<notin> set opened \<longrightarrow> hd_folded h = 0)"

lemma ids_okI:
  assumes "\<And>x h. out x = Some h \<Longrightarrow> issued n x" "\<And>x h. out x = Some h \<Longrightarrow> rv_id (hd_res h) = x"
    "distinct opened"
    "\<And>x. x \<in> set opened \<Longrightarrow> \<exists>h. out x = Some h \<and> U (journal_id r x) = Some (rv_usd (hd_res h))"
    "\<And>x v. U (journal_id r x) = Some v \<Longrightarrow> issued n x"
    "\<And>x v h. U (journal_id r x) = Some v \<Longrightarrow> out x = Some h \<Longrightarrow> x \<in> set opened"
    "distinct (map (rv_id \<circ> fst) st)"
    "\<And>rv c. (rv, c) \<in> set st \<Longrightarrow> out (rv_id rv) = None \<and> U (journal_id r (rv_id rv)) = Some (rv_usd rv) \<and> 0 \<le> c"
    "\<And>x h. out x = Some h \<Longrightarrow> x \<notin> set opened \<Longrightarrow> hd_folded h = 0"
  shows "ids_ok r out n U opened st"
  unfolding ids_ok_def using assms by blast

lemma ids_okD:
  assumes "ids_ok r out n U opened st"
  shows "out x = Some h \<Longrightarrow> issued n x" "out x = Some h \<Longrightarrow> rv_id (hd_res h) = x"
    "distinct opened"
    "x \<in> set opened \<Longrightarrow> \<exists>h. out x = Some h \<and> U (journal_id r x) = Some (rv_usd (hd_res h))"
    "U (journal_id r x) = Some v \<Longrightarrow> issued n x"
    "U (journal_id r x) = Some v \<Longrightarrow> out x = Some h \<Longrightarrow> x \<in> set opened"
    "distinct (map (rv_id \<circ> fst) st)"
    "(rv, c) \<in> set st \<Longrightarrow> out (rv_id rv) = None"
    "(rv, c) \<in> set st \<Longrightarrow> U (journal_id r (rv_id rv)) = Some (rv_usd rv)"
    "(rv, c) \<in> set st \<Longrightarrow> 0 \<le> c"
    "out x = Some h \<Longrightarrow> x \<notin> set opened \<Longrightarrow> hd_folded h = 0"
  using assms unfolding ids_ok_def by blast+

lemma journal_id_inj [simp]: "journal_id r x = journal_id r y \<longleftrightarrow> x = y"
  by (simp add: journal_id_def)

section \<open>How each step moves the ids\<close>

lemma issued_fresh: "issued n x \<Longrightarrow> x \<noteq> reservation_id j a (n + 1)"
  by (auto simp: issued_def dest: reservation_id_inj)

lemma issued_Suc: "issued n x \<Longrightarrow> issued (n + 1) x"
  by (auto simp: issued_def intro: le_SucI)

lemma ids_ok_grant:
  assumes i: "ids_ok r out n U opened st" and x: "x = reservation_id j a (n + 1)" and h: "rv_id (hd_res h) = x" "hd_folded h = 0"
  shows "ids_ok r (out(x \<mapsto> h)) (n + 1) U opened st \<and> x \<notin> set opened"
proof -
  have fresh: "\<not> issued n x" using issued_fresh [of n x j a] x by blast
  have xo: "out x = None" using ids_okD(1) [OF i] fresh by (cases "out x") blast+
  have xu: "U (journal_id r x) = None" using ids_okD(5) [OF i] fresh by (cases "U (journal_id r x)") blast+
  have xp: "x \<notin> set opened" using ids_okD(4) [OF i, of x] xo by auto
  have st: "rv_id rv \<noteq> x" if "(rv, c) \<in> set st" for rv c using ids_okD(9) [OF i that] xu by auto
  have new: "issued (n + 1) x" using x by (auto simp: issued_def)
  have "ids_ok r (out(x \<mapsto> h)) (n + 1) U opened st"
  proof (rule ids_okI)
    fix y k assume "(out(x \<mapsto> h)) y = Some k"
    then show "issued (n + 1) y" "rv_id (hd_res k) = y" "y \<notin> set opened \<Longrightarrow> hd_folded k = 0"
      using ids_okD(1,2,11) [OF i, of y k] issued_Suc [of n y] new h by (auto split: if_splits)
  next
    fix y assume "y \<in> set opened"
    then show "\<exists>k. (out(x \<mapsto> h)) y = Some k \<and> U (journal_id r y) = Some (rv_usd (hd_res k))"
      using ids_okD(4) [OF i, of y] xp by auto
  next
    fix y v k assume "U (journal_id r y) = Some v" "(out(x \<mapsto> h)) y = Some k"
    then show "y \<in> set opened" using ids_okD(6) [OF i, of y v k] xu by (auto split: if_splits)
  next
    fix rv c assume "(rv, c) \<in> set st"
    then show "(out(x \<mapsto> h)) (rv_id rv) = None \<and> U (journal_id r (rv_id rv)) = Some (rv_usd rv) \<and> 0 \<le> c"
      using ids_okD(8-10) [OF i, of rv c] st [of rv c] by simp
  qed (use ids_okD(3,5,7) [OF i] issued_Suc in blast)+
  with xp show ?thesis by simp
qed

lemma ids_ok_close:
  assumes i: "ids_ok r out n U opened st"
  shows "ids_ok r (out(x := None)) n U (remove1 x opened) st"
proof (rule ids_okI)
  fix y k assume k: "(out(x := None)) y = Some k"
  then show "issued n y" "rv_id (hd_res k) = y" "y \<notin> set (remove1 x opened) \<Longrightarrow> hd_folded k = 0"
    using ids_okD(1,2,11) [OF i, of y k] ids_okD(3) [OF i] by (auto split: if_splits)
  show "y \<in> set (remove1 x opened)" if "U (journal_id r y) = Some v" for v
    using ids_okD(6) [OF i that] ids_okD(3) [OF i] k by (auto split: if_splits)
next
  fix y assume "y \<in> set (remove1 x opened)"
  then show "\<exists>k. (out(x := None)) y = Some k \<and> U (journal_id r y) = Some (rv_usd (hd_res k))"
    using ids_okD(4) [OF i, of y] ids_okD(3) [OF i] by auto
next
  fix rv c assume "(rv, c) \<in> set st"
  then show "(out(x := None)) (rv_id rv) = None \<and> U (journal_id r (rv_id rv)) = Some (rv_usd rv) \<and> 0 \<le> c"
    using ids_okD(8-10) [OF i, of rv c] by simp
qed (use ids_okD(3,5,7) [OF i] in \<open>auto simp: distinct_remove1\<close>)

lemma ids_ok_settling:
  assumes i: "ids_ok r out n U opened st" and h: "out x = Some h" "x \<in> set opened" and c: "0 \<le> c"
  shows "ids_ok r (out(x := None)) n U (remove1 x opened) ((hd_res h, c) # st)"
proof -
  note cl = ids_ok_close [OF i, of x]
  have id: "rv_id (hd_res h) = x" "U (journal_id r x) = Some (rv_usd (hd_res h))"
    using ids_okD(2,4) [OF i, of x] h by auto
  have "x \<notin> (rv_id \<circ> fst) ` set st" using ids_okD(8) [OF i] h(1) by fastforce
  with id(1) have d: "distinct (map (rv_id \<circ> fst) ((hd_res h, c) # st))"
    using ids_okD(7) [OF i] by (simp only: list.map distinct.simps set_map comp_apply fst_conv simp_thms)
  show ?thesis
  proof (rule ids_okI)
    fix rv d assume "(rv, d) \<in> set ((hd_res h, c) # st)"
    then show "(out(x := None)) (rv_id rv) = None \<and> U (journal_id r (rv_id rv)) = Some (rv_usd rv) \<and> 0 \<le> d"
      using ids_okD(8-10) [OF cl, of rv d] id c by auto
  qed (use ids_okD(1-6,11) [OF cl] d in blast)+
qed

lemma ids_ok_open:
  assumes i: "ids_ok r out n U opened st" and h: "out x = Some h" "x \<notin> set opened"
  shows "ids_ok r out n (U(journal_id r x \<mapsto> rv_usd (hd_res h))) (x # opened) st \<and> U (journal_id r x) = None"
proof -
  have nu: "U (journal_id r x) = None" using ids_okD(6) [OF i _ h(1)] h(2) by (cases "U (journal_id r x)") blast+
  have st: "rv_id rv \<noteq> x" if "(rv, c) \<in> set st" for rv c using ids_okD(8) [OF i that] h(1) by auto
  have "ids_ok r out n (U(journal_id r x \<mapsto> rv_usd (hd_res h))) (x # opened) st"
  proof (rule ids_okI)
    fix y assume "y \<in> set (x # opened)"
    then show "\<exists>k. out y = Some k \<and> (U(journal_id r x \<mapsto> rv_usd (hd_res h))) (journal_id r y) = Some (rv_usd (hd_res k))"
      using ids_okD(4) [OF i, of y] h by auto
  next
    fix y v assume v: "(U(journal_id r x \<mapsto> rv_usd (hd_res h))) (journal_id r y) = Some v"
    then show "issued n y" using ids_okD(5) [OF i, of y v] ids_okD(1) [OF i h(1)] by (auto split: if_splits)
    show "y \<in> set (x # opened)" if "out y = Some k" for k
      using v ids_okD(6) [OF i _ that, of v] by (auto split: if_splits)
  next
    fix rv c assume "(rv, c) \<in> set st"
    then show "out (rv_id rv) = None \<and> (U(journal_id r x \<mapsto> rv_usd (hd_res h))) (journal_id r (rv_id rv)) = Some (rv_usd rv) \<and> 0 \<le> c"
      using ids_okD(8-10) [OF i, of rv c] st [of rv c] by simp
  qed (use ids_okD(1-3,7,11) [OF i] h(2) in auto)
  with nu show ?thesis by simp
qed

lemma ids_ok_emit:
  assumes i: "ids_ok r out n U opened st" and m: "(rv, c) \<in> set st"
  shows "ids_ok r out n (U(journal_id r (rv_id rv) := None)) opened (remove1 (rv, c) st)"
proof -
  have dst: "inj_on (rv_id \<circ> fst) (set st)" and d: "distinct st"
    using ids_okD(7) [OF i] by (simp_all add: distinct_map)
  have other: "rv_id rv' \<noteq> rv_id rv" if "(rv', c') \<in> set (remove1 (rv, c) st)" for rv' c'
  proof
    assume "rv_id rv' = rv_id rv"
    moreover have "(rv', c') \<in> set st" "(rv', c') \<noteq> (rv, c)" using that d by auto
    ultimately show False using inj_onD [OF dst, of "(rv', c')" "(rv, c)"] m by simp
  qed
  have no: "rv_id rv \<notin> set opened" using ids_okD(4) [OF i, of "rv_id rv"] ids_okD(8) [OF i m] by auto
  show ?thesis
  proof (rule ids_okI)
    fix y assume "y \<in> set opened"
    then show "\<exists>k. out y = Some k \<and> (U(journal_id r (rv_id rv) := None)) (journal_id r y) = Some (rv_usd (hd_res k))"
      using ids_okD(4) [OF i, of y] no by auto
  next
    fix y v assume "(U(journal_id r (rv_id rv) := None)) (journal_id r y) = Some v"
    then have u: "U (journal_id r y) = Some v" by (auto split: if_splits)
    then show "issued n y" by (rule ids_okD(5) [OF i])
    show "y \<in> set opened" if "out y = Some k" for k by (rule ids_okD(6) [OF i u that])
  next
    show "distinct (map (rv_id \<circ> fst) (remove1 (rv, c) st))"
      using d inj_on_subset [OF dst set_remove1_subset] by (simp add: distinct_map)
  next
    fix rv' c' assume s: "(rv', c') \<in> set (remove1 (rv, c) st)"
    then have "(rv', c') \<in> set st" using d by auto
    then show "out (rv_id rv') = None
        \<and> (U(journal_id r (rv_id rv) := None)) (journal_id r (rv_id rv')) = Some (rv_usd rv') \<and> 0 \<le> c'"
      using ids_okD(8-10) [OF i, of rv' c'] other [OF s] by simp
  qed (use ids_okD(1-3,11) [OF i] in blast)+
qed

lemma ids_ok_fold:
  assumes i: "ids_ok r out n U opened st" and h: "out x = Some h" "x \<in> set opened" and h': "hd_res h' = hd_res h"
  shows "ids_ok r (out(x \<mapsto> h')) n U opened st"
proof (rule ids_okI)
  fix y k assume k: "(out(x \<mapsto> h')) y = Some k"
  then obtain k' where k': "out y = Some k'" "hd_res k' = hd_res k" "y \<noteq> x \<Longrightarrow> k' = k"
    using h h' by (cases "y = x") auto
  then show "issued n y" "rv_id (hd_res k) = y" "y \<notin> set opened \<Longrightarrow> hd_folded k = 0"
    using ids_okD(1,2,11) [OF i k'(1)] h(2) by auto
  show "y \<in> set opened" if "U (journal_id r y) = Some v" for v using ids_okD(6) [OF i that k'(1)] .
next
  fix y assume "y \<in> set opened"
  then show "\<exists>k. (out(x \<mapsto> h')) y = Some k \<and> U (journal_id r y) = Some (rv_usd (hd_res k))"
    using ids_okD(4) [OF i, of y] h h' by auto
next
  fix rv c assume "(rv, c) \<in> set st"
  then show "(out(x \<mapsto> h')) (rv_id rv) = None \<and> U (journal_id r (rv_id rv)) = Some (rv_usd rv) \<and> 0 \<le> c"
    using ids_okD(8-10) [OF i, of rv c] h by auto
qed (use ids_okD(3,5,7) [OF i] in blast)+

section \<open>How each step moves the balances\<close>

lemma opened_balance_append:
  "x \<notin> set opened \<Longrightarrow> opened_balance opened (out @ [(x, h)]) = opened_balance opened out"
  by (simp add: opened_balance_def)

lemma opened_balance_split:
  assumes "distinct (okeys out)" "map_of out x = Some h"
  shows "opened_balance opened out
    = (if x \<in> set opened then hold_balance h else 0) + opened_balance opened (omap_del x out)"
  using sum_list_map_filter_out [OF assms, of "\<lambda>(y, k). if y \<in> set opened then hold_balance k else 0"]
  by (simp add: opened_balance_def)

lemma opened_balance_cong:
  "(\<And>y. y \<in> set (okeys out) \<Longrightarrow> y \<in> set o1 \<longleftrightarrow> y \<in> set o2) \<Longrightarrow> opened_balance o1 out = opened_balance o2 out"
  unfolding opened_balance_def by (rule arg_cong [where f = sum_list], rule map_cong) force+

lemma opened_balance_close:
  assumes "distinct (okeys out)" "distinct opened" "map_of out x = Some h"
  shows "opened_balance (remove1 x opened) (omap_del x out)
       = opened_balance opened out - (if x \<in> set opened then hold_balance h else 0)"
proof -
  have "opened_balance (remove1 x opened) (omap_del x out) = opened_balance opened (omap_del x out)"
    using assms(2) by (intro opened_balance_cong) (auto simp: set_okeys_omap_del simp del: set_map)
  with opened_balance_split [OF assms(1,3), of opened] show ?thesis by simp
qed

lemma opened_balance_open:
  assumes "distinct (okeys out)" "map_of out x = Some h" "x \<notin> set opened"
  shows "opened_balance (x # opened) out = opened_balance opened out + hold_balance h"
proof -
  have "opened_balance (x # opened) (omap_del x out) = opened_balance opened (omap_del x out)"
    by (intro opened_balance_cong) (auto simp: set_okeys_omap_del simp del: set_map)
  with assms(3) opened_balance_split [OF assms(1,2), of opened]
    opened_balance_split [OF assms(1,2), of "x # opened"] show ?thesis by simp
qed

lemma opened_balance_fold:
  "distinct (okeys out) \<Longrightarrow> map_of out x = Some h \<Longrightarrow> x \<in> set opened \<Longrightarrow>
   opened_balance opened (omap_set x h' out) = opened_balance opened out - hold_balance h + hold_balance h'"
  by (simp add: opened_balance_def sum_list_map_omap_set)

lemma sum_snd_set_new: "map_of m k = None \<Longrightarrow> sum_list (map snd (omap_set k v m)) = sum_list (map snd m) + (v :: rat)"
  by (simp add: omap_set_new map_of_eq_None_iff)

lemma sum_snd_del:
  "distinct (okeys m) \<Longrightarrow> map_of m k = Some v \<Longrightarrow> sum_list (map snd (omap_del k m)) = sum_list (map snd m) - (v :: rat)"
  using sum_list_map_filter_out [of m k v snd] by simp

lemma settling_balance_remove:
  "(rv, c) \<in> set st \<Longrightarrow> settling_balance (remove1 (rv, c) st) = settling_balance st - (rv_usd rv - c)"
  using sum_list_map_remove1 [of "(rv, c)" st "\<lambda>(rv, c). rv_usd rv - c"] by (simp add: settling_balance_def)

lemma distinct_unresolved: "distinct (okeys (unresolved evs))"
proof (induction evs rule: rev_induct)
  case Nil
  then show ?case by (simp add: unresolved_def)
next
  case (snoc e evs)
  then show ?case unfolding unresolved_snoc
    by (cases e) (auto simp: distinct_omap_set distinct_omap_del)
qed

section \<open>Governor steps that leave the journalled holds alone\<close>

definition keeps :: "governor \<Rightarrow> governor \<Rightarrow> bool" where
  "keeps g g' \<longleftrightarrow> g_usdSpent g' = g_usdSpent g \<and>
     (\<forall>r U opened st. ids_ok r (map_of (g_outstanding g)) (g_seq g) U opened st \<longrightarrow>
        ids_ok r (map_of (g_outstanding g')) (g_seq g') U opened st
        \<and> opened_balance opened (g_outstanding g') = opened_balance opened (g_outstanding g))"

lemma keeps_same: "g_outstanding g' = g_outstanding g \<Longrightarrow> g_seq g' = g_seq g \<Longrightarrow> g_usdSpent g' = g_usdSpent g \<Longrightarrow> keeps g g'"
  by (simp add: keeps_def)

lemma keeps_trans: "keeps f g \<Longrightarrow> keeps g h \<Longrightarrow> keeps f h"
  unfolding keeps_def by metis

lemma keepsD:
  assumes "keeps g g'" "ids_ok r (map_of (g_outstanding g)) (g_seq g) U opened st"
  shows "ids_ok r (map_of (g_outstanding g')) (g_seq g') U opened st"
    "opened_balance opened (g_outstanding g') = opened_balance opened (g_outstanding g)"
    "g_usdSpent g' = g_usdSpent g"
  using assms unfolding keeps_def by blast+

lemma keeps_grant:
  assumes g: "grant w c g = (g', rv)" and b: "books g"
  shows "keeps g g'"
proof -
  note gs = grant_simps [OF g b]
  have "rv_id rv \<notin> set (okeys (g_outstanding g))" using books_fresh_id [OF b] gs(13) by simp
  note m = map_of_append_new [OF this, of "\<lparr>hd_res = rv, hd_folded = 0, hd_priced = False\<rparr>"]
  have "ids_ok r (map_of (g_outstanding g')) (g_seq g') U opened st
      \<and> opened_balance opened (g_outstanding g') = opened_balance opened (g_outstanding g)"
    if "ids_ok r (map_of (g_outstanding g)) (g_seq g) U opened st" for r U opened st
    using ids_ok_grant [OF that gs(13), where h = "\<lparr>hd_res = rv, hd_folded = 0, hd_priced = False\<rparr>"]
    unfolding gs(14,17) m by (simp add: opened_balance_append)
  with gs(2) show ?thesis by (simp add: keeps_def)
qed

lemma keeps_drain:
  assumes "drainWaiters g = ok g'" "books g" "requests_ok g"
  shows "keeps g g'"
  using assms
proof (induction rule: drain_induct)
  case (grant g w ws g1 rv g')
  have "keeps g1 (pop_waiter rv g1)" by (rule keeps_same) simp_all
  with keeps_grant [OF grant(6,4)] grant(9) show ?case by (blast intro: keeps_trans)
qed (auto intro: keeps_same)

lemma keeps_reserve:
  assumes "reserve j a p cls g = ok (g', out)" "idle_job j g" "books g"
  shows "keeps g g'"
  using assms(1,2)
proof (cases rule: reserve_cases)
  case (granted u rv)
  with assms(3) show ?thesis by (blast intro: keeps_grant)
qed (auto intro: keeps_same)

section \<open>The invariant\<close>

definition dinv :: "run_id \<Rightarrow> dispatch \<Rightarrow> bool" where
  "dinv r d \<longleftrightarrow> gov_inv (dp_gov d) \<and> sound_journal (dp_journal d) \<and> era_priced (dp_journal d)
     \<and> ids_ok r (map_of (g_outstanding (dp_gov d))) (g_seq (dp_gov d))
         (map_of (unresolved (dp_journal d))) (dp_opened d) (dp_settling d)
     \<and> journal_spend (dp_journal d) = g_usdSpent (dp_gov d)
         + opened_balance (dp_opened d) (g_outstanding (dp_gov d))
         + settling_balance (dp_settling d) + dp_lost d"

lemma dinv_keeps:
  assumes "dinv r d" "keeps (dp_gov d) g'" "gov_inv g'"
  shows "dinv r (d\<lparr>dp_gov := g'\<rparr>)"
proof -
  have "ids_ok r (map_of (g_outstanding (dp_gov d))) (g_seq (dp_gov d))
      (map_of (unresolved (dp_journal d))) (dp_opened d) (dp_settling d)" using assms(1) by (simp add: dinv_def)
  from keepsD [OF assms(2) this] show ?thesis using assms(1,3) by (simp add: dinv_def)
qed

lemma hold_facts:
  assumes "gov_inv g" "map_of (g_outstanding g) rid = Some h"
  shows "rv_id (hd_res h) = rid" "0 \<le> hd_folded h" "0 \<le> rv_usd (hd_res h)"
    "distinct (okeys (g_outstanding g))"
  using booksD [OF gov_invD(1) [OF assms(1)] assms(2)] gov_invD(1) [OF assms(1)]
  by (simp_all add: books_def)

lemma outstanding_close_hold: "g_outstanding (close_hold rv g) = omap_del (rv_id rv) (g_outstanding g)"
  by (simp add: close_hold_def)

lemma settle_books_simps:
  "g_outstanding (settle_books h b g) = omap_del (rv_id (hd_res h)) (g_outstanding g)"
  "g_seq (settle_books h b g) = g_seq g"
  "g_usdSpent (settle_books h b g) = g_usdSpent g + max 0 (charge_of b h - hd_folded h)"
  by (auto simp: settle_books_def Let_def outstanding_close_hold split: option.split)

lemma charge_ge_folded: "0 \<le> hd_folded h \<Longrightarrow> hd_folded h \<le> charge_of b h \<and> 0 \<le> charge_of b h"
  by (cases b) (auto simp: charge_of_def)

lemma dinv_settle:
  assumes d: "dinv r d" and h: "map_of (g_outstanding (dp_gov d)) rid = Some h" "rid \<in> set (dp_opened d)"
    and s: "settle (hd_res h) b u (dp_gov d) = ok (g', st)"
  shows "dinv r (d\<lparr>dp_gov := g', dp_opened := remove1 rid (dp_opened d),
     dp_settling := (hd_res h, st_charged st) # dp_settling d\<rparr>)"
proof -
  let ?g = "dp_gov d" and ?sb = "settle_books h b (dp_gov d)"
  have inv: "gov_inv ?g" and ids: "ids_ok r (map_of (g_outstanding ?g)) (g_seq ?g)
      (map_of (unresolved (dp_journal d))) (dp_opened d) (dp_settling d)" using d by (simp_all add: dinv_def)
  note hf = hold_facts [OF inv h(1)]
  from settle_okD [OF s] hf(1) h(1) have dr: "drainWaiters ?sb = ok g'" and c: "st_charged st = charge_of b h"
    by auto
  have k: "keeps ?sb g'"
    using keeps_drain [OF dr] settle_books_draining [OF inv, of h b] h(1) hf(1) by (simp add: draining_def)
  have "ids_ok r (map_of (g_outstanding ?sb)) (g_seq ?sb) (map_of (unresolved (dp_journal d)))
      (remove1 rid (dp_opened d)) ((hd_res h, charge_of b h) # dp_settling d)"
    using ids_ok_settling [OF ids h] charge_ge_folded [OF hf(2)] by (simp add: settle_books_simps hf(1))
  note ks = keepsD [OF k this]
  have "opened_balance (remove1 rid (dp_opened d)) (g_outstanding ?sb)
      = opened_balance (dp_opened d) (g_outstanding ?g) - hold_balance h"
    using opened_balance_close [OF hf(4) ids_okD(3) [OF ids] h(1)] h(2)
    by (simp add: settle_books_simps hf(1))
  moreover have "max 0 (charge_of b h - hd_folded h) = charge_of b h - hd_folded h"
    using charge_ge_folded [OF hf(2)] by simp
  ultimately show ?thesis
    using d ks inv_settle [OF inv s] c
    by (simp add: dinv_def settling_balance_def hold_balance_def settle_books_simps)
qed

lemma dinv_abandon:
  assumes d: "dinv r d" and h: "map_of (g_outstanding (dp_gov d)) rid = Some h"
    and s: "abandonReservation (hd_res h) (dp_gov d) = ok g'"
  shows "dinv r (d\<lparr>dp_gov := g', dp_opened := remove1 rid (dp_opened d),
     dp_lost := dp_lost d + (if rid \<in> set (dp_opened d) then hold_balance h else 0)\<rparr>)"
proof -
  let ?g = "dp_gov d" and ?ch = "close_hold (hd_res h) (dp_gov d)"
  have inv: "gov_inv ?g" and ids: "ids_ok r (map_of (g_outstanding ?g)) (g_seq ?g)
      (map_of (unresolved (dp_journal d))) (dp_opened d) (dp_settling d)" using d by (simp_all add: dinv_def)
  note hf = hold_facts [OF inv h]
  have dr: "drainWaiters ?ch = ok g'" using s h hf(1) by (simp add: abandonReservation_def)
  have k: "keeps ?ch g'"
    using keeps_drain [OF dr] close_hold_draining [OF inv, of h] h hf(1) by (simp add: draining_def)
  have "ids_ok r (map_of (g_outstanding ?ch)) (g_seq ?ch) (map_of (unresolved (dp_journal d)))
      (remove1 rid (dp_opened d)) (dp_settling d)"
    using ids_ok_close [OF ids, of rid] by (simp add: outstanding_close_hold hf(1))
  note ks = keepsD [OF k this]
  have "opened_balance (remove1 rid (dp_opened d)) (g_outstanding ?ch)
      = opened_balance (dp_opened d) (g_outstanding ?g) - (if rid \<in> set (dp_opened d) then hold_balance h else 0)"
    using opened_balance_close [OF hf(4) ids_okD(3) [OF ids] h] by (simp add: outstanding_close_hold hf(1))
  then show ?thesis using d ks inv_abandon [OF inv s] by (simp add: dinv_def)
qed

lemma journal_spend_snoc:
  "journal_spend (evs @ [e]) = sum_list (map settled_charge evs) + settled_charge e
     + sum_list (map snd (track_open e (unresolved evs)))"
  by (simp add: journal_spend_def unresolved_snoc)

lemma dinv_open:
  assumes d: "dinv r d" and h: "map_of (g_outstanding (dp_gov d)) rid = Some h" "rid \<notin> set (dp_opened d)"
  shows "dinv r (d\<lparr>dp_journal := dp_journal d @ [opened_event r op (hd_res h)], dp_opened := rid # dp_opened d\<rparr>)"
proof -
  have inv: "gov_inv (dp_gov d)" and ids: "ids_ok r (map_of (g_outstanding (dp_gov d))) (g_seq (dp_gov d))
      (map_of (unresolved (dp_journal d))) (dp_opened d) (dp_settling d)" using d by (simp_all add: dinv_def)
  note hf = hold_facts [OF inv h(1)] and op = ids_ok_open [OF ids h]
  have "journal_spend (dp_journal d @ [opened_event r op (hd_res h)]) = journal_spend (dp_journal d) + rv_usd (hd_res h)"
    unfolding journal_spend_snoc using op
    by (simp add: journal_spend_def opened_event_def hf(1) sum_snd_set_new)
  moreover have "opened_balance (rid # dp_opened d) (g_outstanding (dp_gov d))
      = opened_balance (dp_opened d) (g_outstanding (dp_gov d)) + rv_usd (hd_res h)"
    using opened_balance_open [OF hf(4) h] ids_okD(11) [OF ids h] by (simp add: hold_balance_def)
  moreover have "sound_journal (dp_journal d @ [opened_event r op (hd_res h)])"
    using d hf(3) by (simp add: dinv_def sound_journal_snoc opened_event_def)
  moreover have "era_priced (dp_journal d @ [opened_event r op (hd_res h)])"
    using d by (auto simp: dinv_def era_priced_def reservation_era_def opened_event_def)
  ultimately show ?thesis
    using d op by (simp add: dinv_def unresolved_snoc opened_event_def hf(1))
qed

lemma dinv_settled:
  assumes d: "dinv r d" and m: "(rv, c) \<in> set (dp_settling d)" and st: "st_charged st = c" and us: "opt_valid us"
  shows "dinv r (d\<lparr>dp_journal := dp_journal d @ [settled_event r rv st us],
     dp_settling := remove1 (rv, c) (dp_settling d)\<rparr>)"
proof -
  have ids: "ids_ok r (map_of (g_outstanding (dp_gov d))) (g_seq (dp_gov d))
      (map_of (unresolved (dp_journal d))) (dp_opened d) (dp_settling d)" using d by (simp add: dinv_def)
  note u = ids_okD(9,10) [OF ids m]
  have "journal_spend (dp_journal d @ [settled_event r rv st us]) = journal_spend (dp_journal d) + c - rv_usd rv"
    unfolding journal_spend_snoc using u
    by (simp add: journal_spend_def settled_event_def st sum_snd_del distinct_unresolved)
  moreover have "sound_journal (dp_journal d @ [settled_event r rv st us])"
    using d u us st by (simp add: dinv_def sound_journal_snoc settled_event_def omap_has_def)
  moreover have "era_priced (dp_journal d @ [settled_event r rv st us])"
    using d by (auto simp: dinv_def era_priced_def reservation_era_def settled_event_def)
  ultimately show ?thesis
    using d ids_ok_emit [OF ids m] settling_balance_remove [OF m]
    by (simp add: dinv_def unresolved_snoc settled_event_def)
qed

lemma fold_cost_ledger:
  "g_outstanding (fold_cost j u g) = g_outstanding (attribute_fold j u g)"
  "g_seq (fold_cost j u g) = g_seq g" "g_usdSpent (fold_cost j u g) = g_usdSpent g + u"
  by (auto simp: fold_cost_def Let_def attribute_fold_def split: option.splits)

lemma dinv_cost:
  assumes d: "dinv r d" and j: "open_job j d" and u: "0 \<le> u"
  shows "dinv r (d\<lparr>dp_gov := fold_cost j u (dp_gov d)\<rparr>)"
proof -
  let ?g = "dp_gov d"
  have inv: "gov_inv ?g" and ids: "ids_ok r (map_of (g_outstanding ?g)) (g_seq ?g)
      (map_of (unresolved (dp_journal d))) (dp_opened d) (dp_settling d)" using d by (simp_all add: dinv_def)
  from j obtain rid where rid: "rid \<in> set (dp_opened d)" "map_of (g_openByJob ?g) j = Some rid"
    by (auto simp: open_job_def)
  with gov_invD(1) [OF inv] obtain h where h: "map_of (g_outstanding ?g) rid = Some h"
    unfolding books_def by blast
  let ?h = "h\<lparr>hd_folded := hd_folded h + u, hd_priced := True\<rparr>"
  have out: "g_outstanding (fold_cost j u ?g) = omap_set rid ?h (g_outstanding ?g)"
    by (simp add: fold_cost_ledger attribute_fold_open [OF rid(2) h])
  have "opened_balance (dp_opened d) (g_outstanding (fold_cost j u ?g))
      = opened_balance (dp_opened d) (g_outstanding ?g) - u"
    using opened_balance_fold [OF hold_facts(4) [OF inv h] h rid(1), of ?h] by (simp add: out hold_balance_def)
  moreover have "ids_ok r (map_of (g_outstanding (fold_cost j u ?g))) (g_seq (fold_cost j u ?g))
      (map_of (unresolved (dp_journal d))) (dp_opened d) (dp_settling d)"
    using ids_ok_fold [OF ids h rid(1), of ?h] by (simp add: out fold_cost_ledger(2))
  ultimately show ?thesis
    using d inv_fold_cost [OF inv u, of j] by (simp add: dinv_def fold_cost_ledger(2,3))
qed

lemma keeps_fold_usage: "keeps g (fold_usage j u g)"
  by (rule keeps_same) (auto simp: fold_usage_def Let_def split: option.split)

lemma dinv_result:
  assumes d: "dinv r d" and j: "open_job j d" and o: "observeResult j e uc cc (dp_gov d) = ok g'"
  shows "dinv r (d\<lparr>dp_gov := g'\<rparr>)"
proof -
  from o obtain g1 where
    g1: "(if real_usage (ev_usage e) \<and> \<not> uc then observeUsage j (raw_usage_of (ev_usage e)) (dp_gov d) else ok (dp_gov d)) = ok g1"
    and rest: "(if isValidUsd (ev_cost e)
        then (if \<not> cc then observeCost j (num_of (ev_cost e)) g1 else ok g1)
      else if real_usage (ev_usage e) \<and> capUsd g1 \<noteq> None \<and> \<not> cc
        then ok (trip Exhausted UnpricedUsage g1) else ok g1) = ok g'" by (rule observeResult_okE)
  have inv: "gov_inv (dp_gov d)" using d by (simp add: dinv_def)
  have "g1 = dp_gov d \<or> (\<exists>u. g1 = fold_usage j u (dp_gov d))"
    using g1 by (auto dest: observeUsage_okD split: if_splits)
  then have d1: "dinv r (d\<lparr>dp_gov := g1\<rparr>)" and j1: "open_job j (d\<lparr>dp_gov := g1\<rparr>)"
    using d j dinv_keeps [OF d keeps_fold_usage inv_fold_usage [OF inv]] by (auto simp: open_job_def)
  have "g' = g1 \<or> g' = trip Exhausted UnpricedUsage g1 \<or> (\<exists>u. 0 \<le> u \<and> g' = fold_cost j u g1)"
    using rest by (auto dest: observeCost_okD split: if_splits)
  moreover have "dinv r (d\<lparr>dp_gov := trip k t g1\<rparr>)" for k t
    using dinv_keeps [OF d1, of "trip k t g1"] d1 by (simp add: keeps_same inv_trip dinv_def)
  moreover have "dinv r (d\<lparr>dp_gov := fold_cost j u g1\<rparr>)" if "0 \<le> u" for u
    using dinv_cost [OF d1 j1 that] by simp
  ultimately show ?thesis using d1 by blast
qed

lemma dinv_journal:
  assumes "dinv r d" "settled_charge e = 0" "\<And>U. track_open e U = U"
    "event_sound (unresolved (dp_journal d)) (unresolved_jobs (dp_journal d)) e"
    "era_priced (dp_journal d @ [e])"
  shows "dinv r (d\<lparr>dp_journal := dp_journal d @ [e]\<rparr>)"
  using assms by (simp add: dinv_def sound_journal_snoc journal_spend_def unresolved_snoc)

lemma era_priced_mono:
  assumes "era_priced evs" "\<And>f. e \<noteq> Job_Finished f" "started_keys e = []"
  shows "era_priced (evs @ [e])"
  using assms unfolding era_priced_def reservation_era_def by auto

lemma dinv_admit:
  assumes d: "dinv r d" and ad: "admit j (dp_gov d) = (g', Admit a)"
    and fin: "\<And>e. Job_Finished e \<in> set (dp_journal d) \<Longrightarrow> run_job (jf_run e) (jf_job e) \<noteq> run_job r j"
  shows "dinv r (d\<lparr>dp_gov := g', dp_journal := dp_journal d
     @ [Job_Started \<lparr>js_run = r, js_job = j, js_op = op, js_attempt = a\<rparr>]\<rparr>)"
proof -
  have g': "g' = fst (admit j (dp_gov d))" using ad by simp
  have "keeps (dp_gov d) g'" unfolding g' by (rule keeps_same) (simp_all add: admit_def)
  moreover have "gov_inv g'" unfolding g' using d by (simp add: inv_admit dinv_def)
  ultimately have d1: "dinv r (d\<lparr>dp_gov := g'\<rparr>)" by (rule dinv_keeps [OF d])
  have "era_priced (dp_journal d @ [Job_Started \<lparr>js_run = r, js_job = j, js_op = op, js_attempt = a\<rparr>])"
    using d fin unfolding dinv_def era_priced_def reservation_era_def by auto
  with dinv_journal [OF d1, of "Job_Started \<lparr>js_run = r, js_job = j, js_op = op, js_attempt = a\<rparr>"]
  show ?thesis by simp
qed

lemma dinv_step: "dispatch_step r d d' \<Longrightarrow> dinv r d \<Longrightarrow> dinv r d'"
proof (induction rule: dispatch_step.induct)
  case (ds_admit j d g' a op)
  then show ?case by (blast intro: dinv_admit)
next
  case (ds_reserve j d a p cls g' out)
  then have "gov_inv (dp_gov d)" by (simp add: dinv_def)
  with ds_reserve show ?case
    by (blast intro: dinv_keeps keeps_reserve inv_reserve gov_invD(1))
next
  case (ds_open d rid h op)
  then show ?case by (blast intro: dinv_open)
next
  case (ds_abandon d rid h g')
  then have "remove1 rid (dp_opened d) = dp_opened d" by (simp add: remove1_idem)
  with dinv_abandon [OF ds_abandon(4,1,3)] ds_abandon(2) show ?case by simp
next
  case (ds_result j d e uc cc g')
  then show ?case by (blast intro: dinv_result)
next
  case (ds_settle d rid h b us g' st)
  then show ?case by (blast intro: dinv_settle)
next
  case (ds_settled rv c d st us)
  then show ?case by (blast intro: dinv_settled)
next
  case (ds_fence_lost d rid h g')
  with dinv_abandon [OF ds_fence_lost(4,1,3)] show ?case by simp
next
  case (ds_finish e d)
  have "era_priced (dp_journal d @ [Job_Finished e])"
    using ds_finish(5,6) ds_finish(1) unfolding dinv_def era_priced_def reservation_era_def by auto
  with ds_finish show ?case by (intro dinv_journal) simp_all
next
  case (ds_trip d k t)
  then show ?case by (intro dinv_keeps) (auto intro: keeps_same simp: dinv_def inv_trip)
next
  case (ds_plain e d)
  moreover have "era_priced (dp_journal d @ [e])"
    using ds_plain by (intro era_priced_mono) (cases e; simp add: dinv_def)+
  ultimately show ?case by (intro dinv_journal) (cases e; simp)+
qed

section \<open>What a crash costs\<close>

lemma dispatch_init_dinv: "dispatch_init c inh r d \<Longrightarrow> dinv r d"
proof -
  assume i: "dispatch_init c inh r d"
  then have launch: "launchGovernor c inh (dp_journal d) = ok (dp_gov d)"
    and ep: "era_priced (dp_journal d)" by (simp_all add: dispatch_init_def)
  note st = launch_gov_start [OF launch]
  from launch obtain g0 where g0: "seedFromJournal (dp_journal d) g0 = ok (dp_gov d)" "g_usdSpent g0 = 0"
    by (rule launch_seeded)
  have "g_usdSpent (dp_gov d) = journal_spend (dp_journal d)"
    using seeded_spend [OF g0(1)] g0(2) era_priced_legacy [OF ep] by (simp add: journal_spend_def)
  moreover have "ids_ok r (map_of (g_outstanding (dp_gov d))) (g_seq (dp_gov d))
      (map_of (unresolved (dp_journal d))) (dp_opened d) (dp_settling d)"
    using i st by (intro ids_okI) (auto simp: dispatch_init_def gov_start_def omap_has_def)
  ultimately show ?thesis
    using i gov_start_inv [OF st] st
    by (simp add: dinv_def dispatch_init_def gov_start_def opened_balance_def settling_balance_def)
qed

interpretation dispatching: invariant_system "dispatch_init c inh r" "dispatch_step r" "dinv r" for c inh r
proof
  show "dispatch_init c inh r d \<Longrightarrow> dinv r d" for d by (rule dispatch_init_dinv)
  show "dinv r d \<Longrightarrow> dispatch_step r d d' \<Longrightarrow> dinv r d'" for d d' by (rule dinv_step)
qed

text \<open>Crash safety. Stop a governed run anywhere: the next run's seed from the surviving journal
  succeeds, and charges exactly what the dead run's ledger held plus what its unsettled dispatches
  had reserved beyond their folds (and what settles not yet journalled had given back). Nothing the
  dead run spent within its reservations is ever lost.\<close>

lemma crash_accounting:
  assumes "reach (dispatch_init c inh r) (dispatch_step r) d"
  shows "\<exists>g. seedFromJournal (dp_journal d) (createGovernor c') = ok g
    \<and> g_usdSpent g = g_usdSpent (dp_gov d) + opened_balance (dp_opened d) (g_outstanding (dp_gov d))
        + settling_balance (dp_settling d) + dp_lost d"
proof -
  have inv: "dinv r d" by (rule dispatching.reach_inv [OF assms])
  then obtain g where g: "seedFromJournal (dp_journal d) (createGovernor c') = ok g"
    using sound_seeds by (auto simp: dinv_def)
  have "g_usdSpent g = journal_spend (dp_journal d)"
    using seeded_spend [OF g] era_priced_legacy inv
    by (simp add: dinv_def createGovernor_def journal_spend_def)
  with g inv show ?thesis by (auto simp: dinv_def)
qed

text \<open>A run that crashed behind a journalled reservation of six dollars with five folded.\<close>

definition demo_d0 :: dispatch where
  "demo_d0 = \<lparr>dp_gov = (case launchGovernor (demo_config (Some 10)) None [] of Inl _ \<Rightarrow> demo_start | Inr g \<Rightarrow> g),
     dp_journal = [], dp_opened = [], dp_settling = [], dp_lost = 0\<rparr>"

definition demo_d1 :: dispatch where
  "demo_d1 = demo_d0\<lparr>dp_gov := run_from [C_Reserve ''a'' 1 (Fin 6) Hard] (dp_gov demo_d0)\<rparr>"

definition demo_d2 :: dispatch where
  "demo_d2 = demo_d1\<lparr>dp_journal := dp_journal demo_d1 @ [opened_event ''r'' ''op'' demo_reservation],
     dp_opened := ''a:1:1'' # dp_opened demo_d1\<rparr>"

definition demo_paid :: spend_evidence where
  "demo_paid = \<lparr>ev_usage = JUndef, ev_cost = JNum (Fin 5)\<rparr>"

definition demo_d3 :: dispatch where
  "demo_d3 = demo_d2\<lparr>dp_gov := run_from [C_ObserveResult ''a'' demo_paid False False] (dp_gov demo_d2)\<rparr>"

lemma demo_d3_reach:
  "reach (dispatch_init (demo_config (Some 10)) None ''r'') (dispatch_step ''r'') demo_d3"
proof -
  have "dispatch_init (demo_config (Some 10)) None ''r'' demo_d0"
  proof -
    have "launchGovernor (demo_config (Some 10)) None (dp_journal demo_d0) = ok (dp_gov demo_d0)" by code_simp
    then show ?thesis
      by (simp add: dispatch_init_def demo_d0_def sound_journal_def era_priced_def unresolved_def omap_has_def)
  qed
  moreover have "dispatch_step ''r'' demo_d0 demo_d1"
    unfolding demo_d1_def
    by (rule ds_reserve [where j = "''a''" and a = 1 and p = "Fin 6" and cls = Hard
          and out = "Resolved (Reserved demo_reservation)"]) code_simp+
  moreover have "dispatch_step ''r'' demo_d1 demo_d2"
    using ds_open [where d = demo_d1 and rid = "''a:1:1''" and r = "''r''" and op = "''op''"
        and h = "\<lparr>hd_res = demo_reservation, hd_folded = 0, hd_priced = False\<rparr>"]
    unfolding demo_d2_def hold.simps by (rule meta_mp [OF meta_mp]) code_simp+
  moreover have "dispatch_step ''r'' demo_d2 demo_d3"
    unfolding demo_d3_def
    by (rule ds_result [where j = "''a''" and e = demo_paid and uc = False and cc = False]) code_simp+
  ultimately show ?thesis by (blast intro: reach_init reach_step)
qed

end
