(* ===== verification/Run_Log.thy ===== *)
theory Run_Log
  imports Kernel_Types
begin

text \<open>
  The run log of \<open>src/kernel/journal.ts\<close>: run-id shapes, \<open>append\<close>, \<open>readEvents\<close> with its torn-tail
  rule, \<open>listRuns\<close> and \<open>deriveJobStatuses\<close>. Decoding one line (\<open>parseLine\<close>: \<open>JSON.parse\<close> and the
  zod event schema) and encoding one (\<open>JSON.stringify\<close>) are parameters, with the laws of an
  encoder/decoder pair as named hypotheses where a property needs them.
\<close>

section \<open>Run ids\<close>

definition char_between :: "char \<Rightarrow> char \<Rightarrow> char \<Rightarrow> bool" where
  "char_between a b c \<longleftrightarrow> (of_char a :: nat) \<le> of_char c \<and> (of_char c :: nat) \<le> of_char b"

definition is_digit :: "char \<Rightarrow> bool" where "is_digit c = char_between CHR ''0'' CHR ''9'' c"
definition is_lower :: "char \<Rightarrow> bool" where "is_lower c = char_between CHR ''a'' CHR ''z'' c"
definition is_upper :: "char \<Rightarrow> bool" where "is_upper c = char_between CHR ''A'' CHR ''Z'' c"
definition is_alnum :: "char \<Rightarrow> bool" where "is_alnum c \<longleftrightarrow> is_digit c \<or> is_lower c \<or> is_upper c"
definition is_hex :: "char \<Rightarrow> bool" where
  "is_hex c \<longleftrightarrow> is_digit c \<or> char_between CHR ''a'' CHR ''f'' c \<or> char_between CHR ''A'' CHR ''F'' c"

definition RUN_ID_PATTERN :: "string \<Rightarrow> bool" where
  "RUN_ID_PATTERN s \<longleftrightarrow> s \<noteq> [] \<and> is_alnum (hd s)
     \<and> list_all (\<lambda>c. is_alnum c \<or> c \<in> {CHR ''.'', CHR ''_'', CHR ''-''}) (tl s)"

text \<open>\<open>/^[0-9a-z]+--[0-9a-f]+$/i\<close>: the first part has no dash, so the split is at the first dash.\<close>

definition RUN_ID_TAIL :: "string \<Rightarrow> bool" where
  "RUN_ID_TAIL s \<longleftrightarrow>
     (let a = takeWhile is_alnum s; r = dropWhile is_alnum s
      in a \<noteq> [] \<and> take 2 r = ''--'' \<and> drop 2 r \<noteq> [] \<and> list_all is_hex (drop 2 r))"

definition starts_with :: "string \<Rightarrow> string \<Rightarrow> bool" where
  "starts_with p s \<longleftrightarrow> take (length p) s = p"

definition candidateRunsForPlan :: "run_id list \<Rightarrow> plan_id \<Rightarrow> run_id list" where
  "candidateRunsForPlan runIds planId =
     filter (\<lambda>r. starts_with (planId @ ''--'') r \<and> RUN_ID_TAIL (drop (length planId + 2) r)) runIds"

section \<open>Reading a run file\<close>

datatype journal_error =
    UnsafeRunId run_id
  | InvalidEvent
  | RunMismatch run_id run_id
  | LineRunMismatch nat run_id run_id
  | SecondHeader nat
  | MixedV3 nat
  | CorruptLine nat

definition NL :: char where "NL = CHR 0x0A"

fun split_nl :: "string \<Rightarrow> string list" where
  "split_nl [] = [[]]"
| "split_nl (c # cs) =
     (if c = NL then [] # split_nl cs
      else (case split_nl cs of [] \<Rightarrow> [[c]] | l # ls \<Rightarrow> (c # l) # ls))"

text \<open>The characters \<open>String.prototype.trim\<close> removes, within one byte.\<close>

definition is_space :: "char \<Rightarrow> bool" where
  "is_space c \<longleftrightarrow> c \<in> {CHR 0x09, CHR 0x0A, CHR 0x0B, CHR 0x0C, CHR 0x0D, CHR 0x20, CHR 0xA0}"

definition blank :: "string \<Rightarrow> bool" where "blank l = list_all is_space l"

definition pop_empty :: "string list \<Rightarrow> string list" where
  "pop_empty ls = (if ls \<noteq> [] \<and> last ls = [] then butlast ls else ls)"

definition pop_blank :: "string list \<Rightarrow> string list" where
  "pop_blank ls = rev (dropWhile blank (rev ls))"

fun v3_only :: "journal_event \<Rightarrow> bool" where
  "v3_only (Observation _ _) = True"
| "v3_only _ = False"

text \<open>The loop over the lines: \<open>n\<close> lines in all, the next one is number \<open>i + 1\<close>.\<close>

fun read_lines :: "(string \<Rightarrow> journal_event option) \<Rightarrow> run_id \<Rightarrow> bool \<Rightarrow> nat \<Rightarrow> nat \<Rightarrow> bool \<Rightarrow> bool
    \<Rightarrow> string list \<Rightarrow> journal_error + journal_event list" where
  "read_lines parse fid torn n i headerSeen headerV3 [] = ok []"
| "read_lines parse fid torn n i headerSeen headerV3 (l # ls) =
     (case parse l of
        Some e \<Rightarrow>
          if event_run e \<noteq> fid then throw (LineRunMismatch (i + 1) (event_run e) fid)
          else
            (let isH = (case e of Run_Started _ \<Rightarrow> True | _ \<Rightarrow> False);
                 v3 = (case e of Run_Started s \<Rightarrow> rs_version s = Some 3 | _ \<Rightarrow> headerV3)
             in if isH \<and> headerSeen then throw (SecondHeader (i + 1))
                else if \<not> v3 \<and> v3_only e then throw (MixedV3 (i + 1))
                else bind_result (read_lines parse fid torn n (i + 1) (headerSeen \<or> isH) v3 ls)
                       (\<lambda>es. ok (e # es)))
      | None \<Rightarrow> if i + 1 = n \<and> torn then ok [] else throw (CorruptLine (i + 1)))"

text \<open>\<open>None\<close> is a missing file: no facts yet.\<close>

definition readEvents :: "(string \<Rightarrow> journal_event option) \<Rightarrow> run_id \<Rightarrow> string option
    \<Rightarrow> journal_error + journal_event list" where
  "readEvents parse fid file =
     (case file of
        None \<Rightarrow> ok []
      | Some raw \<Rightarrow>
          if raw = [] then ok []
          else (let ls = pop_blank (pop_empty (split_nl raw))
                in read_lines parse fid (last raw \<noteq> NL) (length ls) 0 False False ls))"

section \<open>Appending\<close>

text \<open>The kernel stream takes v1 and v2 shapes only.\<close>

fun v1v2_event :: "journal_event \<Rightarrow> bool" where
  "v1v2_event (Observation _ _) = False"
| "v1v2_event (Run_Started s) = (rs_version s \<noteq> Some 3)"
| "v1v2_event _ = True"

definition append_event :: "(journal_event \<Rightarrow> string) \<Rightarrow> run_id \<Rightarrow> journal_event
    \<Rightarrow> (run_id \<Rightarrow> string option) \<Rightarrow> journal_error + (run_id \<Rightarrow> string option)" where
  "append_event render r e files =
     (if \<not> RUN_ID_PATTERN r then throw (UnsafeRunId r)
      else if \<not> v1v2_event e then throw InvalidEvent
      else if event_run e \<noteq> r then throw (RunMismatch (event_run e) r)
      else ok (files(r \<mapsto> (case files r of None \<Rightarrow> [] | Some s \<Rightarrow> s) @ render e @ [NL])))"

fun append_all :: "(journal_event \<Rightarrow> string) \<Rightarrow> run_id \<Rightarrow> journal_event list
    \<Rightarrow> (run_id \<Rightarrow> string option) \<Rightarrow> journal_error + (run_id \<Rightarrow> string option)" where
  "append_all render r [] files = ok files"
| "append_all render r (e # es) files = bind_result (append_event render r e files) (append_all render r es)"

definition read_run :: "(string \<Rightarrow> journal_event option) \<Rightarrow> run_id \<Rightarrow> (run_id \<Rightarrow> string option)
    \<Rightarrow> journal_error + journal_event list" where
  "read_run parse r files =
     (if \<not> RUN_ID_PATTERN r then throw (UnsafeRunId r) else readEvents parse r (files r))"

section \<open>Listing runs\<close>

text \<open>The \<open>.ndjson\<close> files, oldest modification first, ties by id.\<close>

definition ends_with :: "string \<Rightarrow> string \<Rightarrow> bool" where
  "ends_with x s \<longleftrightarrow> length x \<le> length s \<and> drop (length s - length x) s = x"

definition listRuns :: "(run_id \<Rightarrow> rat) \<Rightarrow> string list \<Rightarrow> run_id list" where
  "listRuns mtimeMs names =
     (let runIds = map (\<lambda>n. take (length n - 7) n) (filter (ends_with ''.ndjson'') names)
      in sort_key mtimeMs (sort runIds))"

section \<open>Job statuses\<close>

fun status_state :: "op_status \<Rightarrow> job_state option" where
  "status_state Ok_st = Some Done"
| "status_state Failed_st = Some Failed"
| "status_state BudgetExhausted_st = Some Budget_Exhausted"
| "status_state NeedsHuman_st = None"
| "status_state Indeterminate_st = None"

fun derive_step :: "journal_event \<Rightarrow> (job_id, job_state) omap \<Rightarrow> (job_id, job_state) omap" where
  "derive_step (Job_Started e) m = omap_set (js_job e) Running m"
| "derive_step (Job_Finished e) m =
     (case status_state (status (jf_result e)) of None \<Rightarrow> m | Some s \<Rightarrow> omap_set (jf_job e) s m)"
| "derive_step _ m = m"

definition deriveJobStatuses :: "journal_event list \<Rightarrow> (job_id \<times> job_state) list" where
  "deriveJobStatuses evs = fold derive_step evs []"

definition statusOf :: "(string \<Rightarrow> journal_event option) \<Rightarrow> run_id \<Rightarrow> (run_id \<Rightarrow> string option)
    \<Rightarrow> journal_error + (job_id \<times> job_state) list" where
  "statusOf parse r files = bind_result (read_run parse r files) (\<lambda>evs. ok (deriveJobStatuses evs))"

end
