(* ===== verification/Run_Log_Crash.thy ===== *)
theory Run_Log_Crash
  imports Run_Log
begin

text \<open>
  What the run log guarantees: reading back what was appended, what a crash in the middle of an
  append can lose, which run ids belong to a plan, and the status fold.
\<close>

section \<open>Lines\<close>

definition line_of :: "(journal_event \<Rightarrow> string) \<Rightarrow> journal_event \<Rightarrow> string" where
  "line_of render e = render e @ [NL]"

lemma line_of_simps [simp]: "line_of render e \<noteq> []" "length (line_of render e) = Suc (length (render e))"
  by (simp_all add: line_of_def)

lemma split_nl_not_Nil [simp]: "split_nl s \<noteq> []"
  by (induction s) (auto split: list.splits)

lemma split_nl_line: "NL \<notin> set l \<Longrightarrow> split_nl (l @ NL # s) = l # split_nl s"
  by (induction l) auto

lemma split_nl_single: "NL \<notin> set l \<Longrightarrow> split_nl l = [l]"
  by (induction l) auto

lemma split_nl_lines:
  "\<forall>l \<in> set ls. NL \<notin> set l \<Longrightarrow> split_nl (concat (map (\<lambda>l. l @ [NL]) ls) @ s) = ls @ split_nl s"
  by (induction ls) (auto simp: split_nl_line)

lemma pop_blank_append: "\<not> blank l \<Longrightarrow> pop_blank (ls @ [l]) = ls @ [l]"
  by (simp add: pop_blank_def)

lemma pop_blank_nonblank: "\<forall>l \<in> set ls. \<not> blank l \<Longrightarrow> pop_blank ls = ls"
  by (cases ls rule: rev_cases) (auto simp: pop_blank_append, simp add: pop_blank_def)

lemma pop_blank_drop: "blank l \<Longrightarrow> pop_blank (ls @ [l]) = pop_blank ls"
  by (simp add: pop_blank_def)

section \<open>Streams the log accepts\<close>

text \<open>A kernel stream of one run: every event names the run, at most one header, no v3 shape.\<close>

fun is_header :: "journal_event \<Rightarrow> bool" where
  "is_header (Run_Started _) = True"
| "is_header _ = False"

definition kernel_stream :: "run_id \<Rightarrow> journal_event list \<Rightarrow> bool" where
  "kernel_stream r es \<longleftrightarrow> (\<forall>e \<in> set es. event_run e = r \<and> v1v2_event e)
     \<and> length (filter is_header es) \<le> 1"

text \<open>
  What the reader relies on of the codec (\<open>JSON.stringify\<close> against \<open>JSON.parse\<close> and the schema): an
  event's text is one line that starts with a visible character, decodes to the event, and none of
  its proper prefixes decodes.
\<close>

definition codec :: "(journal_event \<Rightarrow> string) \<Rightarrow> (string \<Rightarrow> journal_event option) \<Rightarrow> journal_event \<Rightarrow> bool" where
  "codec render parse e \<longleftrightarrow> parse (render e) = Some e \<and> NL \<notin> set (render e)
     \<and> render e \<noteq> [] \<and> \<not> is_space (hd (render e))
     \<and> (\<forall>n < length (render e). parse (take n (render e)) = None)"

lemma codec_nonblank: "codec render parse e \<Longrightarrow> 0 < n \<Longrightarrow> \<not> blank (take n (render e))"
  by (cases "render e"; cases n) (auto simp: codec_def blank_def)

lemma codec_nonblank_full: "codec render parse e \<Longrightarrow> \<not> blank (render e)"
  using codec_nonblank [of render parse e "length (render e)"] by (simp add: codec_def)

lemma v1v2_not_v3_only: "v1v2_event e \<Longrightarrow> \<not> v3_only e"
  by (cases e) auto

lemma kernel_stream_Cons:
  "kernel_stream r (e # es) \<Longrightarrow> event_run e = r \<and> v1v2_event e \<and> kernel_stream r es"
  by (auto simp: kernel_stream_def split: if_splits)

text \<open>Reading the lines of a stream, with a torn last line that does not decode.\<close>

lemma read_lines_stream:
  assumes "\<forall>e \<in> set es. codec render parse e" "kernel_stream r es"
    "hs \<longrightarrow> filter is_header es = []"
    "n = i + length es + length tls" "tls = [] \<or> (\<exists>l. tls = [l] \<and> parse l = None \<and> torn)"
  shows "read_lines parse r torn n i hs False (map render es @ tls) = ok es"
  using assms
proof (induction es arbitrary: i hs)
  case Nil
  then show ?case by auto
next
  case (Cons e es)
  have e: "parse (render e) = Some e" "event_run e = r" "v1v2_event e" "kernel_stream r es"
    using Cons.prems(1) kernel_stream_Cons [OF Cons.prems(2)] by (auto simp: codec_def)
  have hs: "hs \<Longrightarrow> \<not> is_header e" "(hs \<or> is_header e) \<longrightarrow> filter is_header es = []"
    using Cons.prems(2,3) by (auto simp: kernel_stream_def split: if_splits)
  have "read_lines parse r torn n (i + 1) (hs \<or> is_header e) False (map render es @ tls) = ok es"
    using Cons.prems hs(2) e(4) by (intro Cons.IH) auto
  with e hs(1) v1v2_not_v3_only [OF e(3)] show ?case
    by (cases e) (auto simp: Let_def)
qed

section \<open>Appending\<close>

lemma append_all_ok:
  assumes "append_all render r es files = ok files'"
  shows "es \<noteq> [] \<Longrightarrow> RUN_ID_PATTERN r" "\<forall>e \<in> set es. event_run e = r \<and> v1v2_event e"
    and "files' = (if es = [] then files else files(r \<mapsto> (case files r of None \<Rightarrow> [] | Some s \<Rightarrow> s)
           @ concat (map (line_of render) es)))"
  using assms
proof (induction es arbitrary: files)
  case (Cons e es)
  { case 1 from 1(2) show ?case by (auto simp: append_event_def bind_result_eq_Inr split: if_splits)
  next case 2 with Cons.IH(2) show ?case by (fastforce simp: append_event_def bind_result_eq_Inr split: if_splits)
  next case 3 with Cons.IH(3) show ?case
      by (fastforce simp: append_event_def bind_result_eq_Inr line_of_def split: if_splits) }
qed auto

lemma concat_line_of: "concat (map (line_of render) es) = concat (map (\<lambda>l. l @ [NL]) (map render es))"
  by (induction es) (simp_all add: line_of_def)

lemma last_lines: "es \<noteq> [] \<Longrightarrow> last (concat (map (line_of render) es)) = NL"
  by (cases es rule: rev_cases) (simp_all add: line_of_def)

lemma readEvents_stream:
  assumes "\<forall>e \<in> set es. codec render parse e" "kernel_stream r es"
  shows "readEvents parse r (Some (concat (map (line_of render) es))) = ok es"
proof (cases "es = []")
  case False
  let ?raw = "concat (map (line_of render) es)"
  have nn: "?raw \<noteq> []" "last ?raw = NL"
    using False by (auto simp: last_lines)
  have "split_nl ?raw = map render es @ [[]]"
    using split_nl_lines [of "map render es" "[]"] assms(1)
    by (simp add: concat_line_of codec_def del: map_map)
  moreover have "pop_blank (map render es) = map render es"
    using assms(1) by (intro pop_blank_nonblank) (auto dest: codec_nonblank_full)
  ultimately show ?thesis
    using nn read_lines_stream [OF assms, of False "length es" 0 "[]" False]
    by (simp add: readEvents_def pop_empty_def Let_def)
qed (simp add: readEvents_def)

section \<open>A crash in the middle of an append\<close>

text \<open>Whatever part of the file survives is whole lines followed by part of one line.\<close>

lemma take_lines:
  "\<exists>k m. k \<le> length es \<and> take n (concat (map (line_of render) es))
      = concat (map (line_of render) (take k es)) @ (if k < length es then take m (render (es ! k)) else [])"
proof (induction es arbitrary: n)
  case (Cons e es)
  show ?case
  proof (cases "n \<le> length (render e)")
    case True
    then show ?thesis by (intro exI [of _ 0] exI [of _ n]) (simp add: line_of_def)
  next
    case False
    obtain k m where "k \<le> length es" "take (n - length (line_of render e)) (concat (map (line_of render) es))
      = concat (map (line_of render) (take k es)) @ (if k < length es then take m (render (es ! k)) else [])"
      using Cons.IH by blast
    moreover have "take n (line_of render e) = line_of render e" using False by simp
    ultimately show ?thesis by - (rule exI [of _ "Suc k"], rule exI [of _ m], auto)
  qed
qed simp

lemma kernel_stream_take: "kernel_stream r es \<Longrightarrow> kernel_stream r (take k es)"
proof (unfold kernel_stream_def, elim conjE, intro conjI)
  assume "length (filter is_header es) \<le> 1"
  moreover have "filter is_header es = filter is_header (take k es) @ filter is_header (drop k es)"
    by (metis append_take_drop_id filter_append)
  ultimately show "length (filter is_header (take k es)) \<le> 1" by simp
qed (auto dest: in_set_takeD)

lemma readEvents_torn:
  assumes c: "\<forall>e \<in> set es. codec render parse e" and s: "kernel_stream r es"
    and k: "k < length es" and m: "0 < m" "m \<le> length (render (es ! k))"
  defines "raw \<equiv> concat (map (line_of render) (take k es)) @ take m (render (es ! k))"
  shows "readEvents parse r (Some raw)
    = ok (if m = length (render (es ! k)) then take (Suc k) es else take k es)"
proof -
  let ?e = "es ! k" and ?l = "take m (render (es ! k))"
  have e: "codec render parse ?e" using c k by simp
  have l: "?l \<noteq> []" "NL \<notin> set ?l" "\<not> blank ?l"
    using e m codec_nonblank [OF e m(1)] by (auto simp: codec_def dest: in_set_takeD)
  have ck: "\<forall>e \<in> set (take i es). codec render parse e" for i using c by (auto dest: in_set_takeD)
  have "split_nl raw = map render (take k es) @ [?l]"
    using split_nl_lines [of "map render (take k es)" ?l] ck [of k] l(2)
    by (simp add: raw_def concat_line_of codec_def split_nl_single del: map_map)
  moreover have "pop_blank (map render (take k es) @ [?l]) = map render (take k es) @ [?l]"
    using l(3) by (rule pop_blank_append)
  moreover have "last ?l \<noteq> NL" using l(1,2) last_in_set by metis
  then have "raw \<noteq> []" "last raw \<noteq> NL" using l(1) by (simp_all add: raw_def)
  ultimately have r: "readEvents parse r (Some raw)
      = read_lines parse r True (length (map render (take k es) @ [?l])) 0 False False (map render (take k es) @ [?l])"
    using l(1) by (simp add: readEvents_def pop_empty_def Let_def del: length_append)
  show ?thesis
  proof (cases "m = length (render ?e)")
    case True
    then have "map render (take k es) @ [?l] = map render (take (Suc k) es)"
      using k by (simp add: take_Suc_conv_app_nth)
    with r True ck [of "Suc k"] kernel_stream_take [OF s] show ?thesis
      using read_lines_stream [of "take (Suc k) es" render parse r False _ 0 "[]" True] k by (simp add: min_absorb2)
  next
    case False
    with m e have "parse ?l = None" by (simp add: codec_def)
    then show ?thesis
      using r False ck [of k] read_lines_stream [of "take k es" render parse r False _ 0 "[?l]" True]
        kernel_stream_take [OF s] k by (simp add: min_def)
  qed
qed

text \<open>Which lines a cut file can still hold.\<close>

abbreviation upto :: "(journal_event \<Rightarrow> string) \<Rightarrow> journal_event list \<Rightarrow> nat \<Rightarrow> nat" where
  "upto render es i \<equiv> length (concat (map (line_of render) (take i es)))"

lemma upto_mono: "i \<le> j \<Longrightarrow> upto render es i \<le> upto render es j"
  by (auto simp: le_iff_add take_add)

lemma upto_Suc: "k < length es \<Longrightarrow> upto render es (Suc k) = upto render es k + Suc (length (render (es ! k)))"
  by (simp add: take_Suc_conv_app_nth)

lemma upto_total: "upto render es i \<le> length (concat (map (line_of render) es))"
  using upto_mono [of i "i + length es" render es] by simp

lemma lines_torn:
  assumes "k < length es" "take n (concat (map (line_of render) es))
      = concat (map (line_of render) (take k es)) @ take m (render (es ! k))"
    and "i \<le> length es" "upto render es i \<le> Suc n"
  shows "i \<le> (if length (render (es ! k)) \<le> m then Suc k else k)"
proof (rule ccontr)
  assume no: "\<not> ?thesis"
  let ?K = "if length (render (es ! k)) \<le> m then Suc k else k"
  have i: "Suc ?K \<le> i" using no by simp
  then have u: "upto render es (Suc ?K) \<le> upto render es i" by (rule upto_mono)
  have len: "min n (length (concat (map (line_of render) es)))
      = upto render es k + min m (length (render (es ! k)))"
    using arg_cong [OF assms(2), of length] by (simp add: min.commute)
  have "Suc (Suc (upto render es k + min m (length (render (es ! k))))) \<le> upto render es (Suc ?K)"
    using upto_Suc [OF assms(1), of render] upto_Suc [of "Suc k" es render] i assms(3) by (auto simp: min_def)
  with u len upto_total [of render i es] assms(4) show False by (simp add: min_def split: if_splits)
qed

lemma lines_cut:
  assumes "k \<le> length es" "take n (concat (map (line_of render) es)) = concat (map (line_of render) (take k es))"
    and nonempty: "\<forall>e \<in> set es. render e \<noteq> []"
    and "i \<le> length es" "upto render es i \<le> Suc n"
  shows "i \<le> k"
proof (cases "k < length es")
  case True
  with lines_torn [of k es n render 0 i] assms show ?thesis by (auto split: if_splits)
qed (use assms in simp)

section \<open>Plan prefixes\<close>

lemma RUN_ID_TAIL_split:
  assumes "RUN_ID_TAIL t"
  obtains a h where "t = a @ ''--'' @ h" "a \<noteq> []" "h \<noteq> []" "list_all is_alnum a" "list_all is_hex h"
proof -
  let ?a = "takeWhile is_alnum t" and ?r = "dropWhile is_alnum t"
  from assms have p: "?a \<noteq> []" "take 2 ?r = ''--''" "drop 2 ?r \<noteq> []" "list_all is_hex (drop 2 ?r)"
    by (simp_all add: RUN_ID_TAIL_def Let_def)
  have "t = ?a @ ''--'' @ drop 2 ?r"
    using p(2) by (metis append_take_drop_id takeWhile_dropWhile_id)
  moreover have "list_all is_alnum ?a" by (auto simp: list_all_iff dest: set_takeWhileD)
  ultimately show thesis using p that [of ?a "drop 2 ?r"] by blast
qed

lemma is_hex_alnum: "is_hex c \<Longrightarrow> is_alnum c"
  by (auto simp: is_hex_def is_alnum_def is_lower_def is_upper_def char_between_def)

lemma not_alnum_dash: "\<not> is_alnum CHR ''-''"
  by code_simp

text \<open>The last two dash-separated words of a run id are determined by the id.\<close>

lemma dash_suffix:
  assumes "x @ CHR ''-'' # h = y @ CHR ''-'' # k" "list_all is_alnum h" "list_all is_alnum k"
  shows "x = y \<and> h = k"
proof -
  have tw: "takeWhile is_alnum (rev (z @ CHR ''-'' # u)) = rev u" if "list_all is_alnum u" for z u
    using that not_alnum_dash by (simp add: takeWhile_append list_all_iff)
  have "rev h = rev k" using assms tw [of h x] tw [of k y] by simp
  with assms(1) show ?thesis by simp
qed

lemma candidate_form:
  assumes "r \<in> set (candidateRunsForPlan ids p)"
  obtains a h where "r = p @ ''--'' @ a @ ''--'' @ h" "a \<noteq> []" "h \<noteq> []" "list_all is_alnum a" "list_all is_alnum h"
proof -
  from assms have st: "take (length p + 2) r = p @ ''--''" and "RUN_ID_TAIL (drop (length p + 2) r)"
    by (auto simp: candidateRunsForPlan_def starts_with_def)
  then obtain a h where "drop (length p + 2) r = a @ ''--'' @ h" "a \<noteq> []" "h \<noteq> []"
    "list_all is_alnum a" "list_all is_hex h"
    by (auto elim: RUN_ID_TAIL_split)
  with st that [of a h] show thesis
    using append_take_drop_id [of "length p + 2" r] by (auto simp: list_all_iff is_hex_alnum)
qed

section \<open>The status fold\<close>

definition job_fact :: "journal_event \<Rightarrow> (job_id \<times> job_state) option" where
  "job_fact e = (case e of
      Job_Started s \<Rightarrow> Some (js_job s, Running)
    | Job_Finished f \<Rightarrow> map_option (Pair (jf_job f)) (status_state (status (jf_result f)))
    | _ \<Rightarrow> None)"

definition facts_of :: "journal_event list \<Rightarrow> (job_id \<times> job_state) list" where
  "facts_of evs = List.map_filter job_fact evs"

lemma derive_step_fact:
  "derive_step e m = (case job_fact e of None \<Rightarrow> m | Some (j, s) \<Rightarrow> omap_set j s m)"
  by (cases e) (auto simp: job_fact_def split: option.splits)

lemma derive_facts: "fold derive_step evs m = fold (\<lambda>(j, s). omap_set j s) (facts_of evs) m"
  by (induction evs arbitrary: m)
    (auto simp: facts_of_def List.map_filter_def derive_step_fact split: option.splits)

lemma fold_omap_set_lookup:
  "map_of (fold (\<lambda>(j, s). omap_set j s) fs m) j = (case map_of (rev fs) j of None \<Rightarrow> map_of m j | Some s \<Rightarrow> Some s)"
proof (induction fs arbitrary: m)
  case (Cons f fs)
  then show ?case by (cases f) (auto simp: map_add_def split: option.splits)
qed simp

lemma okeys_omap_set: "okeys (omap_set k v m) = (if k \<in> set (okeys m) then okeys m else okeys m @ [k])"
  by (induction k v m rule: omap_set.induct) auto

lemma okeys_fold_omap_set:
  "okeys (fold (\<lambda>(j, s). omap_set j s) fs []) = rev (remdups (rev (map fst fs)))"
proof (induction fs rule: rev_induct)
  case (snoc f fs)
  moreover from snoc have "set (okeys (fold (\<lambda>(j, s). omap_set j s) fs [])) = fst ` set fs" by simp
  ultimately show ?case by (cases f) (simp add: okeys_omap_set del: set_map)
qed simp

section \<open>Properties\<close>

text \<open>Append and read are inverse: the events appended to a fresh run, in order, are exactly
  what reading the run returns, and reading any other run is unchanged.\<close>

lemma log_round_trip:
  assumes "append_all render r es files = ok files'" "files r = None" "es \<noteq> []"
    and "length (filter is_header es) \<le> 1" "\<forall>e \<in> set es. codec render parse e"
  shows "read_run parse r files' = ok es \<and> (\<forall>q. q \<noteq> r \<longrightarrow> read_run parse q files' = read_run parse q files)"
proof -
  note a = append_all_ok [OF assms(1)]
  have "kernel_stream r es" using a(2) assms(4) by (simp add: kernel_stream_def)
  with readEvents_stream [OF assms(5)] a(1,3) assms(2,3) show ?thesis
    by (simp add: read_run_def)
qed

text \<open>Crash safety of the log. However many bytes of the appends reached the disk, reading the
  file succeeds with a prefix of the events: every event whose line (but for its newline) is
  complete is there, and nothing but the last, torn event is lost.\<close>

lemma torn_log_readable:
  assumes "kernel_stream r es" "\<forall>e \<in> set es. codec render parse e"
  shows "\<exists>k. readEvents parse r (Some (take n (concat (map (line_of render) es)))) = ok (take k es)
    \<and> (\<forall>i \<le> length es. length (concat (map (line_of render) (take i es))) \<le> Suc n \<longrightarrow> i \<le> k)"
proof -
  obtain k m where km: "k \<le> length es" "take n (concat (map (line_of render) es))
      = concat (map (line_of render) (take k es)) @ (if k < length es then take m (render (es ! k)) else [])"
    using take_lines by blast
  show ?thesis
  proof (cases "k < length es \<and> m \<noteq> 0")
    case False
    then have raw: "take n (concat (map (line_of render) es)) = concat (map (line_of render) (take k es))"
      using km(2) by auto
    have "readEvents parse r (Some (concat (map (line_of render) (take k es)))) = ok (take k es)"
      using assms kernel_stream_take by (intro readEvents_stream) (auto dest: in_set_takeD)
    with raw lines_cut [OF km(1) raw] assms(2) show ?thesis by (auto simp: codec_def)
  next
    case True
    let ?m = "min m (length (render (es ! k)))"
    have raw: "take n (concat (map (line_of render) es))
        = concat (map (line_of render) (take k es)) @ take ?m (render (es ! k))"
      using km(2) True by (simp add: min_def)
    have m: "0 < ?m" using True assms(2) by (auto simp: codec_def)
    have k: "k < length es" using True by simp
    have "readEvents parse r (Some (take n (concat (map (line_of render) es))))
        = ok (take (if length (render (es ! k)) \<le> ?m then Suc k else k) es)"
      using readEvents_torn [OF assms(2,1) k m] raw by (simp add: min_def)
    with lines_torn [OF k raw] show ?thesis by blast
  qed
qed

text \<open>A run of two events over a small concrete codec.\<close>

definition demo_header :: journal_event where
  "demo_header = Run_Started \<lparr>rs_run = ''p--1--a'', rs_at = ''t0'', rs_plan = ''p'', rs_version = Some 2,
     rs_seq = Some 1, rs_governance = None, rs_ungoverned = False\<rparr>"

definition demo_begin :: journal_event where
  "demo_begin = Job_Started \<lparr>js_run = ''p--1--a'', js_job = ''a'', js_op = ''op'', js_attempt = 1\<rparr>"

fun demo_render :: "journal_event \<Rightarrow> string" where
  "demo_render (Run_Started e) = ''{header}''"
| "demo_render _ = ''{begin}''"

definition demo_parse :: "string \<Rightarrow> journal_event option" where
  "demo_parse s = (if s = ''{header}'' then Some demo_header else if s = ''{begin}'' then Some demo_begin else None)"

lemma demo_codec: "\<forall>e \<in> set [demo_header, demo_begin]. codec demo_render demo_parse e"
  by code_simp

text \<open>C40 A blank tail masks corruption. A complete line that decodes to no event is refused; but
  when an unterminated blank line follows it, the same corrupt line is taken for a torn tail and
  silently dropped.\<close>

theorem blank_tail_masks_corruption:
  assumes "NL \<notin> set l" "\<not> blank l" "parse l = None" "NL \<notin> set w" "w \<noteq> []" "blank w"
  shows "readEvents parse r (Some (l @ [NL])) = throw (CorruptLine 1)
    \<and> readEvents parse r (Some (l @ NL # w)) = ok []"
proof -
  have l: "pop_blank [l] = [l]" using pop_blank_append [OF assms(2), of "[]"] by simp
  have "pop_blank [l, w] = [l]" using pop_blank_drop [OF assms(6), of "[l]"] l by simp
  moreover have "last (l @ NL # w) \<noteq> NL" using assms(4,5) by (metis last_ConsR last_appendR last_in_set list.distinct(1))
  moreover have "split_nl (l @ NL # w) = [l, w]" "split_nl (l @ [NL]) = [l, []]"
    using assms(1,4) by (simp_all add: split_nl_line split_nl_single)
  ultimately show ?thesis
    using l assms(3,5) by (simp add: readEvents_def pop_empty_def Let_def)
qed

theorem blank_tail_masks_corruption_witness:
  "readEvents demo_parse ''r'' (Some (''junk'' @ NL # '' '')) = ok []"
  by (rule blank_tail_masks_corruption [of "''junk''" demo_parse "'' ''" "''r''", THEN conjunct2]) code_simp+

text \<open>A run id is a candidate of at most one plan: the prefix index never hands one plan's
  journal to another plan, even when the plans' ids share prefixes.\<close>

lemma candidate_plan_unique:
  assumes "r \<in> set (candidateRunsForPlan ids p)" "r \<in> set (candidateRunsForPlan ids' q)"
  shows "p = q"
proof -
  obtain a h b k where f: "r = p @ ''--'' @ a @ ''--'' @ h" "list_all is_alnum a" "list_all is_alnum h"
      "r = q @ ''--'' @ b @ ''--'' @ k" "list_all is_alnum b" "list_all is_alnum k"
    using candidate_form [OF assms(1)] candidate_form [OF assms(2)] by metis
  have "p @ ''--'' @ a @ ''-'' = q @ ''--'' @ b @ ''-''"
    using dash_suffix [of "p @ ''--'' @ a @ ''-''" h "q @ ''--'' @ b @ ''-''" k] f by simp
  then have "p @ ''--'' @ a = q @ ''--'' @ b" by simp
  then have "p @ ''-'' = q @ ''-''"
    using dash_suffix [of "p @ ''-''" a "q @ ''-''" b] f(2,5) by simp
  then show ?thesis by simp
qed

text \<open>The status fold: a job's status is the last fact journalled about it that has a faithful
  state (a needs-human or indeterminate finish leaves the state it had), jobs are listed in the
  order of their first fact, and a job without a fact is not listed.\<close>

lemma derived_status:
  "map_of (deriveJobStatuses evs) j = map_of (rev (facts_of evs)) j
   \<and> map fst (deriveJobStatuses evs) = rev (remdups (rev (map fst (facts_of evs))))"
  by (simp add: deriveJobStatuses_def derive_facts fold_omap_set_lookup okeys_fold_omap_set
      split: option.splits)

end
