(* ===== verification/Topo_Order.thy ===== *)
theory Topo_Order
  imports Kernel_Types
begin

text \<open>
  \<open>topoOrder\<close> of \<open>src/kernel/manifest.ts\<close>: jobs as waves, each wave holding the jobs whose
  dependencies are all settled by earlier waves, and the three refusals (duplicate id, unknown
  dependency, cycle).
\<close>

type_synonym dep_list = "(job_id \<times> job_id list) list"

datatype topo_error = DuplicateId job_id | UnknownDep job_id job_id | DepCycle "job_id list"

fun index_jobs :: "dep_list \<Rightarrow> (job_id, job_id list) omap \<Rightarrow> topo_error + (job_id, job_id list) omap" where
  "index_jobs [] m = ok m"
| "index_jobs ((i, ds) # js) m =
     (if omap_has i m then throw (DuplicateId i) else index_jobs js (omap_set i ds m))"

fun check_deps :: "(job_id, job_id list) omap \<Rightarrow> dep_list \<Rightarrow> topo_error + unit" where
  "check_deps m [] = ok ()"
| "check_deps m ((i, ds) # js) =
     (case find (\<lambda>d. \<not> omap_has d m) ds of
        Some d \<Rightarrow> throw (UnknownDep i d)
      | None \<Rightarrow> check_deps m js)"

definition ready_wave :: "job_id set \<Rightarrow> dep_list \<Rightarrow> job_id list" where
  "ready_wave settled pending = map fst (filter (\<lambda>p. list_all (\<lambda>d. d \<in> settled) (snd p)) pending)"

lemma ready_wave_subset: "set (ready_wave S P) \<subseteq> fst ` set P"
  by (auto simp: ready_wave_def)

lemma ready_wave_shrinks:
  "ready_wave S P \<noteq> [] \<Longrightarrow> length (filter (\<lambda>p. fst p \<notin> set (ready_wave S P)) P) < length P"
proof -
  assume "ready_wave S P \<noteq> []"
  then obtain i where "i \<in> set (ready_wave S P)" by (cases "ready_wave S P") auto
  then obtain p where "p \<in> set P" "fst p \<in> set (ready_wave S P)" using ready_wave_subset by blast
  then show ?thesis by (intro length_filter_less) auto
qed

text \<open>The \<open>while (pending.length > 0)\<close> loop.\<close>

function topo_loop :: "job_id set \<Rightarrow> dep_list \<Rightarrow> topo_error + job_id list list" where
  "topo_loop settled pending =
     (if pending = [] then ok []
      else if ready_wave settled pending = [] then throw (DepCycle (map fst pending))
      else bind_result
             (topo_loop (settled \<union> set (ready_wave settled pending))
                (filter (\<lambda>p. fst p \<notin> set (ready_wave settled pending)) pending))
             (\<lambda>waves. ok (ready_wave settled pending # waves)))"
  by pat_completeness auto
termination
  by (relation "measure (\<lambda>(s, p). length p)") (auto dest: ready_wave_shrinks)

declare topo_loop.simps [simp del]

definition topoOrder :: "dep_list \<Rightarrow> topo_error + job_id list list" where
  "topoOrder jobs =
     bind_result (index_jobs jobs []) (\<lambda>byId.
     bind_result (check_deps byId byId) (\<lambda>_. topo_loop {} byId))"

section \<open>Indexing and dependency checks\<close>

lemma index_jobs_ok:
  "index_jobs js m = ok m' \<longleftrightarrow>
     distinct (map fst js) \<and> set (map fst js) \<inter> set (okeys m) = {} \<and> m' = m @ js"
proof (induction js m arbitrary: m' rule: index_jobs.induct)
  case (2 i ds js m)
  show ?case
  proof (cases "omap_has i m")
    case True
    then show ?thesis by (auto simp: omap_has_iff)
  next
    case False
    then have "i \<notin> set (okeys m)" by (simp add: omap_has_iff)
    with False 2 show ?thesis by (auto simp: omap_set_new)
  qed
qed auto

lemma check_deps_ok:
  "check_deps m js = ok () \<longleftrightarrow> (\<forall>p \<in> set js. set (snd p) \<subseteq> set (okeys m))"
proof (induction m js rule: check_deps.induct)
  case (2 m i ds js)
  show ?case
  proof (cases "find (\<lambda>d. \<not> omap_has d m) ds")
    case None
    then have "set ds \<subseteq> set (okeys m)" by (auto simp: find_None_iff omap_has_iff)
    with None 2 show ?thesis by simp
  next
    case (Some d)
    then have "d \<in> set ds" "d \<notin> set (okeys m)" by (auto simp: find_Some_iff omap_has_iff)
    with Some show ?thesis by auto
  qed
qed simp

lemma check_deps_cases: "check_deps m js = ok () \<or> (\<exists>i d. check_deps m js = throw (UnknownDep i d))"
  by (induction m js rule: check_deps.induct) (auto split: option.splits)

definition well_formed_deps :: "dep_list \<Rightarrow> bool" where
  "well_formed_deps jobs \<longleftrightarrow> distinct (map fst jobs)
     \<and> (\<forall>p \<in> set jobs. set (snd p) \<subseteq> set (map fst jobs))"

lemma topoOrder_wf:
  "well_formed_deps jobs \<Longrightarrow> topoOrder jobs = topo_loop {} jobs"
proof -
  assume wf: "well_formed_deps jobs"
  then have "index_jobs jobs [] = ok jobs" by (simp add: index_jobs_ok well_formed_deps_def)
  moreover have "check_deps jobs jobs = ok ()" using wf by (simp add: check_deps_ok well_formed_deps_def)
  ultimately show ?thesis by (simp add: topoOrder_def)
qed

lemma topoOrder_ok_wf: "topoOrder jobs = ok waves \<Longrightarrow> well_formed_deps jobs"
  by (auto simp: topoOrder_def bind_result_eq_Inr index_jobs_ok check_deps_ok well_formed_deps_def)

section \<open>The waves\<close>

lemma ready_wave_filter:
  "distinct (map fst P) \<Longrightarrow>
   map fst (filter (\<lambda>p. fst p \<in> set (ready_wave S P)) P) = ready_wave S P"
  unfolding ready_wave_def
  by (rule arg_cong [where f = "map fst"], rule filter_cong)
    (auto dest: eq_key_imp_eq_value)

lemma topo_loop_perm:
  "topo_loop S P = ok ws \<Longrightarrow> distinct (map fst P) \<Longrightarrow> mset (concat ws) = mset (map fst P)"
proof (induction S P arbitrary: ws rule: topo_loop.induct)
  case (1 S P)
  let ?w = "ready_wave S P"
  show ?case
  proof (cases "P = [] \<or> ?w = []")
    case True
    with "1.prems"(1) show ?thesis by (auto simp: topo_loop.simps [of S P] split: if_splits)
  next
    case False
    with "1.prems"(1) obtain ws' where
      ws': "topo_loop (S \<union> set ?w) (filter (\<lambda>p. fst p \<notin> set ?w) P) = ok ws'" "ws = ?w # ws'"
      by (auto simp: topo_loop.simps [of S P] bind_result_eq_Inr)
    have "mset (concat ws') = mset (map fst (filter (\<lambda>p. fst p \<notin> set ?w) P))"
      using "1.IH" False ws'(1) "1.prems"(2) by (auto simp: distinct_map_filter)
    moreover have "mset (map fst P) = mset ?w + mset (map fst (filter (\<lambda>p. fst p \<notin> set ?w) P))"
    proof -
      have "mset P = filter_mset (\<lambda>p. fst p \<in> set ?w) (mset P)
          + filter_mset (\<lambda>p. fst p \<notin> set ?w) (mset P)" by (rule multiset_partition)
      then have "mset (map fst P) = mset (map fst (filter (\<lambda>p. fst p \<in> set ?w) P))
          + mset (map fst (filter (\<lambda>p. fst p \<notin> set ?w) P))"
        by (simp only: mset_map mset_filter flip: image_mset_union)
      then show ?thesis by (simp only: ready_wave_filter [OF "1.prems"(2)])
    qed
    ultimately show ?thesis using ws'(2) by simp
  qed
qed

text \<open>Every job's dependencies are settled before its wave.\<close>

lemma topo_loop_sound:
  "topo_loop S P = ok ws \<Longrightarrow> n < length ws \<Longrightarrow> (i, ds) \<in> set P \<Longrightarrow> i \<in> set (ws ! n)
   \<Longrightarrow> distinct (map fst P) \<Longrightarrow> set ds \<subseteq> S \<union> set (concat (take n ws))"
proof (induction S P arbitrary: ws n rule: topo_loop.induct)
  case (1 S P)
  let ?w = "ready_wave S P"
  show ?case
  proof (cases "P = [] \<or> ?w = []")
    case True
    with "1.prems" show ?thesis by (auto simp: topo_loop.simps [of S P] split: if_splits)
  next
    case False
    with "1.prems"(1) obtain ws' where
      ws': "topo_loop (S \<union> set ?w) (filter (\<lambda>p. fst p \<notin> set ?w) P) = ok ws'" "ws = ?w # ws'"
      by (auto simp: topo_loop.simps [of S P] bind_result_eq_Inr)
    have dist: "distinct (map fst (filter (\<lambda>p. fst p \<notin> set ?w) P))"
      using "1.prems"(5) by (simp add: distinct_map_filter)
    show ?thesis
    proof (cases n)
      case 0
      with "1.prems" ws' have "i \<in> set ?w" by simp
      then have "set ds \<subseteq> S"
        using eq_key_imp_eq_value [OF "1.prems"(5) "1.prems"(3)]
        by (auto simp: ready_wave_def list_all_iff)
      then show ?thesis by blast
    next
      case (Suc m)
      with "1.prems"(2,4) ws' have m: "m < length ws'" "i \<in> set (ws' ! m)" by auto
      have "i \<in> set (concat ws')" using m nth_mem [OF m(1)] by (simp only: set_concat) blast
      then have "i \<notin> set ?w"
        using mset_eq_setD [OF topo_loop_perm [OF ws'(1) dist]] by auto
      then have "(i, ds) \<in> set (filter (\<lambda>p. fst p \<notin> set ?w) P)" using "1.prems"(3) by simp
      with "1.IH" False ws'(1) m dist
      have "set ds \<subseteq> (S \<union> set ?w) \<union> set (concat (take m ws'))" by blast
      with Suc ws'(2) show ?thesis by auto
    qed
  qed
qed

text \<open>A cycle refusal names jobs that each wait for one of the named jobs.\<close>

lemma topo_loop_cycle:
  "topo_loop S P = throw e \<Longrightarrow> (\<forall>p \<in> set P. set (snd p) \<subseteq> S \<union> fst ` set P)
   \<Longrightarrow> \<exists>st. e = DepCycle st \<and> st \<noteq> [] \<and> set st \<subseteq> fst ` set P
          \<and> (\<forall>i \<in> set st. \<exists>ds. (i, ds) \<in> set P \<and> (\<exists>d \<in> set ds. d \<in> set st))"
proof (induction S P rule: topo_loop.induct)
  case (1 S P)
  let ?w = "ready_wave S P" and ?Q = "filter (\<lambda>p. fst p \<notin> set (ready_wave S P)) P"
  consider "P = []" | "P \<noteq> []" "?w = []" | "P \<noteq> []" "?w \<noteq> []" by blast
  then show ?case
  proof cases
    case 1
    with "1.prems"(1) show ?thesis by (simp add: topo_loop.simps)
  next
    case 2
    with "1.prems"(1) have e: "e = DepCycle (map fst P)" by (simp add: topo_loop.simps)
    have "\<exists>ds. (i, ds) \<in> set P \<and> (\<exists>d \<in> set ds. d \<in> fst ` set P)" if "i \<in> fst ` set P" for i
    proof -
      from that obtain ds where i: "(i, ds) \<in> set P" by auto
      with 2 have "\<not> list_all (\<lambda>d. d \<in> S) ds" by (auto simp: ready_wave_def filter_empty_conv)
      with i "1.prems"(2) show ?thesis by (fastforce simp: list_all_iff)
    qed
    with e 2 show ?thesis by auto
  next
    case 3
    with "1.prems"(1) have rec: "topo_loop (S \<union> set ?w) ?Q = throw e"
      by (auto simp: topo_loop.simps [of S P] bind_result_eq_Inl)
    have "\<forall>p \<in> set ?Q. set (snd p) \<subseteq> (S \<union> set ?w) \<union> fst ` set ?Q"
      using "1.prems"(2) by fastforce
    from "1.IH" [OF 3 rec this] obtain st where st: "e = DepCycle st" "st \<noteq> []"
      "set st \<subseteq> fst ` set ?Q"
      "\<forall>i \<in> set st. \<exists>ds. (i, ds) \<in> set ?Q \<and> (\<exists>d \<in> set ds. d \<in> set st)" by blast
    have "fst ` set ?Q \<subseteq> fst ` set P" by auto
    with st have "set st \<subseteq> fst ` set P"
      "\<forall>i \<in> set st. \<exists>ds. (i, ds) \<in> set P \<and> (\<exists>d \<in> set ds. d \<in> set st)" by (blast, fastforce)
    with st(1,2) show ?thesis by blast
  qed
qed

lemma topoOrder_complete:
  assumes wf: "well_formed_deps jobs"
    and rank: "\<And>i ds d. (i, ds) \<in> set jobs \<Longrightarrow> d \<in> set ds \<Longrightarrow> (rank d :: nat) < rank i"
  shows "\<exists>waves. topoOrder jobs = ok waves"
proof (rule ccontr)
  assume "\<nexists>waves. topoOrder jobs = ok waves"
  then obtain e where e: "topoOrder jobs = throw e" by (cases "topoOrder jobs") auto
  with wf have "topo_loop {} jobs = throw e" by (simp add: topoOrder_wf)
  moreover have "\<forall>p \<in> set jobs. set (snd p) \<subseteq> {} \<union> fst ` set jobs"
    using wf by (simp add: well_formed_deps_def)
  ultimately obtain st where st: "st \<noteq> []"
    "\<forall>i \<in> set st. \<exists>ds. (i, ds) \<in> set jobs \<and> (\<exists>d \<in> set ds. d \<in> set st)"
    using topo_loop_cycle by blast
  define i where "i = arg_min_on rank (set st)"
  have "i \<in> set st" "\<And>j. j \<in> set st \<Longrightarrow> rank i \<le> rank j"
    using st(1) by (simp_all add: i_def arg_min_if_finite arg_min_least)
  with st(2) rank show False by (meson leD)
qed

section \<open>Properties\<close>

definition dep_rel :: "dep_list \<Rightarrow> (job_id \<times> job_id) set" where
  "dep_rel jobs = {(d, i). \<exists>ds. (i, ds) \<in> set jobs \<and> d \<in> set ds}"

lemma finite_dep_rel: "finite (dep_rel jobs)"
proof (rule finite_subset)
  show "dep_rel jobs \<subseteq> (\<Union>p \<in> set jobs. set (snd p) \<times> {fst p})" by (force simp: dep_rel_def)
qed simp

text \<open>Wave order: on success the waves hold every job exactly once, and each job's dependencies
  are in strictly earlier waves.\<close>

lemma topo_waves:
  assumes "topoOrder jobs = ok waves"
  shows "mset (concat waves) = mset (map fst jobs)
    \<and> (\<forall>n < length waves. \<forall>(i, ds) \<in> set jobs. i \<in> set (waves ! n) \<longrightarrow> set ds \<subseteq> set (concat (take n waves)))"
proof -
  have wf: "well_formed_deps jobs" using assms by (rule topoOrder_ok_wf)
  then have d: "distinct (map fst jobs)" by (simp add: well_formed_deps_def)
  have t: "topo_loop {} jobs = ok waves" using assms topoOrder_wf [OF wf] by simp
  show ?thesis
    using topo_loop_perm [OF t d] topo_loop_sound [OF t _ _ _ d] by (intro conjI) (blast, fast)
qed

lemma ordered_acyclic:
  assumes ok: "topoOrder jobs = ok ws"
  shows "acyclic (dep_rel jobs)"
proof -
  have wf: "well_formed_deps jobs" using ok by (rule topoOrder_ok_wf)
  then have d: "distinct (map fst jobs)" by (simp add: well_formed_deps_def)
  have t: "topo_loop {} jobs = ok ws" using ok topoOrder_wf [OF wf] by simp
  have p: "mset (concat ws) = mset (map fst jobs)" using topo_loop_perm [OF t d] .
  define wave where "wave i = (LEAST n. n < length ws \<and> i \<in> set (ws ! n))" for i
  have ex: "\<exists>n. n < length ws \<and> i \<in> set (ws ! n)" if "i \<in> fst ` set jobs" for i
  proof -
    have "i \<in> set (concat ws)" using that mset_eq_setD [OF p] by simp
    then obtain w where "w \<in> set ws" "i \<in> set w" by auto
    then show ?thesis by (auto simp: in_set_conv_nth)
  qed
  have wv: "wave i < length ws \<and> i \<in> set (ws ! wave i)" if "i \<in> fst ` set jobs" for i
    using ex [OF that] unfolding wave_def by (rule LeastI_ex)
  have "wave x < wave i" if "(x, i) \<in> dep_rel jobs" for x i
  proof -
    from that obtain ds where i: "(i, ds) \<in> set jobs" "x \<in> set ds" by (auto simp: dep_rel_def)
    then have "i \<in> fst ` set jobs" by force
    with topo_loop_sound [OF t _ i(1) _ d] wv i(2) have "x \<in> set (concat (take (wave i) ws))" by blast
    then obtain w where "w \<in> set (take (wave i) ws)" "x \<in> set w" by auto
    then obtain n where n: "n < wave i" "n < length ws" "x \<in> set (ws ! n)"
      using in_set_conv_nth [of w "take (wave i) ws"] by auto
    then have "wave x \<le> n" unfolding wave_def by (intro Least_le) simp
    with n(1) show ?thesis by simp
  qed
  then have "dep_rel jobs \<subseteq> measure wave" by auto
  then show ?thesis by (metis acyclic_subset wf_acyclic wf_measure)
qed

lemma acyclic_ordered:
  assumes a: "well_formed_deps jobs" "acyclic (dep_rel jobs)"
  shows "\<exists>waves. topoOrder jobs = ok waves"
proof (rule ccontr)
  have wfr: "wf (dep_rel jobs)" using a(2) finite_acyclic_wf finite_dep_rel by blast
  assume "\<nexists>waves. topoOrder jobs = ok waves"
  then obtain e where "topo_loop {} jobs = throw e"
    using a(1) topoOrder_wf by (cases "topoOrder jobs") auto
  with topo_loop_cycle [of "{}" jobs e] a(1) obtain st where st: "st \<noteq> []"
    "\<forall>i \<in> set st. \<exists>ds. (i, ds) \<in> set jobs \<and> (\<exists>d \<in> set ds. d \<in> set st)"
    by (auto simp: well_formed_deps_def)
  obtain i where "i \<in> set st" "\<forall>d. (d, i) \<in> dep_rel jobs \<longrightarrow> d \<notin> set st"
    using wfE_min [OF wfr, of "hd st" "set st"] st(1) by auto
  with st(2) show False by (auto simp: dep_rel_def)
qed

text \<open>The refusals are exact: an order is found if and only if ids are unique, every dependency
  names a job, and the dependency relation has no cycle.\<close>

lemma topo_order_exists:
  "(\<exists>waves. topoOrder jobs = ok waves) \<longleftrightarrow> well_formed_deps jobs \<and> acyclic (dep_rel jobs)"
  using topoOrder_ok_wf ordered_acyclic acyclic_ordered by blast

end
