(* ===== verification/Manifest.thy ===== *)
theory Manifest
  imports Kernel_Types
begin

text \<open>
  \<open>src/kernel/manifest.ts\<close>: the canonical serialization behind a job's input hash, the committed
  manifest, and the topological order of jobs as waves. SHA-256 and the shortest decimal rendering
  of a finite number are parameters (\<open>sha256\<close>, \<open>num\<close>): the code relies on them only as functions.
\<close>

section \<open>Canonical JSON\<close>

definition hex_digit :: "nat \<Rightarrow> char" where
  "hex_digit d = char_of (if d < 10 then 48 + d else 87 + d)"

text \<open>\<open>JSON.stringify\<close> of one character inside a string literal.\<close>

definition json_char :: "char \<Rightarrow> string" where
  "json_char c = (let n = of_char c :: nat in
     if n = 34 then [char_of (92 :: nat), char_of (34 :: nat)]
     else if n = 92 then [char_of (92 :: nat), char_of (92 :: nat)]
     else if n = 8 then [char_of (92 :: nat), CHR ''b'']
     else if n = 9 then [char_of (92 :: nat), CHR ''t'']
     else if n = 10 then [char_of (92 :: nat), CHR ''n'']
     else if n = 12 then [char_of (92 :: nat), CHR ''f'']
     else if n = 13 then [char_of (92 :: nat), CHR ''r'']
     else if n < 32 then char_of (92 :: nat) # ''u00'' @ [hex_digit (n div 16), hex_digit (n mod 16)]
     else [c])"

definition json_str :: "string \<Rightarrow> string" where
  "json_str s = [char_of (34 :: nat)] @ concat (map json_char s) @ [char_of (34 :: nat)]"

fun join :: "string \<Rightarrow> string list \<Rightarrow> string" where
  "join sep [] = []"
| "join sep [x] = x"
| "join sep (x # y # ys) = x @ sep @ join sep (y # ys)"

text \<open>\<open>JSON.stringify(value) ?? 'null'\<close> for a value that is not an object.\<close>

fun scalarJson :: "(rat \<Rightarrow> string) \<Rightarrow> jsv \<Rightarrow> string" where
  "scalarJson num (JBool b) = (if b then ''true'' else ''false'')"
| "scalarJson num (JNum (Fin r)) = num r"
| "scalarJson num (JStr s) = json_str s"
| "scalarJson num _ = ''null''"

definition member_json :: "string \<times> string \<Rightarrow> string" where
  "member_json kv = json_str (fst kv) @ '':'' @ snd kv"

definition object_json :: "(string \<times> string) list \<Rightarrow> string" where
  "object_json kvs = ''{'' @ join '','' (map member_json (sort_key fst kvs)) @ ''}''"

fun canonicalJson :: "(rat \<Rightarrow> string) \<Rightarrow> jsv \<Rightarrow> string"
and canonicalMembers :: "(rat \<Rightarrow> string) \<Rightarrow> (string \<times> jsv) list \<Rightarrow> (string \<times> string) list"
and canonicalItems :: "(rat \<Rightarrow> string) \<Rightarrow> jsv list \<Rightarrow> string list" where
  "canonicalJson num (JArr vs) = ''['' @ join '','' (canonicalItems num vs) @ '']''"
| "canonicalJson num (JObj ms) = object_json (canonicalMembers num ms)"
| "canonicalJson num (JExotic c ms) = object_json (canonicalMembers num ms)"
| "canonicalJson num v = scalarJson num v"
| "canonicalMembers num [] = []"
| "canonicalMembers num ((k, v) # ms) =
     (if v = JUndef then canonicalMembers num ms
      else (k, canonicalJson num v) # canonicalMembers num ms)"
| "canonicalItems num [] = []"
| "canonicalItems num (v # vs) = canonicalJson num v # canonicalItems num vs"

definition hashInputs :: "(string \<Rightarrow> string) \<Rightarrow> (rat \<Rightarrow> string) \<Rightarrow> op_name \<Rightarrow> jsv \<Rightarrow> string" where
  "hashInputs sha256 num oper input =
     sha256 (canonicalJson num (JObj [(''input'', input), (''op'', JStr oper)]))"

lemma canonicalMembers_conv:
  "canonicalMembers num ms =
     map (\<lambda>m. (fst m, canonicalJson num (snd m))) (filter (\<lambda>m. snd m \<noteq> JUndef) ms)"
  by (induction ms) auto

lemma canonicalItems_conv: "canonicalItems num vs = map (canonicalJson num) vs"
  by (induction vs) auto

lemma sort_key_perm_eq:
  fixes xs ys :: "('k :: linorder \<times> 'b) list"
  assumes "mset xs = mset ys" and "distinct (map fst xs)"
  shows "sort_key fst xs = sort_key fst ys"
proof (rule map_sorted_distinct_set_unique [where f = fst])
  have sets: "set (sort_key fst xs) = set xs" "set (sort_key fst ys) = set xs"
    using mset_eq_setD [OF assms(1)] by simp_all
  then show "inj_on fst (set (sort_key fst xs) \<union> set (sort_key fst ys))"
    using assms(2) by (simp add: distinct_map)
  show "set (sort_key fst xs) = set (sort_key fst ys)" using sets by simp
  have "mset (map fst (sort_key fst xs)) = mset (map fst xs)"
    "mset (map fst (sort_key fst ys)) = mset (map fst xs)"
    using assms(1) by (simp_all flip: assms(1))
  then show "distinct (map fst (sort_key fst xs))" "distinct (map fst (sort_key fst ys))"
    using assms(2) by (metis mset_eq_imp_distinct_iff)+
qed simp_all

lemma join_cong: "xs = ys \<Longrightarrow> join sep xs = join sep ys"
  by simp

text \<open>
  Two values carry the same JSON record when they differ only in the order of object members and
  in members that are explicitly undefined, at any depth.
\<close>

inductive same_json :: "jsv \<Rightarrow> jsv \<Rightarrow> bool" where
  same_refl: "same_json v v"
| arr: "list_all2 same_json vs ws \<Longrightarrow> same_json (JArr vs) (JArr ws)"
| obj: "list_all2 (\<lambda>p q. fst p = fst q \<and> same_json (snd p) (snd q)) ms ns
    \<Longrightarrow> same_json (JObj ms) (JObj ns)"
| drop_undef: "same_json (JObj (filter (\<lambda>m. snd m \<noteq> JUndef) ms)) (JObj ms)"
| permute: "mset ms = mset ns \<Longrightarrow> distinct (map fst ms) \<Longrightarrow> same_json (JObj ms) (JObj ns)"
| same_trans: "same_json u v \<Longrightarrow> same_json v w \<Longrightarrow> same_json u w"

lemma distinct_canonicalMembers:
  "distinct (map fst ms) \<Longrightarrow> distinct (map fst (canonicalMembers num ms))"
  by (simp add: canonicalMembers_conv comp_def distinct_map_filter)

lemma same_json_undef: "same_json v w \<Longrightarrow> v = JUndef \<longleftrightarrow> w = JUndef"
  by (induction rule: same_json.induct) auto

lemma canonicalItems_cong:
  "list_all2 (\<lambda>v w. canonicalJson num v = canonicalJson num w) vs ws
   \<Longrightarrow> canonicalItems num vs = canonicalItems num ws"
  by (induction rule: list_all2_induct) auto

lemma canonicalMembers_cong:
  "list_all2 (\<lambda>p q. fst p = fst q \<and> (snd p = JUndef \<longleftrightarrow> snd q = JUndef)
      \<and> canonicalJson num (snd p) = canonicalJson num (snd q)) ms ns
   \<Longrightarrow> canonicalMembers num ms = canonicalMembers num ns"
  by (induction rule: list_all2_induct) (auto simp: canonicalMembers_conv)

lemma canonicalJson_same: "same_json v w \<Longrightarrow> canonicalJson num v = canonicalJson num w"
proof (induction rule: same_json.induct)
  case (arr vs ws)
  then have "canonicalItems num vs = canonicalItems num ws"
    by (intro canonicalItems_cong) (auto elim: list_all2_mono)
  then show ?case by simp
next
  case (obj ms ns)
  then have "canonicalMembers num ms = canonicalMembers num ns"
    by (intro canonicalMembers_cong) (auto elim!: list_all2_mono dest: same_json_undef)
  then show ?case by simp
next
  case (drop_undef ms)
  have "canonicalMembers num (filter (\<lambda>m. snd m \<noteq> JUndef) ms) = canonicalMembers num ms"
    by (simp add: canonicalMembers_conv)
  then show ?case by simp
next
  case (permute ms ns)
  have "mset (canonicalMembers num ms) = mset (canonicalMembers num ns)"
    using permute(1) by (simp add: canonicalMembers_conv)
  then show ?case
    using sort_key_perm_eq distinct_canonicalMembers [OF permute(2)] by (fastforce simp: object_json_def)
qed simp_all

section \<open>Inputs the hash can represent\<close>

text \<open>
  \<open>assertHashableInput\<close>: rejects non-finite numbers and non-plain objects anywhere in the input,
  naming the path; undefined members are skipped. A path is kept as its segments.
\<close>

datatype path_seg = Index nat | Key string

datatype manifest_error =
    NonFinite job_id "path_seg list"
  | NotPlain job_id "path_seg list"
  | DataCloneError job_id

fun assertHashableInput :: "job_id \<Rightarrow> path_seg list \<Rightarrow> jsv \<Rightarrow> manifest_error + unit"
and assertItems :: "job_id \<Rightarrow> path_seg list \<Rightarrow> nat \<Rightarrow> jsv list \<Rightarrow> manifest_error + unit"
and assertMembers :: "job_id \<Rightarrow> path_seg list \<Rightarrow> (string \<times> jsv) list \<Rightarrow> manifest_error + unit" where
  "assertHashableInput j p (JNum n) = (if js_is_finite n then ok () else throw (NonFinite j p))"
| "assertHashableInput j p (JArr vs) = assertItems j p 0 vs"
| "assertHashableInput j p (JExotic c ms) = throw (NotPlain j p)"
| "assertHashableInput j p (JObj ms) = assertMembers j p ms"
| "assertHashableInput j p _ = ok ()"
| "assertItems j p i [] = ok ()"
| "assertItems j p i (v # vs) =
     bind_result (assertHashableInput j (p @ [Index i]) v) (\<lambda>_. assertItems j p (Suc i) vs)"
| "assertMembers j p [] = ok ()"
| "assertMembers j p ((k, v) # ms) =
     (if v = JUndef then assertMembers j p ms
      else bind_result (assertHashableInput j (p @ [Key k]) v) (\<lambda>_. assertMembers j p ms))"

fun hashable :: "jsv \<Rightarrow> bool" where
  "hashable (JNum n) = js_is_finite n"
| "hashable (JArr vs) = list_all hashable vs"
| "hashable (JObj ms) = list_all (\<lambda>(k, v). hashable v) ms"
| "hashable (JExotic c ms) = False"
| "hashable _ = True"

lemma assertHashableInput_iff:
  "assertHashableInput j p v = ok () \<longleftrightarrow> hashable v"
  "assertItems j p i vs = ok () \<longleftrightarrow> list_all hashable vs"
  "assertMembers j p ms = ok () \<longleftrightarrow> list_all (\<lambda>(k, v). hashable v) ms"
  by (induction j p v and j p i vs and j p ms
      rule: assertHashableInput_assertItems_assertMembers.induct)
    (auto simp: bind_result_eq_Inr)

section \<open>The committed manifest\<close>

text \<open>\<open>structuredClone\<close> refuses functions and symbols anywhere in the input, which the hash check lets pass.\<close>

fun cloneable :: "jsv \<Rightarrow> bool" where
  "cloneable (JArr vs) = list_all cloneable vs"
| "cloneable (JObj ms) = list_all (\<lambda>(k, v). cloneable v) ms"
| "cloneable (JExotic c ms) = list_all (\<lambda>(k, v). cloneable v) ms"
| "cloneable JFun = False"
| "cloneable _ = True"

record manifest_job =
  mj_id :: job_id
  mj_op :: op_name
  mj_input :: jsv
  mj_hash :: string
  mj_deps :: "job_id list"

record run_manifest =
  rm_plan :: plan_id
  rm_jobs :: "manifest_job list"

definition manifest_job_of :: "(string \<Rightarrow> string) \<Rightarrow> (rat \<Rightarrow> string) \<Rightarrow> job \<Rightarrow> manifest_job" where
  "manifest_job_of sha256 num j =
     \<lparr>mj_id = job_id j, mj_op = job_op j, mj_input = job_input j,
      mj_hash = hashInputs sha256 num (job_op j) (job_input j),
      mj_deps = (case job_deps j of None \<Rightarrow> [] | Some ds \<Rightarrow> ds)\<rparr>"

fun manifest_jobs :: "(string \<Rightarrow> string) \<Rightarrow> (rat \<Rightarrow> string) \<Rightarrow> job list \<Rightarrow> manifest_error + manifest_job list" where
  "manifest_jobs sha256 num [] = ok []"
| "manifest_jobs sha256 num (j # js) =
     bind_result (assertHashableInput (job_id j) [] (job_input j)) (\<lambda>_.
       if \<not> cloneable (job_input j) then throw (DataCloneError (job_id j))
       else bind_result (manifest_jobs sha256 num js) (\<lambda>ms. ok (manifest_job_of sha256 num j # ms)))"

definition makeManifest :: "(string \<Rightarrow> string) \<Rightarrow> (rat \<Rightarrow> string) \<Rightarrow> plan \<Rightarrow> manifest_error + run_manifest" where
  "makeManifest sha256 num p =
     bind_result (manifest_jobs sha256 num (plan_jobs p)) (\<lambda>ms.
       ok \<lparr>rm_plan = plan_id p, rm_jobs = ms\<rparr>)"

lemma manifest_jobs_ok:
  "manifest_jobs sha256 num js = ok ms \<longleftrightarrow>
     (\<forall>j \<in> set js. hashable (job_input j) \<and> cloneable (job_input j)) \<and> ms = map (manifest_job_of sha256 num) js"
  by (induction js arbitrary: ms) (auto simp: bind_result_eq_Inr assertHashableInput_iff)

lemma makeManifest_ok:
  "makeManifest sha256 num p = ok m \<longleftrightarrow>
     (\<forall>j \<in> set (plan_jobs p). hashable (job_input j) \<and> cloneable (job_input j))
   \<and> m = \<lparr>rm_plan = plan_id p, rm_jobs = map (manifest_job_of sha256 num) (plan_jobs p)\<rparr>"
  by (auto simp: makeManifest_def bind_result_eq_Inr manifest_jobs_ok)

section \<open>Properties\<close>

text \<open>The input hash does not depend on how the input was written: values that differ only in
  the order of object members, or in members that are explicitly undefined, hash alike.\<close>

lemma input_hash_stable:
  assumes "same_json v w"
  shows "hashInputs sha256 num op v = hashInputs sha256 num op w"
  using canonicalJson_same [OF assms] same_json_undef [OF assms] by (simp add: hashInputs_def)

text \<open>A manifest is committed exactly when every input can be represented (finite numbers, plain
  data, no functions or symbols), and it then records every job of the plan in order with the hash of its input.\<close>

lemma manifest_exact:
  "makeManifest sha256 num p = ok m \<longleftrightarrow>
     (\<forall>j \<in> set (plan_jobs p). hashable (job_input j) \<and> cloneable (job_input j))
   \<and> m = \<lparr>rm_plan = plan_id p, rm_jobs = map (manifest_job_of sha256 num) (plan_jobs p)\<rparr>"
  by (rule makeManifest_ok)

end
