(* ===== verification/Lanes.thy ===== *)
theory Lanes
  imports Kernel_Types
begin

text \<open>
  \<open>src/kernel/lanes.ts\<close>: the classification of a dispatch key as HARD or ADVISORY by the most
  specific matching row of a table, and the two ways a table is refused.
\<close>

record lane_key =
  k_lane :: "string option"
  k_provider :: "string option"
  k_model :: "string option"

record lane_row =
  r_lane :: "string option"
  r_provider :: "string option"
  r_model :: "string option"
  r_class :: budget_class
  r_evidence :: "string option"

datatype lane_error = NoDispatchKey | HardWithoutEvidence lane_row

definition LANE_CLASSIFICATION :: "lane_row list" where
  "LANE_CLASSIFICATION = []"

text \<open>A constrained field must equal the key's field; no key reads as a key of absent fields.\<close>

definition field_ok :: "string option \<Rightarrow> string option \<Rightarrow> bool" where
  "field_ok want have = (case want of None \<Rightarrow> True | Some w \<Rightarrow> have = Some w)"

definition row_matches :: "lane_key option \<Rightarrow> lane_row \<Rightarrow> bool" where
  "row_matches key row \<longleftrightarrow>
     field_ok (r_lane row) (Option.bind key k_lane)
   \<and> field_ok (r_provider row) (Option.bind key k_provider)
   \<and> field_ok (r_model row) (Option.bind key k_model)"

definition specificity :: "lane_row \<Rightarrow> int" where
  "specificity row = (if r_lane row \<noteq> None then 1 else 0)
     + (if r_provider row \<noteq> None then 1 else 0) + (if r_model row \<noteq> None then 1 else 0)"

text \<open>The loop: a row replaces the best one only when it is strictly more specific.\<close>

fun best_row :: "lane_key option \<Rightarrow> lane_row list \<Rightarrow> lane_row option \<Rightarrow> int \<Rightarrow> lane_row option" where
  "best_row key [] best n = best"
| "best_row key (row # rows) best n =
     (if row_matches key row \<and> n < specificity row
      then best_row key rows (Some row) (specificity row)
      else best_row key rows best n)"

definition classifyDispatch :: "lane_key option \<Rightarrow> lane_row list \<Rightarrow> lane_error + budget_class" where
  "classifyDispatch key table =
     (if key = None \<and> table \<noteq> [] then throw NoDispatchKey
      else case best_row key table None (-1) of
        None \<Rightarrow> ok Advisory
      | Some best \<Rightarrow>
          if r_class best = Hard \<and> r_evidence best = None then throw (HardWithoutEvidence best)
          else ok (r_class best))"

section \<open>The winning row\<close>

lemma specificity_bounds: "0 \<le> specificity row" "specificity row \<le> 3"
  by (simp_all add: specificity_def)

text \<open>
  The loop's result is the accumulator or a matching row, at least as specific as the accumulator
  and as every matching row it went past.
\<close>

lemma best_row_in:
  "best_row key rows best n = Some b \<Longrightarrow> best = Some b \<or> b \<in> set rows \<and> row_matches key b"
  by (induction key rows best n rule: best_row.induct) (auto split: if_splits)

definition best_ok :: "lane_row option \<Rightarrow> int \<Rightarrow> bool" where
  "best_ok best n = pred_option (\<lambda>a. specificity a = n) best"

lemma best_ok_simps [simp]: "best_ok None n" "best_ok (Some a) n = (specificity a = n)"
  by (simp_all add: best_ok_def)

lemma best_row_ge: "best_ok best n \<Longrightarrow> best_row key rows best n = Some b \<Longrightarrow> n \<le> specificity b"
proof (induction key rows best n rule: best_row.induct)
  case (2 key row rows best n)
  show ?case
  proof (cases "row_matches key row \<and> n < specificity row")
    case True
    from "2.IH"(1) [OF True] "2.prems"(2) True show ?thesis by auto
  next
    case False
    from "2.prems"(2) False have "best_row key rows best n = Some b" by (simp only: best_row.simps if_False)
    with "2.IH"(2) [OF False "2.prems"(1)] show ?thesis by blast
  qed
qed simp

lemma best_row_max:
  "best_ok best n \<Longrightarrow> best_row key rows best n = Some b \<Longrightarrow> row \<in> set rows \<Longrightarrow> row_matches key row
   \<Longrightarrow> specificity row \<le> specificity b"
proof (induction key rows best n rule: best_row.induct)
  case (2 key r rows best n)
  show ?case
  proof (cases "row_matches key r \<and> n < specificity r")
    case True
    from "2.prems"(2) True have b: "best_row key rows (Some r) (specificity r) = Some b"
      by (simp only: best_row.simps if_True simp_thms)
    then have "specificity r \<le> specificity b" by (rule best_row_ge [rotated]) simp
    moreover have "row \<in> set rows \<Longrightarrow> specificity row \<le> specificity b"
      by (rule "2.IH"(1) [OF True _ b _ "2.prems"(4)]) simp_all
    ultimately show ?thesis using "2.prems"(3) by auto
  next
    case False
    from "2.prems"(2) False have b: "best_row key rows best n = Some b"
      by (simp only: best_row.simps if_False)
    have "n \<le> specificity b" using "2.prems"(1) b by (rule best_row_ge)
    moreover have "row \<in> set rows \<Longrightarrow> specificity row \<le> specificity b"
      by (rule "2.IH"(2) [OF False "2.prems"(1) b _ "2.prems"(4)])
    ultimately show ?thesis using "2.prems"(3,4) False by auto
  qed
qed simp

lemma best_row_not_None: "best_row key rows (Some a) n \<noteq> None"
  by (induction key rows "Some a" n arbitrary: a rule: best_row.induct) auto

lemma best_row_None:
  "n < 0 \<Longrightarrow> best_row key rows None n = None \<longleftrightarrow> (\<forall>row \<in> set rows. \<not> row_matches key row)"
proof (induction rows)
  case (Cons r rows)
  moreover have "n < specificity r" using Cons.prems specificity_bounds(1) [of r] by simp
  ultimately show ?case by (simp add: best_row_not_None)
qed simp

lemma best_row_Some:
  assumes "best_row key rows None (-1) = Some b"
  shows "b \<in> set rows" "row_matches key b"
    and "row \<in> set rows \<Longrightarrow> row_matches key row \<Longrightarrow> specificity row \<le> specificity b"
  using best_row_in [OF assms] best_row_max [OF _ assms] by auto

text \<open>A HARD class is always a demonstrated one: the winning row carries its evidence.\<close>

lemma classifyDispatch_Hard:
  assumes "classifyDispatch key table = ok Hard"
  shows "\<exists>row \<in> set table. row_matches key row \<and> r_class row = Hard \<and> r_evidence row \<noteq> None
           \<and> (\<forall>row' \<in> set table. row_matches key row' \<longrightarrow> specificity row' \<le> specificity row)"
  using assms best_row_Some [of key table]
  by (auto simp: classifyDispatch_def split: if_splits option.splits)

lemma classifyDispatch_shipped [simp]: "classifyDispatch key LANE_CLASSIFICATION = ok Advisory"
  by (simp add: classifyDispatch_def LANE_CLASSIFICATION_def)

section \<open>Property\<close>

text \<open>HARD is demonstrated, never declared: a dispatch classified HARD has a matching row that
  carries evidence and is the most specific match; a table is refused exactly when there is no key
  for its rows or when its most specific match claims HARD without evidence.\<close>

lemma hard_is_demonstrated:
  "(classifyDispatch key table = ok Hard \<longrightarrow>
      (\<exists>row \<in> set table. row_matches key row \<and> r_class row = Hard \<and> r_evidence row \<noteq> None
         \<and> (\<forall>row' \<in> set table. row_matches key row' \<longrightarrow> specificity row' \<le> specificity row)))
   \<and> ((\<exists>e. classifyDispatch key table = throw e) \<longleftrightarrow>
      key = None \<and> table \<noteq> []
      \<or> (\<exists>row. best_row key table None (-1) = Some row \<and> r_class row = Hard \<and> r_evidence row = None))"
proof (intro conjI impI)
  assume "classifyDispatch key table = ok Hard"
  then show "\<exists>row \<in> set table. row_matches key row \<and> r_class row = Hard \<and> r_evidence row \<noteq> None
      \<and> (\<forall>row' \<in> set table. row_matches key row' \<longrightarrow> specificity row' \<le> specificity row)"
    by (rule classifyDispatch_Hard)
qed (auto simp: classifyDispatch_def split: option.splits)

end
