(* ===== verification/Slot_Pool.thy ===== *)
theory Slot_Pool
  imports Cq_Prelude
begin

text \<open>
  The in-flight ceiling of \<open>src/kernel/governor.ts\<close>: \<open>SlotPool\<close> and the governor's
  \<open>acquireSlot\<close>/\<open>releaseSlot\<close>. A promise the code leaves pending is the waiter's ticket in
  \<open>sp_waiters\<close>; resolving it is the ticket \<open>release\<close> returns. The pool is verified through the
  interface of a FIFO admission line: tickets are served in arrival order and at most \<open>limit\<close> are
  served at a time.
\<close>

section \<open>The pool\<close>

record 't slot_pool =
  sp_limit :: int
  sp_active :: int
  sp_waiters :: "'t list"

definition new_pool :: "int \<Rightarrow> 't slot_pool" where
  "new_pool limit = \<lparr>sp_limit = limit, sp_active = 0, sp_waiters = []\<rparr>"

datatype acquired = Acquired | Parked

definition acquire :: "'t \<Rightarrow> 't slot_pool \<Rightarrow> 't slot_pool \<times> acquired" where
  "acquire t p =
     (if sp_active p < sp_limit p then (p\<lparr>sp_active := sp_active p + 1\<rparr>, Acquired)
      else (p\<lparr>sp_waiters := sp_waiters p @ [t]\<rparr>, Parked))"

fun release :: "'t slot_pool \<Rightarrow> 't slot_pool \<times> 't option" where
  "release p =
     (case sp_waiters p of
        next # rest \<Rightarrow> (p\<lparr>sp_waiters := rest\<rparr>, Some next)
      | [] \<Rightarrow> (p\<lparr>sp_active := sp_active p - 1\<rparr>, None))"

text \<open>The governor's wrappers: without a ceiling a slot is always free.\<close>

definition acquireSlot :: "'t \<Rightarrow> 't slot_pool option \<Rightarrow> 't slot_pool option \<times> acquired" where
  "acquireSlot t slots =
     (case slots of None \<Rightarrow> (None, Acquired)
      | Some p \<Rightarrow> (let (p', a) = acquire t p in (Some p', a)))"

definition releaseSlot :: "'t slot_pool option \<Rightarrow> 't slot_pool option \<times> 't option" where
  "releaseSlot slots =
     (case slots of None \<Rightarrow> (None, None)
      | Some p \<Rightarrow> (let (p', n) = release p in (Some p', n)))"

section \<open>The pool with its users\<close>

text \<open>
  \<open>us_holding\<close> lists the tickets that hold a slot, \<open>us_served\<close> all tickets that were ever given
  one, in that order, and \<open>us_arrived\<close> all tickets that asked, in order of arrival. A ticket asks
  once; only a holder releases.
\<close>

record 't pool_use =
  us_pool :: "'t slot_pool"
  us_holding :: "'t list"
  us_served :: "'t list"
  us_arrived :: "'t list"

definition serve :: "'t \<Rightarrow> 't pool_use \<Rightarrow> 't pool_use" where
  "serve t u = u\<lparr>us_holding := us_holding u @ [t], us_served := us_served u @ [t]\<rparr>"

definition use_acquire :: "'t \<Rightarrow> 't pool_use \<Rightarrow> 't pool_use" where
  "use_acquire t u =
     (let (p, a) = acquire t (us_pool u);
          u' = u\<lparr>us_pool := p, us_arrived := us_arrived u @ [t]\<rparr>
      in case a of Acquired \<Rightarrow> serve t u' | Parked \<Rightarrow> u')"

definition use_release :: "'t \<Rightarrow> 't pool_use \<Rightarrow> 't pool_use" where
  "use_release t u =
     (let (p, n) = release (us_pool u);
          u' = u\<lparr>us_pool := p, us_holding := remove1 t (us_holding u)\<rparr>
      in case n of None \<Rightarrow> u' | Some t' \<Rightarrow> serve t' u')"

inductive pool_step :: "'t pool_use \<Rightarrow> 't pool_use \<Rightarrow> bool" where
  pool_acquire: "t \<notin> set (us_arrived u) \<Longrightarrow> pool_step u (use_acquire t u)"
| pool_release: "t \<in> set (us_holding u) \<Longrightarrow> pool_step u (use_release t u)"

inductive_cases pool_stepE: "pool_step u v"

definition pool_init :: "int \<Rightarrow> 't pool_use \<Rightarrow> bool" where
  "pool_init limit u \<longleftrightarrow> 0 \<le> limit \<and> u = \<lparr>us_pool = new_pool limit, us_holding = [], us_served = [], us_arrived = []\<rparr>"

definition pool_inv :: "int \<Rightarrow> 't pool_use \<Rightarrow> bool" where
  "pool_inv limit u \<longleftrightarrow>
     sp_limit (us_pool u) = limit
     \<and> int (length (us_holding u)) = sp_active (us_pool u)
     \<and> sp_active (us_pool u) \<le> limit
     \<and> (sp_waiters (us_pool u) \<noteq> [] \<longrightarrow> sp_active (us_pool u) = limit)
     \<and> us_arrived u = us_served u @ sp_waiters (us_pool u)
     \<and> distinct (us_arrived u)
     \<and> set (us_holding u) \<subseteq> set (us_served u)"

lemma pool_inv_acquire: "pool_inv l u \<Longrightarrow> t \<notin> set (us_arrived u) \<Longrightarrow> pool_inv l (use_acquire t u)"
  by (auto simp: pool_inv_def use_acquire_def acquire_def serve_def)

lemma pool_inv_release:
  assumes inv: "pool_inv l u" and t: "t \<in> set (us_holding u)"
  shows "pool_inv l (use_release t u)"
proof -
  have "int (length (remove1 t (us_holding u))) = int (length (us_holding u)) - 1"
    using t length_pos_if_in_set [OF t] by (simp add: length_remove1 of_nat_diff Suc_le_eq)
  with inv set_remove1_subset [of t "us_holding u"] show ?thesis
    by (cases "sp_waiters (us_pool u)") (auto simp: pool_inv_def use_release_def serve_def)
qed

interpretation pool: invariant_system "pool_init l" pool_step "pool_inv l" for l
proof
  show "pool_inv l u" if "pool_init l u" for u
    using that by (simp add: pool_init_def pool_inv_def new_pool_def)
  show "pool_inv l v" if "pool_inv l u" "pool_step u v" for u v
    using that(2,1) by (cases rule: pool_step.cases) (auto intro: pool_inv_acquire pool_inv_release)
qed

section \<open>The admission-line interface\<close>

text \<open>
  What a user of the ceiling relies on: tickets are served in the order they arrived, never more
  than \<open>limit\<close> at once, and nobody waits while a slot is free.
\<close>

locale admission_line =
  fixes reachable :: "'s \<Rightarrow> bool" and arrived served :: "'s \<Rightarrow> 't list" and holding :: "'s \<Rightarrow> 't list"
    and limit :: int
  assumes served_prefix: "reachable s \<Longrightarrow> \<exists>w. arrived s = served s @ w"
    and within_limit: "reachable s \<Longrightarrow> int (length (holding s)) \<le> limit"
    and work_conserving: "reachable s \<Longrightarrow> int (length (holding s)) < limit \<Longrightarrow> arrived s = served s"
    and arrived_distinct: "reachable s \<Longrightarrow> distinct (arrived s)"
begin

lemma no_overtaking:
  assumes "reachable s" "i < j" "j < length (arrived s)" "arrived s ! j \<in> set (served s)"
  shows "arrived s ! i \<in> set (served s)"
proof -
  obtain w where w: "arrived s = served s @ w" using served_prefix [OF assms(1)] by blast
  have "j < length (served s)"
  proof (rule ccontr)
    assume "\<not> j < length (served s)"
    with w assms(3) have "arrived s ! j \<in> set w" by (simp add: nth_append)
    with w assms(1,4) arrived_distinct show False by fastforce
  qed
  with assms(2) w show ?thesis by (simp add: nth_append)
qed

lemma idle_slot_means_served:
  "reachable s \<Longrightarrow> int (length (holding s)) < limit \<Longrightarrow> t \<in> set (arrived s) \<Longrightarrow> t \<in> set (served s)"
  using work_conserving by fastforce

end

interpretation slots: admission_line "reach (pool_init l) pool_step" us_arrived us_served us_holding l for l
proof
  fix u :: "'a pool_use"
  assume "reach (pool_init l) pool_step u"
  then have inv: "pool_inv l u" by (rule pool.reach_inv)
  then show "\<exists>w. us_arrived u = us_served u @ w" "int (length (us_holding u)) \<le> l" "distinct (us_arrived u)"
    by (auto simp: pool_inv_def)
  show "us_arrived u = us_served u" if "int (length (us_holding u)) < l"
    using inv that by (auto simp: pool_inv_def)
qed

section \<open>Property\<close>

text \<open>The in-flight ceiling, however acquires and releases interleave: never more than the limit
  hold a slot, tickets are served in the order they asked, and nobody waits while a slot is free.\<close>

lemma ceiling_fifo:
  assumes "reach (pool_init l) pool_step u"
  shows "int (length (us_holding u)) \<le> l
    \<and> (\<forall>i j. i < j \<and> j < length (us_arrived u) \<and> us_arrived u ! j \<in> set (us_served u)
         \<longrightarrow> us_arrived u ! i \<in> set (us_served u))
    \<and> (int (length (us_holding u)) < l \<longrightarrow> set (us_arrived u) = set (us_served u))"
  using slots.within_limit [OF assms] slots.no_overtaking [OF assms] slots.work_conserving [OF assms]
  by auto

definition demo_pool :: "nat pool_use" where
  "demo_pool = use_release 1 (use_acquire 3 (use_acquire 2 (use_acquire 1
     \<lparr>us_pool = new_pool 1, us_holding = [], us_served = [], us_arrived = []\<rparr>)))"

end
