(* ===== verification/Fold_Order.thy ===== *)
theory Fold_Order
  imports Run_Log
begin

text \<open>
  The order in which a plan's prior runs enter the resume fold (\<open>src/kernel/journal.ts\<close>):
  \<open>foldOrderRuns\<close> with its corruption checks, \<open>claimSeq\<close> (a run's ordinal is claimed by exclusive
  create) and \<open>assertNoSeqGap\<close>. The order is stated as one linear order on keys, and the routine is
  shown to sort by it.
\<close>

section \<open>Keys\<close>

text \<open>Legacy (v1) runs come first, by start time then run id; sequenced runs follow, by ordinal.\<close>

datatype fold_key = LegacyKey string run_id | SeqKey nat

instantiation fold_key :: linorder
begin

fun less_eq_fold_key :: "fold_key \<Rightarrow> fold_key \<Rightarrow> bool" where
  "less_eq_fold_key (LegacyKey a r) (LegacyKey b s) = (a < b \<or> a = b \<and> r \<le> s)"
| "less_eq_fold_key (LegacyKey a r) (SeqKey n) = True"
| "less_eq_fold_key (SeqKey m) (LegacyKey b s) = False"
| "less_eq_fold_key (SeqKey m) (SeqKey n) = (m \<le> n)"

definition less_fold_key :: "fold_key \<Rightarrow> fold_key \<Rightarrow> bool" where
  "less_fold_key x y = (x \<le> y \<and> \<not> y \<le> x)"

instance
proof
  fix x y z :: fold_key
  show "x < y \<longleftrightarrow> x \<le> y \<and> \<not> y \<le> x" by (rule less_fold_key_def)
  show "x \<le> x" by (cases x) auto
  show "x \<le> y \<or> y \<le> x" by (cases x; cases y) auto
  show "x \<le> z" if "x \<le> y" "y \<le> z" using that by (cases x; cases y; cases z) auto
  show "x = y" if "x \<le> y" "y \<le> x" using that by (cases x; cases y) auto
qed

end

section \<open>Classification\<close>

record fold_run =
  fr_run :: run_id
  fr_events :: "journal_event list"

datatype fold_error =
    NoRunStarted run_id
  | EventCountMismatch run_id nat nat
  | NoSeq nat run_id plan_id
  | UnsupportedVersion run_id plan_id nat
  | DuplicateSeq nat run_id run_id

fun find_started :: "journal_event list \<Rightarrow> run_started option" where
  "find_started [] = None"
| "find_started (Run_Started s # es) = Some s"
| "find_started (_ # es) = find_started es"

fun find_finished :: "journal_event list \<Rightarrow> run_finished option" where
  "find_finished [] = None"
| "find_finished (Run_Finished f # es) = Some f"
| "find_finished (_ # es) = find_finished es"

definition event_count_of :: "fold_run \<Rightarrow> nat option" where
  "event_count_of r = Option.bind (find_finished (fr_events r)) rf_eventCount"

text \<open>One turn of the classification loop: the key under which the run is filed.\<close>

definition key_of_run :: "fold_run \<Rightarrow> fold_error + fold_key" where
  "key_of_run r =
     (case find_started (fr_events r) of
        None \<Rightarrow> throw (NoRunStarted (fr_run r))
      | Some s \<Rightarrow>
          if (case event_count_of r of None \<Rightarrow> False | Some n \<Rightarrow> n \<noteq> length (fr_events r))
          then throw (EventCountMismatch (fr_run r) (the (event_count_of r)) (length (fr_events r)))
          else (case rs_version s of
                  None \<Rightarrow> ok (LegacyKey (rs_at s) (fr_run r))
                | Some v \<Rightarrow>
                    if v = 2 \<or> v = 3
                    then (case rs_seq s of
                            None \<Rightarrow> throw (NoSeq v (fr_run r) (rs_plan s))
                          | Some n \<Rightarrow> ok (SeqKey n))
                    else throw (UnsupportedVersion (fr_run r) (rs_plan s) v)))"

fun classify_runs :: "fold_run list \<Rightarrow> (fold_run \<times> string) list \<Rightarrow> (fold_run \<times> nat) list
    \<Rightarrow> fold_error + (fold_run \<times> string) list \<times> (fold_run \<times> nat) list" where
  "classify_runs [] v1 v2 = ok (v1, v2)"
| "classify_runs (r # rs) v1 v2 =
     bind_result (key_of_run r) (\<lambda>k. case k of
         LegacyKey a _ \<Rightarrow> classify_runs rs (v1 @ [(r, a)]) v2
       | SeqKey n \<Rightarrow> classify_runs rs v1 (v2 @ [(r, n)]))"

fun check_dups :: "(fold_run \<times> nat) option \<Rightarrow> (fold_run \<times> nat) list \<Rightarrow> fold_error + unit" where
  "check_dups previous [] = ok ()"
| "check_dups previous ((r, n) # es) =
     (case previous of
        Some (p, m) \<Rightarrow> if n = m then throw (DuplicateSeq n (fr_run p) (fr_run r)) else check_dups (Some (r, n)) es
      | None \<Rightarrow> check_dups (Some (r, n)) es)"

definition foldOrderRuns :: "fold_run list \<Rightarrow> fold_error + fold_run list" where
  "foldOrderRuns runs =
     bind_result (classify_runs runs [] []) (\<lambda>(v1, v2).
       let v1' = sort_key (\<lambda>(r, a). LegacyKey a (fr_run r)) v1;
           v2' = sort_key snd v2
       in bind_result (check_dups None v2') (\<lambda>_. ok (map fst v1' @ map fst v2')))"

section \<open>Sorting\<close>

lemma sort_key_map: "sort_key f (map g xs) = map g (sort_key (\<lambda>x. f (g x)) xs)"
proof (induction xs)
  case (Cons x xs)
  have "insort_key f (g x) (map g ys) = map g (insort_key (\<lambda>x. f (g x)) x ys)" for ys by (induction ys) auto
  with Cons show ?case by simp
qed simp

text \<open>Only the comparisons a key gives matter.\<close>

lemma sort_key_order_cong:
  assumes "\<And>x y. x \<in> set xs \<Longrightarrow> y \<in> set xs \<Longrightarrow> f x \<le> f y \<longleftrightarrow> g x \<le> g y"
  shows "sort_key f xs = sort_key g xs"
  using assms
proof (induction xs)
  case (Cons x xs)
  have "insort_key f x ys = insort_key g x ys" if "set ys \<subseteq> set xs" for ys
    using that Cons.prems by (induction ys) auto
  with Cons show ?case by simp
qed simp

lemma insort_key_front: "\<forall>b \<in> set B. f x \<le> f b \<Longrightarrow> insort_key f x (A @ B) = insort_key f x A @ B"
  by (induction A) (auto, cases B, auto)

lemma insort_key_back: "\<forall>a \<in> set A. f a < f x \<Longrightarrow> insort_key f x (A @ B) = A @ insort_key f x B"
  by (induction A) (auto simp: leD)

text \<open>When one group of elements is below the rest, sorting sorts the groups one after the other.\<close>

lemma sort_key_split:
  assumes "\<And>x y. x \<in> set xs \<Longrightarrow> y \<in> set xs \<Longrightarrow> P x \<Longrightarrow> \<not> P y \<Longrightarrow> f x < f y"
  shows "sort_key f xs = sort_key f (filter P xs) @ sort_key f (filter (\<lambda>x. \<not> P x) xs)"
  using assms
proof (induction xs)
  case (Cons x xs)
  then have IH: "sort_key f xs = sort_key f (filter P xs) @ sort_key f (filter (\<lambda>x. \<not> P x) xs)" by simp
  show ?case
  proof (cases "P x")
    case True
    then show ?thesis using IH Cons.prems by (auto intro!: insort_key_front less_imp_le)
  next
    case False
    then show ?thesis using IH Cons.prems by (auto intro!: insort_key_back)
  qed
qed simp

section \<open>The fold order as one sort\<close>

definition run_key :: "fold_run \<Rightarrow> fold_key" where
  "run_key r = (case key_of_run r of Inl _ \<Rightarrow> SeqKey 0 | Inr k \<Rightarrow> k)"

fun is_legacy :: "fold_key \<Rightarrow> bool" where
  "is_legacy (LegacyKey _ _) = True"
| "is_legacy (SeqKey _) = False"

fun key_at :: "fold_key \<Rightarrow> string" where
  "key_at (LegacyKey a _) = a"
| "key_at (SeqKey _) = []"

fun key_seq :: "fold_key \<Rightarrow> nat" where
  "key_seq (LegacyKey _ _) = 0"
| "key_seq (SeqKey n) = n"

definition orderable :: "fold_run list \<Rightarrow> bool" where
  "orderable runs \<longleftrightarrow> (\<forall>r \<in> set runs. is_ok (key_of_run r))
     \<and> distinct (map (key_seq \<circ> run_key) (filter (\<lambda>r. \<not> is_legacy (run_key r)) runs))"

lemma legacy_key: "key_of_run r = ok (LegacyKey a i) \<Longrightarrow> i = fr_run r"
  by (auto simp: key_of_run_def split: option.splits if_splits)

lemma legacy_less: "is_legacy x \<Longrightarrow> \<not> is_legacy y \<Longrightarrow> x < y"
  by (cases x; cases y) (simp_all add: less_fold_key_def)

lemma seq_key_le: "\<not> is_legacy x \<Longrightarrow> \<not> is_legacy y \<Longrightarrow> key_seq x \<le> key_seq y \<longleftrightarrow> x \<le> y"
  by (cases x; cases y) simp_all

lemma is_ok_iff: "is_ok r \<longleftrightarrow> (\<exists>x. r = ok x)"
  by (cases r) auto

lemma classify_runs_ok:
  "classify_runs rs v1 v2 = ok (a, b) \<longleftrightarrow> (\<forall>r \<in> set rs. is_ok (key_of_run r))
     \<and> a = v1 @ map (\<lambda>r. (r, key_at (run_key r))) (filter (\<lambda>r. is_legacy (run_key r)) rs)
     \<and> b = v2 @ map (\<lambda>r. (r, key_seq (run_key r))) (filter (\<lambda>r. \<not> is_legacy (run_key r)) rs)"
proof (induction rs v1 v2 rule: classify_runs.induct)
  case (2 r rs v1 v2)
  show ?case
  proof (cases "key_of_run r")
    case (Inr k)
    with 2 show ?thesis by (cases k) (auto simp: run_key_def)
  qed simp
qed auto

lemma check_dups_ok:
  "sorted (map snd xs) \<Longrightarrow> pred_option (\<lambda>(p, m). \<forall>e \<in> set xs. m \<le> snd e) prev
   \<Longrightarrow> check_dups prev xs = ok () \<longleftrightarrow>
     distinct (map snd xs) \<and> pred_option (\<lambda>(p, m). \<forall>e \<in> set xs. snd e \<noteq> m) prev"
proof (induction xs arbitrary: prev)
  case (Cons x es)
  obtain r n where x: "x = (r, n)" by (cases x)
  have IH: "check_dups (Some (r, n)) es = ok () \<longleftrightarrow> distinct (map snd es) \<and> (\<forall>e \<in> set es. snd e \<noteq> n)"
    using Cons.IH [of "Some (r, n)"] Cons.prems(1) x by simp
  show ?case
  proof (cases prev)
    case None
    with IH x show ?thesis by (auto simp: image_iff)
  next
    case (Some pm)
    obtain p m where pm: "pm = (p, m)" by (cases pm)
    have "m < n \<Longrightarrow> \<forall>e \<in> set es. snd e \<noteq> m" using Cons.prems(1) x by fastforce
    with IH x Some pm Cons.prems(2) show ?thesis by (cases "n = m") (auto simp: image_iff)
  qed
qed (auto split: option.splits)

lemma foldOrderRuns_iff:
  "foldOrderRuns runs = ok rs \<longleftrightarrow> orderable runs \<and> rs = sort_key run_key runs"
proof (cases "\<forall>r \<in> set runs. is_ok (key_of_run r)")
  case True
  let ?L = "filter (\<lambda>r. is_legacy (run_key r)) runs" and ?S = "filter (\<lambda>r. \<not> is_legacy (run_key r)) runs"
  have c: "classify_runs runs [] [] =
      ok (map (\<lambda>r. (r, key_at (run_key r))) ?L, map (\<lambda>r. (r, key_seq (run_key r))) ?S)"
    using True by (simp add: classify_runs_ok)
  have leg: "LegacyKey (key_at (run_key r)) (fr_run r) = run_key r" if "r \<in> set ?L" for r
    using that True legacy_key [of r] by (cases "run_key r") (auto simp: run_key_def is_ok_iff)
  have "sort_key (\<lambda>r. LegacyKey (key_at (run_key r)) (fr_run r)) ?L = sort_key run_key ?L"
    by (intro sort_key_order_cong) (simp only: leg)
  then have L: "map fst (sort_key (\<lambda>(r, a). LegacyKey a (fr_run r)) (map (\<lambda>r. (r, key_at (run_key r))) ?L))
      = sort_key run_key ?L"
    by (simp add: sort_key_map comp_def)
  have "sort_key (\<lambda>r. key_seq (run_key r)) ?S = sort_key run_key ?S"
    by (intro sort_key_order_cong) (auto simp: seq_key_le)
  then have S: "sort_key snd (map (\<lambda>r. (r, key_seq (run_key r))) ?S)
      = map (\<lambda>r. (r, key_seq (run_key r))) (sort_key run_key ?S)"
    by (simp add: sort_key_map)
  have sp: "sort_key run_key runs = sort_key run_key ?L @ sort_key run_key ?S"
    by (intro sort_key_split legacy_less)
  let ?s = "map (\<lambda>r. (r, key_seq (run_key r))) (sort_key run_key ?S)"
  have "sorted (map snd ?s)" unfolding S [symmetric] by (rule sorted_sort_key)
  then have "check_dups None ?s = ok () \<longleftrightarrow> distinct (map snd ?s)" by (simp add: check_dups_ok)
  moreover have "distinct (map snd ?s) \<longleftrightarrow> distinct (map (key_seq \<circ> run_key) ?S)"
    by (rule mset_eq_imp_distinct_iff) (simp add: comp_def)
  ultimately show ?thesis
    using True by (auto simp: foldOrderRuns_def c L S sp orderable_def bind_result_eq_Inr comp_def)
next
  case False
  then show ?thesis
    by (cases "classify_runs runs [] []") (auto simp: foldOrderRuns_def orderable_def classify_runs_ok)
qed

lemma run_key_inj:
  assumes "orderable runs" "distinct (map fr_run runs)"
  shows "inj_on run_key (set runs)"
proof (rule inj_onI)
  fix x y assume xy: "x \<in> set runs" "y \<in> set runs" "run_key x = run_key y"
  then obtain k where k: "key_of_run x = ok k" "key_of_run y = ok k"
    using assms(1) by (auto simp: orderable_def is_ok_iff run_key_def split: sum.splits)
  show "x = y"
  proof (cases k)
    case (LegacyKey a i)
    then have "fr_run x = fr_run y" using k legacy_key by metis
    with xy(1,2) assms(2) show ?thesis by (simp add: distinct_map inj_on_def)
  next
    case (SeqKey n)
    then have "x \<in> set (filter (\<lambda>r. \<not> is_legacy (run_key r)) runs)"
      "y \<in> set (filter (\<lambda>r. \<not> is_legacy (run_key r)) runs)"
      using xy k by (simp_all add: run_key_def)
    moreover have "inj_on (key_seq \<circ> run_key) (set (filter (\<lambda>r. \<not> is_legacy (run_key r)) runs))"
      using assms(1) by (simp add: orderable_def distinct_map)
    ultimately show ?thesis using xy(3) inj_onD [of "key_seq \<circ> run_key" _ x y] by simp
  qed
qed

section \<open>Claiming an ordinal\<close>

text \<open>
  The journal directory is the list of its names; the tombstone of an ordinal is \<open>planId.seq.n\<close>. The
  turns of the loop are a function of their own, so that the calls of several processes interleave.
\<close>

datatype claim_error = BadStart jsnum | ClaimExhausted plan_id nat

definition CLAIM_ATTEMPTS :: nat where "CLAIM_ATTEMPTS = 10000"

definition tombstone :: "plan_id \<Rightarrow> nat \<Rightarrow> string" where
  "tombstone planId n = planId @ ''.seq.'' @ nat_str n"

text \<open>The state of one call of \<open>claimSeq\<close>: trying the next ordinal with \<open>k\<close> attempts left, or ended.\<close>

datatype claimer = Trying nat nat nat | Claimed nat | GaveUp claim_error

text \<open>\<open>open(name, 'wx')\<close>: \<open>None\<close> is \<open>EEXIST\<close>.\<close>

definition create_exclusive :: "string \<Rightarrow> string list \<Rightarrow> string list option" where
  "create_exclusive name names = (if name \<in> set names then None else Some (names @ [name]))"

text \<open>One turn of the loop of \<open>claimSeq\<close>.\<close>

fun claim_turn :: "plan_id \<Rightarrow> claimer \<Rightarrow> string list \<Rightarrow> claimer \<times> string list" where
  "claim_turn planId (Trying start n 0) names = (GaveUp (ClaimExhausted planId start), names)"
| "claim_turn planId (Trying start n (Suc k)) names =
     (case create_exclusive (tombstone planId n) names of
        None \<Rightarrow> (Trying start (n + 1) k, names)
      | Some names' \<Rightarrow> (Claimed n, names'))"
| "claim_turn planId c names = (c, names)"

fun turns_left :: "claimer \<Rightarrow> nat" where
  "turns_left (Trying _ _ k) = Suc k"
| "turns_left _ = 0"

lemma claim_turn_less: "(c, names') = claim_turn p (Trying start n k) names \<Longrightarrow> turns_left c < Suc k"
  by (cases k) (auto split: option.splits)

function claim_loop :: "plan_id \<Rightarrow> claimer \<Rightarrow> string list \<Rightarrow> claim_error + nat \<times> string list" where
  "claim_loop planId (Claimed n) names = ok (n, names)"
| "claim_loop planId (GaveUp e) names = throw e"
| "claim_loop planId (Trying start n k) names =
     (case claim_turn planId (Trying start n k) names of (c, names') \<Rightarrow> claim_loop planId c names')"
  by pat_completeness auto
termination
  apply (relation "measure (\<lambda>(_, c, _). turns_left c)")
   apply simp
  apply (drule claim_turn_less)
  apply (simp only: in_measure prod.case turns_left.simps)
  done

definition claim_start :: "jsnum \<Rightarrow> claimer" where
  "claim_start startAt =
     (if \<not> js_is_integer startAt \<or> js_lt startAt 1 then GaveUp (BadStart startAt)
      else (let s = nat \<lfloor>fin_val startAt\<rfloor> in Trying s s CLAIM_ATTEMPTS))"

definition claimSeq :: "plan_id \<Rightarrow> jsnum \<Rightarrow> string list \<Rightarrow> claim_error + nat \<times> string list" where
  "claimSeq planId startAt names = claim_loop planId (claim_start startAt) names"

text \<open>\<open>Number\<close> of the name's tail is a parameter; the highest ordinal with a tombstone is compared.\<close>

definition max_tombstone :: "(string \<Rightarrow> jsnum) \<Rightarrow> plan_id \<Rightarrow> string list \<Rightarrow> int" where
  "max_tombstone number planId names =
     fold (\<lambda>name m. if take (length planId + 5) name = planId @ ''.seq.''
                   then (let ord = number (drop (length planId + 5) name)
                         in if js_is_integer ord \<and> m < \<lfloor>fin_val ord\<rfloor> then \<lfloor>fin_val ord\<rfloor> else m)
                   else m) names 0"

definition assertNoSeqGap :: "(string \<Rightarrow> jsnum) \<Rightarrow> plan_id \<Rightarrow> string list \<Rightarrow> nat \<Rightarrow> int + unit" where
  "assertNoSeqGap number planId names maxFolded =
     (if max_tombstone number planId names > int maxFolded
      then throw (max_tombstone number planId names) else ok ())"

lemma tombstone_inj [simp]: "tombstone p m = tombstone p n \<longleftrightarrow> m = n"
  by (simp add: tombstone_def)

lemma claim_loop_simps [simp]:
  "claim_loop p (Trying start n 0) names = throw (ClaimExhausted p start)"
  "claim_loop p (Trying start n (Suc k)) names =
     (if tombstone p n \<in> set names then claim_loop p (Trying start (n + 1) k) names
      else ok (n, names @ [tombstone p n]))"
  by (simp_all add: create_exclusive_def)

declare claim_loop.simps(3) [simp del]

lemma claim_loop_ok:
  "claim_loop p (Trying s n k) names = ok (m, names') \<longleftrightarrow>
     n \<le> m \<and> m < n + k \<and> tombstone p m \<notin> set names \<and> (\<forall>i. n \<le> i \<and> i < m \<longrightarrow> tombstone p i \<in> set names)
     \<and> names' = names @ [tombstone p m]"
proof (induction k arbitrary: n)
  case (Suc k)
  show ?case
  proof (cases "tombstone p n \<in> set names")
    case True
    then show ?thesis using Suc [of "n + 1"]
      by (auto simp: Suc_le_eq) (metis le_neq_implies_less Suc_leI)+
  next
    case False
    then show ?thesis by (auto simp: not_less le_less)
  qed
qed auto

lemma claim_loop_error: "claim_loop p (Trying s n k) names = throw e \<longleftrightarrow>
    e = ClaimExhausted p s \<and> (\<forall>i. n \<le> i \<and> i < n + k \<longrightarrow> tombstone p i \<in> set names)"
proof (induction k arbitrary: n)
  case (Suc k)
  show ?case
  proof (cases "tombstone p n \<in> set names")
    case True
    then show ?thesis using Suc [of "n + 1"]
      by (auto simp: Suc_le_eq) (metis le_neq_implies_less Suc_leI)+
  next
    case False
    then show ?thesis by auto
  qed
qed auto

section \<open>Contenders\<close>

text \<open>
  Several processes call \<open>claimSeq\<close> for one plan at the same time: each turn of a call's loop is a
  step. Other files may appear in the directory, an exclusive create may fail for another reason (the
  call throws), and any file may be deleted, as the message of \<open>assertNoSeqGap\<close> asks the operator to do
  with an orphaned tombstone; \<open>cn_removed\<close> records which names were.
\<close>

record contention =
  cn_names :: "string list"
  cn_claimers :: "nat \<Rightarrow> claimer option"
  cn_removed :: "string set"

inductive claim_step :: "plan_id \<Rightarrow> contention \<Rightarrow> contention \<Rightarrow> bool" for p where
  claim_begins: "cn_claimers s c = None
    \<Longrightarrow> claim_step p s (s\<lparr>cn_claimers := (cn_claimers s)(c \<mapsto> claim_start startAt)\<rparr>)"
| claim_turns: "cn_claimers s c = Some (Trying start n k) \<Longrightarrow> claim_turn p (Trying start n k) (cn_names s) = (x, names)
    \<Longrightarrow> claim_step p s (s\<lparr>cn_names := names, cn_claimers := (cn_claimers s)(c \<mapsto> x)\<rparr>)"
| claim_throws: "cn_claimers s c = Some (Trying start n k)
    \<Longrightarrow> claim_step p s (s\<lparr>cn_claimers := (cn_claimers s)(c := None)\<rparr>)"
| claim_foreign: "claim_step p s (s\<lparr>cn_names := cn_names s @ [x]\<rparr>)"
| claim_delete: "claim_step p s (s\<lparr>cn_names := filter (\<lambda>y. y \<noteq> x) (cn_names s), cn_removed := insert x (cn_removed s)\<rparr>)"

inductive_cases claim_stepE: "claim_step p s t"

definition claim_init :: "contention \<Rightarrow> bool" where
  "claim_init s \<longleftrightarrow> cn_claimers s = (\<lambda>_. None)"

definition claim_inv :: "plan_id \<Rightarrow> contention \<Rightarrow> bool" where
  "claim_inv p s \<longleftrightarrow> (\<forall>c n. cn_claimers s c = Some (Claimed n) \<longrightarrow> tombstone p n \<notin> cn_removed s \<longrightarrow>
     tombstone p n \<in> set (cn_names s) \<and> (\<forall>d. cn_claimers s d = Some (Claimed n) \<longrightarrow> c = d))"

lemma claim_start_not_claimed [simp]: "claim_start a \<noteq> Claimed n" "Claimed n \<noteq> claim_start a"
  by (simp_all add: claim_start_def Let_def)

text \<open>A turn wins only an ordinal whose tombstone it creates.\<close>

lemma claim_turn_cases:
  assumes "claim_turn p (Trying start n k) names = (x, names')"
  shows "names' = names \<and> (\<forall>m. x \<noteq> Claimed m)
     \<or> x = Claimed n \<and> tombstone p n \<notin> set names \<and> names' = names @ [tombstone p n]"
  using assms by (cases k) (auto simp: create_exclusive_def split: if_splits)

lemma claim_inv_turn:
  assumes "claim_inv p s" "claim_turn p (Trying start n k) (cn_names s) = (x, names)"
    "cn_claimers s c = Some (Trying start n k)"
  shows "claim_inv p (s\<lparr>cn_names := names, cn_claimers := (cn_claimers s)(c \<mapsto> x)\<rparr>)"
  using claim_turn_cases [OF assms(2)]
proof (elim disjE conjE)
  assume "names = cn_names s" "\<forall>m. x \<noteq> Claimed m"
  then show ?thesis using assms(1) by (simp add: claim_inv_def)
next
  assume x: "x = Claimed n" "tombstone p n \<notin> set (cn_names s)" "names = cn_names s @ [tombstone p n]"
  have "cn_claimers s d \<noteq> Some (Claimed n)" if "tombstone p n \<notin> cn_removed s" for d
    using assms(1) that x(2) by (auto simp: claim_inv_def)
  then show ?thesis using assms(1) x by (auto simp: claim_inv_def)
qed

interpretation claims: invariant_system claim_init "claim_step p" "claim_inv p" for p
proof
  show "claim_inv p s" if "claim_init s" for s
    using that by (simp add: claim_inv_def claim_init_def)
  show "claim_inv p t" if "claim_inv p s" "claim_step p s t" for s t
    using that(2,1)
  proof (cases rule: claim_step.cases)
    case (claim_turns c start n k x names)
    then show ?thesis using claim_inv_turn that(1) by blast
  qed (auto simp: claim_inv_def)
qed

section \<open>Properties\<close>

text \<open>C38 The fold order is one sort: the routine that files runs by era, sorts each era and checks
  for duplicates succeeds exactly when every run can be filed and no ordinal is used twice, and it
  then returns the runs sorted by the linear order on keys (legacy runs by time and id, all before
  the sequenced runs by ordinal).\<close>

theorem fold_order_is_sort:
  "foldOrderRuns runs = ok rs \<longleftrightarrow> orderable runs \<and> rs = sort_key run_key runs"
  by (rule foldOrderRuns_iff)

text \<open>The fold order does not depend on the order in which the run files were listed.\<close>

lemma fold_order_stable:
  assumes "foldOrderRuns runs = ok rs" "mset runs = mset runs'" "distinct (map fr_run runs)"
  shows "foldOrderRuns runs' = ok rs"
proof -
  have o: "orderable runs" "rs = sort_key run_key runs"
    using assms(1) by (simp_all add: foldOrderRuns_iff)
  have s: "set runs' = set runs" using mset_eq_setD [OF assms(2)] by simp
  have "mset (map (key_seq \<circ> run_key) (filter (\<lambda>r. \<not> is_legacy (run_key r)) runs'))
      = mset (map (key_seq \<circ> run_key) (filter (\<lambda>r. \<not> is_legacy (run_key r)) runs))"
    by (simp only: mset_map mset_filter assms(2))
  from mset_eq_imp_distinct_iff [OF this] have "orderable runs'"
    using o(1) s by (simp add: orderable_def)
  moreover have "sort_key run_key runs = sort_key run_key runs'"
  proof (rule map_sorted_distinct_set_unique [where f = run_key])
    have inj: "inj_on run_key (set runs)" using run_key_inj o(1) assms(3) .
    then show "inj_on run_key (set (sort_key run_key runs) \<union> set (sort_key run_key runs'))" using s by simp
    have d: "distinct runs" using assms(3) by (simp add: distinct_map)
    then have d': "distinct runs'" using mset_eq_imp_distinct_iff [OF assms(2)] by simp
    show "distinct (map run_key (sort_key run_key runs))" "distinct (map run_key (sort_key run_key runs'))"
      using d d' inj s by (simp_all add: distinct_map)
  qed (simp_all add: s)
  ultimately show ?thesis using o(2) by (simp add: foldOrderRuns_iff)
qed

definition demo_run_file :: "run_id \<Rightarrow> nat option \<Rightarrow> nat option \<Rightarrow> fold_run" where
  "demo_run_file r v n = \<lparr>fr_run = r, fr_events = [Run_Started \<lparr>rs_run = r, rs_at = ''t'', rs_plan = ''p'',
     rs_version = v, rs_seq = n, rs_governance = None, rs_ungoverned = False\<rparr>]\<rparr>"

abbreviation demo_files :: "fold_run list" where
  "demo_files \<equiv> [demo_run_file ''c'' (Some 2) (Some 1), demo_run_file ''a'' None None]"

text \<open>C39 A claimed ordinal is claimed once: however the turns of any number of \<open>claimSeq\<close> calls for
  one plan interleave with each other and with other files appearing, failing creates and deletions,
  no two calls return the same ordinal, and a returned ordinal has its tombstone, unless that
  tombstone was deleted.\<close>

theorem claims_unique:
  assumes "reach claim_init (claim_step p) s" "tombstone p n \<notin> cn_removed s"
    and "cn_claimers s c = Some (Claimed n)" "cn_claimers s d = Some (Claimed n)"
  shows "c = d \<and> tombstone p n \<in> set (cn_names s)"
  using claims.reach_inv [OF assms(1)] assms(2-4) by (simp add: claim_inv_def)

definition demo_contention :: "string list \<Rightarrow> claimer option \<Rightarrow> claimer option \<Rightarrow> contention" where
  "demo_contention names a b =
     \<lparr>cn_names = names, cn_claimers = (\<lambda>_. None)(0 := a, 1 := b), cn_removed = {tombstone ''p'' 9}\<rparr>"

lemma demo_contention_reach:
  "reach claim_init (claim_step ''p'')
     (demo_contention [tombstone ''p'' 3, tombstone ''p'' 4] (Some (Claimed 3)) (Some (Claimed 4)))"
proof -
  let ?r = "reach claim_init (claim_step ''p'')" and ?d = demo_contention
  obtain k where k: "CLAIM_ATTEMPTS = Suc (Suc k)" by (rule that [of 9998]) (simp add: CLAIM_ATTEMPTS_def)
  have cs: "claim_start (Fin 3) = Trying 3 3 (Suc (Suc k))" by (simp add: claim_start_def k Let_def)
  have "?r (?d [] None None)" by (rule reach_init) (simp add: claim_init_def demo_contention_def)
  moreover have "claim_step ''p'' (?d [] None None) (?d [] (Some (Trying 3 3 (Suc (Suc k)))) None)"
    using claim_begins [of "?d [] None None" 0 "''p''" "Fin 3"] by (simp add: cs demo_contention_def)
  ultimately have "?r (?d [] (Some (Trying 3 3 (Suc (Suc k)))) None)" by (rule reach_step)
  moreover have "claim_step ''p'' (?d [] (Some (Trying 3 3 (Suc (Suc k)))) None)
      (?d [] (Some (Trying 3 3 (Suc (Suc k)))) (Some (Trying 3 3 (Suc (Suc k)))))"
    using claim_begins [of "?d [] (Some (Trying 3 3 (Suc (Suc k)))) None" 1 "''p''" "Fin 3"]
    by (simp add: cs demo_contention_def)
  ultimately have "?r (?d [] (Some (Trying 3 3 (Suc (Suc k)))) (Some (Trying 3 3 (Suc (Suc k)))))" by (rule reach_step)
  moreover have "claim_step ''p'' (?d [] (Some (Trying 3 3 (Suc (Suc k)))) (Some (Trying 3 3 (Suc (Suc k)))))
      (?d [tombstone ''p'' 3] (Some (Claimed 3)) (Some (Trying 3 3 (Suc (Suc k)))))"
    using claim_turns [of "?d [] (Some (Trying 3 3 (Suc (Suc k)))) (Some (Trying 3 3 (Suc (Suc k))))" 0 3 3 "Suc (Suc k)" "''p''"]
    by (simp add: demo_contention_def create_exclusive_def fun_upd_twist)
  ultimately have "?r (?d [tombstone ''p'' 3] (Some (Claimed 3)) (Some (Trying 3 3 (Suc (Suc k)))))" by (rule reach_step)
  moreover have "claim_step ''p'' (?d [tombstone ''p'' 3] (Some (Claimed 3)) (Some (Trying 3 3 (Suc (Suc k)))))
      (?d [tombstone ''p'' 3] (Some (Claimed 3)) (Some (Trying 3 4 (Suc k))))"
    using claim_turns [of "?d [tombstone ''p'' 3] (Some (Claimed 3)) (Some (Trying 3 3 (Suc (Suc k))))" 1 3 3 "Suc (Suc k)" "''p''"]
    by (simp add: demo_contention_def create_exclusive_def)
  ultimately have "?r (?d [tombstone ''p'' 3] (Some (Claimed 3)) (Some (Trying 3 4 (Suc k))))" by (rule reach_step)
  moreover have "claim_step ''p'' (?d [tombstone ''p'' 3] (Some (Claimed 3)) (Some (Trying 3 4 (Suc k))))
      (?d [tombstone ''p'' 3, tombstone ''p'' 4] (Some (Claimed 3)) (Some (Claimed 4)))"
    using claim_turns [of "?d [tombstone ''p'' 3] (Some (Claimed 3)) (Some (Trying 3 4 (Suc k)))" 1 3 4 "Suc k" "''p''"]
    by (simp add: demo_contention_def create_exclusive_def)
  ultimately show ?thesis by (rule reach_step)
qed

theorem claims_unique_witness:
  "(1::nat) = 1 \<and> tombstone ''p'' 4 \<in> set [tombstone ''p'' 3, tombstone ''p'' 4]"
  using claims_unique [OF demo_contention_reach, of 4 1 1] by (simp add: demo_contention_def)

text \<open>The claim loop is exact: from a start of at least 1 it takes the first ordinal without a
  tombstone, and it gives up exactly when all of the 10000 ordinals it may try have one.\<close>

lemma claim_exact:
  assumes "1 \<le> start"
  shows "(claimSeq p (Fin (of_nat start)) names = ok (n, names') \<longleftrightarrow>
      start \<le> n \<and> n < start + 10000 \<and> tombstone p n \<notin> set names
      \<and> (\<forall>i. start \<le> i \<and> i < n \<longrightarrow> tombstone p i \<in> set names) \<and> names' = names @ [tombstone p n])
    \<and> (claimSeq p (Fin (of_nat start)) names = throw e \<longleftrightarrow>
      e = ClaimExhausted p start \<and> (\<forall>i. start \<le> i \<and> i < start + 10000 \<longrightarrow> tombstone p i \<in> set names))"
proof -
  have "\<not> js_lt (Fin (of_nat start)) 1" using assms by simp
  then have "claimSeq p (Fin (of_nat start)) names = claim_loop p (Trying start start CLAIM_ATTEMPTS) names"
    by (simp add: claimSeq_def claim_start_def Let_def)
  then show ?thesis by (simp only: claim_loop_ok claim_loop_error CLAIM_ATTEMPTS_def)
qed

text \<open>A run that claims its ordinal above every folded one folds last: adding its journal to the
  plan's history leaves the order of the earlier runs as it was.\<close>

lemma claimed_run_folds_last:
  assumes "foldOrderRuns runs = ok rs" "key_of_run r = ok (SeqKey n)"
    and "\<forall>q \<in> set runs. \<not> is_legacy (run_key q) \<longrightarrow> key_seq (run_key q) \<le> maxSeq"
    and "claimSeq p (Fin (of_nat (maxSeq + 1))) names = ok (n, names')"
  shows "foldOrderRuns (runs @ [r]) = ok (rs @ [r])"
proof -
  have "claim_loop p (Trying (maxSeq + 1) (maxSeq + 1) CLAIM_ATTEMPTS) names = ok (n, names')"
    using assms(4) by (simp add: claimSeq_def claim_start_def Let_def nat_add_distrib split: if_splits)
  then have n: "maxSeq < n" by (simp add: claim_loop_ok)
  have o: "orderable runs" "rs = sort_key run_key runs"
    using assms(1) by (simp_all add: foldOrderRuns_iff)
  have r: "run_key r = SeqKey n" using assms(2) by (simp add: run_key_def)
  have less: "run_key q < run_key r" if "q \<in> set runs" for q
    using assms(3) that n r by (cases "run_key q") (auto simp: less_fold_key_def)
  have "orderable (runs @ [r])"
    using o(1) assms(2,3) n r by (fastforce simp: orderable_def)
  moreover have "sort_key run_key (runs @ [r]) = sort_key run_key runs @ [r]"
  proof (rule trans [OF sort_key_split [where P = "\<lambda>q. q \<in> set runs"]])
    show "run_key x < run_key y" if "y \<in> set (runs @ [r])" "x \<in> set runs" "y \<notin> set runs" for x y
      using that less by auto
    have "r \<notin> set runs" using less by blast
    then show "sort_key run_key (filter (\<lambda>q. q \<in> set runs) (runs @ [r]))
        @ sort_key run_key (filter (\<lambda>q. q \<notin> set runs) (runs @ [r])) = sort_key run_key runs @ [r]" by simp
  qed
  ultimately show ?thesis using o(2) by (simp add: foldOrderRuns_iff)
qed

end
