(* ===== verification/Run_Plan.thy ===== *)
theory Run_Plan
  imports Manifest Topo_Order Run_Log Fold_Order
begin

text \<open>
  How \<open>runPlan\<close> (\<open>src/kernel/runner.ts\<close>) prepares a run before anything is dispatched: the option
  guards, the missing-dependency pre-pass and the waves, the fold over the plan's prior runs, the
  opt-in refusals, the events the governor is seeded from, and the \<open>run-started\<close> record.
\<close>

section \<open>Option guards\<close>

record governance =
  gv_maxUsd :: "rat option"
  gv_maxTokens :: "rat option"
  gv_attended :: "bool option"
  gv_allowAdvisory :: bool
  gv_provenance :: "escape_by option"
  gv_release :: "job_id list"
  gv_optIn :: "opt_in list"

datatype run_error =
    CqEnvInvalid "string list"
  | CapsRequireGovernance
  | BadConcurrency jsnum
  | ResumeWithoutJournal
  | DuplicateJob job_id
  | CappedUngoverned
  | BadRunId run_id
  | ManifestRefused manifest_error
  | OrderRefused topo_error
  | UngovernedOverHistory plan_id
  | NothingToOptOutOf plan_id
  | UnaccountedLegacy nat "run_id list"
  | CapRaised rat rat

text \<open>An error of a called component, as an error of the caller.\<close>

definition lift_error :: "('e \<Rightarrow> 'f) \<Rightarrow> 'e + 'a \<Rightarrow> 'f + 'a" where
  "lift_error f r = (case r of Inl e \<Rightarrow> throw (f e) | Inr x \<Rightarrow> ok x)"

lemma lift_error_iff [simp]:
  "lift_error f r = Inr x \<longleftrightarrow> r = Inr x"
  "lift_error f r = Inl e \<longleftrightarrow> (\<exists>e'. r = Inl e' \<and> e = f e')"
  by (cases r; auto simp: lift_error_def)+

definition capped :: "run_options \<Rightarrow> bool" where
  "capped opts \<longleftrightarrow> opt_maxUsd opts \<noteq> None \<or> opt_maxTokens opts \<noteq> None"

definition ungovernedMarked :: "governance option \<Rightarrow> bool" where
  "ungovernedMarked gov = (case gov of None \<Rightarrow> False | Some g \<Rightarrow> UngovernedOverGoverned \<in> set (gv_optIn g))"

definition governedDispatch :: "governance option \<Rightarrow> bool" where
  "governedDispatch gov \<longleftrightarrow> gov \<noteq> None \<and> \<not> ungovernedMarked gov"

fun first_duplicate :: "job_id list \<Rightarrow> job_id list \<Rightarrow> job_id option" where
  "first_duplicate seen [] = None"
| "first_duplicate seen (i # is) = (if i \<in> set seen then Some i else first_duplicate (i # seen) is)"

text \<open>\<open>assertCqEnv\<close> (\<open>src/config/entry.ts\<close>) on the messages of the snapshot's errors.\<close>

definition assertCqEnv :: "string list \<Rightarrow> run_error + unit" where
  "assertCqEnv errs = (if errs \<noteq> [] then throw (CqEnvInvalid errs) else ok ())"

definition option_guards :: "plan \<Rightarrow> run_options \<Rightarrow> governance option \<Rightarrow> run_error + unit" where
  "option_guards p opts gov =
     (if capped opts \<and> gov = None then throw CapsRequireGovernance
      else if \<not> js_is_integer (concurrency opts) \<or> js_lt (concurrency opts) 1
        then throw (BadConcurrency (concurrency opts))
      else if resume opts \<and> \<not> journaled opts then throw ResumeWithoutJournal
      else case first_duplicate [] (map job_id (plan_jobs p)) of
             Some i \<Rightarrow> throw (DuplicateJob i)
           | None \<Rightarrow> if ungovernedMarked gov \<and> capped opts then throw CappedUngoverned else ok ())"

text \<open>\<open>stamp\<close> and \<open>rnd\<close> are the clock in base 36 and the random bytes in hexadecimal.\<close>

definition makeRunId :: "plan_id \<Rightarrow> string \<Rightarrow> string \<Rightarrow> bool \<Rightarrow> run_error + run_id" where
  "makeRunId planId stamp rnd requireFileSafe =
     (let r = planId @ ''--'' @ stamp @ ''--'' @ rnd
      in if requireFileSafe \<and> \<not> RUN_ID_PATTERN r then throw (BadRunId r) else ok r)"

section \<open>Missing dependencies and waves\<close>

text \<open>One turn of the \<open>while (changed)\<close> loop: jobs are visited in order and the set grows in place.\<close>

fun prepass_pass :: "job_id list \<Rightarrow> dep_list \<Rightarrow> job_id list \<Rightarrow> job_id list" where
  "prepass_pass jobIds [] un = un"
| "prepass_pass jobIds ((i, ds) # js) un =
     (if i \<in> set un then prepass_pass jobIds js un
      else if list_ex (\<lambda>d. d \<notin> set jobIds \<or> d \<in> set un) ds then prepass_pass jobIds js (un @ [i])
      else prepass_pass jobIds js un)"

lemma prepass_pass_grows:
  "\<exists>new. prepass_pass ids js un = un @ new \<and> set new \<subseteq> set (map fst js) - set un \<and> distinct new"
proof (induction ids js un rule: prepass_pass.induct)
  case (2 ids i ds js un)
  show ?case
  proof (cases "i \<in> set un \<or> \<not> list_ex (\<lambda>d. d \<notin> set ids \<or> d \<in> set un) ds")
    case True
    then obtain new where "prepass_pass ids js un = un @ new" "set new \<subseteq> set (map fst js) - set un" "distinct new"
      using 2 by blast
    with True show ?thesis by auto
  next
    case False
    then obtain new where "prepass_pass ids js (un @ [i]) = (un @ [i]) @ new"
      "set new \<subseteq> set (map fst js) - set (un @ [i])" "distinct new" using 2 by blast
    with False show ?thesis by (intro exI [of _ "i # new"]) auto
  qed
qed simp

function prepass :: "dep_list \<Rightarrow> job_id list \<Rightarrow> job_id list" where
  "prepass jobs un =
     (let un' = prepass_pass (map fst jobs) jobs un
      in if un' = un then un else prepass jobs un')"
  by pat_completeness auto
termination
proof (relation "measure (\<lambda>(jobs, un). card (set (map fst jobs) - set un))")
  fix jobs :: dep_list and un un'
  assume un': "un' = prepass_pass (map fst jobs) jobs un" "un' \<noteq> un"
  then obtain new where new: "un' = un @ new" "set new \<subseteq> set (map fst jobs) - set un"
    using prepass_pass_grows by metis
  then have "new \<noteq> []" using un' by auto
  then have "set (map fst jobs) - set un' \<subset> set (map fst jobs) - set un"
    using new by (cases new) auto
  then show "((jobs, un'), (jobs, un)) \<in> measure (\<lambda>(jobs, un). card (set (map fst jobs) - set un))"
    by (simp add: psubset_card_mono del: set_map)
qed simp

declare prepass.simps [simp del]

definition deps_of :: "manifest_job list \<Rightarrow> dep_list" where
  "deps_of jobs = map (\<lambda>j. (mj_id j, mj_deps j)) jobs"

definition unschedulable :: "manifest_job list \<Rightarrow> job_id list" where
  "unschedulable jobs = prepass (deps_of jobs) []"

definition schedulable :: "manifest_job list \<Rightarrow> manifest_job list" where
  "schedulable jobs = filter (\<lambda>j. mj_id j \<notin> set (unschedulable jobs)) jobs"

definition job_by_id :: "manifest_job list \<Rightarrow> job_id \<Rightarrow> manifest_job option" where
  "job_by_id jobs i = find (\<lambda>j. mj_id j = i) jobs"

text \<open>What the run executes: waves of jobs, and the jobs blocked from the start.\<close>

record prepared =
  pr_run :: run_id
  pr_jobs :: "manifest_job list"
  pr_unschedulable :: "job_id list"
  pr_waves :: "manifest_job list list"

definition prepare :: "(string \<Rightarrow> string) \<Rightarrow> (rat \<Rightarrow> string) \<Rightarrow> string \<Rightarrow> string \<Rightarrow> plan \<Rightarrow> run_options
    \<Rightarrow> governance option \<Rightarrow> run_error + prepared" where
  "prepare sha256 num stamp rnd p opts gov =
     bind_result (assertCqEnv (cqEnv_errors opts)) (\<lambda>_.
     bind_result (option_guards p opts gov) (\<lambda>_.
     bind_result (makeRunId (plan_id p) stamp rnd (journaled opts)) (\<lambda>runId.
     bind_result (lift_error ManifestRefused (makeManifest sha256 num p)) (\<lambda>m.
     bind_result (lift_error OrderRefused (topoOrder (deps_of (schedulable (rm_jobs m))))) (\<lambda>waves.
       ok \<lparr>pr_run = runId, pr_jobs = rm_jobs m, pr_unschedulable = unschedulable (rm_jobs m),
           pr_waves = map (\<lambda>wave. map (\<lambda>i. the (job_by_id (rm_jobs m) i)) wave) waves\<rparr>)))))"

section \<open>The fold over prior runs\<close>

record prior_facts =
  pf_governed :: "run_id list"
  pf_ungoverned :: "run_id list"
  pf_v1Dispatch :: "run_id list"
  pf_resets :: "run_id list"
  pf_prevCap :: "rat option"
  pf_maxSeq :: nat
  pf_seedRuns :: "(run_id \<times> bool \<times> journal_event list) list"
  pf_replay :: "(job_id, job_finished) omap"

definition no_facts :: prior_facts where
  "no_facts = \<lparr>pf_governed = [], pf_ungoverned = [], pf_v1Dispatch = [], pf_resets = [],
     pf_prevCap = None, pf_maxSeq = 0, pf_seedRuns = [], pf_replay = []\<rparr>"

definition matching_runs :: "plan_id \<Rightarrow> fold_run list \<Rightarrow> fold_run list" where
  "matching_runs planId runs =
     filter (\<lambda>r. map_option rs_plan (find_started (fr_events r)) = Some planId) runs"

definition isSequenced :: "run_started \<Rightarrow> bool" where
  "isSequenced s \<longleftrightarrow> rs_version s = Some 2 \<or> rs_version s = Some 3"

fun is_start :: "journal_event \<Rightarrow> bool" where
  "is_start (Job_Started _) = True"
| "is_start _ = False"

text \<open>A finish is replay evidence until a later release of its job.\<close>

fun replay_event :: "journal_event \<Rightarrow> (job_id, job_finished) omap \<Rightarrow> (job_id, job_finished) omap" where
  "replay_event (Job_Finished f) m = omap_set (jf_job f) f m"
| "replay_event (Quarantine_Released r j) m = omap_del j m"
| "replay_event _ m = m"

text \<open>What a governed prior header adds: its cap, when it set one, and its resets.\<close>

definition fold_governance :: "governance_record \<Rightarrow> prior_facts \<Rightarrow> prior_facts" where
  "fold_governance g f =
     f\<lparr>pf_prevCap := (case gr_capUsd g of None \<Rightarrow> pf_prevCap f | Some c \<Rightarrow> Some c),
       pf_resets := pf_resets f @ (case gr_legacyReset g of None \<Rightarrow> [] | Some rs \<Rightarrow> rs)\<rparr>"

definition fold_sequenced :: "run_id \<Rightarrow> run_started \<Rightarrow> prior_facts \<Rightarrow> prior_facts" where
  "fold_sequenced r s f =
     f\<lparr>pf_governed := pf_governed f @ (if rs_governance s \<noteq> None then [r] else []),
       pf_ungoverned := pf_ungoverned f @ (if rs_ungoverned s then [r] else []),
       pf_maxSeq := (case rs_seq s of None \<Rightarrow> pf_maxSeq f | Some n \<Rightarrow> max n (pf_maxSeq f))\<rparr>"

definition fold_governed :: "fold_run \<Rightarrow> run_started \<Rightarrow> prior_facts \<Rightarrow> prior_facts" where
  "fold_governed r s f =
     (let f1 = f\<lparr>pf_v1Dispatch := pf_v1Dispatch f @
                  (if \<not> isSequenced s \<and> list_ex is_start (fr_events r) then [fr_run r] else [])\<rparr>;
          f2 = (case rs_governance s of
                  Some g \<Rightarrow> if isSequenced s then fold_governance g f1 else f1
                | None \<Rightarrow> f1)
      in f2\<lparr>pf_seedRuns := pf_seedRuns f2 @ [(fr_run r, \<not> isSequenced s, fr_events r)]\<rparr>)"

definition fold_prior :: "bool \<Rightarrow> bool \<Rightarrow> fold_run \<Rightarrow> prior_facts \<Rightarrow> prior_facts" where
  "fold_prior hasGov isResume r f =
     (case find_started (fr_events r) of
        None \<Rightarrow> f
      | Some s \<Rightarrow>
         (let f1 = (if isSequenced s then fold_sequenced (fr_run r) s f else f);
              f2 = (if hasGov then fold_governed r s f1 else f1)
          in if isResume then f2\<lparr>pf_replay := fold replay_event (fr_events r) (pf_replay f2)\<rparr> else f2))"

datatype history_error = HistoryOrder fold_error | HistoryGap int

definition fold_history :: "(string \<Rightarrow> jsnum) \<Rightarrow> plan_id \<Rightarrow> bool \<Rightarrow> bool \<Rightarrow> fold_run list \<Rightarrow> string list
    \<Rightarrow> history_error + prior_facts" where
  "fold_history number planId hasGov isResume files names =
     bind_result (lift_error HistoryOrder (foldOrderRuns (matching_runs planId files))) (\<lambda>prior.
       let f = fold (fold_prior hasGov isResume) prior no_facts
       in bind_result (lift_error HistoryGap (assertNoSeqGap number planId names (pf_maxSeq f))) (\<lambda>_. ok f))"

section \<open>Refusals\<close>

definition unaccounted_legacy :: "prior_facts \<Rightarrow> run_id list" where
  "unaccounted_legacy f = filter (\<lambda>r. r \<notin> set (pf_resets f)) (pf_v1Dispatch f)"

definition started_jobs :: "journal_event list \<Rightarrow> job_id list" where
  "started_jobs evs = List.map_filter (\<lambda>e. case e of Job_Started s \<Rightarrow> Some (js_job s) | _ \<Rightarrow> None) evs"

definition dispatched_count :: "prior_facts \<Rightarrow> nat" where
  "dispatched_count f = length (remdups (concat (map (\<lambda>(r, v1, evs).
     if r \<in> set (unaccounted_legacy f) then started_jobs evs else []) (pf_seedRuns f))))"

definition raises :: "rat option \<Rightarrow> rat option \<Rightarrow> (rat \<times> rat) option" where
  "raises prev nxt = (case (prev, nxt) of (Some a, Some b) \<Rightarrow> if a < b then Some (a, b) else None | _ \<Rightarrow> None)"

text \<open>On success: the v1 runs the spend bound does not account for (empty off the governed path).\<close>

definition refusals :: "plan_id \<Rightarrow> governance option \<Rightarrow> prior_facts \<Rightarrow> run_error + run_id list" where
  "refusals planId gov f =
     (case gov of
        None \<Rightarrow> if pf_governed f \<noteq> [] then throw (UngovernedOverHistory planId) else ok []
      | Some g \<Rightarrow>
          if ungovernedMarked gov
          then (if pf_governed f = [] then throw (NothingToOptOutOf planId) else ok [])
          else if unaccounted_legacy f \<noteq> [] \<and> LegacyJournalReset \<notin> set (gv_optIn g)
            then throw (UnaccountedLegacy (dispatched_count f) (unaccounted_legacy f))
          else (case raises (pf_prevCap f) (gv_maxUsd g) of
                  Some (a, b) \<Rightarrow> if RaiseCap \<notin> set (gv_optIn g) then throw (CapRaised a b)
                                else ok (unaccounted_legacy f)
                | None \<Rightarrow> ok (unaccounted_legacy f)))"

section \<open>Seeding and the run-started record\<close>

definition inherited_cap :: "governance \<Rightarrow> prior_facts \<Rightarrow> rat option" where
  "inherited_cap g f = (if gv_maxUsd g = None then pf_prevCap f else None)"

text \<open>Spend is seeded only from runs inside the bound; starts are seeded from all of them.\<close>

definition spend_excluded :: "governance \<Rightarrow> prior_facts \<Rightarrow> run_id list \<Rightarrow> run_id list" where
  "spend_excluded g f unaccounted =
     pf_resets f @ (if LegacyJournalReset \<in> set (gv_optIn g) then unaccounted else [])"

fun is_finish :: "journal_event \<Rightarrow> bool" where
  "is_finish (Job_Finished _) = True"
| "is_finish _ = False"

definition seed_events_of :: "governance \<Rightarrow> prior_facts \<Rightarrow> run_id list \<Rightarrow> journal_event list" where
  "seed_events_of g f unaccounted =
     concat (map (\<lambda>(r, v1, evs).
       if r \<in> set (pf_ungoverned f) \<or> v1 \<and> r \<in> set (spend_excluded g f unaccounted)
       then filter (\<lambda>e. \<not> is_finish e) evs else evs) (pf_seedRuns f))"

definition governance_of :: "governance \<Rightarrow> prior_facts \<Rightarrow> run_id list \<Rightarrow> governance_record" where
  "governance_of g f unaccounted =
     \<lparr>gr_capUsd = gv_maxUsd g, gr_capTokens = gv_maxTokens g,
      gr_attended = (case gv_attended g of None \<Rightarrow> False | Some b \<Rightarrow> b),
      gr_allowAdvisory = gv_allowAdvisory g,
      gr_provenance = (if gv_allowAdvisory g then gv_provenance g else None),
      gr_inheritedCapUsd = inherited_cap g f,
      gr_legacyReset = (if unaccounted \<noteq> [] \<and> LegacyJournalReset \<in> set (gv_optIn g)
                        then Some unaccounted else None),
      gr_raiseCap = (if RaiseCap \<in> set (gv_optIn g) then raises (pf_prevCap f) (gv_maxUsd g) else None)\<rparr>"

definition run_started_event :: "run_id \<Rightarrow> string \<Rightarrow> plan_id \<Rightarrow> governance option \<Rightarrow> bool \<Rightarrow> nat
    \<Rightarrow> prior_facts \<Rightarrow> run_id list \<Rightarrow> run_started" where
  "run_started_event r stamp planId gov isJournaled seq f unaccounted =
     (let plain = \<lparr>rs_run = r, rs_at = stamp, rs_plan = planId, rs_version = None, rs_seq = None,
                   rs_governance = None, rs_ungoverned = False\<rparr>
      in case gov of
           None \<Rightarrow> plain
         | Some g \<Rightarrow>
             if \<not> isJournaled then plain
             else if ungovernedMarked gov
             then plain\<lparr>rs_version := Some 2, rs_seq := Some seq, rs_ungoverned := True\<rparr>
             else plain\<lparr>rs_version := Some 2, rs_seq := Some seq,
                        rs_governance := Some (governance_of g f unaccounted)\<rparr>)"

text \<open>The parent recorded by a replayed finish is preferred to the launcher's.\<close>

definition parent_work_id :: "(job_id, job_finished) omap \<Rightarrow> string option \<Rightarrow> string option" where
  "parent_work_id replay inbound =
     (case find (\<lambda>f. jf_parent f \<noteq> None) (map snd replay) of
        Some f \<Rightarrow> jf_parent f
      | None \<Rightarrow> inbound)"

end
