(* ===== verification/Run_Plan_Laws.thy ===== *)
theory Run_Plan_Laws
  imports Run_Plan Run_Log_Crash
begin

text \<open>
  What the preparation of a run guarantees: exactly the jobs behind a missing dependency are left
  out, the waves of the others are a partition in dependency order, a run's id belongs to its plan,
  the replay map holds the last finish that no release has voided, and a dollar cap never rises
  between runs without its opt-in.
\<close>

section \<open>The pre-pass\<close>

inductive lacks :: "dep_list \<Rightarrow> job_id \<Rightarrow> bool" for jobs where
  missing: "(i, ds) \<in> set jobs \<Longrightarrow> d \<in> set ds \<Longrightarrow> d \<notin> fst ` set jobs \<Longrightarrow> lacks jobs i"
| upstream: "(i, ds) \<in> set jobs \<Longrightarrow> d \<in> set ds \<Longrightarrow> lacks jobs d \<Longrightarrow> lacks jobs i"

inductive_cases lacksE: "lacks jobs i"

lemma prepass_pass_sound:
  "set js \<subseteq> set jobs \<Longrightarrow> \<forall>i \<in> set un. lacks jobs i \<Longrightarrow> i \<in> set (prepass_pass (map fst jobs) js un) \<Longrightarrow> lacks jobs i"
proof (induction "map fst jobs" js un rule: prepass_pass.induct)
  case (2 k ds js un)
  show ?case
  proof (cases "k \<notin> set un \<and> list_ex (\<lambda>d. d \<notin> set (map fst jobs) \<or> d \<in> set un) ds")
    case True
    then have "lacks jobs k"
      using "2.prems"(1,2) by (auto simp: list_ex_iff intro: lacks.intros)
    with True "2.prems" "2.hyps"(2) show ?thesis by (auto split: if_splits)
  next
    case False
    with "2.prems" "2.hyps"(1,3) show ?thesis by (auto split: if_splits)
  qed
qed simp

lemma prepass_pass_fixed:
  "prepass_pass ids js un = un \<Longrightarrow> (i, ds) \<in> set js \<Longrightarrow> d \<in> set ds \<Longrightarrow> d \<notin> set ids \<or> d \<in> set un \<Longrightarrow> i \<in> set un"
proof (induction ids js un rule: prepass_pass.induct)
  case (2 ids k es js un)
  show ?case
  proof (cases "k \<notin> set un \<and> list_ex (\<lambda>d. d \<notin> set ids \<or> d \<in> set un) es")
    case True
    moreover obtain new where "prepass_pass ids js (un @ [k]) = (un @ [k]) @ new"
      using prepass_pass_grows by blast
    ultimately show ?thesis using "2.prems"(1) by simp
  next
    case False
    with 2 show ?thesis by (auto simp: list_ex_iff split: if_splits)
  qed
qed simp

lemma prepass_exact:
  "\<forall>i \<in> set un. lacks jobs i \<Longrightarrow> i \<in> set (prepass jobs un) \<longleftrightarrow> lacks jobs i"
proof (induction jobs un rule: prepass.induct)
  case (1 jobs un)
  let ?un = "prepass_pass (map fst jobs) jobs un"
  have s: "\<forall>i \<in> set ?un. lacks jobs i" using prepass_pass_sound [OF subset_refl "1.prems"] by blast
  show ?case
  proof (cases "?un = un")
    case True
    have "i \<in> set un" if "lacks jobs i" for i
      using that
    proof (induction rule: lacks.induct)
      case (missing i ds d)
      then show ?case using prepass_pass_fixed [OF True] by auto
    next
      case (upstream i ds d)
      then show ?case using prepass_pass_fixed [OF True] by blast
    qed
    with True "1.prems" show ?thesis by (auto simp: prepass.simps [of jobs un])
  next
    case False
    with "1.IH" [OF refl False s] show ?thesis by (simp add: prepass.simps [of jobs un])
  qed
qed

lemma unschedulable_exact: "i \<in> set (unschedulable jobs) \<longleftrightarrow> lacks (deps_of jobs) i"
  unfolding unschedulable_def by (rule prepass_exact) simp

lemma fst_deps_of [simp]: "map fst (deps_of jobs) = map mj_id jobs"
  by (simp add: deps_of_def)

text \<open>Without the jobs left out, every dependency is a job.\<close>

lemma schedulable_wf:
  assumes "distinct (map mj_id jobs)"
  shows "well_formed_deps (deps_of (schedulable jobs))"
proof -
  have "d \<in> mj_id ` set (schedulable jobs)" if "j \<in> set (schedulable jobs)" "d \<in> set (mj_deps j)" for j d
  proof -
    have j: "(mj_id j, mj_deps j) \<in> set (deps_of jobs)" "\<not> lacks (deps_of jobs) (mj_id j)"
      using that(1) by (auto simp: schedulable_def deps_of_def unschedulable_exact)
    then have "d \<in> fst ` set (deps_of jobs)" "\<not> lacks (deps_of jobs) d"
      using that(2) by (auto intro: lacks.intros)
    then show ?thesis by (auto simp: schedulable_def unschedulable_exact deps_of_def)
  qed
  moreover have "distinct (map fst (deps_of (schedulable jobs)))"
    using assms by (simp add: schedulable_def distinct_map_filter)
  ultimately show ?thesis by (auto simp: well_formed_deps_def) (auto simp: deps_of_def)
qed

lemma first_duplicate_None: "first_duplicate seen is = None \<longleftrightarrow> distinct is \<and> set seen \<inter> set is = {}"
  by (induction seen "is" rule: first_duplicate.induct) auto

section \<open>Prepared runs\<close>

definition well_prepared :: "prepared \<Rightarrow> bool" where
  "well_prepared p \<longleftrightarrow>
     distinct (map mj_id (pr_jobs p))
     \<and> (\<forall>i. i \<in> set (pr_unschedulable p) \<longleftrightarrow> lacks (deps_of (pr_jobs p)) i)
     \<and> distinct (map mj_id (concat (pr_waves p)))
     \<and> set (concat (pr_waves p)) = {j \<in> set (pr_jobs p). mj_id j \<notin> set (pr_unschedulable p)}
     \<and> (\<forall>n < length (pr_waves p). \<forall>j \<in> set (pr_waves p ! n).
          set (mj_deps j) \<subseteq> mj_id ` set (concat (take n (pr_waves p))))"

lemma job_by_id_in:
  "i \<in> mj_id ` set jobs \<Longrightarrow> \<exists>j \<in> set jobs. job_by_id jobs i = Some j \<and> mj_id j = i"
  by (induction jobs) (auto simp: job_by_id_def)

lemma job_by_id_self:
  "distinct (map mj_id jobs) \<Longrightarrow> j \<in> set jobs \<Longrightarrow> job_by_id jobs (mj_id j) = Some j"
  using job_by_id_in [of "mj_id j" jobs] by (auto simp: distinct_map inj_on_def)

lemma waves_of_jobs:
  assumes d: "distinct (map mj_id jobs)" and t: "topoOrder (deps_of (schedulable jobs)) = ok ws"
  defines "wj \<equiv> map (map (\<lambda>i. the (job_by_id jobs i))) ws"
  shows "map mj_id (concat (take n wj)) = concat (take n ws)" "distinct (concat ws)"
    and "set (concat wj) = set (schedulable jobs)"
    and "n < length ws \<Longrightarrow> j \<in> set (wj ! n) \<Longrightarrow> set (mj_deps j) \<subseteq> set (concat (take n ws))"
proof -
  have wf: "well_formed_deps (deps_of (schedulable jobs))" using d by (rule schedulable_wf)
  have dk: "distinct (map fst (deps_of (schedulable jobs)))" using wf by (simp add: well_formed_deps_def)
  have l: "topo_loop {} (deps_of (schedulable jobs)) = ok ws" using t topoOrder_wf [OF wf] by simp
  have p: "mset (concat ws) = mset (map mj_id (schedulable jobs))"
    using topo_loop_perm [OF l dk] by simp
  then show "distinct (concat ws)" using dk by (metis fst_deps_of mset_eq_imp_distinct_iff)
  have ids: "set (concat ws) = mj_id ` set (schedulable jobs)" using mset_eq_setD [OF p] by simp
  have sub: "set (schedulable jobs) \<subseteq> set jobs" by (auto simp: schedulable_def)
  have mj: "mj_id (the (job_by_id jobs i)) = i" if "i \<in> set (concat ws)" for i
  proof -
    have "i \<in> mj_id ` set jobs" using that ids sub by auto
    then show ?thesis using job_by_id_in [of i jobs] by auto
  qed
  have c: "concat wj = map (\<lambda>i. the (job_by_id jobs i)) (concat ws)" by (simp add: wj_def map_concat)
  have "set (concat (take n ws)) \<subseteq> set (concat ws)" by (auto dest: in_set_takeD)
  moreover have "concat (take n wj) = map (\<lambda>i. the (job_by_id jobs i)) (concat (take n ws))"
    by (simp add: wj_def take_map map_concat)
  ultimately show "map mj_id (concat (take n wj)) = concat (take n ws)"
    using mj by (simp only: map_map comp_def) (intro map_idI, blast)
  have self: "the (job_by_id jobs (mj_id j)) = j" if "j \<in> set (schedulable jobs)" for j
    using job_by_id_self [OF d] that sub by auto
  have "set (concat wj) = (\<lambda>i. the (job_by_id jobs i)) ` mj_id ` set (schedulable jobs)"
    by (simp only: c set_map ids)
  also have "\<dots> = set (schedulable jobs)" using self by (force simp: image_image)
  finally show "set (concat wj) = set (schedulable jobs)" .
  show "set (mj_deps j) \<subseteq> set (concat (take n ws))" if n: "n < length ws" and j: "j \<in> set (wj ! n)"
  proof -
    obtain i where i: "i \<in> set (ws ! n)" "j = the (job_by_id jobs i)" using n j by (auto simp: wj_def)
    then have "i \<in> set (concat ws)" using n by (metis UN_I nth_mem set_concat)
    then obtain q where q: "q \<in> set (schedulable jobs)" "i = mj_id q" using ids by auto
    then have "j = q" using i(2) self by simp
    then have "(i, mj_deps j) \<in> set (deps_of (schedulable jobs))" using q by (auto simp: deps_of_def)
    from topo_loop_sound [OF l n this i(1) dk] show ?thesis by simp
  qed
qed

lemma prepare_ok:
  assumes "prepare sha256 num stamp rnd p opts gov = ok pr"
  obtains ws where "option_guards p opts gov = ok ()" "makeRunId (plan_id p) stamp rnd (journaled opts) = ok (pr_run pr)"
    "pr_jobs pr = map (manifest_job_of sha256 num) (plan_jobs p)"
    "pr_unschedulable pr = unschedulable (pr_jobs pr)"
    "topoOrder (deps_of (schedulable (pr_jobs pr))) = ok ws"
    "pr_waves pr = map (map (\<lambda>i. the (job_by_id (pr_jobs pr) i))) ws"
  using assms by (auto simp: prepare_def bind_result_eq_Inr makeManifest_ok)

lemma option_guards_distinct:
  "option_guards p opts gov = ok () \<Longrightarrow> distinct (map job_id (plan_jobs p))"
  by (auto simp: option_guards_def first_duplicate_None split: if_splits option.splits)

lemma option_guards_no_order: "option_guards p opts gov \<noteq> throw (OrderRefused e)"
  by (auto simp: option_guards_def split: option.splits)

lemma assertCqEnv_no_order: "assertCqEnv errs \<noteq> throw (OrderRefused e)"
  by (simp add: assertCqEnv_def)

lemma makeRunId_no_order: "makeRunId planId stamp rnd safe \<noteq> throw (OrderRefused e)"
  by (simp add: makeRunId_def Let_def)

lemma prepare_well_prepared:
  assumes "prepare sha256 num stamp rnd p opts gov = ok pr"
  shows "well_prepared pr"
proof -
  obtain ws where ws: "option_guards p opts gov = ok ()"
    "pr_jobs pr = map (manifest_job_of sha256 num) (plan_jobs p)"
    "pr_unschedulable pr = unschedulable (pr_jobs pr)"
    "topoOrder (deps_of (schedulable (pr_jobs pr))) = ok ws"
    "pr_waves pr = map (map (\<lambda>i. the (job_by_id (pr_jobs pr) i))) ws"
    using prepare_ok [OF assms] by metis
  have d: "distinct (map mj_id (pr_jobs pr))"
    using option_guards_distinct [OF ws(1)] by (simp add: ws(2) manifest_job_of_def comp_def)
  note w = waves_of_jobs [OF d ws(4), folded ws(5)]
  have t: "mj_id ` set (concat (take n (pr_waves pr))) = set (concat (take n ws))" for n
    using arg_cong [OF w(1) [of n], of set] by simp
  have "map mj_id (concat (pr_waves pr)) = concat ws"
    using w(1) [of "length ws"] by (simp add: ws(5))
  with w(2) have "distinct (map mj_id (concat (pr_waves pr)))" by simp
  moreover have "set (concat (pr_waves pr)) = {j \<in> set (pr_jobs pr). mj_id j \<notin> set (pr_unschedulable pr)}"
    using w(3) by (auto simp: schedulable_def ws(3))
  moreover have "set (mj_deps j) \<subseteq> mj_id ` set (concat (take n (pr_waves pr)))"
    if "n < length (pr_waves pr)" "j \<in> set (pr_waves pr ! n)" for n j
    using w(4) [of n j] that t by (simp add: ws(5))
  ultimately show ?thesis
    using d by (simp add: well_prepared_def unschedulable_exact ws(3))
qed

section \<open>Replay evidence\<close>

lemma find_first: "\<forall>e \<in> set as. \<not> P e \<Longrightarrow> P x \<Longrightarrow> find P (as @ x # bs) = Some x"
  by (induction as) auto

lemma find_rev:
  "find P (rev es) = Some x \<longleftrightarrow> (\<exists>xs ys. es = xs @ x # ys \<and> P x \<and> (\<forall>e \<in> set ys. \<not> P e))"
proof
  assume "find P (rev es) = Some x"
  then obtain i where i: "i < length es" "P x" "x = rev es ! i" "\<forall>j < i. \<not> P (rev es ! j)"
    by (auto simp: find_Some_iff)
  then have "rev es = take i (rev es) @ x # drop (Suc i) (rev es)" by (simp add: id_take_nth_drop)
  then have "es = rev (drop (Suc i) (rev es)) @ x # rev (take i (rev es))"
    by (metis append.assoc append_Cons append_Nil rev.simps(2) rev_append rev_swap)
  moreover have "\<forall>e \<in> set (rev (take i (rev es))). \<not> P e"
    using i(1,4) by (auto simp: in_set_conv_nth)
  ultimately show "\<exists>xs ys. es = xs @ x # ys \<and> P x \<and> (\<forall>e \<in> set ys. \<not> P e)" using i(2) by blast
qed (auto intro!: find_first)

text \<open>An event that changes what may be replayed for a job.\<close>

fun concerns :: "job_id \<Rightarrow> journal_event \<Rightarrow> bool" where
  "concerns j (Job_Finished f) = (jf_job f = j)"
| "concerns j (Quarantine_Released r k) = (k = j)"
| "concerns j _ = False"

lemma replay_step: "map_of (replay_event e m) j =
    (if concerns j e then (case e of Job_Finished f \<Rightarrow> Some f | _ \<Rightarrow> None) else map_of m j)"
  by (cases e) auto

lemma replay_fold:
  "map_of (fold replay_event evs m) j =
     (case find (concerns j) (rev evs) of
        None \<Rightarrow> map_of m j
      | Some (Job_Finished f) \<Rightarrow> Some f
      | Some _ \<Rightarrow> None)"
proof (induction evs rule: rev_induct)
  case (snoc e evs)
  then show ?case by (cases e) (auto simp: replay_step split: option.splits)
qed simp

section \<open>Properties\<close>

text \<open>C33 A prepared run is a partition of the plan in dependency order: exactly the jobs with a
  dependency chain to a missing job are set aside, every other job is in exactly one wave, and its
  dependencies are all in earlier waves.\<close>

theorem prepared_partition:
  assumes "prepare sha256 num stamp rnd p opts gov = ok pr"
  shows "well_prepared pr \<and> map mj_id (pr_jobs pr) = map job_id (plan_jobs p)"
proof -
  have "map mj_id (pr_jobs pr) = map job_id (plan_jobs p)"
    by (rule prepare_ok [OF assms]) (simp add: manifest_job_of_def comp_def)
  with prepare_well_prepared [OF assms] show ?thesis by simp
qed

definition demo_plan :: plan where
  "demo_plan = \<lparr>plan_id = ''p'', plan_jobs =
     [\<lparr>job_id = ''b'', job_op = ''o'', job_input = JNull, job_deps = Some [''a'']\<rparr>,
      \<lparr>job_id = ''a'', job_op = ''o'', job_input = JNull, job_deps = None\<rparr>,
      \<lparr>job_id = ''c'', job_op = ''o'', job_input = JNull, job_deps = Some [''x'']\<rparr>]\<rparr>"

definition demo_opts :: run_options where
  "demo_opts = \<lparr>concurrency = Fin 2, stopOnError = False, journaled = True, opt_maxUsd = None,
     opt_maxTokens = None, resume = True, cqEnv_errors = []\<rparr>"

lemma demo_opts_env: "assertCqEnv (cqEnv_errors demo_opts) = ok ()"
  by (simp add: assertCqEnv_def demo_opts_def)

definition demo_job :: "nat \<Rightarrow> manifest_job" where
  "demo_job n = manifest_job_of id (\<lambda>_. ''1'') (plan_jobs demo_plan ! n)"

definition demo_prepared :: prepared where
  "demo_prepared = \<lparr>pr_run = ''p--k3--0f'', pr_jobs = [demo_job 0, demo_job 1, demo_job 2],
     pr_unschedulable = [''c''], pr_waves = [[demo_job 1], [demo_job 0]]\<rparr>"

lemma demo_job_simps:
  "mj_id (demo_job 0) = ''b''" "mj_deps (demo_job 0) = [''a'']" "mj_op (demo_job 0) = ''o''"
  "mj_id (demo_job (Suc 0)) = ''a''" "mj_deps (demo_job (Suc 0)) = []" "mj_op (demo_job (Suc 0)) = ''o''"
  "mj_id (demo_job 2) = ''c''" "mj_deps (demo_job 2) = [''x'']" "mj_op (demo_job 2) = ''o''"
  by (simp_all add: demo_job_def demo_plan_def manifest_job_of_def)

lemma demo_prepare: "prepare id (\<lambda>_. ''1'') ''k3'' ''0f'' demo_plan demo_opts gov = ok demo_prepared"
proof -
  let ?jobs = "[demo_job 0, demo_job 1, demo_job 2]"
  have d: "deps_of ?jobs = [(''b'', [''a'']), (''a'', []), (''c'', [''x''])]"
    by (simp add: deps_of_def demo_job_simps)
  have "prepass [(''b'', [''a'']), (''a'', []), (''c'', [''x''])] [] = [''c'']" by code_simp
  then have u: "unschedulable ?jobs = [''c'']" by (simp only: unschedulable_def d)
  then have s: "schedulable ?jobs = [demo_job 0, demo_job 1]"
    by (simp add: schedulable_def demo_job_simps)
  have "topoOrder [(''b'', [''a'']), (''a'', [])] = ok [[''a''], [''b'']]" by code_simp
  moreover have "makeManifest id (\<lambda>_. ''1'') demo_plan = ok \<lparr>rm_plan = ''p'', rm_jobs = ?jobs\<rparr>"
    by (simp add: makeManifest_ok demo_job_def demo_plan_def)
  moreover have "option_guards demo_plan demo_opts gov = ok ()"
    by (simp add: option_guards_def demo_opts_def demo_plan_def capped_def)
  moreover have "makeRunId (plan_id demo_plan) ''k3'' ''0f'' (journaled demo_opts) = ok ''p--k3--0f''" by code_simp
  moreover have "job_by_id ?jobs ''a'' = Some (demo_job 1)" "job_by_id ?jobs ''b'' = Some (demo_job 0)"
    by (simp_all add: job_by_id_def demo_job_simps)
  ultimately show ?thesis
    by (simp add: prepare_def demo_opts_env u [unfolded One_nat_def] s [unfolded One_nat_def] lift_error_def demo_prepared_def deps_of_def demo_job_simps)
qed

theorem prepared_partition_witness:
  "well_prepared demo_prepared \<and> map mj_id (pr_jobs demo_prepared) = map job_id (plan_jobs demo_plan)"
  by (rule prepared_partition [OF demo_prepare])

text \<open>After the pre-pass only a cycle can stop the ordering: when the waves are refused, the
  refusal names a dependency cycle, never a duplicate or an unknown dependency.\<close>

lemma only_cycles_refused:
  assumes "prepare sha256 num stamp rnd p opts gov = throw (OrderRefused e)"
  shows "\<exists>st. e = DepCycle st \<and> st \<noteq> []"
proof -
  from assms obtain m where m: "makeManifest sha256 num p = ok m" "option_guards p opts gov = ok ()"
      "topoOrder (deps_of (schedulable (rm_jobs m))) = throw e"
    by (auto simp: prepare_def bind_result_eq_Inl option_guards_no_order makeRunId_no_order assertCqEnv_no_order)
  have "distinct (map mj_id (rm_jobs m))"
    using makeManifest_ok [THEN iffD1, OF m(1)] option_guards_distinct [OF m(2)]
    by (simp add: manifest_job_of_def comp_def)
  then have wf: "well_formed_deps (deps_of (schedulable (rm_jobs m)))" by (rule schedulable_wf)
  then show ?thesis
    using topo_loop_cycle [of "{}" "deps_of (schedulable (rm_jobs m))" e] m(3) topoOrder_wf [OF wf]
    unfolding well_formed_deps_def by (metis Un_empty_left list.set_map)
qed

text \<open>What may be replayed: after folding the history in order, the replay record of a job is its
  last finish, unless the job was released from quarantine after it.\<close>

lemma replay_is_last_unreleased:
  "map_of (fold replay_event evs []) j = Some f \<longleftrightarrow>
     (\<exists>xs ys. evs = xs @ Job_Finished f # ys \<and> jf_job f = j \<and> (\<forall>e \<in> set ys. \<not> concerns j e))"
proof -
  have "find (concerns j) (rev evs) = Some (Job_Finished f) \<longleftrightarrow>
      (\<exists>xs ys. evs = xs @ Job_Finished f # ys \<and> jf_job f = j \<and> (\<forall>e \<in> set ys. \<not> concerns j e))"
    using find_rev [of "concerns j" evs "Job_Finished f"] by simp
  moreover have "map_of (fold replay_event evs []) j = Some f \<longleftrightarrow>
      find (concerns j) (rev evs) = Some (Job_Finished f)"
    by (auto simp: replay_fold split: option.splits journal_event.splits)
  ultimately show ?thesis by simp
qed

definition demo_finish :: job_finished where
  "demo_finish = \<lparr>jf_run = ''r'', jf_job = ''a'', jf_op = ''o'', jf_hash = ''h'', jf_result = ROk JNull,
     jf_usage = None, jf_cost = None, jf_charged = None, jf_workId = None, jf_parent = None,
     jf_role = None, jf_sessions = None\<rparr>"

text \<open>C37 A dollar cap never rises silently: over history with a cap, a governed run that is not
  refused and did not opt in to a raise is bound by a cap that is at most the previous one (its own,
  or the inherited one when it set none).\<close>

definition effective_cap :: "governance \<Rightarrow> prior_facts \<Rightarrow> rat option" where
  "effective_cap g f = (case gv_maxUsd g of Some c \<Rightarrow> Some c | None \<Rightarrow> inherited_cap g f)"

theorem cap_never_rises_silently:
  assumes "refusals planId (Some g) f = ok u" "\<not> ungovernedMarked (Some g)"
    and "pf_prevCap f = Some c" "RaiseCap \<notin> set (gv_optIn g)"
  shows "\<exists>c'. effective_cap g f = Some c' \<and> c' \<le> c"
  using assms
  by (auto simp: refusals_def raises_def effective_cap_def inherited_cap_def split: if_splits option.splits)

definition demo_gov :: governance where
  "demo_gov = \<lparr>gv_maxUsd = Some 3, gv_maxTokens = None, gv_attended = None, gv_allowAdvisory = False,
     gv_provenance = None, gv_release = [], gv_optIn = []\<rparr>"

theorem cap_never_rises_silently_witness:
  "\<exists>c'. effective_cap demo_gov (no_facts\<lparr>pf_prevCap := Some 5\<rparr>) = Some c' \<and> c' \<le> 5"
  by (rule cap_never_rises_silently [of "''p''" _ _ "[]"])
    (simp_all add: demo_gov_def no_facts_def refusals_def raises_def ungovernedMarked_def unaccounted_legacy_def)

text \<open>A run's id is a candidate of its own plan, so its journal is found by the next resume.\<close>

lemma run_id_found:
  assumes "makeRunId planId stamp rnd safe = ok r" "stamp \<noteq> []" "list_all is_alnum stamp"
    and "rnd \<noteq> []" "list_all is_hex rnd"
  shows "r \<in> set (candidateRunsForPlan [r] planId)"
proof -
  have "r = planId @ ''--'' @ stamp @ ''--'' @ rnd"
    using assms(1) by (auto simp: makeRunId_def Let_def split: if_splits)
  moreover have "RUN_ID_TAIL (stamp @ ''--'' @ rnd)"
    using assms(2-5) not_alnum_dash by (simp add: RUN_ID_TAIL_def Let_def takeWhile_append dropWhile_append list_all_iff)
  ultimately show ?thesis by (simp add: candidateRunsForPlan_def starts_with_def)
qed

end
