(* ===== verification/Json_Lossless.thy ===== *)
theory Json_Lossless
  imports Manifest
begin

text \<open>
  \<open>assertJsonLossless\<close> (\<open>src/shared/jsonLossless.ts\<close>, restated in \<open>src/cli/output.ts\<close>): the walk that
  refuses results a JSON line would silently change. \<open>reparse\<close> is \<open>JSON.parse\<close> after
  \<open>JSON.stringify\<close>, as a function on values. Symbol-keyed and non-enumerable members and extra
  members of an array are outside the value type.
\<close>

datatype lossy =
    NonFiniteNumber jsnum
  | UndefinedElement nat
  | NonPlainObject string
  | NonJsonValue

fun assertJsonLossless :: "jsv \<Rightarrow> lossy + unit"
and losslessItems :: "nat \<Rightarrow> jsv list \<Rightarrow> lossy + unit"
and losslessMembers :: "(string \<times> jsv) list \<Rightarrow> lossy + unit" where
  "assertJsonLossless (JStr s) = ok ()"
| "assertJsonLossless (JBool b) = ok ()"
| "assertJsonLossless (JNum n) = (if js_is_finite n then ok () else throw (NonFiniteNumber n))"
| "assertJsonLossless JNull = ok ()"
| "assertJsonLossless (JArr vs) = losslessItems 0 vs"
| "assertJsonLossless (JExotic c ms) = throw (NonPlainObject c)"
| "assertJsonLossless (JObj ms) = losslessMembers ms"
| "assertJsonLossless JFun = throw NonJsonValue"
| "assertJsonLossless JUndef = throw NonJsonValue"
| "losslessItems i [] = ok ()"
| "losslessItems i (v # vs) =
     (if v = JUndef then throw (UndefinedElement i)
      else bind_result (assertJsonLossless v) (\<lambda>_. losslessItems (Suc i) vs))"
| "losslessMembers [] = ok ()"
| "losslessMembers ((k, v) # ms) =
     (if v = JUndef then losslessMembers ms
      else bind_result (assertJsonLossless v) (\<lambda>_. losslessMembers ms))"

text \<open>
  The stringify probe's replacer refuses the first number it visits that is not finite.
\<close>

fun first_nonfinite :: "jsv \<Rightarrow> jsnum option"
and nonfiniteItems :: "jsv list \<Rightarrow> jsnum option"
and nonfiniteMembers :: "(string \<times> jsv) list \<Rightarrow> jsnum option" where
  "first_nonfinite (JNum n) = (if js_is_finite n then None else Some n)"
| "first_nonfinite (JArr vs) = nonfiniteItems vs"
| "first_nonfinite (JObj ms) = nonfiniteMembers ms"
| "first_nonfinite (JExotic c ms) = nonfiniteMembers ms"
| "first_nonfinite _ = None"
| "nonfiniteItems [] = None"
| "nonfiniteItems (v # vs) = (case first_nonfinite v of None \<Rightarrow> nonfiniteItems vs | Some n \<Rightarrow> Some n)"
| "nonfiniteMembers [] = None"
| "nonfiniteMembers ((k, v) # ms) =
     (case first_nonfinite v of None \<Rightarrow> nonfiniteMembers ms | Some n \<Rightarrow> Some n)"

fun reparse :: "jsv \<Rightarrow> jsv option"
and reparseItems :: "jsv list \<Rightarrow> jsv list"
and reparseMembers :: "(string \<times> jsv) list \<Rightarrow> (string \<times> jsv) list" where
  "reparse JUndef = None"
| "reparse JFun = None"
| "reparse JNull = Some JNull"
| "reparse (JBool b) = Some (JBool b)"
| "reparse (JNum n) = Some (if js_is_finite n then JNum n else JNull)"
| "reparse (JStr s) = Some (JStr s)"
| "reparse (JArr vs) = Some (JArr (reparseItems vs))"
| "reparse (JObj ms) = Some (JObj (reparseMembers ms))"
| "reparse (JExotic c ms) = Some (JObj (reparseMembers ms))"
| "reparseItems [] = []"
| "reparseItems (v # vs) = (case reparse v of None \<Rightarrow> JNull | Some w \<Rightarrow> w) # reparseItems vs"
| "reparseMembers [] = []"
| "reparseMembers ((k, v) # ms) =
     (case reparse v of None \<Rightarrow> reparseMembers ms | Some w \<Rightarrow> (k, w) # reparseMembers ms)"

lemma lossless_reparse:
  "assertJsonLossless v = ok () \<Longrightarrow> \<exists>w. reparse v = Some w \<and> same_json w v"
  "losslessItems i vs = ok () \<Longrightarrow> list_all2 same_json (reparseItems vs) vs"
  "losslessMembers ms = ok () \<Longrightarrow>
     list_all2 (\<lambda>p q. fst p = fst q \<and> same_json (snd p) (snd q)) (reparseMembers ms)
       (filter (\<lambda>m. snd m \<noteq> JUndef) ms)"
proof (induction v and i vs and ms rule: assertJsonLossless_losslessItems_losslessMembers.induct)
  case (7 ms)
  then have "same_json (JObj (reparseMembers ms)) (JObj (filter (\<lambda>m. snd m \<noteq> JUndef) ms))"
    by (intro same_json.obj) simp
  then show ?case by (auto intro: same_json.same_trans same_json.drop_undef)
qed (auto simp: bind_result_eq_Inr intro: same_json.intros split: if_splits)

lemma lossless_probe:
  "assertJsonLossless v = ok () \<Longrightarrow> first_nonfinite v = None"
  "losslessItems i vs = ok () \<Longrightarrow> nonfiniteItems vs = None"
  "losslessMembers ms = ok () \<Longrightarrow> nonfiniteMembers ms = None"
  by (induction v and i vs and ms rule: assertJsonLossless_losslessItems_losslessMembers.induct)
    (auto simp: bind_result_eq_Inr split: if_splits)

section \<open>Property\<close>

text \<open>A result the walk accepts survives its journal line: parsing the line back gives the same
  JSON record (up to members that are explicitly undefined, which are absent data), with the same
  canonical form, and the stringify probe accepts it too.\<close>

lemma lossless_roundtrip:
  assumes "assertJsonLossless v = ok ()"
  shows "\<exists>w. reparse v = Some w \<and> same_json w v \<and> canonicalJson num w = canonicalJson num v \<and> first_nonfinite v = None"
  using lossless_reparse(1) [OF assms] lossless_probe(1) [OF assms] canonicalJson_same by blast

end
