(* ===== verification/Run_Entries.thy ===== *)
theory Run_Entries
  imports Run_Plan Json_Lossless Spend_Evidence
begin

text \<open>
  The per-job pieces of \<open>src/kernel/runner.ts\<close>: \<open>executeOp\<close> (the only way an operation is invoked),
  the session links of a finish, the outcome entries of a run with the rows fixed before dispatch
  (missing dependencies, quarantine), and the blocking rule. The registry, the input schema and the
  operation bodies are parameters, as functions to their outcomes.
\<close>

section \<open>Invoking an operation\<close>

definition quoted :: "string \<Rightarrow> string" where
  "quoted s = CHR 0x27 # s @ [CHR 0x27]"

text \<open>An operation's promise rejects, resolves to something that is no result, or to a result.\<close>

datatype op_return = Rejects string | Malformed | Returns op_result

record op_entry =
  oe_parse :: "jsv \<Rightarrow> string + jsv"
  oe_import :: "string + (jsv \<Rightarrow> op_return)"

type_synonym registry = "op_name \<Rightarrow> string + op_entry option"

record executed =
  ex_result :: op_result
  ex_unknown :: bool

definition ended :: "op_result \<Rightarrow> executed" where
  "ended r = \<lparr>ex_result = r, ex_unknown = False\<rparr>"

fun num_text :: "jsnum \<Rightarrow> string" where
  "num_text PosInf = ''Infinity''"
| "num_text NegInf = ''-Infinity''"
| "num_text NaN = ''NaN''"
| "num_text (Fin r) = ''finite''"

fun lossy_message :: "lossy \<Rightarrow> string" where
  "lossy_message (NonFiniteNumber n) = ''non-finite number '' @ num_text n"
| "lossy_message (UndefinedElement i) = ''undefined array element at ['' @ nat_str i @ '']''"
| "lossy_message (NonPlainObject c) = ''non-plain object of type '' @ quoted c"
| "lossy_message NonJsonValue = ''non-JSON value''"

text \<open>The two probes over a well-formed result; only an ok result carries a value.\<close>

fun unserializable :: "op_result \<Rightarrow> string option" where
  "unserializable (ROk v) =
     (case first_nonfinite v of
        Some n \<Rightarrow> Some (''non-finite number '' @ num_text n)
      | None \<Rightarrow>
          if v = JUndef then Some (''ok result without a '' @ quoted ''value'')
          else (case assertJsonLossless v of Inl e \<Rightarrow> Some (lossy_message e) | Inr _ \<Rightarrow> None))"
| "unserializable _ = None"

definition judge_return :: "op_name \<Rightarrow> op_return \<Rightarrow> executed" where
  "judge_return oper ret =
     (case ret of
        Rejects msg \<Rightarrow> \<lparr>ex_result = RFailed msg, ex_unknown = True\<rparr>
      | Malformed \<Rightarrow> \<lparr>ex_result = RFailed (''op '' @ quoted oper
            @ '' violated the op contract: did not return an OpResult''), ex_unknown = True\<rparr>
      | Returns r \<Rightarrow>
          (case unserializable r of
             Some msg \<Rightarrow> ended (RFailed (''op '' @ quoted oper @ '' returned a non-serializable result: '' @ msg))
           | None \<Rightarrow> ended r))"

text \<open>
  A guard passes, refuses with a result, or throws (the private infrastructure guard, outside the
  conversion of ordinary errors to results).
\<close>

definition executeOp :: "registry \<Rightarrow> op_name \<Rightarrow> jsv \<Rightarrow> 'f + op_result option \<Rightarrow> 'f + op_result option
    \<Rightarrow> 'f + executed" where
  "executeOp lookup oper input beforeBody assertAllowed =
     (case lookup oper of
        Inl msg \<Rightarrow> ok (ended (RFailed (''registry lookup for op '' @ quoted oper @ '' failed: '' @ msg)))
      | Inr None \<Rightarrow> ok (ended (RFailed (''unknown op '' @ quoted oper)))
      | Inr (Some entry) \<Rightarrow>
         (case oe_parse entry input of
            Inl msg \<Rightarrow> ok (ended (RFailed msg))
          | Inr parsed \<Rightarrow>
             (case oe_import entry of
                Inl msg \<Rightarrow> ok (ended (RFailed msg))
              | Inr body \<Rightarrow>
                 bind_result beforeBody (\<lambda>refusal.
                   case refusal of
                     Some r \<Rightarrow> ok (ended r)
                   | None \<Rightarrow> bind_result assertAllowed (\<lambda>refusal2.
                       case refusal2 of
                         Some r \<Rightarrow> ok (ended r)
                       | None \<Rightarrow> ok (judge_return oper (body parsed)))))))"

section \<open>Session links\<close>

definition nonempty_str :: "jsv \<Rightarrow> string option" where
  "nonempty_str v = (case v of JStr s \<Rightarrow> if s = [] then None else Some s | _ \<Rightarrow> None)"

definition sessionsOfResult :: "op_result \<Rightarrow> session_link list option" where
  "sessionsOfResult r =
     (case r of
        ROk v \<Rightarrow>
          (case object_members v of
             None \<Rightarrow> None
           | Some ms \<Rightarrow> map_option (\<lambda>sid.
               [\<lparr>sl_driver = ''unknown'', sl_session = sid,
                 sl_native = nonempty_str (js_get ms ''nativeSessionId''),
                 sl_path = nonempty_str (js_get ms ''nativeSessionPath'')\<rparr>])
               (nonempty_str (js_get ms ''sessionId'')))
      | _ \<Rightarrow> None)"

definition validSessionLink :: "jsv \<Rightarrow> session_link option" where
  "validSessionLink link =
     (case object_members link of
        None \<Rightarrow> None
      | Some ms \<Rightarrow> map_option (\<lambda>sid.
          \<lparr>sl_driver = (case nonempty_str (js_get ms ''driver'') of None \<Rightarrow> ''unknown'' | Some d \<Rightarrow> d),
           sl_session = sid,
           sl_native = nonempty_str (js_get ms ''nativeSessionId''),
           sl_path = nonempty_str (js_get ms ''path'')\<rparr>)
          (nonempty_str (js_get ms ''sessionId'')))"

definition fill :: "'a option \<Rightarrow> 'a option \<Rightarrow> 'a option" where
  "fill a b = (case a of None \<Rightarrow> b | Some x \<Rightarrow> Some x)"

definition merge_link :: "session_link \<Rightarrow> session_link \<Rightarrow> session_link" where
  "merge_link prior link = prior\<lparr>
     sl_driver := (if sl_driver prior = ''unknown'' \<and> sl_driver link \<noteq> ''unknown''
                   then sl_driver link else sl_driver prior),
     sl_native := fill (sl_native prior) (sl_native link),
     sl_path := fill (sl_path prior) (sl_path link)\<rparr>"

definition add_link :: "session_link \<Rightarrow> (string, session_link) omap \<Rightarrow> (string, session_link) omap" where
  "add_link link m =
     (case map_of m (sl_session link) of
        None \<Rightarrow> omap_set (sl_session link) link m
      | Some prior \<Rightarrow> omap_set (sl_session link) (merge_link prior link) m)"

definition mergeSessionLinks :: "session_link list option \<Rightarrow> session_link list \<Rightarrow> session_link list option" where
  "mergeSessionLinks fromResult reported =
     (let m = fold add_link ((case fromResult of None \<Rightarrow> [] | Some ls \<Rightarrow> ls) @ reported) []
      in if m = [] then None else Some (map snd m))"

section \<open>Outcome entries\<close>

datatype origin = FromRun | FromReplay | FromBlock | FromQueue | FromQuarantine

record entry =
  en_result :: op_result
  en_state :: job_state
  en_usage :: "usage option"
  en_cost :: "rat option"
  en_origin :: origin

type_synonym entries = "(job_id, entry) omap"

fun stateFromResult :: "op_result \<Rightarrow> job_state" where
  "stateFromResult (ROk _) = Done"
| "stateFromResult (RFailed _) = Failed"
| "stateFromResult RBudgetExhausted = Budget_Exhausted"
| "stateFromResult (RNeedsHuman _) = Blocked"
| "stateFromResult (RIndeterminate _) = Failed"

definition plain_entry :: "op_result \<Rightarrow> job_state \<Rightarrow> origin \<Rightarrow> entry" where
  "plain_entry r s og = \<lparr>en_result = r, en_state = s, en_usage = None, en_cost = None, en_origin = og\<rparr>"

definition executed_entry :: "op_result \<Rightarrow> usage option \<Rightarrow> rat option \<Rightarrow> entry" where
  "executed_entry r u c = \<lparr>en_result = r, en_state = stateFromResult r, en_usage = u, en_cost = c, en_origin = FromRun\<rparr>"

text \<open>Rows blocked from the start, and the quarantined ones (their reason is kept to its first clause).\<close>

definition unschedulable_entry :: "job_id list \<Rightarrow> manifest_job \<Rightarrow> entry" where
  "unschedulable_entry jobIds j =
     plain_entry (RFailed (case find (\<lambda>d. d \<notin> set jobIds) (mj_deps j) of
         Some d \<Rightarrow> ''blocked: dependency '' @ quoted d @ '' missing from plan''
       | None \<Rightarrow> ''blocked: upstream dependency did not succeed'')) Blocked FromBlock"

definition unschedulable_entries :: "prepared \<Rightarrow> entries" where
  "unschedulable_entries p =
     fold (\<lambda>j m. if mj_id j \<in> set (pr_unschedulable p)
                then omap_set (mj_id j) (unschedulable_entry (map mj_id (pr_jobs p)) j) m else m)
       (pr_jobs p) []"

record launch =
  la_entries :: entries
  la_journal :: "journal_event list"
  la_replay :: "(job_id, job_finished) omap"

definition quarantine_reason :: "string \<Rightarrow> string" where
  "quarantine_reason rid = ''quarantined: unresolved reservation '' @ quoted rid"

definition quarantine_job :: "run_id \<Rightarrow> job_id list \<Rightarrow> job_id list \<Rightarrow> (job_id, string \<times> rat) omap
    \<Rightarrow> manifest_job \<Rightarrow> launch \<Rightarrow> launch" where
  "quarantine_job runId unsched releases quarantined j l =
     (if mj_id j \<in> set unsched then l
      else case map_of quarantined (mj_id j) of
        None \<Rightarrow> l
      | Some (rid, usd) \<Rightarrow>
          if mj_id j \<in> set releases
          then l\<lparr>la_journal := la_journal l @ [Quarantine_Released runId (mj_id j)],
                 la_replay := omap_del (mj_id j) (la_replay l)\<rparr>
          else l\<lparr>la_journal := la_journal l @ [Job_Quarantined runId (mj_id j) rid usd],
                 la_entries := omap_set (mj_id j)
                   (plain_entry (RNeedsHuman (quarantine_reason rid)) Blocked FromQuarantine) (la_entries l)\<rparr>)"

text \<open>The state of the run when its waves start.\<close>

definition launch_of :: "prepared \<Rightarrow> run_started \<Rightarrow> governance option \<Rightarrow> (job_id, string \<times> rat) omap
    \<Rightarrow> (job_id, job_finished) omap \<Rightarrow> launch" where
  "launch_of p started gov quarantined replay =
     (let l = \<lparr>la_entries = unschedulable_entries p, la_journal = [Run_Started started], la_replay = replay\<rparr>
      in if governedDispatch gov
         then fold (quarantine_job (pr_run p) (pr_unschedulable p)
                (case gov of None \<Rightarrow> [] | Some g \<Rightarrow> gv_release g) quarantined) (pr_jobs p) l
         else l)"

section \<open>Blocking\<close>

text \<open>\<open>cancelled\<close>: the governed run was stopped by its signal.\<close>

definition definitivelyNotOk :: "bool \<Rightarrow> entries \<Rightarrow> job_id \<Rightarrow> bool" where
  "definitivelyNotOk cancelled es dep =
     (case map_of es dep of
        None \<Rightarrow> \<not> cancelled
      | Some e \<Rightarrow>
          if en_state e = Done \<or> en_state e = Queued then False
          else \<not> (cancelled \<and> status (en_result e) = Indeterminate_st))"

definition blockedResult :: "bool \<Rightarrow> entries \<Rightarrow> manifest_job \<Rightarrow> op_result" where
  "blockedResult cancelled es j =
     RFailed (''blocked: dependency ''
       @ quoted (case find (definitivelyNotOk cancelled es) (mj_deps j) of None \<Rightarrow> ''undefined'' | Some d \<Rightarrow> d)
       @ '' did not succeed'')"

definition ready :: "entries \<Rightarrow> manifest_job \<Rightarrow> bool" where
  "ready es j \<longleftrightarrow> list_all (\<lambda>d. map_option en_state (map_of es d) = Some Done) (mj_deps j)"

end
