(* ===== verification/Entry_Laws.thy ===== *)
theory Entry_Laws
  imports Run_Entries
begin

text \<open>
  What the only way of invoking an operation promises: every verdict can be journalled without
  changing, and a verdict is marked as one the evidence cannot price exactly when the body was
  entered and did not produce a result.
\<close>

lemma executeOp_ok:
  assumes "executeOp lookup oper input before allow = ok x"
  obtains (refused) r where "x = ended r" "(\<exists>e. r = RFailed e) \<or> before = ok (Some r) \<or> allow = ok (Some r)"
  | (entered) entry parsed body where "lookup oper = ok (Some entry)" "oe_parse entry input = ok parsed"
      "oe_import entry = ok body" "before = ok None" "allow = ok None" "x = judge_return oper (body parsed)"
proof -
  consider e where "lookup oper = Inl e" | "lookup oper = ok None"
    | entry e where "lookup oper = ok (Some entry)" "oe_parse entry input = Inl e"
    | entry parsed e where "lookup oper = ok (Some entry)" "oe_parse entry input = ok parsed" "oe_import entry = Inl e"
    | entry parsed body where "lookup oper = ok (Some entry)" "oe_parse entry input = ok parsed" "oe_import entry = ok body"
    by (metis old.sum.exhaust option.exhaust)
  then show thesis
  proof cases
    case 5
    with assms have b: "bind_result before (\<lambda>refusal. case refusal of Some r \<Rightarrow> ok (ended r)
        | None \<Rightarrow> bind_result allow (\<lambda>refusal2. case refusal2 of Some r \<Rightarrow> ok (ended r)
            | None \<Rightarrow> ok (judge_return oper (body parsed)))) = ok x"
      by (simp add: executeOp_def)
    then obtain r1 where r1: "before = ok r1" by (auto simp: bind_result_eq_Inr)
    show thesis
    proof (cases r1)
      case (Some r)
      with b r1 show thesis by (intro refused [of r]) simp_all
    next
      case None
      with b r1 obtain r2 where r2: "allow = ok r2" by (auto simp: bind_result_eq_Inr)
      show thesis
      proof (cases r2)
        case (Some r)
        with None b r1 r2 show thesis by (intro refused [of r]) simp_all
      next
        case n2: None
        with None b r1 r2 show thesis by (intro entered [OF 5]) simp_all
      qed
    qed
  qed (use assms refused in \<open>auto simp: executeOp_def\<close>)
qed

lemma judge_return_ok:
  "ex_result (judge_return oper ret) = ROk v \<Longrightarrow> ret = Returns (ROk v) \<and> unserializable (ROk v) = None"
  by (auto simp: judge_return_def ended_def split: op_return.splits option.splits)

lemma judge_return_unknown:
  "ex_unknown (judge_return oper ret) \<longleftrightarrow> ret = Malformed \<or> (\<exists>e. ret = Rejects e)"
  by (auto simp: judge_return_def ended_def split: op_return.splits option.splits)

text \<open>A successful verdict survives its journal line: whatever the operation returned, the value of
  an ok result of \<open>executeOp\<close> comes back from the line unchanged (explicitly undefined members count
  as absent); guards that refuse never pass for a success.\<close>

lemma op_value_survives:
  assumes "executeOp lookup oper input before allow = ok x" "ex_result x = ROk v"
    and "before \<noteq> ok (Some (ROk v))" "allow \<noteq> ok (Some (ROk v))"
  shows "\<exists>w. reparse v = Some w \<and> same_json w v"
  using assms(1)
proof (cases rule: executeOp_ok)
  case (refused r)
  with assms(2-4) show ?thesis by (auto simp: ended_def)
next
  case (entered entry parsed body)
  then have "unserializable (ROk v) = None" using assms(2) judge_return_ok by metis
  then have "assertJsonLossless v = ok ()" by (auto split: option.splits if_splits sum.splits)
  then show ?thesis by (rule lossless_reparse(1))
qed

definition demo_registry :: "jsv \<Rightarrow> registry" where
  "demo_registry v = (\<lambda>_. ok (Some \<lparr>oe_parse = ok, oe_import = ok (\<lambda>_. Returns (ROk v))\<rparr>))"

text \<open>The unpriced mark is exact: \<open>executeOp\<close> marks
  a verdict as one whose spend nobody saw exactly when the operation's body was entered and then
  rejected or returned something that is no result, never for a failure before the body.\<close>

lemma dispatch_unknown_exact:
  assumes "executeOp lookup oper input before allow = ok x"
  shows "ex_unknown x \<longleftrightarrow>
     (\<exists>entry parsed body. lookup oper = ok (Some entry) \<and> oe_parse entry input = ok parsed
        \<and> oe_import entry = ok body \<and> before = ok None \<and> allow = ok None
        \<and> (body parsed = Malformed \<or> (\<exists>e. body parsed = Rejects e)))"
proof
  assume u: "ex_unknown x"
  from assms show "\<exists>entry parsed body. lookup oper = ok (Some entry) \<and> oe_parse entry input = ok parsed
        \<and> oe_import entry = ok body \<and> before = ok None \<and> allow = ok None
        \<and> (body parsed = Malformed \<or> (\<exists>e. body parsed = Rejects e))"
    by (cases rule: executeOp_ok) (use u judge_return_unknown in \<open>auto simp: ended_def\<close>)
next
  assume "\<exists>entry parsed body. lookup oper = ok (Some entry) \<and> oe_parse entry input = ok parsed
        \<and> oe_import entry = ok body \<and> before = ok None \<and> allow = ok None
        \<and> (body parsed = Malformed \<or> (\<exists>e. body parsed = Rejects e))"
  with assms show "ex_unknown x" by (auto simp: executeOp_def judge_return_unknown)
qed

end
