(* ===== verification/Honest_Stop.thy ===== *)
theory Honest_Stop
  imports Run_Entries
begin

text \<open>
  How a run ends (\<open>src/kernel/runner.ts\<close>): the stop sweep over jobs that never started, the
  governed honest-stop pass that marks the rows a budget stop caused, and the report. The memoized
  walk that attributes a row to the budget is shown to compute the least solution of its rule.
\<close>

section \<open>Stop sweep\<close>

definition queued_result :: op_result where
  "queued_result = RIndeterminate ''queued: run stopped before dispatch''"

definition sweep_job :: "bool \<Rightarrow> manifest_job \<Rightarrow> entries \<Rightarrow> entries" where
  "sweep_job cancelled j es =
     (if omap_has (mj_id j) es then es
      else if list_ex (definitivelyNotOk cancelled es) (mj_deps j)
        then omap_set (mj_id j) (plain_entry (blockedResult cancelled es j) Blocked FromBlock) es
      else omap_set (mj_id j) (plain_entry queued_result Queued FromQueue) es)"

definition stop_sweep :: "bool \<Rightarrow> manifest_job list list \<Rightarrow> entries \<Rightarrow> entries" where
  "stop_sweep cancelled waves es = fold (sweep_job cancelled) (concat waves) es"

section \<open>Attribution to the budget\<close>

text \<open>What one attribution pass reads: the entries, the dependencies and the admitted jobs.\<close>

record attribution =
  at_entries :: entries
  at_deps :: "(job_id, job_id list) omap"
  at_admitted :: "job_id list"

definition deps_at :: "attribution \<Rightarrow> job_id \<Rightarrow> job_id list" where
  "deps_at a j = (case map_of (at_deps a) j of None \<Rightarrow> [] | Some ds \<Rightarrow> ds)"

type_synonym memo = "(job_id, bool) omap"

text \<open>The rows whose cause does not depend on other rows.\<close>

definition own_cause :: "attribution \<Rightarrow> job_id \<Rightarrow> entry \<Rightarrow> bool option" where
  "own_cause a j e =
     (if status (en_result e) = BudgetExhausted_st then Some True
      else if en_origin e = FromQueue \<and> j \<notin> set (at_admitted a) then Some True
      else if en_origin e = FromBlock then None
      else Some False)"

function (sequential) budgetCaused :: "attribution \<Rightarrow> job_id list \<Rightarrow> memo \<Rightarrow> job_id \<Rightarrow> bool \<times> memo"
and allCaused :: "attribution \<Rightarrow> job_id list \<Rightarrow> memo \<Rightarrow> job_id list \<Rightarrow> bool \<times> memo" where
  "budgetCaused a inProgress m j =
     (case map_of m j of
        Some b \<Rightarrow> (b, m)
      | None \<Rightarrow>
          if j \<in> set inProgress then (False, m)
          else (case map_of (at_entries a) j of
                  None \<Rightarrow> (False, omap_set j False m)
                | Some e \<Rightarrow>
                    (case own_cause a j e of
                       Some b \<Rightarrow> (b, omap_set j b m)
                     | None \<Rightarrow> (let (b, m') = allCaused a (j # inProgress) m (deps_at a j)
                               in (b, omap_set j b m')))))"
| "allCaused a inProgress m [] = (True, m)"
| "allCaused a inProgress m (d # ds) =
     (if \<not> definitivelyNotOk False (at_entries a) d then allCaused a inProgress m ds
      else (let (b, m') = budgetCaused a inProgress m d
            in if b then allCaused a inProgress m' ds else (False, m')))"
  by pat_completeness auto
termination
proof (relation "measures
    [\<lambda>x. case x of Inl (a, ip, m, j) \<Rightarrow> card (set (okeys (at_entries a)) - set ip)
               | Inr (a, ip, m, ds) \<Rightarrow> card (set (okeys (at_entries a)) - set ip),
     \<lambda>x. case x of Inl _ \<Rightarrow> 0 | Inr (a, ip, m, ds) \<Rightarrow> Suc (length ds)]")
  fix a :: attribution and ip :: "job_id list" and m :: memo and j e
  assume j: "j \<notin> set ip" "map_of (at_entries a) j = Some e"
  then have "j \<in> set (okeys (at_entries a))" by (metis map_of_eq_None_iff option.distinct(1) list.set_map)
  with j(1) have "set (okeys (at_entries a)) - set (j # ip) \<subset> set (okeys (at_entries a)) - set ip" by auto
  then have "card (set (okeys (at_entries a)) - set (j # ip)) < card (set (okeys (at_entries a)) - set ip)"
    by (intro psubset_card_mono) auto
  then show "(Inr (a, j # ip, m, deps_at a j), Inl (a, ip, m, j)) \<in> measures
    [\<lambda>x. case x of Inl (a, ip, m, j) \<Rightarrow> card (set (okeys (at_entries a)) - set ip)
               | Inr (a, ip, m, ds) \<Rightarrow> card (set (okeys (at_entries a)) - set ip),
     \<lambda>x. case x of Inl _ \<Rightarrow> 0 | Inr (a, ip, m, ds) \<Rightarrow> Suc (length ds)]" by (simp del: set_map)
qed auto

declare budgetCaused.simps [simp del] allCaused.simps [simp del]

text \<open>The loop over the manifest: entries change while it runs, the memo is kept.\<close>

definition exhausted_entry :: "origin \<Rightarrow> entry" where
  "exhausted_entry og = plain_entry RBudgetExhausted Budget_Exhausted og"

record remark =
  rk_entries :: entries
  rk_memo :: memo
  rk_any :: bool

definition remark_job :: "(job_id, job_id list) omap \<Rightarrow> job_id list \<Rightarrow> manifest_job \<Rightarrow> remark \<Rightarrow> remark" where
  "remark_job deps admitted j r =
     (case map_of (rk_entries r) (mj_id j) of
        None \<Rightarrow> r
      | Some e \<Rightarrow>
         (let mark = r\<lparr>rk_entries := omap_set (mj_id j) (exhausted_entry (en_origin e)) (rk_entries r), rk_any := True\<rparr>
          in if en_origin e = FromQueue \<and> mj_id j \<notin> set admitted then mark
             else if en_origin e = FromBlock
             then (let (b, m) = budgetCaused \<lparr>at_entries = rk_entries r, at_deps = deps, at_admitted = admitted\<rparr>
                              [] (rk_memo r) (mj_id j)
                   in if b then mark\<lparr>rk_memo := m\<rparr> else r\<lparr>rk_memo := m\<rparr>)
             else r))"

definition remark_budget :: "manifest_job list \<Rightarrow> job_id list \<Rightarrow> entries \<Rightarrow> remark" where
  "remark_budget jobs admitted es =
     fold (remark_job (map (\<lambda>j. (mj_id j, mj_deps j)) jobs) admitted) jobs
       \<lparr>rk_entries = es, rk_memo = [], rk_any = False\<rparr>"

text \<open>What the pass is told about the governor: its trip, and which refusals it recorded.\<close>

record stop_facts =
  sf_trip :: "trip_kind option"
  sf_quotaRefused :: bool
  sf_advisoryRefused :: bool
  sf_cancelledWhileQueued :: bool
  sf_stopRequested :: bool

definition honest_stop :: "manifest_job list \<Rightarrow> job_id list \<Rightarrow> stop_facts \<Rightarrow> entries
    \<Rightarrow> entries \<times> early_stop option" where
  "honest_stop jobs admitted f es =
     (if sf_trip f = Some Signal
      then (es, if sf_cancelledWhileQueued f \<or> list_ex (\<lambda>(_, e). en_state e = Queued) es
                then Some StopSignal else None)
      else if sf_trip f \<noteq> None \<or> sf_quotaRefused f \<or> sf_advisoryRefused f \<and> \<not> sf_stopRequested f
      then (let r = remark_budget jobs admitted es
            in (rk_entries r, if rk_any r then Some StopBudget else None))
      else (es, None))"

section \<open>Report\<close>

record job_outcome =
  jo_job :: job_id
  jo_op :: op_name
  jo_result :: op_result
  jo_usage :: "usage option"
  jo_cost :: "rat option"

record run_report =
  rp_run :: run_id
  rp_reason :: "early_stop option"
  rp_counts :: run_counts
  rp_jobs :: "job_outcome list"
  rp_usage :: "usage option"
  rp_cost :: "rat option"

definition emptyCounts :: run_counts where
  "emptyCounts = \<lparr>c_queued = 0, c_running = 0, c_blocked = 0, c_done = 0, c_failed = 0, c_budget = 0\<rparr>"

fun count_state :: "job_state \<Rightarrow> run_counts \<Rightarrow> run_counts" where
  "count_state Queued c = c\<lparr>c_queued := c_queued c + 1\<rparr>"
| "count_state Running c = c\<lparr>c_running := c_running c + 1\<rparr>"
| "count_state Blocked c = c\<lparr>c_blocked := c_blocked c + 1\<rparr>"
| "count_state Done c = c\<lparr>c_done := c_done c + 1\<rparr>"
| "count_state Failed c = c\<lparr>c_failed := c_failed c + 1\<rparr>"
| "count_state Budget_Exhausted c = c\<lparr>c_budget := c_budget c + 1\<rparr>"

definition counts_of :: "entries \<Rightarrow> run_counts" where
  "counts_of es = fold (\<lambda>(_, e). count_state (en_state e)) es emptyCounts"

definition row_of :: "entries \<Rightarrow> manifest_job \<Rightarrow> job_outcome option" where
  "row_of es j = map_option (\<lambda>e. \<lparr>jo_job = mj_id j, jo_op = mj_op j, jo_result = en_result e,
     jo_usage = en_usage e, jo_cost = en_cost e\<rparr>) (map_of es (mj_id j))"

text \<open>Dispatch order over the waves, then the unschedulable jobs in manifest order.\<close>

definition report_order :: "prepared \<Rightarrow> manifest_job list" where
  "report_order p = concat (pr_waves p) @ filter (\<lambda>j. mj_id j \<in> set (pr_unschedulable p)) (pr_jobs p)"

text \<open>The loop over the rows with usage; \<open>reasoning\<close> stays absent until one row carries it.\<close>

definition add_row_usage :: "usage \<Rightarrow> usage \<Rightarrow> usage" where
  "add_row_usage t u = Usage (u_input t + u_input u) (u_output t + u_output u)
     (u_cache_read t + u_cache_read u) (u_cache_write t + u_cache_write u)
     (case u_reasoning u of None \<Rightarrow> u_reasoning t
      | Some r \<Rightarrow> Some ((case u_reasoning t of None \<Rightarrow> 0 | Some x \<Rightarrow> x) + r))"

definition usage_rollup :: "job_outcome list \<Rightarrow> usage option" where
  "usage_rollup rows =
     (let us = List.map_filter jo_usage rows
      in if us = [] then None else Some (fold (\<lambda>u t. add_row_usage t u) us (Usage 0 0 0 0 None)))"

text \<open>\<open>None\<close>: a job without an entry, whose row the code could not read.\<close>

definition report :: "prepared \<Rightarrow> bool \<Rightarrow> rat \<Rightarrow> entries \<Rightarrow> early_stop option \<Rightarrow> run_report option" where
  "report p governed usdSpent es reason =
     map_option (\<lambda>rows.
       \<lparr>rp_run = pr_run p, rp_reason = reason, rp_counts = counts_of es, rp_jobs = rows,
        rp_usage = usage_rollup rows,
        rp_cost = (if governed \<and> 0 < usdSpent then Some usdSpent else None)\<rparr>)
     (those (map (row_of es) (report_order p)))"

section \<open>The attribution rule\<close>

text \<open>
  The rule the walk implements, as its least solution: a row is caused by the budget when it is
  itself a budget verdict or an undispatched row, or when it was blocked and every dependency that
  blocked it is caused by the budget.
\<close>

inductive caused :: "attribution \<Rightarrow> job_id \<Rightarrow> bool" for a where
  caused_own: "map_of (at_entries a) j = Some e \<Longrightarrow> own_cause a j e = Some True \<Longrightarrow> caused a j"
| caused_deps: "map_of (at_entries a) j = Some e \<Longrightarrow> own_cause a j e = None
    \<Longrightarrow> (\<And>d. d \<in> set (deps_at a j) \<Longrightarrow> definitivelyNotOk False (at_entries a) d \<Longrightarrow> caused a d)
    \<Longrightarrow> caused a j"

inductive_cases causedE: "caused a j"
inductive_simps caused_iff: "caused a j"

definition requires :: "attribution \<Rightarrow> (job_id \<times> job_id) set" where
  "requires a = {(d, j). \<exists>e. map_of (at_entries a) j = Some e \<and> own_cause a j e = None
     \<and> d \<in> set (deps_at a j) \<and> definitivelyNotOk False (at_entries a) d}"

text \<open>A caused row is never on a cycle of requirements, so a row met again in progress is not caused.\<close>

lemma caused_acc: "caused a j \<Longrightarrow> j \<in> Wellfounded.acc (requires a)"
proof (induction rule: caused.induct)
  case (caused_own j e)
  then have "(y, j) \<notin> requires a" for y by (simp add: requires_def)
  then show ?case by (blast intro: acc.intros)
next
  case (caused_deps j e)
  show ?case
  proof (rule acc.intros)
    fix y assume "(y, j) \<in> requires a"
    then have "y \<in> set (deps_at a j)" "definitivelyNotOk False (at_entries a) y"
      by (auto simp: requires_def)
    then show "y \<in> Wellfounded.acc (requires a)" by (rule caused_deps.IH)
  qed
qed

lemma acc_no_cycle: "j \<in> Wellfounded.acc r \<Longrightarrow> (j, j) \<notin> r\<^sup>+"
proof (induction rule: acc.induct)
  case (accI x)
  show ?case
  proof
    assume "(x, x) \<in> r\<^sup>+"
    then obtain y where y: "(y, x) \<in> r" "(x, y) \<in> r\<^sup>*" by (meson tranclD2)
    then have "(y, y) \<in> r\<^sup>+" by (metis rtrancl_into_trancl2)
    with accI y show False by blast
  qed
qed

definition memo_ok :: "attribution \<Rightarrow> memo \<Rightarrow> bool" where
  "memo_ok a m \<longleftrightarrow> (\<forall>j b. map_of m j = Some b \<longrightarrow> b = caused a j)"

lemma memo_ok_set: "memo_ok a m \<Longrightarrow> memo_ok a (omap_set j (caused a j) m)"
  by (auto simp: memo_ok_def)

lemma caused_no_entry: "map_of (at_entries a) j = None \<Longrightarrow> \<not> caused a j"
  by (auto elim: causedE)

lemma caused_own_iff:
  "map_of (at_entries a) j = Some e \<Longrightarrow> own_cause a j e = Some b \<Longrightarrow> caused a j \<longleftrightarrow> b"
  by (auto elim: causedE intro: caused.intros)

lemma caused_deps_iff:
  "map_of (at_entries a) j = Some e \<Longrightarrow> own_cause a j e = None \<Longrightarrow>
   caused a j \<longleftrightarrow> (\<forall>d \<in> set (deps_at a j). definitivelyNotOk False (at_entries a) d \<longrightarrow> caused a d)"
  by (subst caused_iff) (simp add: Ball_def)

text \<open>The walk computes the rule, and keeps the memo exact.\<close>

lemma budgetCaused_correct:
  "memo_ok a m \<Longrightarrow> \<forall>i \<in> set ip. (j, i) \<in> (requires a)\<^sup>+
   \<Longrightarrow> budgetCaused a ip m j = (b, m') \<Longrightarrow> b = caused a j \<and> memo_ok a m'"
  "memo_ok a m \<Longrightarrow> \<forall>d \<in> set ds. definitivelyNotOk False (at_entries a) d \<longrightarrow> (\<forall>i \<in> set ip. (d, i) \<in> (requires a)\<^sup>+)
   \<Longrightarrow> allCaused a ip m ds = (b, m') \<Longrightarrow>
   b = (\<forall>d \<in> set ds. definitivelyNotOk False (at_entries a) d \<longrightarrow> caused a d) \<and> memo_ok a m'"
proof (induction a ip m j and a ip m ds arbitrary: b m' and b m' rule: budgetCaused_allCaused.induct)
  case (1 a ip m j)
  consider (memo) v where "map_of m j = Some v" | (loop) "map_of m j = None" "j \<in> set ip"
    | (absent) "map_of m j = None" "j \<notin> set ip" "map_of (at_entries a) j = None"
    | (own) e v where "map_of m j = None" "j \<notin> set ip" "map_of (at_entries a) j = Some e" "own_cause a j e = Some v"
    | (deps) e where "map_of m j = None" "j \<notin> set ip" "map_of (at_entries a) j = Some e" "own_cause a j e = None"
    by (metis option.exhaust)
  then show ?case
  proof cases
    case memo
    with "1.prems" show ?thesis by (auto simp: budgetCaused.simps memo_ok_def)
  next
    case loop
    then have "(j, j) \<in> (requires a)\<^sup>+" using "1.prems"(2) by simp
    then have "\<not> caused a j" using caused_acc [of a j] acc_no_cycle [of j "requires a"] by fast
    with loop "1.prems" show ?thesis by (simp add: budgetCaused.simps)
  next
    case absent
    with "1.prems" memo_ok_set [of a m j] show ?thesis
      by (simp add: budgetCaused.simps caused_no_entry)
  next
    case own
    with "1.prems" memo_ok_set [of a m j] caused_own_iff [OF own(3,4)] show ?thesis
      by (auto simp: budgetCaused.simps)
  next
    case deps
    obtain c m1 where c: "allCaused a (j # ip) m (deps_at a j) = (c, m1)" by fastforce
    have "\<forall>d \<in> set (deps_at a j). definitivelyNotOk False (at_entries a) d \<longrightarrow>
        (\<forall>i \<in> set (j # ip). (d, i) \<in> (requires a)\<^sup>+)"
    proof (intro ballI impI)
      fix d i assume d: "d \<in> set (deps_at a j)" "definitivelyNotOk False (at_entries a) d" and i: "i \<in> set (j # ip)"
      have "(d, j) \<in> requires a" using d deps(3,4) by (auto simp: requires_def)
      with i "1.prems"(2) show "(d, i) \<in> (requires a)\<^sup>+" by (auto intro: trancl_into_trancl2)
    qed
    from "1.IH" [OF deps(1,2,3,4) "1.prems"(1) this c]
    have "c = caused a j" "memo_ok a m1" using caused_deps_iff [OF deps(3,4)] by simp_all
    with deps c "1.prems"(3) memo_ok_set [of a m1 j] show ?thesis by (auto simp: budgetCaused.simps)
  qed
next
  case (2 a ip m)
  then show ?case by (simp add: allCaused.simps)
next
  case (3 a ip m d ds)
  show ?case
  proof (cases "definitivelyNotOk False (at_entries a) d")
    case False
    with 3 show ?thesis by (simp add: allCaused.simps)
  next
    case nk: True
    obtain c m1 where c: "budgetCaused a ip m d = (c, m1)" by fastforce
    have d: "c = caused a d \<and> memo_ok a m1"
      using "3.IH"(2) [OF _ "3.prems"(1) _ c] nk "3.prems"(2) by simp
    show ?thesis
    proof (cases c)
      case True
      moreover have "allCaused a ip m1 ds = (b, m')"
        using "3.prems"(3) c nk True by (simp add: allCaused.simps)
      ultimately have "b = (\<forall>d \<in> set ds. definitivelyNotOk False (at_entries a) d \<longrightarrow> caused a d) \<and> memo_ok a m'"
        using "3.IH"(3) [of "(c, m1)" c m1 b m'] nk c d True "3.prems"(2) by simp
      then show ?thesis using d nk True by simp
    next
      case False
      with nk c d "3.prems"(3) show ?thesis by (auto simp: allCaused.simps)
    qed
  qed
qed

section \<open>Re-marking\<close>

text \<open>The runner's own fabrications have the state their origin says.\<close>

definition origins_ok :: "entries \<Rightarrow> bool" where
  "origins_ok es \<longleftrightarrow> (\<forall>j e. map_of es j = Some e \<longrightarrow>
     (en_origin e = FromQueue \<longrightarrow> en_state e = Queued) \<and> (en_origin e = FromBlock \<longrightarrow> en_state e = Blocked))"

text \<open>The rows a budget stop re-marks, decided on the entries before the pass.\<close>

definition budget_row :: "attribution \<Rightarrow> job_id \<Rightarrow> bool" where
  "budget_row a j \<longleftrightarrow> (\<exists>e. map_of (at_entries a) j = Some e
     \<and> (en_origin e = FromQueue \<and> j \<notin> set (at_admitted a) \<or> en_origin e = FromBlock \<and> caused a j))"

definition partly_marked :: "attribution \<Rightarrow> entries \<Rightarrow> bool" where
  "partly_marked a es \<longleftrightarrow> (\<forall>j. map_of es j = map_of (at_entries a) j
     \<or> budget_row a j \<and> map_of es j = map_option (\<lambda>e. exhausted_entry (en_origin e)) (map_of (at_entries a) j))"

lemma partly_markedE:
  assumes "partly_marked a es"
  obtains (same) "map_of es j = map_of (at_entries a) j"
  | (marked) e where "budget_row a j" "map_of (at_entries a) j = Some e"
      "map_of es j = Some (exhausted_entry (en_origin e))"
  using assms by (force simp: partly_marked_def budget_row_def)

lemma exhausted_entry_simps [simp]:
  "en_result (exhausted_entry og) = RBudgetExhausted" "en_state (exhausted_entry og) = Budget_Exhausted"
  "en_origin (exhausted_entry og) = og"
  by (simp_all add: exhausted_entry_def plain_entry_def)

lemma own_cause_exhausted [simp]: "own_cause a j (exhausted_entry og) = Some True"
  by (simp add: own_cause_def)

lemma budget_row_caused: "budget_row a j \<Longrightarrow> caused a j"
  by (auto simp: budget_row_def own_cause_def intro: caused_own)

lemma own_cause_entries [simp]: "own_cause (a\<lparr>at_entries := es\<rparr>) j e = own_cause a j e"
  by (simp add: own_cause_def)

lemma deps_at_entries [simp]: "deps_at (a\<lparr>at_entries := es\<rparr>) j = deps_at a j"
  by (simp add: deps_at_def)

lemma notOk_marked:
  "map_of es d = Some (exhausted_entry og) \<Longrightarrow> definitivelyNotOk False es d"
  by (simp add: definitivelyNotOk_def)

lemma caused_fewer:
  assumes pm: "partly_marked a es"
  shows "caused (a\<lparr>at_entries := es\<rparr>) j \<Longrightarrow> caused a j"
proof (induction rule: caused.induct)
  case (caused_own j e)
  from pm show ?case
  proof (cases rule: partly_markedE [of _ _ j])
    case same
    with caused_own show ?thesis by (auto intro: caused.intros)
  next
    case marked
    then show ?thesis by (simp add: budget_row_caused)
  qed
next
  case (caused_deps j e)
  from pm show ?case
  proof (cases rule: partly_markedE [of _ _ j])
    case same
    have "caused a d" if "d \<in> set (deps_at a j)" "definitivelyNotOk False (at_entries a) d" for d
    proof -
      have "definitivelyNotOk False es d"
        using pm by (cases rule: partly_markedE [of _ _ d])
          (use that(2) in \<open>auto simp: notOk_marked definitivelyNotOk_def\<close>)
      with caused_deps.IH that(1) show ?thesis by simp
    qed
    with same caused_deps show ?thesis by (auto intro: caused.caused_deps)
  next
    case marked
    then show ?thesis by (simp add: budget_row_caused)
  qed
qed

lemma caused_more:
  assumes pm: "partly_marked a es" and ok: "origins_ok (at_entries a)"
  shows "caused a j \<Longrightarrow> caused (a\<lparr>at_entries := es\<rparr>) j"
proof (induction rule: caused.induct)
  case (caused_own j e)
  from pm show ?case
    by (cases rule: partly_markedE [of _ _ j]) (use caused_own in \<open>auto intro: caused.caused_own\<close>)
next
  case (caused_deps j e)
  have d: "caused (a\<lparr>at_entries := es\<rparr>) d"
    if d: "d \<in> set (deps_at a j)" "definitivelyNotOk False es d" for d
    using pm
  proof (cases rule: partly_markedE [of _ _ d])
    case same
    then have "definitivelyNotOk False (at_entries a) d" using d(2) by (simp add: definitivelyNotOk_def)
    with caused_deps.IH d(1) show ?thesis by blast
  next
    case (marked e)
    then show ?thesis by (auto intro: caused.caused_own)
  qed
  from pm show ?case
  proof (cases rule: partly_markedE [of _ _ j])
    case same
    show ?thesis
    proof (rule caused.caused_deps)
      show "map_of (at_entries (a\<lparr>at_entries := es\<rparr>)) j = Some e" using same caused_deps.hyps(1) by simp
      show "own_cause (a\<lparr>at_entries := es\<rparr>) j e = None" using caused_deps.hyps(2) by simp
    qed (use d in simp)
  next
    case (marked e)
    then show ?thesis by (auto intro: caused.caused_own)
  qed
qed

lemma caused_partly_marked:
  "partly_marked a es \<Longrightarrow> origins_ok (at_entries a) \<Longrightarrow> caused (a\<lparr>at_entries := es\<rparr>) = caused a"
  by (rule ext) (blast intro: caused_fewer caused_more)

text \<open>One turn of the loop decides its row as the rule on the entries before the pass does.\<close>

definition remark_inv :: "attribution \<Rightarrow> job_id set \<Rightarrow> remark \<Rightarrow> bool" where
  "remark_inv a seen r \<longleftrightarrow> memo_ok a (rk_memo r)
     \<and> (\<forall>j. map_of (rk_entries r) j = (if j \<in> seen \<and> budget_row a j
          then map_option (\<lambda>e. exhausted_entry (en_origin e)) (map_of (at_entries a) j)
          else map_of (at_entries a) j))
     \<and> (rk_any r \<longleftrightarrow> (\<exists>j \<in> seen. budget_row a j))"

lemma remark_inv_partly: "remark_inv a seen r \<Longrightarrow> partly_marked a (rk_entries r)"
  by (auto simp: remark_inv_def partly_marked_def)

lemma remark_job_inv:
  assumes inv: "remark_inv a seen r" and ok: "origins_ok (at_entries a)"
  shows "remark_inv a (insert (mj_id j) seen) (remark_job (at_deps a) (at_admitted a) j r)"
proof -
  let ?i = "mj_id j" and ?a = "a\<lparr>at_entries := rk_entries r\<rparr>"
  have a: "\<lparr>at_entries = rk_entries r, at_deps = at_deps a, at_admitted = at_admitted a\<rparr> = ?a" by (cases a) simp
  have c: "caused ?a = caused a" using caused_partly_marked [OF remark_inv_partly [OF inv] ok] .
  have m: "memo_ok a (rk_memo r)" using inv by (simp add: remark_inv_def)
  then have m': "memo_ok ?a (rk_memo r)" by (simp add: memo_ok_def c)
  show ?thesis
  proof (cases "map_of (at_entries a) ?i")
    case None
    then have "map_of (rk_entries r) ?i = None" using inv by (simp add: remark_inv_def)
    with None inv show ?thesis by (auto simp: remark_job_def remark_inv_def budget_row_def)
  next
    case (Some e)
    obtain e' where e': "map_of (rk_entries r) ?i = Some e'" "en_origin e' = en_origin e"
      using inv Some by (cases "?i \<in> seen \<and> budget_row a ?i") (auto simp: remark_inv_def)
    obtain b m1 where b: "budgetCaused ?a [] (rk_memo r) ?i = (b, m1)" by fastforce
    have bc: "b = caused a ?i" "memo_ok a m1"
      using budgetCaused_correct(1) [OF m' _ b] by (simp_all add: c memo_ok_def)
    have same: "remark_inv a (insert ?i seen) (r\<lparr>rk_memo := m2\<rparr>)" if "\<not> budget_row a ?i" "memo_ok a m2" for m2
      using inv that by (auto simp: remark_inv_def)
    have mark: "remark_inv a (insert ?i seen) (r\<lparr>rk_entries := omap_set ?i (exhausted_entry (en_origin e')) (rk_entries r),
        rk_any := True, rk_memo := m2\<rparr>)" if "budget_row a ?i" "memo_ok a m2" for m2
      using inv that Some e'(2) by (simp add: remark_inv_def)
    consider (queue) "en_origin e = FromQueue" "?i \<notin> set (at_admitted a)"
      | (block) "en_origin e = FromBlock"
      | (other) "en_origin e \<noteq> FromBlock" "\<not> (en_origin e = FromQueue \<and> ?i \<notin> set (at_admitted a))" by blast
    then show ?thesis
    proof cases
      case queue
      then have "budget_row a ?i" using Some by (simp add: budget_row_def)
      from mark [OF this m] queue e' show ?thesis by (simp add: remark_job_def Let_def)
    next
      case block
      then have "budget_row a ?i \<longleftrightarrow> b" using Some bc by (simp add: budget_row_def)
      with mark [OF _ bc(2)] same [OF _ bc(2)] block e' b show ?thesis
        by (simp add: remark_job_def Let_def a)
    next
      case other
      then have "\<not> budget_row a ?i" using Some by (auto simp: budget_row_def)
      from same [OF this m] other e' show ?thesis by (auto simp: remark_job_def Let_def)
    qed
  qed
qed

lemma remark_fold_inv:
  "remark_inv a seen r \<Longrightarrow> origins_ok (at_entries a) \<Longrightarrow>
   remark_inv a (set (map mj_id jobs) \<union> seen) (fold (remark_job (at_deps a) (at_admitted a)) jobs r)"
proof (induction jobs arbitrary: seen r)
  case (Cons j jobs)
  from Cons.IH [OF remark_job_inv [OF Cons.prems] Cons.prems(2)] show ?case by simp
qed simp

lemma remark_budget_inv:
  fixes jobs admitted es
  defines "a \<equiv> \<lparr>at_entries = es, at_deps = map (\<lambda>j. (mj_id j, mj_deps j)) jobs, at_admitted = admitted\<rparr>"
  assumes "origins_ok es"
  shows "remark_inv a (set (map mj_id jobs)) (remark_budget jobs admitted es)"
proof -
  have "remark_inv a {} \<lparr>rk_entries = es, rk_memo = [], rk_any = False\<rparr>"
    by (simp add: remark_inv_def memo_ok_def a_def)
  from remark_fold_inv [OF this, of jobs] assms(2) show ?thesis
    by (simp add: remark_budget_def a_def)
qed

end
