(* ===== verification/Wave_Loop.thy ===== *)
theory Wave_Loop
  imports Honest_Stop Governor_Inv Lanes
begin

text \<open>
  The execution of the waves (\<open>src/kernel/runner.ts\<close>): the producer that classifies the jobs of a
  wave and submits the ready ones, the pool that starts them in order with at most
  \<open>opts.concurrency\<close> in flight, the plain and the governed start of a job, and its finish. The
  machine's steps are the code between two awaits; every interleaving of producer, starts, finishes,
  governor calls and infrastructure failures is a run of it. A journal line that cannot be written stops
  the run (\<open>failRun\<close>): the failed append of a submission is the step \<open>run_failed\<close> before \<open>submit_break\<close>, that of
  a start or a refusal \<open>run_failed\<close> before the start of the job, which then drops it; the admission such a start
  had counted is not kept, in a run that rejects and reports nothing.
\<close>

section \<open>State\<close>

record loop_env =
  le_prepared :: prepared
  le_limit :: nat
  le_stopOnError :: bool
  le_gov :: "governance option"
  le_replay :: "(job_id, job_finished) omap"  \<comment> \<open>without the released jobs\<close>
  le_parent :: "string option"

record sched =
  sc_entries :: entries
  sc_journal :: "journal_event list"
  sc_waves :: "manifest_job list list"
  sc_submit :: "manifest_job list"
  sc_queue :: "manifest_job list"
  sc_running :: "(manifest_job \<times> nat) list"
  sc_stop :: bool
  sc_failed :: bool
  sc_governor :: governor
  sc_admitted :: "job_id list"

text \<open>What an invocation ends with: the verdict and the job's evidence sums and links.\<close>

record ending =
  ed_result :: op_result
  ed_usage :: "usage option"
  ed_cost :: "rat option"
  ed_charged :: "rat option"
  ed_sessions :: "session_link list option"

definition le_run :: "loop_env \<Rightarrow> run_id" where "le_run v = pr_run (le_prepared v)"

definition le_governed :: "loop_env \<Rightarrow> bool" where "le_governed v = governedDispatch (le_gov v)"

definition cancelledRun :: "loop_env \<Rightarrow> sched \<Rightarrow> bool" where
  "cancelledRun v s \<longleftrightarrow> le_governed v \<and> map_option fst (g_trip (sc_governor s)) = Some Signal"

section \<open>Events\<close>

definition finish_event :: "loop_env \<Rightarrow> manifest_job \<Rightarrow> op_result \<Rightarrow> job_finished" where
  "finish_event v j r =
     \<lparr>jf_run = le_run v, jf_job = mj_id j, jf_op = mj_op j, jf_hash = mj_hash j, jf_result = r,
      jf_usage = None, jf_cost = None, jf_charged = None, jf_workId = None, jf_parent = None,
      jf_role = None, jf_sessions = None\<rparr>"

definition work_id :: "loop_env \<Rightarrow> manifest_job \<Rightarrow> nat \<Rightarrow> string" where
  "work_id v j attempt = le_run v @ '':'' @ mj_id j @ '':'' @ nat_str attempt"

definition governed_finish :: "loop_env \<Rightarrow> manifest_job \<Rightarrow> nat \<Rightarrow> ending \<Rightarrow> job_finished" where
  "governed_finish v j attempt d =
     (finish_event v j (ed_result d))
       \<lparr>jf_usage := ed_usage d, jf_cost := ed_cost d, jf_charged := ed_charged d,
        jf_workId := Some (work_id v j attempt), jf_parent := le_parent v,
        jf_role := (if mj_op j = [] then None else Some (mj_op j)), jf_sessions := ed_sessions d\<rparr>"

definition start_event :: "loop_env \<Rightarrow> manifest_job \<Rightarrow> nat \<Rightarrow> journal_event" where
  "start_event v j attempt =
     Job_Started \<lparr>js_run = le_run v, js_job = mj_id j, js_op = mj_op j, js_attempt = attempt\<rparr>"

definition journal_add :: "journal_event list \<Rightarrow> sched \<Rightarrow> sched" where
  "journal_add es s = s\<lparr>sc_journal := sc_journal s @ es\<rparr>"

definition classify :: "job_id \<Rightarrow> entry \<Rightarrow> sched \<Rightarrow> sched" where
  "classify j e s = s\<lparr>sc_entries := omap_set j e (sc_entries s)\<rparr>"

definition request_stop :: "loop_env \<Rightarrow> op_result \<Rightarrow> sched \<Rightarrow> sched" where
  "request_stop v r s = s\<lparr>sc_stop := sc_stop s \<or> le_stopOnError v \<and> status r \<noteq> Ok_st\<rparr>"

section \<open>The producer\<close>

text \<open>Replay: the recorded finish is ok, of the same operation on the same input.\<close>

definition replayable :: "(job_id, job_finished) omap \<Rightarrow> manifest_job \<Rightarrow> job_finished option" where
  "replayable replay j =
     (case map_of replay (mj_id j) of
        None \<Rightarrow> None
      | Some f \<Rightarrow> if jf_op f = mj_op j \<and> jf_hash f = mj_hash j \<and> status (jf_result f) = Ok_st
                  then Some f else None)"

definition reattest :: "loop_env \<Rightarrow> manifest_job \<Rightarrow> job_finished \<Rightarrow> job_finished" where
  "reattest v j f = f\<lparr>jf_run := le_run v, jf_job := mj_id j, jf_charged := None\<rparr>"

definition replay_entry :: "job_finished \<Rightarrow> entry" where
  "replay_entry f = \<lparr>en_result = jf_result f, en_state = Done, en_usage = jf_usage f,
     en_cost = jf_cost f, en_origin = FromReplay\<rparr>"

text \<open>One turn of the loop over a wave's jobs.\<close>

definition submit_job :: "loop_env \<Rightarrow> manifest_job \<Rightarrow> sched \<Rightarrow> sched" where
  "submit_job v j s =
     (if omap_has (mj_id j) (sc_entries s) then s
      else if \<not> ready (sc_entries s) j
        then (if cancelledRun v s then s
              else classify (mj_id j) (plain_entry (blockedResult (cancelledRun v s) (sc_entries s) j) Blocked FromBlock) s)
      else case replayable (le_replay v) j of
             Some f \<Rightarrow> classify (mj_id j) (replay_entry f) (journal_add [Job_Finished (reattest v j f)] s)
           | None \<Rightarrow>
               if le_governed v \<and> tripped (sc_governor s) then s
               else s\<lparr>sc_queue := sc_queue s @ [j]\<rparr>)"

section \<open>Starting a job\<close>

definition plain_start :: "loop_env \<Rightarrow> manifest_job \<Rightarrow> sched \<Rightarrow> sched" where
  "plain_start v j s =
     (if sc_stop s \<or> sc_failed s then s
      else journal_add [start_event v j 1] (s\<lparr>sc_running := sc_running s @ [(j, 1)]\<rparr>))"

definition advisory_refused :: "loop_env \<Rightarrow> sched \<Rightarrow> bool" where
  "advisory_refused v s \<longleftrightarrow> \<not> tripped (sc_governor s)
     \<and> (case le_gov v of None \<Rightarrow> False
        | Some g \<Rightarrow> gv_attended g \<noteq> Some True \<and> \<not> gv_allowAdvisory g)
     \<and> classifyDispatch None LANE_CLASSIFICATION = ok Advisory"

definition note_refusal :: "manifest_job \<Rightarrow> short_circuit \<Rightarrow> sched \<Rightarrow> sched" where
  "note_refusal j why s =
     s\<lparr>sc_governor := record_event (Ev_ShortCircuited (mj_op j) (mj_id j) why) (sc_governor s)\<rparr>"

text \<open>A refusal is finish-only: no start is journalled and no attempt is spent.\<close>

definition refuse_job :: "loop_env \<Rightarrow> manifest_job \<Rightarrow> journal_event list \<Rightarrow> sched \<Rightarrow> sched" where
  "refuse_job v j evs s =
     classify (mj_id j) (plain_entry RBudgetExhausted Budget_Exhausted FromRun)
       (journal_add (evs @ [Job_Finished (finish_event v j RBudgetExhausted)])
         (s\<lparr>sc_stop := sc_stop s \<or> le_stopOnError v\<rparr>))"

definition governed_start :: "loop_env \<Rightarrow> manifest_job \<Rightarrow> sched \<Rightarrow> sched" where
  "governed_start v j s =
     (if sc_stop s \<or> sc_failed s then s
      else if advisory_refused v s
        then refuse_job v j [Reservation_Refused (le_run v) (mj_id j) (mj_op j)] (note_refusal j SC_AdvisoryLane s)
      else (case admit (mj_id j) (sc_governor s) of
              (g, Reject why) \<Rightarrow>
                if map_option fst (g_trip g) = Some Signal then s
                else refuse_job v j [] (note_refusal j why s)
            | (g, Admit attempt) \<Rightarrow>
                journal_add [start_event v j attempt]
                  (s\<lparr>sc_governor := record_event (Ev_Admitted (mj_op j) (mj_id j) attempt) g,
                     sc_admitted := sc_admitted s @ [mj_id j],
                     sc_running := sc_running s @ [(j, attempt)]\<rparr>)))"

definition start_job :: "loop_env \<Rightarrow> manifest_job \<Rightarrow> sched \<Rightarrow> sched" where
  "start_job v j s = (if le_governed v then governed_start v j s else plain_start v j s)"

section \<open>Finishing a job\<close>

definition drop_running :: "manifest_job \<times> nat \<Rightarrow> sched \<Rightarrow> sched" where
  "drop_running jn s = s\<lparr>sc_running := remove1 jn (sc_running s)\<rparr>"

definition finish_job :: "loop_env \<Rightarrow> manifest_job \<times> nat \<Rightarrow> ending \<Rightarrow> sched \<Rightarrow> sched" where
  "finish_job v jn d s =
     (let j = fst jn;
          f = (if le_governed v then governed_finish v j (snd jn) d else finish_event v j (ed_result d));
          e = (if le_governed v then executed_entry (ed_result d) (ed_usage d) (ed_cost d)
               else executed_entry (ed_result d) None None)
      in classify (mj_id j) e (journal_add [Job_Finished f] (request_stop v (ed_result d) (drop_running jn s))))"

section \<open>The machine\<close>

text \<open>\<open>failRun\<close>: the first infrastructure failure stops the run and cancels a governed one.\<close>

definition fail_run :: "loop_env \<Rightarrow> sched \<Rightarrow> sched" where
  "fail_run v s = s\<lparr>sc_failed := True,
     sc_governor := (if le_governed v then tripSignal (Some ''journal: run stopped'') (sc_governor s)
                     else sc_governor s)\<rparr>"

definition idle :: "sched \<Rightarrow> bool" where
  "idle s \<longleftrightarrow> sc_submit s = [] \<and> sc_queue s = [] \<and> sc_running s = []"

text \<open>What a dispatch in flight records besides its ledger calls: a refusal before the body, its completion.\<close>

definition dispatch_note :: "manifest_job \<times> nat \<Rightarrow> governor_event \<Rightarrow> bool" where
  "dispatch_note jn e \<longleftrightarrow>
     e \<in> {Ev_ShortCircuited (mj_op (fst jn)) (mj_id (fst jn)) SC_CancelledWhileQueued,
          Ev_ShortCircuited (mj_op (fst jn)) (mj_id (fst jn)) SC_BudgetWhileQueued}
     \<or> (\<exists>st. e = Ev_Completed (mj_op (fst jn)) (mj_id (fst jn)) (snd jn) st)"

inductive loop_step :: "loop_env \<Rightarrow> sched \<Rightarrow> sched \<Rightarrow> bool" for v where
  next_wave: "idle s \<Longrightarrow> \<not> sc_stop s \<Longrightarrow> \<not> sc_failed s \<Longrightarrow> sc_waves s = w # ws
    \<Longrightarrow> loop_step v s (s\<lparr>sc_submit := w, sc_waves := ws\<rparr>)"
| submit: "sc_submit s = j # js \<Longrightarrow> \<not> sc_failed s
    \<Longrightarrow> loop_step v s (submit_job v j (s\<lparr>sc_submit := js\<rparr>))"
| submit_break: "sc_submit s \<noteq> [] \<Longrightarrow> sc_failed s \<Longrightarrow> loop_step v s (s\<lparr>sc_submit := []\<rparr>)"
| start: "sc_queue s = j # js \<Longrightarrow> length (sc_running s) < le_limit v
    \<Longrightarrow> loop_step v s (start_job v j (s\<lparr>sc_queue := js\<rparr>))"
| finish: "jn \<in> set (sc_running s) \<Longrightarrow> loop_step v s (finish_job v jn d s)"
| fence_failed: "jn \<in> set (sc_running s) \<Longrightarrow> loop_step v s (fail_run v (drop_running jn s))"
| run_failed: "loop_step v s (fail_run v s)"
| governor_call: "le_governed v \<Longrightarrow> allowed c (sc_governor s) \<Longrightarrow> (\<forall>j. c \<noteq> C_Admit j)
    \<Longrightarrow> exec c (sc_governor s) = ok g \<Longrightarrow> loop_step v s (s\<lparr>sc_governor := g\<rparr>)"
| ledger_line: "le_governed v \<Longrightarrow> e \<in> {Reservation_Opened ro, Reservation_Settled rt}
    \<Longrightarrow> event_run e = le_run v \<Longrightarrow> loop_step v s (journal_add [e] s)"
| dispatch_event: "le_governed v \<Longrightarrow> jn \<in> set (sc_running s) \<Longrightarrow> dispatch_note jn e
    \<Longrightarrow> loop_step v s (s\<lparr>sc_governor := record_event e (sc_governor s)\<rparr>)"

inductive_cases loop_stepE: "loop_step v s t"

definition loop_init :: "loop_env \<Rightarrow> sched \<Rightarrow> bool" where
  "loop_init v s \<longleftrightarrow>
     (\<exists>started quarantined replay g l.
        l = launch_of (le_prepared v) started (le_gov v) quarantined replay
        \<and> le_replay v = la_replay l
        \<and> s = \<lparr>sc_entries = la_entries l, sc_journal = la_journal l, sc_waves = pr_waves (le_prepared v),
              sc_submit = [], sc_queue = [], sc_running = [], sc_stop = False, sc_failed = False,
              sc_governor = g, sc_admitted = []\<rparr>)"

text \<open>The loop over the waves has ended: \<open>for\<close> exhausted, or broken off by the stop flag.\<close>

definition loop_done :: "sched \<Rightarrow> bool" where
  "loop_done s \<longleftrightarrow> idle s \<and> \<not> sc_failed s \<and> (sc_waves s = [] \<or> sc_stop s)"

section \<open>After the waves\<close>

definition short_circuited :: "governor \<Rightarrow> short_circuit \<Rightarrow> bool" where
  "short_circuited g why \<longleftrightarrow> list_ex (\<lambda>e. case e of Ev_ShortCircuited _ _ r \<Rightarrow> r = why | _ \<Rightarrow> False) (g_events g)"

definition stop_facts_of :: "sched \<Rightarrow> stop_facts" where
  "stop_facts_of s =
     \<lparr>sf_trip = map_option fst (g_trip (sc_governor s)),
      sf_quotaRefused = short_circuited (sc_governor s) SC_DispatchQuota,
      sf_advisoryRefused = short_circuited (sc_governor s) SC_AdvisoryLane,
      sf_cancelledWhileQueued = short_circuited (sc_governor s) SC_CancelledWhileQueued,
      sf_stopRequested = sc_stop s\<rparr>"

definition swept :: "loop_env \<Rightarrow> sched \<Rightarrow> entries" where
  "swept v s = stop_sweep (cancelledRun v s) (pr_waves (le_prepared v)) (sc_entries s)"

definition ended_run :: "loop_env \<Rightarrow> sched \<Rightarrow> entries \<times> early_stop option" where
  "ended_run v s =
     (if le_governed v
      then honest_stop (pr_jobs (le_prepared v)) (sc_admitted s) (stop_facts_of s) (swept v s)
      else (swept v s, None))"

text \<open>The closing events; \<open>eventCount\<close> counts the run-finished line itself.\<close>

definition closing_events :: "loop_env \<Rightarrow> bool \<Rightarrow> sched \<Rightarrow> journal_event list" where
  "closing_events v isJournaled s =
     (let trip = (case g_trip (sc_governor s) of
                    Some (k, _) \<Rightarrow> if le_governed v then [Budget_Tripped (le_run v) k] else []
                  | None \<Rightarrow> []);
          reason = snd (ended_run v s)
      in trip @ [Run_Finished \<lparr>rf_run = le_run v, rf_stoppedEarly = (reason \<noteq> None), rf_reason = reason,
           rf_eventCount = (if isJournaled then Some (length (sc_journal s) + length trip + 1) else None)\<rparr>])"

definition run_report_of :: "loop_env \<Rightarrow> sched \<Rightarrow> run_report option" where
  "run_report_of v s =
     report (le_prepared v) (le_governed v) (g_usdSpent (sc_governor s)) (fst (ended_run v s)) (snd (ended_run v s))"

end
