(* ===== verification/Wave_Inv.thy ===== *)
theory Wave_Inv
  imports Wave_Loop Run_Plan_Laws
begin

text \<open>
  The invariant of the wave machine: which jobs are where, what each job's journal lines are, and
  that a started job's dependencies are all done. One preservation lemma per kind of step.
\<close>

section \<open>A job's journal lines\<close>

fun of_job :: "job_id \<Rightarrow> journal_event \<Rightarrow> bool" where
  "of_job j (Job_Started s) = (js_job s = j)"
| "of_job j (Job_Finished f) = (jf_job f = j)"
| "of_job j _ = False"

definition lines_of :: "job_id \<Rightarrow> journal_event list \<Rightarrow> journal_event list" where
  "lines_of j evs = filter (of_job j) evs"

lemma lines_of_append [simp]: "lines_of j (xs @ ys) = lines_of j xs @ lines_of j ys"
  by (simp add: lines_of_def)

lemma lines_of_simps [simp]:
  "lines_of j [] = []"
  "lines_of j (Job_Started s # es) = (if js_job s = j then Job_Started s # lines_of j es else lines_of j es)"
  "lines_of j (Job_Finished f # es) = (if jf_job f = j then Job_Finished f # lines_of j es else lines_of j es)"
  "\<not> of_job j e \<Longrightarrow> lines_of j (e # es) = lines_of j es"
  by (simp_all add: lines_of_def)

text \<open>What the journal says of a job that has the entry.\<close>

fun settled_lines :: "entry \<Rightarrow> manifest_job \<Rightarrow> journal_event list \<Rightarrow> bool" where
  "settled_lines e j ls =
     (case en_origin e of
        FromRun \<Rightarrow> (\<exists>pre f. ls = pre @ [Job_Finished f] \<and> jf_result f = en_result e
            \<and> jf_op f = mj_op j \<and> jf_hash f = mj_hash j \<and> en_state e = stateFromResult (en_result e)
            \<and> (pre = [] \<and> en_result e = RBudgetExhausted \<or> (\<exists>st. pre = [Job_Started st])))
      | FromReplay \<Rightarrow> (\<exists>f. ls = [Job_Finished f] \<and> jf_result f = en_result e
            \<and> jf_op f = mj_op j \<and> jf_hash f = mj_hash j \<and> status (en_result e) = Ok_st \<and> en_state e = Done)
      | FromBlock \<Rightarrow> ls = [] \<and> en_state e = Blocked
      | FromQuarantine \<Rightarrow> ls = [] \<and> en_state e = Blocked
      | FromQueue \<Rightarrow> False)"

lemma settled_block: "settled_lines (plain_entry r Blocked FromBlock) j []"
  by (simp add: plain_entry_def)

lemma settled_replay:
  "replayable m j = Some f \<Longrightarrow> settled_lines (replay_entry f) j [Job_Finished (reattest v j f)]"
  by (auto simp: replay_entry_def reattest_def replayable_def split: option.splits if_splits)

lemma settled_refused:
  "settled_lines (plain_entry RBudgetExhausted Budget_Exhausted FromRun) j
     [Job_Finished (finish_event v j RBudgetExhausted)]"
  by (simp add: plain_entry_def finish_event_def)

lemma settled_run:
  "jf_result f = r \<Longrightarrow> jf_op f = mj_op j \<Longrightarrow> jf_hash f = mj_hash j
     \<Longrightarrow> settled_lines (executed_entry r u c) j [Job_Started st, Job_Finished f]"
  by (simp add: executed_entry_def)

declare settled_lines.simps [simp del]

section \<open>The invariant\<close>

definition pending :: "sched \<Rightarrow> manifest_job list" where
  "pending s = sc_submit s @ sc_queue s @ concat (sc_waves s)"

definition in_flight :: "sched \<Rightarrow> manifest_job list" where
  "in_flight s = map fst (sc_running s)"

definition places_ok :: "loop_env \<Rightarrow> sched \<Rightarrow> bool" where
  "places_ok v s \<longleftrightarrow>
     distinct (okeys (sc_entries s))
     \<and> set (okeys (sc_entries s)) \<subseteq> mj_id ` set (pr_jobs (le_prepared v))
     \<and> distinct (map mj_id (pending s @ in_flight s))
     \<and> set (pending s @ in_flight s) \<subseteq> set (concat (pr_waves (le_prepared v)))
     \<and> (\<forall>j \<in> set (sc_queue s @ in_flight s). mj_id j \<notin> set (okeys (sc_entries s)) \<and> ready (sc_entries s) j)
     \<and> length (sc_running s) \<le> le_limit v"

text \<open>The lines of a job without an entry; a failed run may have dropped a started one.\<close>

definition open_lines :: "sched \<Rightarrow> manifest_job \<Rightarrow> journal_event list \<Rightarrow> bool" where
  "open_lines s j ls \<longleftrightarrow>
     (if j \<in> set (in_flight s) then \<exists>st. ls = [Job_Started st]
      else if sc_failed s \<and> j \<notin> set (pending s) then ls = [] \<or> (\<exists>st. ls = [Job_Started st])
      else ls = [])"

definition lines_ok :: "loop_env \<Rightarrow> sched \<Rightarrow> bool" where
  "lines_ok v s \<longleftrightarrow>
     (\<forall>j \<in> set (pr_jobs (le_prepared v)).
        case map_of (sc_entries s) (mj_id j) of
          Some e \<Rightarrow> settled_lines e j (lines_of (mj_id j) (sc_journal s))
        | None \<Rightarrow> open_lines s j (lines_of (mj_id j) (sc_journal s)))"

definition starts_ok :: "loop_env \<Rightarrow> sched \<Rightarrow> bool" where
  "starts_ok v s \<longleftrightarrow>
     (\<forall>j \<in> set (pr_jobs (le_prepared v)). \<forall>st. Job_Started st \<in> set (sc_journal s) \<longrightarrow>
        js_job st = mj_id j \<longrightarrow> ready (sc_entries s) j)"

definition loop_inv :: "loop_env \<Rightarrow> sched \<Rightarrow> bool" where
  "loop_inv v s \<longleftrightarrow> places_ok v s \<and> lines_ok v s \<and> starts_ok v s"

lemma ready_mono: "i \<notin> set (okeys es) \<Longrightarrow> ready es j \<Longrightarrow> ready (omap_set i e es) j"
  by (auto simp: ready_def list_all_iff map_of_eq_None_iff simp del: set_map) 
    (metis map_of_eq_None_iff option.simps(3) set_map)

lemma same_job:
  "well_prepared p \<Longrightarrow> j \<in> set (pr_jobs p) \<Longrightarrow> k \<in> set (pr_jobs p) \<Longrightarrow> mj_id j = mj_id k \<Longrightarrow> j = k"
  by (simp add: well_prepared_def distinct_map inj_on_def)

lemma placed_in:
  "well_prepared (le_prepared v) \<Longrightarrow> places_ok v s \<Longrightarrow> j \<in> set (pending s @ in_flight s)
     \<Longrightarrow> j \<in> set (pr_jobs (le_prepared v))"
  unfolding places_ok_def well_prepared_def by blast

lemma wave_jobs_in: "well_prepared p \<Longrightarrow> j \<in> set (concat (pr_waves p)) \<Longrightarrow> j \<in> set (pr_jobs p)"
  unfolding well_prepared_def by blast

section \<open>Steps that move no job\<close>

lemma inv_frame:
  assumes "loop_inv v s"
    and "sc_entries t = sc_entries s" "sc_waves t = sc_waves s" "sc_submit t = sc_submit s"
      "sc_queue t = sc_queue s" "sc_running t = sc_running s"
    and "sc_failed s \<longrightarrow> sc_failed t"
    and "sc_journal t = sc_journal s @ evs" "\<forall>e \<in> set evs. \<forall>j. \<not> of_job j e"
  shows "loop_inv v t"
proof -
  have pl: "pending t = pending s" "in_flight t = in_flight s"
    using assms(2-6) by (simp_all add: pending_def in_flight_def)
  have ls: "lines_of i (sc_journal t) = lines_of i (sc_journal s)" for i
    using assms(8,9) by (auto simp: lines_of_def filter_empty_conv)
  have "open_lines s j ls \<Longrightarrow> open_lines t j ls" for j ls
    using assms(7) by (auto simp: open_lines_def pl split: if_splits)
  then have "lines_ok v t"
    using assms(1,2) by (auto simp: loop_inv_def lines_ok_def ls split: option.splits)
  moreover have "Job_Started st \<in> set (sc_journal t) \<longleftrightarrow> Job_Started st \<in> set (sc_journal s)" for st
    using assms(8,9) by (auto dest: bspec)
  then have "starts_ok v t" using assms(1,2) by (simp add: loop_inv_def starts_ok_def)
  moreover have "places_ok v t"
    using assms(1-6) by (simp add: loop_inv_def places_ok_def pl)
  ultimately show ?thesis by (simp add: loop_inv_def)
qed

section \<open>A job leaves the line without an entry\<close>

lemma inv_skip:
  assumes inv: "loop_inv v s"
    and eq: "sc_entries t = sc_entries s" "sc_journal t = sc_journal s" "sc_running t = sc_running s"
      "sc_failed t = sc_failed s"
    and q: "set (sc_queue t) \<subseteq> set (sc_queue s)"
    and p: "set (pending t) \<subseteq> set (pending s)" "distinct (map mj_id (pending t @ in_flight t))"
  shows "loop_inv v t"
proof -
  have fl: "in_flight t = in_flight s" by (simp add: in_flight_def eq)
  have "open_lines s j ls \<Longrightarrow> open_lines t j ls" for j ls
    using p(1) by (auto simp: open_lines_def fl eq split: if_splits)
  then have "lines_ok v t"
    using inv by (auto simp: loop_inv_def lines_ok_def eq split: option.splits)
  moreover have "places_ok v t"
    using inv p q by (auto simp: loop_inv_def places_ok_def fl eq)
  moreover have "starts_ok v t" using inv by (simp add: loop_inv_def starts_ok_def eq)
  ultimately show ?thesis by (simp add: loop_inv_def)
qed

section \<open>A ready job joins the queue\<close>

lemma inv_enqueue:
  assumes inv: "loop_inv v s" and s: "sc_submit s = j # js"
    and j: "mj_id j \<notin> set (okeys (sc_entries s))" "ready (sc_entries s) j"
  shows "loop_inv v (s\<lparr>sc_submit := js, sc_queue := sc_queue s @ [j]\<rparr>)"
proof -
  let ?t = "s\<lparr>sc_submit := js, sc_queue := sc_queue s @ [j]\<rparr>"
  have p: "set (pending ?t) = set (pending s)" "in_flight ?t = in_flight s"
    "mset (pending ?t) = mset (pending s)"
    by (auto simp: pending_def in_flight_def s)
  have "mset (map mj_id (pending ?t @ in_flight ?t)) = mset (map mj_id (pending s @ in_flight s))"
    using p(2,3) by simp
  then have "distinct (map mj_id (pending ?t @ in_flight ?t)) = distinct (map mj_id (pending s @ in_flight s))"
    by (rule mset_eq_imp_distinct_iff)
  then have "places_ok v ?t" using inv j p(1,2) by (auto simp: loop_inv_def places_ok_def)
  moreover have o: "open_lines ?t i ls = open_lines s i ls" for i ls
    unfolding open_lines_def p(1,2) by simp
  have "lines_ok v ?t" using inv by (simp add: loop_inv_def lines_ok_def o cong: option.case_cong)
  ultimately show ?thesis using inv by (simp add: loop_inv_def starts_ok_def)
qed

section \<open>A job starts\<close>

lemma inv_start:
  assumes wp: "well_prepared (le_prepared v)" and inv: "loop_inv v s"
    and q: "sc_queue s = j # js" and len: "length (sc_running s) < le_limit v"
    and t: "sc_entries t = sc_entries s" "sc_waves t = sc_waves s" "sc_submit t = sc_submit s"
      "sc_queue t = js" "sc_running t = sc_running s @ [(j, n)]" "sc_failed t = sc_failed s"
      "sc_journal t = sc_journal s @ [Job_Started st]" "js_job st = mj_id j"
  shows "loop_inv v t"
proof -
  have jin: "j \<in> set (pending s)" "j \<in> set (sc_queue s)" by (simp_all add: pending_def q)
  have pl: "places_ok v s" using inv by (simp add: loop_inv_def)
  have jj: "j \<in> set (pr_jobs (le_prepared v))"
    using jin(1) by (intro placed_in [OF wp pl]) simp
  have jr: "ready (sc_entries s) j" "map_of (sc_entries s) (mj_id j) = None"
    using pl jin(2) by (auto simp: places_ok_def map_of_eq_None_iff)
  have fl: "in_flight t = in_flight s @ [j]" by (simp add: in_flight_def t)
  have pd: "mset (pending s) = add_mset j (mset (pending t))" by (simp add: pending_def t q)
  have d: "distinct (map mj_id (pending s @ in_flight s))" using pl by (simp add: places_ok_def)
  have m: "mset (map mj_id (pending t @ in_flight t)) = mset (map mj_id (pending s @ in_flight s))"
    by (simp add: fl pd)
  have dt: "distinct (map mj_id (pending t @ in_flight t))"
    using d mset_eq_imp_distinct_iff [OF m] by simp
  have sp: "set (pending s) = insert j (set (pending t))" using mset_eq_setD [of "pending s" "j # pending t"] pd by simp
  have jnot: "j \<notin> set (in_flight s)" using d jin(1) by auto
  have "places_ok v t"
    using pl dt sp len by (auto simp: places_ok_def fl t q)
  moreover have "lines_ok v t"
    unfolding lines_ok_def
  proof
    fix k assume k: "k \<in> set (pr_jobs (le_prepared v))"
    show "case map_of (sc_entries t) (mj_id k) of
          Some e \<Rightarrow> settled_lines e k (lines_of (mj_id k) (sc_journal t))
        | None \<Rightarrow> open_lines t k (lines_of (mj_id k) (sc_journal t))"
    proof (cases "k = j")
      case True
      have "open_lines s j (lines_of (mj_id j) (sc_journal s))"
        using inv jj jr(2) by (fastforce simp: loop_inv_def lines_ok_def)
      then have "lines_of (mj_id j) (sc_journal s) = []" using jin(1) jnot by (simp add: open_lines_def)
      with True jr(2) show ?thesis by (simp add: t open_lines_def fl)
    next
      case False
      then have "mj_id k \<noteq> mj_id j" using same_job [OF wp k jj] by blast
      then have "lines_of (mj_id k) (sc_journal t) = lines_of (mj_id k) (sc_journal s)" by (simp add: t)
      moreover have "open_lines s k ls \<Longrightarrow> open_lines t k ls" for ls
        using False sp by (auto simp: open_lines_def fl t split: if_splits)
      ultimately show ?thesis using inv k by (auto simp: loop_inv_def lines_ok_def t split: option.splits)
    qed
  qed
  moreover have "starts_ok v t"
    using inv jr(1) same_job [OF wp _ jj] by (auto simp: loop_inv_def starts_ok_def t)
  ultimately show ?thesis by (simp add: loop_inv_def)
qed

section \<open>A job gets its entry\<close>

lemma inv_entry:
  assumes wp: "well_prepared (le_prepared v)" and inv: "loop_inv v s"
    and j: "j \<in> set (pending s @ in_flight s)" "mj_id j \<notin> set (okeys (sc_entries s))"
    and t: "sc_entries t = omap_set (mj_id j) e (sc_entries s)" "sc_failed t = sc_failed s"
      "sc_journal t = sc_journal s @ evs" "\<forall>i. i \<noteq> mj_id j \<longrightarrow> lines_of i evs = []"
      "\<forall>st. Job_Started st \<notin> set evs"
    and e: "settled_lines e j (lines_of (mj_id j) (sc_journal t))"
    and p: "set (pending t) = set (pending s) - {j}" "set (in_flight t) = set (in_flight s) - {j}"
      "distinct (map mj_id (pending t @ in_flight t))" "set (sc_queue t) \<subseteq> set (sc_queue s) - {j}"
      "length (sc_running t) \<le> le_limit v"
  shows "loop_inv v t"
proof -
  have pl: "places_ok v s" using inv by (simp add: loop_inv_def)
  have jj: "j \<in> set (pr_jobs (le_prepared v))"
    using j(1) by (rule placed_in [OF wp pl])
  have other: "mj_id k \<noteq> mj_id j" if "k \<in> set (pending s @ in_flight s)" "k \<noteq> j" for k
    using that same_job [OF wp placed_in [OF wp pl that(1)] jj] by blast
  have keys: "set (okeys (sc_entries t)) = insert (mj_id j) (set (okeys (sc_entries s)))"
    unfolding t(1) by (rule set_okeys_omap_set)
  have rd: "ready (sc_entries s) k \<Longrightarrow> ready (sc_entries t) k" for k
    unfolding t(1) using j(2) by (rule ready_mono)
  have "places_ok v t"
    unfolding places_ok_def
  proof (intro conjI ballI)
    show "distinct (okeys (sc_entries t))" unfolding t(1) using pl by (intro distinct_omap_set) (simp add: places_ok_def)
    show "set (okeys (sc_entries t)) \<subseteq> mj_id ` set (pr_jobs (le_prepared v))"
      unfolding keys using pl jj by (simp add: places_ok_def)
    show "set (pending t @ in_flight t) \<subseteq> set (concat (pr_waves (le_prepared v)))"
      using pl p(1,2) by (auto simp: places_ok_def)
    fix k assume k: "k \<in> set (sc_queue t @ in_flight t)"
    then have k': "k \<in> set (sc_queue s @ in_flight s)" "k \<noteq> j" using p(2,4) by auto
    then have "k \<in> set (pending s @ in_flight s)" by (auto simp: pending_def)
    from other [OF this k'(2)] show "mj_id k \<notin> set (okeys (sc_entries t))"
      unfolding keys using pl k'(1) by (auto simp: places_ok_def)
    show "ready (sc_entries t) k" using rd pl k'(1) by (auto simp: places_ok_def)
  qed (use p in auto)
  moreover have "lines_ok v t"
    unfolding lines_ok_def
  proof
    fix k assume k: "k \<in> set (pr_jobs (le_prepared v))"
    show "case map_of (sc_entries t) (mj_id k) of
          Some e \<Rightarrow> settled_lines e k (lines_of (mj_id k) (sc_journal t))
        | None \<Rightarrow> open_lines t k (lines_of (mj_id k) (sc_journal t))"
    proof (cases "k = j")
      case True
      with e show ?thesis by (simp add: t(1))
    next
      case False
      then have i: "mj_id k \<noteq> mj_id j" using same_job [OF wp k jj] by blast
      then have "lines_of (mj_id k) (sc_journal t) = lines_of (mj_id k) (sc_journal s)" using t(3,4) by simp
      moreover have "open_lines s k ls \<Longrightarrow> open_lines t k ls" for ls
        using False p(1,2) t(2) by (auto simp: open_lines_def split: if_splits)
      ultimately show ?thesis using inv k i by (auto simp: loop_inv_def lines_ok_def t(1) split: option.splits)
    qed
  qed
  moreover have "starts_ok v t"
    using inv rd t(3,5) by (auto simp: loop_inv_def starts_ok_def)
  ultimately show ?thesis by (simp add: loop_inv_def)
qed

section \<open>The initial state\<close>

text \<open>
  The environment of a run comes out of \<open>prepare\<close> with the options of the call, and a governed run
  starts with a governor the launch seeded (theory Governor_Seed).
\<close>

definition launched :: "loop_env \<Rightarrow> sched \<Rightarrow> bool" where
  "launched v s \<longleftrightarrow>
     (\<exists>sha256 num stamp rnd p opts. prepare sha256 num stamp rnd p opts (le_gov v) = ok (le_prepared v)
        \<and> concurrency opts = Fin (of_nat (le_limit v)) \<and> le_stopOnError v = stopOnError opts)
     \<and> loop_init v s \<and> (le_governed v \<longrightarrow> gov_start (sc_governor s))"

lemma launched_well: "launched v s \<Longrightarrow> well_prepared (le_prepared v)"
  unfolding launched_def using prepare_well_prepared by blast

definition blocked_rows :: "manifest_job list \<Rightarrow> entries \<Rightarrow> bool" where
  "blocked_rows jobs es \<longleftrightarrow> distinct (okeys es) \<and> set (okeys es) \<subseteq> mj_id ` set jobs
     \<and> (\<forall>i e. map_of es i = Some e \<longrightarrow> en_state e = Blocked \<and> en_origin e \<in> {FromBlock, FromQuarantine})"

lemma blocked_rows_set:
  "blocked_rows jobs es \<Longrightarrow> j \<in> set jobs \<Longrightarrow> og \<in> {FromBlock, FromQuarantine}
     \<Longrightarrow> blocked_rows jobs (omap_set (mj_id j) (plain_entry r Blocked og) es)"
  by (auto simp: blocked_rows_def plain_entry_def distinct_omap_set set_okeys_omap_set split: if_splits
      simp del: set_map)

lemma unschedulable_rows: "blocked_rows (pr_jobs p) (unschedulable_entries p)"
proof -
  let ?f = "\<lambda>j m. if mj_id j \<in> set (pr_unschedulable p)
         then omap_set (mj_id j) (unschedulable_entry (map mj_id (pr_jobs p)) j) m else m"
  have "blocked_rows (pr_jobs p) es \<Longrightarrow> set js \<subseteq> set (pr_jobs p) \<Longrightarrow> blocked_rows (pr_jobs p) (fold ?f js es)" for js es
  proof (induction js arbitrary: es)
    case (Cons j js)
    have "blocked_rows (pr_jobs p) (?f j es)"
      using Cons.prems by (simp add: unschedulable_entry_def blocked_rows_set)
    from Cons.IH [OF this] Cons.prems(2) show ?case by simp
  qed simp
  from this [of "[]" "pr_jobs p"] show ?thesis
    unfolding unschedulable_entries_def by (simp add: blocked_rows_def)
qed

lemma quarantine_rows:
  "blocked_rows jobs (la_entries l) \<Longrightarrow> set js \<subseteq> set jobs \<Longrightarrow> \<forall>e \<in> set (la_journal l). \<forall>i. \<not> of_job i e \<Longrightarrow>
   blocked_rows jobs (la_entries (fold (quarantine_job r un rel q) js l))
   \<and> (\<forall>e \<in> set (la_journal (fold (quarantine_job r un rel q) js l)). \<forall>i. \<not> of_job i e)"
proof (induction js arbitrary: l)
  case (Cons j js)
  have "blocked_rows jobs (la_entries (quarantine_job r un rel q j l))
      \<and> (\<forall>e \<in> set (la_journal (quarantine_job r un rel q j l)). \<forall>i. \<not> of_job i e)"
    using Cons.prems by (auto simp: quarantine_job_def blocked_rows_set split: option.splits)
  then show ?case using Cons.IH [of "quarantine_job r un rel q j l"] Cons.prems(2) by simp
qed simp

lemma launch_rows:
  "blocked_rows (pr_jobs p) (la_entries (launch_of p st gov q rep))
   \<and> (\<forall>e \<in> set (la_journal (launch_of p st gov q rep)). \<forall>i. \<not> of_job i e)"
  using quarantine_rows [of "pr_jobs p" "\<lparr>la_entries = unschedulable_entries p, la_journal = [Run_Started st], la_replay = rep\<rparr>" "pr_jobs p"]
    unschedulable_rows [of p]
  by (auto simp: launch_of_def Let_def)

lemma loop_init_inv:
  assumes wp: "well_prepared (le_prepared v)" and "loop_init v s"
  shows "loop_inv v s"
proof -
  from assms(2) obtain st q rep where
    rows: "sc_entries s = la_entries (launch_of (le_prepared v) st (le_gov v) q rep)"
      "sc_journal s = la_journal (launch_of (le_prepared v) st (le_gov v) q rep)"
    and rest: "sc_waves s = pr_waves (le_prepared v)" "sc_submit s = []" "sc_queue s = []"
      "sc_running s = []"
    by (auto simp: loop_init_def)
  have b: "blocked_rows (pr_jobs (le_prepared v)) (sc_entries s)"
    and ev: "\<forall>e \<in> set (sc_journal s). \<forall>i. \<not> of_job i e"
    unfolding rows using launch_rows by blast+
  have ls: "lines_of i (sc_journal s) = []" for i using ev by (simp add: lines_of_def filter_empty_conv)
  have "places_ok v s"
    using b wp by (simp add: places_ok_def blocked_rows_def rest pending_def in_flight_def well_prepared_def)
  moreover have "lines_ok v s"
    unfolding lines_ok_def ls
  proof
    fix j
    have "settled_lines e j []" if "map_of (sc_entries s) (mj_id j) = Some e" for e
      using b that unfolding blocked_rows_def by (cases "en_origin e") (force simp: settled_lines.simps)+
    then show "case map_of (sc_entries s) (mj_id j) of Some e \<Rightarrow> settled_lines e j [] | None \<Rightarrow> open_lines s j []"
      by (simp add: open_lines_def in_flight_def rest split: option.split)
  qed
  moreover have "Job_Started st \<notin> set (sc_journal s)" for st using ev by (metis of_job.simps(1))
  then have "starts_ok v s" by (simp add: starts_ok_def)
  ultimately show ?thesis by (simp add: loop_inv_def)
qed

section \<open>Every step keeps the invariant\<close>

lemma open_job:
  assumes "loop_inv v s" "j \<in> set (pr_jobs (le_prepared v))" "mj_id j \<notin> set (okeys (sc_entries s))"
  shows "open_lines s j (lines_of (mj_id j) (sc_journal s))"
proof -
  have "map_of (sc_entries s) (mj_id j) = None" using assms(3) by (simp add: map_of_eq_None_iff)
  then show ?thesis using assms(1,2) unfolding loop_inv_def lines_ok_def by force
qed

lemma settled_job:
  assumes "loop_inv v s" "j \<in> set (pr_jobs (le_prepared v))" "map_of (sc_entries s) (mj_id j) = Some e"
  shows "settled_lines e j (lines_of (mj_id j) (sc_journal s))"
  using assms unfolding loop_inv_def lines_ok_def by force

lemma pending_lines:
  assumes wp: "well_prepared (le_prepared v)" and inv: "loop_inv v s"
    and j: "j \<in> set (pending s)" "mj_id j \<notin> set (okeys (sc_entries s))"
  shows "lines_of (mj_id j) (sc_journal s) = []" "j \<notin> set (in_flight s)"
proof -
  have pl: "places_ok v s" using inv by (simp add: loop_inv_def)
  then have "distinct (map mj_id (pending s @ in_flight s))" by (simp add: places_ok_def)
  then show nf: "j \<notin> set (in_flight s)" using j(1) by auto
  have "j \<in> set (pr_jobs (le_prepared v))" using j(1) by (intro placed_in [OF wp pl]) simp
  from open_job [OF inv this j(2)] show "lines_of (mj_id j) (sc_journal s) = []" using nf j(1) by (simp add: open_lines_def)
qed

lemma running_lines:
  assumes wp: "well_prepared (le_prepared v)" and inv: "loop_inv v s"
    and j: "j \<in> set (in_flight s)"
  obtains st where "lines_of (mj_id j) (sc_journal s) = [Job_Started st]" "mj_id j \<notin> set (okeys (sc_entries s))"
proof -
  have pl: "places_ok v s" using inv by (simp add: loop_inv_def)
  then have nk: "mj_id j \<notin> set (okeys (sc_entries s))" using j by (simp add: places_ok_def del: set_map)
  have "j \<in> set (pr_jobs (le_prepared v))" using j by (intro placed_in [OF wp pl]) simp
  from open_job [OF inv this nk] j nk that show ?thesis by (auto simp: open_lines_def)
qed

lemma inv_submit:
  assumes wp: "well_prepared (le_prepared v)" and inv: "loop_inv v s" and q: "sc_submit s = j # js"
  shows "loop_inv v (submit_job v j (s\<lparr>sc_submit := js\<rparr>))"
proof -
  let ?s = "s\<lparr>sc_submit := js\<rparr>"
  have pl: "places_ok v s" using inv by (simp add: loop_inv_def)
  have cr: "cancelledRun v ?s = cancelledRun v s" by (simp add: cancelledRun_def)
  have pd: "pending s = j # pending ?s" "in_flight ?s = in_flight s"
    by (simp_all add: pending_def in_flight_def q)
  have d: "distinct (map mj_id (pending s @ in_flight s))" using pl by (simp add: places_ok_def)
  have skip: "loop_inv v ?s"
    by (rule inv_skip [OF inv]) (use d pd in auto)
  have jp: "j \<in> set (pending s)" by (simp add: pd)
  have "distinct (map mj_id ((j # pending ?s) @ in_flight s))" using d unfolding pd(1) .
  moreover have "set (sc_queue s) \<subseteq> set (pending ?s)" by (auto simp: pending_def)
  ultimately have jo: "j \<notin> set (pending ?s)" "j \<notin> set (sc_queue s)" by auto
  have settle: "loop_inv v t"
    if nk: "mj_id j \<notin> set (okeys (sc_entries s))"
      and t: "sc_entries t = omap_set (mj_id j) e (sc_entries s)" "sc_failed t = sc_failed s"
      "sc_journal t = sc_journal s @ evs" "\<forall>i. i \<noteq> mj_id j \<longrightarrow> lines_of i evs = []" "\<forall>st. Job_Started st \<notin> set evs"
      "settled_lines e j (lines_of (mj_id j) evs)"
      "sc_waves t = sc_waves s" "sc_submit t = js" "sc_queue t = sc_queue s" "sc_running t = sc_running s"
    for t e evs
  proof -
    note pj = pending_lines [OF wp inv jp nk]
    have pt: "pending t = pending ?s" "in_flight t = in_flight s"
      by (simp_all add: pending_def in_flight_def t)
    show ?thesis
      by (rule inv_entry [OF wp inv _ nk t(1-5)])
        (use jp pj t d pd pt jo pl in \<open>auto simp: places_ok_def\<close>)
  qed
  show ?thesis
  proof (cases "omap_has (mj_id j) (sc_entries s)")
    case True
    with skip show ?thesis by (simp add: submit_job_def)
  next
    case False
    then have nk: "mj_id j \<notin> set (okeys (sc_entries s))" by (simp add: omap_has_iff)
    show ?thesis
    proof (cases "ready (sc_entries s) j")
      case nr: False
      show ?thesis
      proof (cases "cancelledRun v s")
        case True
        with False nr skip show ?thesis by (simp add: submit_job_def cr)
      next
        case nc: False
        have "loop_inv v (classify (mj_id j)
            (plain_entry (blockedResult (cancelledRun v ?s) (sc_entries ?s) j) Blocked FromBlock) ?s)"
          by (rule settle [OF nk, where evs = "[]" and
                e = "plain_entry (blockedResult (cancelledRun v ?s) (sc_entries ?s) j) Blocked FromBlock"]) (simp_all add: classify_def settled_block)
        with False nr nc show ?thesis by (simp add: submit_job_def cr)
      qed
    next
      case rd: True
      show ?thesis
      proof (cases "replayable (le_replay v) j")
        case None
        have "loop_inv v (s\<lparr>sc_submit := js, sc_queue := sc_queue s @ [j]\<rparr>)"
          by (rule inv_enqueue [OF inv q nk rd])
        with False rd None skip show ?thesis by (simp add: submit_job_def)
      next
        case (Some f)
        have "loop_inv v (classify (mj_id j) (replay_entry f) (journal_add [Job_Finished (reattest v j f)] ?s))"
          by (rule settle [OF nk, where evs = "[Job_Finished (reattest v j f)]" and e = "replay_entry f"])
            (use settled_replay [OF Some, of v] in \<open>simp_all add: classify_def journal_add_def reattest_def\<close>)
        with False rd Some show ?thesis by (simp add: submit_job_def)
      qed
    qed
  qed
qed


lemma inv_refuse:
  assumes wp: "well_prepared (le_prepared v)" and inv: "loop_inv v s" and q: "sc_queue s = j # js"
    and u: "sc_entries u = sc_entries s" "sc_failed u = sc_failed s" "sc_journal u = sc_journal s"
      "sc_waves u = sc_waves s" "sc_submit u = sc_submit s" "sc_queue u = js" "sc_running u = sc_running s"
    and evs: "\<forall>e \<in> set evs. \<forall>i. \<not> of_job i e"
  shows "loop_inv v (refuse_job v j evs u)"
proof -
  let ?t = "refuse_job v j evs u"
  have t: "sc_entries ?t = omap_set (mj_id j) (plain_entry RBudgetExhausted Budget_Exhausted FromRun) (sc_entries s)"
    "sc_failed ?t = sc_failed s" "sc_waves ?t = sc_waves s" "sc_submit ?t = sc_submit s" "sc_queue ?t = js"
    "sc_running ?t = sc_running s"
    "sc_journal ?t = sc_journal s @ (evs @ [Job_Finished (finish_event v j RBudgetExhausted)])"
    by (simp_all add: refuse_job_def classify_def journal_add_def u)
  have pl: "places_ok v s" using inv by (simp add: loop_inv_def)
  have jp: "j \<in> set (pending s)" by (simp add: pending_def q)
  have nk: "mj_id j \<notin> set (okeys (sc_entries s))" using pl by (simp add: places_ok_def q del: set_map)
  note pj = pending_lines [OF wp inv jp nk]
  have d: "distinct (map mj_id (pending s @ in_flight s))" using pl by (simp add: places_ok_def)
  have pd: "mset (pending s) = add_mset j (mset (pending ?t))" "in_flight ?t = in_flight s"
    by (simp_all add: pending_def in_flight_def t q)
  have "mset (map mj_id (j # pending ?t @ in_flight ?t)) = mset (map mj_id (pending s @ in_flight s))"
    by (simp add: pd)
  from mset_eq_imp_distinct_iff [OF this] d have d': "distinct (map mj_id (j # pending ?t @ in_flight ?t))" by simp
  have sp: "set (pending s) = insert j (set (pending ?t))"
    using mset_eq_setD [of "pending s" "j # pending ?t"] pd(1) by simp
  have ev: "lines_of i evs = []" for i using evs by (simp add: lines_of_def filter_empty_conv)
  have ns: "Job_Started st \<notin> set evs" for st using evs by (metis of_job.simps(1))
  have jq: "j \<notin> set js" using d by (auto simp: pending_def q)
  show ?thesis
  proof (rule inv_entry [OF wp inv _ nk t(1,2,7)])
    show "j \<in> set (pending s @ in_flight s)" using jp by simp
    show "\<forall>i. i \<noteq> mj_id j \<longrightarrow> lines_of i (evs @ [Job_Finished (finish_event v j RBudgetExhausted)]) = []"
      by (simp add: ev finish_event_def)
    show "settled_lines (plain_entry RBudgetExhausted Budget_Exhausted FromRun) j (lines_of (mj_id j) (sc_journal ?t))"
      using settled_refused [of j v] by (simp add: t(7) ev pj(1) finish_event_def)
    show "length (sc_running ?t) \<le> le_limit v" using pl by (simp add: t(6) places_ok_def)
  qed (use d' sp pj(2) pd(2) jq ns in \<open>auto simp: t(5) q\<close>)
qed

lemma inv_start_job:
  assumes wp: "well_prepared (le_prepared v)" and inv: "loop_inv v s" and q: "sc_queue s = j # js"
    and len: "length (sc_running s) < le_limit v"
  shows "loop_inv v (start_job v j (s\<lparr>sc_queue := js\<rparr>))"
proof -
  let ?s = "s\<lparr>sc_queue := js\<rparr>"
  have "distinct (map mj_id (pending s @ in_flight s))" using inv by (simp add: loop_inv_def places_ok_def)
  then have skip: "loop_inv v ?s"
    by (intro inv_skip [OF inv]) (auto simp: pending_def in_flight_def q)
  note begins = inv_start [OF wp inv q len]
  note refuses = inv_refuse [OF wp inv q]
  obtain g d where ad: "admit (mj_id j) (sc_governor s) = (g, d)" by fastforce
  show ?thesis
  proof (cases "le_governed v")
    case False
    then show ?thesis using skip
      by (auto simp: start_job_def plain_start_def journal_add_def start_event_def
          intro!: begins [where n = 1])
  next
    case gov: True
    show ?thesis
    proof (cases "sc_stop s \<or> sc_failed s")
      case True
      with gov skip show ?thesis by (simp add: start_job_def governed_start_def)
    next
      case go: False
      show ?thesis
      proof (cases "advisory_refused v ?s")
        case True
        with gov go show ?thesis
          by (auto simp: start_job_def governed_start_def note_refusal_def intro!: refuses)
      next
        case na: False
        show ?thesis
        proof (cases d)
          case (Reject why)
          with gov go na skip ad show ?thesis
            by (auto simp: start_job_def governed_start_def note_refusal_def intro!: refuses)
        next
          case (Admit n)
          with gov go na ad show ?thesis
            by (auto simp: start_job_def governed_start_def journal_add_def start_event_def
                intro!: begins [where n = n])
        qed
      qed
    qed
  qed
qed

lemma in_flight_removed:
  assumes "distinct (map mj_id (in_flight s))" "jn \<in> set (sc_running s)"
  shows "set (map fst (remove1 jn (sc_running s))) = set (in_flight s) - {fst jn}"
    "distinct (map mj_id (map fst (remove1 jn (sc_running s))))"
proof -
  obtain xs ys where r: "sc_running s = xs @ jn # ys" "jn \<notin> set xs"
    using split_list_first [OF assms(2)] by blast
  then have rm: "remove1 jn (sc_running s) = xs @ ys" by (simp add: remove1_append)
  have d: "distinct (map (\<lambda>x. mj_id (fst x)) (xs @ jn # ys))" using assms(1) by (simp add: in_flight_def r(1) comp_def)
  then show "distinct (map mj_id (map fst (remove1 jn (sc_running s))))" by (simp add: rm comp_def)
  show "set (map fst (remove1 jn (sc_running s))) = set (in_flight s) - {fst jn}"
  proof -
    have "mj_id (fst jn) \<notin> (\<lambda>x. mj_id (fst x)) ` (set xs \<union> set ys)" using d by auto
    then have "fst jn \<notin> fst ` (set xs \<union> set ys)" by (metis (no_types, lifting) imageE imageI)
    then show ?thesis using rm unfolding in_flight_def r(1) by (simp add: image_Un)
  qed
qed

lemma inv_finish:
  assumes wp: "well_prepared (le_prepared v)" and inv: "loop_inv v s" and jn: "jn \<in> set (sc_running s)"
  shows "loop_inv v (finish_job v jn d s)"
proof -
  let ?t = "finish_job v jn d s" and ?j = "fst jn"
  obtain f u c where t: "sc_entries ?t = omap_set (mj_id ?j) (executed_entry (ed_result d) u c) (sc_entries s)"
    "sc_failed ?t = sc_failed s" "sc_journal ?t = sc_journal s @ [Job_Finished f]"
    "sc_waves ?t = sc_waves s" "sc_submit ?t = sc_submit s" "sc_queue ?t = sc_queue s"
    "sc_running ?t = remove1 jn (sc_running s)"
    and f: "jf_job f = mj_id ?j" "jf_op f = mj_op ?j" "jf_hash f = mj_hash ?j" "jf_result f = ed_result d"
  proof (cases "le_governed v")
    case True
    show ?thesis
      by (rule that [of "ed_usage d" "ed_cost d" "governed_finish v ?j (snd jn) d"])
        (simp_all add: True finish_job_def Let_def classify_def journal_add_def request_stop_def
          drop_running_def governed_finish_def finish_event_def)
  next
    case False
    show ?thesis
      by (rule that [of None None "finish_event v ?j (ed_result d)"])
        (simp_all add: False finish_job_def Let_def classify_def journal_add_def request_stop_def
          drop_running_def finish_event_def)
  qed
  have pl: "places_ok v s" using inv by (simp add: loop_inv_def)
  then have d: "distinct (map mj_id (pending s @ in_flight s))" by (simp add: places_ok_def)
  have jf: "?j \<in> set (in_flight s)" using jn by (simp add: in_flight_def)
  obtain st where ls: "lines_of (mj_id ?j) (sc_journal s) = [Job_Started st]" "mj_id ?j \<notin> set (okeys (sc_entries s))"
    by (rule running_lines [OF wp inv jf])
  have pt: "pending ?t = pending s" "in_flight ?t = map fst (remove1 jn (sc_running s))"
    by (simp_all add: pending_def in_flight_def t)
  have df: "distinct (map mj_id (in_flight s))" using d by simp
  note rm = in_flight_removed [OF df jn]
  have jp: "?j \<notin> set (pending s)" using d jf by auto
  then have jq: "?j \<notin> set (sc_queue s)" by (simp add: pending_def)
  show ?thesis
  proof (rule inv_entry [OF wp inv _ ls(2) t(1-3)])
    show "settled_lines (executed_entry (ed_result d) u c) ?j (lines_of (mj_id ?j) (sc_journal ?t))"
      using settled_run [OF f(4,2,3), of u c st] by (simp add: t(3) ls(1) f(1))
    show "distinct (map mj_id (pending ?t @ in_flight ?t))"
      using d rm unfolding pt by auto
    show "length (sc_running ?t) \<le> le_limit v"
      using pl length_remove1 [of jn "sc_running s"] unfolding t(7) places_ok_def by (simp split: if_splits)
  qed (use jf jp jq rm f(1) in \<open>auto simp: pt t(6)\<close>)
qed


text \<open>A finish that could not be journalled leaves a started job without an entry, in a failed run.\<close>

lemma inv_drop:
  assumes wp: "well_prepared (le_prepared v)" and inv: "loop_inv v s" and jn: "jn \<in> set (sc_running s)"
  shows "loop_inv v (fail_run v (drop_running jn s))"
proof -
  let ?t = "fail_run v (drop_running jn s)" and ?j = "fst jn"
  have t: "sc_entries ?t = sc_entries s" "sc_journal ?t = sc_journal s" "sc_waves ?t = sc_waves s"
    "sc_submit ?t = sc_submit s" "sc_queue ?t = sc_queue s" "sc_running ?t = remove1 jn (sc_running s)" "sc_failed ?t"
    by (simp_all add: fail_run_def drop_running_def)
  have pl: "places_ok v s" using inv by (simp add: loop_inv_def)
  then have d: "distinct (map mj_id (pending s @ in_flight s))" by (simp add: places_ok_def)
  then have df: "distinct (map mj_id (in_flight s))" by simp
  note rm = in_flight_removed [OF df jn]
  have jf: "?j \<in> set (in_flight s)" using jn by (simp add: in_flight_def)
  have pt: "pending ?t = pending s" "in_flight ?t = map fst (remove1 jn (sc_running s))"
    by (simp_all add: pending_def in_flight_def t)
  have d': "distinct (map mj_id (pending s @ in_flight ?t))" using d rm unfolding pt by auto
  have len: "length (sc_running ?t) \<le> le_limit v"
    using pl length_remove1 [of jn "sc_running s"] unfolding t(6) places_ok_def by (simp split: if_splits)
  have sub: "set (in_flight ?t) \<subseteq> set (in_flight s)" unfolding pt rm by blast
  have "places_ok v ?t"
    using pl sub d' len unfolding places_ok_def pt(1) t(1,5) set_append by (elim conjE, intro conjI) blast+
  moreover have "open_lines ?t i ls" if "open_lines s i ls" for i ls
  proof -
    have sf: "set (in_flight ?t) = set (in_flight s) - {?j}" unfolding pt by (rule rm)
    have "(\<exists>st. ls = [Job_Started st]) \<or> ls = []"
      using that unfolding open_lines_def by (auto split: if_splits)
    moreover have "i \<in> set (pending s) \<Longrightarrow> ls = [] \<or> i \<in> set (in_flight s)"
      using that unfolding open_lines_def by (simp split: if_splits)
    moreover have "i \<in> set (in_flight s) \<Longrightarrow> (\<exists>st. ls = [Job_Started st]) \<and> i \<notin> set (pending s)"
      using that d unfolding open_lines_def by auto
    ultimately show ?thesis using t(7) unfolding open_lines_def pt(1) sf by (simp only: split: if_split) blast
  qed
  then have "lines_ok v ?t"
    using inv unfolding loop_inv_def lines_ok_def t(1,2) by (auto split: option.splits)
  moreover have "starts_ok v ?t" using inv by (simp add: loop_inv_def starts_ok_def t(1,2))
  ultimately show ?thesis by (simp add: loop_inv_def)
qed

lemma loop_step_inv:
  assumes wp: "well_prepared (le_prepared v)" and inv: "loop_inv v s" and st: "loop_step v s t"
  shows "loop_inv v t"
proof -
  have d: "distinct (map mj_id (pending s @ in_flight s))" using inv by (simp add: loop_inv_def places_ok_def)
  from st show ?thesis
  proof (cases rule: loop_step.cases)
    case (next_wave w ws)
    have "pending t = pending s" "in_flight t = in_flight s"
      using next_wave by (simp_all add: pending_def in_flight_def idle_def)
    then show ?thesis by (intro inv_skip [OF inv]) (use next_wave d in auto)
  next
    case (submit j js)
    then show ?thesis using inv_submit [OF wp inv] by simp
  next
    case submit_break
    then show ?thesis by (intro inv_skip [OF inv]) (use d in \<open>auto simp: pending_def in_flight_def\<close>)
  next
    case (start j js)
    then show ?thesis using inv_start_job [OF wp inv] by simp
  next
    case (finish jn d)
    then show ?thesis using inv_finish [OF wp inv] by simp
  next
    case (fence_failed jn)
    then show ?thesis using inv_drop [OF wp inv] by simp
  next
    case run_failed
    then show ?thesis by (intro inv_frame [OF inv, where evs = "[]"]) (simp_all add: fail_run_def)
  next
    case (governor_call c g)
    then show ?thesis by (intro inv_frame [OF inv, where evs = "[]"]) simp_all
  next
    case (ledger_line e ro rt)
    then show ?thesis
      by (intro inv_frame [OF inv, where evs = "[e]"]) (auto simp: journal_add_def)
  next
    case (dispatch_event jn e)
    then show ?thesis by (intro inv_frame [OF inv, where evs = "[]"]) simp_all
  qed
qed

interpretation wave: invariant_system "launched v" "loop_step v"
    "\<lambda>s. well_prepared (le_prepared v) \<and> loop_inv v s" for v
  by unfold_locales (auto intro: launched_well loop_init_inv loop_step_inv simp: launched_def
      dest: prepare_well_prepared)

end
