(* ===== verification/Wave_Laws.thy ===== *)
theory Wave_Laws
  imports Wave_Inv
begin

text \<open>
  What every run of the wave machine guarantees: dependencies finish before their dependants start,
  a job starts and finishes at most once, a stopped or tripped run starts nothing more, every run can
  end, and its journal tells the same story as its entries.
\<close>

section \<open>What a step journals\<close>

text \<open>A step appends its events; one that starts a job appends the start alone.\<close>

definition starting :: "loop_env \<Rightarrow> sched \<Rightarrow> sched \<Rightarrow> job_started \<Rightarrow> bool" where
  "starting v s t st \<longleftrightarrow> sc_journal t = sc_journal s @ [Job_Started st]
     \<and> (\<exists>j js. sc_queue s = j # js \<and> js_job st = mj_id j)
     \<and> \<not> sc_stop s \<and> \<not> sc_failed s
     \<and> (le_governed v \<longrightarrow> (\<exists>j n. snd (admit j (sc_governor s)) = Admit n
          \<and> g_dispatched (sc_governor t) = g_dispatched (fst (admit j (sc_governor s)))))"

definition quiet_step :: "sched \<Rightarrow> sched \<Rightarrow> bool" where
  "quiet_step s t \<longleftrightarrow> (\<exists>es. sc_journal t = sc_journal s @ es \<and> (\<forall>st. Job_Started st \<notin> set es)
     \<and> (\<forall>r j. Quarantine_Released r j \<notin> set es))"

lemma quiet_stepI:
  "sc_journal t = sc_journal s @ es \<Longrightarrow> \<forall>st. Job_Started st \<notin> set es
     \<Longrightarrow> \<forall>r j. Quarantine_Released r j \<notin> set es \<Longrightarrow> quiet_step s t"
  by (auto simp: quiet_step_def)

lemma quiet_same: "sc_journal t = sc_journal s \<Longrightarrow> quiet_step s t"
  by (rule quiet_stepI [of _ _ "[]"]) simp_all

lemma start_job_journal:
  assumes "sc_queue s = j # js" and t_def: "t = start_job v j (s\<lparr>sc_queue := js\<rparr>)"
  shows "quiet_step s t \<or> (\<exists>st. starting v s t st)"
proof (cases "le_governed v")
  case False
  then show ?thesis
    by (auto simp: t_def start_job_def plain_start_def journal_add_def start_event_def starting_def assms(1)
        quiet_same)
next
  case gov: True
  obtain g d where ad: "admit (mj_id j) (sc_governor s) = (g, d)" by fastforce
  show ?thesis
  proof (cases "sc_stop s \<or> sc_failed s")
    case True
    with gov show ?thesis by (simp add: t_def start_job_def governed_start_def quiet_same)
  next
    case go: False
    show ?thesis
    proof (cases "advisory_refused v (s\<lparr>sc_queue := js\<rparr>)")
      case True
      with gov go show ?thesis
        by (intro disjI1 quiet_stepI [of _ _ "[Reservation_Refused (le_run v) (mj_id j) (mj_op j), Job_Finished (finish_event v j RBudgetExhausted)]"])
          (simp_all add: t_def start_job_def governed_start_def refuse_job_def note_refusal_def classify_def journal_add_def)
    next
      case na: False
      show ?thesis
      proof (cases d)
        case (Reject why)
        have "quiet_step s (refuse_job v j [] (note_refusal j why (s\<lparr>sc_queue := js\<rparr>)))"
          by (rule quiet_stepI [of _ _ "[Job_Finished (finish_event v j RBudgetExhausted)]"])
            (simp_all add: refuse_job_def note_refusal_def classify_def journal_add_def)
        moreover have "quiet_step s (s\<lparr>sc_queue := js\<rparr>)" by (simp add: quiet_same)
        ultimately show ?thesis using gov go na ad Reject
          by (simp add: t_def start_job_def governed_start_def)
      next
        case (Admit n)
        with gov go na ad have "starting v s t \<lparr>js_run = le_run v, js_job = mj_id j, js_op = mj_op j, js_attempt = n\<rparr>"
          using assms(1) by (auto simp: t_def starting_def start_job_def governed_start_def journal_add_def
              start_event_def record_event_def intro!: exI [of _ "mj_id j"])
        then show ?thesis by blast
      qed
    qed
  qed
qed

lemma step_journal:
  assumes "loop_step v s t"
  shows "quiet_step s t \<or> (\<exists>st. starting v s t st)"
  using assms
proof (cases rule: loop_step.cases)
  case (submit j js)
  have "sc_journal (submit_job v j (s\<lparr>sc_submit := js\<rparr>)) = sc_journal s
      \<or> (\<exists>f. sc_journal (submit_job v j (s\<lparr>sc_submit := js\<rparr>)) = sc_journal s @ [Job_Finished f])"
    by (simp add: submit_job_def classify_def journal_add_def split: option.split)
  then have "quiet_step s (submit_job v j (s\<lparr>sc_submit := js\<rparr>))"
    by (auto intro: quiet_same quiet_stepI)
  with submit show ?thesis by simp
next
  case (start j js)
  then show ?thesis using start_job_journal by blast
next
  case (finish jn d)
  have "\<exists>f. sc_journal (finish_job v jn d s) = sc_journal s @ [Job_Finished f]"
    by (auto simp: finish_job_def Let_def classify_def journal_add_def request_stop_def drop_running_def)
  then obtain f where "sc_journal t = sc_journal s @ [Job_Finished f]" using finish by blast
  then show ?thesis by (auto intro: quiet_stepI)
next
  case (ledger_line e ro rt)
  then show ?thesis by (auto simp: journal_add_def intro!: quiet_stepI [of _ _ "[e]"])
qed (auto simp: fail_run_def drop_running_def note_refusal_def intro: quiet_same)

section \<open>Dependencies finish first\<close>

definition done_in :: "job_id \<Rightarrow> journal_event list \<Rightarrow> bool" where
  "done_in d evs \<longleftrightarrow> (\<exists>f. Job_Finished f \<in> set evs \<and> jf_job f = d \<and> status (jf_result f) = Ok_st)"

definition deps_first :: "manifest_job list \<Rightarrow> journal_event list \<Rightarrow> bool" where
  "deps_first jobs evs \<longleftrightarrow>
     (\<forall>n < length evs. \<forall>st. evs ! n = Job_Started st \<longrightarrow>
        (\<forall>j \<in> set jobs. mj_id j = js_job st \<longrightarrow> (\<forall>d \<in> set (mj_deps j). done_in d (take n evs))))"

lemma deps_first_quiet:
  "deps_first jobs evs \<Longrightarrow> \<forall>st. Job_Started st \<notin> set es \<Longrightarrow> deps_first jobs (evs @ es)"
  unfolding deps_first_def
proof (intro allI impI ballI)
  fix n st j d
  assume a: "\<forall>n < length evs. \<forall>st. evs ! n = Job_Started st \<longrightarrow>
      (\<forall>j \<in> set jobs. mj_id j = js_job st \<longrightarrow> (\<forall>d \<in> set (mj_deps j). done_in d (take n evs)))"
    and ns: "\<forall>st. Job_Started st \<notin> set es" and n: "n < length (evs @ es)" "(evs @ es) ! n = Job_Started st"
    and j: "j \<in> set jobs" "mj_id j = js_job st" "d \<in> set (mj_deps j)"
  have "n < length evs"
  proof (rule ccontr)
    assume "\<not> n < length evs"
    then have "Job_Started st \<in> set es" using n nth_mem [of "n - length evs" es] by (auto simp: nth_append)
    with ns show False by blast
  qed
  with a n j show "done_in d (take n (evs @ es))" by (simp add: nth_append)
qed

lemma deps_first_start:
  assumes "deps_first jobs evs"
    and "\<And>j d. j \<in> set jobs \<Longrightarrow> mj_id j = js_job st \<Longrightarrow> d \<in> set (mj_deps j) \<Longrightarrow> done_in d evs"
  shows "deps_first jobs (evs @ [Job_Started st])"
  unfolding deps_first_def
proof (intro allI impI ballI)
  fix n st' j d
  assume n: "n < length (evs @ [Job_Started st])" "(evs @ [Job_Started st]) ! n = Job_Started st'"
    and j: "j \<in> set jobs" "mj_id j = js_job st'" "d \<in> set (mj_deps j)"
  show "done_in d (take n (evs @ [Job_Started st]))"
  proof (cases "n < length evs")
    case True
    with n(2) j assms(1) show ?thesis by (auto simp: deps_first_def nth_append)
  next
    case False
    with n have "n = length evs" "st' = st" by (simp_all add: nth_append)
    with j assms(2) show ?thesis by simp
  qed
qed

text \<open>A done entry has its ok finish in the journal.\<close>

lemma done_journalled:
  assumes inv: "loop_inv v s" and e: "map_of (sc_entries s) d = Some e" "en_state e = Done"
  shows "done_in d (sc_journal s)"
proof -
  have "d \<in> set (okeys (sc_entries s))" using e(1) by (metis map_of_eq_None_iff option.distinct(1) set_map)
  then obtain k where k: "k \<in> set (pr_jobs (le_prepared v))" "mj_id k = d"
    using inv unfolding loop_inv_def places_ok_def by blast
  have l: "settled_lines e k (lines_of d (sc_journal s))"
    using settled_job [OF inv k(1)] e(1) k(2) by simp
  have "\<exists>f. Job_Finished f \<in> set (lines_of d (sc_journal s)) \<and> status (jf_result f) = Ok_st"
  proof (cases "en_origin e")
    case FromRun
    with l obtain pre f where f: "lines_of d (sc_journal s) = pre @ [Job_Finished f]" "jf_result f = en_result e"
      "stateFromResult (en_result e) = Done" using e(2) by (auto simp: settled_lines.simps)
    then have "status (jf_result f) = Ok_st" by (cases "en_result e") simp_all
    with f(1) show ?thesis by auto
  next
    case FromReplay
    with l show ?thesis by (auto simp: settled_lines.simps)
  qed (use l e(2) in \<open>auto simp: settled_lines.simps\<close>)
  then show ?thesis by (auto simp: done_in_def lines_of_def)
qed

lemma starting_deps:
  assumes wp: "well_prepared (le_prepared v)" and inv: "loop_inv v s" and st: "starting v s t st"
    and j: "j \<in> set (pr_jobs (le_prepared v))" "mj_id j = js_job st" "d \<in> set (mj_deps j)"
  shows "done_in d (sc_journal s)"
proof -
  obtain k ks where k: "sc_queue s = k # ks" "js_job st = mj_id k" using st by (auto simp: starting_def)
  have pl: "places_ok v s" using inv by (simp add: loop_inv_def)
  have "k \<in> set (pr_jobs (le_prepared v))" by (rule placed_in [OF wp pl]) (simp add: pending_def k)
  then have "j = k" using same_job [OF wp j(1)] j(2) k(2) by simp
  then have "ready (sc_entries s) j" using pl k(1) by (simp add: places_ok_def)
  then obtain e where "map_of (sc_entries s) d = Some e" "en_state e = Done"
    using j(3) by (auto simp: ready_def list_all_iff)
  then show ?thesis by (rule done_journalled [OF inv])
qed

text \<open>Quarantine releases are journalled at the launch only, before any line of a job.\<close>

definition releases_first :: "journal_event list \<Rightarrow> bool" where
  "releases_first evs \<longleftrightarrow> (\<exists>la rest. evs = la @ rest \<and> (\<forall>e \<in> set la. \<forall>i. \<not> of_job i e)
     \<and> (\<forall>r j. Quarantine_Released r j \<notin> set rest))"

lemma releases_first_add:
  "releases_first evs \<Longrightarrow> \<forall>r j. Quarantine_Released r j \<notin> set es \<Longrightarrow> releases_first (evs @ es)"
  unfolding releases_first_def
proof (elim exE conjE)
  fix la rest assume "evs = la @ rest" "\<forall>e \<in> set la. \<forall>i. \<not> of_job i e"
    "\<forall>r j. Quarantine_Released r j \<notin> set rest" "\<forall>r j. Quarantine_Released r j \<notin> set es"
  then show "\<exists>la rest. evs @ es = la @ rest \<and> (\<forall>e \<in> set la. \<forall>i. \<not> of_job i e)
      \<and> (\<forall>r j. Quarantine_Released r j \<notin> set rest)"
    by (intro exI [of _ la] exI [of _ "rest @ es"]) simp
qed

definition ordered_inv :: "loop_env \<Rightarrow> sched \<Rightarrow> bool" where
  "ordered_inv v s \<longleftrightarrow> well_prepared (le_prepared v) \<and> loop_inv v s
     \<and> deps_first (pr_jobs (le_prepared v)) (sc_journal s) \<and> releases_first (sc_journal s)"

lemma loop_init_quiet: "loop_init v s \<Longrightarrow> \<forall>e \<in> set (sc_journal s). \<forall>i. \<not> of_job i e"
  using launch_rows by (auto simp: loop_init_def)

lemma deps_first_init: "loop_init v s \<Longrightarrow> deps_first jobs (sc_journal s)"
  using deps_first_quiet [of jobs "[]" "sc_journal s"] loop_init_quiet [of v s]
  by (metis append_Nil deps_first_def length_0_conv less_nat_zero_code of_job.simps(1))

lemma releases_first_init: "loop_init v s \<Longrightarrow> releases_first (sc_journal s)"
  unfolding releases_first_def using loop_init_quiet
  by (intro exI [of _ "sc_journal s"] exI [of _ "[]"]) simp

lemma ordered_step:
  assumes o: "ordered_inv v s" and st: "loop_step v s t"
  shows "ordered_inv v t"
proof -
  let ?jobs = "pr_jobs (le_prepared v)"
  from o have i: "well_prepared (le_prepared v)" "loop_inv v s" "deps_first ?jobs (sc_journal s)"
    "releases_first (sc_journal s)" by (simp_all add: ordered_inv_def)
  from step_journal [OF st] have "deps_first ?jobs (sc_journal t) \<and> releases_first (sc_journal t)"
  proof
    assume "quiet_step s t"
    with i(3,4) show ?thesis by (auto simp: quiet_step_def deps_first_quiet releases_first_add)
  next
    assume "\<exists>x. starting v s t x"
    then obtain x where x: "starting v s t x" ..
    then have "sc_journal t = sc_journal s @ [Job_Started x]" by (simp add: starting_def)
    with deps_first_start [OF i(3), of x] starting_deps [OF i(1,2) x] releases_first_add [OF i(4)]
    show ?thesis by simp
  qed
  with loop_step_inv [OF i(1,2) st] i(1) show ?thesis by (simp add: ordered_inv_def)
qed

interpretation ordered: invariant_system "launched v" "loop_step v" "ordered_inv v" for v
proof
  fix s assume "launched v s"
  then show "ordered_inv v s"
    unfolding ordered_inv_def using launched_well loop_init_inv deps_first_init releases_first_init
    by (metis launched_def)
qed (rule ordered_step)

section \<open>A small run\<close>

text \<open>A plan of three jobs, one of them set aside: the first wave has run, the second is in flight.\<close>

definition demo_env :: loop_env where
  "demo_env = \<lparr>le_prepared = demo_prepared, le_limit = 2, le_stopOnError = False, le_gov = None,
     le_replay = [], le_parent = None\<rparr>"

definition wave_header :: run_started where
  "wave_header = \<lparr>rs_run = ''p--k3--0f'', rs_at = ''t'', rs_plan = ''p'', rs_version = None, rs_seq = None,
     rs_governance = None, rs_ungoverned = False\<rparr>"

definition demo_gov0 :: governor where
  "demo_gov0 = createGovernor \<lparr>gc_maxUsd = None, gc_maxTokens = None, gc_wallClockMs = None,
     gc_abortGraceMs = None, gc_killGraceMs = None, gc_maxAttempts = None, gc_dispatchQuota = None,
     gc_inFlight = None\<rparr>"

definition demo_launch :: sched where
  "demo_launch = \<lparr>sc_entries = unschedulable_entries demo_prepared, sc_journal = [Run_Started wave_header],
     sc_waves = pr_waves demo_prepared, sc_submit = [], sc_queue = [], sc_running = [], sc_stop = False,
     sc_failed = False, sc_governor = demo_gov0, sc_admitted = []\<rparr>"

lemma demo_launched: "launched demo_env demo_launch"
  unfolding launched_def
proof (intro conjI)
  show "\<exists>sha256 num stamp rnd p opts. prepare sha256 num stamp rnd p opts (le_gov demo_env) = ok (le_prepared demo_env)
      \<and> concurrency opts = Fin (of_nat (le_limit demo_env)) \<and> le_stopOnError demo_env = stopOnError opts"
    using demo_prepare by (auto simp: demo_env_def demo_opts_def intro!: exI)
  show "loop_init demo_env demo_launch"
    unfolding loop_init_def
    by (rule exI [of _ wave_header], rule exI [of _ "[]"], rule exI [of _ "[]"], rule exI [of _ demo_gov0])
      (simp add: demo_env_def demo_launch_def launch_of_def governedDispatch_def)
qed (simp add: le_governed_def governedDispatch_def demo_env_def)

definition demo_ending :: ending where
  "demo_ending = \<lparr>ed_result = ROk JNull, ed_usage = None, ed_cost = None, ed_charged = None, ed_sessions = None\<rparr>"

definition demo_first :: sched where
  "demo_first = submit_job demo_env (demo_job 1)
     (demo_launch\<lparr>sc_submit := [], sc_waves := [[demo_job 0]]\<rparr>)"

definition demo_started :: sched where
  "demo_started = start_job demo_env (demo_job 1) (demo_first\<lparr>sc_queue := []\<rparr>)"

definition demo_finished :: sched where
  "demo_finished = finish_job demo_env (demo_job 1, 1) demo_ending demo_started"

definition demo_second :: sched where
  "demo_second = submit_job demo_env (demo_job 0)
     (demo_finished\<lparr>sc_submit := [], sc_waves := []\<rparr>)"

definition demo_flying :: sched where
  "demo_flying = start_job demo_env (demo_job 0) (demo_second\<lparr>sc_queue := []\<rparr>)"

lemmas demo_defs = demo_env_def demo_launch_def demo_prepared_def demo_job_simps submit_job_def
  start_job_def plain_start_def finish_job_def le_governed_def governedDispatch_def omap_has_def
  ready_def replayable_def classify_def journal_add_def request_stop_def drop_running_def

lemma demo_rows: "okeys (unschedulable_entries demo_prepared) = [''c'']"
  by (simp add: unschedulable_entries_def demo_prepared_def demo_job_simps)

lemma demo_row_lookup:
  "map_of (unschedulable_entries demo_prepared) ''a'' = None"
  "map_of (unschedulable_entries demo_prepared) ''b'' = None"
proof -
  have "fst ` set (unschedulable_entries demo_prepared) = {''c''}"
    using arg_cong [OF demo_rows, of set] by simp
  then show "map_of (unschedulable_entries demo_prepared) ''a'' = None"
    "map_of (unschedulable_entries demo_prepared) ''b'' = None" by (simp_all add: map_of_eq_None_iff)
qed

lemma demo_first_eq:
  "demo_first = demo_launch\<lparr>sc_queue := [demo_job 1], sc_waves := [[demo_job 0]]\<rparr>"
  using demo_row_lookup by (simp add: demo_first_def demo_defs)

lemma demo_started_eq:
  "demo_started = demo_launch\<lparr>sc_waves := [[demo_job 0]], sc_running := [(demo_job 1, 1)],
     sc_journal := [Run_Started wave_header, start_event demo_env (demo_job 1) 1]\<rparr>"
  by (simp add: demo_started_def demo_first_eq demo_defs)

lemma demo_finished_eq:
  "demo_finished = demo_launch\<lparr>sc_waves := [[demo_job 0]],
     sc_entries := omap_set ''a'' (executed_entry (ROk JNull) None None) (unschedulable_entries demo_prepared),
     sc_journal := [Run_Started wave_header, start_event demo_env (demo_job 1) 1,
       Job_Finished (finish_event demo_env (demo_job 1) (ROk JNull))]\<rparr>"
  by (simp add: demo_finished_def demo_started_eq demo_defs demo_ending_def Let_def)

lemma demo_second_eq:
  "demo_second = demo_finished\<lparr>sc_queue := [demo_job 0], sc_waves := []\<rparr>"
  using demo_row_lookup
  by (simp add: demo_second_def demo_finished_eq demo_defs executed_entry_def)

lemma demo_flying_eq:
  "demo_flying = demo_finished\<lparr>sc_waves := [], sc_running := [(demo_job 0, 1)],
     sc_journal := [Run_Started wave_header, start_event demo_env (demo_job 1) 1,
       Job_Finished (finish_event demo_env (demo_job 1) (ROk JNull)), start_event demo_env (demo_job 0) 1]\<rparr>"
  by (simp add: demo_flying_def demo_second_eq demo_finished_eq demo_defs)

lemma demo_reaches:
  "reach (launched demo_env) (loop_step demo_env) demo_finished"
  "reach (launched demo_env) (loop_step demo_env) demo_flying"
  "reach (launched demo_env) (loop_step demo_env) demo_started"
proof -
  let ?r = "reach (launched demo_env) (loop_step demo_env)"
  have "?r demo_launch" using demo_launched by (rule reach_init)
  moreover have "loop_step demo_env demo_launch (demo_launch\<lparr>sc_submit := [demo_job 1], sc_waves := [[demo_job 0]]\<rparr>)"
    by (rule next_wave) (simp_all add: idle_def demo_launch_def demo_prepared_def)
  ultimately have "?r (demo_launch\<lparr>sc_submit := [demo_job 1], sc_waves := [[demo_job 0]]\<rparr>)" by (rule reach_step)
  moreover have "loop_step demo_env \<dots> demo_first"
    using loop_step.submit [of "demo_launch\<lparr>sc_submit := [demo_job 1], sc_waves := [[demo_job 0]]\<rparr>" "demo_job 1" "[]" demo_env]
    by (simp add: demo_first_def demo_launch_def)
  ultimately have "?r demo_first" by (rule reach_step)
  moreover have "loop_step demo_env demo_first demo_started"
    unfolding demo_started_def by (rule loop_step.start) (simp_all add: demo_first_eq demo_launch_def demo_env_def)
  ultimately show st: "?r demo_started" by (rule reach_step)
  have "loop_step demo_env demo_started demo_finished"
    unfolding demo_finished_def by (rule loop_step.finish) (simp add: demo_started_eq)
  with st show f: "?r demo_finished" by (rule reach_step)
  have "loop_step demo_env demo_finished (demo_finished\<lparr>sc_submit := [demo_job 0], sc_waves := []\<rparr>)"
    by (rule next_wave) (simp_all add: idle_def demo_finished_eq demo_launch_def)
  with f have "?r (demo_finished\<lparr>sc_submit := [demo_job 0], sc_waves := []\<rparr>)" by (rule reach_step)
  moreover have "loop_step demo_env \<dots> demo_second"
    using loop_step.submit [of "demo_finished\<lparr>sc_submit := [demo_job 0], sc_waves := []\<rparr>" "demo_job 0" "[]" demo_env]
    by (simp add: demo_second_def demo_finished_eq demo_launch_def)
  ultimately have "?r demo_second" by (rule reach_step)
  moreover have "loop_step demo_env demo_second demo_flying"
    unfolding demo_flying_def
    by (rule loop_step.start) (simp_all add: demo_second_eq demo_finished_eq demo_launch_def demo_env_def)
  ultimately show "?r demo_flying" by (rule reach_step)
qed

section \<open>The order of a run\<close>

text \<open>C2 Dependencies finish first: in every state a run can reach, however its jobs interleave, each
  start line in the journal is preceded by an ok finish of every dependency of the started job.\<close>

theorem dependencies_finish_first:
  assumes "reach (launched v) (loop_step v) s" "sc_journal s = pre @ Job_Started st # post"
    and "j \<in> set (pr_jobs (le_prepared v))" "mj_id j = js_job st" "d \<in> set (mj_deps j)"
  shows "\<exists>f. Job_Finished f \<in> set pre \<and> jf_job f = d \<and> status (jf_result f) = Ok_st"
proof -
  have "deps_first (pr_jobs (le_prepared v)) (sc_journal s)"
    using ordered.reach_inv [OF assms(1)] by (simp add: ordered_inv_def)
  moreover have "length pre < length (sc_journal s)" "sc_journal s ! length pre = Job_Started st"
    "take (length pre) (sc_journal s) = pre"
    by (simp_all add: assms(2))
  ultimately have "done_in d pre" using assms(3-5) unfolding deps_first_def by metis
  then show ?thesis by (simp add: done_in_def)
qed

theorem dependencies_finish_first_witness:
  "\<exists>f. Job_Finished f \<in> set [Run_Started wave_header, start_event demo_env (demo_job 1) 1,
       Job_Finished (finish_event demo_env (demo_job 1) (ROk JNull))]
     \<and> jf_job f = ''a'' \<and> status (jf_result f) = Ok_st"
  by (rule dependencies_finish_first [OF demo_reaches(2), where post = "[]" and j = "demo_job 0"
        and st = "\<lparr>js_run = le_run demo_env, js_job = ''b'', js_op = ''o'', js_attempt = 1\<rparr>"])
    (simp_all add: demo_flying_eq start_event_def demo_job_simps demo_env_def demo_prepared_def)

text \<open>At most one attempt per run: a job's lines are at most one start and one finish, the finish
  last, and no more jobs are in flight than the run allows.\<close>

lemma one_attempt_per_run:
  assumes "reach (launched v) (loop_step v) s" "j \<in> set (pr_jobs (le_prepared v))"
  shows "(\<exists>st f. lines_of (mj_id j) (sc_journal s)
        \<in> {[], [Job_Started st], [Job_Finished f], [Job_Started st, Job_Finished f]})
      \<and> length (sc_running s) \<le> le_limit v"
proof -
  have inv: "loop_inv v s" using wave.reach_inv [OF assms(1)] by blast
  have "\<exists>st f. lines_of (mj_id j) (sc_journal s)
        \<in> {[], [Job_Started st], [Job_Finished f], [Job_Started st, Job_Finished f]}"
  proof (cases "map_of (sc_entries s) (mj_id j)")
    case None
    then have "open_lines s j (lines_of (mj_id j) (sc_journal s))"
      using open_job [OF inv assms(2)] by (simp add: map_of_eq_None_iff)
    then show ?thesis by (auto simp: open_lines_def split: if_splits)
  next
    case (Some e)
    then show ?thesis using settled_job [OF inv assms(2)]
      by (auto simp: settled_lines.simps split: origin.splits)
  qed
  moreover have "length (sc_running s) \<le> le_limit v"
    using inv unfolding loop_inv_def places_ok_def by blast
  ultimately show ?thesis ..
qed

section \<open>The journal tells the entries' story\<close>

definition finish_state :: "op_result \<Rightarrow> job_state" where
  "finish_state r = (case status_state (status r) of Some s \<Rightarrow> s | None \<Rightarrow> Running)"

lemma derive_step_lookup:
  "map_of (derive_step e m) j =
     (case job_fact e of None \<Rightarrow> map_of m j | Some (i, st) \<Rightarrow> if i = j then Some st else map_of m j)"
  by (auto simp: derive_step_fact split: option.split)

lemma status_of_lines: "map_of (deriveJobStatuses evs) j = map_of (deriveJobStatuses (lines_of j evs)) j"
proof (induction evs rule: rev_induct)
  case (snoc e evs)
  then show ?case
    by (cases e) (auto simp: deriveJobStatuses_def derive_step_lookup job_fact_def lines_of_def split: option.splits)
qed (simp add: lines_of_def)

lemma status_lines:
  "map_of (deriveJobStatuses []) j = None"
  "js_job st = j \<Longrightarrow> map_of (deriveJobStatuses [Job_Started st]) j = Some Running"
  "js_job st = j \<Longrightarrow> jf_job f = j \<Longrightarrow>
     map_of (deriveJobStatuses [Job_Started st, Job_Finished f]) j = Some (finish_state (jf_result f))"
  "jf_job f = j \<Longrightarrow> status (jf_result f) \<in> {Ok_st, BudgetExhausted_st} \<Longrightarrow>
     map_of (deriveJobStatuses [Job_Finished f]) j = Some (finish_state (jf_result f))"
  by (auto simp: deriveJobStatuses_def finish_state_def split: option.split)

lemma lines_of_jobs:
  "Job_Started st \<in> set (lines_of j evs) \<Longrightarrow> js_job st = j"
  "Job_Finished f \<in> set (lines_of j evs) \<Longrightarrow> jf_job f = j"
  by (auto simp: lines_of_def)

text \<open>Journal and entries agree: reading the journal back gives a job that ran or was replayed the
  state of its entry (running for a needs-human or indeterminate verdict, which the journal leaves
  open), a job in flight as running, and no status to a job that was blocked or never started.\<close>

lemma journal_agrees_with_entries:
  assumes "reach (launched v) (loop_step v) s" "\<not> sc_failed s" "j \<in> set (pr_jobs (le_prepared v))"
  shows "map_of (deriveJobStatuses (sc_journal s)) (mj_id j) =
     (case map_of (sc_entries s) (mj_id j) of
        Some e \<Rightarrow> if en_origin e \<in> {FromRun, FromReplay} then Some (finish_state (en_result e)) else None
      | None \<Rightarrow> if j \<in> set (in_flight s) then Some Running else None)"
proof -
  have inv: "loop_inv v s" using wave.reach_inv [OF assms(1)] by blast
  let ?ls = "lines_of (mj_id j) (sc_journal s)"
  show ?thesis
  proof (cases "map_of (sc_entries s) (mj_id j)")
    case None
    then have "open_lines s j ?ls"
      using open_job [OF inv assms(3)] by (simp add: map_of_eq_None_iff)
    then show ?thesis using None assms(2) lines_of_jobs(1) [of _ "mj_id j" "sc_journal s"]
      by (subst status_of_lines) (auto simp: open_lines_def status_lines split: if_splits)
  next
    case (Some e)
    have l: "settled_lines e j ?ls" by (rule settled_job [OF inv assms(3) Some])
    show ?thesis
    proof (cases "en_origin e")
      case FromRun
      with l obtain pre f where f: "?ls = pre @ [Job_Finished f]" "jf_result f = en_result e"
        "pre = [] \<and> en_result e = RBudgetExhausted \<or> (\<exists>st. pre = [Job_Started st])"
        by (auto simp: settled_lines.simps)
      have jf: "jf_job f = mj_id j" by (rule lines_of_jobs(2) [of _ _ "sc_journal s"]) (simp add: f(1))
      from f(3) show ?thesis
      proof
        assume "pre = [] \<and> en_result e = RBudgetExhausted"
        with f jf Some FromRun show ?thesis by (subst status_of_lines) (simp add: status_lines)
      next
        assume "\<exists>st. pre = [Job_Started st]"
        then obtain st where st: "pre = [Job_Started st]" ..
        have "js_job st = mj_id j" by (rule lines_of_jobs(1) [of _ _ "sc_journal s"]) (simp add: f(1) st)
        with f st jf Some FromRun show ?thesis by (subst status_of_lines) (simp add: status_lines)
      qed
    next
      case FromReplay
      with l obtain f where f: "?ls = [Job_Finished f]" "jf_result f = en_result e" "status (en_result e) = Ok_st"
        by (auto simp: settled_lines.simps)
      have jf: "jf_job f = mj_id j" by (rule lines_of_jobs(2) [of _ _ "sc_journal s"]) (simp add: f(1))
      with f Some FromReplay show ?thesis by (subst status_of_lines) (simp add: status_lines)
    qed (use l Some in \<open>auto simp: settled_lines.simps status_of_lines [of "sc_journal s"] status_lines\<close>)
  qed
qed

section \<open>A later run resumes\<close>

lemma last_line:
  assumes "lines_of j evs = pre @ [Job_Finished f]"
  obtains xs ys where "evs = xs @ Job_Finished f # ys" "\<forall>e \<in> set ys. \<not> of_job j e"
proof -
  have "filter (of_job j) (rev evs) = Job_Finished f # rev pre"
    using arg_cong [OF assms, of rev] by (simp add: lines_of_def rev_filter)
  then obtain us vs where u: "rev evs = us @ Job_Finished f # vs" "\<forall>e \<in> set us. \<not> of_job j e"
    by (auto simp: filter_eq_Cons_iff)
  then have "evs = rev vs @ Job_Finished f # rev us"
    by (metis append.assoc append_Cons append_Nil rev.simps(2) rev_append rev_rev_ident)
  then show ?thesis by (rule that) (simp add: u(2))
qed

lemma replay_of_done:
  assumes inv: "ordered_inv v s" and j: "j \<in> set (pr_jobs (le_prepared v))"
    and e: "map_of (sc_entries s) (mj_id j) = Some e" "en_state e = Done"
  obtains f where "map_of (fold replay_event (sc_journal s) m) (mj_id j) = Some f"
    "jf_op f = mj_op j" "jf_hash f = mj_hash j" "status (jf_result f) = Ok_st" "jf_result f = en_result e"
proof -
  have "settled_lines e j (lines_of (mj_id j) (sc_journal s))"
    using inv settled_job [OF _ j e(1)] by (simp add: ordered_inv_def)
  moreover have "stateFromResult r = Done \<Longrightarrow> status r = Ok_st" for r by (cases r) simp_all
  ultimately obtain pre f where f: "lines_of (mj_id j) (sc_journal s) = pre @ [Job_Finished f]"
    "jf_op f = mj_op j" "jf_hash f = mj_hash j" "status (jf_result f) = Ok_st" "jf_result f = en_result e"
    using e(2) by (cases "en_origin e") (auto simp: settled_lines.simps)
  obtain xs ys where x: "sc_journal s = xs @ Job_Finished f # ys" "\<forall>e \<in> set ys. \<not> of_job (mj_id j) e"
    by (rule last_line [OF f(1)])
  have jf: "jf_job f = mj_id j" by (rule lines_of_jobs(2) [of _ _ "sc_journal s"]) (simp add: f(1))
  obtain la rest where r: "sc_journal s = la @ rest" "\<forall>e \<in> set la. \<forall>i. \<not> of_job i e"
    "\<forall>r j. Quarantine_Released r j \<notin> set rest"
    using inv unfolding ordered_inv_def releases_first_def by blast
  have "Quarantine_Released r i \<notin> set ys" for r i
  proof
    assume q: "Quarantine_Released r i \<in> set ys"
    from x(1) r(1) have "la @ rest = xs @ Job_Finished f # ys" by simp
    then consider us where "la = xs @ us" "us @ rest = Job_Finished f # ys"
      | us where "xs = la @ us" "rest = us @ Job_Finished f # ys"
      by (auto simp: append_eq_append_conv2)
    then show False
    proof cases
      case 1
      show ?thesis
      proof (cases us)
        case Nil
        with 1 q r(3) show ?thesis by auto
      next
        case (Cons u us')
        with 1 have "Job_Finished f \<in> set la" by simp
        with r(2) show ?thesis by (metis of_job.simps(2))
      qed
    next
      case 2
      with q r(3) show ?thesis by auto
    qed
  qed
  then have "\<forall>e \<in> set ys. \<not> concerns (mj_id j) e"
    using x(2) by (metis concerns.elims(2) of_job.simps(2))
  then have "find (concerns (mj_id j)) (rev (sc_journal s)) = Some (Job_Finished f)"
    using x(1) jf concerns.simps(1) unfolding find_rev by blast
  then have "map_of (fold replay_event (sc_journal s) m) (mj_id j) = Some f" by (simp add: replay_fold)
  with f that show ?thesis by blast
qed

text \<open>C4 Finished work is not done again: fold the journal of a run, stopped or crashed in any state,
  into the replay records of the next one, and every job that was done, met again with the same
  operation and input hash, is not started: it gets its recorded result and one re-attesting line.\<close>

theorem resume_skips_done:
  assumes "reach (launched v) (loop_step v) s" "j \<in> set (pr_jobs (le_prepared v))"
    and "map_of (sc_entries s) (mj_id j) = Some e" "en_state e = Done"
    and "le_replay v' = fold replay_event (sc_journal s) m"
    and "mj_id j' = mj_id j" "mj_op j' = mj_op j" "mj_hash j' = mj_hash j"
    and "\<not> omap_has (mj_id j') (sc_entries t)" "ready (sc_entries t) j'"
  shows "\<exists>f. jf_result f = en_result e
     \<and> submit_job v' j' t = classify (mj_id j') (replay_entry f) (journal_add [Job_Finished (reattest v' j' f)] t)"
proof -
  obtain f where "map_of (fold replay_event (sc_journal s) m) (mj_id j) = Some f"
    "jf_op f = mj_op j" "jf_hash f = mj_hash j" "status (jf_result f) = Ok_st" "jf_result f = en_result e"
    using replay_of_done [OF ordered.reach_inv [OF assms(1)] assms(2-4)] by blast
  moreover from this have "replayable (le_replay v') j' = Some f"
    using assms(5-8) by (simp add: replayable_def)
  ultimately show ?thesis using assms(9,10) by (auto simp: submit_job_def)
qed

theorem resume_skips_done_witness:
  "\<exists>f. jf_result f = ROk JNull
     \<and> submit_job (demo_env\<lparr>le_replay := fold replay_event (sc_journal demo_finished) []\<rparr>) (demo_job 1) demo_launch
       = classify (mj_id (demo_job 1)) (replay_entry f)
           (journal_add [Job_Finished (reattest (demo_env\<lparr>le_replay := fold replay_event (sc_journal demo_finished) []\<rparr>)
              (demo_job 1) f)] demo_launch)"
  using resume_skips_done [OF demo_reaches(1), of "demo_job 1" "executed_entry (ROk JNull) None None"
      "demo_env\<lparr>le_replay := fold replay_event (sc_journal demo_finished) []\<rparr>" "[]" "demo_job 1" demo_launch]
    demo_row_lookup
  by (simp add: demo_env_def demo_prepared_def demo_finished_eq demo_job_simps executed_entry_def demo_launch_def
      omap_has_def ready_def)

end
