(* ===== verification/Wave_Governor.thy ===== *)
theory Wave_Governor
  imports Wave_Laws Governor_Bound
begin

text \<open>
  The wave machine and its governor together: a governed run keeps the governor's invariant, counts
  every start it journals, and starts nothing after a stop, a failure or a trip.
\<close>

section \<open>What a governor call leaves alone\<close>

definition kept :: "governor \<Rightarrow> governor \<Rightarrow> bool" where
  "kept g g' \<longleftrightarrow> g_config g' = g_config g \<and> g_dispatched g' = g_dispatched g \<and> g_inheritedCap g' = g_inheritedCap g"

lemma kept_simps [simp]:
  "kept g g" "kept g (trip k r g')= kept g g'" "kept g (record_event e g') = kept g g'"
  by (simp_all add: kept_def)

lemma kept_trans: "kept f g \<Longrightarrow> kept g h \<Longrightarrow> kept f h"
  by (simp add: kept_def)

lemma kept_drain: "draining g \<Longrightarrow> drainWaiters g = ok g' \<Longrightarrow> kept g g'"
  using drain_same [of g g'] by (simp add: kept_def draining_def)

lemma kept_settle_books: "kept g (settle_books h b g)"
  by (simp add: settle_books_def Let_def kept_def close_hold_def split: option.split)

lemma kept_fold_usage: "kept g (fold_usage j u g)"
  by (simp add: fold_usage_def Let_def kept_def split: option.split)

lemma kept_fold_cost: "kept g (fold_cost j u g)"
  by (simp add: fold_cost_def Let_def kept_def split: option.split)

lemma kept_observeResult: "observeResult j e uc cc g = ok g' \<Longrightarrow> kept g g'"
proof (erule observeResult_okE)
  fix g1
  assume "(if real_usage (ev_usage e) \<and> \<not> uc then observeUsage j (raw_usage_of (ev_usage e)) g else ok g) = ok g1"
  then have "kept g g1" by (auto dest!: observeUsage_okD simp: kept_fold_usage split: if_splits)
  moreover assume "(if isValidUsd (ev_cost e)
             then (if \<not> cc then observeCost j (num_of (ev_cost e)) g1 else ok g1)
             else if real_usage (ev_usage e) \<and> capUsd g1 \<noteq> None \<and> \<not> cc
             then ok (trip Exhausted UnpricedUsage g1) else ok g1) = ok g'"
  then have "kept g1 g'" by (auto dest!: observeCost_okD simp: kept_fold_cost split: if_splits)
  ultimately show "kept g g'" by (rule kept_trans)
qed

lemma exec_kept:
  assumes inv: "gov_inv g" and al: "allowed c g" and ex: "exec c g = ok g'" and na: "\<forall>j. c \<noteq> C_Admit j"
  shows "kept g g'"
proof (cases c)
  case (C_Reserve j a p cls)
  with ex obtain out where r: "reserve j a p cls g = ok (g', out)" by (auto simp: bind_result_eq_Inr)
  moreover have "idle_job j g" using al C_Reserve by simp
  ultimately show ?thesis
    by (cases rule: reserve_cases) (auto simp: kept_def grant_def record_event_def Let_def)
next
  case (C_Abandon r)
  show ?thesis
  proof (cases "g' = g")
    case False
    with C_Abandon ex obtain h where "hd_res h = r" "map_of (g_outstanding g) (rv_id (hd_res h)) = Some h"
      "drainWaiters (close_hold (hd_res h) g) = ok g'"
      by (auto simp: abandonReservation_def split: option.splits if_splits)
    then have "kept (close_hold (hd_res h) g) g'" by (intro kept_drain close_hold_draining [OF inv])
    then show ?thesis by (simp add: kept_def close_hold_def)
  qed simp
next
  case (C_Settle r b u)
  with ex obtain h where h: "map_of (g_outstanding g) (rv_id r) = Some h" "hd_res h = r"
    "drainWaiters (settle_books h b g) = ok g'" by (auto dest: settle_okD simp: bind_result_eq_Inr)
  then have "kept (settle_books h b g) g'" by (intro kept_drain settle_books_draining [OF inv]) simp_all
  with kept_settle_books show ?thesis by (rule kept_trans)
qed (use ex na kept_fold_usage kept_fold_cost kept_observeResult in
    \<open>auto simp: tripSignal_def dest!: observeUsage_okD observeCost_okD\<close>)

lemma kept_capUsd: "kept g g' \<Longrightarrow> capUsd g' = capUsd g"
  by (rule capUsd_cong) (simp_all add: kept_def)

lemma admit_capUsd [simp]: "capUsd (fst (admit j g)) = capUsd g"
  by (rule capUsd_cong) (simp_all add: admit_def)

lemma exec_tripped:
  "gov_inv g \<Longrightarrow> allowed c g \<Longrightarrow> exec c g = ok g' \<Longrightarrow> tripped g \<Longrightarrow> tripped g'"
  using exec_frozen by (simp add: frozen_def tripped_def)

lemma gov_inv_record [simp]: "gov_inv (record_event e g) = gov_inv g"
  by (rule gov_inv_cong) simp_all

lemma admit_facts:
  "admit j g = (g', Admit n) \<Longrightarrow> \<not> tripped g \<and> g_config g' = g_config g
     \<and> g_dispatched g' = Suc (g_dispatched g)
     \<and> (\<forall>q. gc_dispatchQuota (g_config g) = Some q \<longrightarrow> g_dispatched g < q)"
  by (auto simp: admit_def split: if_splits option.splits)

section \<open>What a step does to the governor\<close>

definition counted_start :: "sched \<Rightarrow> sched \<Rightarrow> bool" where
  "counted_start s t \<longleftrightarrow> (\<exists>j n g e. admit j (sc_governor s) = (g, Admit n) \<and> sc_governor t = record_event e g)"

definition plain_call :: "sched \<Rightarrow> sched \<Rightarrow> bool" where
  "plain_call s t \<longleftrightarrow> (\<exists>e. sc_governor t = record_event e (sc_governor s)) \<or> sc_governor t = sc_governor s
     \<or> (\<exists>c. allowed c (sc_governor s) \<and> exec c (sc_governor s) = ok (sc_governor t) \<and> (\<forall>j. c \<noteq> C_Admit j))"

lemma step_governor:
  assumes "loop_step v s t"
  shows "plain_call s t \<or> counted_start s t"
  using assms
proof (cases rule: loop_step.cases)
  case (submit j js)
  then show ?thesis by (simp add: submit_job_def plain_call_def classify_def journal_add_def split: option.split)
next
  case (start j js)
  obtain g d where ad: "admit (mj_id j) (sc_governor s) = (g, d)" by fastforce
  show ?thesis
  proof (cases "le_governed v \<and> \<not> (sc_stop s \<or> sc_failed s) \<and> \<not> advisory_refused v (s\<lparr>sc_queue := js\<rparr>)
      \<and> (\<exists>n. d = Admit n)")
    case True
    then obtain n where n: "d = Admit n" by blast
    have "sc_governor t = record_event (Ev_Admitted (mj_op j) (mj_id j) n) g"
      using True n ad start(1) by (simp add: start_job_def governed_start_def journal_add_def)
    with ad n show ?thesis unfolding counted_start_def by blast
  next
    case False
    then have "plain_call s t" using ad start(1)
      by (cases d) (auto simp: plain_call_def start_job_def plain_start_def governed_start_def refuse_job_def
          note_refusal_def classify_def journal_add_def)
    then show ?thesis ..
  qed
next
  case (governor_call c g)
  then show ?thesis by (auto simp: plain_call_def)
next
  case (fence_failed jn)
  then show ?thesis
    by (auto simp: plain_call_def fail_run_def drop_running_def intro!: exI [of _ "C_TripSignal (Some _)"])
next
  case run_failed
  then show ?thesis
    by (auto simp: plain_call_def fail_run_def intro!: exI [of _ "C_TripSignal (Some _)"])
qed (auto simp: plain_call_def finish_job_def Let_def classify_def journal_add_def request_stop_def
    drop_running_def note_refusal_def)

lemma step_governor_facts:
  assumes st: "loop_step v s t" and inv: "gov_inv (sc_governor s)"
  shows "gov_inv (sc_governor t)" "g_config (sc_governor t) = g_config (sc_governor s)"
    "g_dispatched (sc_governor s) \<le> g_dispatched (sc_governor t)"
    "tripped (sc_governor s) \<Longrightarrow> tripped (sc_governor t)"
proof -
  let ?g = "sc_governor s" and ?h = "sc_governor t"
  have "gov_inv ?h \<and> g_config ?h = g_config ?g \<and> g_dispatched ?g \<le> g_dispatched ?h \<and> (tripped ?g \<longrightarrow> tripped ?h)"
    using step_governor [OF st]
  proof
    assume "counted_start s t"
    then obtain j n g e where a: "admit j ?g = (g, Admit n)" "?h = record_event e g"
      by (auto simp: counted_start_def)
    with admit_facts [OF a(1)] inv_admit [OF inv, of j] show ?thesis by simp
  next
    assume "plain_call s t"
    then consider e where "?h = record_event e ?g" | "?h = ?g"
      | c where "allowed c ?g" "exec c ?g = ok ?h" "\<forall>j. c \<noteq> C_Admit j"
      unfolding plain_call_def by blast
    then show ?thesis
    proof cases
      case (3 c)
      then show ?thesis using inv_exec [OF inv 3(1,2)] exec_kept [OF inv 3] exec_tripped [OF inv 3(1,2)]
        by (simp add: kept_def)
    qed (use inv in simp_all)
  qed
  then show "gov_inv ?h" "g_config ?h = g_config ?g" "g_dispatched ?g \<le> g_dispatched ?h"
    "tripped ?g \<Longrightarrow> tripped ?h" by simp_all
qed

section \<open>Starts are counted\<close>

definition start_count :: "journal_event list \<Rightarrow> nat" where
  "start_count evs = length (filter is_start evs)"

lemma is_start_iff: "is_start e \<longleftrightarrow> (\<exists>st. e = Job_Started st)"
  by (cases e) auto

lemma start_count_quiet: "quiet_step s t \<Longrightarrow> start_count (sc_journal t) = start_count (sc_journal s)"
  by (auto simp: quiet_step_def start_count_def is_start_iff filter_empty_conv)

lemma start_count_starting: "starting v s t st \<Longrightarrow> start_count (sc_journal t) = Suc (start_count (sc_journal s))"
  by (auto simp: starting_def start_count_def)

lemma starting_counted:
  assumes "starting v s t st" "le_governed v"
  shows "\<not> tripped (sc_governor s)" "g_dispatched (sc_governor t) = Suc (g_dispatched (sc_governor s))"
    "gc_dispatchQuota (g_config (sc_governor s)) = Some q \<Longrightarrow> g_dispatched (sc_governor s) < q"
proof -
  obtain j n where "snd (admit j (sc_governor s)) = Admit n"
    "g_dispatched (sc_governor t) = g_dispatched (fst (admit j (sc_governor s)))"
    using assms by (auto simp: starting_def)
  moreover from this(1) obtain g where "admit j (sc_governor s) = (g, Admit n)" by (metis prod.collapse)
  ultimately show "\<not> tripped (sc_governor s)" "g_dispatched (sc_governor t) = Suc (g_dispatched (sc_governor s))"
    "gc_dispatchQuota (g_config (sc_governor s)) = Some q \<Longrightarrow> g_dispatched (sc_governor s) < q"
    using admit_facts by fastforce+
qed

definition counted_inv :: "loop_env \<Rightarrow> sched \<Rightarrow> bool" where
  "counted_inv v s \<longleftrightarrow> (le_governed v \<longrightarrow> gov_inv (sc_governor s)
     \<and> start_count (sc_journal s) \<le> g_dispatched (sc_governor s)
     \<and> (\<forall>q. gc_dispatchQuota (g_config (sc_governor s)) = Some q \<longrightarrow> start_count (sc_journal s) \<le> q))"

lemma counted_step:
  assumes inv: "counted_inv v s" and st: "loop_step v s t"
  shows "counted_inv v t"
  unfolding counted_inv_def
proof
  assume g: "le_governed v"
  with inv have i: "gov_inv (sc_governor s)" "start_count (sc_journal s) \<le> g_dispatched (sc_governor s)"
    "\<And>q. gc_dispatchQuota (g_config (sc_governor s)) = Some q \<Longrightarrow> start_count (sc_journal s) \<le> q"
    by (simp_all add: counted_inv_def)
  note f = step_governor_facts [OF st i(1)]
  show "gov_inv (sc_governor t) \<and> start_count (sc_journal t) \<le> g_dispatched (sc_governor t)
     \<and> (\<forall>q. gc_dispatchQuota (g_config (sc_governor t)) = Some q \<longrightarrow> start_count (sc_journal t) \<le> q)"
    using step_journal [OF st]
  proof
    assume "quiet_step s t"
    from start_count_quiet [OF this] f i show ?thesis by simp
  next
    assume "\<exists>x. starting v s t x"
    then obtain x where x: "starting v s t x" ..
    show ?thesis
      using f(1,2) i(2) start_count_starting [OF x] starting_counted(2,3) [OF x g] by fastforce
  qed
qed

lemma start_count_init: "loop_init v s \<Longrightarrow> start_count (sc_journal s) = 0"
  using loop_init_quiet by (fastforce simp: start_count_def filter_empty_conv is_start_iff)

interpretation counted: invariant_system "launched v" "loop_step v" "counted_inv v" for v
proof
  fix s assume "launched v s"
  then show "counted_inv v s"
    using gov_start_inv [of "sc_governor s"] start_count_init [of v s] by (simp add: launched_def counted_inv_def)
qed (rule counted_step)

section \<open>Stopping\<close>

definition halted :: "loop_env \<Rightarrow> sched \<Rightarrow> bool" where
  "halted v s \<longleftrightarrow> sc_stop s \<or> sc_failed s \<or> le_governed v \<and> tripped (sc_governor s)"

lemma flags_step:
  assumes "loop_step v s t" and f: "sc_stop s \<or> sc_failed s"
  shows "sc_stop t \<or> sc_failed t"
  using assms(1)
proof (cases rule: loop_step.cases)
  case (start j js)
  with f show ?thesis by (auto simp: start_job_def plain_start_def governed_start_def)
next
  case (submit j js)
  with f show ?thesis by (simp add: submit_job_def classify_def journal_add_def split: option.split)
qed (use f in \<open>auto simp: finish_job_def Let_def classify_def journal_add_def request_stop_def
    drop_running_def fail_run_def note_refusal_def\<close>)

lemma halted_step:
  assumes inv: "counted_inv v s" and st: "loop_step v s t" and h: "halted v s"
  shows "halted v t \<and> start_count (sc_journal t) = start_count (sc_journal s)"
proof -
  have "halted v t"
    using h flags_step [OF st] step_governor_facts(4) [OF st] inv by (auto simp: halted_def counted_inv_def)
  moreover have "\<not> starting v s t x" for x
    using h starting_counted(1) [of v s t x] by (auto simp: halted_def starting_def)
  then have "quiet_step s t" using step_journal [OF st] by blast
  ultimately show ?thesis using start_count_quiet by simp
qed

text \<open>C18 A halted run starts nothing: after a stop request, an infrastructure failure or (governed) a
  trip of the governor, no step of any interleaving journals another start.\<close>

theorem halted_starts_nothing:
  assumes "reach (launched v) (loop_step v) s" "halted v s" "(loop_step v)\<^sup>*\<^sup>* s t"
  shows "halted v t \<and> start_count (sc_journal t) = start_count (sc_journal s)"
proof -
  have "halted v t \<and> counted_inv v t \<and> start_count (sc_journal t) = start_count (sc_journal s)"
    using assms(3)
  proof (induction rule: rtranclp_induct)
    case base
    show ?case using assms(2) counted.reach_inv [OF assms(1)] by simp
  next
    case (step t u)
    then show ?case using halted_step [OF _ step(2)] counted_step [OF _ step(2)] by simp
  qed
  then show ?thesis by simp
qed

theorem halted_starts_nothing_witness:
  "halted demo_env (fail_run demo_env demo_started)
     \<and> start_count (sc_journal (fail_run demo_env demo_started)) = start_count (sc_journal (fail_run demo_env demo_started))"
proof (rule halted_starts_nothing)
  show "reach (launched demo_env) (loop_step demo_env) (fail_run demo_env demo_started)"
    using demo_reaches(3) loop_step.run_failed by (rule reach_step)
qed (simp_all add: halted_def fail_run_def)

text \<open>C19 Quota and cap hold for the run as a whole: a governed run never journals more starts than its
  dispatch quota, and until it trips its ledger is within its dollar cap.\<close>

theorem governed_run_bounds:
  assumes "reach (launched v) (loop_step v) s" "le_governed v"
  shows "(\<forall>q. gc_dispatchQuota (g_config (sc_governor s)) = Some q \<longrightarrow> start_count (sc_journal s) \<le> q)
     \<and> (\<forall>c. capUsd (sc_governor s) = Some c \<longrightarrow> \<not> tripped (sc_governor s)
          \<longrightarrow> g_usdSpent (sc_governor s) \<le> c + USD_EPSILON)"
  using counted.reach_inv [OF assms(1)] assms(2) gov_invD(4) [of "sc_governor s"]
  by (auto simp: counted_inv_def rollup_ok_def)

definition demo_genv :: loop_env where
  "demo_genv = demo_env\<lparr>le_gov := Some (demo_gov\<lparr>gv_attended := Some True\<rparr>)\<rparr>"

definition demo_quota :: governor where
  "demo_quota = createGovernor \<lparr>gc_maxUsd = Some 3, gc_maxTokens = None, gc_wallClockMs = None,
     gc_abortGraceMs = None, gc_killGraceMs = None, gc_maxAttempts = None, gc_dispatchQuota = Some 1,
     gc_inFlight = None\<rparr>"

definition demo_glaunch :: sched where
  "demo_glaunch = demo_launch\<lparr>sc_governor := demo_quota\<rparr>"

definition demo_gstarted :: sched where
  "demo_gstarted = start_job demo_genv (demo_job 1) (demo_glaunch\<lparr>sc_waves := [[demo_job 0]]\<rparr>)"

lemma demo_genv_governed: "le_governed demo_genv"
  by (simp add: le_governed_def demo_genv_def governedDispatch_def ungovernedMarked_def demo_gov_def)

lemma quarantine_none: "fold (quarantine_job r un rel []) js l = l"
  by (induction js) (simp_all add: quarantine_job_def)

lemma demo_glaunched: "launched demo_genv demo_glaunch"
  unfolding launched_def
proof (intro conjI impI)
  show "\<exists>sha256 num stamp rnd p opts. prepare sha256 num stamp rnd p opts (le_gov demo_genv) = ok (le_prepared demo_genv)
      \<and> concurrency opts = Fin (of_nat (le_limit demo_genv)) \<and> le_stopOnError demo_genv = stopOnError opts"
    using demo_prepare by (auto simp: demo_genv_def demo_env_def demo_opts_def intro!: exI)
  have "launch_of demo_prepared wave_header (le_gov demo_genv) [] []
      = \<lparr>la_entries = unschedulable_entries demo_prepared, la_journal = [Run_Started wave_header], la_replay = []\<rparr>"
    by (simp add: launch_of_def quarantine_none Let_def)
  then show "loop_init demo_genv demo_glaunch"
    unfolding loop_init_def
    by (intro exI [of _ wave_header] exI [of _ "[] :: (job_id, string \<times> rat) omap"]
        exI [of _ "[] :: (job_id, job_finished) omap"] exI [of _ demo_quota]
        exI [of _ "launch_of demo_prepared wave_header (le_gov demo_genv) [] []"])
      (simp add: demo_genv_def demo_env_def demo_glaunch_def demo_launch_def)
  show "gov_start (sc_governor demo_glaunch)"
    by (simp add: demo_glaunch_def gov_start_def demo_quota_def createGovernor_def rollup_ok_def capUsd_def
        tripped_def USD_EPSILON_def)
qed

lemma demo_gstarted_reach:
  "reach (launched demo_genv) (loop_step demo_genv) demo_gstarted"
  "start_count (sc_journal demo_gstarted) = 1" "sc_governor demo_gstarted = record_event
     (Ev_Admitted ''o'' ''a'' 1) (fst (admit ''a'' demo_quota))"
proof -
  let ?r = "reach (launched demo_genv) (loop_step demo_genv)"
  let ?w = "demo_glaunch\<lparr>sc_submit := [demo_job 1], sc_waves := [[demo_job 0]]\<rparr>"
  let ?q = "demo_glaunch\<lparr>sc_queue := [demo_job 1], sc_waves := [[demo_job 0]]\<rparr>"
  have nt: "\<not> tripped demo_quota" by (simp add: demo_quota_def createGovernor_def tripped_def)
  have "?r demo_glaunch" using demo_glaunched by (rule reach_init)
  moreover have "loop_step demo_genv demo_glaunch ?w"
    by (rule next_wave) (simp_all add: idle_def demo_glaunch_def demo_launch_def demo_prepared_def)
  ultimately have "?r ?w" by (rule reach_step)
  moreover have "submit_job demo_genv (demo_job 1) (?w\<lparr>sc_submit := []\<rparr>) = ?q"
    using demo_row_lookup nt
    by (simp add: demo_glaunch_def demo_launch_def demo_genv_def demo_env_def submit_job_def demo_job_simps
        omap_has_def ready_def replayable_def)
  then have "loop_step demo_genv ?w ?q"
    using loop_step.submit [of ?w "demo_job 1" "[]" demo_genv] by (simp add: demo_glaunch_def demo_launch_def)
  ultimately have "?r ?q" by (rule reach_step)
  moreover have "loop_step demo_genv ?q demo_gstarted"
    using loop_step.start [of ?q "demo_job 1" "[]" demo_genv]
    by (simp add: demo_gstarted_def demo_glaunch_def demo_launch_def demo_genv_def demo_env_def)
  ultimately show "?r demo_gstarted" by (rule reach_step)
  obtain g where g: "admit ''a'' demo_quota = (g, Admit (Suc 0))" "g = fst (admit ''a'' demo_quota)"
    by (simp add: admit_def demo_quota_def createGovernor_def tripped_def attemptsFor_def)
  have na: "\<not> advisory_refused demo_genv (demo_glaunch\<lparr>sc_waves := [[demo_job 0]]\<rparr>)"
    by (simp add: advisory_refused_def demo_genv_def demo_env_def)
  have eq: "demo_gstarted = (demo_glaunch\<lparr>sc_waves := [[demo_job 0]],
       sc_journal := [Run_Started wave_header, start_event demo_genv (demo_job 1) 1],
       sc_governor := record_event (Ev_Admitted ''o'' ''a'' 1) g,
       sc_admitted := [''a''], sc_running := [(demo_job 1, 1)]\<rparr>)"
    using demo_genv_governed na g(1)
    by (simp add: demo_gstarted_def start_job_def governed_start_def demo_job_simps journal_add_def
        demo_glaunch_def demo_launch_def)
  show "start_count (sc_journal demo_gstarted) = 1" by (simp add: eq start_count_def start_event_def)
  show "sc_governor demo_gstarted = record_event (Ev_Admitted ''o'' ''a'' 1) (fst (admit ''a'' demo_quota))"
    by (simp add: eq g(2))
qed

theorem governed_run_bounds_witness:
  "start_count (sc_journal demo_gstarted) \<le> 1
     \<and> g_usdSpent (sc_governor demo_gstarted) \<le> 3 + USD_EPSILON"
proof -
  have "gc_dispatchQuota (g_config (sc_governor demo_gstarted)) = Some 1"
    "capUsd (sc_governor demo_gstarted) = Some 3" "\<not> tripped (sc_governor demo_gstarted)"
    unfolding demo_gstarted_reach(3) by code_simp+
  with governed_run_bounds [OF demo_gstarted_reach(1) demo_genv_governed] show ?thesis by blast
qed

end
