(* ===== verification/Wave_End.thy ===== *)
theory Wave_End
  imports Wave_Governor
begin

text \<open>
  How runs of the wave machine end: scheduling always can go on and is bounded, a run that was never
  halted settles every job, and the report of a run that ended is complete.
\<close>

section \<open>Scheduling goes on, and ends\<close>

text \<open>What is left to schedule: each job moves through wave, submission, queue and flight.\<close>

definition work :: "sched \<Rightarrow> nat" where
  "work s = 4 * length (concat (sc_waves s)) + length (sc_waves s) + 3 * length (sc_submit s)
     + 2 * length (sc_queue s) + length (sc_running s)"

definition scheduling :: "sched \<Rightarrow> manifest_job list list \<times> manifest_job list \<times> manifest_job list
    \<times> (manifest_job \<times> nat) list \<times> entries" where
  "scheduling s = (sc_waves s, sc_submit s, sc_queue s, sc_running s, sc_entries s)"

lemma work_submit: "sc_submit s = j # js \<Longrightarrow> work (submit_job v j (s\<lparr>sc_submit := js\<rparr>)) < work s"
  by (simp add: work_def submit_job_def classify_def journal_add_def split: option.split)

lemma work_start:
  "sc_queue s = j # js \<Longrightarrow> work (start_job v j (s\<lparr>sc_queue := js\<rparr>)) < work s"
  by (simp add: work_def start_job_def plain_start_def governed_start_def refuse_job_def note_refusal_def
      classify_def journal_add_def split: prod.split admission.split)

lemma work_removed:
  "jn \<in> set (sc_running s) \<Longrightarrow> sc_waves t = sc_waves s \<Longrightarrow> sc_submit t = sc_submit s \<Longrightarrow> sc_queue t = sc_queue s
     \<Longrightarrow> sc_running t = remove1 jn (sc_running s) \<Longrightarrow> work t < work s"
  using length_pos_if_in_set [of jn "sc_running s"] by (simp add: work_def length_remove1)

lemma finish_job_places:
  "sc_waves (finish_job v jn d s) = sc_waves s" "sc_submit (finish_job v jn d s) = sc_submit s"
  "sc_queue (finish_job v jn d s) = sc_queue s" "sc_running (finish_job v jn d s) = remove1 jn (sc_running s)"
  "sc_failed (finish_job v jn d s) = sc_failed s"
  "\<exists>e. sc_entries (finish_job v jn d s) = omap_set (mj_id (fst jn)) e (sc_entries s)"
  by (auto simp: finish_job_def Let_def classify_def journal_add_def request_stop_def drop_running_def)

lemma fail_run_places [simp]:
  "sc_waves (fail_run v s) = sc_waves s" "sc_submit (fail_run v s) = sc_submit s"
  "sc_queue (fail_run v s) = sc_queue s" "sc_running (fail_run v s) = sc_running s"
  "sc_entries (fail_run v s) = sc_entries s" "sc_failed (fail_run v s)"
  by (simp_all add: fail_run_def)

lemma step_work:
  assumes "loop_step v s t"
  shows "work t < work s \<or> scheduling t = scheduling s"
  using assms
proof (cases rule: loop_step.cases)
  case (next_wave w ws)
  then show ?thesis by (simp add: work_def idle_def)
next
  case (submit j js)
  then show ?thesis using work_submit by blast
next
  case submit_break
  then show ?thesis by (simp add: work_def)
next
  case (start j js)
  then show ?thesis using work_start by blast
next
  case (finish jn d)
  then show ?thesis using work_removed [of jn s t] by (simp add: finish_job_places)
next
  case (fence_failed jn)
  then show ?thesis using work_removed [of jn s t] by (simp add: drop_running_def)
qed (simp_all add: scheduling_def note_refusal_def journal_add_def)

lemma launched_limit: "launched v s \<Longrightarrow> 1 \<le> le_limit v"
proof -
  assume "launched v s"
  then obtain sha256 num stamp rnd p opts where
    p: "prepare sha256 num stamp rnd p opts (le_gov v) = ok (le_prepared v)"
    and c: "concurrency opts = Fin (of_nat (le_limit v))"
    unfolding launched_def by blast
  from p have "option_guards p opts (le_gov v) = ok ()" by (rule prepare_ok)
  then have "\<not> js_lt (concurrency opts) 1" by (auto simp: option_guards_def split: if_splits option.splits)
  then show ?thesis by (cases "le_limit v") (simp_all add: c)
qed

lemma reach_limit: "reach (launched v) (loop_step v) s \<Longrightarrow> 1 \<le> le_limit v"
  by (induction rule: reach.induct) (use launched_limit in auto)

lemma can_go_on:
  assumes "1 \<le> le_limit v" "\<not> sc_failed s" "\<not> loop_done s"
  shows "\<exists>t. loop_step v s t \<and> work t < work s \<and> \<not> sc_failed t"
proof -
  consider j js where "sc_submit s = j # js"
    | jn js where "sc_running s = jn # js"
    | j js where "sc_running s = []" "sc_queue s = j # js"
    | w ws where "idle s" "\<not> sc_stop s" "sc_waves s = w # ws"
    using assms(2,3) unfolding loop_done_def idle_def by (metis neq_Nil_conv)
  then show ?thesis
  proof cases
    case 1
    have "\<not> sc_failed (submit_job v j (s\<lparr>sc_submit := js\<rparr>))"
      using assms(2) by (simp add: submit_job_def classify_def journal_add_def split: option.split)
    with work_submit [OF 1] loop_step.submit [OF 1 assms(2)] show ?thesis by blast
  next
    case 2
    let ?d = "\<lparr>ed_result = ROk JNull, ed_usage = None, ed_cost = None, ed_charged = None, ed_sessions = None\<rparr>"
    have in_run: "jn \<in> set (sc_running s)" by (simp add: 2)
    have "work (finish_job v jn ?d s) < work s"
      by (rule work_removed [OF in_run]) (simp_all add: finish_job_places)
    with loop_step.finish [OF in_run] assms(2) finish_job_places(5) show ?thesis by blast
  next
    case 3
    have "\<not> sc_failed (start_job v j (s\<lparr>sc_queue := js\<rparr>))"
      using assms(2) by (simp add: start_job_def plain_start_def governed_start_def refuse_job_def
          note_refusal_def classify_def journal_add_def split: prod.split admission.split)
    moreover have "length (sc_running s) < le_limit v" using assms(1) 3(1) by simp
    ultimately show ?thesis using work_start [OF 3(2)] loop_step.start [OF 3(2)] by blast
  next
    case 4
    then have "loop_step v s (s\<lparr>sc_submit := w, sc_waves := ws\<rparr>)" using assms(2) by (intro next_wave)
    moreover have "work (s\<lparr>sc_submit := w, sc_waves := ws\<rparr>) < work s" using 4 by (simp add: work_def idle_def)
    ultimately show ?thesis using assms(2) by (metis sched.select_convs(8) sched.surjective sched.update_convs(3,4))
  qed
qed

text \<open>No deadlock, and an end: a run that has not failed can always reach its end, whatever it did so
  far; and along every run each step either uses up scheduling work or leaves the schedule as it is,
  so at most \<open>work\<close> steps of a run schedule anything.\<close>

lemma run_can_end:
  assumes "reach (launched v) (loop_step v) s" "\<not> sc_failed s"
  shows "(\<exists>t. (loop_step v)\<^sup>*\<^sup>* s t \<and> loop_done t)
     \<and> (\<forall>t. loop_step v s t \<longrightarrow> work t < work s \<or> scheduling t = scheduling s)"
proof
  have lim: "1 \<le> le_limit v" by (rule reach_limit [OF assms(1)])
  show "\<exists>t. (loop_step v)\<^sup>*\<^sup>* s t \<and> loop_done t"
    using assms(2)
  proof (induction "work s" arbitrary: s rule: less_induct)
    case less
    show ?case
    proof (cases "loop_done s")
      case False
      from can_go_on [OF lim less.prems this] obtain t where
        t: "loop_step v s t" "work t < work s" "\<not> sc_failed t" by blast
      from less.hyps [OF t(2,3)] t(1) show ?thesis by (meson converse_rtranclp_into_rtranclp)
    qed blast
  qed
qed (simp add: step_work)

section \<open>No job is lost\<close>

definition keys_of :: "sched \<Rightarrow> job_id set" where
  "keys_of s = set (okeys (sc_entries s))"

definition placed :: "loop_env \<Rightarrow> sched \<Rightarrow> manifest_job \<Rightarrow> bool" where
  "placed v s j \<longleftrightarrow> j \<in> set (pending s @ in_flight s) \<or> mj_id j \<in> keys_of s \<or> halted v s"

lemma keys_classify [simp]: "keys_of (classify i e s) = insert i (keys_of s)"
  by (simp add: keys_of_def classify_def set_okeys_omap_set del: set_map)

lemma keys_submit: "keys_of s \<subseteq> keys_of (submit_job v j (s\<lparr>sc_submit := js\<rparr>))"
  by (auto simp: submit_job_def keys_of_def journal_add_def classify_def set_okeys_omap_set
      split: option.split simp del: set_map)

lemma keys_start: "keys_of s \<subseteq> keys_of (start_job v j (s\<lparr>sc_queue := js\<rparr>))"
  by (auto simp: start_job_def plain_start_def governed_start_def refuse_job_def note_refusal_def keys_of_def
      journal_add_def classify_def set_okeys_omap_set split: prod.split admission.split simp del: set_map)

lemma keys_finish: "keys_of s \<subseteq> keys_of (finish_job v jn d s)"
  using finish_job_places(6) [of v jn d s] by (auto simp: keys_of_def set_okeys_omap_set simp del: set_map)

lemma step_keys: "loop_step v s t \<Longrightarrow> keys_of s \<subseteq> keys_of t"
  by (erule loop_step.cases)
    (use keys_submit keys_start keys_finish in
      \<open>auto simp: keys_of_def journal_add_def note_refusal_def drop_running_def simp del: set_map\<close>)

lemma placed_submit:
  assumes q: "sc_submit s = j # js" and i: "placed v s i"
  shows "placed v (submit_job v j (s\<lparr>sc_submit := js\<rparr>)) i"
proof -
  let ?s = "s\<lparr>sc_submit := js\<rparr>"
  let ?t = "submit_job v j ?s"
  have h: "halted v s \<Longrightarrow> halted v ?t"
    by (simp add: halted_def submit_job_def classify_def journal_add_def split: option.split)
  have can: "cancelledRun v ?s \<Longrightarrow> halted v ?t"
    by (auto simp: cancelledRun_def halted_def tripped_def submit_job_def classify_def journal_add_def
        split: option.split)
  have k: "keys_of s \<subseteq> keys_of ?t" by (rule keys_submit)
  have p: "set (pending s @ in_flight s) - {j} \<subseteq> set (pending ?t @ in_flight ?t)"
    by (auto simp: submit_job_def pending_def in_flight_def journal_add_def classify_def q split: option.split)
  have "placed v ?t j"
  proof (cases "omap_has (mj_id j) (sc_entries s)")
    case True
    with k show ?thesis by (auto simp: placed_def keys_of_def omap_has_iff simp del: set_map)
  next
    case nk: False
    show ?thesis
    proof (cases "ready (sc_entries s) j")
      case False
      show ?thesis
      proof (cases "cancelledRun v ?s")
        case True
        with can show ?thesis by (simp add: placed_def)
      next
        case nc: False
        with nk False have "mj_id j \<in> keys_of ?t" by (simp add: submit_job_def)
        then show ?thesis by (simp add: placed_def)
      qed
    next
      case True
      show ?thesis
      proof (cases "replayable (le_replay v) j")
        case (Some f)
        with nk True have "mj_id j \<in> keys_of ?t" by (simp add: submit_job_def)
        then show ?thesis by (simp add: placed_def)
      next
        case None
        with nk True show ?thesis
          by (auto simp: placed_def submit_job_def pending_def halted_def)
      qed
    qed
  qed
  with h k p i show ?thesis unfolding placed_def by blast
qed

lemma placed_start:
  assumes q: "sc_queue s = j # js" and i: "placed v s i" and hs: "halted v s \<Longrightarrow> halted v (start_job v j (s\<lparr>sc_queue := js\<rparr>))"
  shows "placed v (start_job v j (s\<lparr>sc_queue := js\<rparr>)) i"
proof -
  let ?s = "s\<lparr>sc_queue := js\<rparr>"
  let ?t = "start_job v j ?s"
  obtain g d where ad: "admit (mj_id j) (sc_governor s) = (g, d)" by fastforce
  have k: "keys_of s \<subseteq> keys_of ?t" by (rule keys_start)
  have p: "set (pending s @ in_flight s) - {j} \<subseteq> set (pending ?t @ in_flight ?t)"
    by (auto simp: start_job_def plain_start_def governed_start_def refuse_job_def note_refusal_def pending_def
        in_flight_def journal_add_def classify_def q split: prod.split admission.split)
  have "placed v ?t j"
  proof (cases "sc_stop s \<or> sc_failed s")
    case True
    then have "halted v s" by (auto simp: halted_def)
    with hs show ?thesis by (simp add: placed_def)
  next
    case go: False
    show ?thesis
    proof (cases "le_governed v")
      case False
      with go show ?thesis by (simp add: placed_def start_job_def plain_start_def in_flight_def journal_add_def)
    next
      case gov: True
      show ?thesis
      proof (cases "advisory_refused v ?s")
        case True
        with go gov have "mj_id j \<in> keys_of ?t" by (simp add: start_job_def governed_start_def refuse_job_def)
        then show ?thesis by (simp add: placed_def)
      next
        case na: False
        show ?thesis
        proof (cases d)
          case (Admit n)
          with go gov na ad show ?thesis
            by (simp add: placed_def start_job_def governed_start_def in_flight_def journal_add_def)
        next
          case (Reject why)
          have gs: "g = sc_governor s" using ad Reject by (auto simp: admit_def split: if_splits)
          show ?thesis
          proof (cases "map_option fst (g_trip g) = Some Signal")
            case True
            then have "halted v s" using gov gs by (auto simp: halted_def tripped_def)
            with hs show ?thesis by (simp add: placed_def)
          next
            case False
            with go gov na ad Reject have "mj_id j \<in> keys_of ?t"
              by (simp add: start_job_def governed_start_def refuse_job_def)
            then show ?thesis by (simp add: placed_def)
          qed
        qed
      qed
    qed
  qed
  with hs k p i show ?thesis unfolding placed_def by blast
qed

lemma placed_step:
  assumes st: "loop_step v s t" and inv: "counted_inv v s" and i: "placed v s j"
  shows "placed v t j"
proof -
  have hs: "halted v s \<Longrightarrow> halted v t" using halted_step [OF inv st] by blast
  from st show ?thesis
  proof (cases rule: loop_step.cases)
    case (submit k js)
    then show ?thesis using placed_submit i by blast
  next
    case (start k js)
    then show ?thesis using placed_start [OF start(2) i] hs by simp
  next
    case (finish jn d)
    obtain e where e: "sc_entries t = omap_set (mj_id (fst jn)) e (sc_entries s)"
      using finish_job_places(6) finish(1) by blast
    have "set (pending s @ in_flight s) - {fst jn} \<subseteq> set (pending t @ in_flight t)"
      using finish(1) by (auto simp: pending_def in_flight_def finish_job_places) (metis fst_conv image_eqI in_set_remove1)
    moreover have "keys_of t = insert (mj_id (fst jn)) (keys_of s)" by (simp only: keys_of_def e set_okeys_omap_set)
    ultimately show ?thesis using i hs unfolding placed_def by blast
  next
    case (next_wave w ws)
    then have "pending t = pending s" "in_flight t = in_flight s" "keys_of t = keys_of s"
      by (simp_all add: pending_def in_flight_def idle_def keys_of_def)
    with i hs show ?thesis by (auto simp: placed_def)
  next
    case submit_break
    then show ?thesis by (simp add: placed_def keys_of_def halted_def)
  next
    case (fence_failed jn)
    then show ?thesis by (simp add: placed_def keys_of_def halted_def drop_running_def)
  next
    case run_failed
    then show ?thesis by (simp add: placed_def keys_of_def halted_def)
  qed (use i hs in \<open>auto simp: placed_def keys_of_def pending_def in_flight_def journal_add_def note_refusal_def\<close>)
qed

definition complete_inv :: "loop_env \<Rightarrow> sched \<Rightarrow> bool" where
  "complete_inv v s \<longleftrightarrow> counted_inv v s \<and> set (pr_unschedulable (le_prepared v)) \<subseteq> keys_of s
     \<and> (\<forall>j \<in> set (concat (pr_waves (le_prepared v))). placed v s j)"

lemma complete_step:
  assumes "complete_inv v s" "loop_step v s t"
  shows "complete_inv v t"
proof -
  have c: "counted_inv v s" using assms(1) by (simp add: complete_inv_def)
  note p = placed_step [OF assms(2) c]
  have "counted_inv v t" using c assms(2) by (rule counted_step)
  moreover have "\<forall>j \<in> set (concat (pr_waves (le_prepared v))). placed v t j"
    using assms(1) p unfolding complete_inv_def by blast
  moreover have "keys_of s \<subseteq> keys_of t"
    using step_keys [OF assms(2)] .
  ultimately show ?thesis using assms(1) unfolding complete_inv_def by blast
qed

lemma unschedulable_keys:
  assumes wp: "well_prepared p"
  shows "set (pr_unschedulable p) \<subseteq> set (okeys (unschedulable_entries p))"
proof -
  let ?f = "\<lambda>j m. if mj_id j \<in> set (pr_unschedulable p)
         then omap_set (mj_id j) (unschedulable_entry (map mj_id (pr_jobs p)) j) m else m"
  have grow: "set (okeys es) \<subseteq> set (okeys (fold ?f js es))" for js es
  proof (induction js arbitrary: es)
    case (Cons j js)
    have "set (okeys es) \<subseteq> set (okeys (?f j es))" by (simp add: set_okeys_omap_set subset_insertI del: set_map)
    with Cons.IH [of "?f j es"] show ?case by (simp del: set_map)
  qed simp
  have "j \<in> set js \<Longrightarrow> mj_id j \<in> set (pr_unschedulable p) \<Longrightarrow> mj_id j \<in> set (okeys (fold ?f js es))" for j js es
  proof (induction js arbitrary: es)
    case (Cons k js)
    show ?case
    proof (cases "k = j")
      case True
      have "mj_id j \<in> set (okeys (?f j es))" using Cons.prems(2) by (simp add: set_okeys_omap_set del: set_map)
      then have "mj_id j \<in> set (okeys (fold ?f js (?f j es)))" using grow [of "?f j es" js] by blast
      with True show ?thesis by (simp only: fold_simps)
    next
      case False
      then have "mj_id j \<in> set (okeys (fold ?f js (?f k es)))" using Cons.IH Cons.prems by simp
      then show ?thesis by (simp only: fold_simps)
    qed
  qed simp
  moreover have "i \<in> mj_id ` set (pr_jobs p)" if "i \<in> set (pr_unschedulable p)" for i
  proof -
    have "lacks (deps_of (pr_jobs p)) i" using wp that by (simp add: well_prepared_def)
    then show ?thesis by cases (auto simp: deps_of_def)
  qed
  ultimately show ?thesis unfolding unschedulable_entries_def by blast
qed

lemma quarantine_keys:
  "set (okeys (la_entries l)) \<subseteq> set (okeys (la_entries (fold (quarantine_job r un rel q) js l)))"
proof (induction js arbitrary: l)
  case (Cons j js)
  have "set (okeys (la_entries l)) \<subseteq> set (okeys (la_entries (quarantine_job r un rel q j l)))"
    by (auto simp: quarantine_job_def set_okeys_omap_set split: option.split simp del: set_map)
  with Cons [of "quarantine_job r un rel q j l"] show ?case by (simp del: set_map)
qed simp

lemma complete_init:
  assumes wp: "well_prepared (le_prepared v)" and l: "loop_init v s" and c: "counted_inv v s"
  shows "complete_inv v s"
proof -
  from l obtain st q rep where
    e: "sc_entries s = la_entries (launch_of (le_prepared v) st (le_gov v) q rep)"
    and w: "sc_waves s = pr_waves (le_prepared v)"
    by (auto simp: loop_init_def)
  have "set (okeys (unschedulable_entries (le_prepared v))) \<subseteq> keys_of s"
    unfolding keys_of_def e launch_of_def Let_def
    using quarantine_keys [of "\<lparr>la_entries = unschedulable_entries (le_prepared v), la_journal = [Run_Started st], la_replay = rep\<rparr>"]
    by (simp del: set_map)
  with unschedulable_keys [OF wp] have "set (pr_unschedulable (le_prepared v)) \<subseteq> keys_of s" by blast
  with c w show ?thesis by (auto simp: complete_inv_def placed_def pending_def)
qed

interpretation complete: invariant_system "launched v" "loop_step v" "complete_inv v" for v
proof
  fix s assume a: "launched v s"
  then have "loop_init v s" by (simp add: launched_def)
  with complete_init launched_well [OF a] counted.inv_init [OF a] show "complete_inv v s" by blast
qed (rule complete_step)

lemma done_places:
  assumes "loop_done s" "\<not> sc_stop s"
  shows "pending s = []" "in_flight s = []"
  using assms by (simp_all add: loop_done_def idle_def pending_def in_flight_def)

lemma job_placed:
  "well_prepared p \<Longrightarrow> j \<in> set (pr_jobs p) \<Longrightarrow> mj_id j \<in> set (pr_unschedulable p) \<or> j \<in> set (concat (pr_waves p))"
  unfolding well_prepared_def by blast

lemma sweep_settled:
  "\<forall>j \<in> set js. mj_id j \<in> set (okeys es) \<Longrightarrow> fold (sweep_job c) js es = es"
proof (induction js)
  case (Cons j js)
  then have "sweep_job c j es = es" by (simp add: sweep_job_def omap_has_iff del: set_map)
  with Cons show ?case by simp
qed simp

text \<open>No job is lost: when a run ends that was never stopped, failed or tripped, every job of the
  plan has an entry, none of them queued, and the stop sweep has nothing left to add.\<close>

lemma unhalted_run_settles_all:
  assumes "reach (launched v) (loop_step v) s" "loop_done s" "\<not> halted v s"
  shows "(\<forall>j \<in> set (pr_jobs (le_prepared v)). \<exists>e. map_of (sc_entries s) (mj_id j) = Some e \<and> en_origin e \<noteq> FromQueue)
     \<and> swept v s = sc_entries s"
proof -
  have inv: "loop_inv v s" and wp: "well_prepared (le_prepared v)" using wave.reach_inv [OF assms(1)] by blast+
  have "complete_inv v s" by (rule complete.reach_inv [OF assms(1)])
  moreover have "pending s = []" "in_flight s = []" using done_places assms(2,3) by (simp_all add: halted_def)
  ultimately have w: "\<forall>j \<in> set (concat (pr_waves (le_prepared v))). mj_id j \<in> keys_of s"
    and u: "set (pr_unschedulable (le_prepared v)) \<subseteq> keys_of s"
    using assms(3) by (auto simp: complete_inv_def placed_def)
  have "\<exists>e. map_of (sc_entries s) (mj_id j) = Some e \<and> en_origin e \<noteq> FromQueue"
    if j: "j \<in> set (pr_jobs (le_prepared v))" for j
  proof -
    have "mj_id j \<in> keys_of s" using job_placed [OF wp j] w u by blast
    then obtain e where e: "map_of (sc_entries s) (mj_id j) = Some e"
      unfolding keys_of_def by (metis map_of_eq_None_iff not_Some_eq set_map)
    from settled_job [OF inv j e] have "en_origin e \<noteq> FromQueue" by (auto simp: settled_lines.simps)
    with e show ?thesis by blast
  qed
  moreover have "swept v s = sc_entries s"
    unfolding swept_def stop_sweep_def using w sweep_settled by (simp add: keys_of_def del: set_map)
  ultimately show ?thesis by blast
qed

definition demo_ended :: sched where
  "demo_ended = finish_job demo_env (demo_job 0, 1) demo_ending demo_flying"

lemma demo_ended_facts:
  "reach (launched demo_env) (loop_step demo_env) demo_ended"
  "loop_done demo_ended" "\<not> halted demo_env demo_ended"
proof -
  have "loop_step demo_env demo_flying demo_ended"
    unfolding demo_ended_def by (rule loop_step.finish) (simp add: demo_flying_eq)
  with demo_reaches(2) show "reach (launched demo_env) (loop_step demo_env) demo_ended" by (rule reach_step)
  show "loop_done demo_ended" "\<not> halted demo_env demo_ended"
    by (simp_all add: demo_ended_def demo_flying_eq demo_finished_eq demo_defs Let_def loop_done_def idle_def
        halted_def demo_ending_def)
qed

section \<open>The report is complete\<close>

lemma sweep_job_keys: "set (okeys (sweep_job c j es)) = insert (mj_id j) (set (okeys es))"
  by (auto simp: sweep_job_def set_okeys_omap_set omap_has_iff simp del: set_map)

lemma sweep_job_distinct: "distinct (okeys es) \<Longrightarrow> distinct (okeys (sweep_job c j es))"
  by (simp add: sweep_job_def distinct_omap_set)

lemma sweep_keys:
  "set (okeys (fold (sweep_job c) js es)) = mj_id ` set js \<union> set (okeys es)"
  "distinct (okeys es) \<Longrightarrow> distinct (okeys (fold (sweep_job c) js es))"
  by (induction js arbitrary: es) (auto simp: sweep_job_keys sweep_job_distinct simp del: set_map)

lemma omap_set_present: "map_of m k = Some x \<Longrightarrow> okeys (omap_set k v m) = okeys m"
  by (induction m) (auto split: if_splits)

lemma remark_job_keys: "okeys (rk_entries (remark_job d a j r)) = okeys (rk_entries r)"
  by (auto simp: remark_job_def Let_def omap_set_present split: option.split prod.split)

lemma remark_keys: "okeys (rk_entries (fold (remark_job d a) js r)) = okeys (rk_entries r)"
  by (induction js arbitrary: r) (simp_all add: remark_job_keys)

lemma honest_stop_keys: "okeys (fst (honest_stop jobs adm f es)) = okeys es"
  by (simp add: honest_stop_def Let_def remark_budget_def remark_keys)

definition total :: "run_counts \<Rightarrow> nat" where
  "total c = c_queued c + c_running c + c_blocked c + c_done c + c_failed c + c_budget c"

lemma total_count: "total (count_state st c) = Suc (total c)"
  by (cases st) (simp_all add: total_def)

lemma total_counts: "total (counts_of es) = length es"
proof -
  have "total (fold (\<lambda>(_, e). count_state (en_state e)) es c) = total c + length es" for c
    by (induction es arbitrary: c) (auto simp: total_count)
  then show ?thesis by (simp add: counts_of_def emptyCounts_def total_def)
qed

lemma those_rows:
  "\<forall>j \<in> set js. mj_id j \<in> set (okeys es) \<Longrightarrow>
     \<exists>rows. those (map (row_of es) js) = Some rows \<and> map jo_job rows = map mj_id js"
proof (induction js)
  case (Cons j js)
  then obtain rows where "those (map (row_of es) js) = Some rows" "map jo_job rows = map mj_id js" by auto
  moreover obtain e where "map_of es (mj_id j) = Some e"
    using Cons.prems by (metis list.set_intros(1) map_of_eq_None_iff not_Some_eq set_map)
  moreover from this obtain row where "row_of es j = Some row" "jo_job row = mj_id j" by (simp add: row_of_def)
  ultimately show ?case by simp
qed simp

lemma report_order_perm:
  assumes "well_prepared p"
  shows "mset (report_order p) = mset (pr_jobs p)"
proof -
  let ?w = "concat (pr_waves p)" and ?u = "\<lambda>j. mj_id j \<in> set (pr_unschedulable p)"
  have d: "distinct (pr_jobs p)" "distinct ?w"
    using assms by (auto simp: well_prepared_def distinct_map)
  have "set ?w = set (filter (\<lambda>j. \<not> ?u j) (pr_jobs p))" using assms unfolding well_prepared_def by auto
  with d have "mset ?w = mset (filter (\<lambda>j. \<not> ?u j) (pr_jobs p))"
    using set_eq_iff_mset_eq_distinct distinct_filter by blast
  then have "mset (report_order p) = mset (filter (\<lambda>j. \<not> ?u j) (pr_jobs p)) + mset (filter ?u (pr_jobs p))"
    by (simp add: report_order_def)
  then show ?thesis by simp
qed

text \<open>C16 The report is complete: a run that ended reports, whatever stopped it, exactly one row per job
  of the plan, and its status counts add up to the number of jobs.\<close>

theorem report_total:
  assumes "reach (launched v) (loop_step v) s"
  shows "\<exists>r. run_report_of v s = Some r
     \<and> mset (map jo_job (rp_jobs r)) = mset (map mj_id (pr_jobs (le_prepared v)))
     \<and> total (rp_counts r) = length (pr_jobs (le_prepared v))"
proof -
  let ?p = "le_prepared v" and ?es = "fst (ended_run v s)"
  have inv: "loop_inv v s" and wp: "well_prepared ?p" using wave.reach_inv [OF assms] by blast+
  have c: "complete_inv v s" by (rule complete.reach_inv [OF assms])
  have pl: "distinct (okeys (sc_entries s))" "set (okeys (sc_entries s)) \<subseteq> mj_id ` set (pr_jobs ?p)"
    using inv unfolding loop_inv_def places_ok_def by blast+
  have w: "set (concat (pr_waves ?p)) \<subseteq> set (pr_jobs ?p)" using wp unfolding well_prepared_def by blast
  have k: "okeys ?es = okeys (swept v s)" by (simp add: ended_run_def honest_stop_keys)
  have "set (okeys (swept v s)) = mj_id ` set (concat (pr_waves ?p)) \<union> set (okeys (sc_entries s))"
    unfolding swept_def stop_sweep_def by (rule sweep_keys)
  then have keys: "set (okeys ?es) = mj_id ` set (pr_jobs ?p)"
    unfolding k using pl(2) w job_placed [OF wp] c unfolding complete_inv_def keys_of_def by blast
  have dist: "distinct (okeys ?es)" unfolding k swept_def stop_sweep_def by (rule sweep_keys(2) [OF pl(1)])
  have perm: "mset (report_order ?p) = mset (pr_jobs ?p)" by (rule report_order_perm [OF wp])
  have "\<forall>j \<in> set (report_order ?p). mj_id j \<in> set (okeys ?es)"
    using mset_eq_setD [OF perm] unfolding keys by blast
  then obtain rows where rows: "those (map (row_of ?es) (report_order ?p)) = Some rows"
    "map jo_job rows = map mj_id (report_order ?p)" using those_rows by blast
  have "length ?es = card (set (okeys ?es))" using distinct_card [OF dist] by simp
  also have "\<dots> = length (pr_jobs ?p)"
    unfolding keys using wp distinct_card [of "map mj_id (pr_jobs ?p)"] by (simp add: well_prepared_def)
  finally have "total (counts_of ?es) = length (pr_jobs ?p)" by (simp add: total_counts)
  moreover have "mset (map jo_job rows) = mset (map mj_id (pr_jobs ?p))"
    unfolding rows(2) using perm by (simp only: mset_map)
  ultimately show ?thesis using rows(1) by (simp add: run_report_of_def report_def)
qed

theorem report_total_witness:
  "\<exists>r. run_report_of demo_env demo_flying = Some r
     \<and> mset (map jo_job (rp_jobs r)) = mset (map mj_id (pr_jobs (le_prepared demo_env)))
     \<and> total (rp_counts r) = length (pr_jobs (le_prepared demo_env))"
  by (rule report_total [OF demo_reaches(2)])

end
