(* ===== verification/Wave_Stop.thy ===== *)
theory Wave_Stop
  imports Wave_End
begin

text \<open>
  A governed run that stopped early reports exactly what the budget cost it: the rows the final pass
  re-marks are those the attribution rule names, read on the entries the sweep left.
\<close>

lemma loop_origins:
  assumes inv: "loop_inv v s"
  shows "origins_ok (sc_entries s)"
  unfolding origins_ok_def
proof (intro allI impI)
  fix i e assume e: "map_of (sc_entries s) i = Some e"
  then have "i \<in> set (okeys (sc_entries s))" by (metis map_of_eq_None_iff option.distinct(1) set_map)
  then obtain j where j: "j \<in> set (pr_jobs (le_prepared v))" "mj_id j = i"
    using inv unfolding loop_inv_def places_ok_def by blast
  have "settled_lines e j (lines_of i (sc_journal s))" using settled_job [OF inv j(1)] e j(2) by simp
  then show "(en_origin e = FromQueue \<longrightarrow> en_state e = Queued) \<and> (en_origin e = FromBlock \<longrightarrow> en_state e = Blocked)"
    by (auto simp: settled_lines.simps)
qed

lemma sweep_job_origins: "origins_ok es \<Longrightarrow> origins_ok (sweep_job c j es)"
  by (auto simp: origins_ok_def sweep_job_def plain_entry_def)

lemma sweep_origins: "origins_ok es \<Longrightarrow> origins_ok (fold (sweep_job c) js es)"
  by (induction js arbitrary: es) (simp_all add: sweep_job_origins)

definition ending_attribution :: "loop_env \<Rightarrow> sched \<Rightarrow> attribution" where
  "ending_attribution v s = \<lparr>at_entries = swept v s,
     at_deps = map (\<lambda>j. (mj_id j, mj_deps j)) (pr_jobs (le_prepared v)), at_admitted = sc_admitted s\<rparr>"

text \<open>C17 What the budget cost is reported exactly: when a governed run ends on a trip of the budget, a
  job's row is re-marked as budget-exhausted if and only if it was left undispatched or every
  dependency that blocked it is, in turn, due to the budget; every other row is reported as it
  was, and the run says it stopped early on the budget exactly when some row was re-marked.\<close>

theorem budget_stop_marks_exactly:
  assumes "reach (launched v) (loop_step v) s" "le_governed v"
    and "g_trip (sc_governor s) = Some (k, why)" "k \<noteq> Signal"
  shows "map_of (fst (ended_run v s)) i =
       (if budget_row (ending_attribution v s) i \<and> i \<in> mj_id ` set (pr_jobs (le_prepared v))
        then map_option (\<lambda>e. exhausted_entry (en_origin e)) (map_of (swept v s) i)
        else map_of (swept v s) i)
     \<and> snd (ended_run v s) = (if \<exists>j \<in> set (pr_jobs (le_prepared v)). budget_row (ending_attribution v s) (mj_id j)
                              then Some StopBudget else None)"
proof -
  let ?jobs = "pr_jobs (le_prepared v)" and ?a = "ending_attribution v s"
  have "loop_inv v s" using wave.reach_inv [OF assms(1)] by blast
  then have "origins_ok (swept v s)" unfolding swept_def stop_sweep_def by (intro sweep_origins loop_origins)
  from remark_budget_inv [OF this, of ?jobs "sc_admitted s"]
  have r: "remark_inv ?a (set (map mj_id ?jobs)) (remark_budget ?jobs (sc_admitted s) (swept v s))"
    by (simp only: ending_attribution_def)
  have e: "ended_run v s = (let r = remark_budget ?jobs (sc_admitted s) (swept v s)
      in (rk_entries r, if rk_any r then Some StopBudget else None))"
    using assms(2-4) by (simp add: ended_run_def honest_stop_def stop_facts_of_def)
  have "at_entries ?a = swept v s" by (simp add: ending_attribution_def)
  with r show ?thesis by (auto simp: remark_inv_def e Let_def)
qed

definition demo_gtripped :: sched where
  "demo_gtripped = demo_gstarted\<lparr>sc_governor := trip Exhausted UnpricedUsage (sc_governor demo_gstarted)\<rparr>"

theorem budget_stop_marks_exactly_witness:
  "snd (ended_run demo_genv demo_gtripped) =
     (if \<exists>j \<in> set (pr_jobs (le_prepared demo_genv)). budget_row (ending_attribution demo_genv demo_gtripped) (mj_id j)
      then Some StopBudget else None)"
proof -
  have "loop_step demo_genv demo_gstarted demo_gtripped"
    unfolding demo_gtripped_def
    by (rule loop_step.governor_call [where c = "C_Trip Exhausted UnpricedUsage"]) (simp_all add: demo_genv_governed)
  with demo_gstarted_reach(1) have r: "reach (launched demo_genv) (loop_step demo_genv) demo_gtripped"
    by (rule reach_step)
  have nt: "\<not> tripped (sc_governor demo_gstarted)" unfolding demo_gstarted_reach(3) by code_simp
  have "g_trip (sc_governor demo_gtripped) = Some (Exhausted, UnpricedUsage)"
    using trip_kind [OF nt] by (simp add: demo_gtripped_def)
  from budget_stop_marks_exactly [OF r demo_genv_governed this] show ?thesis by blast
qed

end
