(* ===== verification/Governor_Job.thy ===== *)
theory Governor_Job
  imports Governor_Bound
begin

text \<open>
  The governor as one dispatch sees it: the job's open hold, its parked request and the answers it
  was given. Calls made for other jobs leave this side alone, except that they may answer the parked
  request; the job's own calls move it as the dispatch expects.
\<close>

section \<open>The side of a job\<close>

definition job_hold :: "job_id \<Rightarrow> governor \<Rightarrow> hold option" where
  "job_hold j g = Option.bind (map_of (g_openByJob g) j) (map_of (g_outstanding g))"

definition job_request :: "job_id \<Rightarrow> governor \<Rightarrow> waiter option" where
  "job_request j g = find (\<lambda>w. wt_job w = j) (g_waiters g)"

definition job_answers :: "job_id \<Rightarrow> governor \<Rightarrow> reserve_outcome list" where
  "job_answers j g = map snd (filter (\<lambda>(w, _). wt_job w = j) (g_resolved g))"

definition job_side :: "job_id \<Rightarrow> governor \<Rightarrow> hold option \<times> waiter option \<times> reserve_outcome list" where
  "job_side j g = (job_hold j g, job_request j g, job_answers j g)"

definition new_hold :: "reservation \<Rightarrow> hold" where
  "new_hold r = \<lparr>hd_res = r, hd_folded = 0, hd_priced = False\<rparr>"

text \<open>What a call for somebody else can do to the job: nothing, or answer its parked request.\<close>

definition moved :: "job_id \<Rightarrow> governor \<Rightarrow> governor \<Rightarrow> bool" where
  "moved j g g' \<longleftrightarrow> job_side j g' = job_side j g
     \<or> (\<exists>w. job_request j g = Some w
         \<and> ((\<exists>r. job_side j g' = (Some (new_hold r), None, job_answers j g @ [Reserved r])
               \<and> rv_job r = j \<and> rv_attempt r = wt_attempt w)
            \<or> job_side j g' = (job_hold j g, None, job_answers j g @ [Tripped])))"

lemma moved_refl [simp]: "moved j g g"
  by (simp add: moved_def)

lemma moved_trans: "moved j g h \<Longrightarrow> moved j h k \<Longrightarrow> moved j g k"
proof -
  assume a: "moved j g h" and b: "moved j h k"
  from a consider "job_side j h = job_side j g" | "job_request j h = None" by (auto simp: moved_def job_side_def)
  then show "moved j g k"
  proof cases
    case 1
    with b show ?thesis by (simp add: moved_def job_side_def)
  next
    case 2
    with b have "job_side j k = job_side j h" unfolding moved_def by auto
    with a show ?thesis by (simp add: moved_def)
  qed
qed

lemma moved_same: "job_side j g' = job_side j g \<Longrightarrow> moved j g g'"
  by (simp add: moved_def)

lemma moved_idle: "moved j g g' \<Longrightarrow> job_request j g = None \<Longrightarrow> job_side j g' = job_side j g"
  by (auto simp: moved_def)

lemma job_side_cong:
  "g_openByJob g' = g_openByJob g \<Longrightarrow> g_outstanding g' = g_outstanding g \<Longrightarrow> g_waiters g' = g_waiters g
   \<Longrightarrow> g_resolved g' = g_resolved g \<Longrightarrow> job_side j g' = job_side j g"
  by (simp add: job_side_def job_hold_def job_request_def job_answers_def)

lemma job_request_None: "job_request j g = None \<longleftrightarrow> j \<notin> wt_job ` set (g_waiters g)"
  by (auto simp: job_request_def find_None_iff)

lemma job_hold_None: "books g \<Longrightarrow> job_hold j g = None \<longleftrightarrow> \<not> omap_has j (g_openByJob g)"
  unfolding books_def job_hold_def omap_has_def by (cases "map_of (g_openByJob g) j") fastforce+

lemma idle_job_side: "books g \<Longrightarrow> idle_job j g \<longleftrightarrow> job_hold j g = None \<and> job_request j g = None"
  by (simp add: idle_job_def job_hold_None job_request_None)

lemma job_hold_Some:
  assumes b: "books g"
  shows "job_hold j g = Some h \<longleftrightarrow> map_of (g_outstanding g) (rv_id (hd_res h)) = Some h \<and> rv_job (hd_res h) = j"
proof
  assume "job_hold j g = Some h"
  then obtain rid where r: "map_of (g_openByJob g) j = Some rid" "map_of (g_outstanding g) rid = Some h"
    by (auto simp: job_hold_def bind_eq_Some_conv)
  moreover from r b obtain h' where "map_of (g_outstanding g) rid = Some h'" "rv_job (hd_res h') = j"
    unfolding books_def by blast
  ultimately show "map_of (g_outstanding g) (rv_id (hd_res h)) = Some h \<and> rv_job (hd_res h) = j"
    using booksD(1) [OF b r(2)] by simp
next
  assume "map_of (g_outstanding g) (rv_id (hd_res h)) = Some h \<and> rv_job (hd_res h) = j"
  then show "job_hold j g = Some h" using booksD(2) [OF b, of "rv_id (hd_res h)" h] by (simp add: job_hold_def)
qed

section \<open>Calls for other jobs\<close>

lemma record_side [simp]: "job_side j (record_event e g) = job_side j g"
  by (rule job_side_cong) simp_all

lemma find_snoc: "find P (xs @ [x]) = (case find P xs of None \<Rightarrow> if P x then Some x else None | Some y \<Rightarrow> Some y)"
  by (induction xs) simp_all

lemma find_later: "distinct (map wt_job (w # ws)) \<Longrightarrow> wt_job w = j \<Longrightarrow> find (\<lambda>x. wt_job x = j) ws = None"
  unfolding find_None_iff by (simp add: image_iff) metis

lemma refused_answers:
  "distinct (map wt_job ws) \<Longrightarrow> map snd (filter (\<lambda>(w, _). wt_job w = j) (map (\<lambda>w. (w, Tripped)) ws))
     = (case find (\<lambda>w. wt_job w = j) ws of None \<Rightarrow> [] | Some _ \<Rightarrow> [Tripped])"
proof (induction ws)
  case (Cons w ws)
  show ?case
  proof (cases "wt_job w = j")
    case True
    with Cons.prems have "find (\<lambda>w. wt_job w = j) ws = None" by (intro find_later)
    with True Cons show ?thesis by simp
  qed (use Cons in simp)
qed simp

lemma requests_distinct: "requests_ok g \<Longrightarrow> distinct (map wt_job (g_waiters g))"
  by (simp add: requests_ok_def)

lemma moved_refuse: "requests_ok g \<Longrightarrow> moved j g (refuse_waiters g)"
  using refused_answers [OF requests_distinct, of g j]
  by (cases "job_request j g")
    (simp_all add: moved_def job_side_def job_request_def job_answers_def job_hold_def refuse_waiters_def)

lemma moved_trip: "requests_ok g \<Longrightarrow> moved j g (trip k t g)"
proof (cases "tripped g")
  case False
  assume req: "requests_ok g"
  let ?g = "record_event (Ev_BudgetTripped k t) (g\<lparr>g_trip := Some (k, t)\<rparr>)"
  have "job_side j ?g = job_side j g" unfolding record_side by (rule job_side_cong) simp_all
  moreover have "requests_ok ?g" using req by (simp add: requests_ok_def)
  ultimately have "moved j g (refuse_waiters ?g)" using moved_same moved_refuse moved_trans by metis
  moreover have "job_side j (trip k t g) = job_side j (refuse_waiters ?g)"
    using False by (intro job_side_cong) (simp_all add: trip_def)
  ultimately show ?thesis using moved_same moved_trans by metis
qed (simp add: trip_first)

lemma grant_hold:
  assumes gr: "grant w c g = (g', r)" and b: "books g" and fresh: "\<not> omap_has (wt_job w) (g_openByJob g)"
  shows "job_hold j g' = (if j = wt_job w then Some (new_hold r) else job_hold j g)"
proof -
  note gs = grant_simps [OF gr b]
  have new: "rv_id r \<notin> set (okeys (g_outstanding g))" using books_fresh_id [OF b] gs(13) by simp
  have out: "map_of (g_outstanding g') = (map_of (g_outstanding g))(rv_id r \<mapsto> new_hold r)"
    by (simp only: gs(14) map_of_append_new [OF new] new_hold_def)
  show ?thesis
  proof (cases "j = wt_job w")
    case False
    have "rid \<noteq> rv_id r" if "map_of (g_openByJob g) j = Some rid" for rid
    proof -
      from b that obtain h where "map_of (g_outstanding g) rid = Some h" unfolding books_def by blast
      then have "rid \<in> set (okeys (g_outstanding g))" by (metis omap_has_def omap_has_iff option.distinct(1))
      with new show ?thesis by blast
    qed
    with False show ?thesis by (cases "map_of (g_openByJob g) j") (auto simp: job_hold_def gs(15) out)
  qed (simp add: job_hold_def gs(15) out)
qed

lemma moved_pop:
  assumes gr: "grant w c g = (g', r)" and b: "books g" and req: "requests_ok g" and ws: "g_waiters g = w # ws"
  shows "moved j g (pop_waiter r g')"
proof -
  have fresh: "\<not> omap_has (wt_job w) (g_openByJob g)" using req ws by (simp add: requests_ok_def)
  note gs = grant_simps [OF gr b]
  have side: "job_hold j (pop_waiter r g') = (if j = wt_job w then Some (new_hold r) else job_hold j g)"
    "g_waiters (pop_waiter r g') = ws" "g_resolved (pop_waiter r g') = g_resolved g @ [(w, Reserved r)]"
    using grant_hold [OF gr b fresh, of j] by (simp_all add: pop_waiter_def job_hold_def gs ws)
  show ?thesis
  proof (cases "j = wt_job w")
    case True
    have "find (\<lambda>x. wt_job x = j) ws = None"
      using requests_distinct [OF req] True unfolding ws by (intro find_later) simp_all
    with True side(1) show ?thesis
      by (simp add: moved_def job_side_def side(2,3) job_request_def job_answers_def ws gs)
  next
    case False
    then show ?thesis by (simp add: moved_def job_side_def side job_request_def job_answers_def ws gs)
  qed
qed

lemma moved_drain:
  assumes "drainWaiters g = ok g'" "books g" "requests_ok g"
  shows "requests_ok g \<longrightarrow> moved j g g'"
  using assms
proof (induction rule: drain_induct)
  case (grant g w ws g1 r g')
  have "moved j g (pop_waiter r g1)" by (rule moved_pop [OF grant(6,4,5,2)])
  moreover have "requests_ok (pop_waiter r g1)" by (rule requests_grant [OF grant(6,4,2,5)])
  ultimately show ?case using grant(9) moved_trans by blast
qed (simp_all add: moved_refuse moved_trip)

lemma close_hold_side:
  assumes b: "books g" and h: "map_of (g_outstanding g) (rv_id (hd_res h)) = Some h"
  shows "job_side j (close_hold (hd_res h) g)
       = (if j = rv_job (hd_res h) then (None, job_request j g, job_answers j g) else job_side j g)"
proof -
  have "rid \<noteq> rv_id (hd_res h)" if "map_of (g_openByJob g) j = Some rid" "j \<noteq> rv_job (hd_res h)" for rid
    using books_open_inj [OF b that(1)] booksD(2) [OF b h] that(2) by blast
  then show ?thesis
    by (cases "map_of (g_openByJob g) j")
      (auto simp: job_side_def job_hold_def job_request_def job_answers_def close_hold_def)
qed

text \<open>The command is not made for job \<open>j\<close>.\<close>

fun foreign :: "job_id \<Rightarrow> gov_cmd \<Rightarrow> bool" where
  "foreign j (C_Admit i) = True"
| "foreign j (C_Reserve i a p cls) = (i \<noteq> j)"
| "foreign j (C_Abandon r) = (rv_job r \<noteq> j)"
| "foreign j (C_Settle r b u) = (rv_job r \<noteq> j)"
| "foreign j (C_ObserveUsage i u) = True"
| "foreign j (C_ObserveCost i n) = (i \<noteq> j)"
| "foreign j (C_ObserveResult i e uc cc) = (i \<noteq> j)"
| "foreign j (C_Trip k t) = True"
| "foreign j (C_TripSignal d) = True"

lemma fold_usage_moved: "requests_ok g \<Longrightarrow> moved j g (fold_usage i u g)"
proof -
  assume req: "requests_ok g"
  let ?g = "record_event (Ev_Usage i None) (g\<lparr>g_usage := Some (add_usage_opt (g_usage g) u)\<rparr>)"
  have side: "job_side j ?g = job_side j g" unfolding record_side by (rule job_side_cong) simp_all
  have "requests_ok ?g" using req by (simp add: requests_ok_def)
  then have t: "moved j g (trip k t ?g)" for k t
    using moved_trans [OF moved_same [OF side] moved_trip] by blast
  show ?thesis
    unfolding fold_usage_def Let_def by (cases "gc_maxTokens (g_config g)") (simp_all add: t moved_same [OF side])
qed

lemma attribute_fold_hold:
  assumes b: "books g"
  shows "job_hold j (attribute_fold i u g)
       = (if i = j then map_option (\<lambda>h. h\<lparr>hd_folded := hd_folded h + u, hd_priced := True\<rparr>) (job_hold j g)
          else job_hold j g)"
proof (cases "map_of (g_openByJob g) i")
  case None
  then show ?thesis by (auto simp: attribute_fold_none job_hold_def)
next
  case (Some rid)
  with b obtain h where h: "map_of (g_outstanding g) rid = Some h" unfolding books_def by blast
  have "rid' \<noteq> rid" if "map_of (g_openByJob g) j = Some rid'" "i \<noteq> j" for rid'
    using books_open_inj [OF b Some] that by blast
  then show ?thesis
    using attribute_fold_open [OF Some h, of u] Some h
    by (cases "i = j"; cases "map_of (g_openByJob g) j") (simp_all add: job_hold_def)
qed

lemma fold_cost_moved:
  assumes b: "books g" and req: "requests_ok g" and ne: "i \<noteq> j"
  shows "moved j g (fold_cost i u g)"
proof -
  let ?g = "record_event (Ev_Usage i (Some u)) (attribute_fold i u (g\<lparr>g_usdSpent := g_usdSpent g + u\<rparr>))"
  have b': "books (g\<lparr>g_usdSpent := g_usdSpent g + u\<rparr>)" using b by (subst books_cong) simp_all
  have "job_hold j (g\<lparr>g_usdSpent := g_usdSpent g + u\<rparr>) = job_hold j g" by (simp add: job_hold_def)
  then have side: "job_side j ?g = job_side j g"
    using attribute_fold_hold [OF b', of j i u] ne
    by (simp add: job_side_def job_request_def job_answers_def job_hold_def)
  have "requests_ok ?g" using req by (simp add: requests_ok_def)
  then have t: "moved j g (trip k t ?g)" for k t
    using moved_trans [OF moved_same [OF side] moved_trip] by blast
  show ?thesis
    unfolding fold_cost_def Let_def by (cases "capUsd ?g") (simp_all add: t moved_same [OF side])
qed

lemma settle_books_moved:
  assumes inv: "gov_inv g" and h: "map_of (g_outstanding g) (rv_id (hd_res h)) = Some h"
    and ne: "rv_job (hd_res h) \<noteq> j"
  shows "moved j g (settle_books h b g)"
proof -
  note bk = gov_invD(1) [OF inv] and rq = gov_invD(2) [OF inv]
  define g2 where "g2 = record_event (Ev_ReservationSettled (rv_job (hd_res h)) (rv_id (hd_res h)) (charge_of b h) b (hd_priced h))
      ((close_hold (hd_res h) g)\<lparr>g_usdSpent := g_usdSpent g + max 0 (charge_of b h - hd_folded h)\<rparr>)"
  have "job_side j g2 = job_side j (close_hold (hd_res h) g)"
    unfolding g2_def record_side by (rule job_side_cong) simp_all
  then have side: "job_side j g2 = job_side j g" using close_hold_side [OF bk h] ne by simp
  have "requests_ok g2"
    using rq by (auto simp: g2_def requests_ok_def close_hold_def omap_has_def)
  then have t: "moved j g (trip k r g2)" for k r
    using moved_trans [OF moved_same [OF side] moved_trip] by blast
  show ?thesis
    unfolding settle_books_def Let_def g2_def [symmetric]
    by (cases "capUsd g2") (simp_all add: t moved_same [OF side])
qed

lemma observeResult_moved:
  assumes inv: "gov_inv g" and r: "observeResult i e uc cc g = ok g'" and ne: "i \<noteq> j"
  shows "moved j g g'"
proof -
  from r obtain g1 where
    g1: "(if real_usage (ev_usage e) \<and> \<not> uc then observeUsage i (raw_usage_of (ev_usage e)) g else ok g) = ok g1"
    and rest: "(if isValidUsd (ev_cost e)
        then (if \<not> cc then observeCost i (num_of (ev_cost e)) g1 else ok g1)
      else if real_usage (ev_usage e) \<and> capUsd g1 \<noteq> None \<and> \<not> cc
        then ok (trip Exhausted UnpricedUsage g1) else ok g1) = ok g'"
    by (rule observeResult_okE)
  have m1: "moved j g g1" and i1: "gov_inv g1"
    using g1 inv_observeUsage [OF inv] inv fold_usage_moved [OF gov_invD(2) [OF inv]]
    by (auto split: if_splits dest: observeUsage_okD)
  note b = gov_invD(1) [OF i1] and q = gov_invD(2) [OF i1]
  have "moved j g1 g'"
    using rest fold_cost_moved [OF b q ne] moved_trip [OF q]
    by (auto split: if_splits dest!: observeCost_okD)
  with m1 show ?thesis by (rule moved_trans)
qed

text \<open>The frame rule of the ledger: a call for another job never touches this job's hold.\<close>

lemma foreign_moved:
  assumes inv: "gov_inv g" and al: "allowed c g" and ex: "exec c g = ok g'" and fo: "foreign j c"
  shows "moved j g g'"
proof -
  note b = gov_invD(1) [OF inv] and q = gov_invD(2) [OF inv]
  show ?thesis
  proof (cases c)
    case (C_Admit i)
    with ex have "job_side j g' = job_side j g" by (intro job_side_cong) (auto simp: admit_def)
    then show ?thesis by (rule moved_same)
  next
    case (C_Reserve i a p cls)
    with ex al obtain out where r: "reserve i a p cls g = ok (g', out)" "idle_job i g" by (auto simp: bind_result_eq_Inr)
    then show ?thesis
    proof (cases rule: reserve_cases)
      case (granted u r)
      have "job_hold j g' = job_hold j g"
        using grant_hold [OF granted(6) b, of j] r(2) C_Reserve fo by (simp add: idle_job_def)
      then have "job_side j g' = job_side j g"
        using grant_simps [OF granted(6) b] by (simp add: job_side_def job_request_def job_answers_def)
      then show ?thesis by (rule moved_same)
    next
      case (parked u)
      have "find (\<lambda>w. wt_job w = j) (g_waiters g @ [request i a u cls]) = find (\<lambda>w. wt_job w = j) (g_waiters g)"
        using C_Reserve fo by (simp add: find_snoc split: option.split)
      then have "job_side j g' = job_side j g"
        by (simp add: parked job_side_def job_request_def job_answers_def job_hold_def)
      then show ?thesis by (rule moved_same)
    qed (simp_all add: moved_trip q)
  next
    case (C_Abandon r)
    show ?thesis
    proof (cases "g' = g")
      case False
      with C_Abandon ex obtain h where h: "map_of (g_outstanding g) (rv_id (hd_res h)) = Some h" "hd_res h = r"
        "drainWaiters (close_hold (hd_res h) g) = ok g'"
        by (auto simp: abandonReservation_def split: option.splits if_splits)
      have "job_side j (close_hold (hd_res h) g) = job_side j g"
        using close_hold_side [OF b h(1)] C_Abandon fo h(2) by simp
      moreover have "draining (close_hold (hd_res h) g)" by (rule close_hold_draining [OF inv h(1)])
      then have "moved j (close_hold (hd_res h) g) g'" using moved_drain [OF h(3)] by (simp add: draining_def)
      ultimately show ?thesis using moved_trans [OF moved_same] by blast
    qed simp
  next
    case (C_Settle r bs u)
    with ex obtain out where "settle r bs u g = ok (g', out)" by (auto simp: bind_result_eq_Inr)
    from settle_okD [OF this] obtain h where h: "map_of (g_outstanding g) (rv_id r) = Some h" "hd_res h = r"
      "drainWaiters (settle_books h bs g) = ok g'" by blast
    have "moved j g (settle_books h bs g)" using settle_books_moved [OF inv, of h] h fo C_Settle by simp
    moreover have "draining (settle_books h bs g)" using settle_books_draining [OF inv, of h] h by simp
    then have "moved j (settle_books h bs g) g'" using moved_drain [OF h(3)] by (simp add: draining_def)
    ultimately show ?thesis by (rule moved_trans)
  next
    case (C_ObserveUsage i u)
    with ex show ?thesis by (auto dest!: observeUsage_okD intro: fold_usage_moved [OF q])
  next
    case (C_ObserveCost i n)
    with ex fo show ?thesis by (auto dest!: observeCost_okD intro: fold_cost_moved [OF b q])
  next
    case (C_ObserveResult i e uc cc)
    with ex fo show ?thesis by (intro observeResult_moved [OF inv]) auto
  next
    case (C_Trip k t)
    with ex show ?thesis using moved_trip [OF q] by auto
  next
    case (C_TripSignal d)
    with ex show ?thesis using moved_trip [OF q] by (auto simp: tripSignal_def)
  qed
qed

section \<open>The job's own calls\<close>

lemma own_trip: "gov_inv g \<Longrightarrow> job_request j g = None \<Longrightarrow> job_side j (trip k t g) = job_side j g"
  by (rule moved_idle [OF moved_trip]) (rule gov_invD(2))

lemma own_reserve:
  assumes inv: "gov_inv g" and r: "reserve j a p cls g = ok (g', out)" and idle: "idle_job j g"
  shows "(case out of
      Resolved (Reserved rv) \<Rightarrow> job_side j g' = (Some (new_hold rv), None, job_answers j g) \<and> rv_job rv = j \<and> rv_attempt rv = a
    | Resolved Tripped \<Rightarrow> job_side j g' = job_side j g
    | Waiting \<Rightarrow> (\<exists>w. job_side j g' = (None, Some w, job_answers j g) \<and> wt_job w = j \<and> wt_attempt w = a))"
proof -
  note b = gov_invD(1) [OF inv] and q = gov_invD(2) [OF inv]
  have side: "job_hold j g = None" "job_request j g = None" using idle by (simp_all add: idle_job_side b)
  show ?thesis
    using r idle
  proof (cases rule: reserve_cases)
    case (granted u rv)
    have nw: "\<not> omap_has (wt_job (request j a u cls)) (g_openByJob g)" using idle by (simp add: idle_job_def)
    note gs = grant_simps [OF granted(6) b]
    show ?thesis
      using grant_hold [OF granted(6) b nw, of j] side
      by (simp add: granted(7) job_side_def job_request_def job_answers_def gs) (simp add: request_def)
  next
    case (parked u)
    have "find (\<lambda>w. wt_job w = j) (g_waiters g @ [request j a u cls]) = Some (request j a u cls)"
      using side(2) by (simp add: job_request_def find_snoc)
    then show ?thesis
      using side by (simp add: parked job_side_def job_request_def job_answers_def job_hold_def) (simp add: request_def)
  qed (simp_all add: own_trip [OF inv side(2)])
qed

lemma fold_cost_side:
  assumes inv: "gov_inv g" and u: "0 \<le> u" and req: "job_request j g = None"
  shows "job_side j (fold_cost j u g)
       = (map_option (\<lambda>h. h\<lparr>hd_folded := hd_folded h + u, hd_priced := True\<rparr>) (job_hold j g), None, job_answers j g)"
proof -
  let ?g = "record_event (Ev_Usage j (Some u)) (attribute_fold j u (g\<lparr>g_usdSpent := g_usdSpent g + u\<rparr>))"
  have b': "books (g\<lparr>g_usdSpent := g_usdSpent g + u\<rparr>)" using gov_invD(1) [OF inv] by (subst books_cong) simp_all
  have "job_hold j (g\<lparr>g_usdSpent := g_usdSpent g + u\<rparr>) = job_hold j g" by (simp add: job_hold_def)
  then have side: "job_side j ?g
       = (map_option (\<lambda>h. h\<lparr>hd_folded := hd_folded h + u, hd_priced := True\<rparr>) (job_hold j g), None, job_answers j g)"
    using attribute_fold_hold [OF b', of j j u] req
    by (simp add: job_side_def job_request_def job_answers_def job_hold_def)
  have "requests_ok ?g" using gov_invD(2) [OF inv] by (simp add: requests_ok_def)
  moreover have "job_request j ?g = None" using req by (simp add: job_request_def)
  ultimately have t: "job_side j (trip k r ?g) = job_side j ?g" for k r by (intro moved_idle moved_trip)
  show ?thesis
    unfolding fold_cost_def Let_def by (cases "capUsd ?g") (simp_all only: t side option.case simp_thms split: if_split)
qed

lemma own_observe:
  assumes inv: "gov_inv g" and r: "observeResult j e uc cc g = ok g'" and req: "job_request j g = None"
  shows "job_side j g' =
     (if isValidUsd (ev_cost e) \<and> \<not> cc
      then (map_option (\<lambda>h. h\<lparr>hd_folded := hd_folded h + fin_val (num_of (ev_cost e)), hd_priced := True\<rparr>) (job_hold j g),
            None, job_answers j g)
      else job_side j g)"
proof -
  from r obtain g1 where
    g1: "(if real_usage (ev_usage e) \<and> \<not> uc then observeUsage j (raw_usage_of (ev_usage e)) g else ok g) = ok g1"
    and rest: "(if isValidUsd (ev_cost e)
        then (if \<not> cc then observeCost j (num_of (ev_cost e)) g1 else ok g1)
      else if real_usage (ev_usage e) \<and> capUsd g1 \<noteq> None \<and> \<not> cc
        then ok (trip Exhausted UnpricedUsage g1) else ok g1) = ok g'"
    by (rule observeResult_okE)
  have "moved j g g1" and i1: "gov_inv g1"
    using g1 inv_observeUsage [OF inv] inv fold_usage_moved [OF gov_invD(2) [OF inv]]
    by (auto split: if_splits dest: observeUsage_okD)
  then have s1: "job_side j g1 = job_side j g" using req by (intro moved_idle)
  then have parts: "job_hold j g1 = job_hold j g" "job_request j g1 = None" "job_answers j g1 = job_answers j g"
    using req by (simp_all add: job_side_def)
  show ?thesis
  proof (cases "isValidUsd (ev_cost e) \<and> \<not> cc")
    case True
    with rest obtain u where "num_of (ev_cost e) = Fin u" "0 \<le> u" "g' = fold_cost j u g1"
      by (auto dest!: observeCost_okD)
    with True fold_cost_side [OF i1 _ parts(2)] parts show ?thesis by simp
  next
    case False
    with rest own_trip [OF i1 parts(2)] s1 show ?thesis by (auto split: if_splits)
  qed
qed

lemma own_drain:
  assumes "drainWaiters g = ok g'" "draining g" "job_side j g = (None, None, as)"
  shows "job_side j g' = (None, None, as)"
proof -
  have "moved j g g'" using moved_drain [OF assms(1)] assms(2) by (simp add: draining_def)
  then have "job_side j g' = job_side j g" by (rule moved_idle) (use assms(3) in \<open>simp add: job_side_def\<close>)
  with assms(3) show ?thesis by simp
qed

lemma own_settle:
  assumes inv: "gov_inv g" and hold: "job_hold j g = Some h" and req: "job_request j g = None"
  shows "\<exists>g'. settle (hd_res h) b None g = ok (g', \<lparr>st_charged = charge_of b h, st_basis = b, st_priced = hd_priced h\<rparr>)
           \<and> job_side j g' = (None, None, job_answers j g)"
proof -
  note bk = gov_invD(1) [OF inv] and rq = gov_invD(2) [OF inv]
  have h: "map_of (g_outstanding g) (rv_id (hd_res h)) = Some h" "rv_job (hd_res h) = j"
    using hold by (simp_all add: job_hold_Some [OF bk])
  have d: "draining (settle_books h b g)" by (rule settle_books_draining [OF inv h(1)])
  obtain g' where g': "drainWaiters (settle_books h b g) = ok g'"
    using d drain_total [of "settle_books h b g"] by (auto simp: draining_def)
  define g2 where "g2 = record_event (Ev_ReservationSettled (rv_job (hd_res h)) (rv_id (hd_res h)) (charge_of b h) b (hd_priced h))
      ((close_hold (hd_res h) g)\<lparr>g_usdSpent := g_usdSpent g + max 0 (charge_of b h - hd_folded h)\<rparr>)"
  have "job_side j g2 = job_side j (close_hold (hd_res h) g)"
    unfolding g2_def record_side by (rule job_side_cong) simp_all
  then have side: "job_side j g2 = (None, None, job_answers j g)" using close_hold_side [OF bk h(1)] h(2) req by simp
  have "requests_ok g2" using rq by (auto simp: g2_def requests_ok_def close_hold_def omap_has_def)
  then have "job_side j (trip k r g2) = job_side j g2" for k r
    by (intro moved_idle moved_trip) (use side in \<open>simp_all add: job_side_def\<close>)
  then have "job_side j (settle_books h b g) = (None, None, job_answers j g)"
    unfolding settle_books_def Let_def g2_def [symmetric]
    by (cases "capUsd g2") (simp_all only: side option.case simp_thms split: if_split)
  from own_drain [OF g' d this] g' h(1) show ?thesis by (simp add: settle_def)
qed

lemma settle_usage:
  "valid_usage u \<Longrightarrow> settle r b (Some (raw_of_usage u)) g = settle r b None g"
proof -
  assume "valid_usage u"
  then have "assertValidUsage ''settled usage'' (raw_of_usage u) = ok u" by (simp add: assertValidUsage_ok)
  then show ?thesis by (simp add: settle_def)
qed

lemma own_abandon:
  assumes inv: "gov_inv g" and hold: "job_hold j g = Some h" and req: "job_request j g = None"
  shows "\<exists>g'. abandonReservation (hd_res h) g = ok g' \<and> job_side j g' = (None, None, job_answers j g)"
proof -
  note bk = gov_invD(1) [OF inv]
  have h: "map_of (g_outstanding g) (rv_id (hd_res h)) = Some h" "rv_job (hd_res h) = j"
    using hold by (simp_all add: job_hold_Some [OF bk])
  have d: "draining (close_hold (hd_res h) g)" by (rule close_hold_draining [OF inv h(1)])
  obtain g' where g': "drainWaiters (close_hold (hd_res h) g) = ok g'"
    using d drain_total [of "close_hold (hd_res h) g"] by (auto simp: draining_def)
  have "job_side j (close_hold (hd_res h) g) = (None, None, job_answers j g)"
    using close_hold_side [OF bk h(1)] h(2) req by simp
  from own_drain [OF g' d this] g' h(1) show ?thesis by (simp add: abandonReservation_def)
qed

end
