(* ===== verification/Ladder.thy ===== *)
theory Ladder
  imports Governor_Config
begin

text \<open>
  \<open>runLadder\<close> (\<open>src/kernel/governor.ts\<close>): the escalation ladder around one governed invocation. Its
  machine's steps are the callbacks the code registers (a timer, the task's settlement, an external
  abort, a late rejection of an asynchronous primitive), the passing of time, and the registration
  of a cancel port by the task. A timer fires at or after its due time, at most \<open>lag\<close> late; firing
  it consumes it, before its body runs, so a body that neither arms a timer nor settles leaves time
  free to pass.
\<close>

section \<open>State\<close>

datatype rung = R_Signal | R_Timeout | R_Kill

text \<open>What a cancellation primitive does when it is called: it returns (\<open>False\<close> is the value false), hands
  back a promise, or throws.\<close>

datatype primitive = PReturns bool | PAsync | PThrows string

record cancel_port =
  cp_hardCancel :: "primitive option"
  cp_kill :: "primitive option"

text \<open>A marker, without the operation and job names, which are those of the invocation on every marker,
  and without \<open>atMs\<close>, the start plus \<open>sinceStartMs\<close>. \<open>mk_async\<close> says that its promise is still pending.\<close>

record marker =
  mk_rung :: rung
  mk_delayMs :: rat
  mk_sinceStartMs :: rat
  mk_delivered :: bool
  mk_error :: "string option"
  mk_async :: bool

datatype 'v ladder_outcome = Completed 'v | Killed | ThrewOutcome string

record 'v ladder =
  ld_now :: rat
  ld_startedAt :: rat
  ld_aborted :: bool
  ld_listening :: bool
  ld_port :: cancel_port
  ld_timer :: "(rung \<times> rat) option"
  ld_markers :: "marker list"
  ld_settled :: "('v ladder_outcome \<times> rat) option"

definition delay_of :: "ladder_spec \<Rightarrow> rung \<Rightarrow> rat" where
  "delay_of sp r = (case r of
      R_Signal \<Rightarrow> (case ls_wallClockMs sp of None \<Rightarrow> 0 | Some w \<Rightarrow> w)
    | R_Timeout \<Rightarrow> of_nat (ls_abortGraceMs sp)
    | R_Kill \<Rightarrow> of_nat (ls_killGraceMs sp))"

text \<open>The ladder as it is before the task runs; \<open>ext\<close> is the external signal, aborted or not.\<close>

definition runLadder_init :: "ladder_spec \<Rightarrow> bool option \<Rightarrow> rat \<Rightarrow> 'v ladder" where
  "runLadder_init sp ext startedAt =
     \<lparr>ld_now = startedAt, ld_startedAt = startedAt, ld_aborted = (ext = Some True),
      ld_listening = (ext = Some False), ld_port = \<lparr>cp_hardCancel = None, cp_kill = None\<rparr>,
      ld_timer = map_option (\<lambda>w. (R_Signal, startedAt + w)) (ls_wallClockMs sp),
      ld_markers = [], ld_settled = None\<rparr>"

section \<open>Callbacks\<close>

definition settle_ladder :: "'v ladder_outcome \<Rightarrow> 'v ladder \<Rightarrow> 'v ladder" where
  "settle_ladder outc s =
     (if ld_settled s \<noteq> None then s
      else s\<lparr>ld_settled := Some (outc, ld_now s - ld_startedAt s), ld_listening := False, ld_timer := None\<rparr>)"

definition deliver :: "cancel_port \<Rightarrow> rung \<Rightarrow> primitive" where
  "deliver p r = (case r of
      R_Signal \<Rightarrow> PReturns True
    | R_Timeout \<Rightarrow> (case cp_hardCancel p of None \<Rightarrow> PReturns False | Some d \<Rightarrow> d)
    | R_Kill \<Rightarrow> (case cp_kill p of None \<Rightarrow> PReturns False | Some d \<Rightarrow> d))"

definition fireRung :: "ladder_spec \<Rightarrow> rung \<Rightarrow> 'v ladder \<Rightarrow> 'v ladder" where
  "fireRung sp r s =
     (let d = deliver (ld_port s) r
      in s\<lparr>ld_markers := ld_markers s @
             [\<lparr>mk_rung = r, mk_delayMs = delay_of sp r, mk_sinceStartMs = ld_now s - ld_startedAt s,
               mk_delivered = (case d of PReturns b \<Rightarrow> b | PAsync \<Rightarrow> True | PThrows _ \<Rightarrow> False),
               mk_error = (case d of PThrows e \<Rightarrow> Some e | _ \<Rightarrow> None), mk_async = (d = PAsync)\<rparr>]\<rparr>)"

text \<open>The body of a rung's timer: fire it, then arm the next one, or settle as killed.\<close>

definition arm :: "ladder_spec \<Rightarrow> rung \<Rightarrow> 'v ladder \<Rightarrow> 'v ladder" where
  "arm sp r s = s\<lparr>ld_timer := Some (r, ld_now s + delay_of sp r)\<rparr>"

definition on_timer :: "ladder_spec \<Rightarrow> rung \<Rightarrow> 'v ladder \<Rightarrow> 'v ladder" where
  "on_timer sp r s = (case r of
      R_Signal \<Rightarrow> arm sp R_Timeout (fireRung sp R_Signal (s\<lparr>ld_aborted := True\<rparr>))
    | R_Timeout \<Rightarrow> arm sp R_Kill (fireRung sp R_Timeout s)
    | R_Kill \<Rightarrow> settle_ladder Killed (fireRung sp R_Kill s))"

definition note_rejection :: "nat \<Rightarrow> string \<Rightarrow> 'v ladder \<Rightarrow> 'v ladder" where
  "note_rejection i e s =
     s\<lparr>ld_markers := (ld_markers s)[i := (ld_markers s ! i)\<lparr>mk_error := Some (''async: '' @ e), mk_async := False\<rparr>]\<rparr>"

inductive ladder_step :: "ladder_spec \<Rightarrow> rat \<Rightarrow> 'v ladder \<Rightarrow> 'v ladder \<Rightarrow> bool" for sp lag where
  time: "ld_now s \<le> t \<Longrightarrow> (\<forall>r due. ld_timer s = Some (r, due) \<longrightarrow> t \<le> due + lag)
    \<Longrightarrow> ladder_step sp lag s (s\<lparr>ld_now := t\<rparr>)"
| timer: "ld_timer s = Some (r, due) \<Longrightarrow> due \<le> ld_now s 
    \<Longrightarrow> ladder_step sp lag s (on_timer sp r (s\<lparr>ld_timer := None\<rparr>))"
| set_port: "ladder_step sp lag s (s\<lparr>ld_port := p\<rparr>)"
| task_value: "ladder_step sp lag s (settle_ladder (Completed v) s)"
| task_error: "ladder_step sp lag s (settle_ladder (ThrewOutcome e) s)"
| external: "ld_listening s \<Longrightarrow> ladder_step sp lag s (s\<lparr>ld_aborted := True, ld_listening := False\<rparr>)"
| rejection: "i < length (ld_markers s) \<Longrightarrow> mk_async (ld_markers s ! i)
    \<Longrightarrow> ladder_step sp lag s (note_rejection i e s)"

inductive_cases ladder_stepE: "ladder_step sp lag s t"

definition ladder_init :: "ladder_spec \<Rightarrow> 'v ladder \<Rightarrow> bool" where
  "ladder_init sp s \<longleftrightarrow> (\<exists>ext startedAt. s = runLadder_init sp ext startedAt)"

section \<open>The invariant\<close>

definition RUNGS :: "rung list" where "RUNGS = [R_Signal, R_Timeout, R_Kill]"

text \<open>When the n-th rung is due at the earliest, counted from the start.\<close>

definition due_at :: "ladder_spec \<Rightarrow> nat \<Rightarrow> rat" where
  "due_at sp n = sum_list (map (delay_of sp) (take (Suc n) RUNGS))"

definition punctual :: "ladder_spec \<Rightarrow> rat \<Rightarrow> nat \<Rightarrow> rat \<Rightarrow> bool" where
  "punctual sp lag n t \<longleftrightarrow> due_at sp n \<le> t \<and> t \<le> due_at sp n + of_nat (Suc n) * lag"

definition armed_ok :: "ladder_spec \<Rightarrow> rat \<Rightarrow> 'v ladder \<Rightarrow> bool" where
  "armed_ok sp lag s \<longleftrightarrow> length (ld_markers s) < 3
     \<and> (\<exists>due. ld_timer s = Some (RUNGS ! length (ld_markers s), due)
          \<and> due_at sp (length (ld_markers s)) \<le> due - ld_startedAt s
          \<and> due - ld_startedAt s \<le> due_at sp (length (ld_markers s)) + of_nat (length (ld_markers s)) * lag
          \<and> ld_now s \<le> due + lag)"

definition ladder_inv :: "ladder_spec \<Rightarrow> rat \<Rightarrow> 'v ladder \<Rightarrow> bool" where
  "ladder_inv sp lag s \<longleftrightarrow> 0 \<le> lag \<and>
     map mk_rung (ld_markers s) = take (length (ld_markers s)) RUNGS
     \<and> (\<forall>i < length (ld_markers s). mk_delayMs (ld_markers s ! i) = delay_of sp (RUNGS ! i)
          \<and> punctual sp lag i (mk_sinceStartMs (ld_markers s ! i)))
     \<and> (ls_wallClockMs sp = None \<longrightarrow> ld_markers s = [] \<and> ld_timer s = None)
     \<and> (ls_wallClockMs sp \<noteq> None \<longrightarrow> ld_settled s = None \<longrightarrow> armed_ok sp lag s)
     \<and> (ld_settled s \<noteq> None \<longrightarrow> ld_timer s = None)
     \<and> (map_option fst (ld_settled s) = Some Killed \<longleftrightarrow> length (ld_markers s) = 3)
     \<and> (ld_markers s \<noteq> [] \<longrightarrow> ld_aborted s)"

lemma RUNGS_simps [simp]:
  "RUNGS ! 0 = R_Signal" "RUNGS ! Suc 0 = R_Timeout" "RUNGS ! 2 = R_Kill" "RUNGS ! Suc (Suc 0) = R_Kill" "length RUNGS = 3"
  by (simp_all add: RUNGS_def)

lemma due_at_Suc: "Suc n < 3 \<Longrightarrow> due_at sp (Suc n) = due_at sp n + delay_of sp (RUNGS ! Suc n)"
  by (simp add: due_at_def take_Suc_conv_app_nth)

lemma ladder_inv_init: "ladder_init sp s \<Longrightarrow> 0 \<le> lag \<Longrightarrow> (\<forall>w. ls_wallClockMs sp = Some w \<longrightarrow> 0 < w) \<Longrightarrow> ladder_inv sp lag s"
  by (auto simp: ladder_init_def runLadder_init_def ladder_inv_def armed_ok_def due_at_def RUNGS_def delay_of_def)

lemma delay_grace [simp]: "0 \<le> delay_of sp R_Timeout" "0 \<le> delay_of sp R_Kill"
  by (simp_all add: delay_of_def)

lemma fired_markers:
  assumes inv: "ladder_inv sp lag s" and tm: "ld_timer s = Some (r, due)" "due \<le> ld_now s" and un: "ld_settled s = None"
  defines "n \<equiv> length (ld_markers s)"
  shows "n < 3" "r = RUNGS ! n" "ls_wallClockMs sp \<noteq> None" "punctual sp lag n (ld_now s - ld_startedAt s)"
    "map mk_rung (ld_markers (fireRung sp r s)) = take (Suc n) RUNGS"
    "\<forall>i < Suc n. mk_delayMs (ld_markers (fireRung sp r s) ! i) = delay_of sp (RUNGS ! i)
       \<and> punctual sp lag i (mk_sinceStartMs (ld_markers (fireRung sp r s) ! i))"
proof -
  show w: "ls_wallClockMs sp \<noteq> None" using inv tm(1) by (auto simp: ladder_inv_def)
  with inv un have a: "armed_ok sp lag s" by (simp add: ladder_inv_def)
  then show n: "n < 3" and r: "r = RUNGS ! n" using tm(1) by (auto simp: armed_ok_def n_def)
  have d: "due_at sp n \<le> due - ld_startedAt s" "due - ld_startedAt s \<le> due_at sp n + of_nat n * lag"
    "ld_now s \<le> due + lag" using a tm(1) by (auto simp: armed_ok_def n_def)
  then show p: "punctual sp lag n (ld_now s - ld_startedAt s)"
    using tm(2) by (simp add: punctual_def algebra_simps)
  show "map mk_rung (ld_markers (fireRung sp r s)) = take (Suc n) RUNGS"
    using inv n r by (simp add: ladder_inv_def fireRung_def Let_def n_def take_Suc_conv_app_nth)
  show "\<forall>i < Suc n. mk_delayMs (ld_markers (fireRung sp r s) ! i) = delay_of sp (RUNGS ! i)
       \<and> punctual sp lag i (mk_sinceStartMs (ld_markers (fireRung sp r s) ! i))"
    using inv r p by (auto simp: ladder_inv_def fireRung_def Let_def n_def nth_append less_Suc_eq)
qed

text \<open>Every body replaces the timer it consumed: it arms the next one or settles.\<close>

lemma on_timer_consumed: "ld_settled s = None \<Longrightarrow> on_timer sp r (s\<lparr>ld_timer := None\<rparr>) = on_timer sp r s"
  by (cases r) (simp_all add: on_timer_def arm_def fireRung_def settle_ladder_def Let_def)

lemma ladder_inv_timer:
  assumes inv: "ladder_inv sp lag s" and tm: "ld_timer s = Some (r, due)" "due \<le> ld_now s"
  shows "ladder_inv sp lag (on_timer sp r s)"
proof -
  have un: "ld_settled s = None" using inv tm(1) by (auto simp: ladder_inv_def)
  have lag: "0 \<le> lag" using inv by (simp add: ladder_inv_def)
  let ?n = "length (ld_markers s)"
  note f = fired_markers [OF inv tm un]
  have len: "length (ld_markers (fireRung sp r s)) = Suc ?n" by (simp add: fireRung_def Let_def)
  have ab: "?n \<noteq> 0 \<Longrightarrow> ld_aborted s" using inv by (auto simp: ladder_inv_def)
  consider "?n = 0" | "?n = 1" | "?n = 2" using f(1) by linarith
  then show ?thesis
  proof cases
    case 1
    then have r: "r = R_Signal" using f(2) by simp
    have m: "ld_markers (on_timer sp r s) = ld_markers (fireRung sp r s)"
      by (simp add: r on_timer_def arm_def fireRung_def Let_def)
    have "armed_ok sp lag (on_timer sp r s)"
      using f(4) 1 due_at_Suc [of 0 sp] lag delay_grace(1) [of sp]
      by (simp add: armed_ok_def m len r on_timer_def arm_def fireRung_def Let_def punctual_def)
    then show ?thesis using f(3,5,6) len 1 un lag
      by (simp add: ladder_inv_def m) (simp add: r on_timer_def arm_def fireRung_def Let_def)
  next
    case 2
    then have r: "r = R_Timeout" using f(2) by simp
    have m: "ld_markers (on_timer sp r s) = ld_markers (fireRung sp r s)"
      by (simp add: r on_timer_def arm_def fireRung_def Let_def)
    have "armed_ok sp lag (on_timer sp r s)"
      using f(4) 2 due_at_Suc [of 1 sp] lag delay_grace(2) [of sp]
      by (simp add: armed_ok_def m len r on_timer_def arm_def fireRung_def Let_def punctual_def numeral_2_eq_2)
    then show ?thesis using f(3,5,6) len 2 un ab lag
      by (simp add: ladder_inv_def m) (simp add: r on_timer_def arm_def fireRung_def Let_def)
  next
    case 3
    then have r: "r = R_Kill" using f(2) by simp
    have m: "ld_markers (on_timer sp r s) = ld_markers (fireRung sp r s)"
      by (simp add: r on_timer_def settle_ladder_def fireRung_def Let_def)
    show ?thesis using f(3,5,6) len 3 un ab lag
      by (simp add: ladder_inv_def m) (simp add: r on_timer_def settle_ladder_def fireRung_def Let_def)
  qed
qed

lemma ladder_inv_settle:
  "ladder_inv sp lag s \<Longrightarrow> outc \<noteq> Killed \<Longrightarrow> ladder_inv sp lag (settle_ladder outc s)"
  by (cases "ls_wallClockMs sp") (auto simp: ladder_inv_def settle_ladder_def armed_ok_def)

lemma ladder_inv_step:
  assumes inv: "ladder_inv sp lag s" and st: "ladder_step sp lag s t"
  shows "ladder_inv sp lag t"
  using st
proof (cases rule: ladder_step.cases)
  case (time u)
  then show ?thesis using inv by (auto simp: ladder_inv_def armed_ok_def)
next
  case (timer r due)
  moreover have "ld_settled s = None" using inv timer(2) by (auto simp: ladder_inv_def)
  ultimately show ?thesis using ladder_inv_timer [OF inv] on_timer_consumed by metis
next
  case (set_port p)
  then show ?thesis using inv by (simp add: ladder_inv_def armed_ok_def)
next
  case (external)
  then show ?thesis using inv by (simp add: ladder_inv_def armed_ok_def)
next
  case (rejection i e)
  have "map mk_rung (ld_markers t) = map mk_rung (ld_markers s)"
    using rejection by (simp add: note_rejection_def map_update list_update_same_conv)
  moreover have "length (ld_markers t) = length (ld_markers s)" using rejection by (simp add: note_rejection_def)
  moreover have "k < length (ld_markers s) \<Longrightarrow> mk_delayMs (ld_markers t ! k) = mk_delayMs (ld_markers s ! k)
      \<and> mk_sinceStartMs (ld_markers t ! k) = mk_sinceStartMs (ld_markers s ! k)" for k
    using rejection by (cases "k = i") (simp_all add: note_rejection_def)
  moreover have "ld_now t = ld_now s" "ld_startedAt t = ld_startedAt s" "ld_timer t = ld_timer s"
    "ld_settled t = ld_settled s" "ld_aborted t = ld_aborted s"
    using rejection by (simp_all add: note_rejection_def)
  ultimately show ?thesis using inv by (auto simp: ladder_inv_def armed_ok_def)
qed (use ladder_inv_settle [OF inv] in auto)

definition waiting_spec :: "ladder_spec \<Rightarrow> rat \<Rightarrow> bool" where
  "waiting_spec sp lag \<longleftrightarrow> 0 \<le> lag \<and> (case ls_wallClockMs sp of None \<Rightarrow> True | Some w \<Rightarrow> 0 < w)"

interpretation ladder: invariant_system "\<lambda>s. ladder_init sp s \<and> waiting_spec sp lag" "ladder_step sp lag"
    "ladder_inv sp lag" for sp lag
proof
  show "ladder_init sp s \<and> waiting_spec sp lag \<Longrightarrow> ladder_inv sp lag s" for s
    using ladder_inv_init [of sp s lag] by (simp add: waiting_spec_def split: option.splits)
qed (rule ladder_inv_step)

lemma validated_waits: "validateLadderSpec raw = ok sp \<Longrightarrow> 0 \<le> lag \<Longrightarrow> waiting_spec sp lag"
  by (auto simp: validateLadderSpec_def waiting_spec_def bind_result_eq_Inr js_is_finite_iff
      split: option.splits if_splits)

section \<open>Properties\<close>


text \<open>C36 A ladder with a wall clock ends in time: when the clock is past the wall-clock budget, both
  graces and three timer lags, the invocation has settled, whatever its task and cancel port do.\<close>

theorem ladder_ends_in_time:
  assumes "validateLadderSpec raw = ok sp" "0 \<le> lag" "ls_wallClockMs sp = Some w"
    and "reach (\<lambda>s. ladder_init sp s \<and> waiting_spec sp lag) (ladder_step sp lag) s"
    and "ld_now s - ld_startedAt s > w + of_nat (ls_abortGraceMs sp) + of_nat (ls_killGraceMs sp) + 3 * lag"
  shows "ld_settled s \<noteq> None"
proof
  assume un: "ld_settled s = None"
  let ?n = "length (ld_markers s)"
  have "ladder_inv sp lag s" by (rule ladder.reach_inv [OF assms(4)])
  then have "armed_ok sp lag s" using assms(3) un by (simp add: ladder_inv_def)
  then obtain due where n: "?n < 3" and d: "due - ld_startedAt s \<le> due_at sp ?n + of_nat ?n * lag" "ld_now s \<le> due + lag"
    unfolding armed_ok_def by blast
  then have t: "ld_now s - ld_startedAt s \<le> due_at sp ?n + of_nat (Suc ?n) * lag" by (simp add: algebra_simps)
  have w: "delay_of sp R_Signal = w" by (simp add: delay_of_def assms(3))
  have "due_at sp ?n \<le> w + of_nat (ls_abortGraceMs sp) + of_nat (ls_killGraceMs sp)"
    using n w by (auto simp: due_at_def RUNGS_def less_Suc_eq numeral_3_eq_3 delay_of_def)
  moreover have "of_nat (Suc ?n) * lag \<le> 3 * lag"
    using n assms(2) by (intro mult_right_mono) simp_all
  ultimately show False using t assms(5) by linarith
qed

definition demo_spec :: ladder_spec where
  "demo_spec = \<lparr>ls_wallClockMs = Some 10, ls_abortGraceMs = 2, ls_killGraceMs = 3\<rparr>"

definition demo_fired :: "nat ladder" where
  "demo_fired = on_timer demo_spec R_Signal (runLadder_init demo_spec None 0\<lparr>ld_now := 10, ld_timer := None\<rparr>)"

definition demo_late :: "nat ladder" where
  "demo_late = settle_ladder (Completed 7) demo_fired\<lparr>ld_now := 100\<rparr>"

lemma demo_spec_valid:
  "validateLadderSpec \<lparr>rl_wallClockMs = Some (Fin 10), rl_abortGraceMs = Some (Fin 2), rl_killGraceMs = Some (Fin 3)\<rparr>
     = ok demo_spec"
  by (simp add: validateLadderSpec_def checkGrace_def demo_spec_def)

lemma demo_ladder_reach:
  "reach (\<lambda>s. ladder_init demo_spec s \<and> waiting_spec demo_spec 1) (ladder_step demo_spec 1) demo_fired"
  "reach (\<lambda>s. ladder_init demo_spec s \<and> waiting_spec demo_spec 1) (ladder_step demo_spec 1) demo_late"
proof -
  let ?r = "reach (\<lambda>s. ladder_init demo_spec s \<and> waiting_spec demo_spec 1) (ladder_step demo_spec 1) :: nat ladder \<Rightarrow> bool"
  let ?s = "runLadder_init demo_spec None 0 :: nat ladder"
  have "?r ?s" by (rule reach_init) (auto simp: ladder_init_def waiting_spec_def demo_spec_def)
  moreover have "ladder_step demo_spec 1 ?s (?s\<lparr>ld_now := 10\<rparr>)"
    by (rule ladder_step.time) (simp_all add: runLadder_init_def demo_spec_def)
  ultimately have "?r (?s\<lparr>ld_now := 10\<rparr>)" by (rule reach_step)
  moreover have "ladder_step demo_spec 1 (?s\<lparr>ld_now := 10\<rparr>) demo_fired"
    unfolding demo_fired_def
    using ladder_step.timer [of "?s\<lparr>ld_now := 10\<rparr>" R_Signal 10 demo_spec 1] by (simp add: runLadder_init_def demo_spec_def)
  ultimately show f: "?r demo_fired" by (rule reach_step)
  have "?r (settle_ladder (Completed 7) demo_fired)" using f ladder_step.task_value by (rule reach_step)
  moreover have "ladder_step demo_spec 1 (settle_ladder (Completed 7) demo_fired) demo_late"
    unfolding demo_late_def
    by (rule ladder_step.time)
      (simp_all add: demo_fired_def on_timer_def arm_def fireRung_def settle_ladder_def runLadder_init_def Let_def)
  ultimately show "?r demo_late" by (rule reach_step)
qed


theorem ladder_ends_in_time_witness: "ld_settled demo_late \<noteq> None"
  by (rule ladder_ends_in_time [OF demo_spec_valid _ _ demo_ladder_reach(2), of 10])
    (simp_all add: demo_spec_def demo_late_def demo_fired_def on_timer_def arm_def fireRung_def settle_ladder_def
      runLadder_init_def Let_def)

end
