(* ===== verification/Governed_Dispatch.thy ===== *)
theory Governed_Dispatch
  imports Governor_Job Dispatch_Crash Wave_Loop Ladder
begin

text \<open>
  One governed dispatch between its start and its finish (\<open>governedRunOne\<close> of
  \<open>src/kernel/runner.ts\<close>): the slot, the reserve gate, the write-ahead line, the ownership fence, the
  guards around \<open>executeOp\<close>, the evidence folds, the interpretation of the ladder's outcome, the settle
  and its line. A step is the code between two awaits. The other dispatches of the run share the
  governor and the journal: their calls are steps of the environment.
\<close>

section \<open>State\<close>

text \<open>Where the dispatch is: what it awaits, or what its body is doing.\<close>

datatype gphase =
    SlotWait
  | GateWait nat  \<comment> \<open>parked on capacity, after that many answers to the job\<close>
  | Opening reservation
  | Fencing
  | Preparing | GuardFence | Entering | Body
  | SettleWrite "op_result option"  \<comment> \<open>the settle line; \<open>None\<close>: an exception is pending\<close>
  | Ended op_result
  | Broken

record gdisp =
  gd_phase :: gphase
  gd_gov :: governor
  gd_journal :: "journal_event list"
  gd_slots :: int
  gd_failed :: bool  \<comment> \<open>\<open>runFailure\<close>\<close>
  gd_aborted :: bool  \<comment> \<open>\<open>dispatchSignal\<close>\<close>
  gd_usage :: "usage option"
  gd_cost :: "rat option"
  gd_reportedUsage :: bool
  gd_reportedCost :: bool
  gd_sessions :: "session_link list"
  gd_reservation :: "reservation option"
  gd_preserve :: bool
  gd_charge :: "settled option"
  gd_outcome :: "op_result ladder_outcome option"
  gd_unknown :: bool
  gd_closed :: bool
  gd_refused :: bool  \<comment> \<open>\<open>refusedBeforeBody\<close>\<close>
  gd_detached :: bool
  gd_reports :: "spend_evidence list"  \<comment> \<open>the sanitized reports, for the specification only\<close>

definition dispatch_start :: "governor \<Rightarrow> journal_event list \<Rightarrow> gdisp" where
  "dispatch_start g evs = \<lparr>gd_phase = SlotWait, gd_gov = g, gd_journal = evs, gd_slots = 0, gd_failed = False,
     gd_aborted = False, gd_usage = None, gd_cost = None, gd_reportedUsage = False, gd_reportedCost = False,
     gd_sessions = [], gd_reservation = None, gd_preserve = False, gd_charge = None, gd_outcome = None,
     gd_unknown = False, gd_closed = False, gd_refused = False, gd_detached = False, gd_reports = []\<rparr>"

section \<open>Evidence\<close>

definition counted_usage :: "spend_evidence \<Rightarrow> usage option" where
  "counted_usage e =
     (if real_usage (ev_usage e)
      then (case assertValidUsage '''' (raw_usage_of (ev_usage e)) of Inl _ \<Rightarrow> None | Inr u \<Rightarrow> Some u)
      else None)"

definition foldIntoJobSums :: "spend_evidence \<Rightarrow> bool \<Rightarrow> bool \<Rightarrow> gdisp \<Rightarrow> gdisp" where
  "foldIntoJobSums e usageCounted costCounted s =
     (let s1 = (case counted_usage e of
                  Some u \<Rightarrow> if usageCounted then s else s\<lparr>gd_usage := Some (add_usage_opt (gd_usage s) u)\<rparr>
                | None \<Rightarrow> s)
      in if ev_cost e \<noteq> JUndef \<and> \<not> costCounted
         then s1\<lparr>gd_cost := Some ((case gd_cost s1 of None \<Rightarrow> 0 | Some c \<Rightarrow> c) + fin_val (num_of (ev_cost e)))\<rparr>
         else s1)"

text \<open>The governor's fold and its mirror; the fold never throws (\<open>observeResult_total\<close>).\<close>

definition observe_fold :: "manifest_job \<times> nat \<Rightarrow> spend_evidence \<Rightarrow> bool \<Rightarrow> bool \<Rightarrow> gdisp \<Rightarrow> gdisp" where
  "observe_fold jn e usageCounted costCounted s =
     (case observeResult (mj_id (fst jn)) e usageCounted costCounted (gd_gov s) of
        Inl _ \<Rightarrow> s
      | Inr g \<Rightarrow> foldIntoJobSums e usageCounted costCounted (s\<lparr>gd_gov := g\<rparr>))"

definition onResult :: "manifest_job \<times> nat \<Rightarrow> spend_evidence \<Rightarrow> gdisp \<Rightarrow> gdisp" where
  "onResult jn raw s =
     (if gd_closed s then s
      else let e = validSpendEvidence raw
           in observe_fold jn e False False
                (s\<lparr>gd_reportedUsage := gd_reportedUsage s \<or> real_usage (ev_usage e),
                  gd_reportedCost := gd_reportedCost s \<or> ev_cost e \<noteq> JUndef,
                  gd_reports := gd_reports s @ [e]\<rparr>))"

definition onSession :: "jsv \<Rightarrow> gdisp \<Rightarrow> gdisp" where
  "onSession link s =
     (if gd_closed s then s
      else case validSessionLink link of None \<Rightarrow> s | Some l \<Rightarrow> s\<lparr>gd_sessions := gd_sessions s @ [l]\<rparr>)"

section \<open>The end of the dispatch\<close>

definition conclude :: "op_result option \<Rightarrow> gdisp \<Rightarrow> gdisp" where
  "conclude res s = s\<lparr>gd_slots := gd_slots s - 1, gd_phase := (case res of Some r \<Rightarrow> Ended r | None \<Rightarrow> Broken)\<rparr>"

text \<open>How the settle reads the dispatch's ending: unknown endings are charged in full.\<close>

definition settle_basis :: "gdisp \<Rightarrow> charge_basis" where
  "settle_basis s =
     (case gd_outcome s of
        Some (Completed r) \<Rightarrow>
          if gd_unknown s \<or> status r = Indeterminate_st \<and> \<not> gd_refused s then Full else Observed
      | _ \<Rightarrow> Full)"

definition finally_dispatch :: "op_result option \<Rightarrow> gdisp \<Rightarrow> gdisp" where
  "finally_dispatch res s =
     (let t = (case gd_reservation s of
                 None \<Rightarrow> s
               | Some r \<Rightarrow>
                   if gd_preserve s
                   then (case abandonReservation r (gd_gov s) of
                           Inl _ \<Rightarrow> s\<lparr>gd_reservation := None\<rparr>
                         | Inr g \<Rightarrow> s\<lparr>gd_gov := g, gd_reservation := None\<rparr>)
                   else s)
      in case gd_reservation t of
           None \<Rightarrow> conclude res t
         | Some r \<Rightarrow>
             (case settle r (settle_basis t) (map_option raw_of_usage (gd_usage t)) (gd_gov t) of
                Inl _ \<Rightarrow> conclude None (t\<lparr>gd_reservation := None\<rparr>)
              | Inr (g, st) \<Rightarrow> t\<lparr>gd_gov := g, gd_charge := Some st, gd_phase := SettleWrite res\<rparr>))"

text \<open>The first infrastructure failure of the run (\<open>failRun\<close>).\<close>

definition failing :: "gdisp \<Rightarrow> gdisp" where
  "failing s = s\<lparr>gd_failed := True, gd_gov := tripSignal (Some ''journal: run stopped'') (gd_gov s)\<rparr>"

definition settle_written :: "loop_env \<Rightarrow> op_result option \<Rightarrow> gdisp \<Rightarrow> gdisp" where
  "settle_written v res s =
     (case (gd_reservation s, gd_charge s) of
        (Some r, Some st) \<Rightarrow>
          conclude res (s\<lparr>gd_journal := gd_journal s @ [settled_event (le_run v) r st (gd_usage s)],
                         gd_reservation := None\<rparr>)
      | _ \<Rightarrow> s)"

definition settle_unwritten :: "gdisp \<Rightarrow> gdisp" where
  "settle_unwritten s = conclude None ((failing s)\<lparr>gd_reservation := None\<rparr>)"

section \<open>The invocation\<close>

definition queuedRefusal :: "manifest_job \<Rightarrow> governor \<Rightarrow> governor \<times> op_result" where
  "queuedRefusal j g =
     (if map_option fst (g_trip g) = Some Signal
      then (record_event (Ev_ShortCircuited (mj_op j) (mj_id j) SC_CancelledWhileQueued) g,
            RIndeterminate ''cancelled: the run-level signal tripped the governor before this queued dispatch ran'')
      else (record_event (Ev_ShortCircuited (mj_op j) (mj_id j) SC_BudgetWhileQueued) g, RBudgetExhausted))"

definition refuse_queued :: "manifest_job \<times> nat \<Rightarrow> gdisp \<Rightarrow> gdisp" where
  "refuse_queued jn s =
     (case queuedRefusal (fst jn) (gd_gov s) of (g, r) \<Rightarrow> finally_dispatch (Some r) (s\<lparr>gd_gov := g\<rparr>))"

definition fold_returned :: "manifest_job \<times> nat \<Rightarrow> op_result \<Rightarrow> gdisp \<Rightarrow> gdisp" where
  "fold_returned jn r s =
     (case r of
        ROk val \<Rightarrow>
          (case workerResultOfValue val of
             None \<Rightarrow> s
           | Some w \<Rightarrow> observe_fold jn (validSpendEvidence w) (gd_reportedUsage s) (gd_reportedCost s) s)
      | _ \<Rightarrow> s)"

definition completed_note :: "manifest_job \<times> nat \<Rightarrow> governed_status \<Rightarrow> gdisp \<Rightarrow> gdisp" where
  "completed_note jn st s =
     s\<lparr>gd_gov := record_event (Ev_Completed (mj_op (fst jn)) (mj_id (fst jn)) (snd jn) st) (gd_gov s)\<rparr>"

text \<open>The verdict of a ladder outcome; \<open>Inl\<close> is the rethrown error.\<close>

definition interpretOutcome :: "manifest_job \<times> nat \<Rightarrow> op_result ladder_outcome \<Rightarrow> gdisp
    \<Rightarrow> (string + op_result) \<times> gdisp" where
  "interpretOutcome jn out s =
     (case out of
        Completed r \<Rightarrow> (Inr r, fold_returned jn r (completed_note jn (Verdict (status r)) s))
      | ThrewOutcome e \<Rightarrow> (Inl e, completed_note jn Threw_st s)
      | Killed \<Rightarrow> (Inr RBudgetExhausted,
                  completed_note jn (Verdict BudgetExhausted_st) (s\<lparr>gd_detached := True\<rparr>)))"

text \<open>The ladder has settled: the evidence window closes, the outcome is interpreted (a rethrown
  error becomes a failed result unless the run has failed), and the dispatch is wound up.\<close>

definition ladder_ended :: "manifest_job \<times> nat \<Rightarrow> op_result ladder_outcome \<Rightarrow> gdisp \<Rightarrow> gdisp" where
  "ladder_ended jn out s =
     (case interpretOutcome jn out (s\<lparr>gd_outcome := Some out, gd_closed := True\<rparr>) of
        (Inr r, t) \<Rightarrow> finally_dispatch (Some r) t
      | (Inl e, t) \<Rightarrow> finally_dispatch (if gd_failed t then None else Some (RFailed e)) t)"

definition invocationRefusal :: "manifest_job \<times> nat \<Rightarrow> gdisp \<Rightarrow> (unit + op_result option) \<times> gdisp" where
  "invocationRefusal jn s =
     (if gd_failed s then (Inl (), s\<lparr>gd_preserve := True\<rparr>)
      else if gd_closed s then (Inr (Some (RIndeterminate ''cancelled: dispatch already closed'')), s)
      else if tripped (gd_gov s)
        then (case queuedRefusal (fst jn) (gd_gov s) of (g, r) \<Rightarrow> (Inr (Some r), s\<lparr>gd_gov := g\<rparr>))
      else if gd_aborted s
        then (Inr (Some (RIndeterminate ''cancelled: dispatch signal aborted before invocation'')), s)
      else (Inr None, s))"

definition invocationPermission :: "manifest_job \<times> nat \<Rightarrow> gdisp \<Rightarrow> (unit + op_result option) \<times> gdisp" where
  "invocationPermission jn s =
     (case invocationRefusal jn s of
        (Inr (Some r), t) \<Rightarrow> (Inr (Some r), t\<lparr>gd_refused := True\<rparr>)
      | x \<Rightarrow> x)"

text \<open>A guard of \<open>executeOp\<close>: go on, return the refusal, or throw the run's failure.\<close>

definition guarded :: "manifest_job \<times> nat \<Rightarrow> gphase \<Rightarrow> gdisp \<Rightarrow> gdisp" where
  "guarded jn after s =
     (case invocationPermission jn s of
        (Inl _, t) \<Rightarrow> ladder_ended jn (ThrewOutcome ''run failed'') t
      | (Inr (Some r), t) \<Rightarrow> ladder_ended jn (Completed r) t
      | (Inr None, t) \<Rightarrow> t\<lparr>gd_phase := after\<rparr>)"

definition body_returns :: "manifest_job \<times> nat \<Rightarrow> op_return \<Rightarrow> gdisp \<Rightarrow> gdisp" where
  "body_returns jn ret s =
     (let x = judge_return (mj_op (fst jn)) ret
      in ladder_ended jn (Completed (ex_result x)) (s\<lparr>gd_unknown := ex_unknown x\<rparr>))"

definition fence_lost :: "gdisp \<Rightarrow> gdisp" where
  "fence_lost s = finally_dispatch None ((failing s)\<lparr>gd_preserve := True\<rparr>)"

definition guard_fence_lost :: "manifest_job \<times> nat \<Rightarrow> gdisp \<Rightarrow> gdisp" where
  "guard_fence_lost jn s = ladder_ended jn (ThrewOutcome ''lock-lost'') ((failing s)\<lparr>gd_preserve := True\<rparr>)"

section \<open>The gate\<close>

definition begin_dispatch :: "loop_env \<Rightarrow> manifest_job \<times> nat \<Rightarrow> gdisp \<Rightarrow> gdisp" where
  "begin_dispatch v jn s0 =
     (let s = s0\<lparr>gd_slots := gd_slots s0 + 1\<rparr>; g = gd_gov s
      in if tripped g then refuse_queued jn s
         else case capUsd g of
           None \<Rightarrow> s\<lparr>gd_phase := Fencing\<rparr>
         | Some cap \<Rightarrow>
             (case classifyDispatch None LANE_CLASSIFICATION of
                Inl _ \<Rightarrow> finally_dispatch None s
              | Inr cls \<Rightarrow>
                 (case reserve (mj_id (fst jn)) (snd jn) (Fin (cap / of_nat (le_limit v))) cls g of
                    Inl _ \<Rightarrow> finally_dispatch None s
                  | Inr (g', Resolved Tripped) \<Rightarrow> refuse_queued jn (s\<lparr>gd_gov := g'\<rparr>)
                  | Inr (g', Resolved (Reserved r)) \<Rightarrow> s\<lparr>gd_gov := g', gd_phase := Opening r\<rparr>
                  | Inr (g', Waiting) \<Rightarrow>
                      s\<lparr>gd_gov := g', gd_phase := GateWait (length (job_answers (mj_id (fst jn)) g))\<rparr>)))"

definition gate_answer :: "manifest_job \<times> nat \<Rightarrow> reserve_outcome \<Rightarrow> gdisp \<Rightarrow> gdisp" where
  "gate_answer jn out s =
     (case out of Tripped \<Rightarrow> refuse_queued jn s | Reserved r \<Rightarrow> s\<lparr>gd_phase := Opening r\<rparr>)"

definition opened :: "loop_env \<Rightarrow> manifest_job \<times> nat \<Rightarrow> reservation \<Rightarrow> gdisp \<Rightarrow> gdisp" where
  "opened v jn r s =
     s\<lparr>gd_journal := gd_journal s @ [opened_event (le_run v) (mj_op (fst jn)) r],
       gd_reservation := Some r, gd_phase := Fencing\<rparr>"

text \<open>The write-ahead line could not be written: the hold is abandoned, nothing is dispatched.\<close>

definition open_failed :: "reservation \<Rightarrow> gdisp \<Rightarrow> gdisp" where
  "open_failed r s =
     (let t = failing s
      in case abandonReservation r (gd_gov t) of
           Inl _ \<Rightarrow> finally_dispatch None t
         | Inr g \<Rightarrow> finally_dispatch None (t\<lparr>gd_gov := g\<rparr>))"

section \<open>The machine\<close>

inductive own_step :: "loop_env \<Rightarrow> manifest_job \<times> nat \<Rightarrow> gdisp \<Rightarrow> gdisp \<Rightarrow> bool" for v jn where
  slot: "gd_phase s = SlotWait \<Longrightarrow> own_step v jn s (begin_dispatch v jn s)"
| gate: "gd_phase s = GateWait n \<Longrightarrow> n < length (job_answers (mj_id (fst jn)) (gd_gov s))
    \<Longrightarrow> own_step v jn s (gate_answer jn (job_answers (mj_id (fst jn)) (gd_gov s) ! n) s)"
| open_ok: "gd_phase s = Opening r \<Longrightarrow> own_step v jn s (opened v jn r s)"
| open_fails: "gd_phase s = Opening r \<Longrightarrow> own_step v jn s (open_failed r s)"
| fence_ok: "gd_phase s = Fencing \<Longrightarrow> \<not> gd_failed s \<Longrightarrow> own_step v jn s (s\<lparr>gd_phase := Preparing\<rparr>)"
| fence_fails: "gd_phase s = Fencing \<Longrightarrow> own_step v jn s (fence_lost s)"
| unprepared: "gd_phase s = Preparing \<Longrightarrow> own_step v jn s (ladder_ended jn (Completed (RFailed msg)) s)"
| before_body: "gd_phase s = Preparing \<Longrightarrow> own_step v jn s (guarded jn GuardFence s)"
| guard_fence_ok: "gd_phase s = GuardFence \<Longrightarrow> \<not> gd_failed s \<Longrightarrow> own_step v jn s (guarded jn Entering s)"
| guard_fence_fails: "gd_phase s = GuardFence \<Longrightarrow> own_step v jn s (guard_fence_lost jn s)"
| enter: "gd_phase s = Entering \<Longrightarrow> own_step v jn s (guarded jn Body s)"
| report: "gd_phase s = Body \<or> gd_closed s \<Longrightarrow> own_step v jn s (onResult jn raw s)"
| session: "gd_phase s = Body \<or> gd_closed s \<Longrightarrow> own_step v jn s (onSession link s)"
| returned: "gd_phase s = Body \<Longrightarrow> own_step v jn s (body_returns jn ret s)"
| killed: "gd_phase s \<in> {Preparing, GuardFence, Entering, Body} \<Longrightarrow> own_step v jn s (ladder_ended jn Killed s)"
| late_guard: "gd_outcome s = Some Killed \<Longrightarrow> own_step v jn s (snd (invocationPermission jn s))"
| settle_ok: "gd_phase s = SettleWrite res \<Longrightarrow> own_step v jn s (settle_written v res s)"
| settle_fails: "gd_phase s = SettleWrite res \<Longrightarrow> own_step v jn s (settle_unwritten s)"

text \<open>Lines of this dispatch in the journal.\<close>

fun own_line :: "loop_env \<Rightarrow> manifest_job \<times> nat \<Rightarrow> journal_event \<Rightarrow> bool" where
  "own_line v jn (Reservation_Opened e) = (ro_run e = le_run v \<and> ro_job e = mj_id (fst jn))"
| "own_line v jn (Reservation_Settled e) = (rt_run e = le_run v \<and> rt_job e = mj_id (fst jn))"
| "own_line v jn _ = False"

definition own_lines :: "loop_env \<Rightarrow> manifest_job \<times> nat \<Rightarrow> gdisp \<Rightarrow> journal_event list" where
  "own_lines v jn s = filter (own_line v jn) (gd_journal s)"

inductive env_step :: "loop_env \<Rightarrow> manifest_job \<times> nat \<Rightarrow> gdisp \<Rightarrow> gdisp \<Rightarrow> bool" for v jn where
  others: "allowed c (gd_gov s) \<Longrightarrow> foreign (mj_id (fst jn)) c \<Longrightarrow> exec c (gd_gov s) = ok g
    \<Longrightarrow> env_step v jn s (s\<lparr>gd_gov := g\<rparr>)"
| records: "env_step v jn s (s\<lparr>gd_gov := record_event e (gd_gov s)\<rparr>)"
| lines: "\<not> own_line v jn e \<Longrightarrow> env_step v jn s (s\<lparr>gd_journal := gd_journal s @ [e]\<rparr>)"
| fails: "env_step v jn s (failing s)"
| aborts: "env_step v jn s (s\<lparr>gd_aborted := True\<rparr>)"

definition gd_step :: "loop_env \<Rightarrow> manifest_job \<times> nat \<Rightarrow> gdisp \<Rightarrow> gdisp \<Rightarrow> bool" where
  "gd_step v jn s t \<longleftrightarrow> own_step v jn s t \<or> env_step v jn s t"

definition gd_init :: "loop_env \<Rightarrow> manifest_job \<times> nat \<Rightarrow> gdisp \<Rightarrow> bool" where
  "gd_init v jn s \<longleftrightarrow> (\<exists>g evs. s = dispatch_start g evs \<and> gov_inv g \<and> idle_job (mj_id (fst jn)) g
     \<and> own_lines v jn s = [])"

text \<open>What the wave loop's finish receives.\<close>

definition ending_of :: "op_result \<Rightarrow> gdisp \<Rightarrow> ending" where
  "ending_of r s = \<lparr>ed_result = r, ed_usage = gd_usage s, ed_cost = gd_cost s,
     ed_charged = map_option st_charged (gd_charge s),
     ed_sessions = mergeSessionLinks (sessionsOfResult r) (gd_sessions s)\<rparr>"

end
