(* ===== verification/Dispatch_Laws.thy ===== *)
theory Dispatch_Laws
  imports Governed_Dispatch
begin

text \<open>
  What one governed dispatch guarantees, whatever the rest of the run does to the governor: every
  measurement is counted once, the settle charges exactly what was counted (or the reservation, for an
  unknown ending), the journal holds the two lines of the reservation in order, the slot comes back.
\<close>

section \<open>What was observed\<close>

definition cost_of :: "spend_evidence \<Rightarrow> rat list" where
  "cost_of e = (if ev_cost e \<noteq> JUndef then [fin_val (num_of (ev_cost e))] else [])"

definition usage_of :: "spend_evidence \<Rightarrow> usage list" where
  "usage_of e = (case counted_usage e of None \<Rightarrow> [] | Some u \<Rightarrow> [u])"

definition reported :: "(spend_evidence \<Rightarrow> 'a list) \<Rightarrow> gdisp \<Rightarrow> 'a list" where
  "reported f s = concat (map f (gd_reports s))"

definition returned_evidence :: "gdisp \<Rightarrow> spend_evidence option" where
  "returned_evidence s = (case gd_outcome s of
     Some (Completed (ROk val)) \<Rightarrow> map_option validSpendEvidence (workerResultOfValue val) | _ \<Rightarrow> None)"

text \<open>The streamed measurements, or the returned one when nothing was streamed.\<close>

definition observed :: "(spend_evidence \<Rightarrow> 'a list) \<Rightarrow> gdisp \<Rightarrow> 'a list" where
  "observed f s = (if reported f s \<noteq> [] then reported f s
     else case returned_evidence s of None \<Rightarrow> [] | Some e \<Rightarrow> f e)"

definition observed_cost :: "gdisp \<Rightarrow> rat" where
  "observed_cost s = sum_list (observed cost_of s)"

definition sum_opt :: "rat list \<Rightarrow> rat option" where
  "sum_opt xs = (if xs = [] then None else Some (sum_list xs))"

definition sum_usage :: "usage list \<Rightarrow> usage option" where
  "sum_usage us = fold (\<lambda>u m. Some (add_usage_opt m u)) us None"

definition sums_ok :: "gdisp \<Rightarrow> bool" where
  "sums_ok s \<longleftrightarrow> gd_cost s = sum_opt (observed cost_of s) \<and> gd_usage s = sum_usage (observed usage_of s)
     \<and> (gd_reportedCost s \<longleftrightarrow> reported cost_of s \<noteq> [])
     \<and> (gd_reportedUsage s \<longleftrightarrow> reported usage_of s \<noteq> []) \<and> opt_valid (gd_usage s)"

lemma sum_opt_snoc: "sum_opt (xs @ [x]) = Some ((case sum_opt xs of None \<Rightarrow> 0 | Some c \<Rightarrow> c) + x)"
  by (simp add: sum_opt_def)

lemma sum_usage_snoc: "sum_usage (us @ [u]) = Some (add_usage_opt (sum_usage us) u)"
  by (simp add: sum_usage_def)

lemma sum_opt_Nil [simp]: "sum_opt [] = None" "sum_opt [x] = Some x"
  by (simp_all add: sum_opt_def)

lemma sum_usage_Nil [simp]: "sum_usage [] = None" "sum_usage [u] = Some u"
  by (simp_all add: sum_usage_def add_usage_opt_def)

lemma sane_cost: "isValidUsd (ev_cost (validSpendEvidence w)) \<longleftrightarrow> ev_cost (validSpendEvidence w) \<noteq> JUndef"
  by (auto simp: validSpendEvidence_def isValidUsd_def isValidTokensValue_def)

lemma sane_cost_nonneg: "ev_cost (validSpendEvidence w) \<noteq> JUndef \<Longrightarrow> 0 \<le> fin_val (num_of (ev_cost (validSpendEvidence w)))"
  using sane_cost [of w] by (auto simp: isValidUsd_iff)

lemma counted_usage_iff: "counted_usage e = Some u \<Longrightarrow> real_usage (ev_usage e) \<and> valid_usage u"
  by (auto simp: counted_usage_def assertValidUsage_ok split: if_splits sum.splits)

lemma counted_usage_real: "real_usage (ev_usage e) \<Longrightarrow> \<exists>u. counted_usage e = Some u"
  by (auto simp: counted_usage_def real_usage_def split: sum.splits)

lemma usage_of_real: "usage_of e \<noteq> [] \<longleftrightarrow> real_usage (ev_usage e)"
  using counted_usage_iff [of e] counted_usage_real [of e] by (cases "counted_usage e") (auto simp: usage_of_def)

lemma valid_addUsage: "valid_usage u \<Longrightarrow> opt_valid m \<Longrightarrow> opt_valid (Some (add_usage_opt m u))"
  by (cases m) (simp_all add: add_usage_opt_def opt_valid_def valid_usage_add)

section \<open>The invariant\<close>

definition live_hold :: "reservation \<Rightarrow> gdisp \<Rightarrow> hold" where
  "live_hold r s = \<lparr>hd_res = r, hd_folded = (case gd_cost s of None \<Rightarrow> 0 | Some c \<Rightarrow> c), hd_priced = (gd_cost s \<noteq> None)\<rparr>"

definition my_hold :: "manifest_job \<times> nat \<Rightarrow> gdisp \<Rightarrow> hold option" where
  "my_hold jn s = job_hold (mj_id (fst jn)) (gd_gov s)"

definition my_request :: "manifest_job \<times> nat \<Rightarrow> gdisp \<Rightarrow> waiter option" where
  "my_request jn s = job_request (mj_id (fst jn)) (gd_gov s)"

definition my_answers :: "manifest_job \<times> nat \<Rightarrow> gdisp \<Rightarrow> reserve_outcome list" where
  "my_answers jn s = job_answers (mj_id (fst jn)) (gd_gov s)"

definition for_job :: "manifest_job \<times> nat \<Rightarrow> reservation \<Rightarrow> bool" where
  "for_job jn r \<longleftrightarrow> rv_job r = mj_id (fst jn) \<and> rv_attempt r = snd jn"

definition opening_line :: "loop_env \<Rightarrow> manifest_job \<times> nat \<Rightarrow> reservation \<Rightarrow> journal_event" where
  "opening_line v jn r = opened_event (le_run v) (mj_op (fst jn)) r"

definition charge_ok :: "gdisp \<Rightarrow> reservation \<Rightarrow> settled \<Rightarrow> bool" where
  "charge_ok s r st \<longleftrightarrow> st_basis st = settle_basis s
     \<and> st_charged st = (case settle_basis s of Observed \<Rightarrow> observed_cost s | Full \<Rightarrow> max (rv_usd r) (observed_cost s))
     \<and> (st_priced st \<longleftrightarrow> observed cost_of s \<noteq> [])"

definition fresh :: "gdisp \<Rightarrow> bool" where
  "fresh s \<longleftrightarrow> gd_reports s = [] \<and> gd_outcome s = None \<and> \<not> gd_closed s \<and> \<not> gd_preserve s \<and> \<not> gd_refused s
     \<and> \<not> gd_unknown s \<and> gd_reservation s = None \<and> gd_charge s = None"

definition window :: "gdisp \<Rightarrow> bool" where
  "window s \<longleftrightarrow> gd_outcome s = None \<and> \<not> gd_closed s \<and> \<not> gd_preserve s \<and> \<not> gd_refused s
     \<and> \<not> gd_unknown s"

text \<open>While the dispatch runs: its hold, folded as far as its own sum, and its write-ahead line.\<close>

definition held :: "loop_env \<Rightarrow> manifest_job \<times> nat \<Rightarrow> gdisp \<Rightarrow> bool" where
  "held v jn s \<longleftrightarrow> my_request jn s = None \<and> gd_charge s = None \<and> gd_slots s = 1
     \<and> (case gd_reservation s of
          None \<Rightarrow> my_hold jn s = None \<and> own_lines v jn s = []
        | Some r \<Rightarrow> my_hold jn s = Some (live_hold r s) \<and> for_job jn r \<and> own_lines v jn s = [opening_line v jn r])"

definition parked :: "manifest_job \<times> nat \<Rightarrow> nat \<Rightarrow> gdisp \<Rightarrow> bool" where
  "parked jn n s \<longleftrightarrow>
     (\<exists>w. my_request jn s = Some w \<and> wt_attempt w = snd jn \<and> my_hold jn s = None \<and> length (my_answers jn s) = n)
     \<or> my_request jn s = None
       \<and> (\<exists>as x. my_answers jn s = as @ [x] \<and> length as = n
            \<and> (case x of Reserved r \<Rightarrow> my_hold jn s = Some (new_hold r) \<and> for_job jn r | Tripped \<Rightarrow> my_hold jn s = None))"

definition ledger_closed :: "loop_env \<Rightarrow> manifest_job \<times> nat \<Rightarrow> gdisp \<Rightarrow> bool" where
  "ledger_closed v jn s \<longleftrightarrow> (case gd_charge s of
       None \<Rightarrow> own_lines v jn s = []
     | Some st \<Rightarrow> (\<exists>r. for_job jn r \<and> charge_ok s r st
         \<and> own_lines v jn s = [opening_line v jn r, settled_event (le_run v) r st (gd_usage s)]))"

definition phase_inv :: "loop_env \<Rightarrow> manifest_job \<times> nat \<Rightarrow> gdisp \<Rightarrow> bool" where
  "phase_inv v jn s \<longleftrightarrow> (case gd_phase s of
       SlotWait \<Rightarrow> fresh s \<and> gd_slots s = 0 \<and> my_hold jn s = None \<and> my_request jn s = None \<and> own_lines v jn s = []
     | GateWait n \<Rightarrow> fresh s \<and> gd_slots s = 1 \<and> own_lines v jn s = [] \<and> parked jn n s
     | Opening r \<Rightarrow> fresh s \<and> gd_slots s = 1 \<and> own_lines v jn s = [] \<and> my_request jn s = None
         \<and> my_hold jn s = Some (new_hold r) \<and> for_job jn r
     | Body \<Rightarrow> window s \<and> held v jn s
     | SettleWrite res \<Rightarrow> gd_slots s = 1 \<and> my_request jn s = None \<and> my_hold jn s = None
         \<and> (\<exists>r st. gd_reservation s = Some r \<and> gd_charge s = Some st \<and> for_job jn r \<and> charge_ok s r st
              \<and> own_lines v jn s = [opening_line v jn r])
     | Ended r \<Rightarrow> gd_slots s = 0 \<and> my_request jn s = None \<and> my_hold jn s = None \<and> ledger_closed v jn s
     | Broken \<Rightarrow> gd_slots s = 0 \<and> my_request jn s = None \<and> my_hold jn s = None
         \<and> (ledger_closed v jn s \<or> (\<exists>r. for_job jn r \<and> own_lines v jn s = [opening_line v jn r]))
     | _ \<Rightarrow> window s \<and> held v jn s \<and> gd_reports s = [])"

text \<open>A refusal by a guard leaves nothing observed; the evidence window closes with the outcome.\<close>

definition refusal_ok :: "gdisp \<Rightarrow> bool" where
  "refusal_ok s \<longleftrightarrow> (gd_refused s \<longrightarrow> gd_outcome s = Some Killed \<or> gd_reports s = [] \<and> returned_evidence s = None \<and> \<not> gd_unknown s)
     \<and> (gd_outcome s \<noteq> None \<longrightarrow> gd_closed s)"

definition disp_inv :: "loop_env \<Rightarrow> manifest_job \<times> nat \<Rightarrow> gdisp \<Rightarrow> bool" where
  "disp_inv v jn s \<longleftrightarrow> gov_inv (gd_gov s) \<and> sums_ok s \<and> refusal_ok s \<and> phase_inv v jn s"

lemma disp_invD:
  assumes "disp_inv v jn s"
  shows "gov_inv (gd_gov s)" "sums_ok s" "refusal_ok s" "phase_inv v jn s"
  using assms by (simp_all add: disp_inv_def)

section \<open>The environment\<close>

text \<open>What depends on the local fields only.\<close>

lemma local_cong:
  assumes "gd_reports t = gd_reports s" "gd_outcome t = gd_outcome s"
  shows "reported f t = reported f s" "returned_evidence t = returned_evidence s" "observed f t = observed f s"
    "observed_cost t = observed_cost s"
  using assms by (simp_all add: reported_def returned_evidence_def observed_def observed_cost_def)

lemma sums_cong:
  assumes "gd_reports t = gd_reports s" "gd_outcome t = gd_outcome s" "gd_cost t = gd_cost s" "gd_usage t = gd_usage s"
    "gd_reportedCost t = gd_reportedCost s" "gd_reportedUsage t = gd_reportedUsage s"
  shows "sums_ok t = sums_ok s"
  by (simp add: sums_ok_def local_cong [OF assms(1,2)] assms(3-6))

lemma refusal_cong:
  assumes "gd_reports t = gd_reports s" "gd_outcome t = gd_outcome s" "gd_refused t = gd_refused s"
    "gd_closed t = gd_closed s" "gd_unknown t = gd_unknown s"
  shows "refusal_ok t = refusal_ok s"
  by (simp add: refusal_ok_def local_cong [OF assms(1,2)] assms)

definition reframe :: "governor \<Rightarrow> journal_event list \<Rightarrow> bool \<Rightarrow> bool \<Rightarrow> gdisp \<Rightarrow> gdisp" where
  "reframe g evs f a s = s\<lparr>gd_gov := g, gd_journal := evs, gd_failed := f, gd_aborted := a\<rparr>"

lemma reframe_simps [simp]:
  "gd_phase (reframe g evs f a s) = gd_phase s" "gd_gov (reframe g evs f a s) = g"
  "gd_journal (reframe g evs f a s) = evs" "gd_slots (reframe g evs f a s) = gd_slots s"
  "gd_usage (reframe g evs f a s) = gd_usage s" "gd_cost (reframe g evs f a s) = gd_cost s"
  "gd_reportedUsage (reframe g evs f a s) = gd_reportedUsage s"
  "gd_reportedCost (reframe g evs f a s) = gd_reportedCost s"
  "gd_reservation (reframe g evs f a s) = gd_reservation s" "gd_preserve (reframe g evs f a s) = gd_preserve s"
  "gd_charge (reframe g evs f a s) = gd_charge s" "gd_outcome (reframe g evs f a s) = gd_outcome s"
  "gd_unknown (reframe g evs f a s) = gd_unknown s" "gd_closed (reframe g evs f a s) = gd_closed s"
  "gd_refused (reframe g evs f a s) = gd_refused s" "gd_reports (reframe g evs f a s) = gd_reports s"
  "gd_failed (reframe g evs f a s) = f"
  by (simp_all add: reframe_def)

lemma reframe_local [simp]:
  "reported h (reframe g evs f a s) = reported h s" "returned_evidence (reframe g evs f a s) = returned_evidence s"
  "observed h (reframe g evs f a s) = observed h s" "observed_cost (reframe g evs f a s) = observed_cost s"
  by (rule local_cong; simp)+

lemma reframe_preds [simp]:
  "sums_ok (reframe g evs f a s) = sums_ok s" "refusal_ok (reframe g evs f a s) = refusal_ok s"
  "settle_basis (reframe g evs f a s) = settle_basis s" "fresh (reframe g evs f a s) = fresh s"
  "window (reframe g evs f a s) = window s" "live_hold r (reframe g evs f a s) = live_hold r s"
  "charge_ok (reframe g evs f a s) r st = charge_ok s r st"
  by (simp_all add: sums_ok_def refusal_ok_def settle_basis_def fresh_def window_def live_hold_def charge_ok_def
      cong: option.case_cong ladder_outcome.case_cong charge_basis.case_cong)

lemma env_frame:
  assumes inv: "disp_inv v jn s" and g: "gov_inv g" and mv: "moved (mj_id (fst jn)) (gd_gov s) g"
    and ln: "filter (own_line v jn) evs = own_lines v jn s"
  shows "disp_inv v jn (reframe g evs f a s)"
proof -
  let ?t = "reframe g evs f a s" and ?j = "mj_id (fst jn)"
  have lines: "own_lines v jn ?t = own_lines v jn s" using ln by (simp add: own_lines_def)
  have side: "my_hold jn ?t = my_hold jn s \<and> my_request jn ?t = None \<and> my_answers jn ?t = my_answers jn s"
    if "my_request jn s = None"
    using moved_idle [OF mv] that by (simp add: my_hold_def my_request_def my_answers_def job_side_def)
  have park: "parked jn n ?t" if p: "parked jn n s" for n
  proof (cases "my_request jn s")
    case None
    with side p show ?thesis by (simp add: parked_def cong: reserve_outcome.case_cong)
  next
    case (Some w)
    then have r: "job_request ?j (gd_gov s) = Some w" by (simp add: my_request_def)
    have old: "wt_attempt w = snd jn" "job_hold ?j (gd_gov s) = None" "length (job_answers ?j (gd_gov s)) = n"
      using p Some by (simp_all add: parked_def my_hold_def my_answers_def)
    show ?thesis
      using mv r old
      by (auto simp: moved_def parked_def job_side_def my_hold_def my_request_def my_answers_def for_job_def)
  qed
  have "phase_inv v jn ?t"
    using disp_invD(4) [OF inv] side park
    by (cases "gd_phase s") (auto simp: phase_inv_def lines held_def ledger_closed_def split: option.split)
  with disp_invD(2,3) [OF inv] g show ?thesis by (simp add: disp_inv_def)
qed

lemma reframe_gov: "s\<lparr>gd_gov := g\<rparr> = reframe g (gd_journal s) (gd_failed s) (gd_aborted s) s"
  by (simp add: reframe_def)

lemma reframe_failing:
  "failing s = reframe (tripSignal (Some ''journal: run stopped'') (gd_gov s)) (gd_journal s) True (gd_aborted s) s"
  by (simp add: reframe_def failing_def)

lemma inv_record: "gov_inv g \<Longrightarrow> gov_inv (record_event e g)"
  by (subst gov_inv_cong [of _ g]) simp_all

lemma moved_record: "moved j g (record_event e g)"
  by (simp add: moved_same)

lemma inv_failing: "disp_inv v jn s \<Longrightarrow> disp_inv v jn (failing s)"
  unfolding reframe_failing
  by (rule env_frame)
    (simp_all add: own_lines_def disp_invD(1) inv_trip tripSignal_def moved_trip gov_invD(2))

lemma env_preserves:
  assumes inv: "disp_inv v jn s" and st: "env_step v jn s t"
  shows "disp_inv v jn t"
  using st
proof (cases rule: env_step.cases)
  case (others c g)
  note g = disp_invD(1) [OF inv]
  show ?thesis
    unfolding others(1) reframe_gov using others
    by (intro env_frame [OF inv] inv_exec [OF g] foreign_moved [OF g]) (simp_all add: own_lines_def)
next
  case (records e)
  show ?thesis
    unfolding records reframe_gov
    by (rule env_frame [OF inv]) (simp_all add: own_lines_def inv_record disp_invD(1) [OF inv] moved_record)
next
  case (lines e)
  have "t = reframe (gd_gov s) (gd_journal s @ [e]) (gd_failed s) (gd_aborted s) s" by (simp add: lines reframe_def)
  then show ?thesis
    using lines(2) env_frame [OF inv disp_invD(1) [OF inv] moved_refl] by (simp add: own_lines_def)
next
  case fails
  with inv_failing [OF inv] show ?thesis by simp
next
  case aborts
  have "t = reframe (gd_gov s) (gd_journal s) (gd_failed s) True s" by (simp add: aborts reframe_def)
  then show ?thesis using env_frame [OF inv disp_invD(1) [OF inv] moved_refl] by (simp add: own_lines_def)
qed

section \<open>Folding evidence\<close>

text \<open>One fold, streamed or returned: ledger and mirror move together.\<close>

lemma observe_fold_ok:
  assumes g: "gov_inv (gd_gov s)" and rq: "my_request jn s = None"
    and e: "e = validSpendEvidence w" and t_def: "t = observe_fold jn e uc cc s"
  shows "gov_inv (gd_gov t)" "my_request jn t = None"
    "my_hold jn s = None \<Longrightarrow> my_hold jn t = None"
    "my_hold jn s = Some (live_hold r s) \<Longrightarrow> my_hold jn t = Some (live_hold r t)"
    "gd_cost t = (if ev_cost e \<noteq> JUndef \<and> \<not> cc
       then Some ((case gd_cost s of None \<Rightarrow> 0 | Some c \<Rightarrow> c) + fin_val (num_of (ev_cost e))) else gd_cost s)"
    "gd_usage t = (if uc then gd_usage s
       else case counted_usage e of None \<Rightarrow> gd_usage s | Some u \<Rightarrow> Some (add_usage_opt (gd_usage s) u))"
    "\<exists>g u c. t = s\<lparr>gd_gov := g, gd_usage := u, gd_cost := c\<rparr>"
proof -
  obtain g' where g': "observeResult (mj_id (fst jn)) e uc cc (gd_gov s) = ok g'"
    using observeResult_total by blast
  then have t: "t = foldIntoJobSums e uc cc (s\<lparr>gd_gov := g'\<rparr>)" by (simp add: t_def observe_fold_def)
  have gov: "gd_gov t = g'" by (auto simp: t foldIntoJobSums_def Let_def split: option.split)
  show "gov_inv (gd_gov t)" unfolding gov by (rule inv_observeResult [OF g g'])
  show cost: "gd_cost t = (if ev_cost e \<noteq> JUndef \<and> \<not> cc
       then Some ((case gd_cost s of None \<Rightarrow> 0 | Some c \<Rightarrow> c) + fin_val (num_of (ev_cost e))) else gd_cost s)"
    by (cases "counted_usage e") (simp_all add: t foldIntoJobSums_def Let_def)
  show "gd_usage t = (if uc then gd_usage s
       else case counted_usage e of None \<Rightarrow> gd_usage s | Some u \<Rightarrow> Some (add_usage_opt (gd_usage s) u))"
    by (cases "counted_usage e") (simp_all add: t foldIntoJobSums_def Let_def)
  show "\<exists>g u c. t = s\<lparr>gd_gov := g, gd_usage := u, gd_cost := c\<rparr>"
    by (rule exI [of _ g'], rule exI [of _ "gd_usage t"], rule exI [of _ "gd_cost t"], cases "counted_usage e")
      (simp_all add: t foldIntoJobSums_def Let_def)
  have side: "job_side (mj_id (fst jn)) g' =
     (if ev_cost e \<noteq> JUndef \<and> \<not> cc
      then (map_option (\<lambda>h. h\<lparr>hd_folded := hd_folded h + fin_val (num_of (ev_cost e)), hd_priced := True\<rparr>)
              (job_hold (mj_id (fst jn)) (gd_gov s)), None, job_answers (mj_id (fst jn)) (gd_gov s))
      else job_side (mj_id (fst jn)) (gd_gov s))"
    using own_observe [OF g g'] rq sane_cost [of w] by (simp add: my_request_def e)
  then show "my_request jn t = None"
    using rq by (simp add: my_request_def gov job_side_def split: if_splits)
  show "my_hold jn s = None \<Longrightarrow> my_hold jn t = None"
    using side by (simp add: my_hold_def gov job_side_def split: if_splits)
  show "my_hold jn s = Some (live_hold r s) \<Longrightarrow> my_hold jn t = Some (live_hold r t)"
    using side cost
    by (cases "ev_cost e \<noteq> JUndef \<and> \<not> cc") (simp_all add: my_hold_def gov job_side_def live_hold_def)
qed

lemma reported_snoc: "reported f (s\<lparr>gd_reports := gd_reports s @ [e]\<rparr>) = reported f s @ f e"
  by (simp add: reported_def)

lemma inv_report:
  assumes inv: "disp_inv v jn s" and ph: "gd_phase s = Body \<or> gd_closed s"
  shows "disp_inv v jn (onResult jn raw s)"
proof (cases "gd_closed s")
  case True
  with inv show ?thesis by (simp add: onResult_def)
next
  case open_w: False
  with ph have body: "gd_phase s = Body" by simp
  then have w: "window s" "held v jn s" using disp_invD(4) [OF inv] by (simp_all add: phase_inv_def)
  define e where "e = validSpendEvidence raw"
  define s1 where "s1 = s\<lparr>gd_reportedUsage := gd_reportedUsage s \<or> real_usage (ev_usage e),
      gd_reportedCost := gd_reportedCost s \<or> ev_cost e \<noteq> JUndef, gd_reports := gd_reports s @ [e]\<rparr>"
  define t where "t = observe_fold jn e False False s1"
  have t: "onResult jn raw s = t" using open_w by (simp add: onResult_def t_def s1_def e_def Let_def)
  have pre: "gov_inv (gd_gov s1)" "my_request jn s1 = None"
    using disp_invD(1) [OF inv] w(2) by (simp_all add: s1_def held_def my_request_def)
  note f = observe_fold_ok [OF pre e_def t_def]
  from f(7) obtain g u c where tt: "t = s1\<lparr>gd_gov := g, gd_usage := u, gd_cost := c\<rparr>" by blast
  have same: "gd_phase t = gd_phase s" "gd_outcome t = None" "gd_closed t = gd_closed s" "gd_preserve t = gd_preserve s"
    "gd_refused t = gd_refused s" "gd_unknown t = gd_unknown s" "gd_reservation t = gd_reservation s" "gd_charge t = gd_charge s"
    "gd_slots t = gd_slots s" "own_lines v jn t = own_lines v jn s" "gd_reports t = gd_reports s @ [e]"
    "gd_reportedCost t = (gd_reportedCost s \<or> ev_cost e \<noteq> JUndef)"
    "gd_reportedUsage t = (gd_reportedUsage s \<or> real_usage (ev_usage e))"
    using w(1) by (simp_all add: tt s1_def own_lines_def window_def)
  have rep: "reported h t = reported h s @ h e" "returned_evidence t = None" "returned_evidence s = None" for h
    using w(1) same by (simp_all add: reported_def returned_evidence_def window_def)
  have ob: "observed h t = reported h s @ h e" "observed h s = reported h s" for h
    by (simp_all add: observed_def rep)
  have old: "gd_cost s = sum_opt (reported cost_of s)" "gd_usage s = sum_usage (reported usage_of s)"
    "gd_reportedCost s \<longleftrightarrow> reported cost_of s \<noteq> []" "gd_reportedUsage s \<longleftrightarrow> reported usage_of s \<noteq> []"
    "opt_valid (gd_usage s)" using disp_invD(2) [OF inv] unfolding sums_ok_def ob by blast+
  have "gd_cost t = sum_opt (reported cost_of s @ cost_of e)"
    using f(5) old(1) by (simp add: s1_def cost_of_def sum_opt_snoc)
  moreover have "gd_usage t = sum_usage (reported usage_of s @ usage_of e) \<and> opt_valid (gd_usage t)"
    using f(6) old(2,5) valid_addUsage counted_usage_iff [of e]
    by (cases "counted_usage e") (simp_all add: s1_def usage_of_def sum_usage_snoc)
  ultimately have "sums_ok t"
    using old(3,4) usage_of_real [of e] by (auto simp: sums_ok_def ob rep(1) same cost_of_def)
  moreover have "held v jn t"
    using w(2) f(2-4) by (auto simp: held_def same s1_def my_hold_def live_hold_def split: option.splits)
  moreover have "window t" using w(1) by (simp add: window_def same)
  moreover have "refusal_ok t" using w(1) by (simp add: refusal_ok_def same window_def)
  ultimately show ?thesis using f(1) body by (simp add: t disp_inv_def phase_inv_def same)
qed

section \<open>Winding up\<close>

text \<open>What holds when the \<open>finally\<close> block starts.\<close>

definition finishing :: "loop_env \<Rightarrow> manifest_job \<times> nat \<Rightarrow> op_result option \<Rightarrow> gdisp \<Rightarrow> bool" where
  "finishing v jn res s \<longleftrightarrow> gov_inv (gd_gov s) \<and> sums_ok s \<and> refusal_ok s \<and> held v jn s
     \<and> (gd_preserve s \<longrightarrow> res = None)"

lemma conclude_simps [simp]:
  "gd_gov (conclude res s) = gd_gov s" "gd_slots (conclude res s) = gd_slots s - 1"
  "gd_phase (conclude res s) = (case res of Some r \<Rightarrow> Ended r | None \<Rightarrow> Broken)"
  "gd_journal (conclude res s) = gd_journal s" "gd_charge (conclude res s) = gd_charge s"
  "gd_usage (conclude res s) = gd_usage s" "gd_cost (conclude res s) = gd_cost s"
  "gd_outcome (conclude res s) = gd_outcome s" "gd_reports (conclude res s) = gd_reports s"
  "gd_refused (conclude res s) = gd_refused s" "gd_closed (conclude res s) = gd_closed s" "gd_unknown (conclude res s) = gd_unknown s"
  "gd_reportedCost (conclude res s) = gd_reportedCost s" "gd_reportedUsage (conclude res s) = gd_reportedUsage s"
  by (simp_all add: conclude_def)

lemma conclude_preds [simp]:
  "sums_ok (conclude res s) = sums_ok s" "refusal_ok (conclude res s) = refusal_ok s"
  "my_hold jn (conclude res s) = my_hold jn s" "my_request jn (conclude res s) = my_request jn s"
  "own_lines v jn (conclude res s) = own_lines v jn s" "charge_ok (conclude res s) r st = charge_ok s r st"
  by (simp_all add: sums_ok_def refusal_ok_def my_hold_def my_request_def own_lines_def charge_ok_def settle_basis_def
      local_cong [of "conclude res s" s] cong: option.case_cong ladder_outcome.case_cong charge_basis.case_cong)

lemma charge_of_live:
  assumes "sums_ok s"
  shows "charge_of b (live_hold r s)
       = (case b of Observed \<Rightarrow> observed_cost s | Full \<Rightarrow> max (rv_usd r) (observed_cost s))"
    "hd_priced (live_hold r s) \<longleftrightarrow> observed cost_of s \<noteq> []" "hd_res (live_hold r s) = r"
  using assms
  by (simp_all add: charge_of_def live_hold_def sums_ok_def sum_opt_def observed_cost_def split: charge_basis.split)

lemma finally_inv:
  assumes f: "finishing v jn res s"
  shows "disp_inv v jn (finally_dispatch res s)"
proof -
  have g: "gov_inv (gd_gov s)" and sums: "sums_ok s" and ref: "refusal_ok s" and h: "held v jn s"
    and p: "gd_preserve s \<longrightarrow> res = None" using f by (simp_all add: finishing_def)
  have rq: "my_request jn s = None" and ch: "gd_charge s = None" and sl: "gd_slots s = 1"
    using h by (simp_all add: held_def)
  show ?thesis
  proof (cases "gd_reservation s")
    case None
    with h have "my_hold jn s = None" "own_lines v jn s = []" by (simp_all add: held_def)
    with None g sums ref rq ch sl show ?thesis
      by (simp add: finally_dispatch_def disp_inv_def phase_inv_def ledger_closed_def split: option.split)
  next
    case (Some r)
    with h have hold: "my_hold jn s = Some (live_hold r s)" and fj: "for_job jn r"
      and ln: "own_lines v jn s = [opening_line v jn r]" by (simp_all add: held_def)
    have hold': "job_hold (mj_id (fst jn)) (gd_gov s) = Some (live_hold r s)"
      and rq': "job_request (mj_id (fst jn)) (gd_gov s) = None"
      using hold rq by (simp_all add: my_hold_def my_request_def)
    show ?thesis
    proof (cases "gd_preserve s")
      case True
      with p have res: "res = None" by simp
      obtain g' where g': "abandonReservation r (gd_gov s) = ok g'"
        "job_side (mj_id (fst jn)) g' = (None, None, job_answers (mj_id (fst jn)) (gd_gov s))"
        using own_abandon [OF g hold' rq'] by (auto simp: charge_of_live(3) [OF sums])
      have "finally_dispatch res s = conclude None (s\<lparr>gd_gov := g', gd_reservation := None\<rparr>)"
        by (simp add: finally_dispatch_def Some True g'(1) res)
      moreover have "gov_inv g'" by (rule inv_abandon [OF g g'(1)])
      moreover have "sums_ok (s\<lparr>gd_gov := g', gd_reservation := None\<rparr>)"
        "refusal_ok (s\<lparr>gd_gov := g', gd_reservation := None\<rparr>)"
        by (subst sums_cong [of _ s]; simp add: sums) (subst refusal_cong [of _ s]; simp add: ref)
      ultimately show ?thesis
        using g'(2) sl fj ln
        by (auto simp: disp_inv_def phase_inv_def my_hold_def my_request_def job_side_def own_lines_def)
    next
      case False
      let ?b = "settle_basis s"
      obtain g' where g': "settle r ?b None (gd_gov s)
          = ok (g', \<lparr>st_charged = charge_of ?b (live_hold r s), st_basis = ?b, st_priced = hd_priced (live_hold r s)\<rparr>)"
        "job_side (mj_id (fst jn)) g' = (None, None, job_answers (mj_id (fst jn)) (gd_gov s))"
        using own_settle [OF g hold' rq', of ?b] by (auto simp: charge_of_live(3) [OF sums])
      have us: "settle r ?b (map_option raw_of_usage (gd_usage s)) (gd_gov s) = settle r ?b None (gd_gov s)"
      proof -
        have "opt_valid (gd_usage s)" using sums unfolding sums_ok_def by blast
        then show ?thesis by (cases "gd_usage s") (simp_all add: opt_valid_def settle_usage)
      qed
      let ?st = "\<lparr>st_charged = charge_of ?b (live_hold r s), st_basis = ?b, st_priced = hd_priced (live_hold r s)\<rparr>"
      let ?t = "s\<lparr>gd_gov := g', gd_charge := Some ?st, gd_phase := SettleWrite res\<rparr>"
      have t: "finally_dispatch res s = ?t"
        by (simp add: finally_dispatch_def Some False us g'(1))
      have loc: "observed_cost ?t = observed_cost s" "observed cost_of ?t = observed cost_of s"
        by (rule local_cong; simp)+
      have basis: "settle_basis ?t = ?b" by (simp add: settle_basis_def cong: option.case_cong ladder_outcome.case_cong)
      have "charge_ok ?t r ?st" unfolding charge_ok_def basis loc using charge_of_live [OF sums] by simp
      moreover have "sums_ok ?t" "refusal_ok ?t" by (subst sums_cong [of _ s]; simp add: sums) (subst refusal_cong [of _ s]; simp add: ref)
      moreover have "gov_inv g'" by (rule inv_settle [OF g g'(1)])
      ultimately show ?thesis
        unfolding t using g'(2) sl fj ln Some
        by (auto simp: disp_inv_def phase_inv_def my_hold_def my_request_def job_side_def own_lines_def)
    qed
  qed
qed

text \<open>The ladder ends a dispatch that was preparing or in its body.\<close>

definition running :: "loop_env \<Rightarrow> manifest_job \<times> nat \<Rightarrow> gdisp \<Rightarrow> bool" where
  "running v jn s \<longleftrightarrow> gov_inv (gd_gov s) \<and> sums_ok s \<and> held v jn s \<and> gd_outcome s = None"

lemma finishing_cong:
  assumes "gov_inv (gd_gov t)" "sums_ok t" "refusal_ok t" "held v jn t" "\<not> gd_preserve t"
  shows "disp_inv v jn (finally_dispatch res t)"
  by (rule finally_inv) (use assms in \<open>simp add: finishing_def\<close>)

lemma held_note: "held v jn s \<Longrightarrow> held v jn (completed_note jn st s)"
proof -
  assume h: "held v jn s"
  have "job_side (mj_id (fst jn)) (gd_gov (completed_note jn st s)) = job_side (mj_id (fst jn)) (gd_gov s)"
    by (simp add: completed_note_def)
  then show ?thesis
    using h by (simp add: held_def my_request_def my_hold_def job_side_def completed_note_def own_lines_def
        live_hold_def cong: option.case_cong)
qed

lemma note_simps [simp]:
  "gd_outcome (completed_note jn st s) = gd_outcome s" "gd_reports (completed_note jn st s) = gd_reports s"
  "gd_preserve (completed_note jn st s) = gd_preserve s" "gd_refused (completed_note jn st s) = gd_refused s"
  "gd_failed (completed_note jn st s) = gd_failed s" "gd_cost (completed_note jn st s) = gd_cost s"
  "gd_usage (completed_note jn st s) = gd_usage s" "gd_closed (completed_note jn st s) = gd_closed s" "gd_unknown (completed_note jn st s) = gd_unknown s"
  "gd_reportedCost (completed_note jn st s) = gd_reportedCost s"
  "gd_reportedUsage (completed_note jn st s) = gd_reportedUsage s"
  by (simp_all add: completed_note_def)

lemma closing_held:
  assumes "held v jn s"
  shows "held v jn (s\<lparr>gd_outcome := oc, gd_closed := c\<rparr>)"
  using assms by (simp add: held_def my_request_def my_hold_def own_lines_def live_hold_def cong: option.case_cong)

lemma returned_inv:
  assumes run: "running v jn s" and np: "\<not> gd_preserve s"
    and ref: "gd_refused s \<longrightarrow> gd_reports s = [] \<and> status r \<noteq> Ok_st \<and> \<not> gd_unknown s"
  shows "disp_inv v jn (ladder_ended jn (Completed r) s)"
proof -
  define s1 where "s1 = completed_note jn (Verdict (status r)) (s\<lparr>gd_outcome := Some (Completed r), gd_closed := True\<rparr>)"
  have run': "gov_inv (gd_gov s)" "sums_ok s" "held v jn s" "gd_outcome s = None" using run by (simp_all add: running_def)
  have h1: "held v jn s1" unfolding s1_def by (intro held_note closing_held run')
  have g1: "gov_inv (gd_gov s1)" using run'(1) inv_record by (simp add: s1_def completed_note_def)
  have rep: "reported f s1 = reported f s" "observed f s = reported f s" for f
    using run'(4) by (simp_all add: reported_def s1_def observed_def returned_evidence_def)
  have rv: "returned_evidence s1 = (case r of ROk val \<Rightarrow> map_option validSpendEvidence (workerResultOfValue val) | _ \<Rightarrow> None)"
    by (simp add: returned_evidence_def s1_def)
  have flags: "gd_reportedCost s1 \<longleftrightarrow> reported cost_of s \<noteq> []" "gd_reportedUsage s1 \<longleftrightarrow> reported usage_of s \<noteq> []"
    "gd_cost s1 = sum_opt (reported cost_of s)" "gd_usage s1 = sum_usage (reported usage_of s)" "opt_valid (gd_usage s1)"
  proof -
    have f: "gd_reportedCost s1 = gd_reportedCost s" "gd_reportedUsage s1 = gd_reportedUsage s"
      "gd_cost s1 = gd_cost s" "gd_usage s1 = gd_usage s" by (simp_all add: s1_def)
    show "gd_reportedCost s1 \<longleftrightarrow> reported cost_of s \<noteq> []" "gd_reportedUsage s1 \<longleftrightarrow> reported usage_of s \<noteq> []"
      "gd_cost s1 = sum_opt (reported cost_of s)" "gd_usage s1 = sum_usage (reported usage_of s)" "opt_valid (gd_usage s1)"
      using run'(2) unfolding sums_ok_def rep(2) f by blast+
  qed
  have ended: "ladder_ended jn (Completed r) s = finally_dispatch (Some r) (fold_returned jn r s1)"
    by (simp add: ladder_ended_def interpretOutcome_def s1_def)
  show ?thesis
  proof (cases "returned_evidence s1")
    case None
    have same: "fold_returned jn r s1 = s1"
      using None rv by (auto simp: fold_returned_def split: op_result.splits option.splits)
    have ob: "observed f s1 = reported f s" for f by (simp add: observed_def rep None)
    have "sums_ok s1" using flags unfolding sums_ok_def rep(1) ob by blast
    moreover have "refusal_ok s1" using ref None by (simp add: refusal_ok_def s1_def)
    ultimately show ?thesis
      unfolding ended same using g1 h1 np by (intro finishing_cong) (simp_all add: s1_def)
  next
    case (Some e)
    then obtain val w where val: "r = ROk val" "workerResultOfValue val = Some w" "e = validSpendEvidence w"
      using rv by (auto split: op_result.splits)
    define t where "t = observe_fold jn e (gd_reportedUsage s1) (gd_reportedCost s1) s1"
    have fold: "fold_returned jn r s1 = t" by (simp add: fold_returned_def val t_def)
    have rq: "my_request jn s1 = None" using h1 by (simp add: held_def)
    note f = observe_fold_ok [OF g1 rq val(3) t_def]
    from f(7) obtain g u c where tt: "t = s1\<lparr>gd_gov := g, gd_usage := u, gd_cost := c\<rparr>" by blast
    have loc: "reported h t = reported h s" "returned_evidence t = Some e" for h
      using Some rep(1) by (simp_all add: tt reported_def returned_evidence_def)
    have fl: "gd_reportedCost t = gd_reportedCost s1" "gd_reportedUsage t = gd_reportedUsage s1"
      "gd_refused t = gd_refused s" "gd_preserve t = gd_preserve s" "gd_outcome t = Some (Completed r)" "gd_closed t"
      by (simp_all add: tt s1_def)
    have ob: "observed h t = (if reported h s \<noteq> [] then reported h s else h e)" for h
      by (simp add: observed_def loc)
    have cost: "gd_cost t = sum_opt (observed cost_of t)"
      using f(5) flags(1,3) by (simp add: ob cost_of_def)
    have "gd_usage t = sum_usage (observed usage_of t) \<and> opt_valid (gd_usage t)"
      using f(6) flags(2,4,5) counted_usage_iff [of e]
      by (cases "counted_usage e")
        (auto simp: ob usage_of_def add_usage_opt_def opt_valid_def split: if_splits)
    with cost have "sums_ok t" using flags(1,2) unfolding sums_ok_def loc(1) fl by blast
    moreover have "held v jn t"
      using h1 f(2-4) by (auto simp: held_def tt own_lines_def my_hold_def live_hold_def split: option.splits)
    moreover have "refusal_ok t" using ref val(1) fl(3,6) by (simp add: refusal_ok_def)
    ultimately show ?thesis
      unfolding ended fold using f(1) np fl(4) by (intro finishing_cong) simp_all
  qed
qed

lemma unreturned_inv:
  assumes run: "running v jn s" and out: "out = Killed \<or> (\<exists>e. out = ThrewOutcome e)"
    and ref: "gd_refused s \<longrightarrow> gd_reports s = [] \<and> \<not> gd_unknown s" and p: "gd_preserve s \<longrightarrow> out \<noteq> Killed \<and> gd_failed s"
  shows "disp_inv v jn (ladder_ended jn out s)"
proof -
  have run': "gov_inv (gd_gov s)" "sums_ok s" "held v jn s" "gd_outcome s = None" using run by (simp_all add: running_def)
  define s1 where "s1 d st = completed_note jn st (s\<lparr>gd_outcome := Some out, gd_closed := True, gd_detached := d\<rparr>)" for d st
  have det: "held v jn (t\<lparr>gd_detached := d\<rparr>) = held v jn t" for t d
    by (simp add: held_def my_request_def my_hold_def own_lines_def live_hold_def cong: option.case_cong)
  have h: "held v jn (s1 d st)" for d st
    unfolding s1_def using closing_held [OF run'(3), where oc = "Some out" and c = True] by (intro held_note) (simp add: det)
  have ev: "returned_evidence (s1 d st) = None" "returned_evidence s = None" for d st
    using out run'(4) by (auto simp: returned_evidence_def s1_def)
  have fl: "gd_reports (s1 d st) = gd_reports s" "gd_cost (s1 d st) = gd_cost s" "gd_usage (s1 d st) = gd_usage s"
    "gd_reportedCost (s1 d st) = gd_reportedCost s" "gd_reportedUsage (s1 d st) = gd_reportedUsage s" for d st
    by (simp_all add: s1_def)
  have ob: "observed f (s1 d st) = observed f s" "reported f (s1 d st) = reported f s" for f d st
    by (simp_all add: observed_def ev reported_def fl)
  have sums: "sums_ok (s1 d st)" for d st using run'(2) unfolding sums_ok_def ob fl .
  have g: "gov_inv (gd_gov (s1 d st))" for d st using run'(1) inv_record by (simp add: s1_def completed_note_def)
  have rf: "refusal_ok (s1 d st)" for d st using ref ev by (auto simp: refusal_ok_def s1_def)
  have fin: "disp_inv v jn (finally_dispatch res (s1 d st))" if "gd_preserve s \<longrightarrow> res = None" for res d st
    by (rule finally_inv) (use that g sums rf h in \<open>simp add: finishing_def s1_def\<close>)
  from out show ?thesis
  proof
    assume k: "out = Killed"
    then have "ladder_ended jn out s = finally_dispatch (Some RBudgetExhausted) (s1 True (Verdict BudgetExhausted_st))"
      by (simp add: ladder_ended_def interpretOutcome_def s1_def)
    with fin p k show ?thesis by simp
  next
    assume "\<exists>e. out = ThrewOutcome e"
    then obtain e where e: "out = ThrewOutcome e" ..
    have "s1 (gd_detached s) Threw_st = completed_note jn Threw_st (s\<lparr>gd_outcome := Some out, gd_closed := True\<rparr>)"
      by (simp add: s1_def)
    then have "ladder_ended jn out s
        = finally_dispatch (if gd_failed s then None else Some (RFailed e)) (s1 (gd_detached s) Threw_st)"
      using e by (simp add: ladder_ended_def interpretOutcome_def)
    moreover have "gd_preserve s \<longrightarrow> (if gd_failed s then None else Some (RFailed e)) = None" using p by simp
    ultimately show ?thesis using fin by simp
  qed
qed

section \<open>The gate, the fence and the guards\<close>

definition unopened :: "loop_env \<Rightarrow> manifest_job \<times> nat \<Rightarrow> gdisp \<Rightarrow> bool" where
  "unopened v jn s \<longleftrightarrow> gov_inv (gd_gov s) \<and> sums_ok s \<and> fresh s \<and> gd_slots s = 1 \<and> my_hold jn s = None
     \<and> my_request jn s = None \<and> own_lines v jn s = []"

lemma unopened_finally: "unopened v jn s \<Longrightarrow> disp_inv v jn (finally_dispatch res s)"
  by (rule finally_inv) (simp add: finishing_def unopened_def fresh_def refusal_ok_def held_def)

lemma gov_sums [simp]: "sums_ok (s\<lparr>gd_gov := g\<rparr>) = sums_ok s" "fresh (s\<lparr>gd_gov := g\<rparr>) = fresh s"
    "own_lines v jn (s\<lparr>gd_gov := g\<rparr>) = own_lines v jn s"
  by (rule sums_cong) (simp_all add: fresh_def own_lines_def)

lemma unopened_gov:
  "unopened v jn s \<Longrightarrow> gov_inv g \<Longrightarrow> job_side (mj_id (fst jn)) g = job_side (mj_id (fst jn)) (gd_gov s)
   \<Longrightarrow> unopened v jn (s\<lparr>gd_gov := g\<rparr>)"
  by (simp add: unopened_def my_hold_def my_request_def job_side_def)

lemma refuse_inv:
  assumes "unopened v jn s"
  shows "disp_inv v jn (refuse_queued jn s)"
proof -
  have g: "gov_inv (gd_gov s)" using assms by (simp add: unopened_def)
  have "unopened v jn (s\<lparr>gd_gov := record_event e (gd_gov s)\<rparr>)" for e
    by (rule unopened_gov [OF assms inv_record [OF g]]) simp
  then show ?thesis by (simp add: refuse_queued_def queuedRefusal_def unopened_finally)
qed

lemma inv_slot:
  assumes inv: "disp_inv v jn s" and ph: "gd_phase s = SlotWait"
  shows "disp_inv v jn (begin_dispatch v jn s)"
proof -
  define u where "u = s\<lparr>gd_slots := gd_slots s + 1\<rparr>"
  let ?j = "mj_id (fst jn)"
  have p: "fresh s" "gd_slots s = 0" "my_hold jn s = None" "my_request jn s = None" "own_lines v jn s = []"
    using disp_invD(4) [OF inv] ph by (simp_all add: phase_inv_def)
  have g: "gov_inv (gd_gov s)" by (rule disp_invD(1) [OF inv])
  have "sums_ok u" using disp_invD(2) [OF inv] by (subst sums_cong [of _ s]) (simp_all add: u_def)
  then have un: "unopened v jn u"
    using p g by (simp add: unopened_def u_def fresh_def my_hold_def my_request_def own_lines_def)
  have gu: "gd_gov u = gd_gov s" by (simp add: u_def)
  have idle: "idle_job ?j (gd_gov s)"
    using p(3,4) by (simp add: idle_job_side [OF gov_invD(1) [OF g]] my_hold_def my_request_def)
  have to_phase: "disp_inv v jn (u\<lparr>gd_gov := g', gd_phase := ph'\<rparr>)"
    if "gov_inv g'" "(case ph' of Opening r \<Rightarrow> job_side ?j g' = (Some (new_hold r), None, job_answers ?j (gd_gov s)) \<and> for_job jn r
        | GateWait n \<Rightarrow> parked jn n (u\<lparr>gd_gov := g', gd_phase := ph'\<rparr>) | _ \<Rightarrow> False)" for g' ph'
  proof -
    have "sums_ok (u\<lparr>gd_gov := g', gd_phase := ph'\<rparr>)"
      using un by (subst sums_cong [of _ u]) (simp_all add: unopened_def)
    moreover have "refusal_ok (u\<lparr>gd_gov := g', gd_phase := ph'\<rparr>)" "fresh (u\<lparr>gd_gov := g', gd_phase := ph'\<rparr>)"
      "own_lines v jn (u\<lparr>gd_gov := g', gd_phase := ph'\<rparr>) = []" "gd_slots u = 1"
      using un by (simp_all add: unopened_def refusal_ok_def fresh_def own_lines_def)
    ultimately show ?thesis
      using that by (cases ph') (simp_all add: disp_inv_def phase_inv_def my_hold_def my_request_def job_side_def)
  qed
  show ?thesis
  proof (cases "tripped (gd_gov s)")
    case True
    then show ?thesis using refuse_inv [OF un] by (simp add: begin_dispatch_def u_def Let_def)
  next
    case nt: False
    show ?thesis
    proof (cases "capUsd (gd_gov s)")
      case None
      have "sums_ok (u\<lparr>gd_phase := Fencing\<rparr>)" using un by (subst sums_cong [of _ u]) (simp_all add: unopened_def)
      then have "disp_inv v jn (u\<lparr>gd_phase := Fencing\<rparr>)"
        using un by (simp add: disp_inv_def phase_inv_def unopened_def refusal_ok_def fresh_def window_def held_def
            my_hold_def my_request_def own_lines_def)
      with None nt show ?thesis by (simp add: begin_dispatch_def u_def)
    next
      case (Some cap)
      show ?thesis
      proof (cases "classifyDispatch None LANE_CLASSIFICATION")
        case (Inl e)
        with Some nt unopened_finally [OF un] show ?thesis by (simp add: begin_dispatch_def u_def)
      next
        case (Inr cls)
        let ?r = "reserve ?j (snd jn) (Fin (cap / of_nat (le_limit v))) cls (gd_gov s)"
        show ?thesis
        proof (cases ?r)
          case (Inl e)
          with Inr Some nt unopened_finally [OF un] show ?thesis by (simp add: begin_dispatch_def u_def)
        next
          case res: (Inr x)
          obtain g' out where x: "x = (g', out)" by fastforce
          note r = res [unfolded x]
          have g': "gov_inv g'" by (rule inv_reserve [OF g idle r])
          note own = own_reserve [OF g r idle]
          show ?thesis
          proof (cases out)
            case Waiting
            have "parked jn (length (job_answers ?j (gd_gov s)))
               (u\<lparr>gd_gov := g', gd_phase := GateWait (length (job_answers ?j (gd_gov s)))\<rparr>)"
              using own Waiting by (auto simp: parked_def my_hold_def my_request_def my_answers_def job_side_def)
            with to_phase [OF g', of "GateWait (length (job_answers ?j (gd_gov s)))"] Waiting r Inr Some nt
            show ?thesis by (simp add: begin_dispatch_def u_def)
          next
            case (Resolved ro)
            show ?thesis
            proof (cases ro)
              case Tripped
              have "unopened v jn (u\<lparr>gd_gov := g'\<rparr>)"
                using unopened_gov [OF un g'] own Resolved Tripped gu by simp
              from refuse_inv [OF this] Resolved Tripped r Inr Some nt show ?thesis
                by (simp add: begin_dispatch_def u_def)
            next
              case (Reserved rv)
              with own Resolved have "job_side ?j g' = (Some (new_hold rv), None, job_answers ?j (gd_gov s)) \<and> for_job jn rv"
                by (simp add: for_job_def)
              with to_phase [OF g', of "Opening rv"] Resolved Reserved r Inr Some nt show ?thesis
                by (simp add: begin_dispatch_def u_def)
            qed
          qed
        qed
      qed
    qed
  qed
qed

lemma inv_gate:
  assumes inv: "disp_inv v jn s" and ph: "gd_phase s = GateWait n" and n: "n < length (my_answers jn s)"
  shows "disp_inv v jn (gate_answer jn (my_answers jn s ! n) s)"
proof -
  have p: "fresh s" "gd_slots s = 1" "own_lines v jn s = []" "parked jn n s"
    using disp_invD(4) [OF inv] ph by (simp_all add: phase_inv_def)
  with n obtain as x where a: "my_answers jn s = as @ [x]" "length as = n" "my_request jn s = None"
    "case x of Reserved r \<Rightarrow> my_hold jn s = Some (new_hold r) \<and> for_job jn r | Tripped \<Rightarrow> my_hold jn s = None"
    by (auto simp: parked_def)
  then have x: "my_answers jn s ! n = x" by (auto simp: nth_append)
  show ?thesis
  proof (cases x)
    case Tripped
    with a p disp_invD(1,2) [OF inv] have "unopened v jn s" by (simp add: unopened_def)
    with refuse_inv x Tripped show ?thesis by (simp add: gate_answer_def)
  next
    case (Reserved r)
    have "sums_ok (s\<lparr>gd_phase := Opening r\<rparr>)"
      using disp_invD(2) [OF inv] by (subst sums_cong [of _ s]) simp_all
    moreover have "refusal_ok (s\<lparr>gd_phase := Opening r\<rparr>)"
      using disp_invD(3) [OF inv] by (subst refusal_cong [of _ s]) simp_all
    moreover note a p x disp_invD(1) [OF inv]
    ultimately show ?thesis using Reserved
      by (simp add: gate_answer_def disp_inv_def phase_inv_def fresh_def own_lines_def my_hold_def my_request_def)
  qed
qed

lemma local_phase:
  "disp_inv v jn s \<Longrightarrow> phase_inv v jn (s\<lparr>gd_phase := p\<rparr>) \<Longrightarrow> disp_inv v jn (s\<lparr>gd_phase := p\<rparr>)"
proof -
  assume inv: "disp_inv v jn s" and ph: "phase_inv v jn (s\<lparr>gd_phase := p\<rparr>)"
  have "sums_ok (s\<lparr>gd_phase := p\<rparr>)" using disp_invD(2) [OF inv] by (subst sums_cong [of _ s]) simp_all
  moreover have "refusal_ok (s\<lparr>gd_phase := p\<rparr>)" using disp_invD(3) [OF inv] by (subst refusal_cong [of _ s]) simp_all
  ultimately show ?thesis using disp_invD(1) [OF inv] ph by (simp add: disp_inv_def)
qed

lemma held_cong:
  assumes "gd_gov t = gd_gov s" "gd_journal t = gd_journal s" "gd_reservation t = gd_reservation s"
    "gd_charge t = gd_charge s" "gd_slots t = gd_slots s" "gd_cost t = gd_cost s"
  shows "held v jn t = held v jn s"
  by (simp add: held_def my_request_def my_hold_def own_lines_def live_hold_def assms cong: option.case_cong)

lemma inv_open:
  assumes inv: "disp_inv v jn s" and ph: "gd_phase s = Opening r"
  shows "disp_inv v jn (opened v jn r s)" "disp_inv v jn (open_failed r s)"
proof -
  have p: "fresh s" "gd_slots s = 1" "own_lines v jn s = []" "my_request jn s = None"
    "my_hold jn s = Some (new_hold r)" "for_job jn r"
    using disp_invD(4) [OF inv] ph by (simp_all add: phase_inv_def)
  let ?t = "opened v jn r s"
  have cost: "gd_cost s = None"
    using disp_invD(2) [OF inv] p(1)
    by (simp add: sums_ok_def observed_def reported_def returned_evidence_def fresh_def)
  have "held v jn ?t"
    using p cost by (simp add: opened_def held_def my_request_def my_hold_def own_lines_def live_hold_def new_hold_def
        for_job_def opening_line_def opened_event_def fresh_def)
  moreover have "window ?t" "gd_reports ?t = []" "gd_phase ?t = Fencing" "refusal_ok ?t"
    using p(1) by (simp_all add: opened_def window_def fresh_def refusal_ok_def)
  moreover have "sums_ok ?t" using disp_invD(2) [OF inv] by (subst sums_cong [of _ s]) (simp_all add: opened_def)
  ultimately show "disp_inv v jn (opened v jn r s)"
    using disp_invD(1) [OF inv] by (simp add: disp_inv_def phase_inv_def opened_def)
  let ?f = "failing s" and ?j = "mj_id (fst jn)"
  have fi: "disp_inv v jn ?f" by (rule inv_failing [OF inv])
  have q: "my_request jn ?f = None" "my_hold jn ?f = Some (new_hold r)" "fresh ?f" "gd_slots ?f = 1" "own_lines v jn ?f = []"
    using disp_invD(4) [OF fi] ph by (simp_all add: phase_inv_def failing_def)
  note g = disp_invD(1) [OF fi]
  obtain g' where g': "abandonReservation r (gd_gov ?f) = ok g'" "job_side ?j g' = (None, None, job_answers ?j (gd_gov ?f))"
    using own_abandon [OF g, of ?j "new_hold r"] q(1,2) by (auto simp: my_hold_def my_request_def new_hold_def)
  have "unopened v jn (?f\<lparr>gd_gov := g'\<rparr>)"
    using q g'(2) inv_abandon [OF g g'(1)] disp_invD(2) [OF fi]
    by (simp add: unopened_def my_hold_def my_request_def job_side_def)
  from unopened_finally [OF this] g'(1) show "disp_inv v jn (open_failed r s)"
    by (simp add: open_failed_def Let_def)
qed

definition preparing :: "gphase \<Rightarrow> bool" where
  "preparing p \<longleftrightarrow> p \<in> {Fencing, Preparing, GuardFence, Entering}"

lemma preparing_inv:
  assumes "disp_inv v jn s" "preparing (gd_phase s)"
  shows "window s" "held v jn s" "gd_reports s = []" "running v jn s"
proof -
  show "window s" "held v jn s" "gd_reports s = []"
    using disp_invD(4) [OF assms(1)] assms(2) by (auto simp: phase_inv_def preparing_def)
  then show "running v jn s" using disp_invD(1,2) [OF assms(1)] by (simp add: running_def window_def)
qed

lemma running_cong:
  assumes "gov_inv (gd_gov t)" "job_side (mj_id (fst jn)) (gd_gov t) = job_side (mj_id (fst jn)) (gd_gov s)"
    "gd_journal t = gd_journal s" "gd_reservation t = gd_reservation s" "gd_charge t = gd_charge s"
    "gd_slots t = gd_slots s" "gd_cost t = gd_cost s" "gd_usage t = gd_usage s" "gd_reports t = gd_reports s"
    "gd_outcome t = gd_outcome s" "gd_reportedCost t = gd_reportedCost s" "gd_reportedUsage t = gd_reportedUsage s"
    "running v jn s"
  shows "running v jn t"
proof -
  have "sums_ok t = sums_ok s" by (rule sums_cong) (simp_all add: assms)
  moreover have "held v jn t = held v jn s"
    using assms(2) by (simp add: held_def my_request_def my_hold_def own_lines_def live_hold_def job_side_def assms(3-7)
        cong: option.case_cong)
  ultimately show ?thesis using assms(1,10,13) by (simp add: running_def)
qed

lemma inv_guarded:
  assumes inv: "disp_inv v jn s" and ph: "preparing (gd_phase s)"
    and after: "after \<in> {GuardFence, Entering, Body}"
  shows "disp_inv v jn (guarded jn after s)"
proof -
  note p = preparing_inv [OF inv ph]
  have g: "gov_inv (gd_gov s)" by (rule disp_invD(1) [OF inv])
  have w: "\<not> gd_closed s" "\<not> gd_preserve s" "\<not> gd_refused s" "\<not> gd_unknown s" using p(1) by (simp_all add: window_def)
  have run: "running v jn (s\<lparr>gd_gov := record_event e (gd_gov s), gd_refused := True\<rparr>)" for e
    by (rule running_cong [OF _ _ _ _ _ _ _ _ _ _ _ _ p(4)]) (simp_all add: inv_record [OF g])
  have run2: "running v jn (s\<lparr>gd_refused := True\<rparr>)" "running v jn (s\<lparr>gd_preserve := True\<rparr>)"
    by (rule running_cong [OF _ _ _ _ _ _ _ _ _ _ _ _ p(4)]; simp add: g)+
  consider "gd_failed s" | "\<not> gd_failed s" "tripped (gd_gov s)" | "\<not> gd_failed s" "\<not> tripped (gd_gov s)" "gd_aborted s"
    | "\<not> gd_failed s" "\<not> tripped (gd_gov s)" "\<not> gd_aborted s" by blast
  then show ?thesis
  proof cases
    case 1
    then show ?thesis
      using unreturned_inv [OF run2(2), of "ThrewOutcome ''run failed''"] w
      by (simp add: guarded_def invocationPermission_def invocationRefusal_def)
  next
    case 2
    then show ?thesis
      using returned_inv [OF run] w p(3)
      by (simp add: guarded_def invocationPermission_def invocationRefusal_def queuedRefusal_def)
  next
    case 3
    then show ?thesis
      using returned_inv [OF run2(1)] w p(3)
      by (simp add: guarded_def invocationPermission_def invocationRefusal_def)
  next
    case 4
    have "phase_inv v jn (s\<lparr>gd_phase := after\<rparr>)"
      using p(1-3) held_cong [of "s\<lparr>gd_phase := after\<rparr>" s v jn] after by (auto simp: phase_inv_def window_def)
    from local_phase [OF inv this] 4 w show ?thesis
      by (simp add: guarded_def invocationPermission_def invocationRefusal_def)
  qed
qed

lemma inv_fence_lost:
  assumes inv: "disp_inv v jn s" and ph: "preparing (gd_phase s)"
  shows "disp_inv v jn (fence_lost s)" "disp_inv v jn (guard_fence_lost jn s)"
proof -
  let ?f = "failing s" and ?t = "(failing s)\<lparr>gd_preserve := True\<rparr>"
  have fi: "disp_inv v jn ?f" by (rule inv_failing [OF inv])
  have ph': "preparing (gd_phase ?f)" using ph by (simp add: failing_def)
  note p = preparing_inv [OF fi ph']
  have run: "running v jn ?t"
    by (rule running_cong [OF _ _ _ _ _ _ _ _ _ _ _ _ p(4)]) (simp_all add: disp_invD(1) [OF fi])
  have w: "\<not> gd_refused ?f" "gd_reports ?f = []" "gd_failed ?f" "gd_outcome ?f = None"
    "\<not> gd_unknown ?f" using p(1,3) by (simp_all add: window_def failing_def)
  have "finishing v jn None ?t"
    using run w by (simp add: finishing_def running_def refusal_ok_def)
  then show "disp_inv v jn (fence_lost s)" unfolding fence_lost_def by (rule finally_inv)
  show "disp_inv v jn (guard_fence_lost jn s)"
    unfolding guard_fence_lost_def by (rule unreturned_inv [OF run]) (use w in simp_all)
qed

lemma inv_settle_line:
  assumes inv: "disp_inv v jn s" and ph: "gd_phase s = SettleWrite res"
  shows "disp_inv v jn (settle_written v res s)" "disp_inv v jn (settle_unwritten s)"
proof -
  from disp_invD(4) [OF inv] ph obtain r st where
    p: "gd_slots s = 1" "my_request jn s = None" "my_hold jn s = None" "gd_reservation s = Some r"
      "gd_charge s = Some st" "for_job jn r" "charge_ok s r st" "own_lines v jn s = [opening_line v jn r]"
    by (auto simp: phase_inv_def)
  let ?t = "s\<lparr>gd_journal := gd_journal s @ [settled_event (le_run v) r st (gd_usage s)], gd_reservation := None\<rparr>"
  have t: "settle_written v res s = conclude res ?t" using p(4,5) by (simp add: settle_written_def)
  have co: "charge_ok ?t r st = charge_ok s r st"
    by (simp add: charge_ok_def settle_basis_def local_cong [of ?t s]
        cong: option.case_cong ladder_outcome.case_cong charge_basis.case_cong)
  have ln: "own_lines v jn ?t = [opening_line v jn r, settled_event (le_run v) r st (gd_usage s)]"
    using p(6,8) by (simp add: own_lines_def settled_event_def for_job_def)
  have "ledger_closed v jn (conclude res ?t)"
    using p(5,6,7) ln co by (auto simp: ledger_closed_def)
  moreover have "sums_ok ?t" "refusal_ok ?t"
    using disp_invD(2,3) [OF inv] sums_cong [of ?t s] refusal_cong [of ?t s] by simp_all
  moreover have "my_hold jn ?t = None" "my_request jn ?t = None" using p(2,3) by (simp_all add: my_hold_def my_request_def)
  ultimately show "disp_inv v jn (settle_written v res s)"
    unfolding t using p(1) disp_invD(1) [OF inv]
    by (cases res) (simp_all add: disp_inv_def phase_inv_def)
  have fi: "disp_inv v jn (failing s)" by (rule inv_failing [OF inv])
  have q: "gd_slots (failing s) = 1" "my_request jn (failing s) = None" "my_hold jn (failing s) = None"
    "\<exists>r. for_job jn r \<and> own_lines v jn (failing s) = [opening_line v jn r]"
    using disp_invD(4) [OF fi] ph by (auto simp: phase_inv_def failing_def)
  let ?u = "(failing s)\<lparr>gd_reservation := None\<rparr>"
  have "sums_ok ?u" "refusal_ok ?u"
    using disp_invD(2,3) [OF fi] sums_cong [of ?u "failing s"] refusal_cong [of ?u "failing s"] by simp_all
  with q show "disp_inv v jn (settle_unwritten s)"
    using disp_invD(1) [OF fi]
    by (simp add: settle_unwritten_def disp_inv_def phase_inv_def my_hold_def my_request_def own_lines_def)
qed

text \<open>A detached preparation that reaches its guard after the kill changes nothing that is still read.\<close>

lemma inv_late_guard:
  assumes inv: "disp_inv v jn s" and k: "gd_outcome s = Some Killed"
  shows "disp_inv v jn (snd (invocationPermission jn s))"
proof -
  have cl: "gd_closed s" using disp_invD(3) [OF inv] k by (simp add: refusal_ok_def)
  obtain p q where t: "snd (invocationPermission jn s) = s\<lparr>gd_preserve := p, gd_refused := q\<rparr>"
  proof (cases "gd_failed s")
    case True
    then have "snd (invocationPermission jn s) = s\<lparr>gd_preserve := True, gd_refused := gd_refused s\<rparr>"
      by (simp add: invocationPermission_def invocationRefusal_def)
    then show ?thesis by (rule that)
  next
    case False
    then have "snd (invocationPermission jn s) = s\<lparr>gd_preserve := gd_preserve s, gd_refused := True\<rparr>"
      using cl by (simp add: invocationPermission_def invocationRefusal_def)
    then show ?thesis by (rule that)
  qed
  let ?t = "s\<lparr>gd_preserve := p, gd_refused := q\<rparr>"
  have "sums_ok ?t" using disp_invD(2) [OF inv] sums_cong [of ?t s] by simp
  moreover have "refusal_ok ?t" using k cl by (simp add: refusal_ok_def)
  moreover have co: "charge_ok ?t r st = charge_ok s r st" for r st
    by (simp add: charge_ok_def settle_basis_def local_cong [of ?t s] k)
  have "ledger_closed v jn ?t = ledger_closed v jn s"
    by (simp add: ledger_closed_def co own_lines_def cong: option.case_cong)
  then have "phase_inv v jn ?t"
    using disp_invD(4) [OF inv] k
    by (cases "gd_phase s") (auto simp: phase_inv_def fresh_def window_def co my_hold_def my_request_def own_lines_def)
  ultimately show ?thesis unfolding t using disp_invD(1) [OF inv] by (simp add: disp_inv_def)
qed

lemma own_preserves:
  assumes inv: "disp_inv v jn s" and st: "own_step v jn s t"
  shows "disp_inv v jn t"
  using st
proof (cases rule: own_step.cases)
  case slot
  then show ?thesis using inv_slot [OF inv] by simp
next
  case (gate n)
  then show ?thesis using inv_gate [OF inv] by (simp add: my_answers_def)
next
  case (open_ok r)
  then show ?thesis using inv_open [OF inv] by simp
next
  case (open_fails r)
  then show ?thesis using inv_open [OF inv] by simp
next
  case fence_ok
  then have "phase_inv v jn t"
    using preparing_inv [OF inv] held_cong [of t s v jn] by (simp add: preparing_def phase_inv_def window_def)
  with fence_ok local_phase [OF inv] show ?thesis by simp
next
  case fence_fails
  then show ?thesis using inv_fence_lost [OF inv] by (simp add: preparing_def)
next
  case (unprepared msg)
  then have p: "preparing (gd_phase s)" by (simp add: preparing_def)
  show ?thesis
    unfolding unprepared using preparing_inv [OF inv p] by (intro returned_inv) (simp_all add: window_def)
next
  case before_body
  then show ?thesis using inv_guarded [OF inv] by (simp add: preparing_def)
next
  case guard_fence_ok
  then show ?thesis using inv_guarded [OF inv] by (simp add: preparing_def)
next
  case guard_fence_fails
  then show ?thesis using inv_fence_lost [OF inv] by (simp add: preparing_def)
next
  case enter
  then show ?thesis using inv_guarded [OF inv] by (simp add: preparing_def)
next
  case (report raw)
  then show ?thesis using inv_report [OF inv] by simp
next
  case (session link)
  obtain ss where "t = s\<lparr>gd_sessions := ss\<rparr>"
    by (rule that [of "gd_sessions t"]) (auto simp: session onSession_def split: option.split)
  moreover have "settle_basis (s\<lparr>gd_sessions := ss\<rparr>) = settle_basis s"
    by (simp add: settle_basis_def cong: option.case_cong ladder_outcome.case_cong)
  then have co: "charge_ok (s\<lparr>gd_sessions := ss\<rparr>) r st = charge_ok s r st" for r st
    by (simp add: charge_ok_def local_cong [of "s\<lparr>gd_sessions := ss\<rparr>" s] cong: charge_basis.case_cong)
  have "phase_inv v jn (s\<lparr>gd_sessions := ss\<rparr>) = phase_inv v jn s"
    using held_cong [of "s\<lparr>gd_sessions := ss\<rparr>" s v jn]
    by (cases "gd_phase s") (simp_all add: phase_inv_def fresh_def window_def co my_hold_def my_request_def
        my_answers_def own_lines_def parked_def ledger_closed_def cong: option.case_cong reserve_outcome.case_cong)
  ultimately show ?thesis
    using disp_invD [OF inv] sums_cong [of t s] refusal_cong [of t s] by (simp add: disp_inv_def)
next
  case (returned ret)
  have w: "window s" "held v jn s" using disp_invD(4) [OF inv] returned by (simp_all add: phase_inv_def)
  let ?u = "s\<lparr>gd_unknown := ex_unknown (judge_return (mj_op (fst jn)) ret)\<rparr>"
  have "running v jn s" using w disp_invD(1,2) [OF inv] by (simp add: running_def window_def)
  then have "running v jn ?u"
    by (rule running_cong [rotated 12]) (simp_all add: disp_invD(1) [OF inv])
  with w(1) show ?thesis
    unfolding returned body_returns_def Let_def by (intro returned_inv) (simp_all add: window_def)
next
  case killed
  then have "window s \<and> held v jn s" using disp_invD(4) [OF inv] by (auto simp: phase_inv_def)
  then show ?thesis
    unfolding killed using disp_invD(1,2) [OF inv] by (intro unreturned_inv) (simp_all add: running_def window_def)
next
  case late_guard
  then show ?thesis using inv_late_guard [OF inv] by simp
next
  case (settle_ok res)
  then show ?thesis using inv_settle_line [OF inv] by simp
next
  case (settle_fails res)
  then show ?thesis using inv_settle_line [OF inv] by simp
qed

interpretation disp: invariant_system "gd_init v jn" "gd_step v jn" "disp_inv v jn" for v jn
proof
  fix s assume "gd_init v jn s"
  then obtain g evs where s: "s = dispatch_start g evs" and g: "gov_inv g" "idle_job (mj_id (fst jn)) g"
    and ln: "own_lines v jn s = []" by (auto simp: gd_init_def)
  have "job_hold (mj_id (fst jn)) g = None" "job_request (mj_id (fst jn)) g = None"
    using g(2) by (simp_all add: idle_job_side [OF gov_invD(1) [OF g(1)]])
  with g ln show "disp_inv v jn s"
    by (simp add: disp_inv_def phase_inv_def fresh_def refusal_ok_def sums_ok_def observed_def reported_def
        returned_evidence_def opt_valid_def my_hold_def my_request_def s dispatch_start_def)
qed (auto simp: gd_step_def intro: own_preserves env_preserves)

end
