(* ===== verification/Dispatch_Refines.thy ===== *)
theory Dispatch_Refines
  imports Dispatch_Laws Wave_Governor
begin

text \<open>
  The detailed dispatch implements the wave machine: every own step of it, on a run in which the job is
  in flight, is a sequence of steps the wave loop allows, and what it hands to the finish is the wave
  loop's ending. With it, the properties of the dispatch.
\<close>

section \<open>Refinement of the wave loop\<close>

text \<open>The run as the wave loop sees it while the dispatch is in state \<open>s\<close>.\<close>

definition seen :: "gdisp \<Rightarrow> sched \<Rightarrow> sched" where
  "seen s S = S\<lparr>sc_governor := gd_gov s, sc_journal := gd_journal s, sc_failed := gd_failed s\<rparr>"

definition refines :: "loop_env \<Rightarrow> manifest_job \<times> nat \<Rightarrow> gdisp \<Rightarrow> gdisp \<Rightarrow> bool" where
  "refines v jn s t \<longleftrightarrow> (\<forall>S. jn \<in> set (sc_running S) \<longrightarrow> (loop_step v)\<^sup>*\<^sup>* (seen s S) (seen t S))"

lemma refines_trans: "refines v jn s t \<Longrightarrow> refines v jn t u \<Longrightarrow> refines v jn s u"
  unfolding refines_def by (meson rtranclp_trans)

lemma refines_local:
  "gd_gov t = gd_gov s \<Longrightarrow> gd_journal t = gd_journal s \<Longrightarrow> gd_failed t = gd_failed s \<Longrightarrow> refines v jn s t"
  by (simp add: refines_def seen_def)

lemma refines_step:
  assumes "\<And>S. jn \<in> set (sc_running S) \<Longrightarrow> loop_step v (seen s S) (seen t S)"
  shows "refines v jn s t"
  using assms by (auto simp: refines_def)

lemma refines_note:
  assumes "le_governed v" "dispatch_note jn e" "gd_gov t = record_event e (gd_gov s)"
    "gd_journal t = gd_journal s" "gd_failed t = gd_failed s"
  shows "refines v jn s t"
proof (rule refines_step)
  fix S :: sched assume "jn \<in> set (sc_running S)"
  then have "loop_step v (seen s S) ((seen s S)\<lparr>sc_governor := record_event e (sc_governor (seen s S))\<rparr>)"
    using assms(1,2) by (intro loop_step.dispatch_event) (simp_all add: seen_def)
  moreover have "(seen s S)\<lparr>sc_governor := record_event e (sc_governor (seen s S))\<rparr> = seen t S"
    by (cases S) (simp add: seen_def assms(3-5))
  ultimately show "loop_step v (seen s S) (seen t S)" by simp
qed

lemma refines_call:
  assumes "le_governed v" "allowed c (gd_gov s)" "\<forall>j. c \<noteq> C_Admit j" "exec c (gd_gov s) = ok g" "gd_gov t = g"
    "gd_journal t = gd_journal s" "gd_failed t = gd_failed s"
  shows "refines v jn s t"
proof (rule refines_step)
  fix S :: sched
  have "loop_step v (seen s S) ((seen s S)\<lparr>sc_governor := g\<rparr>)"
    using assms(1-4) by (intro loop_step.governor_call) (simp_all add: seen_def)
  moreover have "(seen s S)\<lparr>sc_governor := g\<rparr> = seen t S" by (cases S) (simp add: seen_def assms(5-7))
  ultimately show "loop_step v (seen s S) (seen t S)" by simp
qed

lemma refines_failing:
  assumes "le_governed v"
  shows "refines v jn s (failing s)"
proof (rule refines_step)
  fix S :: sched
  have "fail_run v (seen s S) = seen (failing s) S"
    using assms by (cases S) (simp add: seen_def failing_def fail_run_def)
  then show "loop_step v (seen s S) (seen (failing s) S)" using loop_step.run_failed [of v "seen s S"] by simp
qed

lemma refines_line:
  assumes "le_governed v" "e \<in> {Reservation_Opened ro, Reservation_Settled rt}" "event_run e = le_run v"
    "gd_journal t = gd_journal s @ [e]" "gd_gov t = gd_gov s" "gd_failed t = gd_failed s"
  shows "refines v jn s t"
proof (rule refines_step)
  fix S :: sched
  have "loop_step v (seen s S) (journal_add [e] (seen s S))"
    using assms(1-3) by (rule loop_step.ledger_line)
  moreover have "journal_add [e] (seen s S) = seen t S" by (cases S) (simp add: seen_def journal_add_def assms(4-6))
  ultimately show "loop_step v (seen s S) (seen t S)" by simp
qed

lemma refines_finally:
  assumes "le_governed v"
  shows "refines v jn s (finally_dispatch res s)"
proof (cases "gd_reservation s")
  case None
  then show ?thesis by (intro refines_local) (simp_all add: finally_dispatch_def conclude_def)
next
  case (Some r)
  show ?thesis
  proof (cases "gd_preserve s")
    case True
    show ?thesis
    proof (cases "abandonReservation r (gd_gov s)")
      case (Inl e)
      with Some True show ?thesis by (intro refines_local) (simp_all add: finally_dispatch_def conclude_def)
    next
      case (Inr g)
      with Some True show ?thesis
        by (intro refines_call [OF assms, of "C_Abandon r" _ g]) (simp_all add: finally_dispatch_def conclude_def)
    qed
  next
    case False
    let ?c = "C_Settle r (settle_basis s) (map_option raw_of_usage (gd_usage s))"
    show ?thesis
    proof (cases "settle r (settle_basis s) (map_option raw_of_usage (gd_usage s)) (gd_gov s)")
      case (Inl e)
      with Some False show ?thesis by (intro refines_local) (simp_all add: finally_dispatch_def conclude_def)
    next
      case (Inr x)
      obtain g st where "x = (g, st)" by fastforce
      with Inr Some False show ?thesis
        by (intro refines_call [OF assms, of ?c _ g]) (simp_all add: finally_dispatch_def)
    qed
  qed
qed

lemma refines_observe:
  assumes "le_governed v"
  shows "refines v jn s (observe_fold jn e uc cc s)"
proof (cases "observeResult (mj_id (fst jn)) e uc cc (gd_gov s)")
  case (Inl x)
  then show ?thesis by (intro refines_local) (simp_all add: observe_fold_def)
next
  case (Inr g)
  then show ?thesis
    by (intro refines_call [OF assms, of "C_ObserveResult (mj_id (fst jn)) e uc cc" _ g])
      (auto simp: observe_fold_def foldIntoJobSums_def Let_def split: option.split)
qed

lemma refines_refuse:
  assumes "le_governed v"
  shows "refines v jn s (refuse_queued jn s)"
proof -
  have q: "refines v jn s (finally_dispatch res (s\<lparr>gd_gov := record_event e (gd_gov s)\<rparr>))" if "dispatch_note jn e" for e res
    by (rule refines_trans [OF refines_note [OF assms that] refines_finally [OF assms]]) simp_all
  show ?thesis by (simp add: refuse_queued_def queuedRefusal_def q dispatch_note_def)
qed

lemma refines_ladder:
  assumes gv: "le_governed v"
  shows "refines v jn s (ladder_ended jn out s)"
proof -
  have cmp: "refines v jn s (completed_note jn st (s\<lparr>gd_outcome := oc, gd_closed := c, gd_detached := d\<rparr>))" for st oc c d
    by (rule refines_note [OF gv, of jn "Ev_Completed (mj_op (fst jn)) (mj_id (fst jn)) (snd jn) st"])
      (simp_all add: dispatch_note_def completed_note_def)
  have cmp': "refines v jn s (completed_note jn st (s\<lparr>gd_outcome := oc, gd_closed := c\<rparr>))" for st oc c
    using cmp [where st = st and oc = oc and c = c and d = "gd_detached s"] by simp
  have ret: "refines v jn t (fold_returned jn r t)" for t r
    by (auto simp: fold_returned_def intro: refines_observe [OF gv] refines_local split: op_result.split option.split)
  note fin = refines_finally [OF gv]
  show ?thesis
  proof (cases out)
    case (Completed r)
    then show ?thesis
      by (simp add: ladder_ended_def interpretOutcome_def) (intro refines_trans [OF _ fin] refines_trans [OF cmp' ret])
  next
    case Killed
    then show ?thesis
      by (simp add: ladder_ended_def interpretOutcome_def) (intro refines_trans [OF _ fin] cmp)
  next
    case (ThrewOutcome e)
    then show ?thesis
      by (simp add: ladder_ended_def interpretOutcome_def) (intro conjI impI refines_trans [OF _ fin] cmp')
  qed
qed

lemma refines_permission:
  assumes gv: "le_governed v"
  shows "refines v jn s (snd (invocationPermission jn s))"
proof -
  have q: "refines v jn s (s\<lparr>gd_gov := record_event e (gd_gov s), gd_refused := True\<rparr>)" if "dispatch_note jn e" for e
    by (rule refines_note [OF gv that]) simp_all
  have l: "refines v jn s s" "refines v jn s (s\<lparr>gd_refused := True\<rparr>)" "refines v jn s (s\<lparr>gd_preserve := True\<rparr>)"
    by (rule refines_local; simp)+
  show ?thesis
    by (auto simp: invocationPermission_def invocationRefusal_def queuedRefusal_def dispatch_note_def intro!: q l)
qed

lemma refines_guarded:
  assumes gv: "le_governed v"
  shows "refines v jn s (guarded jn after s)"
proof -
  obtain x t where p: "invocationPermission jn s = (x, t)" by fastforce
  have "refines v jn s t" using refines_permission [OF gv, of jn s] p by simp
  moreover have "refines v jn t (guarded jn after s)"
    using refines_ladder [OF gv] by (auto simp: guarded_def p intro: refines_local split: sum.split option.split)
  ultimately show ?thesis by (rule refines_trans)
qed

lemma refines_begin:
  assumes gv: "le_governed v" and inv: "disp_inv v jn s" and ph: "gd_phase s = SlotWait"
  shows "refines v jn s (begin_dispatch v jn s)"
proof -
  let ?u = "s\<lparr>gd_slots := gd_slots s + 1\<rparr>" and ?j = "mj_id (fst jn)"
  have idle: "idle_job ?j (gd_gov s)"
    using disp_invD(4) [OF inv] ph gov_invD(1) [OF disp_invD(1) [OF inv]]
    by (simp add: phase_inv_def idle_job_side my_hold_def my_request_def)
  have u: "refines v jn s ?u" by (rule refines_local) simp_all
  have fin: "refines v jn s (finally_dispatch None ?u)" by (rule refines_trans [OF u refines_finally [OF gv]])
  have ref: "refines v jn s (refuse_queued jn ?u)" by (rule refines_trans [OF u refines_refuse [OF gv]])
  have call: "refines v jn s (?u\<lparr>gd_gov := g\<rparr>)" "refines v jn s (?u\<lparr>gd_gov := g, gd_phase := q\<rparr>)"
    if "reserve ?j (snd jn) p cls (gd_gov s) = ok (g, out)" for g out p cls q
    using that idle
    by (intro refines_call [OF gv, of "C_Reserve ?j (snd jn) p cls" _ g]; simp)+
  have refuse: "refines v jn s (refuse_queued jn (?u\<lparr>gd_gov := g\<rparr>))"
    if "reserve ?j (snd jn) p cls (gd_gov s) = ok (g, out)" for g out p cls
    by (rule refines_trans [OF call(1) [OF that] refines_refuse [OF gv]])
  have none: "refines v jn s (?u\<lparr>gd_phase := Fencing\<rparr>)" by (rule refines_local) simp_all
  show ?thesis
    using fin ref call(2) refuse none
    by (auto simp: begin_dispatch_def Let_def split: option.split sum.split reserve_result.split reserve_outcome.split)
qed

lemma own_refines:
  assumes gv: "le_governed v" and inv: "disp_inv v jn s" and st: "own_step v jn s t"
  shows "refines v jn s t"
  using st
proof (cases rule: own_step.cases)
  case slot
  then show ?thesis using refines_begin [OF gv inv] by simp
next
  case (gate n)
  then show ?thesis
    using refines_refuse [OF gv] by (auto simp: gate_answer_def intro: refines_local split: reserve_outcome.split)
next
  case (open_ok r)
  then show ?thesis
    unfolding open_ok opened_event_def by (intro refines_line [OF gv]) (auto simp: opened_def opened_event_def)
next
  case (open_fails r)
  have "refines v jn (failing s) (open_failed r s)"
  proof (cases "abandonReservation r (gd_gov (failing s))")
    case (Inl e)
    then show ?thesis by (simp add: open_failed_def refines_finally [OF gv])
  next
    case (Inr g)
    have "refines v jn (failing s) ((failing s)\<lparr>gd_gov := g\<rparr>)"
      by (rule refines_call [OF gv, of "C_Abandon r" _ g]) (simp_all add: Inr)
    with Inr show ?thesis by (simp add: open_failed_def refines_trans [OF _ refines_finally [OF gv]])
  qed
  then show ?thesis unfolding open_fails by (rule refines_trans [OF refines_failing [OF gv]])
next
  case fence_ok
  then show ?thesis by (intro refines_local) simp_all
next
  case fence_fails
  have "refines v jn (failing s) ((failing s)\<lparr>gd_preserve := True\<rparr>)" by (rule refines_local) simp_all
  then show ?thesis
    unfolding fence_fails fence_lost_def
    by (intro refines_trans [OF _ refines_finally [OF gv]]) (rule refines_trans [OF refines_failing [OF gv]])
next
  case (unprepared msg)
  then show ?thesis by (simp add: refines_ladder [OF gv])
next
  case before_body
  then show ?thesis by (simp add: refines_guarded [OF gv])
next
  case guard_fence_ok
  then show ?thesis by (simp add: refines_guarded [OF gv])
next
  case guard_fence_fails
  have "refines v jn (failing s) ((failing s)\<lparr>gd_preserve := True\<rparr>)" by (rule refines_local) simp_all
  then show ?thesis
    unfolding guard_fence_fails guard_fence_lost_def
    by (intro refines_trans [OF _ refines_ladder [OF gv]]) (rule refines_trans [OF refines_failing [OF gv]])
next
  case enter
  then show ?thesis by (simp add: refines_guarded [OF gv])
next
  case (report raw)
  show ?thesis
  proof (cases "gd_closed s")
    case True
    then show ?thesis unfolding report by (intro refines_local) (simp_all add: onResult_def)
  next
    case False
    then show ?thesis
      unfolding report onResult_def Let_def
      by simp (rule refines_trans [OF refines_local refines_observe [OF gv]]; simp)
  qed
next
  case (session link)
  then show ?thesis by (intro refines_local) (auto simp: onSession_def split: option.split)
next
  case (returned ret)
  show ?thesis
    unfolding returned body_returns_def Let_def
    by (rule refines_trans [OF refines_local refines_ladder [OF gv]]) simp_all
next
  case killed
  then show ?thesis by (simp add: refines_ladder [OF gv])
next
  case late_guard
  then show ?thesis by (simp add: refines_permission [OF gv])
next
  case (settle_ok res)
  then obtain r st where rs: "gd_reservation s = Some r" "gd_charge s = Some st"
    using disp_invD(4) [OF inv] by (auto simp: phase_inv_def)
  show ?thesis
    unfolding settle_ok
    by (rule refines_line [OF gv, of "settled_event (le_run v) r st (gd_usage s)"])
      (auto simp: settle_written_def rs settled_event_def conclude_def)
next
  case (settle_fails res)
  show ?thesis
    unfolding settle_fails settle_unwritten_def
    by (rule refines_trans [OF refines_failing [OF gv] refines_local]) (simp_all add: conclude_def)
qed

section \<open>The cap is fixed\<close>

lemma loop_step_cap:
  assumes st: "loop_step v S T" and inv: "gov_inv (sc_governor S)"
  shows "capUsd (sc_governor T) = capUsd (sc_governor S)"
  using step_governor [OF st]
proof
  assume "counted_start S T"
  then obtain j n g e where "admit j (sc_governor S) = (g, Admit n)" "sc_governor T = record_event e g"
    by (auto simp: counted_start_def)
  then show ?thesis using admit_capUsd [of j "sc_governor S"] by simp
next
  assume "plain_call S T"
  then show ?thesis unfolding plain_call_def using exec_kept [OF inv] kept_capUsd by auto
qed

lemma loop_steps_cap:
  "(loop_step v)\<^sup>*\<^sup>* S T \<Longrightarrow> gov_inv (sc_governor S) \<Longrightarrow>
     capUsd (sc_governor T) = capUsd (sc_governor S) \<and> gov_inv (sc_governor T)"
proof (induction rule: rtranclp_induct)
  case (step T U)
  then show ?case using loop_step_cap [OF step(2)] step_governor_facts(1) [OF step(2)] by simp
qed simp

lemma own_cap:
  assumes gv: "le_governed v" and inv: "disp_inv v jn s" and st: "own_step v jn s t"
  shows "capUsd (gd_gov t) = capUsd (gd_gov s)"
proof -
  define S :: sched where "S = \<lparr>sc_entries = [], sc_journal = [], sc_waves = [], sc_submit = [], sc_queue = [],
     sc_running = [jn], sc_stop = False, sc_failed = False, sc_governor = gd_gov s, sc_admitted = []\<rparr>"
  have "(loop_step v)\<^sup>*\<^sup>* (seen s S) (seen t S)"
    using own_refines [OF gv inv st] by (simp add: refines_def S_def)
  from loop_steps_cap [OF this] disp_invD(1) [OF inv] show ?thesis by (simp add: seen_def)
qed

lemma env_cap:
  assumes inv: "disp_inv v jn s" and st: "env_step v jn s t"
  shows "capUsd (gd_gov t) = capUsd (gd_gov s)"
  using st
proof (cases rule: env_step.cases)
  case (others c g)
  show ?thesis
  proof (cases "\<exists>j. c = C_Admit j")
    case True
    with others show ?thesis by auto
  next
    case False
    with others exec_kept [OF disp_invD(1) [OF inv] others(2,4)] show ?thesis by (simp add: kept_capUsd)
  qed
qed (simp_all add: failing_def tripSignal_def)

definition at_work :: "gphase \<Rightarrow> bool" where
  "at_work p \<longleftrightarrow> preparing p \<or> p = Body"

lemma at_work_over [simp]: "\<not> at_work Broken" "\<not> at_work (Ended r)" "\<not> at_work (SettleWrite res)"
  by (simp_all add: at_work_def preparing_def)

lemma finally_phase: "\<not> at_work (gd_phase (finally_dispatch res s))"
  by (auto simp: finally_dispatch_def conclude_def at_work_def preparing_def Let_def split: option.split sum.split)

lemma ladder_phase: "\<not> at_work (gd_phase (ladder_ended jn out s))"
  by (auto simp: ladder_ended_def finally_phase split: prod.split sum.split)

lemma refuse_phase: "\<not> at_work (gd_phase (refuse_queued jn s))"
  by (auto simp: refuse_queued_def finally_phase split: prod.split)

lemma guarded_at_work:
  assumes "at_work (gd_phase (guarded jn after s))"
  shows "gd_reservation (guarded jn after s) = gd_reservation s"
  using assms by (auto simp: guarded_def invocationPermission_def invocationRefusal_def queuedRefusal_def ladder_phase
      split: if_splits)

text \<open>A dispatch at work without a reservation came through the gate of a governor without a cap.\<close>

lemma at_work_from:
  assumes st: "own_step v jn s t" and w: "at_work (gd_phase t)" and n: "gd_reservation t = None"
    and inv: "disp_inv v jn s"
  shows "(at_work (gd_phase s) \<and> gd_reservation s = None) \<or> capUsd (gd_gov s) = None"
  using st
proof (cases rule: own_step.cases)
  case slot
  with w show ?thesis
    by (auto simp: begin_dispatch_def Let_def refuse_phase finally_phase
        split: if_splits option.splits sum.splits reserve_result.splits reserve_outcome.splits)
      (simp_all add: at_work_def preparing_def)
next
  case (gate k)
  with w show ?thesis
    by (cases "job_answers (mj_id (fst jn)) (gd_gov s) ! k")
      (simp_all add: gate_answer_def refuse_phase, simp add: at_work_def preparing_def)
next
  case (open_ok r)
  with n show ?thesis by (simp add: opened_def)
next
  case (open_fails r)
  with w show ?thesis by (auto simp: open_failed_def Let_def finally_phase split: sum.splits)
next
  case fence_ok
  with n show ?thesis by (simp add: at_work_def preparing_def)
next
  case (report raw)
  have "gd_phase t = gd_phase s" "gd_reservation t = gd_reservation s"
    by (auto simp: report onResult_def observe_fold_def foldIntoJobSums_def Let_def split: sum.split option.split)
  with w n show ?thesis by simp
next
  case (session link)
  have "gd_phase t = gd_phase s" "gd_reservation t = gd_reservation s"
    by (auto simp: session onSession_def split: option.split)
  with w n show ?thesis by simp
next
  case late_guard
  have "gd_phase t = gd_phase s" "gd_reservation t = gd_reservation s"
    by (auto simp: late_guard invocationPermission_def invocationRefusal_def queuedRefusal_def)
  with w n show ?thesis by simp
next
  case before_body
  with w n guarded_at_work show ?thesis by (auto simp: at_work_def preparing_def)
next
  case guard_fence_ok
  with w n guarded_at_work show ?thesis by (auto simp: at_work_def preparing_def)
next
  case enter
  with w n guarded_at_work show ?thesis by (auto simp: at_work_def preparing_def)
next
  case (settle_ok res)
  then obtain r st where "gd_reservation s = Some r" "gd_charge s = Some st"
    using disp_invD(4) [OF inv] by (auto simp: phase_inv_def)
  with settle_ok w show ?thesis
    by (simp add: settle_written_def conclude_def at_work_def preparing_def split: option.splits)
qed (use w in \<open>simp_all add: fence_lost_def guard_fence_lost_def body_returns_def Let_def finally_phase ladder_phase
    settle_unwritten_def conclude_def\<close>)

definition cap_inv :: "loop_env \<Rightarrow> manifest_job \<times> nat \<Rightarrow> gdisp \<Rightarrow> bool" where
  "cap_inv v jn s \<longleftrightarrow> disp_inv v jn s
     \<and> (at_work (gd_phase s) \<longrightarrow> gd_reservation s = None \<longrightarrow> capUsd (gd_gov s) = None)"

lemma env_local: "env_step v jn s t \<Longrightarrow> gd_phase t = gd_phase s \<and> gd_reservation t = gd_reservation s"
  by (erule env_step.cases) (simp_all add: failing_def)

interpretation capped_run: invariant_system "\<lambda>s. le_governed v \<and> gd_init v jn s" "\<lambda>s t. le_governed v \<and> gd_step v jn s t"
    "cap_inv v jn" for v jn
proof
  show "le_governed v \<and> gd_init v jn s \<Longrightarrow> cap_inv v jn s" for s
    using disp.inv_init [of v jn s]
    by (auto simp: cap_inv_def gd_init_def dispatch_start_def at_work_def preparing_def)
next
  fix s t assume inv: "cap_inv v jn s" and "le_governed v \<and> gd_step v jn s t"
  then have gv: "le_governed v" and d: "disp_inv v jn s" and st: "own_step v jn s t \<or> env_step v jn s t"
    by (simp_all add: cap_inv_def gd_step_def)
  from st show "cap_inv v jn t"
  proof
    assume o: "own_step v jn s t"
    then show ?thesis
      using own_preserves [OF d o] own_cap [OF gv d o] at_work_from [OF o _ _ d] inv by (auto simp: cap_inv_def)
  next
    assume e: "env_step v jn s t"
    then show ?thesis
      using env_preserves [OF d e] env_cap [OF d e] env_local [OF e] inv by (auto simp: cap_inv_def)
  qed
qed

lemma reach_governed:
  "reach (gd_init v jn) (gd_step v jn) s \<Longrightarrow> le_governed v
   \<Longrightarrow> reach (\<lambda>s. le_governed v \<and> gd_init v jn s) (\<lambda>s t. le_governed v \<and> gd_step v jn s t) s"
  by (induction rule: reach.induct) (auto intro: reach.intros)

section \<open>Properties\<close>

text \<open>What a dispatch that has ended leaves: its own sums, and its lines with the charge.\<close>

lemma ended_facts:
  assumes "reach (gd_init v jn) (gd_step v jn) s" "gd_phase s = Ended r"
  shows "gd_slots s = 0" "my_hold jn s = None" "my_request jn s = None" "ledger_closed v jn s"
    "gd_cost s = sum_opt (observed cost_of s)" "gd_usage s = sum_usage (observed usage_of s)"
proof -
  note inv = disp.reach_inv [OF assms(1)]
  show "gd_slots s = 0" "my_request jn s = None" "my_hold jn s = None" "ledger_closed v jn s"
    using disp_invD(4) [OF inv] assms(2) by (simp_all add: phase_inv_def)
  show "gd_cost s = sum_opt (observed cost_of s)" "gd_usage s = sum_usage (observed usage_of s)"
    using disp_invD(2) [OF inv] unfolding sums_ok_def by blast+
qed

text \<open>C13 One dispatch, exactly accounted: however the other dispatches use the governor and the journal,
  a dispatch that has ended gave its slot back and holds nothing; the usage and cost it reports are the
  sums of its streamed measurements, or the returned ones when none was streamed; and either it opened
  no reservation and wrote no ledger line, or it wrote exactly two, the opening and then the settle, for
  the charge it reports: the observed cost after a definitive ending, at least the whole reservation
  after an unknown one.\<close>

theorem dispatch_accounts_exactly:
  assumes "reach (gd_init v jn) (gd_step v jn) s" "gd_phase s = Ended r"
  shows "gd_slots s = 0 \<and> my_hold jn s = None \<and> my_request jn s = None
     \<and> ed_cost (ending_of r s) = sum_opt (observed cost_of s)
     \<and> ed_usage (ending_of r s) = sum_usage (observed usage_of s)
     \<and> (case gd_charge s of
          None \<Rightarrow> own_lines v jn s = [] \<and> ed_charged (ending_of r s) = None
        | Some st \<Rightarrow> ed_charged (ending_of r s) = Some (st_charged st)
            \<and> (\<exists>rv. own_lines v jn s = [opening_line v jn rv, settled_event (le_run v) rv st (ed_usage (ending_of r s))]
                 \<and> st_charged st = (case settle_basis s of Observed \<Rightarrow> observed_cost s
                                    | Full \<Rightarrow> max (rv_usd rv) (observed_cost s))))"
  using ended_facts [OF assms]
  by (cases "gd_charge s") (auto simp: ending_of_def ledger_closed_def charge_ok_def)

text \<open>C15 Write-ahead: whenever the body of an operation runs in a governed run, a run with a dollar cap
  has journalled exactly this dispatch's opening line, and the governor holds that reservation, folded
  as far as the measurements reported so far; a run without a cap has no ledger line.\<close>

theorem body_runs_behind_its_line:
  assumes "reach (gd_init v jn) (gd_step v jn) s" "le_governed v" "gd_phase s = Body"
  shows "case capUsd (gd_gov s) of
       None \<Rightarrow> own_lines v jn s = []
     | Some c \<Rightarrow> (\<exists>rv h. for_job jn rv \<and> own_lines v jn s = [opening_line v jn rv]
         \<and> my_hold jn s = Some h \<and> hd_res h = rv \<and> hd_folded h = observed_cost s)"
proof -
  have inv: "cap_inv v jn s" using reach_governed [OF assms(1,2)] by (rule capped_run.reach_inv)
  then have d: "disp_inv v jn s" by (simp add: cap_inv_def)
  have h: "held v jn s" using disp_invD(4) [OF d] assms(3) by (simp add: phase_inv_def)
  have cost: "gd_cost s = sum_opt (observed cost_of s)"
    using disp_invD(2) [OF d] unfolding sums_ok_def by blast
  show ?thesis
  proof (cases "gd_reservation s")
    case None
    then have "capUsd (gd_gov s) = None" using inv assms(3) by (simp add: cap_inv_def at_work_def)
    with None h show ?thesis by (simp add: held_def)
  next
    case (Some r)
    have "g_outstanding (gd_gov s) \<noteq> []" using Some h by (auto simp: held_def my_hold_def job_hold_def bind_eq_Some_conv)
    then obtain c where "capUsd (gd_gov s) = Some c" using disp_invD(1) [OF d] by (auto simp: gov_inv_def)
    with Some h cost show ?thesis
      by (auto simp: held_def live_hold_def sum_opt_def observed_cost_def)
  qed
qed

text \<open>A refusal costs nothing: when a guard before the body ended the dispatch, nothing was observed
  and its reservation is settled at zero, even though the verdict may read as indeterminate.\<close>

lemma refusal_is_free:
  assumes "reach (gd_init v jn) (gd_step v jn) s" "gd_phase s = Ended r" "gd_refused s"
    and "gd_outcome s = Some (Completed q)"
  shows "ed_cost (ending_of r s) = None
     \<and> (case ed_charged (ending_of r s) of None \<Rightarrow> own_lines v jn s = [] | Some c \<Rightarrow> c = 0)"
proof -
  note inv = disp.reach_inv [OF assms(1)]
  have q: "gd_reports s = []" "returned_evidence s = None" "\<not> gd_unknown s"
    using disp_invD(3) [OF inv] assms(3,4) by (auto simp: refusal_ok_def)
  then have o: "observed cost_of s = []" by (simp add: observed_def reported_def)
  have "settle_basis s = Observed" using q(3) assms(3,4) by (simp add: settle_basis_def)
  moreover have "ledger_closed v jn s" using disp_invD(4) [OF inv] assms(2) by (simp add: phase_inv_def)
  moreover have "gd_cost s = sum_opt (observed cost_of s)" using disp_invD(2) [OF inv] unfolding sums_ok_def by blast
  ultimately show ?thesis
    using o by (auto simp: ending_of_def ledger_closed_def charge_ok_def observed_cost_def split: option.splits)
qed

text \<open>The finish of a governed dispatch: the line it appends carries the dispatch's own evidence and its charge.\<close>

lemma finish_line:
  assumes gv: "le_governed v" and r: "reach (gd_init v jn) (gd_step v jn) t" "gd_phase t = Ended r"
  shows "\<exists>f. sc_journal (finish_job v jn (ending_of r t) (seen t S)) = gd_journal t @ [Job_Finished f]
     \<and> jf_result f = r \<and> jf_job f = mj_id (fst jn)
     \<and> jf_cost f = sum_opt (observed cost_of t) \<and> jf_usage f = sum_usage (observed usage_of t)
     \<and> (case jf_charged f of
          None \<Rightarrow> own_lines v jn t = []
        | Some c \<Rightarrow> \<exists>rv st. for_job jn rv \<and> st_charged st = c
            \<and> own_lines v jn t = [opening_line v jn rv, settled_event (le_run v) rv st (jf_usage f)])"
proof -
  let ?f = "governed_finish v (fst jn) (snd jn) (ending_of r t)"
  note e = ended_facts [OF r]
  have j: "sc_journal (finish_job v jn (ending_of r t) (seen t S)) = gd_journal t @ [Job_Finished ?f]"
    using gv by (simp add: finish_job_def Let_def classify_def journal_add_def request_stop_def drop_running_def seen_def)
  have f: "jf_result ?f = r" "jf_job ?f = mj_id (fst jn)" "jf_cost ?f = gd_cost t" "jf_usage ?f = gd_usage t"
    "jf_charged ?f = map_option st_charged (gd_charge t)"
    by (simp_all add: governed_finish_def finish_event_def ending_of_def)
  have "case jf_charged ?f of
          None \<Rightarrow> own_lines v jn t = []
        | Some c \<Rightarrow> \<exists>rv st. for_job jn rv \<and> st_charged st = c
            \<and> own_lines v jn t = [opening_line v jn rv, settled_event (le_run v) rv st (jf_usage ?f)]"
    using e(4) unfolding f by (cases "gd_charge t") (auto simp: ledger_closed_def)
  with j f(1-4) e(5,6) show ?thesis by (intro exI [of _ ?f]) simp
qed

text \<open>C14 The detailed dispatch refines the wave loop: in every reachable state, each step of a dispatch in
  flight is matched by steps of the wave loop; and when it has ended, the wave loop's finish with its
  ending is a step that appends exactly one finish line, whose verdict is the dispatch's, whose usage and
  cost are the sums of its measurements, and whose charge is the one of its settle line (none when it
  wrote no ledger line).\<close>

theorem dispatch_refines_loop:
  assumes "reach (gd_init v jn) (gd_step v jn) s" "own_step v jn s t" "le_governed v" "jn \<in> set (sc_running S)"
  shows "(loop_step v)\<^sup>*\<^sup>* (seen s S) (seen t S)
     \<and> (\<forall>r. gd_phase t = Ended r \<longrightarrow> loop_step v (seen t S) (finish_job v jn (ending_of r t) (seen t S))
         \<and> (\<exists>f. sc_journal (finish_job v jn (ending_of r t) (seen t S)) = gd_journal t @ [Job_Finished f]
              \<and> jf_result f = r \<and> jf_job f = mj_id (fst jn)
              \<and> jf_cost f = sum_opt (observed cost_of t) \<and> jf_usage f = sum_usage (observed usage_of t)
              \<and> (case jf_charged f of
                   None \<Rightarrow> own_lines v jn t = []
                 | Some c \<Rightarrow> \<exists>rv st. for_job jn rv \<and> st_charged st = c
                     \<and> own_lines v jn t = [opening_line v jn rv, settled_event (le_run v) rv st (jf_usage f)])))"
proof
  show "(loop_step v)\<^sup>*\<^sup>* (seen s S) (seen t S)"
    using own_refines [OF assms(3) disp.reach_inv [OF assms(1)] assms(2)] assms(4) by (simp add: refines_def)
  have "reach (gd_init v jn) (gd_step v jn) t" using assms(1,2) by (auto intro: reach_step simp: gd_step_def)
  from finish_line [OF assms(3) this]
  show "\<forall>r. gd_phase t = Ended r \<longrightarrow> loop_step v (seen t S) (finish_job v jn (ending_of r t) (seen t S))
         \<and> (\<exists>f. sc_journal (finish_job v jn (ending_of r t) (seen t S)) = gd_journal t @ [Job_Finished f]
              \<and> jf_result f = r \<and> jf_job f = mj_id (fst jn)
              \<and> jf_cost f = sum_opt (observed cost_of t) \<and> jf_usage f = sum_usage (observed usage_of t)
              \<and> (case jf_charged f of
                   None \<Rightarrow> own_lines v jn t = []
                 | Some c \<Rightarrow> \<exists>rv st. for_job jn rv \<and> st_charged st = c
                     \<and> own_lines v jn t = [opening_line v jn rv, settled_event (le_run v) rv st (jf_usage f)]))"
    using loop_step.finish [of jn "seen t S" v] assms(4) by (simp add: seen_def)
qed

section \<open>A demo dispatch\<close>

definition demo_jn :: "manifest_job \<times> nat" where
  "demo_jn = (\<lparr>mj_id = ''a'', mj_op = ''o'', mj_input = JNull, mj_hash = ''h'', mj_deps = []\<rparr>, 1)"

definition demo_denv :: loop_env where
  "demo_denv = \<lparr>le_prepared = \<lparr>pr_run = ''r'', pr_jobs = [], pr_unschedulable = [], pr_waves = []\<rparr>, le_limit = 1,
     le_stopOnError = False, le_gov = Some (demo_gov\<lparr>gv_attended := Some True\<rparr>), le_replay = [], le_parent = None\<rparr>"

definition demo_waiting :: gdisp where "demo_waiting = dispatch_start demo_quota []"

definition demo_opening :: gdisp where "demo_opening = begin_dispatch demo_denv demo_jn demo_waiting"

definition demo_granted :: reservation where
  "demo_granted = (case gd_phase demo_opening of Opening r \<Rightarrow> r | _ \<Rightarrow> demo_reservation)"

definition demo_fenced :: gdisp where
  "demo_fenced = (opened demo_denv demo_jn demo_granted demo_opening)\<lparr>gd_phase := Preparing\<rparr>"

definition demo_entering :: gdisp where
  "demo_entering = guarded demo_jn Entering (guarded demo_jn GuardFence demo_fenced)"

definition demo_body :: gdisp where "demo_body = guarded demo_jn Body demo_entering"

definition demo_reported :: gdisp where
  "demo_reported = onResult demo_jn \<lparr>ev_usage = JUndef, ev_cost = JNum (Fin 2)\<rparr> demo_body"

definition demo_settling :: gdisp where
  "demo_settling = body_returns demo_jn (Returns (ROk JNull)) demo_reported"

definition demo_ended :: gdisp where
  "demo_ended = settle_written demo_denv (Some (ROk JNull)) demo_settling"

text \<open>The same dispatch, refused at its last guard because its signal was aborted.\<close>

definition demo_refused :: gdisp where
  "demo_refused = settle_written demo_denv (Some (RIndeterminate ''cancelled: dispatch signal aborted before invocation''))
     (guarded demo_jn Body (demo_entering\<lparr>gd_aborted := True\<rparr>))"

lemma demo_phases:
  "gd_phase demo_waiting = SlotWait" "gd_phase demo_opening = Opening demo_granted"
  "gd_phase (guarded demo_jn GuardFence demo_fenced) = GuardFence"
  "gd_failed (guarded demo_jn GuardFence demo_fenced) = False"
  "gd_phase demo_entering = Entering" "gd_phase demo_body = Body" "gd_phase demo_reported = Body"
  "gd_phase demo_settling = SettleWrite (Some (ROk JNull))" "gd_phase demo_ended = Ended (ROk JNull)"
  "gd_phase (guarded demo_jn Body (demo_entering\<lparr>gd_aborted := True\<rparr>))
     = SettleWrite (Some (RIndeterminate ''cancelled: dispatch signal aborted before invocation''))"
  "gd_phase demo_refused = Ended (RIndeterminate ''cancelled: dispatch signal aborted before invocation'')"
  by code_simp+

lemma demo_dispatch_reach:
  "reach (gd_init demo_denv demo_jn) (gd_step demo_denv demo_jn) demo_entering"
  "reach (gd_init demo_denv demo_jn) (gd_step demo_denv demo_jn) demo_reported"
  "reach (gd_init demo_denv demo_jn) (gd_step demo_denv demo_jn) demo_settling"
  "reach (gd_init demo_denv demo_jn) (gd_step demo_denv demo_jn) demo_ended"
  "reach (gd_init demo_denv demo_jn) (gd_step demo_denv demo_jn) demo_refused"
proof -
  let ?r = "reach (gd_init demo_denv demo_jn) (gd_step demo_denv demo_jn)"
  have own: "?r s \<Longrightarrow> own_step demo_denv demo_jn s t \<Longrightarrow> ?r t" for s t
    by (erule reach_step) (simp add: gd_step_def)
  have "gov_start demo_quota"
    by (simp add: gov_start_def demo_quota_def createGovernor_def rollup_ok_def capUsd_def tripped_def USD_EPSILON_def)
  then have "gd_init demo_denv demo_jn demo_waiting"
    unfolding gd_init_def demo_waiting_def
    by (intro exI conjI refl) (auto simp: gov_start_inv own_lines_def dispatch_start_def idle_job_def omap_has_def
        demo_quota_def createGovernor_def)
  then have "?r demo_waiting" by (rule reach_init)
  from own [OF this own_step.slot] demo_phases(1) have "?r demo_opening" by (simp add: demo_opening_def)
  from own [OF this own_step.open_ok [OF demo_phases(2)]]
  have o: "?r (opened demo_denv demo_jn demo_granted demo_opening)" .
  have "gd_phase (opened demo_denv demo_jn demo_granted demo_opening) = Fencing"
    "\<not> gd_failed (opened demo_denv demo_jn demo_granted demo_opening)"
    by (simp add: opened_def) code_simp
  from own [OF o own_step.fence_ok [OF this]] have f: "?r demo_fenced" by (simp add: demo_fenced_def)
  have "gd_phase demo_fenced = Preparing" by (simp add: demo_fenced_def)
  from own [OF f own_step.before_body [OF this]] have g: "?r (guarded demo_jn GuardFence demo_fenced)" .
  from own [OF g own_step.guard_fence_ok [OF demo_phases(3)]] demo_phases(4)
  show e: "?r demo_entering" by (simp add: demo_entering_def)
  from own [OF e own_step.enter [OF demo_phases(5)]] have "?r demo_body" by (simp add: demo_body_def)
  from own [OF this own_step.report] demo_phases(6) show p: "?r demo_reported" by (simp add: demo_reported_def)
  from own [OF p own_step.returned [OF demo_phases(7)]] show s: "?r demo_settling" by (simp add: demo_settling_def)
  from own [OF s own_step.settle_ok [OF demo_phases(8)]] show "?r demo_ended" by (simp add: demo_ended_def)
  have "gd_step demo_denv demo_jn demo_entering (demo_entering\<lparr>gd_aborted := True\<rparr>)"
    by (simp add: gd_step_def env_step.aborts)
  with e have "?r (demo_entering\<lparr>gd_aborted := True\<rparr>)" by (rule reach_step)
  moreover have "gd_phase (demo_entering\<lparr>gd_aborted := True\<rparr>) = Entering" by (simp add: demo_phases)
  ultimately have "?r (guarded demo_jn Body (demo_entering\<lparr>gd_aborted := True\<rparr>))" by (rule own [OF _ own_step.enter])
  from own [OF this own_step.settle_ok [OF demo_phases(10)]] show "?r demo_refused" by (simp add: demo_refused_def)
qed

lemma demo_denv_governed: "le_governed demo_denv"
  by (simp add: le_governed_def demo_denv_def governedDispatch_def ungovernedMarked_def demo_gov_def)

theorem dispatch_accounts_exactly_witness:
  "ed_charged (ending_of (ROk JNull) demo_ended) = Some 2 \<and> gd_slots demo_ended = 0"
proof
  have "map_option st_charged (gd_charge demo_ended) = Some 2" by code_simp
  then show "ed_charged (ending_of (ROk JNull) demo_ended) = Some 2" by (simp add: ending_of_def)
  show "gd_slots demo_ended = 0"
    using dispatch_accounts_exactly [OF demo_dispatch_reach(4) demo_phases(9)] by blast
qed

theorem body_runs_behind_its_line_witness:
  "\<exists>rv. own_lines demo_denv demo_jn demo_reported = [opening_line demo_denv demo_jn rv]"
proof -
  have "capUsd (gd_gov demo_reported) = Some 3" by code_simp
  with body_runs_behind_its_line [OF demo_dispatch_reach(2) demo_denv_governed demo_phases(7)] show ?thesis by auto
qed

theorem dispatch_refines_loop_witness:
  "(loop_step demo_denv)\<^sup>*\<^sup>* (seen demo_settling (demo_launch\<lparr>sc_running := [demo_jn]\<rparr>))
     (seen demo_ended (demo_launch\<lparr>sc_running := [demo_jn]\<rparr>))
   \<and> (\<exists>f. sc_journal (finish_job demo_denv demo_jn (ending_of (ROk JNull) demo_ended)
         (seen demo_ended (demo_launch\<lparr>sc_running := [demo_jn]\<rparr>))) = gd_journal demo_ended @ [Job_Finished f]
       \<and> jf_cost f = sum_opt (observed cost_of demo_ended))"
proof -
  have "own_step demo_denv demo_jn demo_settling demo_ended"
    unfolding demo_ended_def by (rule own_step.settle_ok [OF demo_phases(8)])
  from dispatch_refines_loop [OF demo_dispatch_reach(3) this demo_denv_governed,
      of "demo_launch\<lparr>sc_running := [demo_jn]\<rparr>"] demo_phases(9)
  show ?thesis by simp blast
qed

end
