(* ===== verification/Dispatch_Seed.thy ===== *)
theory Dispatch_Seed
  imports Dispatch_Refines
begin

text \<open>
  What a crash leaves of a dispatch: the run is stopped at any state of the detailed dispatch, and the
  next run's governor is seeded from the journal as it is then. In a run with a dollar cap nothing is
  observed before the opening line, and every line the dispatch has written is charged.
\<close>

section \<open>The journal only grows\<close>

lemma finally_journal [simp]: "gd_journal (finally_dispatch res s) = gd_journal s"
  by (auto simp: finally_dispatch_def Let_def split: option.split sum.split)

lemma observe_fold_local [simp]:
  "gd_journal (observe_fold jn e uc cc s) = gd_journal s"
  "gd_reports (observe_fold jn e uc cc s) = gd_reports s" "gd_outcome (observe_fold jn e uc cc s) = gd_outcome s"
  by (auto simp: observe_fold_def foldIntoJobSums_def Let_def split: option.split sum.split)

lemma ladder_journal [simp]: "gd_journal (ladder_ended jn out s) = gd_journal s"
  by (cases out) (auto simp: ladder_ended_def interpretOutcome_def completed_note_def fold_returned_def
      split: op_result.split option.split)

lemma refuse_local [simp]:
  "gd_journal (refuse_queued jn s) = gd_journal s"
  by (auto simp: refuse_queued_def queuedRefusal_def)

lemma permission_local [simp]:
  "gd_journal (snd (invocationPermission jn s)) = gd_journal s"
  "gd_reports (snd (invocationPermission jn s)) = gd_reports s"
  "gd_outcome (snd (invocationPermission jn s)) = gd_outcome s"
  by (auto simp: invocationPermission_def invocationRefusal_def queuedRefusal_def)

lemma guarded_journal [simp]: "gd_journal (guarded jn after s) = gd_journal s"
proof -
  obtain x t where p: "invocationPermission jn s = (x, t)" by fastforce
  have "gd_journal t = gd_journal s" using permission_local(1) [of jn s] by (simp add: p)
  then show ?thesis by (auto simp: guarded_def p split: sum.split option.split)
qed

lemma begin_journal [simp]: "gd_journal (begin_dispatch v jn s) = gd_journal s"
  by (auto simp: begin_dispatch_def Let_def split: option.split sum.split reserve_result.split reserve_outcome.split)

lemma own_journal:
  assumes "own_step v jn s t"
  shows "\<exists>es. gd_journal t = gd_journal s @ es"
  using assms
proof (cases rule: own_step.cases)
  case (gate n)
  then show ?thesis
    by (cases "job_answers (mj_id (fst jn)) (gd_gov s) ! n") (simp_all add: gate_answer_def)
next
  case (settle_ok res)
  then show ?thesis by (simp add: settle_written_def split: option.split)
qed (auto simp: opened_def open_failed_def fence_lost_def guard_fence_lost_def onResult_def onSession_def body_returns_def
    settle_unwritten_def failing_def Let_def split: option.split sum.split)

section \<open>Nothing is observed ahead of the opening line\<close>

text \<open>Steps outside the invocation observe nothing.\<close>

lemma finally_local [simp]:
  "gd_reports (finally_dispatch res s) = gd_reports s" "gd_outcome (finally_dispatch res s) = gd_outcome s"
  by (auto simp: finally_dispatch_def Let_def conclude_def split: option.split sum.split)

lemma refuse_evidence [simp]:
  "gd_reports (refuse_queued jn s) = gd_reports s" "gd_outcome (refuse_queued jn s) = gd_outcome s"
  by (auto simp: refuse_queued_def queuedRefusal_def)

lemma begin_evidence [simp]:
  "gd_reports (begin_dispatch v jn s) = gd_reports s" "gd_outcome (begin_dispatch v jn s) = gd_outcome s"
  by (auto simp: begin_dispatch_def Let_def split: option.split sum.split reserve_result.split reserve_outcome.split)

lemma idle_observes_nothing:
  assumes "own_step v jn s t" "\<not> at_work (gd_phase s)"
  shows "gd_reports t = gd_reports s \<and> gd_outcome t = gd_outcome s"
  using assms(1)
proof (cases rule: own_step.cases)
  case (gate n)
  then show ?thesis
    by (cases "job_answers (mj_id (fst jn)) (gd_gov s) ! n") (simp_all add: gate_answer_def)
next
  case (report raw)
  then have "gd_closed s" using assms(2) by (auto simp: at_work_def)
  then show ?thesis by (simp add: report onResult_def)
next
  case (session link)
  then show ?thesis by (simp add: onSession_def split: option.split)
next
  case (settle_ok res)
  then show ?thesis by (simp add: settle_written_def conclude_def split: option.split)
qed (use assms(2) in \<open>auto simp: at_work_def preparing_def opened_def open_failed_def settle_unwritten_def conclude_def
    failing_def Let_def split: option.split sum.split\<close>)

definition lined_inv :: "loop_env \<Rightarrow> manifest_job \<times> nat \<Rightarrow> gdisp \<Rightarrow> bool" where
  "lined_inv v jn s \<longleftrightarrow> cap_inv v jn s
     \<and> (capUsd (gd_gov s) \<noteq> None \<longrightarrow> own_lines v jn s = [] \<longrightarrow> observed cost_of s = [])"

lemma at_work_lined:
  assumes inv: "cap_inv v jn s" and w: "at_work (gd_phase s)" and cap: "capUsd (gd_gov s) \<noteq> None"
  shows "own_lines v jn s \<noteq> []"
proof -
  have "held v jn s"
    using w inv preparing_inv(2) [of v jn s] by (auto simp: cap_inv_def disp_inv_def phase_inv_def at_work_def)
  moreover have "gd_reservation s \<noteq> None" using inv w cap by (auto simp: cap_inv_def)
  ultimately show ?thesis by (auto simp: held_def)
qed

interpretation lined: invariant_system "\<lambda>s. le_governed v \<and> gd_init v jn s" "\<lambda>s t. le_governed v \<and> gd_step v jn s t"
    "lined_inv v jn" for v jn
proof
  fix s assume "le_governed v \<and> gd_init v jn s"
  then show "lined_inv v jn s"
    using capped_run.inv_init [of v jn s]
    by (auto simp: lined_inv_def gd_init_def dispatch_start_def observed_def reported_def returned_evidence_def)
next
  fix s t assume inv: "lined_inv v jn s" and st: "le_governed v \<and> gd_step v jn s t"
  have c: "cap_inv v jn s" and c': "cap_inv v jn t"
    using inv capped_run.inv_step [OF _ st] by (simp_all add: lined_inv_def)
  have "observed cost_of t = []" if cap: "capUsd (gd_gov t) \<noteq> None" and ln: "own_lines v jn t = []"
  proof (cases "own_step v jn s t")
    case True
    have cap: "capUsd (gd_gov s) \<noteq> None" using own_cap [OF _ _ True] st c cap by (simp add: cap_inv_def)
    have ln: "own_lines v jn s = []" using own_journal [OF True] ln by (auto simp: own_lines_def)
    then have "\<not> at_work (gd_phase s)" using at_work_lined [OF c] cap by blast
    from idle_observes_nothing [OF True this] have "observed cost_of t = observed cost_of s"
      by (intro local_cong(3)) simp_all
    with inv cap ln show ?thesis by (simp add: lined_inv_def)
  next
    case False
    then have e: "env_step v jn s t" using st by (simp add: gd_step_def)
    have "capUsd (gd_gov s) \<noteq> None" using env_cap [OF _ e] c cap by (simp add: cap_inv_def)
    moreover have "own_lines v jn s = []" using e ln by (cases rule: env_step.cases) (auto simp: own_lines_def failing_def)
    moreover have "gd_reports t = gd_reports s" "gd_outcome t = gd_outcome s"
      using e by (cases rule: env_step.cases; simp add: failing_def)+
    then have "observed cost_of t = observed cost_of s" by (rule local_cong(3))
    ultimately show ?thesis using inv by (simp add: lined_inv_def)
  qed
  with c' show "lined_inv v jn t" by (simp add: lined_inv_def)
qed

section \<open>What the seed charges\<close>

lemma seed_event_pays:
  assumes "seed_event era e s = ok s'"
  shows "0 \<le> settled_charge e" "g_usdSpent (sd_gov s) + settled_charge e \<le> g_usdSpent (sd_gov s')"
proof -
  have opt: "opt_usd f m g = ok g' \<Longrightarrow> g_usdSpent g \<le> g_usdSpent g'" for f m g g'
    by (auto simp: opt_usd_def seed_usd_ok split: option.splits)
  show "0 \<le> settled_charge e" "g_usdSpent (sd_gov s) + settled_charge e \<le> g_usdSpent (sd_gov s')"
    using assms
    by (cases e; auto simp: bind_result_eq_Inr seed_usd_ok seed_finish_def Let_def dest!: opt_usage_spent opt
        split: if_splits option.splits)+
qed

lemma seed_events_grow: "seed_events era es s = ok s' \<Longrightarrow> g_usdSpent (sd_gov s) \<le> g_usdSpent (sd_gov s')"
proof (induction es arbitrary: s)
  case (Cons e es)
  then obtain s1 where s1: "seed_event era e (s\<lparr>sd_index := sd_index s + 1\<rparr>) = ok s1" "seed_events era es s1 = ok s'"
    by (auto simp: bind_result_eq_Inr)
  from seed_event_pays [OF s1(1)] Cons.IH [OF s1(2)] show ?case by simp
qed simp

lemma seed_events_pay:
  "seed_events era es s = ok s' \<Longrightarrow> e \<in> set es \<Longrightarrow> g_usdSpent (sd_gov s) + settled_charge e \<le> g_usdSpent (sd_gov s')"
proof (induction es arbitrary: s)
  case (Cons x es)
  then obtain s1 where s1: "seed_event era x (s\<lparr>sd_index := sd_index s + 1\<rparr>) = ok s1" "seed_events era es s1 = ok s'"
    by (auto simp: bind_result_eq_Inr)
  note p = seed_event_pays [OF s1(1)]
  show ?case
  proof (cases "e = x")
    case True
    then show ?thesis using p(2) seed_events_grow [OF s1(2)] by simp
  next
    case False
    then show ?thesis using p Cons.IH [OF s1(2)] Cons.prems(2) by simp
  qed
qed simp

lemma charge_open_pays:
  "charge_open rel ops g = ok (g', qs) \<Longrightarrow> (k, p) \<in> set ops \<Longrightarrow> g_usdSpent g + or_usd p \<le> g_usdSpent g'"
proof (induction rel ops g arbitrary: g' qs rule: charge_open.induct)
  case (2 rel rid q ops g)
  from 2(3) obtain g1 where g1: "seed_usd ''unresolved reservation'' (or_usd q) g = ok g1"
    by (auto simp: bind_result_eq_Inr)
  then have q: "0 \<le> or_usd q" "g_usdSpent g1 = g_usdSpent g + or_usd q" by (simp_all add: seed_usd_ok)
  show ?case
  proof (cases "case map_of rel (or_job q) of None \<Rightarrow> False | Some k \<Rightarrow> k > or_index q")
    case True
    with 2(3) g1 have c: "charge_open rel ops g1 = ok (g', qs)" by (simp add: bind_result_eq_Inr)
    then have "g_usdSpent g1 \<le> g_usdSpent g'" using charge_open_props by blast
    then show ?thesis using 2(1) [OF True c] 2(4) q by (cases "(k, p) = (rid, q)") auto
  next
    case False
    let ?g = "g1\<lparr>g_quarantined := omap_set (or_job q) (rid, or_usd q) (g_quarantined g1)\<rparr>"
    from False 2(3) g1 obtain qs' where c: "charge_open rel ops ?g = ok (g', qs')" by (auto simp: bind_result_eq_Inr)
    then have "g_usdSpent g1 \<le> g_usdSpent g'" using charge_open_props by fastforce
    then show ?thesis using 2(2) [OF False c] 2(4) q by (cases "(k, p) = (rid, q)") auto
  qed
qed simp

lemma unresolved_kept:
  "Reservation_Opened o' \<in> set evs \<Longrightarrow> (\<forall>e \<in> set evs. touches (ro_id o') e \<longrightarrow> e = Reservation_Opened o')
   \<Longrightarrow> map_of (unresolved evs) (ro_id o') = Some (ro_usd o')"
proof (induction evs rule: rev_induct)
  case (snoc e evs)
  show ?case
  proof (cases "e = Reservation_Opened o'")
    case True
    then show ?thesis by (simp add: unresolved_snoc map_of_omap_set)
  next
    case False
    have "Reservation_Opened o' \<in> set evs" using False snoc.prems(1) by simp
    moreover have "\<not> touches (ro_id o') e" using False snoc.prems(2) unfolding set_append by (metis Un_iff list.set_intros(1))
    moreover have "\<forall>x \<in> set evs. touches (ro_id o') x \<longrightarrow> x = Reservation_Opened o'" using snoc.prems(2) unfolding set_append by blast
    ultimately have "map_of (unresolved evs) (ro_id o') = Some (ro_usd o')" "\<not> touches (ro_id o') e"
      using snoc.IH by blast+
    then show ?thesis by (cases e) (auto simp: unresolved_snoc map_of_omap_set map_of_omap_del)
  qed
qed simp

lemma seed_charges_settled:
  assumes "seedFromJournal evs (createGovernor c) = ok g" "Reservation_Settled x \<in> set evs"
  shows "rt_charged x \<le> g_usdSpent g"
proof -
  from assms(1) obtain s g1 qs a where s: "seed_events (reservation_era evs) evs (seed_init (createGovernor c)) = ok s"
    "charge_open (sd_released s) (sd_open s) (sd_gov s) = ok (g1, qs)"
    and g: "g_usdSpent g = g_usdSpent g1"
    by (rule seed_okE) (auto simp: record_event_def)
  have "g_usdSpent (sd_gov s) \<le> g_usdSpent g1" using charge_open_props [OF s(2)] by blast
  then show ?thesis using seed_events_pay [OF s(1) assms(2)] g by (simp add: seed_init_def createGovernor_def)
qed

lemma seed_charges_open:
  assumes "seedFromJournal evs (createGovernor c) = ok g" "map_of (unresolved evs) rid = Some u"
  shows "u \<le> g_usdSpent g"
proof -
  from assms(1) obtain s g1 qs a where s: "seed_events (reservation_era evs) evs (seed_init (createGovernor c)) = ok s"
    "charge_open (sd_released s) (sd_open s) (sd_gov s) = ok (g1, qs)"
    and g: "g_usdSpent g = g_usdSpent g1"
    by (rule seed_okE) (auto simp: record_event_def)
  have "unresolved evs = open_usd (sd_open s)"
    using seed_events_open [OF s(1)] by (simp add: unresolved_def seed_init_def open_usd_def)
  then obtain p where "(rid, p) \<in> set (sd_open s)" "or_usd p = u"
    using map_of_SomeD [OF assms(2)] by (auto simp: open_usd_def)
  with charge_open_pays [OF s(2)] seed_events_grow [OF s(1)] g show ?thesis
    by (fastforce simp: seed_init_def createGovernor_def)
qed

text \<open>The lines a dispatch can have written.\<close>

lemma phase_lines:
  assumes "disp_inv v jn s"
  shows "own_lines v jn s = [] \<or> (\<exists>rv. own_lines v jn s = [opening_line v jn rv])
    \<or> (\<exists>rv st us. own_lines v jn s = [opening_line v jn rv, settled_event (le_run v) rv st us] \<and> charge_ok s rv st)"
proof -
  have h: "held v jn s \<Longrightarrow> own_lines v jn s = [] \<or> (\<exists>rv. own_lines v jn s = [opening_line v jn rv])"
    by (auto simp: held_def split: option.splits)
  have l: "ledger_closed v jn s \<Longrightarrow> own_lines v jn s = [] \<or> (\<exists>rv st us. own_lines v jn s
      = [opening_line v jn rv, settled_event (le_run v) rv st us] \<and> charge_ok s rv st)"
    by (auto simp: ledger_closed_def split: option.splits)
  show ?thesis
    using disp_invD(4) [OF assms] h l by (cases "gd_phase s") (auto simp: phase_inv_def)
qed

section \<open>Properties\<close>

text \<open>No line of another dispatch carries the id of a reservation this one has opened (an id names the run, the job and
  a number of the governor's sequence).\<close>

definition ids_own :: "loop_env \<Rightarrow> manifest_job \<times> nat \<Rightarrow> gdisp \<Rightarrow> bool" where
  "ids_own v jn s \<longleftrightarrow> (\<forall>e \<in> set (gd_journal s). \<not> own_line v jn e \<longrightarrow>
     (\<forall>rv. opening_line v jn rv \<in> set (gd_journal s) \<longrightarrow> \<not> touches (journal_id (le_run v) (rv_id rv)) e))"

text \<open>C3 A crash loses no spend within the reservation. Stop a governed run with a dollar cap at any state of a
  dispatch and seed the next governor from the journal as it is then: if the dispatch has no line, it has
  observed no cost; if only its opening line is there, the seeded spend holds at least the whole reservation;
  if its settle line is there too, the seeded spend holds at least the settled charge, which is no less
  than all the cost the dispatch observed. The seed must have accepted the journal, and no other dispatch's
  line may carry the reservation's id.\<close>

theorem crash_keeps_spend:
  assumes "reach (gd_init v jn) (gd_step v jn) s" "le_governed v" "capUsd (gd_gov s) \<noteq> None" "ids_own v jn s"
    and "seedFromJournal (gd_journal s) (createGovernor c) = ok g"
  shows "case own_lines v jn s of
      [] \<Rightarrow> observed cost_of s = []
    | [e] \<Rightarrow> \<exists>rv. e = opening_line v jn rv \<and> rv_usd rv \<le> g_usdSpent g
    | e # x # es \<Rightarrow> es = [] \<and> (\<exists>rv st us. e = opening_line v jn rv \<and> x = settled_event (le_run v) rv st us
          \<and> observed_cost s \<le> st_charged st \<and> st_charged st \<le> g_usdSpent g)"
proof -
  have inv: "lined_inv v jn s" using reach_governed [OF assms(1,2)] by (rule lined.reach_inv)
  have d: "disp_inv v jn s" using inv by (simp add: lined_inv_def cap_inv_def)
  have mem: "e \<in> set (own_lines v jn s) \<longleftrightarrow> e \<in> set (gd_journal s) \<and> own_line v jn e" for e
    by (auto simp: own_lines_def)
  from phase_lines [OF d] consider "own_lines v jn s = []"
    | rv where "own_lines v jn s = [opening_line v jn rv]"
    | rv st us where "own_lines v jn s = [opening_line v jn rv, settled_event (le_run v) rv st us]" "charge_ok s rv st"
    by blast
  then show ?thesis
  proof cases
    case 1
    then show ?thesis using inv assms(3) by (simp add: lined_inv_def)
  next
    case (2 rv)
    let ?id = "journal_id (le_run v) (rv_id rv)"
    have o: "opening_line v jn rv \<in> set (gd_journal s)" using mem [of "opening_line v jn rv"] 2 by simp
    have "e = opening_line v jn rv" if "e \<in> set (gd_journal s)" "touches ?id e" for e
      using that o assms(4) mem [of e] 2 by (auto simp: ids_own_def)
    then have only: "\<forall>e \<in> set (gd_journal s). touches ?id e \<longrightarrow> e = opening_line v jn rv" by blast
    obtain o' where o': "opening_line v jn rv = Reservation_Opened o'" "ro_id o' = ?id" "ro_usd o' = rv_usd rv"
      by (simp add: opening_line_def opened_event_def)
    have "map_of (unresolved (gd_journal s)) ?id = Some (rv_usd rv)"
      using unresolved_kept [of o' "gd_journal s"] o only unfolding o' by blast
    from seed_charges_open [OF assms(5) this] 2 show ?thesis by auto
  next
    case (3 rv st us)
    have "settled_event (le_run v) rv st us \<in> set (gd_journal s)"
      using mem [of "settled_event (le_run v) rv st us"] 3(1) by simp
    then have "st_charged st \<le> g_usdSpent g"
      using seed_charges_settled [OF assms(5)] by (fastforce simp: settled_event_def)
    moreover have "observed_cost s \<le> st_charged st" using 3(2) by (simp add: charge_ok_def split: charge_basis.split)
    ultimately show ?thesis using 3(1) by auto
  qed
qed

text \<open>The demo dispatch, stopped after it observed two dollars.\<close>

definition demo_restart :: governor where
  "demo_restart = (case seedFromJournal (gd_journal demo_reported) (createGovernor (demo_config (Some 10))) of
     Inl _ \<Rightarrow> demo_start | Inr g \<Rightarrow> g)"

lemma demo_restart_ok: "seedFromJournal (gd_journal demo_reported) (createGovernor (demo_config (Some 10))) = ok demo_restart"
  by code_simp

lemma demo_reported_facts:
  "capUsd (gd_gov demo_reported) = Some 3" "list_all (own_line demo_denv demo_jn) (gd_journal demo_reported)"
  "length (own_lines demo_denv demo_jn demo_reported) = 1"
  by code_simp+

theorem crash_keeps_spend_witness:
  "\<exists>rv. own_lines demo_denv demo_jn demo_reported = [opening_line demo_denv demo_jn rv]
     \<and> rv_usd rv \<le> g_usdSpent demo_restart"
proof -
  have "ids_own demo_denv demo_jn demo_reported"
    using demo_reported_facts(2) unfolding ids_own_def list_all_iff by blast
  moreover obtain e where "own_lines demo_denv demo_jn demo_reported = [e]"
    using demo_reported_facts(3) by (auto simp: length_Suc_conv)
  ultimately show ?thesis
    using crash_keeps_spend [OF demo_dispatch_reach(2) demo_denv_governed _ _ demo_restart_ok] demo_reported_facts(1)
    by auto
qed

end
