(* ===== verification/Plan_Lock.thy ===== *)
theory Plan_Lock
  imports Run_Log
begin

text \<open>
  The plan lock of \<open>src/kernel/journal.ts\<close>: any number of acquisitions, on any number of hosts, publish
  and release lock records in one journal directory through exclusive links, claims on predecessors and
  renames. A step is one system call of one acquisition (a link, a read, a probe, a rename), or a
  crash, a reboot or an error. The publication guard decides whether an acquisition begins (the entry
  \<open>acquirePlanLock\<close>), but a stale or stolen guard excludes no one, so the steps do not consult it and every
  interleaving of acquisitions is a run. A record read from a file is one that was written whole.
\<close>

section \<open>Records and names\<close>

type_synonym nonce = string
type_synonym host = string

record lock_record =
  lr_nonce :: nonce
  lr_socketPath :: string
  lr_pid :: nat
  lr_host :: host
  lr_bootId :: string
  lr_runId :: run_id
  lr_released :: bool

definition MAX_LOCKED_PLAN_ID :: nat where
  "MAX_LOCKED_PLAN_ID = 255 - length ''.lock.json.'' - 36 - length ''.released.tmp''"

datatype lock_refusal = Unsafe_Id string | Plan_Id_Too_Long plan_id nat | ForeignHost host run_id | LockedBy run_id

text \<open>The checks before an acquisition touches the disk (the head of \<open>acquirePlanLock\<close>).\<close>

definition lockable :: "plan_id \<Rightarrow> run_id \<Rightarrow> lock_refusal + unit" where
  "lockable p r =
     (if \<not> RUN_ID_PATTERN p then throw (Unsafe_Id p)
      else if \<not> RUN_ID_PATTERN r then throw (Unsafe_Id r)
      else if length p > MAX_LOCKED_PLAN_ID then throw (Plan_Id_Too_Long p (length p))
      else ok ())"

text \<open>The files of a plan's lock, beside the journal.\<close>

definition lock_path :: "plan_id \<Rightarrow> string" where "lock_path p = p @ ''.lock.json''"

definition claim_path :: "plan_id \<Rightarrow> nonce \<Rightarrow> string" where
  "claim_path p n = lock_path p @ ''.'' @ n @ ''.claim''"

definition temporary_path :: "plan_id \<Rightarrow> nonce \<Rightarrow> string" where
  "temporary_path p n = lock_path p @ ''.'' @ n @ ''.tmp''"

definition tombstone_path :: "plan_id \<Rightarrow> nonce \<Rightarrow> string" where
  "tombstone_path p n = lock_path p @ ''.'' @ n @ ''.released.tmp''"

definition aborted_path :: "plan_id \<Rightarrow> nonce \<Rightarrow> string" where
  "aborted_path p n = lock_path p @ ''.'' @ n @ ''.aborted.tmp''"

section \<open>Acquisitions\<close>

text \<open>The system call an acquisition is about to make.\<close>

datatype lphase =
    Linking
  | ReadPath
  | Judging lock_record
  | Claiming lock_record nat  \<comment> \<open>the predecessor and the number of claims walked past\<close>
  | ReadingClaim lock_record nat
  | PassRead lock_record nat  \<comment> \<open>the claimant read from the claim\<close>
  | PassStat lock_record "lock_record option" nat  \<comment> \<open>and the canonical record\<close>
  | PassProbe lock_record nat
  | Renaming lock_record
  | Rechecking lock_record
  | Abandoning lock_record
  | Verifying
  | Listening
  | Held
  | RelStat
  | RelRename
  | Over

record acquirer =
  aq_rec :: lock_record
  aq_phase :: lphase
  aq_alive :: bool
  aq_socket :: bool
  aq_handle :: "lock_record option"  \<comment> \<open>the file opened after publication; each file is written once, so its record names its inode\<close>

text \<open>The journal directory, the hosts and every acquisition ever started, by nonce. \<open>lw_line\<close>, the
  nonces in the order they were published or claimed, is for the specification only.\<close>

record lock_world =
  lw_path :: "lock_record option"
  lw_claims :: "(nonce, lock_record) omap"
  lw_boot :: "host \<Rightarrow> string"
  lw_acq :: "(nonce, acquirer) omap"
  lw_line :: "nonce list"

definition live :: "lock_world \<Rightarrow> nonce \<Rightarrow> acquirer \<Rightarrow> bool" where
  "live w n a \<longleftrightarrow> map_of (lw_acq w) n = Some a \<and> aq_alive a"

definition goto :: "nonce \<Rightarrow> acquirer \<Rightarrow> lphase \<Rightarrow> lock_world \<Rightarrow> lock_world" where
  "goto n a p w = w\<lparr>lw_acq := omap_set n (a\<lparr>aq_phase := p\<rparr>) (lw_acq w)\<rparr>"

definition with_socket :: "nonce \<Rightarrow> acquirer \<Rightarrow> bool \<Rightarrow> lphase \<Rightarrow> lock_world \<Rightarrow> lock_world" where
  "with_socket n a b p w = w\<lparr>lw_acq := omap_set n (a\<lparr>aq_phase := p, aq_socket := b\<rparr>) (lw_acq w)\<rparr>"

section \<open>Judging a record\<close>

definition assertReclaimable :: "lock_record \<Rightarrow> lock_record \<Rightarrow> bool \<Rightarrow> bool \<Rightarrow> lock_refusal + unit" where
  "assertReclaimable previous rec socketAlive pidAlive =
     (if lr_released previous then ok ()
      else if lr_host previous \<noteq> lr_host rec then throw (ForeignHost (lr_host previous) (lr_runId previous))
      else if socketAlive \<or> lr_bootId previous = lr_bootId rec \<and> pidAlive then throw (LockedBy (lr_runId previous))
      else ok ())"

text \<open>
  What the probes may answer: a listening socket and a running process are always seen; a full backlog, a
  deadline, a missing permission or a reused process id can only add answers that refuse.
\<close>

definition socketIsAlive :: "lock_world \<Rightarrow> lock_record \<Rightarrow> bool \<Rightarrow> bool" where
  "socketIsAlive w r b \<longleftrightarrow>
     (case map_of (lw_acq w) (lr_nonce r) of None \<Rightarrow> True | Some a \<Rightarrow> aq_alive a \<and> aq_socket a \<longrightarrow> b)"

definition pidIsAlive :: "lock_world \<Rightarrow> lock_record \<Rightarrow> bool \<Rightarrow> bool" where
  "pidIsAlive w r b \<longleftrightarrow>
     (list_ex (\<lambda>x. case map_of (lw_acq w) x of
          None \<Rightarrow> False
        | Some a \<Rightarrow> aq_alive a \<and> lr_host (aq_rec a) = lr_host r \<and> lr_pid (aq_rec a) = lr_pid r) (okeys (lw_acq w))
       \<longrightarrow> b)"

section \<open>Publication\<close>

definition publish :: "nonce \<Rightarrow> acquirer \<Rightarrow> lock_world \<Rightarrow> lock_world" where
  "publish n a w = w\<lparr>lw_path := Some (aq_rec a), lw_line := (if n \<in> set (lw_line w) then lw_line w else lw_line w @ [n])\<rparr>"

text \<open>\<open>reported\<close> is false for a link that took effect but reported that the name exists (a retransmission).\<close>

definition link_record :: "bool \<Rightarrow> nonce \<Rightarrow> acquirer \<Rightarrow> lock_world \<Rightarrow> lock_world" where
  "link_record reported n a w =
     (case lw_path w of
        None \<Rightarrow> goto n a (if reported then Verifying else ReadPath) (publish n a w)
      | Some _ \<Rightarrow> goto n a ReadPath w)"

definition read_path :: "nonce \<Rightarrow> acquirer \<Rightarrow> lock_world \<Rightarrow> lock_world" where
  "read_path n a w =
     (case lw_path w of
        None \<Rightarrow> goto n a Over w
      | Some previous \<Rightarrow> goto n a (if lr_nonce previous = n then Verifying else Judging previous) w)"

definition judge :: "bool \<Rightarrow> bool \<Rightarrow> lock_record \<Rightarrow> nonce \<Rightarrow> acquirer \<Rightarrow> lock_world \<Rightarrow> lock_world" where
  "judge sock pid previous n a w =
     (case assertReclaimable previous (aq_rec a) sock pid of
        Inl _ \<Rightarrow> goto n a Over w
      | Inr _ \<Rightarrow> goto n a (Claiming previous 0) w)"

section \<open>Succession\<close>

definition MAX_CLAIMS :: nat where "MAX_CLAIMS = 10000"

definition claim_link :: "bool \<Rightarrow> lock_record \<Rightarrow> nat \<Rightarrow> nonce \<Rightarrow> acquirer \<Rightarrow> lock_world \<Rightarrow> lock_world" where
  "claim_link reported predecessor k n a w =
     (if k \<ge> MAX_CLAIMS then goto n a Over w
      else if omap_has (lr_nonce predecessor) (lw_claims w) then goto n a (ReadingClaim predecessor k) w
      else goto n a (if reported then Renaming predecessor else ReadingClaim predecessor k)
             (w\<lparr>lw_claims := omap_set (lr_nonce predecessor) (aq_rec a) (lw_claims w), lw_line := lw_line w @ [n]\<rparr>))"

definition read_claim :: "lock_record \<Rightarrow> nat \<Rightarrow> nonce \<Rightarrow> acquirer \<Rightarrow> lock_world \<Rightarrow> lock_world" where
  "read_claim predecessor k n a w =
     (case map_of (lw_claims w) (lr_nonce predecessor) of
        None \<Rightarrow> goto n a Over w
      | Some claimant \<Rightarrow> goto n a (if lr_nonce claimant = n then Renaming predecessor else PassRead claimant k) w)"

text \<open>\<open>assertPassable\<close>: read the canonical record, look for a claim on the claimant, judge it.\<close>

definition pass_read :: "lock_record \<Rightarrow> nat \<Rightarrow> nonce \<Rightarrow> acquirer \<Rightarrow> lock_world \<Rightarrow> lock_world" where
  "pass_read claimant k n a w = goto n a (PassStat claimant (lw_path w) k) w"

definition pass_stat :: "lock_record \<Rightarrow> lock_record option \<Rightarrow> nat \<Rightarrow> nonce \<Rightarrow> acquirer \<Rightarrow> lock_world \<Rightarrow> lock_world" where
  "pass_stat claimant current k n a w =
     (if omap_has (lr_nonce claimant) (lw_claims w) then goto n a (Claiming claimant (k + 1)) w
      else if lr_released claimant then goto n a (Claiming claimant (k + 1)) w
      else case current of
        Some r \<Rightarrow> if lr_nonce r = lr_nonce claimant \<and> lr_released r then goto n a (Claiming claimant (k + 1)) w
                  else goto n a (PassProbe claimant k) w
      | None \<Rightarrow> goto n a (PassProbe claimant k) w)"

definition pass_probe :: "bool \<Rightarrow> bool \<Rightarrow> lock_record \<Rightarrow> nat \<Rightarrow> nonce \<Rightarrow> acquirer \<Rightarrow> lock_world \<Rightarrow> lock_world" where
  "pass_probe sock pid claimant k n a w =
     (case assertReclaimable claimant (aq_rec a) sock pid of
        Inl _ \<Rightarrow> goto n a Over w
      | Inr _ \<Rightarrow> goto n a (Claiming claimant (k + 1)) w)"

text \<open>A rename that reports a failure may have taken effect.\<close>

definition rename_record :: "lock_record \<Rightarrow> bool \<Rightarrow> bool \<Rightarrow> nonce \<Rightarrow> acquirer \<Rightarrow> lock_world \<Rightarrow> lock_world" where
  "rename_record predecessor applied reported n a w =
     (if reported then goto n a Verifying (publish n a w)
      else goto n a (Rechecking predecessor) (if applied then publish n a w else w))"

definition recheck :: "lock_record \<Rightarrow> bool \<Rightarrow> nonce \<Rightarrow> acquirer \<Rightarrow> lock_world \<Rightarrow> lock_world" where
  "recheck predecessor readable n a w =
     (if readable \<and> map_option lr_nonce (lw_path w) = Some n then goto n a Verifying w
      else goto n a (Abandoning predecessor) w)"

definition abandonClaim :: "lock_record \<Rightarrow> bool \<Rightarrow> nonce \<Rightarrow> acquirer \<Rightarrow> lock_world \<Rightarrow> lock_world" where
  "abandonClaim predecessor written n a w =
     goto n a Over
       (if written \<and> map_option lr_nonce (map_of (lw_claims w) (lr_nonce predecessor)) = Some n
        then w\<lparr>lw_claims := omap_set (lr_nonce predecessor) ((aq_rec a)\<lparr>lr_released := True\<rparr>) (lw_claims w)\<rparr>
        else w)"

section \<open>Ownership\<close>

definition assertHeld :: "nonce \<Rightarrow> lock_world \<Rightarrow> bool" where
  "assertHeld n w \<longleftrightarrow> (case lw_path w of None \<Rightarrow> False | Some r \<Rightarrow> lr_nonce r = n \<and> \<not> lr_released r)"

text \<open>The owner's set-up: the published record is read back, the socket listens, the lease is re-checked.
  Any failure starts the rollback.\<close>

definition verify :: "nonce \<Rightarrow> acquirer \<Rightarrow> lock_world \<Rightarrow> lock_world" where
  "verify n a w =
     (case lw_path w of
        None \<Rightarrow> goto n a RelStat w
      | Some r \<Rightarrow> goto n (a\<lparr>aq_handle := Some r\<rparr>) (if lr_nonce r = n then Listening else RelStat) w)"

definition verify_fails :: "bool \<Rightarrow> nonce \<Rightarrow> acquirer \<Rightarrow> lock_world \<Rightarrow> lock_world" where
  "verify_fails opened n a w = goto n (a\<lparr>aq_handle := (if opened then lw_path w else None)\<rparr>) RelStat w"

definition listen :: "nonce \<Rightarrow> acquirer \<Rightarrow> lock_world \<Rightarrow> lock_world" where
  "listen n a w = (if assertHeld n w then with_socket n a True Held w else goto n a RelStat w)"

text \<open>\<open>markReleased\<close>: the tombstone replaces the record when the file opened after publication is
  still the canonical one, or, when none was opened, while the record there has our nonce. Only a
  release (its handle open) is tried again after a failure; a rollback is not.\<close>

definition rel_stat :: "nonce \<Rightarrow> acquirer \<Rightarrow> lock_world \<Rightarrow> lock_world" where
  "rel_stat n a w =
     (if (case aq_handle a of
            None \<Rightarrow> map_option lr_nonce (lw_path w) = Some n
          | Some ours \<Rightarrow> lw_path w = Some ours)
      then goto n a RelRename w else goto n a Over w)"

definition rel_rename :: "bool \<Rightarrow> bool \<Rightarrow> nonce \<Rightarrow> acquirer \<Rightarrow> lock_world \<Rightarrow> lock_world" where
  "rel_rename applied reported n a w =
     goto n a (if reported \<or> aq_handle a = None then Over else RelStat)
       (if reported \<or> applied then w\<lparr>lw_path := Some ((aq_rec a)\<lparr>lr_released := True\<rparr>)\<rparr> else w)"

definition start_acquirer :: "nonce \<Rightarrow> host \<Rightarrow> nat \<Rightarrow> run_id \<Rightarrow> lock_world \<Rightarrow> lock_world" where
  "start_acquirer n h pid r w = w\<lparr>lw_acq := omap_set n
     \<lparr>aq_rec = \<lparr>lr_nonce = n, lr_socketPath = ''/tmp/cq-j-'' @ n @ ''.sock'', lr_pid = pid, lr_host = h,
                lr_bootId = lw_boot w h, lr_runId = r, lr_released = False\<rparr>,
      aq_phase = Linking, aq_alive = True, aq_socket = False, aq_handle = None\<rparr> (lw_acq w)\<rparr>"

section \<open>Entry\<close>

text \<open>
  The head of \<open>acquirePlanLock\<close>. The answers of the file system about the legacy guard
  \<open>planId.lock.acquiring\<close> and of the lock library about the publication guard \<open>planId.lock.guard\<close> are
  arguments: a guard directory left by an interrupted acquisition answers \<open>ELOCKED\<close> until it is stale.
\<close>

datatype legacy_stat = Legacy_Absent | Legacy_Present | Legacy_Unreadable string

datatype guard_answer = Guard_Granted | Guard_Locked | Guard_Broken string

datatype acquire_error =
    Not_Lockable lock_refusal
  | AcquisitionBusy plan_id
  | LegacyStatFailed string
  | GuardFailed plan_id run_id string
  | NoBootIdentity
  | GuardCompromised plan_id

text \<open>\<open>acquirePublicationGuard\<close>: \<open>ELOCKED\<close> is busy, any other failure an error of its own.\<close>

definition acquirePublicationGuard :: "guard_answer \<Rightarrow> plan_id \<Rightarrow> run_id \<Rightarrow> acquire_error + unit" where
  "acquirePublicationGuard ans p r =
     (case ans of
        Guard_Granted \<Rightarrow> ok ()
      | Guard_Locked \<Rightarrow> throw (AcquisitionBusy p)
      | Guard_Broken e \<Rightarrow> throw (GuardFailed p r e))"

definition acquirePlanLock :: "legacy_stat \<Rightarrow> guard_answer \<Rightarrow> plan_id \<Rightarrow> run_id \<Rightarrow> nonce \<Rightarrow> host \<Rightarrow> nat \<Rightarrow> lock_world
    \<Rightarrow> acquire_error + lock_world" where
  "acquirePlanLock legacy guard p r n h pid w =
     (case lockable p r of
        Inl e \<Rightarrow> throw (Not_Lockable e)
      | Inr _ \<Rightarrow>
        (case legacy of
           Legacy_Present \<Rightarrow> throw (AcquisitionBusy p)
         | Legacy_Unreadable e \<Rightarrow> throw (LegacyStatFailed e)
         | Legacy_Absent \<Rightarrow>
           bind_result (acquirePublicationGuard guard p r) (\<lambda>_.
             if lw_boot w h = [] then throw NoBootIdentity
             else ok (start_acquirer n h pid r w))))"

text \<open>Its end: the last fence. A guard compromised by then rolls the held lock back, as does a release of the
  guard that fails.\<close>

definition acquire_returns :: "bool \<Rightarrow> plan_id \<Rightarrow> nonce \<Rightarrow> acquirer \<Rightarrow> lock_world \<Rightarrow> acquire_error option \<times> lock_world" where
  "acquire_returns compromised p n a w =
     (if compromised then (Some (GuardCompromised p), with_socket n a False RelStat w) else (None, w))"

section \<open>Steps\<close>

text \<open>A crash ends a process with all its acquisitions; a reboot every process of the host.\<close>

definition die :: "(lock_record \<Rightarrow> bool) \<Rightarrow> lock_world \<Rightarrow> lock_world" where
  "die P w = w\<lparr>lw_acq := map (\<lambda>(n, a). (n, if P (aq_rec a) then a\<lparr>aq_alive := False\<rparr> else a)) (lw_acq w)\<rparr>"

definition giving_up :: "lphase \<Rightarrow> bool" where
  "giving_up p = (case p of
      Linking \<Rightarrow> True | ReadPath \<Rightarrow> True | Judging _ \<Rightarrow> True | Claiming _ _ \<Rightarrow> True | ReadingClaim _ _ \<Rightarrow> True
    | PassRead _ _ \<Rightarrow> True | PassStat _ _ _ \<Rightarrow> True | PassProbe _ _ \<Rightarrow> True | RelStat \<Rightarrow> True | RelRename \<Rightarrow> True
    | _ \<Rightarrow> False)"

inductive lock_step :: "lock_world \<Rightarrow> lock_world \<Rightarrow> bool" where
  starts: "map_of (lw_acq w) n = None \<Longrightarrow> lock_step w (start_acquirer n h pid r w)"
| links: "live w n a \<Longrightarrow> aq_phase a = Linking \<Longrightarrow> lock_step w (link_record reported n a w)"
| reads: "live w n a \<Longrightarrow> aq_phase a = ReadPath \<Longrightarrow> lock_step w (read_path n a w)"
| judges: "live w n a \<Longrightarrow> aq_phase a = Judging r \<Longrightarrow> socketIsAlive w r sock \<Longrightarrow> pidIsAlive w r pid
    \<Longrightarrow> lock_step w (judge sock pid r n a w)"
| claims: "live w n a \<Longrightarrow> aq_phase a = Claiming r k \<Longrightarrow> lock_step w (claim_link reported r k n a w)"
| reads_claim: "live w n a \<Longrightarrow> aq_phase a = ReadingClaim r k \<Longrightarrow> lock_step w (read_claim r k n a w)"
| passes_read: "live w n a \<Longrightarrow> aq_phase a = PassRead c k \<Longrightarrow> lock_step w (pass_read c k n a w)"
| passes_stat: "live w n a \<Longrightarrow> aq_phase a = PassStat c cur k \<Longrightarrow> lock_step w (pass_stat c cur k n a w)"
| passes_probe: "live w n a \<Longrightarrow> aq_phase a = PassProbe c k \<Longrightarrow> socketIsAlive w c sock \<Longrightarrow> pidIsAlive w c pid
    \<Longrightarrow> lock_step w (pass_probe sock pid c k n a w)"
| renames: "live w n a \<Longrightarrow> aq_phase a = Renaming r \<Longrightarrow> lock_step w (rename_record r applied reported n a w)"
| rechecks: "live w n a \<Longrightarrow> aq_phase a = Rechecking r \<Longrightarrow> lock_step w (recheck r readable n a w)"
| abandons: "live w n a \<Longrightarrow> aq_phase a = Abandoning r \<Longrightarrow> lock_step w (abandonClaim r written n a w)"
| verifies: "live w n a \<Longrightarrow> aq_phase a = Verifying \<Longrightarrow> lock_step w (verify n a w)"
| listens: "live w n a \<Longrightarrow> aq_phase a = Listening \<Longrightarrow> lock_step w (listen n a w)"
| open_fails: "live w n a \<Longrightarrow> aq_phase a = Verifying \<Longrightarrow> lock_step w (verify_fails opened n a w)"
| setup_fails: "live w n a \<Longrightarrow> aq_phase a = Listening \<Longrightarrow> lock_step w (with_socket n a False RelStat w)"
| releases: "live w n a \<Longrightarrow> aq_phase a = Held \<Longrightarrow> lock_step w (with_socket n a False RelStat w)"
| rel_stats: "live w n a \<Longrightarrow> aq_phase a = RelStat \<Longrightarrow> lock_step w (rel_stat n a w)"
| rel_renames: "live w n a \<Longrightarrow> aq_phase a = RelRename \<Longrightarrow> lock_step w (rel_rename applied reported n a w)"
| gives_up: "live w n a \<Longrightarrow> giving_up (aq_phase a) \<Longrightarrow> lock_step w (goto n a Over w)"
| crashes: "lock_step w (die (\<lambda>r. lr_host r = h \<and> lr_pid r = pid) w)"
| reboots: "lock_step w ((die (\<lambda>r. lr_host r = h) w)\<lparr>lw_boot := (lw_boot w)(h := b)\<rparr>)"

inductive_cases lock_stepE: "lock_step w w'"

definition lock_init :: "lock_world \<Rightarrow> bool" where
  "lock_init w \<longleftrightarrow> lw_path w = None \<and> lw_claims w = [] \<and> lw_acq w = [] \<and> lw_line w = []"

definition holding :: "lock_world \<Rightarrow> nonce \<Rightarrow> bool" where
  "holding w n \<longleftrightarrow> (\<exists>a. live w n a \<and> aq_phase a = Held)"

end
