(* ===== verification/Plan_Lock_Inv.thy ===== *)
theory Plan_Lock_Inv
  imports Plan_Lock
begin

text \<open>
  The invariant of the plan lock's directory. Claims form one line of acquisitions: each member but the last is
  claimed, and a claimed member can never own again. Every step of one acquisition is a \<open>moves\<close>: it leaves
  the directory alone, publishes, claims the last member, releases or abandons; one lemma shows
  that any of those keeps the invariant, so each operation has only its own phase to account for.
\<close>

section \<open>Acquisitions that can own no more\<close>

definition quiet :: "lock_world \<Rightarrow> nonce \<Rightarrow> bool" where
  "quiet w n \<longleftrightarrow> (case map_of (lw_acq w) n of
      None \<Rightarrow> False
    | Some a \<Rightarrow> \<not> aq_alive a \<or> aq_phase a = Over \<or> (\<exists>p. aq_phase a = Abandoning p)
        \<or> aq_phase a = RelStat \<and> lw_path w \<noteq> Some (aq_rec a))"

definition active :: "lock_world \<Rightarrow> nonce \<Rightarrow> bool" where
  "active w n \<longleftrightarrow> n \<in> set (lw_line w) \<and> \<not> quiet w n"

text \<open>A record found in a file is that of a member of the line, or its released copy once it is quiet.\<close>

definition known :: "lock_world \<Rightarrow> lock_record \<Rightarrow> bool" where
  "known w r \<longleftrightarrow> lr_nonce r \<in> set (lw_line w) \<and>
     (\<exists>a. map_of (lw_acq w) (lr_nonce r) = Some a \<and>
        (r = aq_rec a \<or> r = (aq_rec a)\<lparr>lr_released := True\<rparr> \<and> quiet w (lr_nonce r)))"

definition own_claim :: "lock_world \<Rightarrow> lock_record \<Rightarrow> nonce \<Rightarrow> acquirer \<Rightarrow> bool" where
  "own_claim w p n a \<longleftrightarrow> n \<in> set (lw_line w) \<and> map_of (lw_claims w) (lr_nonce p) = Some (aq_rec a)"

definition evidence :: "lock_world \<Rightarrow> nonce \<Rightarrow> lock_record \<Rightarrow> bool" where
  "evidence w n r \<longleftrightarrow> n \<notin> set (lw_line w) \<and> known w r"

text \<open>What an acquisition knows at each of its system calls.\<close>

fun phase_ok :: "lock_world \<Rightarrow> nonce \<Rightarrow> acquirer \<Rightarrow> lphase \<Rightarrow> bool" where
  "phase_ok w n a Linking = (n \<notin> set (lw_line w))"
| "phase_ok w n a ReadPath = (n \<in> set (lw_line w) \<longrightarrow> lw_path w = Some (aq_rec a))"
| "phase_ok w n a (Judging r) = evidence w n r"
| "phase_ok w n a (Claiming r k) = (evidence w n r \<and> quiet w (lr_nonce r))"
| "phase_ok w n a (ReadingClaim r k) =
     (omap_has (lr_nonce r) (lw_claims w) \<and> (n \<in> set (lw_line w) \<longrightarrow> own_claim w r n a))"
| "phase_ok w n a (PassRead c k) = evidence w n c"
| "phase_ok w n a (PassStat c cur k) = (evidence w n c \<and> (case cur of None \<Rightarrow> True | Some r \<Rightarrow> known w r))"
| "phase_ok w n a (PassProbe c k) = evidence w n c"
| "phase_ok w n a (Renaming p) = own_claim w p n a"
| "phase_ok w n a (Rechecking p) = own_claim w p n a"
| "phase_ok w n a (Abandoning p) = own_claim w p n a"
| "phase_ok w n a Verifying = (n \<in> set (lw_line w) \<and> lw_path w = Some (aq_rec a))"
| "phase_ok w n a Listening = (n \<in> set (lw_line w) \<and> lw_path w = Some (aq_rec a) \<and> aq_handle a = Some (aq_rec a))"
| "phase_ok w n a Held = (n \<in> set (lw_line w) \<and> lw_path w = Some (aq_rec a) \<and> aq_handle a = Some (aq_rec a))"
| "phase_ok w n a RelStat =
     (n \<in> set (lw_line w) \<and> (case aq_handle a of None \<Rightarrow> lw_path w = Some (aq_rec a) | Some h \<Rightarrow> h = aq_rec a))"
| "phase_ok w n a RelRename = (n \<in> set (lw_line w) \<and> lw_path w = Some (aq_rec a)
     \<and> (aq_handle a = None \<or> aq_handle a = Some (aq_rec a)))"
| "phase_ok w n a Over = True"

definition rec_ok :: "lock_world \<Rightarrow> nonce \<Rightarrow> acquirer \<Rightarrow> bool" where
  "rec_ok w n a \<longleftrightarrow> lr_nonce (aq_rec a) = n \<and> \<not> lr_released (aq_rec a) \<and>
     (aq_alive a \<longrightarrow> lr_bootId (aq_rec a) = lw_boot w (lr_host (aq_rec a)))"

definition acq_ok :: "lock_world \<Rightarrow> bool" where
  "acq_ok w \<longleftrightarrow> (\<forall>n a. map_of (lw_acq w) n = Some a \<longrightarrow>
     rec_ok w n a \<and> (aq_alive a \<longrightarrow> phase_ok w n a (aq_phase a)))"

definition line_ok :: "lock_world \<Rightarrow> bool" where
  "line_ok w \<longleftrightarrow> distinct (lw_line w) \<and> (lw_path w = None \<longleftrightarrow> lw_line w = []) \<and>
     (\<forall>x \<in> set (lw_line w). map_of (lw_acq w) x \<noteq> None \<and> (x = last (lw_line w) \<or> omap_has x (lw_claims w))) \<and>
     (lw_line w \<noteq> [] \<longrightarrow> \<not> omap_has (last (lw_line w)) (lw_claims w)) \<and>
     (\<forall>i. Suc i < length (lw_line w) \<longrightarrow>
        map_option lr_nonce (map_of (lw_claims w) (lw_line w ! i)) = Some (lw_line w ! Suc i))"

definition files_ok :: "lock_world \<Rightarrow> bool" where
  "files_ok w \<longleftrightarrow> (\<forall>r. lw_path w = Some r \<longrightarrow> known w r) \<and>
     (\<forall>x c. map_of (lw_claims w) x = Some c \<longrightarrow> x \<in> set (lw_line w) \<and> quiet w x \<and> known w c)"

definition lock_inv :: "lock_world \<Rightarrow> bool" where
  "lock_inv w \<longleftrightarrow> acq_ok w \<and> line_ok w \<and> files_ok w"

lemma lock_inv_init: "lock_init w \<Longrightarrow> lock_inv w"
  by (simp add: lock_init_def lock_inv_def acq_ok_def line_ok_def files_ok_def)

text \<open>Only the last member of the line can be active.\<close>

lemma active_last: "lock_inv w \<Longrightarrow> active w n \<Longrightarrow> n = last (lw_line w)"
  by (auto simp: lock_inv_def line_ok_def files_ok_def active_def omap_has_def)

lemma active_unique: "lock_inv w \<Longrightarrow> active w m \<Longrightarrow> active w n \<Longrightarrow> m = n"
  by (metis active_last)

section \<open>The moves of an acquisition\<close>

definition same_files :: "lock_world \<Rightarrow> lock_world \<Rightarrow> bool" where
  "same_files w w' \<longleftrightarrow> lw_path w' = lw_path w \<and> lw_claims w' = lw_claims w \<and> lw_line w' = lw_line w"

definition creates :: "nonce \<Rightarrow> acquirer \<Rightarrow> lock_world \<Rightarrow> lock_world \<Rightarrow> bool" where
  "creates n a w w' \<longleftrightarrow> lw_path w = None \<and> n \<notin> set (lw_line w)
     \<and> lw_path w' = Some (aq_rec a) \<and> lw_claims w' = lw_claims w \<and> lw_line w' = lw_line w @ [n]"

definition replaces :: "nonce \<Rightarrow> acquirer \<Rightarrow> lock_world \<Rightarrow> lock_world \<Rightarrow> bool" where
  "replaces n a w w' \<longleftrightarrow> active w n \<and> lw_claims w' = lw_claims w \<and> lw_line w' = lw_line w
     \<and> (lw_path w' = Some (aq_rec a) \<or> lw_path w' = Some ((aq_rec a)\<lparr>lr_released := True\<rparr>) \<and> quiet w' n)"

definition succeeds :: "nonce \<Rightarrow> acquirer \<Rightarrow> lock_world \<Rightarrow> lock_world \<Rightarrow> bool" where
  "succeeds n a w w' \<longleftrightarrow> (\<exists>p. p \<in> set (lw_line w) \<and> quiet w p \<and> \<not> omap_has p (lw_claims w)
     \<and> n \<notin> set (lw_line w) \<and> lw_path w' = lw_path w
     \<and> lw_claims w' = omap_set p (aq_rec a) (lw_claims w) \<and> lw_line w' = lw_line w @ [n])"

definition aborts :: "nonce \<Rightarrow> acquirer \<Rightarrow> lock_world \<Rightarrow> lock_world \<Rightarrow> bool" where
  "aborts n a w w' \<longleftrightarrow> (\<exists>p. own_claim w p n a \<and> quiet w' n \<and> lw_path w' = lw_path w
     \<and> lw_claims w' = omap_set (lr_nonce p) ((aq_rec a)\<lparr>lr_released := True\<rparr>) (lw_claims w) \<and> lw_line w' = lw_line w)"

definition file_move :: "nonce \<Rightarrow> acquirer \<Rightarrow> lock_world \<Rightarrow> lock_world \<Rightarrow> bool" where
  "file_move n a w w' \<longleftrightarrow> same_files w w' \<or> creates n a w w' \<or> replaces n a w w' \<or> succeeds n a w w' \<or> aborts n a w w'"

definition moves :: "nonce \<Rightarrow> acquirer \<Rightarrow> lock_world \<Rightarrow> lock_world \<Rightarrow> bool" where
  "moves n a' w w' \<longleftrightarrow> lw_acq w' = omap_set n a' (lw_acq w) \<and> lw_boot w' = lw_boot w \<and> rec_ok w n a' \<and> aq_alive a'
     \<and> (case map_of (lw_acq w) n of None \<Rightarrow> same_files w w' | Some a \<Rightarrow> aq_alive a \<and> aq_rec a = aq_rec a')
     \<and> (quiet w n \<longrightarrow> quiet w' n) \<and> file_move n a' w w'"

lemmas move_defs = file_move_def same_files_def creates_def replaces_def succeeds_def aborts_def


text \<open>A move from a state of the invariant.\<close>

definition moving :: "nonce \<Rightarrow> acquirer \<Rightarrow> lock_world \<Rightarrow> lock_world \<Rightarrow> bool" where
  "moving n a' w w' \<longleftrightarrow> lock_inv w \<and> moves n a' w w'"

lemma moving_inv: "moving n a' w w' \<Longrightarrow> lock_inv w"
  by (simp add: moving_def)

lemma moving_moves: "moving n a' w w' \<Longrightarrow> moves n a' w w'"
  by (simp add: moving_def)

lemma moves_file:
  assumes M: "moving n a' w w'"
  shows "file_move n a' w w'"
  using moving_moves [OF M] by (simp add: moves_def)

lemma moves_acq:
  assumes M: "moving n a' w w'"
  shows "map_of (lw_acq w') x = (if x = n then Some a' else map_of (lw_acq w) x)"
  using moving_moves [OF M] by (simp add: moves_def)

lemma moves_rec:
  assumes M: "moving n a' w w'"
  shows "lr_nonce (aq_rec a') = n" "\<not> lr_released (aq_rec a')"
  using moving_moves [OF M] by (auto simp: moves_def rec_ok_def)

lemma moves_line:
  assumes M: "moving n a' w w'"
  shows "lw_line w' = lw_line w \<or> n \<notin> set (lw_line w) \<and> lw_line w' = lw_line w @ [n]"
  using moves_file [OF M] by (auto simp: move_defs)

lemma moves_mono:
  assumes M: "moving n a' w w'"
  shows "x \<in> set (lw_line w) \<Longrightarrow> x \<in> set (lw_line w')"
  using moves_line [OF M] by auto

lemma moves_not_line:
  assumes M: "moving n a' w w'"
  shows "x \<noteq> n \<Longrightarrow> x \<notin> set (lw_line w) \<Longrightarrow> x \<notin> set (lw_line w')"
  using moves_line [OF M] by auto

lemma moves_path:
  assumes M: "moving n a' w w'"
  shows "lw_path w' = lw_path w \<or> (\<exists>r. lw_path w' = Some r \<and> lr_nonce r = n)"
  using moves_file [OF M] moves_rec [OF M] by (auto simp: move_defs)

lemma other_rec:
  assumes M: "moving n a' w w'"
  shows "map_of (lw_acq w) x = Some b \<Longrightarrow> lr_nonce (aq_rec b) = x"
  using moving_inv [OF M] by (auto simp: lock_inv_def acq_ok_def rec_ok_def)

lemma moves_quiet:
  assumes M: "moving n a' w w'"
  shows "quiet w x \<Longrightarrow> quiet w' x"
proof (cases "x = n")
  case True
  then show "quiet w x \<Longrightarrow> quiet w' x" using moving_moves [OF M] by (simp add: moves_def)
next
  case False
  assume "quiet w x"
  then show ?thesis
    using False moves_path [OF M] other_rec [OF M, of x] unfolding quiet_def moves_acq [OF M]
    by (auto split: option.splits)
qed

lemma moves_rec_eq:
  assumes M: "moving n a' w w'"
  shows "map_of (lw_acq w) n = Some b \<Longrightarrow> aq_rec b = aq_rec a'"
  using moving_moves [OF M] by (simp add: moves_def)

lemma moves_known:
  assumes M: "moving n a' w w'"
  shows "known w r \<Longrightarrow> known w' r"
proof -
  assume k: "known w r"
  then obtain b where b: "map_of (lw_acq w) (lr_nonce r) = Some b"
    and r: "r = aq_rec b \<or> r = (aq_rec b)\<lparr>lr_released := True\<rparr> \<and> quiet w (lr_nonce r)"
    by (auto simp: known_def)
  have "lr_nonce r \<in> set (lw_line w')" using k moves_mono [OF M] by (simp add: known_def)
  moreover have "\<exists>c. map_of (lw_acq w') (lr_nonce r) = Some c \<and> aq_rec c = aq_rec b"
    using b moves_rec_eq [OF M] by (auto simp: moves_acq [OF M])
  moreover have "quiet w (lr_nonce r) \<longrightarrow> quiet w' (lr_nonce r)" using moves_quiet [OF M] by blast
  ultimately show ?thesis using r by (auto simp: known_def)
qed

lemma moves_known_new:
  assumes M: "moving n a' w w'"
  shows "known w' (aq_rec a') \<longleftrightarrow> n \<in> set (lw_line w')"
  "quiet w' n \<Longrightarrow> known w' ((aq_rec a')\<lparr>lr_released := True\<rparr>) \<longleftrightarrow> n \<in> set (lw_line w')"
  using moves_rec [OF M] by (auto simp: known_def moves_acq [OF M])

lemma moves_path_of_active:
  assumes M: "moving n a' w w'"
    and x: "x \<noteq> n" "active w x" and b: "map_of (lw_acq w) x = Some b" and p: "lw_path w = Some (aq_rec b)"
  shows "lw_path w' = Some (aq_rec b)"
  proof -
  have "\<not> active w n" using active_unique [OF moving_inv [OF M] x(2)] x(1) by blast
  then show ?thesis using moves_file [OF M] p by (auto simp: move_defs)
qed

lemma moves_claim_of:
  assumes M: "moving n a' w w'"
    and x: "x \<noteq> n" and b: "map_of (lw_acq w) x = Some b" and p: "own_claim w p x b"
  shows "own_claim w' p x b"
proof -
  have "lw_claims w' = lw_claims w \<or>
      (\<exists>q c. lw_claims w' = omap_set q c (lw_claims w) \<and>
        (map_of (lw_claims w) q = None \<or> map_of (lw_claims w) q = Some (aq_rec a')))"
    using moves_file [OF M] by (auto simp: move_defs omap_has_def own_claim_def)
  then have "map_of (lw_claims w') (lr_nonce p) = Some (aq_rec b)"
    using p other_rec [OF M b] x moves_rec [OF M] by (auto simp: own_claim_def)
  then show ?thesis using p moves_mono [OF M] by (simp add: own_claim_def)
qed

lemma moves_claims_mono:
  assumes M: "moving n a' w w'"
  shows "omap_has x (lw_claims w) \<Longrightarrow> omap_has x (lw_claims w')"
  using moves_file [OF M] by (auto simp: move_defs omap_has_def)

lemma moves_evidence:
  assumes M: "moving n a' w w'"
  shows "x \<noteq> n \<Longrightarrow> evidence w x r \<Longrightarrow> evidence w' x r"
  using moves_known [OF M] moves_not_line [OF M] by (simp add: evidence_def)

lemma moves_phase:
  assumes M: "moving n a' w w'"
    and x: "x \<noteq> n" and b: "map_of (lw_acq w) x = Some b" "aq_alive b" and p: "phase_ok w x b (aq_phase b)"
  shows "phase_ok w' x b (aq_phase b)"
proof -
  have act: "x \<in> set (lw_line w) \<Longrightarrow> aq_phase b \<noteq> Over \<Longrightarrow> \<forall>p. aq_phase b \<noteq> Abandoning p
      \<Longrightarrow> aq_phase b \<noteq> RelStat \<Longrightarrow> active w x"
    using b by (auto simp: active_def quiet_def)
  have rel: "x \<in> set (lw_line w) \<Longrightarrow> aq_phase b = RelStat \<Longrightarrow> lw_path w = Some (aq_rec b) \<Longrightarrow> active w x"
    using b by (auto simp: active_def quiet_def)
  have path: "lw_path w' = Some (aq_rec b)" if "active w x" "lw_path w = Some (aq_rec b)"
    using that moves_path_of_active [OF M x _ b(1)] by blast
  show ?thesis
  proof (cases "aq_phase b")
    case ReadPath
    then show ?thesis using p act path moves_not_line [OF M x] by auto
  next
    case (PassStat c cur k)
    then show ?thesis using p moves_evidence [OF M x] moves_known [OF M] by (auto split: option.splits)
  next
    case RelStat
    then show ?thesis using p rel path moves_mono [OF M] by (auto split: option.splits)
  next
    case (ReadingClaim r k)
    then show ?thesis using p moves_not_line [OF M x] moves_claim_of [OF M x b(1)] moves_claims_mono [OF M] by auto
  qed (use p act path moves_not_line [OF M x] moves_mono [OF M] moves_evidence [OF M x] moves_quiet [OF M] moves_claim_of [OF M x b(1)] in auto)
qed

lemma moves_acq_ok:
  assumes M: "moving n a' w w'" and new: "phase_ok w' n a' (aq_phase a')"
  shows "acq_ok w'"
proof -
  have boot: "rec_ok w' x b = rec_ok w x b" for x b using moving_moves [OF M] by (simp add: moves_def rec_ok_def)
  show ?thesis
    unfolding acq_ok_def boot
  proof (intro allI impI)
    fix x b
    assume b: "map_of (lw_acq w') x = Some b"
    show "rec_ok w x b \<and> (aq_alive b \<longrightarrow> phase_ok w' x b (aq_phase b))"
    proof (cases "x = n")
      case True
      then show ?thesis using b new moving_moves [OF M] by (auto simp: moves_def)
    next
      case False
      then have "map_of (lw_acq w) x = Some b" using b by (simp add: moves_acq [OF M])
      then show ?thesis using moving_inv [OF M] moves_phase [OF M False] by (auto simp: lock_inv_def acq_ok_def)
    qed
  qed
qed

text \<open>The claims stay one chain: the last member is unclaimed, each other one is claimed by the next.\<close>

lemma moves_last:
  assumes M: "moving n a' w w'"
  shows "lw_line w' \<noteq> [] \<longrightarrow> \<not> omap_has (last (lw_line w')) (lw_claims w')"
proof -
  have L: "lw_line w \<noteq> [] \<longrightarrow> \<not> omap_has (last (lw_line w)) (lw_claims w)"
    and F: "\<And>x c. map_of (lw_claims w) x = Some c \<Longrightarrow> x \<in> set (lw_line w)"
    using moving_inv [OF M] by (auto simp: lock_inv_def line_ok_def files_ok_def omap_has_def)
  have "n \<notin> set (lw_line w) \<Longrightarrow> map_of (lw_claims w) n = None" using F [of n] by (cases "map_of (lw_claims w) n") auto
  then show ?thesis using moves_file [OF M] L
    by (auto simp: file_move_def same_files_def creates_def replaces_def succeeds_def aborts_def own_claim_def omap_has_def)
qed

lemma moves_chain:
  assumes M: "moving n a' w w'" and i: "Suc i < length (lw_line w')"
  shows "map_option lr_nonce (map_of (lw_claims w') (lw_line w' ! i)) = Some (lw_line w' ! Suc i)"
proof -
  have I: "line_ok w" using moving_inv [OF M] by (simp add: lock_inv_def)
  have C: "map_option lr_nonce (map_of (lw_claims w) (lw_line w ! j)) = Some (lw_line w ! Suc j)"
    if "Suc j < length (lw_line w)" for j
    using I that by (simp add: line_ok_def)
  consider "lw_line w' = lw_line w" "lw_claims w' = lw_claims w" | "creates n a' w w'" | "succeeds n a' w w'"
    | "aborts n a' w w'" using moves_file [OF M] by (auto simp: move_defs)
  then show ?thesis
  proof cases
    case 1
    then show ?thesis using C i by simp
  next
    case 2
    then show ?thesis using I i by (auto simp: creates_def line_ok_def)
  next
    case 3
    then obtain p where p: "p \<in> set (lw_line w)" "\<not> omap_has p (lw_claims w)"
      and w': "lw_claims w' = omap_set p (aq_rec a') (lw_claims w)" "lw_line w' = lw_line w @ [n]"
      by (auto simp: succeeds_def)
    have last: "p = last (lw_line w)" using I p by (auto simp: line_ok_def)
    have ne: "lw_line w \<noteq> []" using p by auto
    show ?thesis
    proof (cases "Suc i < length (lw_line w)")
      case True
      then have "map_of (lw_claims w) (lw_line w ! i) \<noteq> None" using C by fastforce
      then have "lw_line w ! i \<noteq> p" using p(2) by (auto simp: omap_has_def)
      then show ?thesis using C [OF True] True w' by (simp add: nth_append)
    next
      case False
      then have "Suc i = length (lw_line w)" using i w' by simp
      then have "lw_line w ! i = p" "lw_line w' ! i = lw_line w ! i" "lw_line w' ! Suc i = n"
        using ne last w' by (auto simp: last_conv_nth nth_append simp flip: \<open>Suc i = length (lw_line w)\<close>)
      then show ?thesis using w' moves_rec [OF M] by simp
    qed
  next
    case 4
    then obtain p :: lock_record where p: "map_of (lw_claims w) (lr_nonce p) = Some (aq_rec a')"
      and w': "lw_claims w' = omap_set (lr_nonce p) ((aq_rec a')\<lparr>lr_released := True\<rparr>) (lw_claims w)" "lw_line w' = lw_line w"
      unfolding aborts_def own_claim_def by blast
    show ?thesis using C [of i] i p w' by (cases "lw_line w ! i = lr_nonce p") simp_all
  qed
qed

lemma moves_line_ok:
  assumes M: "moving n a' w w'"
  shows "line_ok w'"
proof -
  have L: "distinct (lw_line w)" "lw_path w = None \<longleftrightarrow> lw_line w = []"
    "\<And>x. x \<in> set (lw_line w) \<Longrightarrow> map_of (lw_acq w) x \<noteq> None \<and> (x = last (lw_line w) \<or> omap_has x (lw_claims w))"
    using moving_inv [OF M] by (auto simp: lock_inv_def line_ok_def)
  have one: "distinct (lw_line w')" using L(1) moves_line [OF M] by auto
  have two: "lw_path w' = None \<longleftrightarrow> lw_line w' = []"
    using L(2) moves_file [OF M] by (auto simp: move_defs active_def own_claim_def)
  have "map_of (lw_acq w') x \<noteq> None \<and> (x = last (lw_line w') \<or> omap_has x (lw_claims w'))"
    if "x \<in> set (lw_line w')" for x
  proof (cases "lw_line w' = lw_line w")
    case True
    then show ?thesis using that L(3) [of x] moves_claims_mono [OF M] by (auto simp: moves_acq [OF M])
  next
    case False
    then have line: "lw_line w' = lw_line w @ [n]" using moves_line [OF M] by blast
    show ?thesis
    proof (cases "x = n")
      case True
      then show ?thesis using line by (simp add: moves_acq [OF M])
    next
      case x: False
      then have xin: "x \<in> set (lw_line w)" using that line by simp
      have "omap_has x (lw_claims w')"
      proof (cases "omap_has x (lw_claims w)")
        case True
        then show ?thesis by (rule moves_claims_mono [OF M])
      next
        case no: False
        have "succeeds n a' w w'"
          using moves_file [OF M] False L(2) xin by (auto simp: move_defs)
        then obtain p where "p \<in> set (lw_line w)" "\<not> omap_has p (lw_claims w)"
          and w': "lw_claims w' = omap_set p (aq_rec a') (lw_claims w)" by (auto simp: succeeds_def)
        then have "p = x" using L(3) [of p] L(3) [OF xin] no by simp
        then show ?thesis using w' by (simp add: omap_has_def)
      qed
      then show ?thesis using L(3) [OF xin] x by (simp add: moves_acq [OF M])
    qed
  qed
  then show ?thesis using one two moves_last [OF M] moves_chain [OF M] by (simp add: line_ok_def)
qed

lemma moves_files_ok:
  assumes M: "moving n a' w w'"
  shows "files_ok w'"
proof -
  have F: "\<And>r. lw_path w = Some r \<Longrightarrow> known w r"
    "\<And>x c. map_of (lw_claims w) x = Some c \<Longrightarrow> x \<in> set (lw_line w) \<and> quiet w x \<and> known w c"
    using moving_inv [OF M] by (auto simp: lock_inv_def files_ok_def)
  have path: "known w' r" if "lw_path w' = Some r" for r
    using moves_file [OF M] that moves_known [OF M F(1)] moves_known_new [OF M]
    by (auto simp: move_defs active_def)
  have old: "x \<in> set (lw_line w') \<and> quiet w' x \<and> known w' c" if "map_of (lw_claims w) x = Some c" for x c
    using F(2) [OF that] moves_mono [OF M] moves_quiet [OF M] moves_known [OF M] by blast
  have "x \<in> set (lw_line w') \<and> quiet w' x \<and> known w' c" if c: "map_of (lw_claims w') x = Some c" for x c
  proof (cases "map_of (lw_claims w) x = Some c")
    case True
    then show ?thesis by (rule old)
  next
    case False
    then consider "succeeds n a' w w'" | "aborts n a' w w'" using moves_file [OF M] c by (auto simp: move_defs)
    then show ?thesis
    proof cases
      case 1
      then have "x \<in> set (lw_line w) \<and> quiet w x" and cc: "c = aq_rec a'" and "n \<in> set (lw_line w')"
        using c False by (auto simp: succeeds_def split: if_splits)
      then show ?thesis using moves_mono [OF M] moves_quiet [OF M] moves_known_new(1) [OF M] by blast
    next
      case 2
      then obtain p where p: "own_claim w p n a'" "quiet w' n" "x = lr_nonce p"
        and cc: "c = (aq_rec a')\<lparr>lr_released := True\<rparr>"
        using c False by (auto simp: aborts_def split: if_splits)
      then have "n \<in> set (lw_line w')" using moves_mono [OF M] by (simp add: own_claim_def)
      moreover have "x \<in> set (lw_line w') \<and> quiet w' x"
        using p old [of x] by (simp add: own_claim_def)
      ultimately show ?thesis using moves_known_new(2) [OF M p(2)] cc by blast
    qed
  qed
  then show ?thesis using path by (auto simp: files_ok_def)
qed

lemma moves_inv:
  assumes M: "moving n a' w w'" and new: "phase_ok w' n a' (aq_phase a')"
  shows "lock_inv w'"
  using moves_acq_ok [OF M new] moves_line_ok [OF M] moves_files_ok [OF M] by (simp add: lock_inv_def)

section \<open>Every step keeps the invariant\<close>

lemma live_rec_ok: "lock_inv w \<Longrightarrow> live w n a \<Longrightarrow> rec_ok w n a"
  by (simp add: lock_inv_def acq_ok_def live_def)

lemma live_phase: "lock_inv w \<Longrightarrow> live w n a \<Longrightarrow> phase_ok w n a (aq_phase a)"
  by (simp add: lock_inv_def acq_ok_def live_def)

lemma live_quiet:
  "live w n a \<Longrightarrow> quiet w n \<longleftrightarrow> aq_phase a = Over \<or> (\<exists>p. aq_phase a = Abandoning p)
     \<or> aq_phase a = RelStat \<and> lw_path w \<noteq> Some (aq_rec a)"
  by (auto simp: live_def quiet_def)

text \<open>An acquisition that goes on to its next system call, over directory \<open>v\<close>.\<close>

lemma step_moving:
  assumes "lock_inv w" "live w n a" "lw_acq v = lw_acq w" "lw_boot v = lw_boot w"
    and "quiet w n \<Longrightarrow> quiet (with_socket n (a\<lparr>aq_handle := h\<rparr>) b p v) n"
    and "file_move n (a\<lparr>aq_handle := h, aq_phase := p, aq_socket := b\<rparr>) w (with_socket n (a\<lparr>aq_handle := h\<rparr>) b p v)"
  shows "moving n (a\<lparr>aq_handle := h, aq_phase := p, aq_socket := b\<rparr>) w (with_socket n (a\<lparr>aq_handle := h\<rparr>) b p v)"
  using assms live_rec_ok [OF assms(1,2)]
  by (simp add: moving_def moves_def with_socket_def live_def rec_ok_def)

lemma goto_with_socket: "goto n a p w = with_socket n a (aq_socket a) p w"
  by (simp add: goto_def with_socket_def)

lemma with_socket_sel [simp]:
  "lw_path (with_socket n a b p v) = lw_path v" "lw_claims (with_socket n a b p v) = lw_claims v"
  "lw_line (with_socket n a b p v) = lw_line v"
  "map_of (lw_acq (with_socket n a b p v)) n = Some (a\<lparr>aq_phase := p, aq_socket := b\<rparr>)"
  by (simp_all add: with_socket_def)

lemma with_socket_quiet:
  "aq_alive a \<Longrightarrow> quiet (with_socket n a b p v) n \<longleftrightarrow> p = Over \<or> (\<exists>q. p = Abandoning q)
     \<or> p = RelStat \<and> lw_path v \<noteq> Some (aq_rec a)"
  by (auto simp: quiet_def)

lemma same_fields: "a\<lparr>aq_handle := aq_handle a, aq_phase := p, aq_socket := aq_socket a\<rparr> = a\<lparr>aq_phase := p\<rparr>"
  "a\<lparr>aq_handle := aq_handle a\<rparr> = a" "a\<lparr>aq_phase := p, aq_socket := aq_socket a\<rparr> = a\<lparr>aq_phase := p\<rparr>"
  by simp_all

lemma idle_moving:
  assumes "lock_inv w" "live w n a" "quiet w n \<Longrightarrow> p = Over \<or> (\<exists>q. p = Abandoning q)"
  shows "moving n (a\<lparr>aq_handle := h, aq_phase := p, aq_socket := b\<rparr>) w (with_socket n (a\<lparr>aq_handle := h\<rparr>) b p w)"
  using assms by (intro step_moving) (auto simp: file_move_def same_files_def with_socket_quiet live_def)

text \<open>A step that leaves the directory alone needs only the facts of its next phase.\<close>

lemma idle_inv:
  assumes I: "lock_inv w" and L: "live w n a" and q: "quiet w n \<Longrightarrow> p = Over \<or> (\<exists>q. p = Abandoning q)"
    and p: "phase_ok w n (a\<lparr>aq_handle := h\<rparr>) p"
  shows "lock_inv (with_socket n (a\<lparr>aq_handle := h\<rparr>) b p w)"
proof (rule moves_inv [OF idle_moving [OF I L q]])
  let ?w' = "with_socket n (a\<lparr>aq_handle := h\<rparr>) b p w" and ?a' = "a\<lparr>aq_handle := h, aq_phase := p, aq_socket := b\<rparr>"
  have M: "moving n ?a' w ?w'" by (rule idle_moving [OF I L q])
  have "phase_ok ?w' n ?a' p"
  proof (cases p)
    case (PassStat c cur k)
    then show ?thesis using p moves_known [OF M] by (cases cur) (simp_all add: evidence_def)
  next
    case RelStat
    then show ?thesis using p by (cases h) simp_all
  qed (use p moves_known [OF M] moves_quiet [OF M] in \<open>simp_all add: evidence_def own_claim_def\<close>)
  then show "phase_ok ?w' n ?a' (aq_phase ?a')" by simp
qed

lemma handle_inv:
  "lock_inv w \<Longrightarrow> live w n a \<Longrightarrow> (quiet w n \<Longrightarrow> p = Over \<or> (\<exists>q. p = Abandoning q))
     \<Longrightarrow> phase_ok w n (a\<lparr>aq_handle := h\<rparr>) p \<Longrightarrow> lock_inv (goto n (a\<lparr>aq_handle := h\<rparr>) p w)"
  unfolding goto_with_socket by (rule idle_inv)

lemma goto_inv:
  "lock_inv w \<Longrightarrow> live w n a \<Longrightarrow> (quiet w n \<Longrightarrow> p = Over \<or> (\<exists>q. p = Abandoning q)) \<Longrightarrow> phase_ok w n a p
     \<Longrightarrow> lock_inv (goto n a p w)"
  using handle_inv [of w n a p "aq_handle a"] unfolding same_fields by blast

lemma socket_inv:
  "lock_inv w \<Longrightarrow> live w n a \<Longrightarrow> (quiet w n \<Longrightarrow> p = Over \<or> (\<exists>q. p = Abandoning q)) \<Longrightarrow> phase_ok w n a p
     \<Longrightarrow> lock_inv (with_socket n a b p w)"
  using idle_inv [of w n a p "aq_handle a"] unfolding same_fields by blast

lemma goto_moving:
  assumes "lock_inv w" "live w n a" "lw_acq v = lw_acq w" "lw_boot v = lw_boot w"
    and "quiet w n \<Longrightarrow> quiet (goto n a p v) n" and "file_move n (a\<lparr>aq_phase := p\<rparr>) w (goto n a p v)"
  shows "moving n (a\<lparr>aq_phase := p\<rparr>) w (goto n a p v)"
  using step_moving [of w n a v "aq_handle a" "aq_socket a" p] assms unfolding goto_with_socket same_fields by blast

lemma goto_sel [simp]: "lw_path (goto n a p v) = lw_path v" "lw_claims (goto n a p v) = lw_claims v"
  "lw_line (goto n a p v) = lw_line v"
  by (simp_all add: goto_def)

lemma goto_quiet:
  "aq_alive a \<Longrightarrow> quiet (goto n a p v) n \<longleftrightarrow> p = Over \<or> (\<exists>q. p = Abandoning q)
     \<or> p = RelStat \<and> lw_path v \<noteq> Some (aq_rec a)"
  by (simp add: goto_with_socket with_socket_quiet)

lemma pid_probe: "pidIsAlive w r b \<longleftrightarrow>
    ((\<exists>x a. live w x a \<and> lr_host (aq_rec a) = lr_host r \<and> lr_pid (aq_rec a) = lr_pid r) \<longrightarrow> b)"
proof -
  let ?P = "\<lambda>a :: acquirer. aq_alive a \<and> lr_host (aq_rec a) = lr_host r \<and> lr_pid (aq_rec a) = lr_pid r"
  have "list_ex (\<lambda>x. case map_of m x of None \<Rightarrow> False | Some a \<Rightarrow> ?P a) (okeys m) \<longleftrightarrow>
      (\<exists>x a. map_of m x = Some a \<and> ?P a)" for m :: "(nonce, acquirer) omap"
  proof
    assume "list_ex (\<lambda>x. case map_of m x of None \<Rightarrow> False | Some a \<Rightarrow> ?P a) (okeys m)"
    then show "\<exists>x a. map_of m x = Some a \<and> ?P a" by (auto simp: list_ex_iff split: option.splits)
  next
    assume "\<exists>x a. map_of m x = Some a \<and> ?P a"
    then obtain x a where x: "map_of m x = Some a" and a: "?P a" by blast
    have "x \<in> set (okeys m)" using x omap_has_iff [of x m] unfolding omap_has_def by blast
    then show "list_ex (\<lambda>x. case map_of m x of None \<Rightarrow> False | Some a \<Rightarrow> ?P a) (okeys m)"
      unfolding list_ex_iff using x a by (intro bexI [of _ x]) simp_all
  qed
  then show ?thesis unfolding pidIsAlive_def live_def by (simp only: conj_assoc)
qed

text \<open>A record found reclaimable by an acquisition of its own host belongs to one that is quiet.\<close>

lemma reclaimable_quiet:
  assumes I: "lock_inv w" and L: "live w n a" and k: "known w r"
    and s: "socketIsAlive w r sock" and p: "pidIsAlive w r pid"
    and ok: "assertReclaimable r (aq_rec a) sock pid = Inr u"
  shows "quiet w (lr_nonce r)"
proof -
  obtain b where b: "map_of (lw_acq w) (lr_nonce r) = Some b"
    and r: "r = aq_rec b \<or> r = (aq_rec b)\<lparr>lr_released := True\<rparr> \<and> quiet w (lr_nonce r)"
    using k by (auto simp: known_def)
  show ?thesis
  proof (cases "r = aq_rec b \<and> aq_alive b")
    case True
    then have l: "live w (lr_nonce r) b" using b by (simp add: live_def)
    have rb: "\<not> lr_released r" "lr_bootId r = lw_boot w (lr_host r)"
      using live_rec_ok [OF I l] True by (auto simp: rec_ok_def)
    have ra: "lr_bootId (aq_rec a) = lw_boot w (lr_host (aq_rec a))"
      using live_rec_ok [OF I L] L by (auto simp: rec_ok_def live_def)
    have "\<not> pid" using ok rb ra by (auto simp: assertReclaimable_def split: if_splits)
    then show ?thesis using p True l by (auto simp: pid_probe)
  next
    case False
    then show ?thesis using r b by (auto simp: quiet_def)
  qed
qed

lemma known_path: "lock_inv w \<Longrightarrow> lw_path w = Some r \<Longrightarrow> known w r"
  by (simp add: lock_inv_def files_ok_def)

lemma known_claim: "lock_inv w \<Longrightarrow> map_of (lw_claims w) x = Some c \<Longrightarrow> known w c"
  by (simp add: lock_inv_def files_ok_def)

lemma claimed_quiet: "lock_inv w \<Longrightarrow> omap_has x (lw_claims w) \<Longrightarrow> x \<in> set (lw_line w) \<and> quiet w x"
  by (auto simp: lock_inv_def files_ok_def omap_has_def)

lemma known_line: "known w r \<Longrightarrow> lr_nonce r \<in> set (lw_line w)"
  by (simp add: known_def)

text \<open>A record of a live acquisition that is not quiet is its own record.\<close>

lemma known_own:
  "lock_inv w \<Longrightarrow> live w n a \<Longrightarrow> \<not> quiet w n \<Longrightarrow> known w r \<Longrightarrow> lr_nonce r = n \<Longrightarrow> r = aq_rec a"
  by (auto simp: known_def live_def)

lemma not_in_line_not_known: "n \<notin> set (lw_line w) \<Longrightarrow> known w r \<Longrightarrow> lr_nonce r \<noteq> n"
  by (auto simp: known_def)

lemma lock_inv_link:
  assumes I: "lock_inv w" and L: "live w n a" and p: "aq_phase a = Linking"
  shows "lock_inv (link_record reported n a w)"
proof -
  have out: "n \<notin> set (lw_line w)" using live_phase [OF I L] p by simp
  have nq: "\<not> quiet w n" using live_quiet [OF L] p by simp
  show ?thesis
  proof (cases "lw_path w")
    case None
    define q where "q = (if reported then Verifying else ReadPath)"
    let ?v = "publish n a w" let ?w' = "goto n a q ?v"
    have w': "link_record reported n a w = ?w'" using None by (simp add: link_record_def q_def)
    have M: "moving n (a\<lparr>aq_phase := q\<rparr>) w ?w'"
      by (rule goto_moving [OF I L]) (use None out nq in \<open>auto simp: publish_def file_move_def creates_def\<close>)
    show ?thesis unfolding w' by (rule moves_inv [OF M]) (auto simp: q_def publish_def)
  next
    case (Some r)
    then show ?thesis using goto_inv [OF I L, of ReadPath] nq out by (simp add: link_record_def)
  qed
qed

lemma lock_inv_read_path:
  assumes I: "lock_inv w" and L: "live w n a" and p: "aq_phase a = ReadPath"
  shows "lock_inv (read_path n a w)"
proof -
  have own: "n \<in> set (lw_line w) \<Longrightarrow> lw_path w = Some (aq_rec a)" using live_phase [OF I L] p by simp
  have nq: "\<not> quiet w n" using live_quiet [OF L] p by simp
  have nn: "lr_nonce (aq_rec a) = n" using live_rec_ok [OF I L] by (simp add: rec_ok_def)
  show ?thesis
  proof (cases "lw_path w")
    case None
    then show ?thesis using goto_inv [OF I L, of Over] by (simp add: read_path_def)
  next
    case (Some r)
    have k: "known w r" by (rule known_path [OF I Some])
    show ?thesis
    proof (cases "lr_nonce r = n")
      case True
      then show ?thesis
        using Some k known_line [OF k] known_own [OF I L nq k] goto_inv [OF I L, of Verifying] nq
        by (simp add: read_path_def)
    next
      case False
      then have "n \<notin> set (lw_line w)" using own Some nn by auto
      then show ?thesis
        using Some k False goto_inv [OF I L, of "Judging r"] nq by (simp add: read_path_def evidence_def)
    qed
  qed
qed

lemma lock_inv_judge:
  assumes I: "lock_inv w" and L: "live w n a" and p: "aq_phase a = Judging r"
    and s: "socketIsAlive w r sock" "pidIsAlive w r pid"
  shows "lock_inv (judge sock pid r n a w)"
proof -
  have e: "evidence w n r" using live_phase [OF I L] p by simp
  have nq: "\<not> quiet w n" using live_quiet [OF L] p by simp
  show ?thesis
  proof (cases "assertReclaimable r (aq_rec a) sock pid")
    case (Inl x)
    then show ?thesis using goto_inv [OF I L, of Over] by (simp add: judge_def)
  next
    case (Inr u)
    then have "quiet w (lr_nonce r)" using reclaimable_quiet [OF I L _ s] e by (auto simp: evidence_def)
    then show ?thesis using Inr e nq goto_inv [OF I L, of "Claiming r 0"] by (simp add: judge_def)
  qed
qed

lemma lock_inv_claim:
  assumes I: "lock_inv w" and L: "live w n a" and p: "aq_phase a = Claiming r k"
  shows "lock_inv (claim_link reported r k n a w)"
proof -
  have e: "evidence w n r" "quiet w (lr_nonce r)" using live_phase [OF I L] p by simp_all
  have nq: "\<not> quiet w n" using live_quiet [OF L] p by simp
  consider "k \<ge> MAX_CLAIMS" | "k < MAX_CLAIMS" "omap_has (lr_nonce r) (lw_claims w)"
    | "k < MAX_CLAIMS" "\<not> omap_has (lr_nonce r) (lw_claims w)" by linarith
  then show ?thesis
  proof cases
    case 1
    then show ?thesis using goto_inv [OF I L, of Over] by (simp add: claim_link_def)
  next
    case 2
    then show ?thesis using e nq goto_inv [OF I L, of "ReadingClaim r k"] by (simp add: claim_link_def evidence_def)
  next
    case 3
    define q where "q = (if reported then Renaming r else ReadingClaim r k)"
    let ?v = "w\<lparr>lw_claims := omap_set (lr_nonce r) (aq_rec a) (lw_claims w), lw_line := lw_line w @ [n]\<rparr>"
    let ?w' = "goto n a q ?v"
    have w': "claim_link reported r k n a w = ?w'" using 3 by (simp add: claim_link_def q_def)
    have "succeeds n (a\<lparr>aq_phase := q\<rparr>) w ?w'"
      unfolding succeeds_def using e 3 known_line by (intro exI [of _ "lr_nonce r"]) (auto simp: evidence_def)
    then have M: "moving n (a\<lparr>aq_phase := q\<rparr>) w ?w'"
      by (intro goto_moving [OF I L]) (use nq in \<open>auto simp: file_move_def\<close>)
    show ?thesis unfolding w' by (rule moves_inv [OF M]) (auto simp: q_def own_claim_def omap_has_def)
  qed
qed

lemma lock_inv_read_claim:
  assumes I: "lock_inv w" and L: "live w n a" and p: "aq_phase a = ReadingClaim r k"
  shows "lock_inv (read_claim r k n a w)"
proof -
  have own: "n \<in> set (lw_line w) \<Longrightarrow> own_claim w r n a" and has: "omap_has (lr_nonce r) (lw_claims w)"
    using live_phase [OF I L] p by auto
  have nq: "\<not> quiet w n" using live_quiet [OF L] p by simp
  have nn: "lr_nonce (aq_rec a) = n" using live_rec_ok [OF I L] by (simp add: rec_ok_def)
  obtain c where c: "map_of (lw_claims w) (lr_nonce r) = Some c" using has by (auto simp: omap_has_def)
  have k: "known w c" by (rule known_claim [OF I c])
  show ?thesis
  proof (cases "lr_nonce c = n")
    case True
    then show ?thesis
      using c own known_line [OF k] goto_inv [OF I L, of "Renaming r"] nq by (simp add: read_claim_def)
  next
    case False
    then have "n \<notin> set (lw_line w)" using own c nn by (auto simp: own_claim_def)
    then show ?thesis
      using c k False goto_inv [OF I L, of "PassRead c k"] nq by (simp add: read_claim_def evidence_def)
  qed
qed

lemma lock_inv_pass_read:
  assumes I: "lock_inv w" and L: "live w n a" and p: "aq_phase a = PassRead c k"
  shows "lock_inv (pass_read c k n a w)"
proof -
  have "evidence w n c" using live_phase [OF I L] p by simp
  then show ?thesis
    using goto_inv [OF I L, of "PassStat c (lw_path w) k"] live_quiet [OF L] p known_path [OF I]
    by (auto simp: pass_read_def split: option.splits)
qed

lemma lock_inv_pass_stat:
  assumes I: "lock_inv w" and L: "live w n a" and p: "aq_phase a = PassStat c cur k"
  shows "lock_inv (pass_stat c cur k n a w)"
proof -
  have e: "evidence w n c" and cur: "\<And>r. cur = Some r \<Longrightarrow> known w r"
    using live_phase [OF I L] p by (auto split: option.splits)
  have nq: "\<not> quiet w n" using live_quiet [OF L] p by simp
  have rel: "quiet w (lr_nonce r)" if "known w r" "lr_released r" for r
    using that I by (auto simp: known_def lock_inv_def acq_ok_def rec_ok_def)
  have on: "lock_inv (goto n a (Claiming c (k + 1)) w)" if "quiet w (lr_nonce c)"
    using goto_inv [OF I L, of "Claiming c (k + 1)"] nq e that by simp
  have probe: "lock_inv (goto n a (PassProbe c k) w)"
    using goto_inv [OF I L, of "PassProbe c k"] nq e by simp
  have "lr_released c \<Longrightarrow> quiet w (lr_nonce c)" using rel e by (simp add: evidence_def)
  moreover have "cur = Some r \<Longrightarrow> lr_nonce r = lr_nonce c \<Longrightarrow> lr_released r \<Longrightarrow> quiet w (lr_nonce c)" for r
    using rel [of r] cur by simp
  ultimately show ?thesis
    using claimed_quiet [OF I, of "lr_nonce c"] on probe
    by (cases cur) (auto simp: pass_stat_def)
qed

lemma lock_inv_pass_probe:
  assumes I: "lock_inv w" and L: "live w n a" and p: "aq_phase a = PassProbe c k"
    and s: "socketIsAlive w c sock" "pidIsAlive w c pid"
  shows "lock_inv (pass_probe sock pid c k n a w)"
proof -
  have e: "evidence w n c" using live_phase [OF I L] p by simp
  have nq: "\<not> quiet w n" using live_quiet [OF L] p by simp
  show ?thesis
  proof (cases "assertReclaimable c (aq_rec a) sock pid")
    case (Inl x)
    then show ?thesis using goto_inv [OF I L, of Over] by (simp add: pass_probe_def)
  next
    case (Inr u)
    then have "quiet w (lr_nonce c)" using reclaimable_quiet [OF I L _ s] e by (auto simp: evidence_def)
    then show ?thesis using Inr e nq goto_inv [OF I L, of "Claiming c (k + 1)"] by (simp add: pass_probe_def)
  qed
qed

lemma lock_inv_rename:
  assumes I: "lock_inv w" and L: "live w n a" and p: "aq_phase a = Renaming r"
  shows "lock_inv (rename_record r applied reported n a w)"
proof -
  have own: "own_claim w r n a" using live_phase [OF I L] p by simp
  have nq: "\<not> quiet w n" using live_quiet [OF L] p by simp
  have act: "active w n" using own nq by (simp add: active_def own_claim_def)
  have pub: "lock_inv (goto n a q (publish n a w))" if "q = Verifying \<or> q = Rechecking r" for q
  proof -
    let ?w' = "goto n a q (publish n a w)"
    have M: "moving n (a\<lparr>aq_phase := q\<rparr>) w ?w'"
      by (rule goto_moving [OF I L])
        (use act nq in \<open>auto simp: publish_def file_move_def replaces_def active_def\<close>)
    show ?thesis
      using that own
      by (intro moves_inv [OF M]) (auto simp: publish_def own_claim_def)
  qed
  have "lock_inv (goto n a (Rechecking r) w)" using goto_inv [OF I L, of "Rechecking r"] nq own by simp
  then show ?thesis using pub by (simp add: rename_record_def)
qed

lemma lock_inv_recheck:
  assumes I: "lock_inv w" and L: "live w n a" and p: "aq_phase a = Rechecking r"
  shows "lock_inv (recheck r readable n a w)"
proof -
  have own: "own_claim w r n a" using live_phase [OF I L] p by simp
  have nq: "\<not> quiet w n" using live_quiet [OF L] p by simp
  show ?thesis
  proof (cases "readable \<and> map_option lr_nonce (lw_path w) = Some n")
    case True
    then obtain r' where r': "lw_path w = Some r'" "lr_nonce r' = n" by auto
    then have "lw_path w = Some (aq_rec a)" using known_own [OF I L nq known_path [OF I r'(1)]] by simp
    then show ?thesis
      using True own nq goto_inv [OF I L, of Verifying] by (simp add: recheck_def own_claim_def)
  next
    case False
    then show ?thesis using own goto_inv [OF I L, of "Abandoning r"] by (auto simp: recheck_def)
  qed
qed

lemma lock_inv_abandon:
  assumes I: "lock_inv w" and L: "live w n a" and p: "aq_phase a = Abandoning r"
  shows "lock_inv (abandonClaim r written n a w)"
proof -
  have own: "own_claim w r n a" using live_phase [OF I L] p by simp
  let ?v = "w\<lparr>lw_claims := omap_set (lr_nonce r) ((aq_rec a)\<lparr>lr_released := True\<rparr>) (lw_claims w)\<rparr>"
  let ?w' = "goto n a Over ?v"
  have q: "quiet ?w' n" using L by (subst goto_quiet) (auto simp: live_def)
  have "aborts n (a\<lparr>aq_phase := Over\<rparr>) w ?w'"
    unfolding aborts_def using own q by (intro exI [of _ r]) (auto simp: own_claim_def)
  then have M: "moving n (a\<lparr>aq_phase := Over\<rparr>) w ?w'"
    by (intro goto_moving [OF I L]) (use q in \<open>auto simp: file_move_def\<close>)
  have "lock_inv ?w'" by (rule moves_inv [OF M]) simp
  moreover have "lock_inv (goto n a Over w)" using goto_inv [OF I L, of Over] by simp
  ultimately show ?thesis by (simp add: abandonClaim_def)
qed

lemma owner_facts:
  assumes I: "lock_inv w" and L: "live w n a" and p: "aq_phase a \<in> {Verifying, Listening, Held, RelRename}"
  shows "n \<in> set (lw_line w)" "lw_path w = Some (aq_rec a)" "lr_nonce (aq_rec a) = n"
    "\<not> lr_released (aq_rec a)" "\<not> quiet w n"
  using live_phase [OF I L] live_rec_ok [OF I L] live_quiet [OF L] p by (auto simp: rec_ok_def)

lemma lock_inv_verify:
  assumes I: "lock_inv w" and L: "live w n a" and p: "aq_phase a = Verifying"
  shows "lock_inv (verify n a w)" "lock_inv (verify_fails opened n a w)"
  using owner_facts [OF I L] p handle_inv [OF I L, of Listening "Some (aq_rec a)"]
    handle_inv [OF I L, of RelStat "if opened then lw_path w else None"]
  by (simp_all add: verify_def verify_fails_def)

lemma lock_inv_listen:
  assumes I: "lock_inv w" and L: "live w n a" and p: "aq_phase a = Listening"
  shows "lock_inv (listen n a w)"
  using owner_facts [OF I L] p live_phase [OF I L] socket_inv [OF I L, of Held]
    goto_inv [OF I L, of RelStat] by (simp add: listen_def assertHeld_def)

lemma lock_inv_to_RelStat:
  assumes I: "lock_inv w" and L: "live w n a" and p: "aq_phase a \<in> {Listening, Held}"
  shows "lock_inv (with_socket n a False RelStat w)"
  using owner_facts [OF I L] p live_phase [OF I L] socket_inv [OF I L, of RelStat] by auto

lemma lock_inv_rel_stat:
  assumes I: "lock_inv w" and L: "live w n a" and p: "aq_phase a = RelStat"
  shows "lock_inv (rel_stat n a w)"
proof -
  have ph: "n \<in> set (lw_line w)" "case aq_handle a of None \<Rightarrow> lw_path w = Some (aq_rec a) | Some h \<Rightarrow> h = aq_rec a"
    using live_phase [OF I L] p by simp_all
  have "lock_inv (goto n a RelRename w)" if "lw_path w = Some (aq_rec a)"
    using that ph live_quiet [OF L] p goto_inv [OF I L, of RelRename] by (auto split: option.splits)
  moreover have "lock_inv (goto n a Over w)" using goto_inv [OF I L, of Over] by simp
  ultimately show ?thesis using ph by (auto simp: rel_stat_def split: option.splits)
qed

lemma lock_inv_rel_rename:
  assumes I: "lock_inv w" and L: "live w n a" and p: "aq_phase a = RelRename"
  shows "lock_inv (rel_rename applied reported n a w)"
proof -
  have o: "n \<in> set (lw_line w)" "lw_path w = Some (aq_rec a)" "\<not> quiet w n" "\<not> lr_released (aq_rec a)"
    using owner_facts [OF I L] p by auto
  have h: "aq_handle a = None \<or> aq_handle a = Some (aq_rec a)" using live_phase [OF I L] p by simp
  let ?r = "(aq_rec a)\<lparr>lr_released := True\<rparr>"
  have ne: "?r \<noteq> aq_rec a"
  proof
    assume "?r = aq_rec a"
    then have "lr_released ?r = lr_released (aq_rec a)" by (rule arg_cong)
    then show False using o(4) by simp
  qed
  have "lock_inv (goto n a q (w\<lparr>lw_path := Some ?r\<rparr>))" if "q = (if aq_handle a = None then Over else RelStat) \<or> q = Over" for q
  proof -
    let ?w' = "goto n a q (w\<lparr>lw_path := Some ?r\<rparr>)"
    have q: "quiet ?w' n" using L that ne by (subst goto_quiet) (auto simp: live_def split: if_splits)
    have M: "moving n (a\<lparr>aq_phase := q\<rparr>) w ?w'"
      by (rule goto_moving [OF I L]) (use o q in \<open>auto simp: file_move_def replaces_def active_def\<close>)
    show ?thesis by (rule moves_inv [OF M]) (use that o h in \<open>auto split: if_splits\<close>)
  qed
  moreover have "lock_inv (goto n a RelStat w)"
    using goto_inv [OF I L, of RelStat] o h by auto
  moreover have "lock_inv (goto n a Over w)" using goto_inv [OF I L, of Over] by simp
  ultimately show ?thesis by (simp add: rel_rename_def)
qed

lemma lock_inv_gives_up:
  assumes I: "lock_inv w" and L: "live w n a"
  shows "lock_inv (goto n a Over w)"
  using goto_inv [OF I L, of Over] by simp

lemma lock_inv_start:
  assumes I: "lock_inv w" and new: "map_of (lw_acq w) n = None"
  shows "lock_inv (start_acquirer n h pid r w)"
proof -
  define a where "a = \<lparr>aq_rec = \<lparr>lr_nonce = n, lr_socketPath = ''/tmp/cq-j-'' @ n @ ''.sock'', lr_pid = pid, lr_host = h,
                lr_bootId = lw_boot w h, lr_runId = r, lr_released = False\<rparr>,
      aq_phase = Linking, aq_alive = True, aq_socket = False, aq_handle = None\<rparr>"
  have w': "start_acquirer n h pid r w = w\<lparr>lw_acq := omap_set n a (lw_acq w)\<rparr>"
    by (simp add: start_acquirer_def a_def)
  have M: "moving n a w (start_acquirer n h pid r w)"
    using I new by (simp add: moving_def moves_def w' a_def rec_ok_def same_files_def file_move_def quiet_def)
  have "n \<notin> set (lw_line w)" using I new by (auto simp: lock_inv_def line_ok_def)
  then show ?thesis by (intro moves_inv [OF M]) (simp add: a_def start_acquirer_def)
qed

text \<open>A crash or a reboot only makes acquisitions quiet.\<close>

lemma map_of_die: "map_of (lw_acq (die P w)) x =
    map_option (\<lambda>a. if P (aq_rec a) then a\<lparr>aq_alive := False\<rparr> else a) (map_of (lw_acq w) x)"
proof -
  have "map_of (map (\<lambda>(n, a). (n, if P (aq_rec a) then a\<lparr>aq_alive := False\<rparr> else a)) m) x =
      map_option (\<lambda>a. if P (aq_rec a) then a\<lparr>aq_alive := False\<rparr> else a) (map_of m x)" for m
    by (induction m) auto
  then show ?thesis by (simp add: die_def)
qed

lemma die_acq: "map_of (lw_acq w) x = Some a \<Longrightarrow> \<exists>b. map_of (lw_acq (die P w)) x = Some b \<and> aq_rec b = aq_rec a"
  by (simp add: map_of_die)

lemma die_files [simp]: "lw_path (die P w) = lw_path w" "lw_claims (die P w) = lw_claims w"
  "lw_line (die P w) = lw_line w" "lw_boot (die P w) = lw_boot w"
  by (simp_all add: die_def)

lemma die_quiet: "quiet w x \<Longrightarrow> quiet (die P w) x"
  by (auto simp: quiet_def map_of_die split: option.splits)

lemma die_known: "known w r \<Longrightarrow> known (die P w) r"
  using die_quiet [of w "lr_nonce r" P] die_acq [of w "lr_nonce r" _ P] unfolding known_def die_files by metis

lemma die_phase: "phase_ok w n a p \<Longrightarrow> phase_ok (die P w) n a p"
  using die_known die_quiet by (cases p) (auto simp: evidence_def own_claim_def split: option.splits)

lemma lock_inv_die: assumes I: "lock_inv w" shows "lock_inv (die P w)"
proof -
  have "acq_ok (die P w)"
    unfolding acq_ok_def
  proof (intro allI impI)
    fix n a assume "map_of (lw_acq (die P w)) n = Some a"
    then obtain b where b: "map_of (lw_acq w) n = Some b"
      and a: "a = (if P (aq_rec b) then b\<lparr>aq_alive := False\<rparr> else b)" by (auto simp: map_of_die)
    show "rec_ok (die P w) n a \<and> (aq_alive a \<longrightarrow> phase_ok (die P w) n a (aq_phase a))"
      using I b a die_phase by (auto simp: lock_inv_def acq_ok_def rec_ok_def)
  qed
  moreover have "line_ok (die P w)" using I by (auto simp: lock_inv_def line_ok_def map_of_die)
  moreover have "files_ok (die P w)" using I die_known die_quiet by (simp add: lock_inv_def files_ok_def)
  ultimately show ?thesis by (simp add: lock_inv_def)
qed

lemma lock_inv_reboot: assumes I: "lock_inv w"
  shows "lock_inv ((die (\<lambda>r. lr_host r = h) w)\<lparr>lw_boot := (lw_boot w)(h := b)\<rparr>)" (is "lock_inv ?w'")
proof -
  let ?d = "die (\<lambda>r. lr_host r = h) w"
  have D: "lock_inv ?d" by (rule lock_inv_die [OF I])
  have q: "quiet ?w' x = quiet ?d x" for x by (simp add: quiet_def cong: option.case_cong)
  have k: "known ?w' r = known ?d r" for r by (simp add: known_def q)
  have ph: "phase_ok ?w' n a p = phase_ok ?d n a p" for n a p
    by (cases p) (simp_all add: evidence_def own_claim_def k q cong: option.case_cong)
  have dead: "lr_host (aq_rec a) \<noteq> h" if a: "map_of (lw_acq ?d) n = Some a" "aq_alive a" for n a
  proof -
    obtain b where "a = (if lr_host (aq_rec b) = h then b\<lparr>aq_alive := False\<rparr> else b)"
      using a(1) by (auto simp: map_of_die)
    then show ?thesis using a(2) by (cases "lr_host (aq_rec b) = h") simp_all
  qed
  have "acq_ok ?w'"
    unfolding acq_ok_def
  proof (intro allI impI)
    fix n a assume "map_of (lw_acq ?w') n = Some a"
    then have a: "map_of (lw_acq ?d) n = Some a" by simp
    then have "rec_ok ?d n a" "aq_alive a \<Longrightarrow> phase_ok ?d n a (aq_phase a)"
      using D unfolding lock_inv_def acq_ok_def by blast+
    then show "rec_ok ?w' n a \<and> (aq_alive a \<longrightarrow> phase_ok ?w' n a (aq_phase a))"
      unfolding ph using dead [OF a] by (auto simp: rec_ok_def)
  qed
  then show ?thesis using D by (simp add: lock_inv_def line_ok_def files_ok_def k q)
qed

lemma lock_step_inv: "lock_step w w' \<Longrightarrow> lock_inv w \<Longrightarrow> lock_inv w'"
proof (erule lock_stepE)
qed (auto intro: lock_inv_start lock_inv_link lock_inv_read_path lock_inv_judge lock_inv_claim lock_inv_read_claim lock_inv_pass_read lock_inv_pass_stat
    lock_inv_pass_probe lock_inv_rename lock_inv_recheck lock_inv_abandon lock_inv_verify lock_inv_listen lock_inv_to_RelStat lock_inv_rel_stat
    lock_inv_rel_rename lock_inv_gives_up lock_inv_die lock_inv_reboot)

interpretation plan_lock: invariant_system lock_init lock_step lock_inv
  by unfold_locales (auto intro: lock_inv_init lock_step_inv)

end
