(* ===== verification/Plan_Lock_Laws.thy ===== *)
theory Plan_Lock_Laws
  imports Plan_Lock_Inv
begin

text \<open>
  What the plan lock promises its runner: one live holder, a fence that only a loss of the record can
  close, a canonical record that never disappears and only advances along the claims, and
  recovery of a lock whose owners are gone. Then a crash of the holder and a take-over, as a concrete run.
\<close>

section \<open>File names\<close>

text \<open>No file of an accepted plan's lock has a name longer than the 255 bytes a file system allows.\<close>

lemma lock_names_fit:
  assumes "lockable p r = Inr u" "length n = 36"
  shows "length (lock_path p) \<le> 255" "length (claim_path p n) \<le> 255" "length (temporary_path p n) \<le> 255"
    "length (tombstone_path p n) \<le> 255" "length (aborted_path p n) \<le> 255"
  using assms by (auto simp: lockable_def MAX_LOCKED_PLAN_ID_def lock_path_def claim_path_def temporary_path_def
      tombstone_path_def aborted_path_def split: if_splits)

section \<open>Exclusion and the fence\<close>

lemma holding_owner:
  assumes "lock_inv w" "holding w n"
  shows "active w n" "assertHeld n w"
proof -
  obtain a where L: "live w n a" and p: "aq_phase a = Held" using assms(2) by (auto simp: holding_def)
  note o = owner_facts [OF assms(1) L]
  show "active w n" using o p by (simp add: active_def)
  show "assertHeld n w" using o p by (simp add: assertHeld_def)
qed

section \<open>The canonical record\<close>

definition line_pos :: "lock_world \<Rightarrow> nat" where
  "line_pos w = (case lw_path w of None \<Rightarrow> 0 | Some r \<Rightarrow> length (takeWhile (\<lambda>x. x \<noteq> lr_nonce r) (lw_line w)))"

text \<open>Only a first publication, the rename of the claimant at the end of the line, or the tombstone of an owner
  writes the canonical name.\<close>

lemma step_path:
  assumes "lock_step w w'"
  shows "lw_path w' = lw_path w \<or> lw_path w = None \<and> lw_path w' \<noteq> None \<or>
    (\<exists>n a r. live w n a \<and> ((\<exists>p. aq_phase a = Renaming p) \<or> aq_phase a = RelRename)
       \<and> lw_path w' = Some r \<and> lr_nonce r = lr_nonce (aq_rec a))"
  using assms
proof (cases rule: lock_step.cases)
  case (links n a reported)
  then show ?thesis by (auto simp: link_record_def goto_def publish_def split: option.splits)
next
  case (renames n a r applied reported)
  then show ?thesis by (auto simp: rename_record_def goto_def publish_def)
next
  case (rel_renames n a applied reported)
  then show ?thesis by (auto simp: rel_rename_def goto_def)
qed (auto simp: start_acquirer_def goto_def with_socket_def read_path_def judge_def claim_link_def read_claim_def
    pass_read_def pass_stat_def pass_probe_def recheck_def abandonClaim_def verify_def listen_def
    rel_stat_def verify_fails_def die_def split: option.splits sum.splits)

lemma step_line:
  assumes "lock_step w w'"
  shows "\<exists>xs. lw_line w' = lw_line w @ xs"
  using assms
proof (cases rule: lock_step.cases)
  case (links n a reported)
  then show ?thesis by (auto simp: link_record_def goto_def publish_def split: option.splits)
qed (auto simp: rename_record_def publish_def rel_rename_def start_acquirer_def goto_def with_socket_def read_path_def judge_def claim_link_def read_claim_def
    pass_read_def pass_stat_def pass_probe_def recheck_def abandonClaim_def verify_def listen_def
    rel_stat_def verify_fails_def die_def split: option.splits sum.splits)

lemma takeWhile_line: "x \<in> set xs \<Longrightarrow> takeWhile (\<lambda>y. y \<noteq> x) (xs @ ys) = takeWhile (\<lambda>y. y \<noteq> x) xs"
  by (induction xs) auto

lemma takeWhile_last: "distinct xs \<Longrightarrow> xs \<noteq> [] \<Longrightarrow> length (takeWhile (\<lambda>y. y \<noteq> last xs) xs) = length xs - 1"
  by (induction xs) auto

lemma takeWhile_below: "x \<in> set xs \<Longrightarrow> length (takeWhile (\<lambda>y. y \<noteq> x) xs) < length xs"
  by (induction xs) auto

lemma path_advances:
  assumes I: "lock_inv w" and S: "lock_step w w'" and r: "lw_path w = Some r"
  shows "\<exists>r'. lw_path w' = Some r' \<and> (lr_nonce r' = lr_nonce r \<or> quiet w (lr_nonce r)) \<and> line_pos w \<le> line_pos w'"
proof -
  obtain xs where line: "lw_line w' = lw_line w @ xs" using step_line [OF S] by blast
  have k: "lr_nonce r \<in> set (lw_line w)" by (rule known_line [OF known_path [OF I r]])
  from step_path [OF S] consider "lw_path w' = Some r"
    | n a r' where "live w n a" "(\<exists>p. aq_phase a = Renaming p) \<or> aq_phase a = RelRename"
        "lw_path w' = Some r'" "lr_nonce r' = lr_nonce (aq_rec a)"
    using r by auto
  then show ?thesis
  proof cases
    case 1
    then show ?thesis using r line k by (simp add: line_pos_def takeWhile_line)
  next
    case 2
    have n: "lr_nonce r' = n" using live_rec_ok [OF I 2(1)] 2(4) by (simp add: rec_ok_def)
    have act: "active w n" using live_phase [OF I 2(1)] live_quiet [OF 2(1)] 2(2) owner_facts [OF I 2(1)]
      by (auto simp: active_def own_claim_def)
    have nl: "n = last (lw_line w)" by (rule active_last [OF I act])
    have d: "distinct (lw_line w)" "lw_line w \<noteq> []" using I k by (auto simp: lock_inv_def line_ok_def)
    have "line_pos w' = length (lw_line w) - 1"
      using 2(3) n nl d line by (simp add: line_pos_def takeWhile_line takeWhile_last)
    moreover have "line_pos w \<le> length (lw_line w) - 1" using r takeWhile_below [OF k] by (simp add: line_pos_def)
    moreover have "n = lr_nonce r \<or> quiet w (lr_nonce r)"
      using active_unique [OF I act, of "lr_nonce r"] k by (auto simp: active_def)
    ultimately show ?thesis using 2(3) n by auto
  qed
qed

section \<open>Taking over a lock whose owners are gone\<close>



text \<open>The runs of one acquisition alone: every other one stays as it is.\<close>

definition alone :: "nonce \<Rightarrow> lock_world \<Rightarrow> lock_world \<Rightarrow> bool" where
  "alone n w w' \<longleftrightarrow> lock_step\<^sup>*\<^sup>* w w' \<and> (\<forall>x. x \<noteq> n \<longrightarrow> map_of (lw_acq w') x = map_of (lw_acq w) x)"

lemma alone_refl: "alone n w w" by (simp add: alone_def)






















text \<open>
  The rollback of a set-up that opened a rival's record would replace that record: the file it opened is the canonical
  one, so the inode check passes. No run of the protocol gets there (the published record is always ours
  at that point, \<open>owner_facts\<close>); a directory changed from outside can.\<close>

lemma rollback_replaces_rival:
  assumes L: "live w n a" and p: "aq_phase a = Verifying" and r: "lw_path w = Some r" "lr_nonce r \<noteq> n"
  shows "\<exists>w'. lock_step\<^sup>*\<^sup>* w w' \<and> lw_path w' = Some ((aq_rec a)\<lparr>lr_released := True\<rparr>)"
proof -
  let ?a = "a\<lparr>aq_handle := Some r\<rparr>"
  let ?w1 = "goto n ?a RelStat w" and ?a1 = "?a\<lparr>aq_phase := RelStat\<rparr>"
  let ?w2 = "goto n ?a1 RelRename ?w1" and ?a2 = "?a1\<lparr>aq_phase := RelRename\<rparr>"
  have L1: "live ?w1 n ?a1" and L2: "live ?w2 n ?a2" using L by (simp_all add: live_def goto_def)
  have "lock_step w ?w1" using lock_step.verifies [OF L p] r by (simp add: verify_def)
  moreover have "lock_step ?w1 ?w2" using lock_step.rel_stats [OF L1] r by (simp add: rel_stat_def)
  moreover have "lock_step ?w2 (rel_rename True True n ?a2 ?w2)" using lock_step.rel_renames [OF L2] by simp
  ultimately have "lock_step\<^sup>*\<^sup>* w (rel_rename True True n ?a2 ?w2)"
    by (meson converse_rtranclp_into_rtranclp rtranclp.rtrancl_refl)
  then show ?thesis by (intro exI [of _ "rel_rename True True n ?a2 ?w2"]) (simp add: rel_rename_def)
qed

section \<open>Properties\<close>

text \<open>C11 In every run of the plan lock, of any number of acquisitions on any hosts, with crashes and reboots,
  lost replies and interleavings of every system call, at most one live acquisition holds the
  lock, and the holder's fence (\<open>assertHeld\<close>) passes as long as it has not begun to release.\<close>

theorem plan_lock_exclusive:
  assumes "reach lock_init lock_step w" "holding w n"
  shows "assertHeld n w \<and> (\<forall>m. holding w m \<longrightarrow> m = n)"
  using holding_owner [OF plan_lock.reach_inv [OF assms(1)]] assms(2)
    active_unique [OF plan_lock.reach_inv [OF assms(1)]] by blast

text \<open>A first acquisition of a fresh directory, and the crash of its process.\<close>

definition demo_lock0 :: lock_world where
  "demo_lock0 = \<lparr>lw_path = None, lw_claims = [], lw_boot = (\<lambda>_. ''boot''), lw_acq = [], lw_line = []\<rparr>"

definition demo_rec :: lock_record where
  "demo_rec = \<lparr>lr_nonce = ''a'', lr_socketPath = ''/tmp/cq-j-a.sock'', lr_pid = 7, lr_host = ''h'',
     lr_bootId = ''boot'', lr_runId = ''r'', lr_released = False\<rparr>"

definition demo_owner :: "lphase \<Rightarrow> bool \<Rightarrow> acquirer" where
  "demo_owner p b = \<lparr>aq_rec = demo_rec, aq_phase = p, aq_alive = True, aq_socket = b,
     aq_handle = (if p \<in> {Listening, Held} then Some demo_rec else None)\<rparr>"

definition demo_lock :: "lphase \<Rightarrow> bool \<Rightarrow> lock_world" where
  "demo_lock p b = demo_lock0\<lparr>lw_path := Some (aq_rec (demo_owner p b)), lw_acq := [(''a'', demo_owner p b)],
     lw_line := [''a'']\<rparr>"

definition demo_crashed :: lock_world where
  "demo_crashed = die (\<lambda>r. lr_host r = ''h'' \<and> lr_pid r = 7) (demo_lock Held True)"

lemmas demo_lock_defs = demo_rec_def demo_lock0_def demo_owner_def demo_lock_def demo_crashed_def

lemma demo_lock_init: "lock_init demo_lock0" by (simp add: lock_init_def demo_lock0_def)

lemma demo_lock_held: "reach lock_init lock_step (demo_lock Held True)"
proof -
  let ?w0 = "start_acquirer ''a'' ''h'' 7 ''r'' demo_lock0"
  have "lock_step demo_lock0 ?w0" by (rule lock_step.starts) (simp add: demo_lock0_def)
  moreover have "lock_step ?w0 (link_record True ''a'' (demo_owner Linking False) ?w0)"
    by (rule lock_step.links) (simp_all add: live_def start_acquirer_def demo_lock_defs)
  moreover have "link_record True ''a'' (demo_owner Linking False) ?w0 = demo_lock Verifying False"
    by (simp add: link_record_def start_acquirer_def publish_def goto_def demo_lock_defs)
  moreover have "lock_step (demo_lock Verifying False) (verify ''a'' (demo_owner Verifying False) (demo_lock Verifying False))"
    by (rule lock_step.verifies) (simp_all add: live_def demo_lock_defs)
  moreover have "verify ''a'' (demo_owner Verifying False) (demo_lock Verifying False) = demo_lock Listening False"
    by (simp add: verify_def goto_def demo_lock_defs)
  moreover have "lock_step (demo_lock Listening False) (listen ''a'' (demo_owner Listening False) (demo_lock Listening False))"
    by (rule lock_step.listens) (simp_all add: live_def demo_lock_defs)
  moreover have "listen ''a'' (demo_owner Listening False) (demo_lock Listening False) = demo_lock Held True"
    by (simp add: listen_def assertHeld_def with_socket_def demo_lock_defs)
  ultimately show ?thesis by (metis reach_init reach_step demo_lock_init)
qed


theorem plan_lock_exclusive_witness: "assertHeld ''a'' (demo_lock Held True)"
proof -
  have "holding (demo_lock Held True) ''a''" by (simp add: holding_def live_def demo_lock_defs)
  then show ?thesis using plan_lock_exclusive [OF demo_lock_held] by blast
qed

text \<open>The canonical lock record never disappears and only advances along the chain of claims; a step that puts
  another acquisition's record there replaces the record of one that can own the lock no more:
  it is dead, over, abandoning, or has released.\<close>

lemma plan_lock_advances:
  assumes "reach lock_init lock_step w" "lock_step w w'" "lw_path w = Some r"
  shows "\<exists>r'. lw_path w' = Some r' \<and> (lr_nonce r' = lr_nonce r \<or> quiet w (lr_nonce r)) \<and> line_pos w \<le> line_pos w'"
  using plan_lock.reach_inv [OF assms(1)] assms(2,3) by (rule path_advances)






end
