(* ===== verification/Merge_Classify.thy ===== *)
theory Merge_Classify
  imports Run_Log
begin

text \<open>
  The merge acceptance table of \<open>src/ops/merge/classifyPrs.ts\<close> with its configuration, the thread count of
  \<open>src/ops/review/threads.ts\<close> and the review marker of \<open>src/shared/independent-review.ts\<close>. \<open>Date.parse\<close> is a
  parameter (it reads formats the language leaves to the engine; \<open>None\<close> is its NaN), and so are the configured
  patterns, as predicates on a body. Times are whole milliseconds.
\<close>

section \<open>Reviews, threads and comments\<close>

type_synonym login = string
type_synonym pr_no = nat
type_synonym date_parse = "string \<Rightarrow> int option"

datatype review_state = APPROVED | CHANGES_REQUESTED | COMMENTED | DISMISSED

record review =
  rv_author :: "login option"
  rv_type :: "string option"
  rv_assoc :: "string option"
  rv_state :: "review_state option"
  rv_body :: string
  rv_commit :: "string option"
  rv_submitted :: "string option"

record thread =
  th_resolved :: bool
  th_author :: "login option"

record rest_comment =
  cm_author :: "login option"
  cm_type :: "string option"
  cm_body :: string
  cm_created :: "string option"
  cm_reply_to :: "nat option"

fun countUnresolvedThreads :: "login option \<Rightarrow> thread list \<Rightarrow> nat" where
  "countUnresolvedThreads ex [] = 0"
| "countUnresolvedThreads ex (t # ts) =
     (if th_resolved t then countUnresolvedThreads ex ts
      else if ex \<noteq> None \<and> th_author t = ex then countUnresolvedThreads ex ts
      else 1 + countUnresolvedThreads ex ts)"

section \<open>The independent review marker\<close>

text \<open>Characters and words of the regular expressions: \<open>\w\<close>, \<open>\s\<close>, and a letter's lower case.\<close>

definition is_word :: "char \<Rightarrow> bool" where "is_word c \<longleftrightarrow> is_alnum c \<or> c = CHR ''_''"

definition lower :: "char \<Rightarrow> char" where
  "lower c = (if is_upper c then char_of (of_char c + 32 :: nat) else c)"

text \<open>The maximal runs of word characters: what \<open>\b...\b\<close> around word characters matches.\<close>

fun words_from :: "string \<Rightarrow> string \<Rightarrow> string list" where
  "words_from acc [] = (if acc = [] then [] else [rev acc])"
| "words_from acc (c # s) =
     (if is_word c then words_from (c # acc) s
      else (if acc = [] then words_from [] s else rev acc # words_from [] s))"

definition words :: "string \<Rightarrow> string list" where "words s = words_from [] s"

definition is_sha40 :: "string \<Rightarrow> bool" where "is_sha40 s \<longleftrightarrow> length s = 40 \<and> list_all is_hex s"

definition starts_ci :: "string \<Rightarrow> string \<Rightarrow> bool" where
  "starts_ci p s \<longleftrightarrow> map lower (take (length p) s) = p"

definition pass_after :: "string \<Rightarrow> bool" where
  "pass_after s \<longleftrightarrow> s \<noteq> [] \<and> is_space (hd s) \<and>
     (let t = dropWhile is_space s
      in starts_ci ''pass'' t \<and> (drop 4 t = [] \<or> \<not> is_word (hd (drop 4 t))))"

text \<open>\<open>/(?:\bnot|n't)\s+PASS\b/i\<close>, from a position whose previous character is a word character or not.\<close>

fun negated_pass :: "bool \<Rightarrow> string \<Rightarrow> bool" where
  "negated_pass w [] = False"
| "negated_pass w (c # s) =
     ((\<not> w \<and> starts_ci ''not'' (c # s) \<or> starts_ci ''n't'' (c # s)) \<and> pass_after (drop 3 (c # s))
      \<or> negated_pass (is_word c) s)"

definition hasPassVerdict :: "string \<Rightarrow> bool" where
  "hasPassVerdict body \<longleftrightarrow>
     ''PASS'' \<in> set (words body) \<and> \<not> (''HOLD'' \<in> set (words body) \<or> ''FAIL'' \<in> set (words body))
     \<and> \<not> negated_pass False body"

datatype parsed_review = Absent_review | Invalid_review | Valid_review string

definition parseIndependentReview :: "string \<Rightarrow> string option \<Rightarrow> parsed_review" where
  "parseIndependentReview body expectedHead =
     (let shas = filter is_sha40 (words body);
          head_sha = (case expectedHead of
              None \<Rightarrow> (case shas of [] \<Rightarrow> None | s # _ \<Rightarrow> Some s)
            | Some h \<Rightarrow> List.find (\<lambda>s. map lower s = map lower h) shas)
      in case head_sha of
           None \<Rightarrow> Absent_review
         | Some s \<Rightarrow> if hasPassVerdict body then Valid_review s else Absent_review)"

definition REVIEW_APP_LOGIN :: login where "REVIEW_APP_LOGIN = ''cq-review[bot]''"

definition isReviewAppAuthor :: "string option \<Rightarrow> login option \<Rightarrow> bool" where
  "isReviewAppAuthor ty l \<longleftrightarrow> l = Some REVIEW_APP_LOGIN \<or> ty = Some ''Bot'' \<and> l = Some ''cq-review''"

definition ends_ci :: "string \<Rightarrow> string \<Rightarrow> bool" where
  "ends_ci p s \<longleftrightarrow> length p \<le> length s \<and> map lower (drop (length s - length p) s) = p"

definition isIgnoredBotAuthor :: "string option \<Rightarrow> login option \<Rightarrow> bool" where
  "isIgnoredBotAuthor ty l =
     (if isReviewAppAuthor ty l then False
      else ty = Some ''Bot'' \<or> (case l of None \<Rightarrow> False | Some s \<Rightarrow> ends_ci ''[bot]'' s))"

section \<open>Configuration\<close>

text \<open>\<open>None\<close> of a list is \<open>undefined\<close>; the automation login is \<open>None\<close> (undefined), \<open>Some None\<close> (null) or a login.\<close>

record classify_config =
  cf_settleWindowMs :: int
  cf_allClear :: "string \<Rightarrow> bool"
  cf_skip :: "(string \<Rightarrow> bool) list"
  cf_trustedBots :: "login list option"
  cf_trustedAssociations :: "string list option"
  cf_automationLogin :: "login option option"
  cf_excludedLogins :: "login list option"
  cf_acceptReviewStates :: "review_state list option"

definition REVIEW_ACCEPT_SETTLE_MS :: int where "REVIEW_ACCEPT_SETTLE_MS = 600000"

definition policyActive :: "classify_config \<Rightarrow> bool" where
  "policyActive cf \<longleftrightarrow> cf_trustedBots cf \<noteq> None \<or> cf_trustedAssociations cf \<noteq> None
     \<or> cf_automationLogin cf \<noteq> None \<or> cf_excludedLogins cf \<noteq> None"

section \<open>Verdicts\<close>

datatype pr_verdict = Never | Conflicting | Awaiting | Eligible

datatype pr_reason =
    Is_draft | Merge_conflicts | Merge_state_ambiguous | Merge_state_blocked | Review_data_cut
  | Last_commit_unknown | Merge_objection_outstanding | No_acceptable_review | Explicit_all_clear
  | Settle_window_elapsed | Settle_window_pending

record pr_classification =
  pc_verdict :: pr_verdict
  pc_reason :: pr_reason
  pc_threads :: nat

datatype merge_state = DIRTY | BEHIND | CLEAN | UNKNOWN | HAS_HOOKS | BLOCKED

text \<open>\<open>pd_head\<close> is \<open>None\<close> when no head was fetched (undefined), \<open>Some None\<close> for null.\<close>

record pr_candidate =
  pd_pr :: pr_no
  pd_author :: "login option"
  pd_draft :: bool
  pd_mergeState :: merge_state
  pd_truncated :: bool
  pd_threads :: "thread list"
  pd_reviews :: "review list"
  pd_comments :: "rest_comment list"
  pd_lastCommitAt :: "string option"
  pd_head :: "string option option"

definition parseMs :: "date_parse \<Rightarrow> string option \<Rightarrow> int option" where
  "parseMs dp t = Option.bind t dp"

definition matchesSkipPattern :: "classify_config \<Rightarrow> string \<Rightarrow> bool" where
  "matchesSkipPattern cf body = list_ex (\<lambda>p. p body) (cf_skip cf)"

definition listed :: "'a option \<Rightarrow> 'a list option \<Rightarrow> bool" where
  "listed x xs \<longleftrightarrow> (case (x, xs) of (Some a, Some as) \<Rightarrow> a \<in> set as | _ \<Rightarrow> False)"

definition isTrustedReviewer :: "classify_config \<Rightarrow> review \<Rightarrow> bool" where
  "isTrustedReviewer cf r =
     (if \<not> policyActive cf then True
      else if rv_author r = None \<or> cf_automationLogin cf = Some (rv_author r) then False
      else if listed (rv_author r) (cf_excludedLogins cf) then False
      else listed (rv_author r) (cf_trustedBots cf) \<or> listed (rv_assoc r) (cf_trustedAssociations cf))"

definition isTrustedLogin :: "classify_config \<Rightarrow> login option \<Rightarrow> bool" where
  "isTrustedLogin cf l =
     (if \<not> policyActive cf then True
      else if l = None \<or> cf_automationLogin cf = Some l then False
      else if listed l (cf_excludedLogins cf) then False
      else listed l (cf_trustedBots cf))"

definition submittedMs :: "date_parse \<Rightarrow> review \<Rightarrow> int" where
  "submittedMs dp r = (case parseMs dp (rv_submitted r) of None \<Rightarrow> 0 | Some t \<Rightarrow> t)"

fun latest_fold :: "date_parse \<Rightarrow> review list \<Rightarrow> (login option, review) omap \<Rightarrow> (login option, review) omap" where
  "latest_fold dp [] m = m"
| "latest_fold dp (r # rs) m = latest_fold dp rs
     (case map_of m (rv_author r) of
        None \<Rightarrow> omap_set (rv_author r) r m
      | Some prior \<Rightarrow> if submittedMs dp prior \<le> submittedMs dp r then omap_set (rv_author r) r m else m)"

definition latestReviewPerActor :: "date_parse \<Rightarrow> review list \<Rightarrow> review list" where
  "latestReviewPerActor dp rs = map snd (latest_fold dp rs [])"

record review_ctx =
  cx_author :: "login option"
  cx_lastCommit :: int
  cx_config :: classify_config
  cx_head :: "string option option"

definition skip_screened :: "classify_config \<Rightarrow> review \<Rightarrow> bool" where
  "skip_screened cf r \<longleftrightarrow> matchesSkipPattern cf (rv_body r)
     \<and> (cf_automationLogin cf = None \<or> cf_automationLogin cf = Some (rv_author r))"

definition head_bound :: "string option option \<Rightarrow> review \<Rightarrow> bool" where
  "head_bound h r \<longleftrightarrow> (case h of None \<Rightarrow> True | Some None \<Rightarrow> False | Some (Some s) \<Rightarrow> rv_commit r = Some s)"

definition isReviewableEvidence :: "date_parse \<Rightarrow> review_ctx \<Rightarrow> review \<Rightarrow> bool" where
  "isReviewableEvidence dp cx r =
     (if cx_author cx \<noteq> None \<and> rv_author r = cx_author cx then False
      else if \<not> isTrustedReviewer (cx_config cx) r then False
      else if skip_screened (cx_config cx) r then False
      else if \<not> head_bound (cx_head cx) r then False
      else case parseMs dp (rv_submitted r) of None \<Rightarrow> False | Some t \<Rightarrow> t > cx_lastCommit cx)"

definition stateCounts :: "classify_config \<Rightarrow> review_state option \<Rightarrow> bool" where
  "stateCounts cf st = (case st of
      None \<Rightarrow> False
    | Some s \<Rightarrow> if s = DISMISSED then False
               else s \<in> set (case cf_acceptReviewStates cf of None \<Rightarrow> [APPROVED, COMMENTED] | Some ss \<Rightarrow> ss))"

definition isAcceptableReview :: "date_parse \<Rightarrow> review_ctx \<Rightarrow> review \<Rightarrow> bool" where
  "isAcceptableReview dp cx r \<longleftrightarrow> isReviewableEvidence dp cx r \<and> stateCounts (cx_config cx) (rv_state r)"

definition isObjection :: "date_parse \<Rightarrow> review_ctx \<Rightarrow> review \<Rightarrow> bool" where
  "isObjection dp cx r \<longleftrightarrow> isReviewableEvidence dp cx r \<and> rv_state r = Some CHANGES_REQUESTED"

text \<open>A review or a comment as evidence of an agent's review: author type, author and body.\<close>

definition agent_evidence :: "classify_config \<Rightarrow> login option \<Rightarrow> string \<Rightarrow> string option \<times> login option \<times> string \<Rightarrow> bool" where
  "agent_evidence cf prAuthor head e =
     (case e of (ty, l, body) \<Rightarrow>
       (let sharesAccount = prAuthor \<noteq> None \<and> cf_automationLogin cf \<noteq> Some prAuthor
              \<and> \<not> listed prAuthor (cf_excludedLogins cf)
        in (isReviewAppAuthor ty l \<or> sharesAccount \<and> l = prAuthor \<and> \<not> isIgnoredBotAuthor ty l)
           \<and> (case parseIndependentReview body (Some head) of Valid_review _ \<Rightarrow> True | _ \<Rightarrow> False)))"

definition hasSameAccountAgentAcceptance :: "pr_candidate \<Rightarrow> review_ctx \<Rightarrow> bool" where
  "hasSameAccountAgentAcceptance c cx =
     (case pd_head c of
        Some (Some head) \<Rightarrow> is_sha40 head \<and> list_ex (agent_evidence (cx_config cx) (pd_author c) head)
          (map (\<lambda>r. (rv_type r, rv_author r, rv_body r)) (filter (\<lambda>r. rv_state r \<noteq> Some DISMISSED) (pd_reviews c))
           @ map (\<lambda>k. (cm_type k, cm_author k, cm_body k)) (pd_comments c))
      | _ \<Rightarrow> False)"

definition isAllClearAfter :: "date_parse \<Rightarrow> classify_config \<Rightarrow> string \<Rightarrow> login option \<Rightarrow> string option \<Rightarrow> login option \<Rightarrow> int \<Rightarrow> bool" where
  "isAllClearAfter dp cf body evidenceAuthor createdAt prAuthor lastCommit =
     (if matchesSkipPattern cf body then False
      else if prAuthor \<noteq> None \<and> evidenceAuthor = prAuthor then False
      else if \<not> cf_allClear cf body then False
      else case parseMs dp createdAt of None \<Rightarrow> False | Some t \<Rightarrow> t > lastCommit)"

section \<open>The table\<close>

definition fold_input :: "classify_config \<Rightarrow> pr_candidate \<Rightarrow> review \<Rightarrow> bool" where
  "fold_input cf c r =
     (if rv_state r \<noteq> Some APPROVED \<and> rv_state r \<noteq> Some CHANGES_REQUESTED then False
      else if \<not> policyActive cf then True
      else if \<not> isTrustedReviewer cf r then False
      else if skip_screened cf r then False
      else head_bound (pd_head c) r)"

definition foldedReviews :: "date_parse \<Rightarrow> classify_config \<Rightarrow> pr_candidate \<Rightarrow> review list" where
  "foldedReviews dp cf c =
     (if policyActive cf then latestReviewPerActor dp (filter (fold_input cf c) (pd_reviews c)) else pd_reviews c)"

definition allClearAfterLastCommit :: "date_parse \<Rightarrow> pr_candidate \<Rightarrow> review_ctx \<Rightarrow> bool" where
  "allClearAfterLastCommit dp c cx =
     (let cf = cx_config cx in
      list_ex (\<lambda>r. stateCounts cf (rv_state r) \<and> isReviewableEvidence dp cx r
          \<and> isAllClearAfter dp cf (rv_body r) (rv_author r) (rv_submitted r) (pd_author c) (cx_lastCommit cx))
        (foldedReviews dp cf c)
      \<or> list_ex (\<lambda>k. cm_reply_to k = None \<and> isTrustedLogin cf (cm_author k)
          \<and> isAllClearAfter dp cf (cm_body k) (cm_author k) (cm_created k) (pd_author c) (cx_lastCommit cx))
        (pd_comments c))"

definition classifyPr :: "date_parse \<Rightarrow> pr_candidate \<Rightarrow> int \<Rightarrow> classify_config \<Rightarrow> pr_classification" where
  "classifyPr dp c nowMs cf =
     (let say = (\<lambda>v r. \<lparr>pc_verdict = v, pc_reason = r, pc_threads = countUnresolvedThreads (pd_author c) (pd_threads c)\<rparr>)
      in if pd_draft c then say Never Is_draft
         else case pd_mergeState c of
           DIRTY \<Rightarrow> say Conflicting Merge_conflicts
         | UNKNOWN \<Rightarrow> say Awaiting Merge_state_ambiguous
         | BLOCKED \<Rightarrow> say Awaiting Merge_state_blocked
         | _ \<Rightarrow>
           if pd_truncated c then say Awaiting Review_data_cut
           else case parseMs dp (pd_lastCommitAt c) of
             None \<Rightarrow> say Awaiting Last_commit_unknown
           | Some lc \<Rightarrow>
             (let cx = \<lparr>cx_author = pd_author c, cx_lastCommit = lc, cx_config = cf, cx_head = pd_head c\<rparr>;
                  folded = foldedReviews dp cf c
              in if list_ex (isObjection dp cx) folded then say Awaiting Merge_objection_outstanding
                 else if \<not> (list_ex (isAcceptableReview dp cx) folded \<or> hasSameAccountAgentAcceptance c cx)
                   then say Awaiting No_acceptable_review
                 else if allClearAfterLastCommit dp c cx then say Eligible Explicit_all_clear
                 else if nowMs - lc \<ge> cf_settleWindowMs cf then say Eligible Settle_window_elapsed
                 else say Awaiting Settle_window_pending))"


section \<open>What the table promises\<close>

text \<open>The fold keeps, for every actor of the stream, a review of theirs that no other of theirs postdates.\<close>

definition latest_ok :: "date_parse \<Rightarrow> review list \<Rightarrow> (login option, review) omap \<Rightarrow> bool" where
  "latest_ok dp seen m \<longleftrightarrow>
     (\<forall>l r. map_of m l = Some r \<longrightarrow> r \<in> set seen \<and> rv_author r = l) \<and>
     (\<forall>r \<in> set seen. \<exists>r'. map_of m (rv_author r) = Some r' \<and> submittedMs dp r \<le> submittedMs dp r')
     \<and> distinct (okeys m)"

lemma latest_fold_ok: "latest_ok dp seen m \<Longrightarrow> latest_ok dp (seen @ rs) (latest_fold dp rs m)"
proof (induction rs arbitrary: seen m)
  case (Cons r rs)
  let ?m = "case map_of m (rv_author r) of None \<Rightarrow> omap_set (rv_author r) r m
    | Some prior \<Rightarrow> if submittedMs dp prior \<le> submittedMs dp r then omap_set (rv_author r) r m else m"
  have "latest_ok dp (seen @ [r]) ?m"
  proof (cases "map_of m (rv_author r)")
    case None
    have "\<exists>r'. map_of (omap_set (rv_author r) r m) (rv_author x) = Some r' \<and> submittedMs dp x \<le> submittedMs dp r'"
      if "x \<in> set (seen @ [r])" for x
      using that Cons.prems None by (cases "rv_author x = rv_author r") (auto simp: latest_ok_def)
    then show ?thesis using None Cons.prems by (auto simp: latest_ok_def distinct_omap_set split: if_splits)
  next
    case (Some prior)
    have old: "\<And>x. x \<in> set seen \<Longrightarrow> rv_author x = rv_author r \<Longrightarrow> submittedMs dp x \<le> submittedMs dp prior"
      using Cons.prems Some by (fastforce simp: latest_ok_def)
    show ?thesis
    proof (cases "submittedMs dp prior \<le> submittedMs dp r")
      case True
      have "\<exists>r'. map_of (omap_set (rv_author r) r m) (rv_author x) = Some r' \<and> submittedMs dp x \<le> submittedMs dp r'"
        if "x \<in> set (seen @ [r])" for x
        using that Cons.prems old [of x] True by (cases "rv_author x = rv_author r") (auto simp: latest_ok_def)
      then show ?thesis using Some True Cons.prems by (auto simp: latest_ok_def distinct_omap_set split: if_splits)
    next
      case False
      then show ?thesis using Some Cons.prems by (auto simp: latest_ok_def)
    qed
  qed
  from Cons.IH [OF this] show ?case by simp
qed simp

lemma latest_fold_start: "latest_ok dp rs (latest_fold dp rs [])"
proof -
  have "latest_ok dp [] []" by (simp add: latest_ok_def)
  from latest_fold_ok [OF this, of rs] show ?thesis by simp
qed

lemma latest_per_actor:
  assumes "r \<in> set rs"
  shows "\<exists>r' \<in> set (latestReviewPerActor dp rs). rv_author r' = rv_author r \<and> submittedMs dp r \<le> submittedMs dp r'"
proof -
  have L: "latest_ok dp rs (latest_fold dp rs [])" by (rule latest_fold_start)
  then obtain r' where r': "map_of (latest_fold dp rs []) (rv_author r) = Some r'" "submittedMs dp r \<le> submittedMs dp r'"
    using assms unfolding latest_ok_def by blast
  then have "r' \<in> set (latestReviewPerActor dp rs)" unfolding latestReviewPerActor_def by (force dest: map_of_SomeD)
  moreover have "rv_author r' = rv_author r" using L r' unfolding latest_ok_def by blast
  ultimately show ?thesis using r' by blast
qed

lemma latest_subset: "set (latestReviewPerActor dp rs) \<subseteq> set rs"
proof
  fix x assume "x \<in> set (latestReviewPerActor dp rs)"
  then obtain l where l: "(l, x) \<in> set (latest_fold dp rs [])" unfolding latestReviewPerActor_def by auto
  have L: "latest_ok dp rs (latest_fold dp rs [])" by (rule latest_fold_start)
  then have "distinct (okeys (latest_fold dp rs []))" unfolding latest_ok_def by blast
  then have "map_of (latest_fold dp rs []) l = Some x" using l by (rule map_of_is_SomeI)
  then show "x \<in> set rs" using L unfolding latest_ok_def by blast
qed

lemma folded_subset: "set (foldedReviews dp cf c) \<subseteq> set (pd_reviews c)"
  using latest_subset [of dp "filter (fold_input cf c) (pd_reviews c)"] by (auto simp: foldedReviews_def)

definition ctx_of :: "classify_config \<Rightarrow> pr_candidate \<Rightarrow> int \<Rightarrow> review_ctx" where
  "ctx_of cf c lc = \<lparr>cx_author = pd_author c, cx_lastCommit = lc, cx_config = cf, cx_head = pd_head c\<rparr>"

text \<open>
  The acceptance condition I2 written out over the fetched data, without the table, its fold or its
  evidence predicates. Someone else than the author, whom the policy trusts, reviewed the head after the
  last commit; or an agent's PASS names the head.
\<close>

definition after_ms :: "date_parse \<Rightarrow> int \<Rightarrow> string option \<Rightarrow> bool" where
  "after_ms dp ms d \<longleftrightarrow> (case d of None \<Rightarrow> False | Some s \<Rightarrow> (case dp s of None \<Rightarrow> False | Some t \<Rightarrow> ms < t))"

text \<open>A login other than the author's; an unknown login is nobody's in particular and counts as another.\<close>

definition someone_else :: "pr_candidate \<Rightarrow> login option \<Rightarrow> bool" where
  "someone_else c l \<longleftrightarrow> pd_author c = None \<or> l \<noteq> pd_author c"

text \<open>No trust policy is configured, or the reviewer is neither the automation nor excluded and is a trusted bot or
  has a trusted association.\<close>

definition policy_trusts :: "classify_config \<Rightarrow> review \<Rightarrow> bool" where
  "policy_trusts cf r \<longleftrightarrow>
     cf_trustedBots cf = None \<and> cf_trustedAssociations cf = None \<and> cf_automationLogin cf = None \<and> cf_excludedLogins cf = None
     \<or> rv_author r \<noteq> None \<and> cf_automationLogin cf \<noteq> Some (rv_author r)
       \<and> (case cf_excludedLogins cf of None \<Rightarrow> True | Some xs \<Rightarrow> the (rv_author r) \<notin> set xs)
       \<and> ((case cf_trustedBots cf of None \<Rightarrow> False | Some bs \<Rightarrow> the (rv_author r) \<in> set bs)
          \<or> rv_assoc r \<noteq> None \<and> (case cf_trustedAssociations cf of None \<Rightarrow> False | Some as \<Rightarrow> the (rv_assoc r) \<in> set as))"

text \<open>What a review must be to speak about the head: by someone else, trusted, no bot notice, bound to the head when
  the head was fetched, and submitted strictly after the given time.\<close>

definition speaks :: "date_parse \<Rightarrow> classify_config \<Rightarrow> pr_candidate \<Rightarrow> int \<Rightarrow> review \<Rightarrow> bool" where
  "speaks dp cf c ms r \<longleftrightarrow> someone_else c (rv_author r) \<and> policy_trusts cf r
     \<and> \<not> ((\<exists>p \<in> set (cf_skip cf). p (rv_body r)) \<and> cf_automationLogin cf \<in> {None, Some (rv_author r)})
     \<and> (case pd_head c of None \<Rightarrow> True | Some h \<Rightarrow> h \<noteq> None \<and> rv_commit r = h)
     \<and> after_ms dp ms (rv_submitted r)"

definition counted_state :: "classify_config \<Rightarrow> review \<Rightarrow> bool" where
  "counted_state cf r \<longleftrightarrow> rv_state r \<notin> {None, Some DISMISSED, Some CHANGES_REQUESTED}
     \<and> (case cf_acceptReviewStates cf of
          None \<Rightarrow> rv_state r \<in> {Some APPROVED, Some COMMENTED} | Some ss \<Rightarrow> rv_state r \<in> Some ` set ss)"

text \<open>The agent's PASS: a comment or an undismissed review, of any date or none, by the review app or from the
  author's own account (when that is neither the automation nor excluded nor a bot), that names the head
  commit and gives a clean PASS.\<close>

definition passes_head :: "classify_config \<Rightarrow> pr_candidate \<Rightarrow> string option \<Rightarrow> login option \<Rightarrow> string \<Rightarrow> bool" where
  "passes_head cf c ty l body \<longleftrightarrow>
     (isReviewAppAuthor ty l
      \<or> l \<noteq> None \<and> l = pd_author c \<and> cf_automationLogin cf \<noteq> Some l \<and> \<not> isIgnoredBotAuthor ty l
        \<and> (case cf_excludedLogins cf of None \<Rightarrow> True | Some xs \<Rightarrow> the l \<notin> set xs))
     \<and> (\<exists>w \<in> set (words body). is_sha40 w \<and> (\<exists>h. pd_head c = Some (Some h) \<and> map lower w = map lower h))
     \<and> hasPassVerdict body"

definition agent_passed :: "classify_config \<Rightarrow> pr_candidate \<Rightarrow> bool" where
  "agent_passed cf c \<longleftrightarrow>
     (\<exists>r \<in> set (pd_reviews c). rv_state r \<noteq> Some DISMISSED \<and> passes_head cf c (rv_type r) (rv_author r) (rv_body r))
     \<or> (\<exists>k \<in> set (pd_comments c). passes_head cf c (cm_type k) (cm_author k) (cm_body k))"

definition cleared :: "date_parse \<Rightarrow> classify_config \<Rightarrow> pr_candidate \<Rightarrow> int \<Rightarrow> bool" where
  "cleared dp cf c ms \<longleftrightarrow>
     (\<exists>r \<in> set (pd_reviews c). cf_allClear cf (rv_body r) \<and> speaks dp cf c ms r)
     \<or> (\<exists>k \<in> set (pd_comments c). cf_allClear cf (cm_body k) \<and> cm_reply_to k = None
          \<and> someone_else c (cm_author k) \<and> after_ms dp ms (cm_created k))"

definition invited :: "date_parse \<Rightarrow> classify_config \<Rightarrow> int \<Rightarrow> pr_candidate \<Rightarrow> bool" where
  "invited dp cf now c \<longleftrightarrow>
     \<not> pd_draft c \<and> pd_mergeState c \<in> {CLEAN, BEHIND, HAS_HOOKS} \<and> \<not> pd_truncated c \<and>
     (\<exists>lc. Option.bind (pd_lastCommitAt c) dp = Some lc \<and>
        ((\<exists>r \<in> set (pd_reviews c). speaks dp cf c lc r \<and> counted_state cf r) \<or> agent_passed cf c) \<and>
        (\<forall>r \<in> set (pd_reviews c). rv_state r = Some CHANGES_REQUESTED \<longrightarrow> speaks dp cf c (max 0 lc) r \<longrightarrow>
           (\<exists>r' \<in> set (pd_reviews c). rv_author r' = rv_author r \<and> rv_state r' = Some APPROVED
              \<and> submittedMs dp r \<le> submittedMs dp r')) \<and>
        (cf_settleWindowMs cf \<le> now - lc \<or> cleared dp cf c lc))"

lemma after_ms_iff: "after_ms dp ms d \<longleftrightarrow> (\<exists>t. parseMs dp d = Some t \<and> ms < t)"
  by (cases d; cases "dp (the d)") (simp_all add: parseMs_def after_ms_def)

lemma speaks_earlier: "speaks dp cf c ms r \<Longrightarrow> after_ms dp ms' (rv_submitted r) \<Longrightarrow> speaks dp cf c ms' r"
  unfolding speaks_def by blast

lemma speaks_time: "speaks dp cf c ms r \<Longrightarrow> \<exists>t. parseMs dp (rv_submitted r) = Some t \<and> ms < t"
  unfolding speaks_def after_ms_iff by blast

text \<open>The table's evidence predicates are these.\<close>

lemma trusted_iff: "isTrustedReviewer cf r \<longleftrightarrow> policy_trusts cf r"
  by (cases "rv_author r"; cases "rv_assoc r")
    (auto simp: isTrustedReviewer_def policy_trusts_def policyActive_def listed_def split: option.splits)

lemma evidence_split:
  "isReviewableEvidence dp (ctx_of cf c ms) r \<longleftrightarrow> someone_else c (rv_author r) \<and> isTrustedReviewer cf r
      \<and> \<not> skip_screened cf r \<and> head_bound (pd_head c) r
      \<and> (case parseMs dp (rv_submitted r) of None \<Rightarrow> False | Some t \<Rightarrow> t > ms)"
  by (cases "parseMs dp (rv_submitted r)") (simp_all add: isReviewableEvidence_def ctx_of_def someone_else_def)

lemma evidence_iff: "isReviewableEvidence dp (ctx_of cf c ms) r \<longleftrightarrow> speaks dp cf c ms r"
proof -
  have skip: "skip_screened cf r \<longleftrightarrow> (\<exists>p \<in> set (cf_skip cf). p (rv_body r)) \<and> cf_automationLogin cf \<in> {None, Some (rv_author r)}"
    by (auto simp: skip_screened_def matchesSkipPattern_def list_ex_iff)
  have head: "head_bound (pd_head c) r \<longleftrightarrow> (case pd_head c of None \<Rightarrow> True | Some h \<Rightarrow> h \<noteq> None \<and> rv_commit r = h)"
    by (auto simp: head_bound_def split: option.splits)
  have time: "(case parseMs dp (rv_submitted r) of None \<Rightarrow> False | Some t \<Rightarrow> t > ms) \<longleftrightarrow> after_ms dp ms (rv_submitted r)"
    by (cases "rv_submitted r") (simp_all add: parseMs_def after_ms_def)
  show ?thesis unfolding evidence_split speaks_def skip head time trusted_iff ..
qed

lemma state_counts: "stateCounts cf (rv_state r) \<Longrightarrow> rv_state r \<noteq> Some CHANGES_REQUESTED \<Longrightarrow> counted_state cf r"
  by (auto simp: stateCounts_def counted_state_def split: option.splits if_splits)

lemma valid_review_names: "parseIndependentReview body (Some h) = Valid_review s \<Longrightarrow>
    (\<exists>w \<in> set (words body). is_sha40 w \<and> map lower w = map lower h) \<and> hasPassVerdict body"
  by (auto simp: parseIndependentReview_def Let_def find_Some_iff split: option.splits if_splits) (metis nth_mem mem_Collect_eq set_filter)

lemma agent_evidence_passes:
  assumes "agent_evidence cf (pd_author c) h (ty, l, body)" "pd_head c = Some (Some h)"
  shows "passes_head cf c ty l body"
proof -
  obtain s where "parseIndependentReview body (Some h) = Valid_review s"
    using assms(1) by (auto simp: agent_evidence_def Let_def split: parsed_review.splits)
  with valid_review_names have "(\<exists>w \<in> set (words body). is_sha40 w \<and> map lower w = map lower h) \<and> hasPassVerdict body" by blast
  then show ?thesis
    using assms by (cases l) (auto simp: passes_head_def agent_evidence_def Let_def listed_def split: option.splits)
qed

lemma agent_accepts: "hasSameAccountAgentAcceptance c (ctx_of cf c ms) \<Longrightarrow> agent_passed cf c"
  by (auto simp: hasSameAccountAgentAcceptance_def agent_passed_def ctx_of_def list_ex_iff
      dest: agent_evidence_passes split: option.splits) 

lemma clear_cleared:
  assumes "allClearAfterLastCommit dp c (ctx_of cf c ms)"
  shows "cleared dp cf c ms"
proof -
  have t: "parseMs dp d = Some t \<Longrightarrow> ms < t \<Longrightarrow> after_ms dp ms d" for d t
    by (cases d) (simp_all add: parseMs_def after_ms_def)
  from assms consider r where "r \<in> set (foldedReviews dp cf c)" "isReviewableEvidence dp (ctx_of cf c ms) r" "cf_allClear cf (rv_body r)"
    | k where "k \<in> set (pd_comments c)" "cm_reply_to k = None"
      "isAllClearAfter dp cf (cm_body k) (cm_author k) (cm_created k) (pd_author c) ms"
    by (auto simp: allClearAfterLastCommit_def ctx_of_def isAllClearAfter_def list_ex_iff Let_def split: if_splits)
  then show ?thesis
  proof cases
    case 1
    then show ?thesis using folded_subset [of dp cf c] unfolding cleared_def evidence_iff by blast
  next
    case 2
    then show ?thesis by (auto simp: cleared_def isAllClearAfter_def someone_else_def intro: t split: if_splits option.splits)
  qed
qed

lemma eligible_table:
  assumes "pc_verdict (classifyPr dp c now cf) = Eligible"
  obtains lc where "\<not> pd_draft c" "pd_mergeState c \<in> {CLEAN, BEHIND, HAS_HOOKS}" "\<not> pd_truncated c"
    "parseMs dp (pd_lastCommitAt c) = Some lc" "\<not> list_ex (isObjection dp (ctx_of cf c lc)) (foldedReviews dp cf c)"
    "list_ex (isAcceptableReview dp (ctx_of cf c lc)) (foldedReviews dp cf c) \<or> hasSameAccountAgentAcceptance c (ctx_of cf c lc)"
    "cf_settleWindowMs cf \<le> now - lc \<or> allClearAfterLastCommit dp c (ctx_of cf c lc)"
  using assms
  by (auto simp: classifyPr_def Let_def ctx_of_def split: merge_state.splits option.splits if_splits)

text \<open>A standing objection survives the fold unless its author approved later.\<close>

lemma objection_folded:
  assumes r: "r \<in> set (pd_reviews c)" "rv_state r = Some CHANGES_REQUESTED" "speaks dp cf c (max 0 lc) r"
    and none: "\<not> list_ex (isObjection dp (ctx_of cf c lc)) (foldedReviews dp cf c)"
  shows "\<exists>r' \<in> set (pd_reviews c). rv_author r' = rv_author r \<and> rv_state r' = Some APPROVED
    \<and> submittedMs dp r \<le> submittedMs dp r'"
proof -
  obtain t where t: "parseMs dp (rv_submitted r) = Some t" "lc < t" "0 < t"
    using speaks_time [OF r(3)] by auto
  have ev: "isReviewableEvidence dp (ctx_of cf c lc) r"
    unfolding evidence_iff by (rule speaks_earlier [OF r(3)]) (use t in \<open>auto simp: after_ms_iff\<close>)
  have act: "policyActive cf"
  proof (rule ccontr)
    assume "\<not> policyActive cf"
    then have "foldedReviews dp cf c = pd_reviews c" by (simp add: foldedReviews_def)
    then show False using none r(1,2) ev unfolding list_ex_iff isObjection_def by metis
  qed
  have tr: "isTrustedReviewer cf r" "\<not> skip_screened cf r" "head_bound (pd_head c) r" "someone_else c (rv_author r)"
    using ev unfolding evidence_split by blast+
  let ?in = "filter (fold_input cf c) (pd_reviews c)"
  have "r \<in> set ?in" using r(1,2) tr by (simp add: fold_input_def)
  from latest_per_actor [OF this, of dp] obtain r' where r': "r' \<in> set (latestReviewPerActor dp ?in)"
    "rv_author r' = rv_author r" "submittedMs dp r \<le> submittedMs dp r'" by blast
  have in': "r' \<in> set (pd_reviews c)" "fold_input cf c r'" using latest_subset r'(1) by fastforce+
  have no: "\<not> isObjection dp (ctx_of cf c lc) r'" using none r'(1) act by (auto simp: foldedReviews_def list_ex_iff)
  have "rv_state r' = Some APPROVED"
  proof (rule ccontr)
    assume "rv_state r' \<noteq> Some APPROVED"
    then have st: "rv_state r' = Some CHANGES_REQUESTED" using in'(2) by (auto simp: fold_input_def split: if_splits)
    have i: "isTrustedReviewer cf r'" "\<not> skip_screened cf r'" "head_bound (pd_head c) r'"
      using in'(2) act by (auto simp: fold_input_def split: if_splits)
    have "0 < submittedMs dp r'" "lc < submittedMs dp r'" using r'(3) t by (simp_all add: submittedMs_def)
    then obtain t' where "parseMs dp (rv_submitted r') = Some t'" "lc < t'"
      by (auto simp: submittedMs_def split: option.splits)
    then show False using no st i tr(4) r'(2) unfolding isObjection_def evidence_split by simp
  qed
  with r'(2,3) in'(1) show ?thesis by blast
qed

lemma eligible_invited:
  assumes e: "pc_verdict (classifyPr dp c now cf) = Eligible"
  shows "invited dp cf now c"
proof -
  obtain t where t: "\<not> pd_draft c" "pd_mergeState c \<in> {CLEAN, BEHIND, HAS_HOOKS}" "\<not> pd_truncated c"
    "parseMs dp (pd_lastCommitAt c) = Some t" "\<not> list_ex (isObjection dp (ctx_of cf c t)) (foldedReviews dp cf c)"
    "list_ex (isAcceptableReview dp (ctx_of cf c t)) (foldedReviews dp cf c) \<or> hasSameAccountAgentAcceptance c (ctx_of cf c t)"
    "cf_settleWindowMs cf \<le> now - t \<or> allClearAfterLastCommit dp c (ctx_of cf c t)"
    using e by (rule eligible_table)
  have "(\<exists>r \<in> set (pd_reviews c). speaks dp cf c t r \<and> counted_state cf r) \<or> agent_passed cf c"
    using t(6)
  proof
    assume "list_ex (isAcceptableReview dp (ctx_of cf c t)) (foldedReviews dp cf c)"
    then obtain r where r: "r \<in> set (foldedReviews dp cf c)" "isReviewableEvidence dp (ctx_of cf c t) r" "stateCounts cf (rv_state r)"
      by (auto simp: list_ex_iff isAcceptableReview_def ctx_of_def)
    then have "rv_state r \<noteq> Some CHANGES_REQUESTED" using t(5) by (auto simp: list_ex_iff isObjection_def)
    then show ?thesis using r folded_subset [of dp cf c] state_counts [of cf r] unfolding evidence_iff by blast
  qed (auto dest: agent_accepts)
  moreover have "cf_settleWindowMs cf \<le> now - t \<or> cleared dp cf c t" using t(7) clear_cleared by blast
  moreover have "Option.bind (pd_lastCommitAt c) dp = Some t" using t(4) by (simp add: parseMs_def)
  ultimately show ?thesis unfolding invited_def using t(1-3) objection_folded [OF _ _ _ t(5)] by blast
qed

section \<open>A concrete candidate\<close>

text \<open>Dates are written as decimal milliseconds; the reviewer objected first and approved later.\<close>

definition decimal_dates :: date_parse where
  "decimal_dates s = Some (int (digits_val s))"

definition open_policy :: classify_config where
  "open_policy =
     \<lparr>cf_settleWindowMs = REVIEW_ACCEPT_SETTLE_MS, cf_allClear = (\<lambda>b. b = ''LGTM''), cf_skip = [],
      cf_trustedBots = None, cf_trustedAssociations = Some [''MEMBER''], cf_automationLogin = None,
      cf_excludedLogins = None, cf_acceptReviewStates = None\<rparr>"

definition member_review :: "review_state \<Rightarrow> string \<Rightarrow> review" where
  "member_review st date =
     \<lparr>rv_author = Some ''ann'', rv_type = None, rv_assoc = Some ''MEMBER'', rv_state = Some st, rv_body = '''',
      rv_commit = None, rv_submitted = Some date\<rparr>"

definition reviewed_pr :: pr_candidate where
  "reviewed_pr =
     \<lparr>pd_pr = 7, pd_author = Some ''bob'', pd_draft = False, pd_mergeState = CLEAN, pd_truncated = False,
      pd_threads = [], pd_reviews = [member_review CHANGES_REQUESTED ''2000'', member_review APPROVED ''3000''],
      pd_comments = [], pd_lastCommitAt = Some ''1000'', pd_head = None\<rparr>"

lemma reviewed_pr_eligible: "pc_verdict (classifyPr decimal_dates reviewed_pr 601000 open_policy) = Eligible"
  by code_simp

text \<open>C8 Nothing is eligible uninvited: an eligible pull request is no draft, mergeable and fully fetched; someone
other than its author whom the policy trusts reviewed its head strictly after the last commit and did not
object, or an agent's undismissed PASS names its head (the review app's or one from the author's own
account, whatever its date); every such objection after the last commit (and the epoch) was overruled by a
later approval of its author; and the settle window has passed or someone else gave an all-clear after the
last commit. The condition is stated over the fetched data, not by the table's predicates.\<close>

theorem eligible_is_invited:
  assumes "pc_verdict (classifyPr dp c now cf) = Eligible"
  shows "invited dp cf now c"
  by (rule eligible_invited) (fact assms)

theorem eligible_is_invited_witness: "invited decimal_dates open_policy 601000 reviewed_pr"
  by (rule eligible_is_invited [OF reviewed_pr_eligible])

end
