(* ===== verification/Merge_Order.thy ===== *)
theory Merge_Order
  imports Merge_Classify
begin

text \<open>
  The stacked merge plan of \<open>src/ops/merge/planMergeOrder.ts\<close>: the eight gates in their order over
  rows sorted by number, the ledger of withheld pull requests, and the order. The recursions over the stack
  (\<open>statusOf\<close>, \<open>cascade\<close>, \<open>emitSubtree\<close>) are partial functions, so that a stack they would not
  return on gives \<open>None\<close>; the laws show that they always return.
\<close>

section \<open>Input and plan\<close>

datatype pr_state = Open_pr | Closed_pr

record planned_pr =
  pp_pr :: pr_no
  pp_head :: string
  pp_base :: string
  pp_sha :: "string option"
  pp_state :: pr_state
  pp_author :: "login option"
  pp_class :: "pr_classification option"
  pp_truncated :: bool

datatype block_reason =
    Duplicate_pr | Review_data_truncated | Unclassified | Not_eligible | Unresolved_base | Stack_cycle
  | Stack_base_merging_this_pass | Stack_base_needs_human

datatype merge_action = Merge_it | Retarget_self

record merge_entry =
  me_pr :: pr_no
  me_action :: merge_action
  me_basePr :: "pr_no option"
  me_depth :: nat
  me_baseRefName :: "string option"
  me_headSha :: "string option"

record merge_plan =
  mp_order :: "merge_entry list"
  mp_needsHuman :: "(pr_no \<times> block_reason) list"
  mp_baseBranch :: string

section \<open>The ledger and the gates on single rows\<close>

type_synonym ledger = "(pr_no \<times> block_reason) list"

definition excluded :: "ledger \<Rightarrow> pr_no set" where "excluded L = fst ` set L"

definition withhold :: "pr_no \<Rightarrow> block_reason \<Rightarrow> ledger \<Rightarrow> ledger" where
  "withhold n r L = (if n \<in> excluded L then L else L @ [(n, r)])"

definition pr_count :: "planned_pr list \<Rightarrow> pr_no \<Rightarrow> nat" where
  "pr_count rows n = length (filter (\<lambda>c. pp_pr c = n) rows)"

fun duplicate_gate :: "planned_pr list \<Rightarrow> planned_pr list \<Rightarrow> ledger \<Rightarrow> ledger" where
  "duplicate_gate rows [] L = L"
| "duplicate_gate rows (c # cs) L =
     duplicate_gate rows cs
       (if pp_state c \<noteq> Open_pr then L
        else if pr_count rows (pp_pr c) \<noteq> 1 then withhold (pp_pr c) Duplicate_pr L else L)"

fun evidence_gate :: "planned_pr list \<Rightarrow> ledger \<Rightarrow> ledger" where
  "evidence_gate [] L = L"
| "evidence_gate (c # cs) L =
     evidence_gate cs
       (if pp_state c \<noteq> Open_pr then L
        else if pp_truncated c then withhold (pp_pr c) Review_data_truncated L
        else case pp_class c of
          None \<Rightarrow> withhold (pp_pr c) Unclassified L
        | Some k \<Rightarrow> if pc_verdict k \<noteq> Eligible then withhold (pp_pr c) Not_eligible L else L)"

section \<open>Stack positions\<close>

text \<open>The lowest number wins: the rows are sorted.\<close>

definition open_owner :: "planned_pr list \<Rightarrow> string \<Rightarrow> pr_no option" where
  "open_owner rows h = map_option pp_pr (List.find (\<lambda>c. pp_state c = Open_pr \<and> pp_head c = h) rows)"

definition closed_owner :: "planned_pr list \<Rightarrow> string \<Rightarrow> pr_no option" where
  "closed_owner rows h = map_option pp_pr (List.find (\<lambda>c. pp_state c = Closed_pr \<and> pp_head c = h) rows)"

record stack =
  sk_baseOf :: "(pr_no, pr_no) omap"
  sk_merge :: "pr_no list"
  sk_retarget :: "pr_no list"
  sk_ledger :: ledger

definition place :: "string \<Rightarrow> planned_pr list \<Rightarrow> planned_pr \<Rightarrow> stack \<Rightarrow> stack" where
  "place trunk rows c k =
     (if pp_base c = trunk then
        if pp_pr c \<notin> excluded (sk_ledger k) then k\<lparr>sk_merge := sk_merge k @ [pp_pr c]\<rparr> else k
      else case open_owner rows (pp_base c) of
        Some b \<Rightarrow> if pr_count rows (pp_pr c) = 1 then k\<lparr>sk_baseOf := omap_set (pp_pr c) b (sk_baseOf k)\<rparr> else k
      | None \<Rightarrow>
          if closed_owner rows (pp_base c) \<noteq> None then
            if pp_pr c \<notin> excluded (sk_ledger k) then k\<lparr>sk_retarget := sk_retarget k @ [pp_pr c]\<rparr> else k
          else k\<lparr>sk_ledger := withhold (pp_pr c) Unresolved_base (sk_ledger k)\<rparr>)"

fun place_all :: "string \<Rightarrow> planned_pr list \<Rightarrow> planned_pr list \<Rightarrow> stack \<Rightarrow> stack" where
  "place_all trunk rows [] k = k"
| "place_all trunk rows (c # cs) k = place_all trunk rows cs (place trunk rows c k)"

section \<open>Cycles\<close>

text \<open>The walk down the base chain from \<open>n\<close>; the set of seen rows bounds it.\<close>

function (sequential) walk_back :: "(pr_no, pr_no) omap \<Rightarrow> pr_no \<Rightarrow> pr_no list \<Rightarrow> pr_no option \<Rightarrow> bool" where
  "walk_back m n seen None = False"
| "walk_back m n seen (Some c) =
     (if c = n then True
      else if c \<in> set seen then False
      else walk_back m n (c # seen) (map_of m c))"
  by pat_completeness auto

lemma card_seen: "c \<in> A \<Longrightarrow> c \<notin> set seen \<Longrightarrow> finite A \<Longrightarrow> card (A - set (c # seen)) < card (A - set seen)"
  by (rule psubset_card_mono) auto

termination walk_back
proof (relation "measures [\<lambda>(m, n, seen, c). card (set (okeys m) - set seen),
    \<lambda>(m, n, seen, c). case c of None \<Rightarrow> 0 | Some _ \<Rightarrow> Suc 0]")
  fix m :: "(pr_no, pr_no) omap" and n :: pr_no and seen c
  assume c: "c \<noteq> n" "c \<notin> set seen"
  show "((m, n, c # seen, map_of m c), m, n, seen, Some c) \<in> measures [\<lambda>(m, n, seen, c). card (set (okeys m) - set seen),
      \<lambda>(m, n, seen, c). case c of None \<Rightarrow> 0 | Some _ \<Rightarrow> Suc 0]"
  proof (cases "c \<in> set (okeys m)")
    case True
    then show ?thesis using card_seen [OF True c(2)] by (simp del: set_map)
  next
    case False
    then have "map_of m c = None" using omap_has_iff [of c m] unfolding omap_has_def by blast
    moreover have "set (okeys m) - set (c # seen) = set (okeys m) - set seen" using False by auto
    ultimately show ?thesis by (simp del: set_map)
  qed
qed simp

definition on_cycle :: "(pr_no, pr_no) omap \<Rightarrow> pr_no \<Rightarrow> bool" where
  "on_cycle m n = walk_back m n [n] (map_of m n)"

fun cycle_gate :: "(pr_no, pr_no) omap \<Rightarrow> pr_no list \<Rightarrow> ledger \<Rightarrow> ledger" where
  "cycle_gate m [] L = L"
| "cycle_gate m (n # ns) L =
     cycle_gate m ns
       (if n \<in> excluded L then L else if on_cycle m n then withhold n Stack_cycle L else L)"

section \<open>What merges in this pass\<close>

text \<open>The pair: is it in the order at all, and does it merge now.\<close>

partial_function (option) statusOf :: "stack \<Rightarrow> ledger \<Rightarrow> pr_no \<Rightarrow> (bool \<times> bool) option" where
  "statusOf k L n =
     (if n \<in> excluded L then Some (False, False)
      else if n \<in> set (sk_merge k) then Some (True, True)
      else if n \<in> set (sk_retarget k) then Some (True, False)
      else case map_of (sk_baseOf k) n of
        None \<Rightarrow> Some (False, False)
      | Some b \<Rightarrow> Option.bind (statusOf k L b) (\<lambda>(inOrder, mergesNow).
          Some (inOrder \<and> \<not> mergesNow, inOrder \<and> \<not> mergesNow)))"

fun defer_gate :: "stack \<Rightarrow> (pr_no \<times> pr_no) list \<Rightarrow> ledger \<Rightarrow> ledger option" where
  "defer_gate k [] L = Some L"
| "defer_gate k ((child, b) # es) L =
     (if child \<in> excluded L then defer_gate k es L
      else Option.bind (statusOf k L b) (\<lambda>(_, mergesNow).
        defer_gate k es (if mergesNow then withhold child Stack_base_merging_this_pass L else L)))"

section \<open>The cascade\<close>

definition childrenOf :: "(pr_no, pr_no) omap \<Rightarrow> ledger \<Rightarrow> pr_no \<Rightarrow> pr_no list" where
  "childrenOf m L b = map fst (filter (\<lambda>(c, b'). b' = b \<and> c \<notin> excluded L) m)"

text \<open>\<open>cascade\<close> over a list of children.\<close>

partial_function (option) cascade :: "(pr_no \<Rightarrow> pr_no list) \<Rightarrow> pr_no list \<Rightarrow> ledger \<Rightarrow> ledger option" where
  "cascade kids ns L =
     (case ns of
        [] \<Rightarrow> Some L
      | n # ns' \<Rightarrow>
          if n \<in> excluded L then cascade kids ns' L
          else Option.bind (cascade kids (kids n) (withhold n Stack_base_needs_human L)) (\<lambda>L'. cascade kids ns' L'))"

fun cascade_gate :: "(pr_no \<Rightarrow> pr_no list) \<Rightarrow> pr_no list \<Rightarrow> ledger \<Rightarrow> ledger option" where
  "cascade_gate kids [] L = Some L"
| "cascade_gate kids (n # ns) L = Option.bind (cascade kids (kids n) L) (cascade_gate kids ns)"

section \<open>The order\<close>

definition entryFor :: "planned_pr list \<Rightarrow> string \<Rightarrow> pr_no \<Rightarrow> merge_action \<Rightarrow> pr_no option \<Rightarrow> nat \<Rightarrow> merge_entry" where
  "entryFor rows trunk n action basePr depth =
     (let c = map_of (rev (map (\<lambda>c. (pp_pr c, c)) rows)) n
      in \<lparr>me_pr = n, me_action = action, me_basePr = basePr, me_depth = depth,
          me_baseRefName = (case map_option pp_base c of None \<Rightarrow> None | Some b \<Rightarrow> if b \<noteq> trunk then Some b else None),
          me_headSha = (case Option.bind c pp_sha of None \<Rightarrow> None | Some s \<Rightarrow> if is_sha40 s then Some s else None)\<rparr>)"

text \<open>\<open>emitSubtree\<close> over a list of siblings.\<close>

partial_function (option) emitSubtrees ::
  "(pr_no \<Rightarrow> pr_no option \<Rightarrow> nat \<Rightarrow> merge_entry) \<Rightarrow> (pr_no \<Rightarrow> pr_no list) \<Rightarrow> pr_no list \<Rightarrow> pr_no \<Rightarrow> nat \<Rightarrow> merge_entry list option" where
  "emitSubtrees entry kids ns b depth =
     (case ns of
        [] \<Rightarrow> Some []
      | n # ns' \<Rightarrow>
          Option.bind (emitSubtrees entry kids (kids n) n (depth + 1)) (\<lambda>below.
          Option.bind (emitSubtrees entry kids ns' b depth) (\<lambda>rest.
            Some (entry n (Some b) depth # below @ rest))))"

fun emit_roots ::
  "(pr_no \<Rightarrow> pr_no option \<Rightarrow> nat \<Rightarrow> merge_entry) \<Rightarrow> (pr_no \<Rightarrow> pr_no list) \<Rightarrow> pr_no list \<Rightarrow> merge_entry list option" where
  "emit_roots entry kids [] = Some []"
| "emit_roots entry kids (n # ns) =
     Option.bind (emitSubtrees entry kids (kids n) n 1) (\<lambda>below.
     Option.bind (emit_roots entry kids ns) (\<lambda>rest. Some (below @ rest)))"

definition first_gates :: "planned_pr list \<Rightarrow> ledger" where
  "first_gates rows = evidence_gate rows (duplicate_gate rows rows [])"

definition place_rows :: "string \<Rightarrow> planned_pr list \<Rightarrow> stack" where
  "place_rows trunk rows =
     place_all trunk rows (filter (\<lambda>c. pp_state c = Open_pr) rows)
       \<lparr>sk_baseOf = [], sk_merge = [], sk_retarget = [], sk_ledger = first_gates rows\<rparr>"

definition plan_rows :: "string \<Rightarrow> planned_pr list \<Rightarrow> merge_plan option" where
  "plan_rows trunk rows =
     (let k = place_rows trunk rows;
          m = sk_baseOf k
      in Option.bind (defer_gate k m (cycle_gate m (okeys m) (sk_ledger k))) (\<lambda>L7.
         let kids = childrenOf m L7
         in Option.bind (cascade_gate kids (map fst L7) L7) (\<lambda>L8.
            let roots = sort (sk_merge k @ sk_retarget k);
                action = (\<lambda>n. if n \<in> set (sk_retarget k) then Retarget_self else Merge_it)
            in Option.bind (emit_roots (\<lambda>n. entryFor rows trunk n Merge_it) kids roots) (\<lambda>below.
               Some \<lparr>mp_order = map (\<lambda>n. entryFor rows trunk n (action n) None 0) roots @ below,
                     mp_needsHuman = sort_key fst L8, mp_baseBranch = trunk\<rparr>))))"

definition planMergeOrder :: "string \<Rightarrow> planned_pr list \<Rightarrow> merge_plan option" where
  "planMergeOrder trunk prs = plan_rows trunk (sort_key pp_pr prs)"

end
