(* ===== verification/Merge_Order_Laws.thy ===== *)
theory Merge_Order_Laws
  imports Merge_Order
begin

text \<open>
  The laws of the merge plan: it always returns, every open pull request is ordered or withheld exactly
  once, an ordered child hangs directly below a retargeted root (nothing merges into a branch that
  this pass strands), and the plan depends on the set of rows only, not on their order.
\<close>

section \<open>The ledger\<close>

lemma excluded_withhold [simp]: "excluded (withhold n r L) = insert n (excluded L)"
  by (auto simp: withhold_def excluded_def)

lemma excluded_Nil [simp]: "excluded [] = {}"
  by (simp add: excluded_def)

lemma distinct_withhold: "distinct (map fst L) \<Longrightarrow> distinct (map fst (withhold n r L))"
  by (auto simp: withhold_def excluded_def)

lemma withhold_same: "n \<in> excluded L \<Longrightarrow> withhold n r L = L"
  by (simp add: withhold_def)

section \<open>The gates on single rows\<close>

definition clean :: "planned_pr \<Rightarrow> bool" where
  "clean c \<longleftrightarrow> \<not> pp_truncated c \<and> (\<exists>k. pp_class c = Some k \<and> pc_verdict k = Eligible)"

definition doubled :: "planned_pr list \<Rightarrow> planned_pr \<Rightarrow> bool" where
  "doubled rows c \<longleftrightarrow> pr_count rows (pp_pr c) \<noteq> 1"

definition is_open :: "planned_pr \<Rightarrow> bool" where "is_open c \<longleftrightarrow> pp_state c = Open_pr"

lemma duplicate_excluded:
  "excluded (duplicate_gate rows cs L) = excluded L \<union> pp_pr ` {c \<in> set cs. is_open c \<and> doubled rows c}"
  by (induction cs arbitrary: L) (auto simp: is_open_def doubled_def)

lemma evidence_excluded:
  "excluded (evidence_gate cs L) = excluded L \<union> pp_pr ` {c \<in> set cs. is_open c \<and> \<not> clean c}"
  by (induction cs arbitrary: L) (auto simp: is_open_def clean_def split: option.splits)

lemma duplicate_distinct: "distinct (map fst L) \<Longrightarrow> distinct (map fst (duplicate_gate rows cs L))"
  by (induction cs arbitrary: L) (simp_all add: distinct_withhold)

lemma evidence_distinct: "distinct (map fst L) \<Longrightarrow> distinct (map fst (evidence_gate cs L))"
  by (induction cs arbitrary: L) (simp_all add: distinct_withhold split: option.splits)

lemma first_gates_excluded:
  "excluded (first_gates rows) = pp_pr ` {c \<in> set rows. is_open c \<and> (doubled rows c \<or> \<not> clean c)}"
  by (auto simp: first_gates_def evidence_excluded duplicate_excluded)

lemma first_gates_distinct: "distinct (map fst (first_gates rows))"
  by (simp add: first_gates_def evidence_distinct duplicate_distinct)

section \<open>Stack positions\<close>

text \<open>The position of a row, by its base.\<close>

definition at_trunk :: "string \<Rightarrow> planned_pr \<Rightarrow> bool" where "at_trunk trunk c \<longleftrightarrow> pp_base c = trunk"

definition stacked_on :: "string \<Rightarrow> planned_pr list \<Rightarrow> planned_pr \<Rightarrow> pr_no \<Rightarrow> bool" where
  "stacked_on trunk rows c b \<longleftrightarrow> pp_base c \<noteq> trunk \<and> open_owner rows (pp_base c) = Some b"

definition on_closed :: "string \<Rightarrow> planned_pr list \<Rightarrow> planned_pr \<Rightarrow> bool" where
  "on_closed trunk rows c \<longleftrightarrow> pp_base c \<noteq> trunk \<and> open_owner rows (pp_base c) = None \<and> closed_owner rows (pp_base c) \<noteq> None"

definition unplaced :: "string \<Rightarrow> planned_pr list \<Rightarrow> planned_pr \<Rightarrow> bool" where
  "unplaced trunk rows c \<longleftrightarrow> pp_base c \<noteq> trunk \<and> open_owner rows (pp_base c) = None \<and> closed_owner rows (pp_base c) = None"

lemma place_cases:
  obtains "at_trunk trunk c" | b where "stacked_on trunk rows c b" | "on_closed trunk rows c" | "unplaced trunk rows c"
  unfolding at_trunk_def stacked_on_def on_closed_def unplaced_def
  by (cases "pp_base c = trunk"; cases "open_owner rows (pp_base c)"; cases "closed_owner rows (pp_base c)") auto

lemma open_owner_open: "open_owner rows h = Some b \<Longrightarrow> \<exists>c \<in> set rows. is_open c \<and> pp_pr c = b \<and> pp_head c = h"
  unfolding open_owner_def is_open_def by (auto simp: find_Some_iff)

definition placed :: "string \<Rightarrow> planned_pr list \<Rightarrow> ledger \<Rightarrow> planned_pr list \<Rightarrow> stack \<Rightarrow> bool" where
  "placed trunk rows L cs k \<longleftrightarrow>
     set (sk_merge k) = pp_pr ` {c \<in> set cs. at_trunk trunk c \<and> pp_pr c \<notin> excluded L} \<and>
     set (sk_retarget k) = pp_pr ` {c \<in> set cs. on_closed trunk rows c \<and> pp_pr c \<notin> excluded L} \<and>
     excluded (sk_ledger k) = excluded L \<union> pp_pr ` {c \<in> set cs. unplaced trunk rows c} \<and>
     (\<forall>n b. map_of (sk_baseOf k) n = Some b \<longleftrightarrow> (\<exists>c \<in> set cs. pp_pr c = n \<and> stacked_on trunk rows c b \<and> \<not> doubled rows c)) \<and>
     distinct (sk_merge k) \<and> distinct (sk_retarget k) \<and> distinct (okeys (sk_baseOf k)) \<and> distinct (map fst (sk_ledger k))"

text \<open>Rows of one number that are not withheld as doubled are one row.\<close>

lemma pr_count_mono: "pr_count (as @ c # bs) n \<le> pr_count rows n \<Longrightarrow> pp_pr c = n \<Longrightarrow> pr_count rows n = 1
    \<Longrightarrow> x \<in> set as \<Longrightarrow> pp_pr x \<noteq> n"
  by (auto simp: pr_count_def filter_empty_conv)

lemma image_snoc:
  "f ` {x \<in> set (as @ [c]). Q x} = (if Q c then insert (f c) (f ` {x \<in> set as. Q x}) else f ` {x \<in> set as. Q x})"
  by auto

lemma bex_snoc: "(\<exists>x \<in> set (as @ [c]). Q x) \<longleftrightarrow> (\<exists>x \<in> set as. Q x) \<or> Q c"
  by auto

lemma place_placed:
  assumes P: "placed trunk rows L as k" and opn: "is_open c"
    and le: "\<And>n. pr_count (as @ c # bs) n \<le> pr_count rows n"
    and dup: "doubled rows c \<Longrightarrow> pp_pr c \<in> excluded L"
  shows "placed trunk rows L (as @ [c]) (place trunk rows c k)"
proof -
  have new: "pp_pr c \<notin> excluded L \<Longrightarrow> x \<in> set as \<Longrightarrow> pp_pr x \<noteq> pp_pr c" for x
    using pr_count_mono [OF le refl, of x] dup by (auto simp: doubled_def)
  have nd: "\<not> doubled rows c \<Longrightarrow> x \<in> set as \<Longrightarrow> pp_pr x \<noteq> pp_pr c" for x
    using pr_count_mono [OF le refl, of x] by (auto simp: doubled_def)
  have led: "excluded (sk_ledger k) = excluded L \<union> pp_pr ` {c \<in> set as. unplaced trunk rows c}"
    using P by (simp add: placed_def)
  have ex: "pp_pr c \<in> excluded (sk_ledger k) \<longleftrightarrow> pp_pr c \<in> excluded L"
  proof
    assume "pp_pr c \<in> excluded (sk_ledger k)"
    then consider "pp_pr c \<in> excluded L" | x where "x \<in> set as" "pp_pr c = pp_pr x" unfolding led by blast
    then show "pp_pr c \<in> excluded L"
    proof cases
      case 2
      then show ?thesis using new [of x] by (cases "pp_pr c \<in> excluded L") auto
    qed
  qed (simp add: led)
  have fresh: "pp_pr c \<notin> set (sk_merge k) \<and> pp_pr c \<notin> set (sk_retarget k)" if "pp_pr c \<notin> excluded L"
  proof -
    have "set (sk_merge k) \<subseteq> pp_pr ` set as" "set (sk_retarget k) \<subseteq> pp_pr ` set as"
      using P by (auto simp: placed_def)
    moreover have "pp_pr c \<notin> pp_pr ` set as" using new [OF that] by fastforce
    ultimately show ?thesis by blast
  qed
  have P': "distinct (sk_merge k)" "distinct (sk_retarget k)" "distinct (okeys (sk_baseOf k))" "distinct (map fst (sk_ledger k))"
    and sets: "set (sk_merge k) = pp_pr ` {c \<in> set as. at_trunk trunk c \<and> pp_pr c \<notin> excluded L}"
      "set (sk_retarget k) = pp_pr ` {c \<in> set as. on_closed trunk rows c \<and> pp_pr c \<notin> excluded L}"
    and base: "\<And>n b. map_of (sk_baseOf k) n = Some b \<longleftrightarrow> (\<exists>c \<in> set as. pp_pr c = n \<and> stacked_on trunk rows c b \<and> \<not> doubled rows c)"
    using P unfolding placed_def by blast+
  note kinds = at_trunk_def stacked_on_def on_closed_def unplaced_def
  show ?thesis
  proof (cases rule: place_cases [where trunk = trunk and c = c and rows = rows])
    case 1
    then have "\<not> on_closed trunk rows c" "\<not> unplaced trunk rows c" "\<And>b. \<not> stacked_on trunk rows c b"
      "place trunk rows c k = (if pp_pr c \<in> excluded L then k else k\<lparr>sk_merge := sk_merge k @ [pp_pr c]\<rparr>)"
      using ex by (auto simp: kinds place_def)
    then show ?thesis using 1 P' fresh unfolding placed_def image_snoc bex_snoc by (simp add: sets base led del: map_of_eq_Some_iff set_map)
  next
    case (2 b)
    then have no: "\<not> at_trunk trunk c" "\<not> on_closed trunk rows c" "\<not> unplaced trunk rows c"
      "\<And>b'. stacked_on trunk rows c b' \<longleftrightarrow> b' = b"
      "place trunk rows c k = (if doubled rows c then k else k\<lparr>sk_baseOf := omap_set (pp_pr c) b (sk_baseOf k)\<rparr>)"
      by (auto simp: kinds place_def doubled_def)
    have "\<not> doubled rows c \<Longrightarrow> \<not> (\<exists>x \<in> set as. pp_pr x = pp_pr c \<and> stacked_on trunk rows x b' \<and> \<not> doubled rows x)" for b'
      using nd by blast
    then show ?thesis using 2 P' no distinct_omap_set unfolding placed_def image_snoc bex_snoc
      by (auto simp: sets base led simp del: map_of_eq_Some_iff set_map)
  next
    case 3
    then have "\<not> at_trunk trunk c" "\<not> unplaced trunk rows c" "\<And>b. \<not> stacked_on trunk rows c b"
      "place trunk rows c k = (if pp_pr c \<in> excluded L then k else k\<lparr>sk_retarget := sk_retarget k @ [pp_pr c]\<rparr>)"
      using ex by (auto simp: kinds place_def)
    then show ?thesis using 3 P' fresh unfolding placed_def image_snoc bex_snoc by (simp add: sets base led del: map_of_eq_Some_iff set_map)
  next
    case 4
    then have "\<not> at_trunk trunk c" "\<not> on_closed trunk rows c" "\<And>b. \<not> stacked_on trunk rows c b"
      "place trunk rows c k = k\<lparr>sk_ledger := withhold (pp_pr c) Unresolved_base (sk_ledger k)\<rparr>"
      by (auto simp: kinds place_def)
    then show ?thesis using 4 P' distinct_withhold unfolding placed_def image_snoc bex_snoc by (simp add: sets base led del: map_of_eq_Some_iff set_map)
  qed
qed

lemma place_all_placed:
  "placed trunk rows L as k \<Longrightarrow> (\<And>c. c \<in> set bs \<Longrightarrow> is_open c) \<Longrightarrow>
     (\<And>n. pr_count (as @ bs) n \<le> pr_count rows n) \<Longrightarrow> (\<And>c. c \<in> set bs \<Longrightarrow> doubled rows c \<Longrightarrow> pp_pr c \<in> excluded L) \<Longrightarrow>
     placed trunk rows L (as @ bs) (place_all trunk rows bs k)"
proof (induction bs arbitrary: as k)
  case (Cons c bs)
  have "placed trunk rows L (as @ [c]) (place trunk rows c k)"
    by (rule place_placed [OF Cons.prems(1)]) (use Cons.prems in auto)
  from Cons.IH [OF this] show ?case using Cons.prems by simp
qed simp

lemma place_rows_placed:
  "placed trunk rows (first_gates rows) (filter is_open rows) (place_rows trunk rows)"
proof -
  let ?k = "\<lparr>sk_baseOf = [], sk_merge = [], sk_retarget = [], sk_ledger = first_gates rows\<rparr>"
  have "pr_count (filter is_open rows) n \<le> pr_count rows n" for n
  proof -
    have "filter (\<lambda>c. pp_pr c = n) (filter is_open rows) = filter is_open (filter (\<lambda>c. pp_pr c = n) rows)"
      by (simp add: conj_commute)
    then show ?thesis unfolding pr_count_def by (simp only: length_filter_le)
  qed
  moreover have "placed trunk rows (first_gates rows) [] ?k" by (simp add: placed_def first_gates_distinct)
  ultimately have "placed trunk rows (first_gates rows) ([] @ filter is_open rows) (place_all trunk rows (filter is_open rows) ?k)"
    by (intro place_all_placed) (auto simp: first_gates_excluded)
  moreover have "is_open = (\<lambda>c. pp_state c = Open_pr)" by (simp add: fun_eq_iff is_open_def)
  ultimately show ?thesis by (simp add: place_rows_def)
qed


section \<open>Cycles\<close>

definition base_edges :: "(pr_no, pr_no) omap \<Rightarrow> (pr_no \<times> pr_no) set" where
  "base_edges m = {(c, b). map_of m c = Some b}"

text \<open>A walk that does not come back to its start has seen everything below it.\<close>

lemma walk_back_False:
  "\<not> walk_back m n seen cur \<Longrightarrow> n \<in> set seen \<Longrightarrow>
     (\<forall>s \<in> set seen. map_of m s = cur \<or> map_of m s = None \<or> (\<exists>y \<in> set seen. y \<noteq> n \<and> map_of m s = Some y)) \<Longrightarrow>
     (n, n) \<notin> (base_edges m)\<^sup>+"
proof (induction m n seen cur rule: walk_back.induct)
  case (1 m n seen)
  have "x \<in> set seen \<and> x \<noteq> n" if "(n, x) \<in> (base_edges m)\<^sup>+" for x
    using that
  proof (induction rule: trancl_induct)
    case (base y)
    then show ?case using 1 by (auto simp: base_edges_def)
  next
    case (step y z)
    then show ?case using 1 by (auto simp: base_edges_def)
  qed
  then show ?case by blast
next
  case (2 m n seen c)
  show ?case
  proof (cases "c \<in> set seen")
    case True
    then have c: "c \<noteq> n" using 2(2) by (auto split: if_splits)
    have "x \<in> set seen \<and> x \<noteq> n" if "(n, x) \<in> (base_edges m)\<^sup>+" for x
      using that
    proof (induction rule: trancl_induct)
      case (base y)
      then show ?case using 2(3,4) True c by (auto simp: base_edges_def)
    next
      case (step y z)
      then show ?case using 2(3,4) True c by (auto simp: base_edges_def)
    qed
    then show ?thesis by blast
  next
    case False
    then have c: "c \<noteq> n" "\<not> walk_back m n (c # seen) (map_of m c)" using 2(2) by (auto split: if_splits)
    show ?thesis by (rule 2(1) [OF c(1) False c(2)]) (use 2(3,4) c in auto)
  qed
qed

lemma key_in_okeys: "map_of m c = Some b \<Longrightarrow> c \<in> set (okeys m)"
  using omap_has_iff [of c m] unfolding omap_has_def by blast

lemma not_on_cycle: "\<not> on_cycle m n \<Longrightarrow> (n, n) \<notin> (base_edges m)\<^sup>+"
  unfolding on_cycle_def by (rule walk_back_False) auto

lemma cycle_gate_mono: "excluded L \<subseteq> excluded (cycle_gate m ns L)"
proof (induction ns arbitrary: L)
  case (Cons n ns)
  then show ?case by (auto split: if_splits) (metis excluded_withhold insertCI subsetD)+
qed simp

lemma cycle_gate_excludes: "n \<in> set ns \<Longrightarrow> n \<notin> excluded (cycle_gate m ns L) \<Longrightarrow> \<not> on_cycle m n"
proof (induction ns arbitrary: L)
  case (Cons x ns)
  show ?case
  proof (cases "x = n")
    case True
    then show ?thesis using Cons.prems cycle_gate_mono [of _ m ns]
      by (auto split: if_splits) (metis excluded_withhold insertCI subsetD)+
  next
    case False
    then show ?thesis using Cons by simp
  qed
qed simp

lemma cycle_gate_new: "excluded (cycle_gate m ns L) \<subseteq> excluded L \<union> set ns"
proof (induction ns arbitrary: L)
  case (Cons n ns)
  show ?case using Cons [of L] Cons [of "withhold n Stack_cycle L"] by auto
qed simp

lemma cycle_gate_distinct: "distinct (map fst L) \<Longrightarrow> distinct (map fst (cycle_gate m ns L))"
  by (induction ns arbitrary: L) (simp_all add: distinct_withhold)

text \<open>The base edges of rows that are not withheld are well-founded, from the base up.\<close>

lemma free_edges_wf:
  assumes "\<And>n. n \<in> set (okeys m) \<Longrightarrow> n \<notin> X \<Longrightarrow> \<not> on_cycle m n"
  shows "wf {(b, c). map_of m c = Some b \<and> c \<notin> X}"
proof (rule finite_acyclic_wf)
  have "{(b, c). map_of m c = Some b \<and> c \<notin> X} \<subseteq> (\<lambda>(c, b). (b, c)) ` set m"
    by (auto dest: map_of_SomeD)
  then show "finite {(b, c). map_of m c = Some b \<and> c \<notin> X}" by (rule finite_subset) simp
  show "acyclic {(b, c). map_of m c = Some b \<and> c \<notin> X}"
  proof (rule acyclicI, intro allI)
    fix n
    let ?R = "{(b, c). map_of m c = Some b \<and> c \<notin> X}"
    have sub: "(b, c) \<in> ?R\<^sup>+ \<Longrightarrow> (c, b) \<in> (base_edges m)\<^sup>+ \<and> c \<notin> X \<and> c \<in> set (okeys m)" for b c
    proof (induction rule: trancl_induct)
      case (base y)
      then have "map_of m y = Some b" "y \<notin> X" by simp_all
      then show ?case using key_in_okeys [of m y b] unfolding base_edges_def by blast
    next
      case (step y z)
      then have "map_of m z = Some y" "z \<notin> X" by simp_all
      then have "(z, y) \<in> base_edges m" "z \<notin> X" "z \<in> set (okeys m)"
        using key_in_okeys [of m z y] unfolding base_edges_def by blast+
      then show ?case using step.IH by (meson trancl_into_trancl2)
    qed
    show "(n, n) \<notin> ?R\<^sup>+" using sub [of n n] assms not_on_cycle by blast
  qed
qed

section \<open>What merges\<close>

lemma statusOf_simps:
  "n \<in> excluded L \<Longrightarrow> statusOf k L n = Some (False, False)"
  "n \<notin> excluded L \<Longrightarrow> n \<in> set (sk_merge k) \<Longrightarrow> statusOf k L n = Some (True, True)"
  "n \<notin> excluded L \<Longrightarrow> n \<notin> set (sk_merge k) \<Longrightarrow> n \<in> set (sk_retarget k) \<Longrightarrow> statusOf k L n = Some (True, False)"
  by (subst statusOf.simps, simp)+

lemma statusOf_none:
  "n \<notin> excluded L \<Longrightarrow> n \<notin> set (sk_merge k) \<Longrightarrow> n \<notin> set (sk_retarget k) \<Longrightarrow> map_of (sk_baseOf k) n = None
     \<Longrightarrow> statusOf k L n = Some (False, False)"
  by (subst statusOf.simps) simp

lemma statusOf_base:
  "n \<notin> excluded L \<Longrightarrow> n \<notin> set (sk_merge k) \<Longrightarrow> n \<notin> set (sk_retarget k) \<Longrightarrow> map_of (sk_baseOf k) n = Some b
     \<Longrightarrow> statusOf k L n = Option.bind (statusOf k L b) (\<lambda>(i, m). Some (i \<and> \<not> m, i \<and> \<not> m))"
  by (subst statusOf.simps) simp

definition free_wf :: "stack \<Rightarrow> ledger \<Rightarrow> bool" where
  "free_wf k L \<longleftrightarrow> wf {(b, c). map_of (sk_baseOf k) c = Some b \<and> c \<notin> excluded L}"

lemma free_wf_mono: "free_wf k L \<Longrightarrow> excluded L \<subseteq> excluded L' \<Longrightarrow> free_wf k L'"
  unfolding free_wf_def by (erule wf_subset) auto

lemma free_wf_induct [consumes 1, case_names step]:
  assumes "free_wf k L" and "\<And>n. (\<And>b. map_of (sk_baseOf k) n = Some b \<Longrightarrow> n \<notin> excluded L \<Longrightarrow> P b) \<Longrightarrow> P n"
  shows "P n"
  using assms(1) unfolding free_wf_def
  by (induction n rule: wf_induct_rule) (auto intro: assms(2))

lemma statusOf_returns:
  assumes W: "free_wf k L"
  shows "\<exists>i m. statusOf k L n = Some (i, m) \<and> (m \<longrightarrow> i)"
  using W
proof (induction n rule: free_wf_induct)
  case (step n)
  show ?case
  proof (cases "n \<in> excluded L \<or> n \<in> set (sk_merge k) \<or> n \<in> set (sk_retarget k)")
    case True
    then show ?thesis using statusOf_simps [of n L k] by blast
  next
    case False
    then show ?thesis
    proof (cases "map_of (sk_baseOf k) n")
      case None
      then show ?thesis using False statusOf_none by blast
    next
      case (Some b)
      then show ?thesis using False statusOf_base [of n L k b] step [OF Some] by auto
    qed
  qed
qed

text \<open>Withholding a row that is not in the order anyway changes nobody's status.\<close>

lemma statusOf_withhold:
  assumes W: "free_wf k L" and x: "statusOf k L x = Some (False, False)"
  shows "statusOf k (withhold x r L) n = statusOf k L n"
  using W
proof (induction n rule: free_wf_induct)
  case (step n)
  show ?case
  proof (cases "n = x \<or> n \<in> excluded L")
    case True
    then show ?thesis using x statusOf_simps(1) [of n L k] statusOf_simps(1) [of n "withhold x r L" k] by auto
  next
    case out: False
    then have out': "n \<notin> excluded (withhold x r L)" by simp
    show ?thesis
    proof (cases "n \<in> set (sk_merge k) \<or> n \<in> set (sk_retarget k)")
      case True
      then show ?thesis
        using out out' statusOf_simps(2,3) [of n L k] statusOf_simps(2,3) [of n "withhold x r L" k]
        by (cases "n \<in> set (sk_merge k)") auto
    next
      case False
      then show ?thesis using out out' step
        by (cases "map_of (sk_baseOf k) n") (auto simp: statusOf_none statusOf_base)
    qed
  qed
qed

definition keys_apart :: "stack \<Rightarrow> bool" where
  "keys_apart k \<longleftrightarrow> (\<forall>n b. map_of (sk_baseOf k) n = Some b \<longrightarrow> n \<notin> set (sk_merge k) \<and> n \<notin> set (sk_retarget k))"

lemma defer_gate_laws:
  assumes "free_wf k L" "keys_apart k" "\<And>n b. (n, b) \<in> set es \<Longrightarrow> map_of (sk_baseOf k) n = Some b"
    and "distinct (map fst L)"
  shows "\<exists>L'. defer_gate k es L = Some L' \<and> excluded L \<subseteq> excluded L' \<and> excluded L' \<subseteq> excluded L \<union> fst ` set es \<and>
    statusOf k L' = statusOf k L \<and> distinct (map fst L') \<and>
    (\<forall>(n, b) \<in> set es. n \<notin> excluded L' \<longrightarrow> (\<forall>i. statusOf k L b \<noteq> Some (i, True)))"
  using assms
proof (induction es arbitrary: L)
  case (Cons e es)
  obtain n b where e: "e = (n, b)" by (cases e)
  show ?case
  proof (cases "n \<in> excluded L")
    case True
    then show ?thesis using Cons e by fastforce
  next
    case out: False
    have mb: "map_of (sk_baseOf k) n = Some b" using Cons.prems(3) e by simp
    have nr: "n \<notin> set (sk_merge k)" "n \<notin> set (sk_retarget k)" using Cons.prems(2) mb by (auto simp: keys_apart_def)
    obtain i m where st: "statusOf k L b = Some (i, m)" and im: "m \<longrightarrow> i" using statusOf_returns [OF Cons.prems(1)] by blast
    define L1 where "L1 = (if m then withhold n Stack_base_merging_this_pass L else L)"
    have same: "statusOf k L1 = statusOf k L"
    proof (cases m)
      case True
      then have "statusOf k L n = Some (False, False)" using statusOf_base [OF out nr mb] st im by simp
      then show ?thesis using True statusOf_withhold [OF Cons.prems(1)] by (simp add: L1_def fun_eq_iff)
    qed (simp add: L1_def)
    have sub: "excluded L \<subseteq> excluded L1" "excluded L1 \<subseteq> insert n (excluded L)" "m \<Longrightarrow> n \<in> excluded L1"
      by (auto simp: L1_def)
    have "distinct (map fst L1)" using Cons.prems(4) by (simp add: L1_def distinct_withhold)
    from Cons.IH [OF free_wf_mono [OF Cons.prems(1) sub(1)] Cons.prems(2) _ this] obtain L' where
      L': "defer_gate k es L1 = Some L'" "excluded L1 \<subseteq> excluded L'" "excluded L' \<subseteq> excluded L1 \<union> fst ` set es"
        "statusOf k L' = statusOf k L1" "distinct (map fst L')"
        "\<forall>(n, b) \<in> set es. n \<notin> excluded L' \<longrightarrow> (\<forall>i. statusOf k L1 b \<noteq> Some (i, True))"
      using Cons.prems(3) by auto
    have "defer_gate k (e # es) L = Some L'" using e out st L'(1) by (simp add: L1_def)
    moreover have "n \<notin> excluded L' \<longrightarrow> (\<forall>i. statusOf k L b \<noteq> Some (i, True))" using st sub(3) L'(2) by auto
    ultimately show ?thesis using L' sub same e by (intro exI [of _ L']) auto
  qed
qed simp

section \<open>The cascade\<close>

lemma cascade_Nil: "cascade kids [] L = Some L"
  by (subst cascade.simps) simp

lemma cascade_Cons:
  "cascade kids (n # ns) L = (if n \<in> excluded L then cascade kids ns L
     else Option.bind (cascade kids (kids n) (withhold n Stack_base_needs_human L)) (cascade kids ns))"
  by (subst cascade.simps) simp

text \<open>\<open>L'\<close> extends \<open>L\<close> by the rows \<open>ns\<close> and by children of withheld rows only, and is closed for what it adds.\<close>

definition cascaded :: "(pr_no \<Rightarrow> pr_no list) \<Rightarrow> pr_no set \<Rightarrow> pr_no list \<Rightarrow> ledger \<Rightarrow> ledger \<Rightarrow> bool" where
  "cascaded kids K ns L L' \<longleftrightarrow> excluded L \<subseteq> excluded L' \<and> set ns \<subseteq> excluded L' \<and> excluded L' \<subseteq> excluded L \<union> K \<and>
     (\<forall>x \<in> excluded L' - excluded L. (x \<in> set ns \<or> (\<exists>y \<in> excluded L'. x \<in> set (kids y))) \<and> set (kids x) \<subseteq> excluded L') \<and>
     (distinct (map fst L) \<longrightarrow> distinct (map fst L'))"

lemma cascade_laws:
  assumes K: "finite K" "\<And>n. set (kids n) \<subseteq> K"
  shows "set ns \<subseteq> K \<Longrightarrow> \<exists>L'. cascade kids ns L = Some L' \<and> cascaded kids K ns L L'"
proof (induction "(ns, L)" arbitrary: ns L
    rule: wf_induct_rule [OF wf_measures [of "[\<lambda>(ns, L). card (K - excluded L), \<lambda>(ns, L). length ns]"]])
  case 1
  show ?case
  proof (cases ns)
    case Nil
    then show ?thesis by (simp add: cascade_Nil cascaded_def)
  next
    case (Cons n ms)
    have sub: "n \<in> K" "set ms \<subseteq> K" using 1(2) Cons by auto
    show ?thesis
    proof (cases "n \<in> excluded L")
      case True
      obtain L' where "cascade kids ms L = Some L'" "cascaded kids K ms L L'"
        using 1(1) [of ms L] sub Cons by auto
      then show ?thesis using True Cons by (intro exI [of _ L']) (auto simp: cascade_Cons cascaded_def)
    next
      case False
      let ?L1 = "withhold n Stack_base_needs_human L"
      have less: "card (K - excluded ?L1) < card (K - excluded L)"
        using False sub K(1) by (intro psubset_card_mono) auto
      obtain L2 where L2: "cascade kids (kids n) ?L1 = Some L2" "cascaded kids K (kids n) ?L1 L2"
        using 1(1) [of "kids n" ?L1] less K(2) by auto
      have "card (K - excluded L2) < card (K - excluded L)"
        using L2(2) less K(1) by (intro le_less_trans [OF card_mono less]) (auto simp: cascaded_def)
      then obtain L' where L': "cascade kids ms L2 = Some L'" "cascaded kids K ms L2 L'"
        using 1(1) [of ms L2] sub by auto
      have "cascade kids ns L = Some L'" using Cons False L2(1) L'(1) by (simp add: cascade_Cons)
      moreover have "cascaded kids K ns L L'"
        unfolding cascaded_def
      proof (intro conjI ballI impI)
        show "excluded L \<subseteq> excluded L'" "set ns \<subseteq> excluded L'" "excluded L' \<subseteq> excluded L \<union> K"
          using L2(2) L'(2) Cons sub by (auto simp: cascaded_def)
        show "distinct (map fst L) \<Longrightarrow> distinct (map fst L')"
          using L2(2) L'(2) distinct_withhold by (auto simp: cascaded_def)
        have c2: "set (kids n) \<subseteq> excluded L2" "excluded L2 \<subseteq> excluded L'" "n \<in> excluded L'"
          "\<And>x. x \<in> excluded L2 - excluded ?L1 \<Longrightarrow> x \<in> set (kids n) \<or> (\<exists>y \<in> excluded L2. x \<in> set (kids y))"
          "\<And>x. x \<in> excluded L2 - excluded ?L1 \<Longrightarrow> set (kids x) \<subseteq> excluded L2"
          "\<And>x. x \<in> excluded L' - excluded L2 \<Longrightarrow> x \<in> set ms \<or> (\<exists>y \<in> excluded L'. x \<in> set (kids y))"
          "\<And>x. x \<in> excluded L' - excluded L2 \<Longrightarrow> set (kids x) \<subseteq> excluded L'"
          using L2(2) L'(2) unfolding cascaded_def by auto
        fix x assume x: "x \<in> excluded L' - excluded L"
        then consider "x = n" | "x \<in> excluded L2 - excluded ?L1" | "x \<in> excluded L' - excluded L2" by auto
        note three = this
        from three show "x \<in> set ns \<or> (\<exists>y \<in> excluded L'. x \<in> set (kids y))"
          by cases (use c2(2,3) c2(4,6) [of x] Cons in auto)
        from three show "set (kids x) \<subseteq> excluded L'"
          by cases (use c2(1,2) c2(5,7) [of x] in auto)
      qed
      ultimately show ?thesis by blast
    qed
  qed
qed

text \<open>The last gate withholds exactly what hangs below a withheld row.\<close>

definition closed_under :: "(pr_no \<Rightarrow> pr_no list) \<Rightarrow> ledger \<Rightarrow> bool" where
  "closed_under kids L \<longleftrightarrow> (\<forall>x \<in> excluded L. set (kids x) \<subseteq> excluded L)"

lemma cascade_gate_laws:
  assumes K: "finite K" "\<And>n. set (kids n) \<subseteq> K"
  shows "\<exists>L'. cascade_gate kids ns L = Some L' \<and> excluded L \<subseteq> excluded L' \<and> excluded L' \<subseteq> excluded L \<union> K \<and>
    (set ns \<subseteq> excluded L \<longrightarrow> (\<forall>x \<in> excluded L' - excluded L. \<exists>y \<in> excluded L'. x \<in> set (kids y))) \<and>
    (\<forall>x \<in> excluded L' - excluded L. set (kids x) \<subseteq> excluded L') \<and> (\<forall>n \<in> set ns. set (kids n) \<subseteq> excluded L') \<and>
    (distinct (map fst L) \<longrightarrow> distinct (map fst L'))"
proof (induction ns arbitrary: L)
  case (Cons n ns)
  obtain L1 where L1: "cascade kids (kids n) L = Some L1" "cascaded kids K (kids n) L L1"
    using cascade_laws [where K = K and kids = kids and ns = "kids n" and L = L, OF K] K(2) by blast
  obtain L' where L': "cascade_gate kids ns L1 = Some L'" "excluded L1 \<subseteq> excluded L'" "excluded L' \<subseteq> excluded L1 \<union> K"
    "set ns \<subseteq> excluded L1 \<longrightarrow> (\<forall>x \<in> excluded L' - excluded L1. \<exists>y \<in> excluded L'. x \<in> set (kids y))"
    "\<forall>x \<in> excluded L' - excluded L1. set (kids x) \<subseteq> excluded L'" "\<forall>n \<in> set ns. set (kids n) \<subseteq> excluded L'"
    "distinct (map fst L1) \<longrightarrow> distinct (map fst L')"
    using Cons [of L1] by blast
  have c: "excluded L \<subseteq> excluded L1" "set (kids n) \<subseteq> excluded L1" "excluded L1 \<subseteq> excluded L \<union> K"
    "\<And>x. x \<in> excluded L1 - excluded L \<Longrightarrow> x \<in> set (kids n) \<or> (\<exists>y \<in> excluded L1. x \<in> set (kids y))"
    "\<And>x. x \<in> excluded L1 - excluded L \<Longrightarrow> set (kids x) \<subseteq> excluded L1" "distinct (map fst L) \<longrightarrow> distinct (map fst L1)"
    using L1(2) unfolding cascaded_def by blast+
  have "\<exists>y \<in> excluded L'. x \<in> set (kids y)" if "set (n # ns) \<subseteq> excluded L" "x \<in> excluded L' - excluded L" for x
  proof (cases "x \<in> excluded L1")
    case True
    have "n \<in> excluded L'" using that(1) c(1) L'(2) by auto
    then show ?thesis using c(4) [of x] True that(2) L'(2) by auto
  next
    case False
    have "set ns \<subseteq> excluded L1" using that(1) c(1) by auto
    then show ?thesis using False that(2) L'(4) by auto
  qed
  moreover have "set (kids x) \<subseteq> excluded L'" if "x \<in> excluded L' - excluded L" for x
    using that c(5) [of x] L'(2,5) by (cases "x \<in> excluded L1") auto
  ultimately show ?case using L1(1) L' c by (intro exI [of _ L']) auto
qed simp

lemma cascade_gate_closed:
  assumes K: "finite K" "\<And>n. set (kids n) \<subseteq> K"
  shows "\<exists>L'. cascade_gate kids (map fst L) L = Some L' \<and> excluded L \<subseteq> excluded L' \<and> excluded L' \<subseteq> excluded L \<union> K \<and>
    closed_under kids L' \<and> (\<forall>x \<in> excluded L' - excluded L. \<exists>y \<in> excluded L'. x \<in> set (kids y)) \<and>
    (distinct (map fst L) \<longrightarrow> distinct (map fst L'))"
proof -
  have set: "set (map fst L) = excluded L" by (simp add: excluded_def)
  obtain L' where L': "cascade_gate kids (map fst L) L = Some L'" "excluded L \<subseteq> excluded L'" "excluded L' \<subseteq> excluded L \<union> K"
    "set (map fst L) \<subseteq> excluded L \<longrightarrow> (\<forall>x \<in> excluded L' - excluded L. \<exists>y \<in> excluded L'. x \<in> set (kids y))"
    "\<forall>x \<in> excluded L' - excluded L. set (kids x) \<subseteq> excluded L'" "\<forall>n \<in> set (map fst L). set (kids n) \<subseteq> excluded L'"
    "distinct (map fst L) \<longrightarrow> distinct (map fst L')"
    using cascade_gate_laws [where K = K and kids = kids and ns = "map fst L" and L = L, OF K] by blast
  have "closed_under kids L'" unfolding closed_under_def using L'(5,6) set by blast
  then show ?thesis using L' set by blast
qed

section \<open>The emission\<close>

lemma emitSubtrees_flat:
  "(\<And>n. n \<in> set ns \<Longrightarrow> kids n = []) \<Longrightarrow> emitSubtrees entry kids ns b d = Some (map (\<lambda>n. entry n (Some b) d) ns)"
proof (induction ns)
  case Nil
  show ?case by (subst emitSubtrees.simps) simp
next
  case (Cons n ns)
  have "emitSubtrees entry kids [] n (d + 1) = Some []" by (subst emitSubtrees.simps) simp
  then show ?case using Cons by (subst emitSubtrees.simps) simp
qed

lemma emit_roots_flat:
  "(\<And>r n. r \<in> set roots \<Longrightarrow> n \<in> set (kids r) \<Longrightarrow> kids n = []) \<Longrightarrow>
     emit_roots entry kids roots = Some (concat (map (\<lambda>r. map (\<lambda>n. entry n (Some r) 1) (kids r)) roots))"
proof (induction roots)
  case (Cons r roots)
  have "emitSubtrees entry kids (kids r) r 1 = Some (map (\<lambda>n. entry n (Some r) 1) (kids r))"
    by (rule emitSubtrees_flat) (use Cons.prems in auto)
  moreover have "emit_roots entry kids roots = Some (concat (map (\<lambda>r. map (\<lambda>n. entry n (Some r) 1) (kids r)) roots))"
    by (rule Cons.IH) (use Cons.prems in auto)
  ultimately show ?case by simp
qed simp

section \<open>The plan in one piece\<close>

lemma row_unique:
  assumes "\<not> doubled rows c" "c \<in> set rows" "c' \<in> set rows" "pp_pr c' = pp_pr c"
  shows "c' = c"
proof -
  have "length (filter (\<lambda>x. pp_pr x = pp_pr c) rows) = 1" using assms(1) by (simp add: doubled_def pr_count_def)
  then obtain x where x: "filter (\<lambda>x. pp_pr x = pp_pr c) rows = [x]" by (auto simp: length_Suc_conv)
  have "c \<in> set (filter (\<lambda>x. pp_pr x = pp_pr c) rows)" "c' \<in> set (filter (\<lambda>x. pp_pr x = pp_pr c) rows)"
    using assms by auto
  then show ?thesis unfolding x by simp
qed

text \<open>The open rows of the stack with their facts, the ledgers after each gate, and the children.\<close>

definition stack_facts :: "string \<Rightarrow> planned_pr list \<Rightarrow> stack \<Rightarrow> bool" where
  "stack_facts trunk rows k \<longleftrightarrow>
     (\<forall>n \<in> set (sk_merge k). n \<notin> excluded (sk_ledger k) \<and> (\<exists>c \<in> set rows. is_open c \<and> pp_pr c = n \<and> at_trunk trunk c)) \<and>
     (\<forall>n \<in> set (sk_retarget k). n \<notin> excluded (sk_ledger k) \<and> (\<exists>c \<in> set rows. is_open c \<and> pp_pr c = n \<and> on_closed trunk rows c)) \<and>
     (\<forall>n b. map_of (sk_baseOf k) n = Some b \<longrightarrow> n \<notin> set (sk_merge k) \<and> n \<notin> set (sk_retarget k) \<and>
        (\<exists>c \<in> set rows. is_open c \<and> pp_pr c = n \<and> stacked_on trunk rows c b)) \<and>
     (\<forall>c \<in> set rows. is_open c \<longrightarrow> pp_pr c \<notin> excluded (sk_ledger k) \<longrightarrow>
        pp_pr c \<in> set (sk_merge k) \<or> pp_pr c \<in> set (sk_retarget k) \<or> map_of (sk_baseOf k) (pp_pr c) \<noteq> None) \<and>
     (\<forall>c \<in> set rows. is_open c \<longrightarrow> doubled rows c \<or> \<not> clean c \<longrightarrow> pp_pr c \<in> excluded (sk_ledger k)) \<and>
     (\<forall>n \<in> excluded (sk_ledger k). \<exists>c \<in> set rows. is_open c \<and> pp_pr c = n) \<and>
     set (sk_merge k) \<inter> set (sk_retarget k) = {} \<and>
     distinct (sk_merge k) \<and> distinct (sk_retarget k) \<and> distinct (okeys (sk_baseOf k)) \<and> distinct (map fst (sk_ledger k))"

lemma stack_factsD:
  assumes "stack_facts trunk rows k"
  shows "\<forall>n \<in> set (sk_merge k). n \<notin> excluded (sk_ledger k) \<and> (\<exists>c \<in> set rows. is_open c \<and> pp_pr c = n \<and> at_trunk trunk c)"
    "\<forall>n \<in> set (sk_retarget k). n \<notin> excluded (sk_ledger k) \<and> (\<exists>c \<in> set rows. is_open c \<and> pp_pr c = n \<and> on_closed trunk rows c)"
    "\<forall>n b. map_of (sk_baseOf k) n = Some b \<longrightarrow> n \<notin> set (sk_merge k) \<and> n \<notin> set (sk_retarget k) \<and>
        (\<exists>c \<in> set rows. is_open c \<and> pp_pr c = n \<and> stacked_on trunk rows c b)"
    "\<forall>c \<in> set rows. is_open c \<longrightarrow> pp_pr c \<notin> excluded (sk_ledger k) \<longrightarrow>
        pp_pr c \<in> set (sk_merge k) \<or> pp_pr c \<in> set (sk_retarget k) \<or> map_of (sk_baseOf k) (pp_pr c) \<noteq> None"
    "\<forall>c \<in> set rows. is_open c \<longrightarrow> doubled rows c \<or> \<not> clean c \<longrightarrow> pp_pr c \<in> excluded (sk_ledger k)"
    "\<forall>n \<in> excluded (sk_ledger k). \<exists>c \<in> set rows. is_open c \<and> pp_pr c = n"
    "set (sk_merge k) \<inter> set (sk_retarget k) = {}"
    "distinct (sk_merge k)" "distinct (sk_retarget k)" "distinct (okeys (sk_baseOf k))" "distinct (map fst (sk_ledger k))"
  using assms unfolding stack_facts_def by blast+

lemma place_rows_facts: "stack_facts trunk rows (place_rows trunk rows)"
proof -
  let ?k = "place_rows trunk rows" and ?L = "first_gates rows"
  have M: "set (sk_merge ?k) = pp_pr ` {c \<in> set (filter is_open rows). at_trunk trunk c \<and> pp_pr c \<notin> excluded ?L}"
    and R: "set (sk_retarget ?k) = pp_pr ` {c \<in> set (filter is_open rows). on_closed trunk rows c \<and> pp_pr c \<notin> excluded ?L}"
    and E: "excluded (sk_ledger ?k) = excluded ?L \<union> pp_pr ` {c \<in> set (filter is_open rows). unplaced trunk rows c}"
    and B: "\<And>n b. map_of (sk_baseOf ?k) n = Some b \<longleftrightarrow>
        (\<exists>c \<in> set (filter is_open rows). pp_pr c = n \<and> stacked_on trunk rows c b \<and> \<not> doubled rows c)"
    and D: "distinct (sk_merge ?k)" "distinct (sk_retarget ?k)" "distinct (okeys (sk_baseOf ?k))" "distinct (map fst (sk_ledger ?k))"
    using place_rows_placed [of trunk rows] unfolding placed_def by blast+
  have F: "excluded ?L = pp_pr ` {c \<in> set rows. is_open c \<and> (doubled rows c \<or> \<not> clean c)}" by (rule first_gates_excluded)
  have kinds: "\<not> (at_trunk trunk c \<and> on_closed trunk rows c)" "\<not> (at_trunk trunk c \<and> unplaced trunk rows c)"
    "\<not> (on_closed trunk rows c \<and> unplaced trunk rows c)" "stacked_on trunk rows c b \<Longrightarrow> \<not> at_trunk trunk c \<and> \<not> on_closed trunk rows c" for c b
    by (auto simp: at_trunk_def on_closed_def unplaced_def stacked_on_def)
  have one: "c' = c" if "c \<in> set rows" "is_open c" "pp_pr c \<notin> excluded ?L" "c' \<in> set rows" "pp_pr c' = pp_pr c" for c c'
    using row_unique [OF _ that(1,4,5)] that(1-3) F by blast
  show ?thesis
    unfolding stack_facts_def
  proof (intro conjI ballI allI impI)
    fix n assume "n \<in> set (sk_merge ?k)"
    then obtain c where c: "c \<in> set rows" "is_open c" "at_trunk trunk c" "pp_pr c = n" "n \<notin> excluded ?L" unfolding M by auto
    show "\<exists>c \<in> set rows. is_open c \<and> pp_pr c = n \<and> at_trunk trunk c" using c by blast
    show "n \<notin> excluded (sk_ledger ?k)"
    proof
      assume "n \<in> excluded (sk_ledger ?k)"
      then obtain c' where "c' \<in> set rows" "is_open c'" "unplaced trunk rows c'" "pp_pr c' = n" using c(5) unfolding E by auto
      then show False using one [of c c'] c kinds(2) [of c] by auto
    qed
  next
    fix n assume "n \<in> set (sk_retarget ?k)"
    then obtain c where c: "c \<in> set rows" "is_open c" "on_closed trunk rows c" "pp_pr c = n" "n \<notin> excluded ?L" unfolding R by auto
    show "\<exists>c \<in> set rows. is_open c \<and> pp_pr c = n \<and> on_closed trunk rows c" using c by blast
    show "n \<notin> excluded (sk_ledger ?k)"
    proof
      assume "n \<in> excluded (sk_ledger ?k)"
      then obtain c' where "c' \<in> set rows" "is_open c'" "unplaced trunk rows c'" "pp_pr c' = n" using c(5) unfolding E by auto
      then show False using one [of c c'] c kinds(3) [of c] by auto
    qed
  next
    fix n b assume "map_of (sk_baseOf ?k) n = Some b"
    then obtain c where c: "c \<in> set rows" "is_open c" "pp_pr c = n" "stacked_on trunk rows c b" "\<not> doubled rows c"
      unfolding B by auto
    show "\<exists>c \<in> set rows. is_open c \<and> pp_pr c = n \<and> stacked_on trunk rows c b" using c by blast
    have eq: "x = c" if "x \<in> set rows" "pp_pr x = n" for x using row_unique [OF c(5) c(1) that(1)] that(2) c(3) by simp
    show "n \<notin> set (sk_merge ?k)" unfolding M using eq kinds(4) [OF c(4)] by auto
    show "n \<notin> set (sk_retarget ?k)" unfolding R using eq kinds(4) [OF c(4)] by auto
  next
    fix c assume c: "c \<in> set rows" "is_open c" "pp_pr c \<notin> excluded (sk_ledger ?k)"
    show "pp_pr c \<in> set (sk_merge ?k) \<or> pp_pr c \<in> set (sk_retarget ?k) \<or> map_of (sk_baseOf ?k) (pp_pr c) \<noteq> None"
    proof (cases rule: place_cases [where trunk = trunk and c = c and rows = rows])
      case 1
      then show ?thesis using c unfolding M E by auto
    next
      case (2 b)
      have "\<not> doubled rows c" using c F unfolding E by auto
      then have "map_of (sk_baseOf ?k) (pp_pr c) = Some b" unfolding B using c 2 by auto
      then show ?thesis by simp
    next
      case 3
      then show ?thesis using c unfolding R E by auto
    next
      case 4
      then show ?thesis using c unfolding E by auto
    qed
  next
    fix c assume "c \<in> set rows" "is_open c" "doubled rows c \<or> \<not> clean c"
    then show "pp_pr c \<in> excluded (sk_ledger ?k)" unfolding E F by blast
  next
    fix n assume "n \<in> excluded (sk_ledger ?k)"
    then show "\<exists>c \<in> set rows. is_open c \<and> pp_pr c = n" unfolding E F by auto
  next
    show "set (sk_merge ?k) \<inter> set (sk_retarget ?k) = {}"
    proof (rule ccontr)
      assume "set (sk_merge ?k) \<inter> set (sk_retarget ?k) \<noteq> {}"
      then obtain n where n: "n \<in> set (sk_merge ?k)" "n \<in> set (sk_retarget ?k)" by blast
      obtain c where c: "c \<in> set rows" "is_open c" "at_trunk trunk c" "pp_pr c \<notin> excluded ?L" "pp_pr c = n"
        using n(1) unfolding M by auto
      obtain c' where "c' \<in> set rows" "on_closed trunk rows c'" "pp_pr c' = n" using n(2) unfolding R by auto
      then show False using one [OF c(1,2,4), of c'] c kinds(1) [of c] by auto
    qed
  qed (fact D)+
qed


text \<open>What the whole of the gates leaves behind: the ledgers \<open>L7\<close> and \<open>L8\<close> over the stack \<open>k\<close>.\<close>

definition gates_done :: "stack \<Rightarrow> ledger \<Rightarrow> ledger \<Rightarrow> bool" where
  "gates_done k L7 L8 \<longleftrightarrow>
     (let m = sk_baseOf k; kids = childrenOf m L7
      in defer_gate k m (cycle_gate m (okeys m) (sk_ledger k)) = Some L7 \<and>
         cascade_gate kids (map fst L7) L7 = Some L8 \<and>
         excluded (sk_ledger k) \<subseteq> excluded L7 \<and> excluded L7 \<subseteq> excluded L8 \<and>
         excluded L8 \<subseteq> excluded (sk_ledger k) \<union> set (okeys m) \<and> distinct (map fst L8) \<and>
         (\<forall>r \<in> set (sk_merge k). kids r = []) \<and>
         (\<forall>r \<in> set (sk_retarget k). \<forall>n \<in> set (kids r). kids n = [] \<and> n \<notin> excluded L8) \<and>
         (\<forall>n b. map_of m n = Some b \<longrightarrow> n \<notin> excluded L8 \<longrightarrow> b \<in> set (sk_retarget k) \<and> n \<in> set (kids b)))"

lemma childrenOf_iff: "distinct (okeys m) \<Longrightarrow> n \<in> set (childrenOf m L b) \<longleftrightarrow> map_of m n = Some b \<and> n \<notin> excluded L"
  unfolding childrenOf_def by force

lemma gates_return:
  assumes F: "stack_facts trunk rows k" and own: "\<And>h b. open_owner rows h = Some b \<Longrightarrow> \<exists>c \<in> set rows. is_open c \<and> pp_pr c = b"
  shows "\<exists>L7 L8. gates_done k L7 L8"
proof -
  define m where "m = sk_baseOf k"
  define L6 where "L6 = cycle_gate m (okeys m) (sk_ledger k)"
  have dm: "distinct (okeys m)" using F by (simp add: stack_facts_def m_def)
  have L56: "excluded (sk_ledger k) \<subseteq> excluded L6" "excluded L6 \<subseteq> excluded (sk_ledger k) \<union> set (okeys m)"
    "distinct (map fst L6)"
  proof -
    show "excluded (sk_ledger k) \<subseteq> excluded L6" unfolding L6_def by (rule cycle_gate_mono)
    show "excluded L6 \<subseteq> excluded (sk_ledger k) \<union> set (okeys m)" unfolding L6_def by (rule cycle_gate_new)
    have "distinct (map fst (sk_ledger k))" using F unfolding stack_facts_def by blast
    then show "distinct (map fst L6)" unfolding L6_def by (rule cycle_gate_distinct)
  qed
  have W: "free_wf k L6"
    unfolding free_wf_def m_def [symmetric]
    by (rule free_edges_wf) (unfold L6_def, erule cycle_gate_excludes, assumption)
  have apart: "keys_apart k" using F by (simp add: keys_apart_def stack_facts_def)
  have edges: "(n, b) \<in> set m \<Longrightarrow> map_of (sk_baseOf k) n = Some b" for n b
    using dm unfolding m_def by (rule map_of_is_SomeI)
  obtain L7 where L7: "defer_gate k m L6 = Some L7" "excluded L6 \<subseteq> excluded L7" "excluded L7 \<subseteq> excluded L6 \<union> fst ` set m"
    "statusOf k L7 = statusOf k L6" "distinct (map fst L7)"
    "\<forall>(n, b) \<in> set m. n \<notin> excluded L7 \<longrightarrow> (\<forall>i. statusOf k L6 b \<noteq> Some (i, True))"
    using defer_gate_laws [OF W apart edges L56(3)] by blast
  define kids where "kids = childrenOf m L7"
  have kid: "n \<in> set (kids b) \<longleftrightarrow> map_of m n = Some b \<and> n \<notin> excluded L7" for n b
    unfolding kids_def by (rule childrenOf_iff [OF dm])
  have K: "set (kids n) \<subseteq> set (okeys m)" for n using kid key_in_okeys [of m] by blast
  obtain L8 where L8: "cascade_gate kids (map fst L7) L7 = Some L8" "excluded L7 \<subseteq> excluded L8"
    "excluded L8 \<subseteq> excluded L7 \<union> set (okeys m)" "closed_under kids L8"
    "\<forall>x \<in> excluded L8 - excluded L7. \<exists>y \<in> excluded L8. x \<in> set (kids y)" "distinct (map fst L8)"
    using cascade_gate_closed [where K = "set (okeys m)" and kids = kids and L = L7] K L7(5) by blast
  have no_kids: "kids b = []" if "statusOf k L7 b = Some (i, True)" for b i
  proof (rule ccontr)
    assume "kids b \<noteq> []"
    then obtain n where "n \<in> set (kids b)" by (cases "kids b") auto
    then have "(n, b) \<in> set m" "n \<notin> excluded L7" using kid by (auto dest: map_of_SomeD)
    then show False using L7(4,6) that by fastforce
  qed
  have key_apart: "n \<in> set (okeys m) \<Longrightarrow> n \<notin> set (sk_merge k) \<and> n \<notin> set (sk_retarget k)" for n
    using apart edges unfolding keys_apart_def by fastforce
  have root_free: "r \<notin> excluded L8" if "r \<in> set (sk_merge k) \<union> set (sk_retarget k)" for r
  proof -
    have "r \<notin> excluded (sk_ledger k)" using F that by (auto simp: stack_facts_def)
    moreover have "r \<notin> set (okeys m)" using that key_apart by blast
    ultimately show ?thesis using L56(2) L7(3) L8(3) by auto
  qed
  have merge: "kids r = []" if "r \<in> set (sk_merge k)" for r
    using no_kids [of r True] statusOf_simps(2) [of r L7 k] root_free [of r] L8(2) that by auto
  have below: "kids n = [] \<and> n \<notin> excluded L8" if r: "r \<in> set (sk_retarget k)" and n: "n \<in> set (kids r)" for r n
  proof
    have nr: "map_of m n = Some r" "n \<notin> excluded L7" using n kid by blast+
    have rm: "r \<notin> set (sk_merge k)" using F r by (auto simp: stack_facts_def)
    have "statusOf k L7 r = Some (True, False)"
      using statusOf_simps(3) [of r L7 k] root_free [of r] L8(2) r rm by auto
    then have "statusOf k L7 n = Some (True, True)"
      using statusOf_base [of n L7 k r] nr key_apart [of n] key_in_okeys [OF nr(1)] by (simp add: m_def)
    then show "kids n = []" by (rule no_kids)
    show "n \<notin> excluded L8"
    proof
      assume "n \<in> excluded L8"
      then obtain y where "y \<in> excluded L8" "n \<in> set (kids y)" using L8(5) nr(2) by blast
      then show False using kid nr(1) root_free [of r] r by auto
    qed
  qed
  have child: "b \<in> set (sk_retarget k) \<and> n \<in> set (kids b)" if "map_of m n = Some b" "n \<notin> excluded L8" for n b
    using W that
  proof (induction n arbitrary: b rule: free_wf_induct)
    case (step n)
    have n: "n \<in> set (kids b)" using kid step.prems L8(2) by blast
    have b8: "b \<notin> excluded L8" using L8(4) n step.prems(2) unfolding closed_under_def by blast
    obtain c where "c \<in> set rows" "is_open c" "pp_pr c = b"
    proof -
      obtain c0 where "stacked_on trunk rows c0 b" using F step.prems(1) unfolding stack_facts_def m_def by blast
      then show ?thesis using own that unfolding stacked_on_def by blast
    qed
    moreover have "b \<notin> excluded (sk_ledger k)" using b8 L56(1) L7(2) L8(2) by blast
    ultimately consider "b \<in> set (sk_merge k)" | "b \<in> set (sk_retarget k)" | b' where "map_of m b = Some b'"
      using F unfolding stack_facts_def m_def by blast
    then show ?case
    proof cases
      case 1
      then show ?thesis using merge n by simp
    next
      case 2
      then show ?thesis using n by simp
    next
      case 3
      have "n \<notin> excluded L6" using step.prems(2) L7(2) L8(2) by blast
      then have "b' \<in> set (sk_retarget k) \<and> b \<in> set (kids b')"
        using step.IH [of b b'] step.prems(1) 3 b8 by (simp add: m_def)
      then show ?thesis using below [of b' b] n by simp
    qed
  qed
  have "gates_done k L7 L8"
    unfolding gates_done_def Let_def m_def [symmetric] L6_def [symmetric] kids_def [symmetric]
    using L7(1) L8(1,2,6) L56 L7(2,3) L8(3) merge below child by auto
  then show ?thesis by blast
qed

text \<open>The plan in closed form: the roots, then the children of the retargeted roots.\<close>

definition root_entry :: "planned_pr list \<Rightarrow> string \<Rightarrow> stack \<Rightarrow> pr_no \<Rightarrow> merge_entry" where
  "root_entry rows trunk k n =
     entryFor rows trunk n (if n \<in> set (sk_retarget k) then Retarget_self else Merge_it) None 0"

definition child_entry :: "planned_pr list \<Rightarrow> string \<Rightarrow> pr_no \<Rightarrow> pr_no \<Rightarrow> merge_entry" where
  "child_entry rows trunk b n = entryFor rows trunk n Merge_it (Some b) 1"

definition roots_of :: "stack \<Rightarrow> pr_no list" where "roots_of k = sort (sk_merge k @ sk_retarget k)"

definition closed_form :: "string \<Rightarrow> planned_pr list \<Rightarrow> stack \<Rightarrow> ledger \<Rightarrow> ledger \<Rightarrow> merge_plan" where
  "closed_form trunk rows k L7 L8 =
     \<lparr>mp_order = map (root_entry rows trunk k) (roots_of k) @
        concat (map (\<lambda>r. map (child_entry rows trunk r) (childrenOf (sk_baseOf k) L7 r)) (roots_of k)),
      mp_needsHuman = sort_key fst L8, mp_baseBranch = trunk\<rparr>"

lemma plan_rows_closed:
  obtains L7 L8 where "stack_facts trunk rows (place_rows trunk rows)" "gates_done (place_rows trunk rows) L7 L8"
    "plan_rows trunk rows = Some (closed_form trunk rows (place_rows trunk rows) L7 L8)"
proof -
  define k where "k = place_rows trunk rows"
  have F: "stack_facts trunk rows k" unfolding k_def by (rule place_rows_facts)
  obtain L7 L8 where G: "gates_done k L7 L8" using gates_return [OF F] open_owner_open [of rows] by blast
  define kids where "kids = childrenOf (sk_baseOf k) L7"
  have g: "defer_gate k (sk_baseOf k) (cycle_gate (sk_baseOf k) (okeys (sk_baseOf k)) (sk_ledger k)) = Some L7"
    "cascade_gate kids (map fst L7) L7 = Some L8" "\<And>r. r \<in> set (sk_merge k) \<Longrightarrow> kids r = []"
    "\<And>r n. r \<in> set (sk_retarget k) \<Longrightarrow> n \<in> set (kids r) \<Longrightarrow> kids n = []"
    using G unfolding gates_done_def Let_def kids_def by blast+
  have "emit_roots e kids (roots_of k) = Some (concat (map (\<lambda>r. map (\<lambda>n. e n (Some r) 1) (kids r)) (roots_of k)))" for e
    by (rule emit_roots_flat) (use g(3,4) in \<open>auto simp: roots_of_def\<close>)
  then have "plan_rows trunk rows = Some (closed_form trunk rows k L7 L8)"
    unfolding plan_rows_def Let_def k_def [symmetric] using g(1,2)
    by (simp add: kids_def [symmetric] roots_of_def [symmetric] closed_form_def root_entry_def [abs_def] child_entry_def [abs_def])
  then show ?thesis using that F G unfolding k_def by blast
qed

lemma me_pr_entry [simp]: "me_pr (root_entry rows trunk k n) = n" "me_pr (child_entry rows trunk b n) = n"
  by (simp_all add: root_entry_def child_entry_def entryFor_def Let_def)

definition order_numbers :: "stack \<Rightarrow> ledger \<Rightarrow> pr_no list" where
  "order_numbers k L7 = roots_of k @ concat (map (childrenOf (sk_baseOf k) L7) (roots_of k))"

lemma closed_form_numbers: "map me_pr (mp_order (closed_form trunk rows k L7 L8)) = order_numbers k L7"
  by (simp add: closed_form_def order_numbers_def map_concat comp_def)

lemma order_numbers_set:
  assumes F: "stack_facts trunk rows k" and G: "gates_done k L7 L8"
  shows "set (order_numbers k L7) = {pp_pr c |c. c \<in> set rows \<and> is_open c} - excluded L8" (is "_ = ?open - _")
    and "excluded L8 \<subseteq> {pp_pr c |c. c \<in> set rows \<and> is_open c}"
proof -
  define m where "m = sk_baseOf k"
  define kids where "kids = childrenOf m L7"
  have dm: "distinct (okeys m)" using F by (simp add: stack_facts_def m_def)
  have g: "excluded (sk_ledger k) \<subseteq> excluded L7" "excluded L7 \<subseteq> excluded L8"
    "excluded L8 \<subseteq> excluded (sk_ledger k) \<union> set (okeys m)" "\<And>r. r \<in> set (sk_merge k) \<Longrightarrow> kids r = []"
    "\<And>r n. r \<in> set (sk_retarget k) \<Longrightarrow> n \<in> set (kids r) \<Longrightarrow> n \<notin> excluded L8"
    "\<And>n b. map_of m n = Some b \<Longrightarrow> n \<notin> excluded L8 \<Longrightarrow> b \<in> set (sk_retarget k) \<and> n \<in> set (kids b)"
    using G unfolding gates_done_def Let_def kids_def m_def by blast+
  note d = stack_factsD [OF F, folded m_def]
  have f1: "n \<notin> excluded (sk_ledger k) \<and> n \<in> ?open" if "n \<in> set (sk_merge k) \<union> set (sk_retarget k)" for n
    using that d(1,2) by fastforce
  have f2: "n \<notin> set (sk_merge k) \<union> set (sk_retarget k) \<and> n \<in> ?open" if a: "map_of m n = Some b" for n b
  proof -
    have "\<exists>c. c \<in> set rows \<and> is_open c \<and> pp_pr c = n" using d(3) a by blast
    then show ?thesis using d(3) a by auto
  qed
  have f4: "excluded (sk_ledger k) \<subseteq> ?open" using d(6) by fastforce
  note f = f1 f2 d(4) f4
  have keys: "n \<in> set (okeys m) \<Longrightarrow> \<exists>b. map_of m n = Some b" for n
    using omap_has_iff [of n m] unfolding omap_has_def by blast
  show "excluded L8 \<subseteq> ?open" using g(3) f(2,4) keys by blast
  have roots: "set (roots_of k) = set (sk_merge k) \<union> set (sk_retarget k)" by (simp add: roots_of_def)
  have free: "n \<notin> excluded L8" if "n \<in> set (roots_of k)" for n
    using f(1) [of n] f(2) [of n] keys [of n] g(3) that unfolding roots by blast
  show "set (order_numbers k L7) = ?open - excluded L8"
  proof (intro equalityI subsetI)
    fix n assume "n \<in> set (order_numbers k L7)"
    then consider "n \<in> set (roots_of k)" | r where "r \<in> set (roots_of k)" "n \<in> set (kids r)"
      by (auto simp: order_numbers_def kids_def m_def)
    then show "n \<in> ?open - excluded L8"
    proof cases
      case 1
      then show ?thesis using free f(1) roots by blast
    next
      case 2
      then have "r \<in> set (sk_retarget k)" using g(4) [of r] roots by auto
      moreover have "map_of m n = Some r" using 2(2) childrenOf_iff [OF dm] unfolding kids_def by blast
      ultimately show ?thesis using g(5) [of r n] f(2) [of n r] 2(2) by blast
    qed
  next
    fix n assume n: "n \<in> ?open - excluded L8"
    then have "n \<notin> excluded (sk_ledger k)" using g(1,2) by blast
    then consider "n \<in> set (roots_of k)" | b where "map_of m n = Some b" using n f(3) unfolding roots by blast
    then show "n \<in> set (order_numbers k L7)"
    proof cases
      case 1
      then show ?thesis by (simp add: order_numbers_def)
    next
      case 2
      then have "b \<in> set (roots_of k)" "n \<in> set (kids b)" using g(6) [OF 2] n roots by blast+
      then show ?thesis by (auto simp: order_numbers_def kids_def m_def)
    qed
  qed
qed

lemma order_numbers_distinct:
  assumes F: "stack_facts trunk rows k"
  shows "distinct (order_numbers k L7)"
proof -
  let ?kids = "childrenOf (sk_baseOf k) L7"
  have dm: "distinct (okeys (sk_baseOf k))" using F by (simp add: stack_facts_def)
  have roots: "distinct (roots_of k)" "set (roots_of k) = set (sk_merge k) \<union> set (sk_retarget k)"
    using F by (auto simp: roots_of_def stack_facts_def)
  have kd: "distinct (?kids r)" for r
    unfolding childrenOf_def by (rule distinct_map_filter [OF dm])
  have "distinct (concat (map ?kids rs))" if "distinct rs" for rs
    using that
  proof (induction rs)
    case (Cons r rs)
    have "set (?kids r) \<inter> set (concat (map ?kids rs)) = {}"
      using Cons.prems childrenOf_iff [OF dm] by auto
    then show ?case using Cons kd by simp
  qed simp
  moreover have "set (roots_of k) \<inter> set (concat (map ?kids (roots_of k))) = {}"
    using F childrenOf_iff [OF dm] unfolding roots(2) stack_facts_def by fastforce
  ultimately show ?thesis using roots(1) by (simp add: order_numbers_def)
qed


section \<open>The plan does not depend on the order of the input\<close>

definition unique_rows :: "planned_pr list \<Rightarrow> planned_pr list" where
  "unique_rows rows = filter (\<lambda>c. \<not> doubled rows c) rows"

definition open_doubles :: "planned_pr list \<Rightarrow> pr_no list" where
  "open_doubles rows = map pp_pr (filter (\<lambda>c. is_open c \<and> doubled rows c) rows)"

lemma pr_count_mset: "mset rows = mset rows' \<Longrightarrow> pr_count rows = pr_count rows'"
proof
  fix n assume "mset rows = mset rows'"
  then have "mset (filter (\<lambda>c. pp_pr c = n) rows) = mset (filter (\<lambda>c. pp_pr c = n) rows')" by simp
  then show "pr_count rows n = pr_count rows' n" unfolding pr_count_def by (rule mset_eq_length)
qed

lemma doubled_mset: "mset rows = mset rows' \<Longrightarrow> doubled rows = doubled rows'"
  by (drule pr_count_mset, rule ext) (simp add: doubled_def)

lemma unique_rows_inj: "inj_on pp_pr (set (unique_rows rows))"
  by (rule inj_onI) (auto simp: unique_rows_def intro: row_unique)

lemma sorted_filter_key: "sorted (map f xs) \<Longrightarrow> sorted (map f (filter P xs))"
  by (rule sorted_filter)

lemma same_unique_rows:
  assumes "mset rows = mset rows'" "sorted (map pp_pr rows)" "sorted (map pp_pr rows')"
  shows "unique_rows rows = unique_rows rows'"
proof -
  have m: "mset (unique_rows rows) = mset (unique_rows rows')"
    using assms(1) doubled_mset [OF assms(1)] by (simp add: unique_rows_def mset_filter)
  have s: "sorted (map pp_pr (unique_rows rows'))" "sorted (map pp_pr (unique_rows rows))"
    using assms(2,3) by (simp_all add: unique_rows_def sorted_filter_key)
  have "sort_key pp_pr (unique_rows rows) = unique_rows rows'"
    by (rule sort_key_inj_key_eq [OF m unique_rows_inj s(1)])
  moreover have "sort_key pp_pr (unique_rows rows) = unique_rows rows"
    by (rule sort_key_inj_key_eq [OF refl unique_rows_inj s(2)])
  ultimately show ?thesis by simp
qed

lemma same_open_doubles:
  assumes "mset rows = mset rows'" "sorted (map pp_pr rows)" "sorted (map pp_pr rows')"
  shows "open_doubles rows = open_doubles rows'"
proof -
  have m: "mset (open_doubles rows) = mset (open_doubles rows')"
    using assms(1) doubled_mset [OF assms(1)] by (simp add: open_doubles_def mset_filter)
  have s: "sorted (open_doubles rows)" "sorted (open_doubles rows')"
    using assms(2,3) by (simp_all add: open_doubles_def sorted_filter_key)
  have "sort (open_doubles rows') = open_doubles rows" by (rule properties_for_sort [OF m s(1)])
  moreover have "sort (open_doubles rows') = open_doubles rows'" by (rule properties_for_sort [OF refl s(2)])
  ultimately show ?thesis by simp
qed

lemma find_sorted_min:
  "sorted (map f xs) \<Longrightarrow> map_option f (List.find P xs) =
     (if {x \<in> set xs. P x} = {} then None else Some (Min (f ` {x \<in> set xs. P x})))"
proof (induction xs)
  case (Cons x xs)
  show ?case
  proof (cases "P x")
    case True
    have "f x \<le> y" if "y \<in> f ` {z \<in> set (x # xs). P z}" for y using that Cons.prems by auto
    then have "Min (f ` {z \<in> set (x # xs). P z}) = f x" using True by (intro Min_eqI) auto
    then show ?thesis using True by auto
  next
    case False
    then have "{z \<in> set (x # xs). P z} = {z \<in> set xs. P z}" by auto
    then show ?thesis using False Cons by simp
  qed
qed simp

lemma same_owner:
  assumes "mset rows = mset rows'" "sorted (map pp_pr rows)" "sorted (map pp_pr rows')"
  shows "open_owner rows = open_owner rows'" "closed_owner rows = closed_owner rows'"
  using find_sorted_min [OF assms(2)] find_sorted_min [OF assms(3)] mset_eq_setD [OF assms(1)]
  by (simp_all add: fun_eq_iff open_owner_def closed_owner_def)

lemma same_place:
  assumes "mset rows = mset rows'" "sorted (map pp_pr rows)" "sorted (map pp_pr rows')"
  shows "place trunk rows = place trunk rows'"
  unfolding fun_eq_iff place_def same_owner [OF assms] pr_count_mset [OF assms(1)] by blast

fun note_doubles :: "pr_no list \<Rightarrow> ledger \<Rightarrow> ledger" where
  "note_doubles [] L = L"
| "note_doubles (n # ns) L = note_doubles ns (withhold n Duplicate_pr L)"

lemma duplicate_gate_doubles:
  "duplicate_gate rows cs L = note_doubles (map pp_pr (filter (\<lambda>c. is_open c \<and> doubled rows c) cs)) L"
  by (induction cs arbitrary: L) (simp_all add: is_open_def doubled_def)

lemma evidence_gate_unique:
  "pp_pr ` {c \<in> set cs. is_open c \<and> doubled rows c} \<subseteq> excluded L \<Longrightarrow>
     evidence_gate cs L = evidence_gate (filter (\<lambda>c. \<not> doubled rows c) cs) L"
proof (induction cs arbitrary: L)
  case (Cons c cs)
  let ?L = "if pp_state c \<noteq> Open_pr then L
        else if pp_truncated c then withhold (pp_pr c) Review_data_truncated L
        else case pp_class c of
          None \<Rightarrow> withhold (pp_pr c) Unclassified L
        | Some k \<Rightarrow> if pc_verdict k \<noteq> Eligible then withhold (pp_pr c) Not_eligible L else L"
  have "excluded L \<subseteq> excluded ?L" by (auto split: option.splits)
  moreover have "pp_pr ` {c \<in> set cs. is_open c \<and> doubled rows c} \<subseteq> excluded L" using Cons.prems by auto
  ultimately have "evidence_gate cs ?L = evidence_gate (filter (\<lambda>c. \<not> doubled rows c) cs) ?L"
    by (intro Cons.IH) (rule subset_trans)
  moreover have "?L = L" if "doubled rows c"
  proof (cases "is_open c")
    case True
    then have "pp_pr c \<in> excluded L" using Cons.prems that by auto
    then show ?thesis by (auto simp: withhold_same split: option.splits)
  qed (simp add: is_open_def)
  ultimately show ?case by simp
qed simp

lemma first_gates_unique:
  "first_gates rows = evidence_gate (unique_rows rows) (note_doubles (open_doubles rows) [])"
proof -
  have "pp_pr ` {c \<in> set rows. is_open c \<and> doubled rows c} \<subseteq> excluded (duplicate_gate rows rows [])"
    by (simp add: duplicate_excluded)
  from evidence_gate_unique [OF this] show ?thesis
    unfolding first_gates_def unique_rows_def open_doubles_def duplicate_gate_doubles .
qed

lemma place_doubled: "doubled rows c \<Longrightarrow> pp_pr c \<in> excluded (sk_ledger k) \<Longrightarrow> place trunk rows c k = k"
  by (auto simp: place_def doubled_def withhold_same split: option.splits)

lemma place_keeps: "excluded (sk_ledger k) \<subseteq> excluded (sk_ledger (place trunk rows c k))"
  by (auto simp: place_def split: option.splits)

lemma place_all_unique:
  "pp_pr ` {c \<in> set cs. doubled rows c} \<subseteq> excluded (sk_ledger k) \<Longrightarrow>
     place_all trunk rows cs k = place_all trunk rows (filter (\<lambda>c. \<not> doubled rows c) cs) k"
proof (induction cs arbitrary: k)
  case (Cons c cs)
  have "place_all trunk rows cs (place trunk rows c k) = place_all trunk rows (filter (\<lambda>c. \<not> doubled rows c) cs) (place trunk rows c k)"
    by (rule Cons.IH) (use Cons.prems place_keeps [of k trunk rows c] in auto)
  moreover have "place trunk rows c k = k" if "doubled rows c" using place_doubled that Cons.prems by auto
  ultimately show ?case by simp
qed simp

lemma place_all_cong: "place trunk rows = place trunk rows' \<Longrightarrow> place_all trunk rows cs k = place_all trunk rows' cs k"
  by (induction cs arbitrary: k) simp_all

lemma place_rows_unique:
  "place_rows trunk rows = place_all trunk rows (filter is_open (unique_rows rows))
     \<lparr>sk_baseOf = [], sk_merge = [], sk_retarget = [],
      sk_ledger = evidence_gate (unique_rows rows) (note_doubles (open_doubles rows) [])\<rparr>"
proof -
  have "pp_pr ` {c \<in> set (filter (\<lambda>c. pp_state c = Open_pr) rows). doubled rows c} \<subseteq> excluded (first_gates rows)"
    by (auto simp: first_gates_excluded is_open_def)
  moreover have "filter (\<lambda>c. \<not> doubled rows c) (filter (\<lambda>c. pp_state c = Open_pr) rows) = filter is_open (unique_rows rows)"
    by (simp add: unique_rows_def is_open_def [abs_def] conj_commute)
  ultimately show ?thesis
    unfolding place_rows_def first_gates_unique [symmetric] by (subst place_all_unique) simp_all
qed

lemma same_stack:
  assumes "mset rows = mset rows'" "sorted (map pp_pr rows)" "sorted (map pp_pr rows')"
  shows "place_rows trunk rows = place_rows trunk rows'"
  unfolding place_rows_unique same_unique_rows [OF assms] same_open_doubles [OF assms]
  by (rule place_all_cong) (rule same_place [OF assms])

text \<open>An entry of an undoubled number is that of its one row.\<close>

lemma row_of_number:
  assumes "\<not> doubled rows c" "c \<in> set rows"
  shows "map_of (rev (map (\<lambda>c. (pp_pr c, c)) rows)) (pp_pr c) = Some c"
proof -
  have "map_of (rev (map (\<lambda>c. (pp_pr c, c)) rows)) (pp_pr c) \<noteq> None" using assms(2) by (auto simp: map_of_eq_None_iff image_image)
  then obtain x where x: "map_of (rev (map (\<lambda>c. (pp_pr c, c)) rows)) (pp_pr c) = Some x" by auto
  then have "(pp_pr c, x) \<in> set (rev (map (\<lambda>c. (pp_pr c, c)) rows))" by (rule map_of_SomeD)
  then have "x \<in> set rows" "pp_pr x = pp_pr c" by auto
  then show ?thesis using x row_unique [OF assms] by simp
qed

lemma entryFor_row:
  assumes "\<not> doubled rows c" "c \<in> set rows"
  shows "entryFor rows trunk (pp_pr c) a b d =
    \<lparr>me_pr = pp_pr c, me_action = a, me_basePr = b, me_depth = d,
     me_baseRefName = (if pp_base c \<noteq> trunk then Some (pp_base c) else None),
     me_headSha = (case pp_sha c of None \<Rightarrow> None | Some s \<Rightarrow> if is_sha40 s then Some s else None)\<rparr>"
  by (simp add: entryFor_def Let_def row_of_number [OF assms])

end
