(* ===== verification/Merge_Plan.thy ===== *)
theory Merge_Plan
  imports Merge_Order_Laws
begin

text \<open>
  What \<open>planMergeOrder\<close> promises: it always returns, it disposes of every open pull request exactly once,
  it orders only rows whose evidence is complete and eligible, it never merges into the branch of a
  pull request that this pass merges, and the order of its input does not matter.
\<close>

section \<open>The plan read back\<close>

lemma plan_closed:
  assumes "planMergeOrder trunk prs = Some p"
  obtains L7 L8 where "stack_facts trunk (sort_key pp_pr prs) (place_rows trunk (sort_key pp_pr prs))"
    "gates_done (place_rows trunk (sort_key pp_pr prs)) L7 L8"
    "p = closed_form trunk (sort_key pp_pr prs) (place_rows trunk (sort_key pp_pr prs)) L7 L8"
  using assms plan_rows_closed [of trunk "sort_key pp_pr prs"] unfolding planMergeOrder_def by (metis option.inject)

lemma plan_exists: "\<exists>p. planMergeOrder trunk prs = Some p"
  using plan_rows_closed [of trunk "sort_key pp_pr prs"] unfolding planMergeOrder_def by metis

lemma plan_numbers:
  assumes F: "stack_facts trunk rows k" and G: "gates_done k L7 L8"
  shows "set (order_numbers k L7) \<union> excluded L8 = {pp_pr c |c. c \<in> set rows \<and> is_open c}"
    and "set (order_numbers k L7) \<inter> excluded L8 = {}"
  using order_numbers_set [OF F G] by blast+

lemma needs_numbers:
  assumes "gates_done k L7 L8"
  shows "set (map fst (sort_key fst L8)) = excluded L8" "distinct (map fst (sort_key fst L8))"
proof -
  have "distinct (map fst L8)" using assms unfolding gates_done_def Let_def by blast
  then have "distinct (map fst (sort_key fst L8))"
    by (metis distinct_map distinct_sort set_sort)
  then show "distinct (map fst (sort_key fst L8))" .
qed (simp add: excluded_def)

text \<open>An ordered number belongs to one open row with complete, eligible evidence.\<close>

definition plan_row :: "planned_pr list \<Rightarrow> pr_no \<Rightarrow> planned_pr \<Rightarrow> bool" where
  "plan_row rows n c \<longleftrightarrow> c \<in> set rows \<and> pp_pr c = n \<and> is_open c \<and> \<not> doubled rows c \<and> clean c"

lemma ordered_row:
  assumes F: "stack_facts trunk rows k" and G: "gates_done k L7 L8" and n: "n \<in> set (order_numbers k L7)"
  shows "\<exists>c. plan_row rows n c"
proof -
  obtain c where c: "c \<in> set rows" "is_open c" "pp_pr c = n" "n \<notin> excluded L8"
    using n order_numbers_set [OF F G] by auto
  have "n \<notin> excluded (sk_ledger k)" using c(4) G unfolding gates_done_def Let_def by blast
  then have "\<not> doubled rows c" "clean c" using stack_factsD(5) [OF F] c by auto
  then show ?thesis using c unfolding plan_row_def by blast
qed

lemma plan_row_unique: "plan_row rows n c \<Longrightarrow> c' \<in> set rows \<Longrightarrow> pp_pr c' = n \<Longrightarrow> c' = c"
  unfolding plan_row_def using row_unique by blast

text \<open>An entry, with the row behind it: a root at the trunk or on a closed rung, or a child of a retargeted root.\<close>

definition explains :: "string \<Rightarrow> planned_pr list \<Rightarrow> stack \<Rightarrow> merge_entry \<Rightarrow> planned_pr \<Rightarrow> bool" where
  "explains trunk rows k e c \<longleftrightarrow> plan_row rows (me_pr e) c \<and>
     e = entryFor rows trunk (me_pr e) (me_action e) (me_basePr e) (me_depth e) \<and>
     (if me_depth e = 0 then me_basePr e = None \<and> me_pr e \<in> set (roots_of k) \<and>
        (case me_action e of Merge_it \<Rightarrow> at_trunk trunk c | Retarget_self \<Rightarrow> on_closed trunk rows c)
      else me_depth e = 1 \<and> me_action e = Merge_it \<and>
        (\<exists>b. me_basePr e = Some b \<and> b \<in> set (sk_retarget k) \<and> stacked_on trunk rows c b))"

lemma entry_explained:
  assumes F: "stack_facts trunk rows k" and G: "gates_done k L7 L8"
    and e: "e \<in> set (mp_order (closed_form trunk rows k L7 L8))"
  shows "\<exists>c. explains trunk rows k e c"
proof -
  have n: "me_pr e \<in> set (order_numbers k L7)" using e closed_form_numbers [of trunk rows k L7 L8] by (metis image_eqI set_map)
  obtain c where c: "plan_row rows (me_pr e) c" using ordered_row [OF F G n] by blast
  consider (root) r where "r \<in> set (roots_of k)" "e = root_entry rows trunk k r"
    | (child) r m where "r \<in> set (roots_of k)" "m \<in> set (childrenOf (sk_baseOf k) L7 r)" "e = child_entry rows trunk r m"
    using e unfolding closed_form_def by auto
  then show ?thesis
  proof cases
    case root
    have "if r \<in> set (sk_retarget k) then on_closed trunk rows c else at_trunk trunk c"
    proof (cases "r \<in> set (sk_retarget k)")
      case True
      then obtain c' where "c' \<in> set rows" "pp_pr c' = r" "on_closed trunk rows c'" using stack_factsD(2) [OF F] by blast
      then show ?thesis using plan_row_unique [OF c, of c'] root(2) True by simp
    next
      case False
      then have "r \<in> set (sk_merge k)" using root(1) by (simp add: roots_of_def)
      then obtain c' where "c' \<in> set rows" "pp_pr c' = r" "at_trunk trunk c'" using stack_factsD(1) [OF F] by blast
      then show ?thesis using plan_row_unique [OF c, of c'] root(2) False by simp
    qed
    then show ?thesis using c root
      by (intro exI [of _ c]) (auto simp: explains_def root_entry_def entryFor_def Let_def split: if_splits)
  next
    case child
    have dm: "distinct (okeys (sk_baseOf k))" using stack_factsD(10) [OF F] .
    have m: "map_of (sk_baseOf k) m = Some r" using child(2) childrenOf_iff [OF dm] by blast
    then obtain c' where "c' \<in> set rows" "pp_pr c' = m" "stacked_on trunk rows c' r" using stack_factsD(3) [OF F] by blast
    then have s: "stacked_on trunk rows c r" using plan_row_unique [OF c, of c'] child(3) by simp
    have "r \<notin> set (sk_merge k)" using G child(2) unfolding gates_done_def Let_def by fastforce
    then have "r \<in> set (sk_retarget k)" using child(1) by (simp add: roots_of_def)
    then show ?thesis using c s child(3)
      by (intro exI [of _ c]) (auto simp: explains_def child_entry_def entryFor_def Let_def)
  qed
qed


section \<open>A concrete stack\<close>

declare statusOf.simps [code] cascade.simps [code] emitSubtrees.simps [code]

text \<open>A closed rung, a pull request on it and its child, a root at the trunk and its child.\<close>

definition eligible_row :: "pr_no \<Rightarrow> string \<Rightarrow> string \<Rightarrow> planned_pr" where
  "eligible_row n head base =
     \<lparr>pp_pr = n, pp_head = head, pp_base = base, pp_sha = None, pp_state = Open_pr, pp_author = None,
      pp_class = Some \<lparr>pc_verdict = Eligible, pc_reason = Explicit_all_clear, pc_threads = 0\<rparr>, pp_truncated = False\<rparr>"

definition small_stack :: "planned_pr list" where
  "small_stack =
     [eligible_row 5 ''e'' ''d'', eligible_row 4 ''d'' ''main'', eligible_row 3 ''c'' ''b'', eligible_row 2 ''b'' ''a'',
      (eligible_row 1 ''a'' ''main'')\<lparr>pp_state := Closed_pr, pp_class := None\<rparr>]"

definition small_plan :: merge_plan where
  "small_plan =
     \<lparr>mp_order =
        [\<lparr>me_pr = 2, me_action = Retarget_self, me_basePr = None, me_depth = 0, me_baseRefName = Some ''a'', me_headSha = None\<rparr>,
         \<lparr>me_pr = 4, me_action = Merge_it, me_basePr = None, me_depth = 0, me_baseRefName = None, me_headSha = None\<rparr>,
         \<lparr>me_pr = 3, me_action = Merge_it, me_basePr = Some 2, me_depth = 1, me_baseRefName = Some ''b'', me_headSha = None\<rparr>],
      mp_needsHuman = [(5, Stack_base_merging_this_pass)], mp_baseBranch = ''main''\<rparr>"

lemma small_stack_plan: "planMergeOrder ''main'' small_stack = Some small_plan"
  by code_simp

text \<open>The hypothesis on head branches of \<open>plan_strands_nothing\<close> is needed: with two open pull requests on the head
\<open>h\<close>, the child of the retargeted one merges into \<open>h\<close> after the other one has merged \<open>h\<close> into the trunk.\<close>

lemma twin_heads_strand:
  "map_option (map (\<lambda>e. (me_pr e, me_action e, me_baseRefName e)) \<circ> mp_order) (planMergeOrder ''main''
     [eligible_row 10 ''h'' ''rung'', eligible_row 20 ''h'' ''main'', eligible_row 30 ''z'' ''h'',
      (eligible_row 1 ''rung'' ''main'')\<lparr>pp_state := Closed_pr, pp_class := None\<rparr>])
   = Some [(10, Retarget_self, Some ''rung''), (20, Merge_it, None), (30, Merge_it, Some ''h'')]"
  by code_simp

section \<open>The promises\<close>



lemma plan_disposes:
  assumes p: "planMergeOrder trunk prs = Some p"
  shows "distinct (map me_pr (mp_order p) @ map fst (mp_needsHuman p))"
    and "set (map me_pr (mp_order p) @ map fst (mp_needsHuman p)) = {pp_pr c |c. c \<in> set prs \<and> is_open c}"
    and "mp_baseBranch p = trunk"
proof -
  obtain L7 L8 where k: "stack_facts trunk (sort_key pp_pr prs) (place_rows trunk (sort_key pp_pr prs))"
    "gates_done (place_rows trunk (sort_key pp_pr prs)) L7 L8"
    "p = closed_form trunk (sort_key pp_pr prs) (place_rows trunk (sort_key pp_pr prs)) L7 L8"
    using plan_closed [OF p] by blast
  have o: "map me_pr (mp_order p) = order_numbers (place_rows trunk (sort_key pp_pr prs)) L7"
    unfolding k(3) by (rule closed_form_numbers)
  have w: "mp_needsHuman p = sort_key fst L8" unfolding k(3) by (simp add: closed_form_def)
  show "distinct (map me_pr (mp_order p) @ map fst (mp_needsHuman p))"
    unfolding o w distinct_append needs_numbers(1) [OF k(2)]
    using plan_numbers(2) [OF k(1,2)] order_numbers_distinct [OF k(1)] needs_numbers(2) [OF k(2)] by blast
  show "set (map me_pr (mp_order p) @ map fst (mp_needsHuman p)) = {pp_pr c |c. c \<in> set prs \<and> is_open c}"
    unfolding o w set_append needs_numbers(1) [OF k(2)] using plan_numbers(1) [OF k(1,2)] by simp
  show "mp_baseBranch p = trunk" unfolding k(3) by (simp add: closed_form_def)
qed

text \<open>C6 The plan always comes back, whatever the stack (cycles and doubled numbers included), and disposes of
every open pull request exactly once: the ordered numbers and the withheld ones are distinct and together are
the open ones.\<close>

theorem plan_disposes_all:
  "\<exists>p. planMergeOrder trunk prs = Some p \<and> distinct (map me_pr (mp_order p) @ map fst (mp_needsHuman p))
     \<and> set (map me_pr (mp_order p) @ map fst (mp_needsHuman p)) = {pp_pr c |c. c \<in> set prs \<and> is_open c}"
  using plan_exists [of trunk prs] plan_disposes [of trunk prs] by blast

text \<open>Every ordered entry stands for one open row that is not doubled, not truncated and classified
\<open>eligible\<close>; it carries that row's head (when it is a full SHA) and its base, and a merge at depth
zero has the trunk as its base.\<close>

lemma ordered_is_eligible:
  assumes "planMergeOrder trunk prs = Some p" "e \<in> set (mp_order p)"
  shows "\<exists>c. c \<in> set prs \<and> pp_pr c = me_pr e \<and> is_open c \<and> pr_count prs (me_pr e) = 1 \<and> clean c
     \<and> me_baseRefName e = (if pp_base c = trunk then None else Some (pp_base c))
     \<and> me_headSha e = (case pp_sha c of None \<Rightarrow> None | Some s \<Rightarrow> if is_sha40 s then Some s else None)
     \<and> (me_depth e = 0 \<longrightarrow> me_action e = Merge_it \<longrightarrow> pp_base c = trunk)"
proof -
  let ?rows = "sort_key pp_pr prs"
  obtain L7 L8 where k: "stack_facts trunk ?rows (place_rows trunk ?rows)" "gates_done (place_rows trunk ?rows) L7 L8"
    "p = closed_form trunk ?rows (place_rows trunk ?rows) L7 L8"
    using plan_closed [OF assms(1)] by blast
  obtain c where c: "explains trunk ?rows (place_rows trunk ?rows) e c"
    using entry_explained [OF k(1,2)] assms(2) k(3) by blast
  have count: "pr_count ?rows = pr_count prs" by (rule pr_count_mset) simp
  from c have r: "plan_row ?rows (me_pr e) c" "e = entryFor ?rows trunk (pp_pr c) (me_action e) (me_basePr e) (me_depth e)"
    by (auto simp: explains_def plan_row_def)
  have u: "\<not> doubled ?rows c" "c \<in> set ?rows" using r(1) by (auto simp: plan_row_def)
  have e: "me_baseRefName e = (if pp_base c = trunk then None else Some (pp_base c))"
    "me_headSha e = (case pp_sha c of None \<Rightarrow> None | Some s \<Rightarrow> if is_sha40 s then Some s else None)"
    unfolding arg_cong [OF r(2), of me_baseRefName] arg_cong [OF r(2), of me_headSha] entryFor_row [OF u] by simp_all
  have "me_depth e = 0 \<longrightarrow> me_action e = Merge_it \<longrightarrow> pp_base c = trunk" using c by (auto simp: explains_def at_trunk_def)
  then show ?thesis using r(1) u e count by (intro exI [of _ c]) (auto simp: plan_row_def doubled_def)
qed

lemma merge_base_owner:
  assumes "planMergeOrder trunk prs = Some p" "i < length (mp_order p)" "me_action (mp_order p ! i) = Merge_it"
    "c \<in> set prs" "pp_pr c = me_pr (mp_order p ! i)" "pp_base c \<noteq> trunk"
  shows "\<exists>j b. j < i \<and> me_action (mp_order p ! j) = Retarget_self \<and> me_pr (mp_order p ! j) = b
     \<and> me_basePr (mp_order p ! i) = Some b \<and> open_owner (sort_key pp_pr prs) (pp_base c) = Some b"
proof -
  let ?rows = "sort_key pp_pr prs" and ?e = "mp_order p ! i"
  let ?k = "place_rows trunk ?rows"
  obtain L7 L8 where k: "stack_facts trunk ?rows ?k" "gates_done ?k L7 L8" "p = closed_form trunk ?rows ?k L7 L8"
    using plan_closed [OF assms(1)] by blast
  have "?e \<in> set (mp_order (closed_form trunk ?rows ?k L7 L8))" using nth_mem [OF assms(2)] k(3) by simp
  then obtain x where x: "explains trunk ?rows ?k ?e x" using entry_explained [OF k(1,2)] by blast
  then have "x = c" using plan_row_unique [of ?rows "me_pr ?e" x c] assms(4,5) by (simp add: explains_def)
  then obtain b where b: "me_depth ?e = 1" "b \<in> set (sk_retarget ?k)" "stacked_on trunk ?rows c b" "me_basePr ?e = Some b"
    using x assms(3,6) by (auto simp: explains_def at_trunk_def split: if_splits)
  have i: "length (roots_of ?k) \<le> i"
  proof (rule ccontr)
    assume "\<not> length (roots_of ?k) \<le> i"
    then have "?e = root_entry ?rows trunk ?k (roots_of ?k ! i)" unfolding k(3) by (simp add: closed_form_def nth_append)
    then have "me_depth ?e = 0" by (simp add: root_entry_def entryFor_def Let_def)
    then show False using b(1) by simp
  qed
  have "b \<in> set (roots_of ?k)" using b(2) by (simp add: roots_of_def)
  then obtain j where j: "j < length (roots_of ?k)" "roots_of ?k ! j = b" by (auto simp: in_set_conv_nth)
  then have root: "mp_order p ! j = root_entry ?rows trunk ?k b" unfolding k(3) by (simp add: closed_form_def nth_append)
  have act: "me_action (mp_order p ! j) = Retarget_self" "me_pr (mp_order p ! j) = b"
    unfolding root using b(2) by (simp_all add: root_entry_def entryFor_def Let_def)
  show ?thesis using act j(1) i b(3,4) by (intro exI [of _ j] exI [of _ b]) (auto simp: stacked_on_def)
qed

text \<open>C5 No merge is stranded: when no two open pull requests share a head branch, the base of an entry that
merges is the trunk or a branch whose own pull request this pass retargets instead of merging, and that
retargeting comes earlier in the order.\<close>

theorem plan_strands_nothing:
  assumes "planMergeOrder trunk prs = Some p" "i < length (mp_order p)" "me_action (mp_order p ! i) = Merge_it"
    "c \<in> set prs" "pp_pr c = me_pr (mp_order p ! i)" "pp_base c \<noteq> trunk"
    "inj_on pp_head {x \<in> set prs. is_open x}"
  shows "\<exists>j c'. j < i \<and> me_action (mp_order p ! j) = Retarget_self \<and> c' \<in> set prs
     \<and> pp_pr c' = me_pr (mp_order p ! j) \<and> pp_head c' = pp_base c
     \<and> (\<forall>x \<in> set prs. is_open x \<longrightarrow> pp_head x = pp_base c \<longrightarrow> pp_pr x = me_pr (mp_order p ! j))"
proof -
  obtain j b where b: "j < i" "me_action (mp_order p ! j) = Retarget_self" "me_pr (mp_order p ! j) = b"
    "open_owner (sort_key pp_pr prs) (pp_base c) = Some b"
    using merge_base_owner [OF assms(1-6)] by blast
  obtain c' where c': "c' \<in> set prs" "is_open c'" "pp_pr c' = b" "pp_head c' = pp_base c"
    using open_owner_open [OF b(4)] by auto
  have "pp_pr y = b" if "y \<in> set prs" "is_open y" "pp_head y = pp_base c" for y
    using inj_onD [OF assms(7), of y c'] c' that by auto
  then show ?thesis using b c' by (intro exI [of _ j] exI [of _ c']) auto
qed

theorem plan_strands_nothing_witness:
  "\<exists>j c'. j < 2 \<and> me_action (mp_order small_plan ! j) = Retarget_self \<and> c' \<in> set small_stack \<and> pp_head c' = ''b''"
proof -
  have "inj_on pp_head {x \<in> set small_stack. is_open x}"
    by (auto simp: inj_on_def small_stack_def eligible_row_def is_open_def)
  then show ?thesis
    using plan_strands_nothing [OF small_stack_plan, of 2 "eligible_row 3 ''c'' ''b''"]
    by (fastforce simp: small_plan_def small_stack_def eligible_row_def)
qed

text \<open>C7 The plan does not depend on the order of its input: every permutation of the rows, doubled numbers
included, gives the same plan.\<close>

theorem plan_ignores_input_order:
  assumes "mset prs = mset prs'"
  shows "planMergeOrder trunk prs = planMergeOrder trunk prs'"
proof -
  let ?rows = "sort_key pp_pr prs" and ?rows' = "sort_key pp_pr prs'"
  let ?k = "place_rows trunk ?rows"
  have same: "mset ?rows = mset ?rows'" "sorted (map pp_pr ?rows)" "sorted (map pp_pr ?rows')" using assms by simp_all
  have K: "place_rows trunk ?rows' = ?k" using same_stack [OF same] by simp
  obtain L7 L8 where k: "stack_facts trunk ?rows ?k" "gates_done ?k L7 L8"
    "plan_rows trunk ?rows = Some (closed_form trunk ?rows ?k L7 L8)" by (rule plan_rows_closed)
  obtain M7 M8 where k': "gates_done ?k M7 M8" "plan_rows trunk ?rows' = Some (closed_form trunk ?rows' ?k M7 M8)"
    using plan_rows_closed [of trunk ?rows'] unfolding K by metis
  have L: "M7 = L7" "M8 = L8" using k(2) k'(1) unfolding gates_done_def Let_def by auto
  have entry: "entryFor ?rows trunk n a b d = entryFor ?rows' trunk n a b d" if N: "n \<in> set (order_numbers ?k L7)" for n a b d
  proof -
    obtain c where c: "plan_row ?rows n c" using ordered_row [OF k(1,2) N] by blast
    then have u: "\<not> doubled ?rows c" "c \<in> set ?rows" and n: "pp_pr c = n" by (auto simp: plan_row_def)
    have "doubled ?rows' c = doubled ?rows c" "set ?rows' = set ?rows"
      using fun_cong [OF doubled_mset [OF same(1)]] mset_eq_setD [OF same(1)] by blast+
    then have u': "\<not> doubled ?rows' c" "c \<in> set ?rows'" using u by blast+
    show ?thesis using entryFor_row [OF u, of trunk a b d] entryFor_row [OF u', of trunk a b d] unfolding n by (rule trans [OF _ sym])
  qed
  have "root_entry ?rows trunk ?k n = root_entry ?rows' trunk ?k n" if "n \<in> set (roots_of ?k)" for n
    unfolding root_entry_def by (rule entry) (use that in \<open>simp add: order_numbers_def\<close>)
  moreover have "child_entry ?rows trunk r n = child_entry ?rows' trunk r n"
    if "r \<in> set (roots_of ?k)" "n \<in> set (childrenOf (sk_baseOf ?k) L7 r)" for r n
    unfolding child_entry_def by (rule entry) (use that in \<open>auto simp: order_numbers_def\<close>)
  ultimately have "closed_form trunk ?rows ?k L7 L8 = closed_form trunk ?rows' ?k L7 L8"
    by (simp add: closed_form_def cong: map_cong)
  then show ?thesis using k(3) k'(2) L unfolding planMergeOrder_def by simp
qed

theorem plan_ignores_input_order_witness: "planMergeOrder ''main'' (rev small_stack) = Some small_plan"
  using plan_ignores_input_order [of "rev small_stack" small_stack "''main''"] by (simp add: small_stack_plan)

end
