(* ===== verification/Merge_Execute.thy ===== *)
theory Merge_Execute
  imports Merge_Plan
begin

text \<open>
  The executor of a merge plan (\<open>src/ops/merge/executeMerges.ts\<close>) over the \<open>MergeEffects\<close> seam
  (\<open>src/adapters/forge-github/mergeEffects.ts\<close>). The effects are functions of a state of the outside
  world and may throw; every call goes into a trace with its answer. The loop is sequential, so the
  per-base mutexes are never contended and are left out.
\<close>

section \<open>The effects\<close>

record gh_result =
  gh_code :: int
  gh_stdout :: string
  gh_stderr :: string

record head_probe =
  hp_ok :: bool
  hp_sha :: "string option"

record base_probe =
  bp_ok :: bool
  bp_name :: "string option"

text \<open>The one method is \<open>merge\<close>: the type of \<open>mergePr\<close> admits no other. \<open>Inl\<close> is a rejected promise.\<close>

record 'w merge_effects =
  fx_fetchRef :: "string \<Rightarrow> 'w \<Rightarrow> (string + gh_result) \<times> 'w"
  fx_validateRef :: "string \<Rightarrow> 'w \<Rightarrow> (string + head_probe) \<times> 'w"
  fx_readBaseRef :: "pr_no \<Rightarrow> 'w \<Rightarrow> (string + base_probe) \<times> 'w"
  fx_mergePr :: "pr_no \<Rightarrow> string option \<Rightarrow> 'w \<Rightarrow> (string + gh_result) \<times> 'w"
  fx_retargetBase :: "pr_no \<Rightarrow> string \<Rightarrow> 'w \<Rightarrow> (string + gh_result) \<times> 'w"

definition headRefFor :: "pr_no \<Rightarrow> string" where
  "headRefFor n = ''refs/pull/'' @ nat_str n @ ''/head''"

datatype forge_call =
    Fetched pr_no "string + gh_result"
  | Validated pr_no "string + head_probe"
  | Based pr_no "string + base_probe"
  | Merged pr_no "string option" "string + gh_result"
  | Retargeted pr_no string "string + gh_result"

type_synonym 'w forge = "'w \<times> forge_call list"

definition do_fetch :: "'w merge_effects \<Rightarrow> pr_no \<Rightarrow> 'w forge \<Rightarrow> (string + gh_result) \<times> 'w forge" where
  "do_fetch fx n s = (let (a, w) = fx_fetchRef fx (headRefFor n) (fst s) in (a, w, snd s @ [Fetched n a]))"

definition do_validate :: "'w merge_effects \<Rightarrow> pr_no \<Rightarrow> 'w forge \<Rightarrow> (string + head_probe) \<times> 'w forge" where
  "do_validate fx n s = (let (a, w) = fx_validateRef fx (headRefFor n) (fst s) in (a, w, snd s @ [Validated n a]))"

definition do_base :: "'w merge_effects \<Rightarrow> pr_no \<Rightarrow> 'w forge \<Rightarrow> (string + base_probe) \<times> 'w forge" where
  "do_base fx n s = (let (a, w) = fx_readBaseRef fx n (fst s) in (a, w, snd s @ [Based n a]))"

definition do_merge :: "'w merge_effects \<Rightarrow> pr_no \<Rightarrow> string option \<Rightarrow> 'w forge \<Rightarrow> (string + gh_result) \<times> 'w forge" where
  "do_merge fx n pin s = (let (a, w) = fx_mergePr fx n pin (fst s) in (a, w, snd s @ [Merged n pin a]))"

definition do_retarget :: "'w merge_effects \<Rightarrow> pr_no \<Rightarrow> string \<Rightarrow> 'w forge \<Rightarrow> (string + gh_result) \<times> 'w forge" where
  "do_retarget fx n b s = (let (a, w) = fx_retargetBase fx n b (fst s) in (a, w, snd s @ [Retargeted n b a]))"

section \<open>Outcomes and report\<close>

text \<open>The details of the report, with the values their messages quote; the phase tells the revalidation before an
action from the one between two attempts.\<close>

datatype check_phase = Before_action | Between_attempts

datatype exec_failure =
    Sweep_fetch_threw pr_no string | Sweep_validate_threw pr_no string
  | Fetch_threw check_phase string | Fetch_refused check_phase gh_result
  | Validate_threw check_phase string | Base_threw check_phase string | Base_unavailable check_phase
  | Merge_threw string | Merge_refused gh_result
  | Retarget_threw string | Retarget_refused gh_result

datatype head_drift =
    Gone_at_start | Head_gone check_phase string | Head_moved check_phase string string
  | Base_moved check_phase string string

datatype merge_outcome = Merged_out | Retargeted_out | Stale_out head_drift | Failed_out exec_failure

record exec_report =
  er_merged :: "pr_no list"
  er_retargeted :: "pr_no list"
  er_stale :: "(pr_no \<times> head_drift) list"
  er_failed :: "(pr_no \<times> exec_failure) list"
  er_blocked :: "pr_no list"

definition empty_report :: exec_report where
  "empty_report = \<lparr>er_merged = [], er_retargeted = [], er_stale = [], er_failed = [], er_blocked = []\<rparr>"

section \<open>One action\<close>

definition RETRYABLE_MERGE_FAILURE :: "string \<Rightarrow> bool" where
  "RETRYABLE_MERGE_FAILURE s = list_ex (\<lambda>i. starts_ci ''base branch was modified'' (drop i s)) [0..<Suc (length s)]"

text \<open>Fetch, then validate: \<open>None\<close> when the live head is the expected one.\<close>

definition check_head ::
  "check_phase \<Rightarrow> 'w merge_effects \<Rightarrow> pr_no \<Rightarrow> string \<Rightarrow> 'w forge \<Rightarrow> merge_outcome option \<times> 'w forge" where
  "check_head ph fx n sha s =
     (case do_fetch fx n s of
        (Inl e, s1) \<Rightarrow> (Some (Failed_out (Fetch_threw ph e)), s1)
      | (Inr g, s1) \<Rightarrow>
          if gh_code g \<noteq> 0 then (Some (Failed_out (Fetch_refused ph g)), s1)
          else case do_validate fx n s1 of
            (Inl e, s2) \<Rightarrow> (Some (Failed_out (Validate_threw ph e)), s2)
          | (Inr p, s2) \<Rightarrow>
              (case hp_sha p of
                 None \<Rightarrow> (Some (Stale_out (Head_gone ph sha)), s2)
               | Some live \<Rightarrow>
                   if \<not> hp_ok p then (Some (Stale_out (Head_gone ph sha)), s2)
                   else if map lower live \<noteq> map lower sha then (Some (Stale_out (Head_moved ph sha live)), s2)
                   else (None, s2)))"

definition check_base ::
  "check_phase \<Rightarrow> 'w merge_effects \<Rightarrow> pr_no \<Rightarrow> string \<Rightarrow> 'w forge \<Rightarrow> merge_outcome option \<times> 'w forge" where
  "check_base ph fx n base s =
     (case do_base fx n s of
        (Inl e, s1) \<Rightarrow> (Some (Failed_out (Base_threw ph e)), s1)
      | (Inr p, s1) \<Rightarrow>
          (case bp_name p of
             None \<Rightarrow> (Some (Failed_out (Base_unavailable ph)), s1)
           | Some b \<Rightarrow>
               if \<not> bp_ok p \<or> b = [] then (Some (Failed_out (Base_unavailable ph)), s1)
               else if b \<noteq> base then (Some (Stale_out (Base_moved ph base b)), s1)
               else (None, s1)))"

definition pin_of :: "string \<Rightarrow> string option" where
  "pin_of sha = (if is_sha40 sha then Some sha else None)"

text \<open>\<open>left\<close> counts the retries that remain: \<open>maxRetries - attempt\<close>.\<close>

fun mergeWithRetry ::
  "'w merge_effects \<Rightarrow> nat \<Rightarrow> pr_no \<Rightarrow> string \<Rightarrow> string \<Rightarrow> 'w forge \<Rightarrow> merge_outcome \<times> 'w forge" where
  "mergeWithRetry fx left n sha base s =
     (case do_merge fx n (pin_of sha) s of
        (Inl e, s1) \<Rightarrow> (Failed_out (Merge_threw e), s1)
      | (Inr g, s1) \<Rightarrow>
          if gh_code g = 0 then (Merged_out, s1)
          else if \<not> RETRYABLE_MERGE_FAILURE (gh_stderr g) \<or> left = 0 then (Failed_out (Merge_refused g), s1)
          else (case check_head Between_attempts fx n sha s1 of
              (Some out, s2) \<Rightarrow> (out, s2)
            | (None, s2) \<Rightarrow>
                (case check_base Between_attempts fx n base s2 of
                   (Some out, s3) \<Rightarrow> (out, s3)
                 | (None, s3) \<Rightarrow> mergeWithRetry fx (left - 1) n sha base s3)))"

declare mergeWithRetry.simps [simp del]

definition retargetOnce :: "'w merge_effects \<Rightarrow> pr_no \<Rightarrow> string \<Rightarrow> 'w forge \<Rightarrow> merge_outcome \<times> 'w forge" where
  "retargetOnce fx n newBase s =
     (case do_retarget fx n newBase s of
        (Inl e, s1) \<Rightarrow> (Failed_out (Retarget_threw e), s1)
      | (Inr g, s1) \<Rightarrow> if gh_code g = 0 then (Retargeted_out, s1) else (Failed_out (Retarget_refused g), s1))"

definition expected_base :: "string \<Rightarrow> merge_entry \<Rightarrow> string" where
  "expected_base trunk e = (case me_baseRefName e of None \<Rightarrow> trunk | Some b \<Rightarrow> b)"

definition runAction ::
  "'w merge_effects \<Rightarrow> string \<Rightarrow> nat \<Rightarrow> merge_entry \<Rightarrow> string \<Rightarrow> 'w forge \<Rightarrow> merge_outcome \<times> 'w forge" where
  "runAction fx trunk maxRetries e sha s =
     (case check_head Before_action fx (me_pr e) sha s of
        (Some out, s1) \<Rightarrow> (out, s1)
      | (None, s1) \<Rightarrow>
          if me_action e = Retarget_self then retargetOnce fx (me_pr e) trunk s1
          else (case check_base Before_action fx (me_pr e) (expected_base trunk e) s1 of
              (Some out, s2) \<Rightarrow> (out, s2)
            | (None, s2) \<Rightarrow> mergeWithRetry fx maxRetries (me_pr e) sha (expected_base trunk e) s2))"

section \<open>The run\<close>

record exec_state =
  ex_report :: exec_report
  ex_withheld :: "pr_no set"

definition fileOutcome :: "pr_no \<Rightarrow> merge_outcome \<Rightarrow> exec_state \<Rightarrow> exec_state" where
  "fileOutcome n out x =
     (case out of
        Merged_out \<Rightarrow> x\<lparr>ex_report := (ex_report x)\<lparr>er_merged := er_merged (ex_report x) @ [n]\<rparr>\<rparr>
      | Retargeted_out \<Rightarrow> x\<lparr>ex_report := (ex_report x)\<lparr>er_retargeted := er_retargeted (ex_report x) @ [n]\<rparr>\<rparr>
      | Stale_out d \<Rightarrow> x\<lparr>ex_report := (ex_report x)\<lparr>er_stale := er_stale (ex_report x) @ [(n, d)]\<rparr>,
                        ex_withheld := insert n (ex_withheld x)\<rparr>
      | Failed_out f \<Rightarrow> x\<lparr>ex_report := (ex_report x)\<lparr>er_failed := er_failed (ex_report x) @ [(n, f)]\<rparr>,
                         ex_withheld := insert n (ex_withheld x)\<rparr>)"

definition blockEntry :: "pr_no \<Rightarrow> exec_state \<Rightarrow> exec_state" where
  "blockEntry n x = x\<lparr>ex_report := (ex_report x)\<lparr>er_blocked := er_blocked (ex_report x) @ [n]\<rparr>,
     ex_withheld := insert n (ex_withheld x)\<rparr>"

text \<open>The two sweeps: \<open>Inl\<close> is the throw that fails the run wholesale.\<close>

fun fetch_sweep :: "'w merge_effects \<Rightarrow> merge_entry list \<Rightarrow> 'w forge \<Rightarrow> (exec_failure + unit) \<times> 'w forge" where
  "fetch_sweep fx [] s = (Inr (), s)"
| "fetch_sweep fx (e # es) s =
     (case do_fetch fx (me_pr e) s of
        (Inl m, s1) \<Rightarrow> (Inl (Sweep_fetch_threw (me_pr e) m), s1)
      | (Inr _, s1) \<Rightarrow> fetch_sweep fx es s1)"

fun validate_sweep :: "'w merge_effects \<Rightarrow> merge_entry list \<Rightarrow> (pr_no, string option) omap \<Rightarrow> 'w forge
    \<Rightarrow> (exec_failure + (pr_no, string option) omap) \<times> 'w forge" where
  "validate_sweep fx [] m s = (Inr m, s)"
| "validate_sweep fx (e # es) m s =
     (case do_validate fx (me_pr e) s of
        (Inl msg, s1) \<Rightarrow> (Inl (Sweep_validate_threw (me_pr e) msg), s1)
      | (Inr p, s1) \<Rightarrow> validate_sweep fx es (omap_set (me_pr e) (if hp_ok p then hp_sha p else None) m) s1)"

definition expected_sha :: "merge_entry \<Rightarrow> string \<Rightarrow> string" where
  "expected_sha e baselineSha =
     (case me_headSha e of
        None \<Rightarrow> baselineSha
      | Some h \<Rightarrow> if me_action e = Merge_it \<and> is_sha40 h then h else baselineSha)"

text \<open>One turn of the loop: blocked by an ancestor, gone at the start, or run under its expected head.\<close>

definition exec_entry :: "'w merge_effects \<Rightarrow> string \<Rightarrow> nat \<Rightarrow> (pr_no, string option) omap \<Rightarrow> merge_entry
    \<Rightarrow> exec_state \<Rightarrow> 'w forge \<Rightarrow> exec_state \<times> 'w forge" where
  "exec_entry fx trunk r m e x s =
     (if (case me_basePr e of None \<Rightarrow> False | Some b \<Rightarrow> b \<in> ex_withheld x) then (blockEntry (me_pr e) x, s)
      else case Option.bind (map_of m (me_pr e)) id of
        None \<Rightarrow> (fileOutcome (me_pr e) (Stale_out Gone_at_start) x, s)
      | Some baselineSha \<Rightarrow>
          (case runAction fx trunk r e (expected_sha e baselineSha) s of (out, s1) \<Rightarrow> (fileOutcome (me_pr e) out x, s1)))"

fun exec_loop :: "'w merge_effects \<Rightarrow> string \<Rightarrow> nat \<Rightarrow> (pr_no, string option) omap \<Rightarrow> merge_entry list
    \<Rightarrow> exec_state \<Rightarrow> 'w forge \<Rightarrow> exec_state \<times> 'w forge" where
  "exec_loop fx trunk r m [] x s = (x, s)"
| "exec_loop fx trunk r m (e # es) x s =
     (case exec_entry fx trunk r m e x s of (x1, s1) \<Rightarrow> exec_loop fx trunk r m es x1 s1)"

definition failWholesale :: "merge_entry list \<Rightarrow> exec_failure \<Rightarrow> exec_report" where
  "failWholesale es f = empty_report\<lparr>er_failed := map (\<lambda>e. (me_pr e, f)) es\<rparr>"

definition DEFAULT_MAX_RETRIES :: int where "DEFAULT_MAX_RETRIES = 3"

definition MAX_SAFE_INTEGER :: int where "MAX_SAFE_INTEGER = 2 ^ 53 - 1"

datatype exec_error = Max_retries_out_of_range int

definition executeMerges :: "'w merge_effects \<Rightarrow> merge_plan \<Rightarrow> int option \<Rightarrow> 'w \<Rightarrow> exec_error + exec_report \<times> 'w forge" where
  "executeMerges fx plan maxRetries w =
     (let r = (case maxRetries of None \<Rightarrow> DEFAULT_MAX_RETRIES | Some k \<Rightarrow> k)
      in if r < 0 \<or> r > MAX_SAFE_INTEGER then throw (Max_retries_out_of_range r)
         else ok (case fetch_sweep fx (mp_order plan) (w, []) of
             (Inl f, s) \<Rightarrow> (failWholesale (mp_order plan) f, s)
           | (Inr _, s) \<Rightarrow>
               (case validate_sweep fx (mp_order plan) [] s of
                  (Inl f, s1) \<Rightarrow> (failWholesale (mp_order plan) f, s1)
                | (Inr m, s1) \<Rightarrow>
                    (case exec_loop fx (mp_baseBranch plan) (nat r) m (mp_order plan)
                            \<lparr>ex_report = empty_report, ex_withheld = {}\<rparr> s1 of
                       (x, s2) \<Rightarrow> (ex_report x, s2)))))"

end
