(* ===== verification/Merge_Execute_Laws.thy ===== *)
theory Merge_Execute_Laws
  imports Merge_Execute
begin

text \<open>
  The trace and the report of a merge run. A law on traces says of every call what must have come before it;
  the calls that only read are lawful anywhere, so the law of a run rests on its merges and base edits
  alone. The report is shown against the trace.
\<close>

section \<open>Laws on traces\<close>

definition lawful :: "('c list \<Rightarrow> 'c \<Rightarrow> bool) \<Rightarrow> 'c list \<Rightarrow> bool" where
  "lawful L cs \<longleftrightarrow> (\<forall>as c bs. cs = as @ c # bs \<longrightarrow> L as c)"

lemma lawful_Nil [simp]: "lawful L []"
  by (simp add: lawful_def)

lemma lawful_snoc [simp]: "lawful L (cs @ [c]) \<longleftrightarrow> lawful L cs \<and> L cs c"
proof
  assume a: "lawful L (cs @ [c])"
  show "lawful L cs \<and> L cs c"
    unfolding lawful_def
  proof (intro conjI allI impI)
    fix as d bs assume "cs = as @ d # bs"
    then have "cs @ [c] = as @ d # (bs @ [c])" by simp
    then show "L as d" using a unfolding lawful_def by blast
  next
    have "cs @ [c] = cs @ c # []" by simp
    then show "L cs c" using a unfolding lawful_def by blast
  qed
next
  assume a: "lawful L cs \<and> L cs c"
  show "lawful L (cs @ [c])"
    unfolding lawful_def
  proof (intro allI impI)
    fix as d bs assume "cs @ [c] = as @ d # bs"
    then show "L as d" using a unfolding lawful_def by (cases bs rule: rev_cases) auto
  qed
qed

fun reads :: "forge_call \<Rightarrow> bool" where
  "reads (Merged _ _ _) = False"
| "reads (Retargeted _ _ _) = False"
| "reads _ = True"

lemma do_trace:
  "do_fetch fx n s = (a, s1) \<Longrightarrow> snd s1 = snd s @ [Fetched n a]"
  "do_validate fx n s = (b, s1) \<Longrightarrow> snd s1 = snd s @ [Validated n b]"
  "do_base fx n s = (c, s1) \<Longrightarrow> snd s1 = snd s @ [Based n c]"
  "do_merge fx n pin s = (d, s1) \<Longrightarrow> snd s1 = snd s @ [Merged n pin d]"
  "do_retarget fx n t s = (e, s1) \<Longrightarrow> snd s1 = snd s @ [Retargeted n t e]"
  by (auto simp: do_fetch_def do_validate_def do_base_def do_merge_def do_retarget_def split: prod.splits)

section \<open>What the checks establish\<close>

text \<open>The trace ends with the answers that confirm the head, or the head and the base.\<close>

definition head_confirmed :: "pr_no \<Rightarrow> string \<Rightarrow> forge_call list \<Rightarrow> bool" where
  "head_confirmed n sha cs \<longleftrightarrow> (\<exists>as g p live. cs = as @ [Fetched n (Inr g), Validated n (Inr p)] \<and> gh_code g = 0
     \<and> hp_ok p \<and> hp_sha p = Some live \<and> map lower live = map lower sha)"

definition confirmed :: "pr_no \<Rightarrow> string \<Rightarrow> string \<Rightarrow> forge_call list \<Rightarrow> bool" where
  "confirmed n sha base cs \<longleftrightarrow> (\<exists>as p. cs = as @ [Based n (Inr p)] \<and> head_confirmed n sha as \<and> bp_ok p \<and> bp_name p = Some base)"

fun holds_back :: "merge_outcome \<Rightarrow> bool" where
  "holds_back (Stale_out _) = True"
| "holds_back (Failed_out _) = True"
| "holds_back _ = False"

lemma check_head_laws:
  assumes "check_head ph fx n sha s = (r, s1)"
  shows "\<exists>ts. snd s1 = snd s @ ts \<and> (\<forall>c \<in> set ts. reads c)"
    and "r = None \<Longrightarrow> head_confirmed n sha (snd s1)" and "r = Some out \<Longrightarrow> holds_back out"
  using assms
  by (auto simp: check_head_def head_confirmed_def dest!: do_trace split: prod.splits sum.splits option.splits if_splits)

lemma check_base_laws:
  assumes "check_base ph fx n base s = (r, s1)"
  shows "\<exists>ts. snd s1 = snd s @ ts \<and> (\<forall>c \<in> set ts. reads c)"
    and "r = None \<Longrightarrow> head_confirmed n sha (snd s) \<Longrightarrow> confirmed n sha base (snd s1)" and "r = Some out \<Longrightarrow> holds_back out"
  using assms
  by (auto simp: check_base_def confirmed_def dest!: do_trace split: prod.splits sum.splits option.splits if_splits)

text \<open>The interface of a law of the run: reading is always allowed.\<close>

locale read_law =
  fixes L :: "forge_call list \<Rightarrow> forge_call \<Rightarrow> bool"
  assumes reading: "reads c \<Longrightarrow> L cs c"
begin

lemma lawful_reads: "lawful L cs \<Longrightarrow> \<forall>c \<in> set ts. reads c \<Longrightarrow> lawful L (cs @ ts)"
proof (induction ts rule: rev_induct)
  case (snoc t ts)
  then have "lawful L ((cs @ ts) @ [t])" by (subst lawful_snoc) (simp add: reading)
  then show ?case by simp
qed simp

lemma check_lawful:
  "check_head ph fx n sha s = (r, s1) \<Longrightarrow> lawful L (snd s) \<Longrightarrow> lawful L (snd s1)"
  "check_base ph fx n base s = (r', s1) \<Longrightarrow> lawful L (snd s) \<Longrightarrow> lawful L (snd s1)"
  using check_head_laws(1) check_base_laws(1) lawful_reads by metis+

text \<open>\<open>G\<close> is what the law asks of the past beside the confirmation, and does not lose by reading and merging.\<close>

lemma merge_lawful:
  assumes merging: "\<And>cs a. confirmed n sha base cs \<Longrightarrow> G cs \<Longrightarrow> L cs (Merged n (pin_of sha) a)"
    and grows: "\<And>cs ts. G cs \<Longrightarrow> G (cs @ ts)"
  shows "confirmed n sha base (snd s) \<Longrightarrow> G (snd s) \<Longrightarrow> lawful L (snd s)
     \<Longrightarrow> mergeWithRetry fx left n sha base s = (out, s') \<Longrightarrow> lawful L (snd s')"
proof (induction left arbitrary: s rule: less_induct)
  case (less left)
  obtain d s1 where d: "do_merge fx n (pin_of sha) s = (d, s1)" by (metis surj_pair)
  have t1: "snd s1 = snd s @ [Merged n (pin_of sha) d]" by (rule do_trace(4) [OF d])
  have l1: "lawful L (snd s1)" unfolding t1 lawful_snoc using less.prems merging by blast
  obtain r s2 where r: "check_head Between_attempts fx n sha s1 = (r, s2)" by (metis surj_pair)
  obtain r' s3 where r': "check_base Between_attempts fx n base s2 = (r', s3)" by (metis surj_pair)
  have l2: "lawful L (snd s2)" by (rule check_lawful(1) [OF r l1])
  have l3: "lawful L (snd s3)" by (rule check_lawful(2) [OF r' l2])
  have g3: "G (snd s3)"
    using check_head_laws(1) [OF r] check_base_laws(1) [OF r'] grows less.prems(2) t1 by (metis append.assoc)
  have c3: "r = None \<Longrightarrow> r' = None \<Longrightarrow> confirmed n sha base (snd s3)"
    using check_base_laws(2) [OF r'] check_head_laws(2) [OF r] by blast
  show ?case
    using less.prems(4) l1 l2 l3 less.IH [of "left - 1" s3] c3 g3
    by (subst (asm) mergeWithRetry.simps) (auto simp: d r r' split: sum.splits if_splits option.splits)
qed

end

section \<open>The law of a merge run\<close>

definition succeeded :: "string + gh_result \<Rightarrow> bool" where
  "succeeded a \<longleftrightarrow> (case a of Inl _ \<Rightarrow> False | Inr g \<Rightarrow> gh_code g = 0)"

definition landed :: "pr_no \<Rightarrow> forge_call list \<Rightarrow> bool" where
  "landed n cs \<longleftrightarrow> (\<exists>pin a. Merged n pin a \<in> set cs \<and> succeeded a)"

definition moved :: "pr_no \<Rightarrow> forge_call list \<Rightarrow> bool" where
  "moved n cs \<longleftrightarrow> (\<exists>b a. Retargeted n b a \<in> set cs \<and> succeeded a)"

text \<open>The base of an entry, when the order has it before the entry, was merged or retargeted before.\<close>

definition base_went :: "merge_entry list \<Rightarrow> merge_entry \<Rightarrow> forge_call list \<Rightarrow> bool" where
  "base_went es e cs \<longleftrightarrow> (\<forall>b. me_basePr e = Some b \<longrightarrow> b \<in> me_pr ` set es \<longrightarrow> landed b cs \<or> moved b cs)"

definition pinned :: "merge_entry \<Rightarrow> string \<Rightarrow> bool" where
  "pinned e sha \<longleftrightarrow> (\<forall>h. me_action e = Merge_it \<longrightarrow> me_headSha e = Some h \<longrightarrow> is_sha40 h \<longrightarrow> sha = h)"

fun run_law :: "string \<Rightarrow> merge_entry list \<Rightarrow> forge_call list \<Rightarrow> forge_call \<Rightarrow> bool" where
  "run_law trunk order cs (Merged n pin a) \<longleftrightarrow>
     (\<exists>es e es' sha. order = es @ e # es' \<and> me_pr e = n \<and> me_action e = Merge_it
        \<and> confirmed n sha (expected_base trunk e) cs \<and> pin = pin_of sha \<and> pinned e sha \<and> base_went es e cs)"
| "run_law trunk order cs (Retargeted n b a) \<longleftrightarrow>
     (\<exists>es e es' sha. order = es @ e # es' \<and> me_pr e = n \<and> me_action e = Retarget_self
        \<and> head_confirmed n sha cs \<and> b = trunk \<and> base_went es e cs)"
| "run_law trunk order cs c \<longleftrightarrow> True"

interpretation run: read_law "run_law trunk order"
proof
  fix c cs assume "reads c"
  then show "run_law trunk order cs c" by (cases c) auto
qed

lemma base_went_grows: "base_went es e cs \<Longrightarrow> base_went es e (cs @ ts)"
  unfolding base_went_def landed_def moved_def set_append by blast

lemma pinned_expected: "pinned e (expected_sha e baselineSha)"
  by (simp add: pinned_def expected_sha_def)

lemma action_lawful:
  assumes e: "order = es @ e # es'" and b: "base_went es e (snd s)" and p: "pinned e sha"
    and L: "lawful (run_law trunk order) (snd s)" and a: "runAction fx trunk r e sha s = (out, s')"
  shows "lawful (run_law trunk order) (snd s')"
proof -
  obtain r1 s1 where h: "check_head Before_action fx (me_pr e) sha s = (r1, s1)" by (metis surj_pair)
  obtain r2 s2 where bs: "check_base Before_action fx (me_pr e) (expected_base trunk e) s1 = (r2, s2)" by (metis surj_pair)
  have l1: "lawful (run_law trunk order) (snd s1)" by (rule run.check_lawful(1) [OF h L])
  have l2: "lawful (run_law trunk order) (snd s2)" by (rule run.check_lawful(2) [OF bs l1])
  have b1: "base_went es e (snd s1)" using check_head_laws(1) [OF h] base_went_grows [OF b] by metis
  have b2: "base_went es e (snd s2)" using check_base_laws(1) [OF bs] base_went_grows [OF b1] by metis
  show ?thesis
  proof (cases r1)
    case (Some o1)
    then show ?thesis using a h l1 by (simp add: runAction_def)
  next
    case r1: None
    then have c1: "head_confirmed (me_pr e) sha (snd s1)" by (rule check_head_laws(2) [OF h])
    show ?thesis
    proof (cases "me_action e")
      case Retarget_self
      obtain d s3 where d: "do_retarget fx (me_pr e) trunk s1 = (d, s3)" by (metis surj_pair)
      have "run_law trunk order (snd s1) (Retargeted (me_pr e) trunk d)"
        using e c1 b1 Retarget_self by auto
      then have "lawful (run_law trunk order) (snd s3)" unfolding do_trace(5) [OF d] lawful_snoc using l1 by blast
      then show ?thesis using a h r1 Retarget_self d
        by (auto simp: runAction_def retargetOnce_def split: sum.splits if_splits)
    next
      case Merge_it
      show ?thesis
      proof (cases r2)
        case (Some o2)
        then show ?thesis using a h r1 bs l2 Merge_it by (simp add: runAction_def)
      next
        case r2: None
        have c2: "confirmed (me_pr e) sha (expected_base trunk e) (snd s2)" by (rule check_base_laws(2) [OF bs r2 c1])
        have m: "mergeWithRetry fx r (me_pr e) sha (expected_base trunk e) s2 = (out, s')"
          using a h r1 bs r2 Merge_it by (simp add: runAction_def)
        show ?thesis
          by (rule run.merge_lawful [where G = "base_went es e", OF _ base_went_grows c2 b2 l2 m])
            (use e Merge_it p in \<open>auto\<close>)
      qed
    qed
  qed
qed

section \<open>What an outcome says of the trace\<close>

definition merges :: "pr_no \<Rightarrow> forge_call list \<Rightarrow> nat" where
  "merges n cs = length (filter (\<lambda>c. case c of Merged k _ _ \<Rightarrow> k = n | _ \<Rightarrow> False) cs)"

lemma marks_snoc [simp]:
  "landed k (cs @ [Merged n pin a]) \<longleftrightarrow> landed k cs \<or> k = n \<and> succeeded a"
  "moved k (cs @ [Merged n pin a]) \<longleftrightarrow> moved k cs"
  "landed k (cs @ [Retargeted n b a]) \<longleftrightarrow> landed k cs"
  "moved k (cs @ [Retargeted n b a]) \<longleftrightarrow> moved k cs \<or> k = n \<and> succeeded a"
  "merges k (cs @ [Merged n pin a]) = merges k cs + (if k = n then 1 else 0)"
  "merges k (cs @ [Retargeted n b a]) = merges k cs"
  by (auto simp: landed_def moved_def merges_def)

lemma marks_Nil [simp]: "\<not> landed n []" "\<not> moved n []" "merges n [] = 0"
  by (simp_all add: landed_def moved_def merges_def)

lemma marks_reads:
  assumes "\<exists>ts. cs' = cs @ ts \<and> (\<forall>c \<in> set ts. reads c)"
  shows "landed k cs' \<longleftrightarrow> landed k cs" "moved k cs' \<longleftrightarrow> moved k cs" "merges k cs' = merges k cs"
  using assms by (fastforce simp: landed_def moved_def merges_def filter_empty_conv split: forge_call.splits)+

lemmas check_marks = check_head_laws(1) [THEN marks_reads(1)] check_head_laws(1) [THEN marks_reads(2)]
  check_head_laws(1) [THEN marks_reads(3)] check_base_laws(1) [THEN marks_reads(1)]
  check_base_laws(1) [THEN marks_reads(2)] check_base_laws(1) [THEN marks_reads(3)]

text \<open>What an action has done to the pull request \<open>n\<close> and to no other.\<close>

definition marked :: "pr_no \<Rightarrow> nat \<Rightarrow> merge_outcome \<Rightarrow> forge_call list \<Rightarrow> forge_call list \<Rightarrow> bool" where
  "marked n bound out cs cs' \<longleftrightarrow>
     (\<forall>k. landed k cs' \<longleftrightarrow> landed k cs \<or> k = n \<and> out = Merged_out) \<and>
     (\<forall>k. moved k cs' \<longleftrightarrow> moved k cs \<or> k = n \<and> out = Retargeted_out) \<and>
     (\<forall>k. merges k cs' \<le> merges k cs + (if k = n then bound else 0))"

lemma marked_refl: "holds_back out \<Longrightarrow> marked n b out cs cs"
  by (cases out) (simp_all add: marked_def)

lemma merge_marked:
  "mergeWithRetry fx left n sha base s = (out, s') \<Longrightarrow> marked n (left + 1) out (snd s) (snd s')"
proof (induction left arbitrary: s rule: less_induct)
  case (less left)
  obtain d s1 where d: "do_merge fx n (pin_of sha) s = (d, s1)" by (metis surj_pair)
  note t1 = do_trace(4) [OF d]
  obtain r s2 where r: "check_head Between_attempts fx n sha s1 = (r, s2)" by (metis surj_pair)
  obtain r' s3 where r': "check_base Between_attempts fx n base s2 = (r', s3)" by (metis surj_pair)
  note same = check_marks(1-3) [OF r] check_marks(4-6) [OF r'] check_head_laws(3) [OF r] check_base_laws(3) [OF r']
  show ?case
  proof (cases "\<exists>g. d = Inr g \<and> gh_code g \<noteq> 0 \<and> RETRYABLE_MERGE_FAILURE (gh_stderr g) \<and> left \<noteq> 0 \<and> r = None \<and> r' = None")
    case True
    then have "mergeWithRetry fx (left - 1) n sha base s3 = (out, s')" "left - 1 < left" "\<not> succeeded d"
      using less.prems by (subst (asm) mergeWithRetry.simps, force simp: d r r' succeeded_def)+
    with less.IH [of "left - 1" s3] show ?thesis
      using True by (auto simp: marked_def same t1 split: if_splits)
  next
    case False
    then show ?thesis
      using less.prems same t1
      by (subst (asm) mergeWithRetry.simps)
        (auto simp: d r r' marked_def succeeded_def split: sum.splits if_splits option.splits)
  qed
qed

lemma marked_via:
  assumes "marked n b out cs1 cs2" "\<And>k. landed k cs1 \<longleftrightarrow> landed k cs" "\<And>k. moved k cs1 \<longleftrightarrow> moved k cs"
    "\<And>k. merges k cs1 = merges k cs"
  shows "marked n b out cs cs2"
  using assms by (simp add: marked_def)

lemma retarget_marked:
  assumes "retargetOnce fx n b s = (out, s')"
  shows "marked n bound out (snd s) (snd s')"
proof -
  obtain d s1 where d: "do_retarget fx n b s = (d, s1)" by (metis surj_pair)
  note t1 = do_trace(5) [OF d]
  have "s' = s1" "out = Retargeted_out \<longleftrightarrow> succeeded d" "out \<noteq> Merged_out"
    using assms by (auto simp: retargetOnce_def d succeeded_def split: sum.splits if_splits)
  then show ?thesis by (simp add: marked_def t1)
qed

lemma action_marked:
  assumes "runAction fx trunk r e sha s = (out, s')"
  shows "marked (me_pr e) (r + 1) out (snd s) (snd s')"
proof -
  obtain r1 s1 where h: "check_head Before_action fx (me_pr e) sha s = (r1, s1)" by (metis surj_pair)
  obtain r2 s2 where bs: "check_base Before_action fx (me_pr e) (expected_base trunk e) s1 = (r2, s2)" by (metis surj_pair)
  note same1 = check_marks(1-3) [OF h]
  have same2: "\<And>k. landed k (snd s2) \<longleftrightarrow> landed k (snd s)" "\<And>k. moved k (snd s2) \<longleftrightarrow> moved k (snd s)"
    "\<And>k. merges k (snd s2) = merges k (snd s)"
    using check_marks(4-6) [OF bs] same1 by simp_all
  have run: "(out, s') = (case r1 of
      Some o1 \<Rightarrow> (o1, s1)
    | None \<Rightarrow> if me_action e = Retarget_self then retargetOnce fx (me_pr e) trunk s1
        else (case r2 of Some o2 \<Rightarrow> (o2, s2) | None \<Rightarrow> mergeWithRetry fx r (me_pr e) sha (expected_base trunk e) s2))"
    unfolding assms [symmetric] runAction_def h bs prod.case by (rule refl)
  show ?thesis
  proof (cases r1)
    case (Some o1)
    then have "out = o1" "s' = s1" using run by simp_all
    then show ?thesis using marked_via [OF marked_refl same1] check_head_laws(3) [OF h Some] by simp
  next
    case r1: None
    show ?thesis
    proof (cases "me_action e")
      case Retarget_self
      then have "retargetOnce fx (me_pr e) trunk s1 = (out, s')" using run r1 by simp
      from marked_via [OF retarget_marked [OF this] same1] show ?thesis .
    next
      case Merge_it
      show ?thesis
      proof (cases r2)
        case (Some o2)
        then have "out = o2" "s' = s2" using run r1 Merge_it by simp_all
        then show ?thesis using marked_via [OF marked_refl same2] check_base_laws(3) [OF bs Some] by simp
      next
        case None
        then have "mergeWithRetry fx r (me_pr e) sha (expected_base trunk e) s2 = (out, s')" using run r1 Merge_it by simp
        from marked_via [OF merge_marked [OF this] same2] show ?thesis .
      qed
    qed
  qed
qed

section \<open>The invariant of the loop\<close>

definition buckets :: "exec_report \<Rightarrow> pr_no list" where
  "buckets p = er_merged p @ er_retargeted p @ map fst (er_stale p) @ map fst (er_failed p) @ er_blocked p"

definition exec_inv :: "string \<Rightarrow> merge_entry list \<Rightarrow> nat \<Rightarrow> merge_entry list \<Rightarrow> exec_state \<Rightarrow> forge_call list \<Rightarrow> bool" where
  "exec_inv trunk order r es x cs \<longleftrightarrow>
     lawful (run_law trunk order) cs \<and> mset (buckets (ex_report x)) = mset (map me_pr es) \<and>
     ex_withheld x = set (map fst (er_stale (ex_report x)) @ map fst (er_failed (ex_report x)) @ er_blocked (ex_report x)) \<and>
     (\<forall>n. landed n cs \<longleftrightarrow> n \<in> set (er_merged (ex_report x))) \<and>
     (\<forall>n. moved n cs \<longleftrightarrow> n \<in> set (er_retargeted (ex_report x))) \<and>
     (\<forall>n. merges n cs \<le> (r + 1) * count_list (map me_pr es) n)"

lemma base_not_withheld:
  assumes "exec_inv trunk order r es x cs" "\<not> (case me_basePr e of None \<Rightarrow> False | Some b \<Rightarrow> b \<in> ex_withheld x)"
  shows "base_went es e cs"
proof -
  have "set (buckets (ex_report x)) = me_pr ` set es"
    using assms(1) unfolding exec_inv_def by (metis mset_eq_setD set_map)
  then show ?thesis
    using assms unfolding base_went_def exec_inv_def buckets_def by (auto split: option.splits)
qed

lemma file_inv:
  assumes "exec_inv trunk order r es x cs" "marked (me_pr e) (r + 1) out cs cs'" "lawful (run_law trunk order) cs'"
  shows "exec_inv trunk order r (es @ [e]) (fileOutcome (me_pr e) out x) cs'"
proof (cases out)
  case Merged_out
  then show ?thesis using assms by (auto simp: exec_inv_def fileOutcome_def marked_def buckets_def add_mult_distrib2 intro: order_trans)
qed (use assms in \<open>auto simp: exec_inv_def fileOutcome_def marked_def buckets_def add_mult_distrib2 intro: order_trans\<close>)

lemma block_inv:
  assumes "exec_inv trunk order r es x cs"
  shows "exec_inv trunk order r (es @ [e]) (blockEntry (me_pr e) x) cs"
  using assms by (auto simp: exec_inv_def blockEntry_def buckets_def intro: order_trans)

lemma entry_inv:
  assumes I: "exec_inv trunk order r es x (snd s)" and e: "order = es @ e # es'"
    and step: "exec_entry fx trunk r m e x s = (x', s')"
  shows "exec_inv trunk order r (es @ [e]) x' (snd s')"
proof -
  let ?held = "case me_basePr e of None \<Rightarrow> False | Some b \<Rightarrow> b \<in> ex_withheld x"
  consider (held) ?held "x' = blockEntry (me_pr e) x" "s' = s"
    | (gone) "x' = fileOutcome (me_pr e) (Stale_out Gone_at_start) x" "s' = s"
    | (run) out b where "\<not> ?held" "runAction fx trunk r e (expected_sha e b) s = (out, s')" "x' = fileOutcome (me_pr e) out x"
    using step unfolding exec_entry_def by (auto split: if_splits option.splits prod.splits)
  then show ?thesis
  proof cases
    case held
    then show ?thesis using block_inv [OF I] by simp
  next
    case gone
    have "lawful (run_law trunk order) (snd s)" using I unfolding exec_inv_def by blast
    then show ?thesis using file_inv [OF I marked_refl] gone by simp
  next
    case run
    have "lawful (run_law trunk order) (snd s)" using I unfolding exec_inv_def by blast
    from action_lawful [OF e base_not_withheld [OF I run(1)] pinned_expected this run(2)]
    show ?thesis using file_inv [OF I action_marked [OF run(2)]] run(3) by simp
  qed
qed

lemma loop_inv:
  "exec_inv trunk order r ds x (snd s) \<Longrightarrow> order = ds @ es \<Longrightarrow> exec_loop fx trunk r m es x s = (x', s')
     \<Longrightarrow> exec_inv trunk order r order x' (snd s')"
proof (induction es arbitrary: ds x s)
  case (Cons e es)
  obtain x1 s1 where st: "exec_entry fx trunk r m e x s = (x1, s1)" by (metis surj_pair)
  have "exec_inv trunk order r (ds @ [e]) x1 (snd s1)" by (rule entry_inv [OF Cons.prems(1,2) st])
  then show ?case using Cons.IH [of "ds @ [e]" x1 s1] Cons.prems(2,3) st by simp
qed simp

end
