(* ===== verification/Merge_Run.thy ===== *)
theory Merge_Run
  imports Merge_Execute_Laws
begin

text \<open>
  What a merge run promises: its report is complete and honest, every merge it asks for was confirmed just
  before and stands on a base that went first, and the retries are bounded. Together with the plan:
  nothing merges but eligible pull requests at the reviewed head.
\<close>

section \<open>The whole run\<close>

lemma fetch_sweep_reads:
  "fetch_sweep fx es s = (r, s') \<Longrightarrow> \<exists>ts. snd s' = snd s @ ts \<and> (\<forall>c \<in> set ts. reads c)"
proof (induction es arbitrary: s)
  case (Cons e es)
  obtain d s1 where d: "do_fetch fx (me_pr e) s = (d, s1)" by (metis surj_pair)
  show ?case
  proof (cases d)
    case (Inl m)
    then show ?thesis using Cons.prems d do_trace(1) [OF d] by auto
  next
    case (Inr g)
    then have "fetch_sweep fx es s1 = (r, s')" using Cons.prems d by simp
    from Cons.IH [OF this] show ?thesis using do_trace(1) [OF d] by (auto intro: exI [of _ "_ # _"])
  qed
qed simp

lemma validate_sweep_reads:
  "validate_sweep fx es m s = (r, s') \<Longrightarrow> \<exists>ts. snd s' = snd s @ ts \<and> (\<forall>c \<in> set ts. reads c)"
proof (induction es arbitrary: m s)
  case (Cons e es)
  obtain d s1 where d: "do_validate fx (me_pr e) s = (d, s1)" by (metis surj_pair)
  show ?case
  proof (cases d)
    case (Inl msg)
    then show ?thesis using Cons.prems d do_trace(2) [OF d] by auto
  next
    case (Inr p)
    then have "validate_sweep fx es (omap_set (me_pr e) (if hp_ok p then hp_sha p else None) m) s1 = (r, s')"
      using Cons.prems d by simp
    from Cons.IH [OF this] show ?thesis using do_trace(2) [OF d] by (auto intro: exI [of _ "_ # _"])
  qed
qed simp

text \<open>A run ends in the invariant of the loop, whether the sweeps failed or not.\<close>

lemma wholesale_inv:
  assumes "\<forall>c \<in> set cs. reads c"
  shows "exec_inv trunk order r order \<lparr>ex_report = failWholesale order f, ex_withheld = set (map me_pr order)\<rparr> cs"
proof -
  have "lawful (run_law trunk order) ([] @ cs)" by (rule run.lawful_reads) (simp_all add: assms)
  moreover have "\<not> landed n cs" "\<not> moved n cs" "merges n cs = 0" for n
    using marks_reads [of cs "[]" n] assms by auto
  ultimately show ?thesis
    by (auto simp: exec_inv_def failWholesale_def empty_report_def buckets_def comp_def)
qed

lemma start_inv:
  assumes "\<forall>c \<in> set cs. reads c"
  shows "exec_inv trunk order r [] \<lparr>ex_report = empty_report, ex_withheld = {}\<rparr> cs"
proof -
  have "lawful (run_law trunk order) ([] @ cs)" by (rule run.lawful_reads) (simp_all add: assms)
  moreover have "\<not> landed n cs" "\<not> moved n cs" "merges n cs = 0" for n
    using marks_reads [of cs "[]" n] assms by auto
  ultimately show ?thesis
    by (auto simp: exec_inv_def empty_report_def buckets_def)
qed

definition retries_of :: "int option \<Rightarrow> int" where
  "retries_of k = (case k of None \<Rightarrow> DEFAULT_MAX_RETRIES | Some n \<Rightarrow> n)"

lemma executeMerges_inv:
  assumes "executeMerges fx plan k w = ok (rep, w', cs)"
  shows "\<exists>x. ex_report x = rep \<and> exec_inv (mp_baseBranch plan) (mp_order plan) (nat (retries_of k)) (mp_order plan) x cs"
proof -
  let ?order = "mp_order plan" and ?r = "nat (retries_of k)"
  obtain f s1 where f: "fetch_sweep fx ?order (w, []) = (f, s1)" by (metis surj_pair)
  obtain v s2 where v: "validate_sweep fx ?order [] s1 = (v, s2)" by (metis surj_pair)
  have t1: "\<forall>c \<in> set (snd s1). reads c" using fetch_sweep_reads [OF f] by auto
  have t2: "\<forall>c \<in> set (snd s2). reads c" using validate_sweep_reads [OF v] t1 by auto
  have run: "(rep, w', cs) = (case f of
      Inl e \<Rightarrow> (failWholesale ?order e, s1)
    | Inr u \<Rightarrow> (case v of
        Inl e \<Rightarrow> (failWholesale ?order e, s2)
      | Inr m \<Rightarrow> (case exec_loop fx (mp_baseBranch plan) ?r m ?order \<lparr>ex_report = empty_report, ex_withheld = {}\<rparr> s2 of
          (x, s3) \<Rightarrow> (ex_report x, s3))))"
    using assms by (auto simp: executeMerges_def Let_def f v retries_of_def split: if_splits sum.splits prod.splits)
  show ?thesis
  proof (cases f)
    case (Inl e)
    then have "rep = failWholesale ?order e" "cs = snd s1" using run by auto
    then show ?thesis using wholesale_inv [OF t1] by (metis exec_state.select_convs(1))
  next
    case f': (Inr u)
    show ?thesis
    proof (cases v)
      case (Inl e)
      then have "rep = failWholesale ?order e" "cs = snd s2" using run f' by auto
      then show ?thesis using wholesale_inv [OF t2] by (metis exec_state.select_convs(1))
    next
      case (Inr m)
      obtain x s3 where x: "exec_loop fx (mp_baseBranch plan) ?r m ?order \<lparr>ex_report = empty_report, ex_withheld = {}\<rparr> s2 = (x, s3)"
        by (metis surj_pair)
      then have "rep = ex_report x" "cs = snd s3" using run f' Inr by auto
      then show ?thesis using loop_inv [OF start_inv [OF t2] _ x] by auto
    qed
  qed
qed

lemma executeMerges_refuses:
  "executeMerges fx plan k w = throw e \<longleftrightarrow>
     e = Max_retries_out_of_range (retries_of k) \<and> (retries_of k < 0 \<or> MAX_SAFE_INTEGER < retries_of k)"
  by (auto simp: executeMerges_def retries_of_def Let_def)

lemma lawfulD: "lawful L (as @ c # bs) \<Longrightarrow> L as c"
  by (auto simp: lawful_def)

lemma count_distinct: "distinct xs \<Longrightarrow> count_list xs n = (if n \<in> set xs then 1 else 0)"
  by (induction xs) auto

section \<open>A concrete run\<close>

text \<open>A forge on which every call succeeds, and the bases are those of the small stack.\<close>

definition calm_answer :: gh_result where "calm_answer = \<lparr>gh_code = 0, gh_stdout = [], gh_stderr = []\<rparr>"

definition calm_forge :: "unit merge_effects" where
  "calm_forge =
     \<lparr>fx_fetchRef = (\<lambda>_ w. (ok calm_answer, w)),
      fx_validateRef = (\<lambda>_ w. (ok \<lparr>hp_ok = True, hp_sha = Some ''abc''\<rparr>, w)),
      fx_readBaseRef = (\<lambda>n w. (ok \<lparr>bp_ok = True, bp_name = Some (if n = 3 then ''b'' else ''main'')\<rparr>, w)),
      fx_mergePr = (\<lambda>_ _ w. (ok calm_answer, w)), fx_retargetBase = (\<lambda>_ _ w. (ok calm_answer, w))\<rparr>"

definition calm_sweep :: "forge_call list" where
  "calm_sweep = map (\<lambda>n. Fetched n (ok calm_answer)) [2, 4, 3]
     @ map (\<lambda>n. Validated n (ok \<lparr>hp_ok = True, hp_sha = Some ''abc''\<rparr>)) [2, 4, 3]"

definition calm_checks :: "pr_no \<Rightarrow> string \<Rightarrow> forge_call list" where
  "calm_checks n b = [Fetched n (ok calm_answer), Validated n (ok \<lparr>hp_ok = True, hp_sha = Some ''abc''\<rparr>),
     Based n (ok \<lparr>bp_ok = True, bp_name = Some b\<rparr>)]"

definition calm_trace :: "forge_call list" where
  "calm_trace = calm_sweep @ butlast (calm_checks 2 ''a'') @ [Retargeted 2 ''main'' (ok calm_answer)]
     @ calm_checks 4 ''main'' @ [Merged 4 None (ok calm_answer)]
     @ calm_checks 3 ''b'' @ [Merged 3 None (ok calm_answer)]"

definition calm_report :: exec_report where
  "calm_report = empty_report\<lparr>er_merged := [4, 3], er_retargeted := [2]\<rparr>"

lemma calm_run: "executeMerges calm_forge small_plan None () = ok (calm_report, (), calm_trace)"
  by code_simp

section \<open>The promises\<close>

text \<open>C29 The report of a run is complete and honest: its buckets together hold every ordered pull request as often
as the order has it, merged are exactly those with a successful merge call, retargeted exactly those with
a successful base edit.\<close>

theorem merge_report_honest:
  assumes "executeMerges fx plan k w = ok (rep, w', cs)"
  shows "mset (er_merged rep @ er_retargeted rep @ map fst (er_stale rep) @ map fst (er_failed rep) @ er_blocked rep)
      = mset (map me_pr (mp_order plan))
    \<and> set (er_merged rep) = {n. \<exists>pin g. Merged n pin (ok g) \<in> set cs \<and> gh_code g = 0}
    \<and> set (er_retargeted rep) = {n. \<exists>b g. Retargeted n b (ok g) \<in> set cs \<and> gh_code g = 0}"
proof -
  obtain x where x: "ex_report x = rep"
    "exec_inv (mp_baseBranch plan) (mp_order plan) (nat (retries_of k)) (mp_order plan) x cs"
    using executeMerges_inv [OF assms] by blast
  have suc: "succeeded a \<longleftrightarrow> (\<exists>g. a = ok g \<and> gh_code g = 0)" for a by (auto simp: succeeded_def split: sum.splits)
  have "landed n cs \<longleftrightarrow> n \<in> set (er_merged rep)" "moved n cs \<longleftrightarrow> n \<in> set (er_retargeted rep)"
    "mset (buckets rep) = mset (map me_pr (mp_order plan))" for n
    using x unfolding exec_inv_def by blast+
  then show ?thesis unfolding landed_def moved_def buckets_def suc by blast
qed

theorem merge_report_honest_witness:
  "set [4, 3] = {n. \<exists>pin g. Merged n pin (ok g) \<in> set calm_trace \<and> gh_code g = 0}"
  using merge_report_honest [OF calm_run] by (simp add: calm_report_def empty_report_def)

text \<open>C20 Every merge call of a run acts for an entry of the plan that says merge, comes right after a fetch, a head
check and a base read that confirmed the expected head and base, pins that head when it is a full SHA, takes the
head the plan recorded when it recorded a full one, and comes after the entry's base, when the order has it earlier,
was merged or retargeted.\<close>

theorem merges_are_confirmed:
  assumes "executeMerges fx plan k w = ok (rep, w', as @ Merged n pin a # bs)"
  shows "\<exists>es e es' sha cs g p live q.
     mp_order plan = es @ e # es' \<and> me_pr e = n \<and> me_action e = Merge_it
     \<and> as = cs @ [Fetched n (ok g), Validated n (ok p), Based n (ok q)]
     \<and> gh_code g = 0 \<and> hp_ok p \<and> hp_sha p = Some live \<and> map lower live = map lower sha
     \<and> bp_ok q \<and> bp_name q = Some (case me_baseRefName e of None \<Rightarrow> mp_baseBranch plan | Some b \<Rightarrow> b)
     \<and> pin = (if is_sha40 sha then Some sha else None)
     \<and> (\<forall>h. me_headSha e = Some h \<longrightarrow> is_sha40 h \<longrightarrow> sha = h)
     \<and> (\<forall>b. me_basePr e = Some b \<longrightarrow> b \<in> me_pr ` set es \<longrightarrow> landed b as \<or> moved b as)"
proof -
  obtain x where "exec_inv (mp_baseBranch plan) (mp_order plan) (nat (retries_of k)) (mp_order plan) x (as @ Merged n pin a # bs)"
    using executeMerges_inv [OF assms] by blast
  then have "lawful (run_law (mp_baseBranch plan) (mp_order plan)) (as @ Merged n pin a # bs)"
    unfolding exec_inv_def by (rule conjunct1)
  from lawfulD [OF this] obtain es e es' sha where e: "mp_order plan = es @ e # es'" "me_pr e = n" "me_action e = Merge_it"
    "confirmed n sha (expected_base (mp_baseBranch plan) e) as" "pin = pin_of sha" "pinned e sha" "base_went es e as"
    by auto
  then obtain cs g p live q where c: "as = cs @ [Fetched n (ok g), Validated n (ok p), Based n (ok q)]"
    "gh_code g = 0" "hp_ok p" "hp_sha p = Some live" "map lower live = map lower sha" "bp_ok q"
    "bp_name q = Some (expected_base (mp_baseBranch plan) e)"
    unfolding confirmed_def head_confirmed_def by auto
  have "bp_name q = Some (case me_baseRefName e of None \<Rightarrow> mp_baseBranch plan | Some b \<Rightarrow> b)"
    using c(7) unfolding expected_base_def .
  moreover have "pin = (if is_sha40 sha then Some sha else None)" using e(5) unfolding pin_of_def .
  moreover have "\<forall>h. me_headSha e = Some h \<longrightarrow> is_sha40 h \<longrightarrow> sha = h" using e(3,6) unfolding pinned_def by blast
  moreover have "\<forall>b. me_basePr e = Some b \<longrightarrow> b \<in> me_pr ` set es \<longrightarrow> landed b as \<or> moved b as"
    using e(7) unfolding base_went_def .
  ultimately show ?thesis using e(1-3) c(1-6)
    by - (rule exI [of _ es], rule exI [of _ e], rule exI [of _ es'], rule exI [of _ sha], rule exI [of _ cs],
      rule exI [of _ g], rule exI [of _ p], rule exI [of _ live], rule exI [of _ q], (rule conjI, assumption)+, assumption)
qed

theorem merges_are_confirmed_witness:
  "\<exists>e. e \<in> set (mp_order small_plan) \<and> me_pr e = 3 \<and> me_action e = Merge_it
     \<and> (me_basePr e = Some 2 \<longrightarrow> moved 2 (butlast calm_trace) \<or> landed 2 (butlast calm_trace))"
proof -
  have t: "calm_trace = butlast calm_trace @ Merged 3 None (ok calm_answer) # []"
    by (simp add: calm_trace_def calm_checks_def butlast_append)
  have run: "executeMerges calm_forge small_plan None () = ok (calm_report, (), butlast calm_trace @ Merged 3 None (ok calm_answer) # [])"
    unfolding t [symmetric] by (rule calm_run)
  show ?thesis using merges_are_confirmed [OF run] by (fastforce simp: small_plan_def Cons_eq_append_conv)
qed

text \<open>Retries are bounded: for a plan of distinct numbers a run asks for at most one merge more than its retry
budget per pull request, and never for one outside the plan.\<close>

lemma merge_retries_bounded:
  assumes "executeMerges fx plan k w = ok (rep, w', cs)" "distinct (map me_pr (mp_order plan))"
  shows "length (filter (\<lambda>c. case c of Merged m _ _ \<Rightarrow> m = n | _ \<Rightarrow> False) cs)
     \<le> (if n \<in> set (map me_pr (mp_order plan)) then nat (case k of None \<Rightarrow> 3 | Some i \<Rightarrow> i) + 1 else 0)"
proof -
  obtain x where "exec_inv (mp_baseBranch plan) (mp_order plan) (nat (retries_of k)) (mp_order plan) x cs"
    using executeMerges_inv [OF assms(1)] by blast
  then have "merges n cs \<le> (nat (retries_of k) + 1) * count_list (map me_pr (mp_order plan)) n"
    unfolding exec_inv_def by blast
  moreover have "count_list (map me_pr (mp_order plan)) n = (if n \<in> set (map me_pr (mp_order plan)) then 1 else 0)"
    using assms(2) by (rule count_distinct)
  ultimately have "merges n cs \<le> (if n \<in> set (map me_pr (mp_order plan)) then nat (retries_of k) + 1 else 0)" by (simp split: if_splits)
  moreover have "retries_of k = (case k of None \<Rightarrow> 3 | Some i \<Rightarrow> i)" by (simp add: retries_of_def DEFAULT_MAX_RETRIES_def split: option.splits)
  moreover have "merges n cs = length (filter (\<lambda>c. case c of Merged m _ _ \<Rightarrow> m = n | _ \<Rightarrow> False) cs)" unfolding merges_def ..
  ultimately show ?thesis by (simp only:)
qed

end
