(* ===== verification/Merge_Prs.thy ===== *)
theory Merge_Prs
  imports Merge_Run
begin

text \<open>
  The merge pipeline of \<open>src/ops/merge/runPrs.ts\<close>: classify, plan and execute; resolve conflicts; plan and execute
  once more over the refreshed candidates; the union of what a human owes. Parameters are the effects, the
  bounded-parallel stage that runs the conflict agent on a list of pull requests and answers in that order
  (\<open>Promise.all\<close> under \<open>p-limit\<close>; it rejects when one resolution does), and the refetch. The traces of the two passes
  are results beside the outcome.
\<close>

section \<open>Input and outcome\<close>

record merge_candidate = pr_candidate +
  mc_head :: string
  mc_base :: string
  mc_sha :: "string option"
  mc_state :: pr_state

record prs_input =
  ri_baseBranch :: string
  ri_repoRoot :: string
  ri_prs :: "merge_candidate list"
  ri_concurrency :: "int option"
  ri_maxRetries :: "int option"
  ri_modelSpec :: bool
  ri_disabled :: bool
  ri_now :: int
  ri_config :: classify_config

datatype resolve_verdict =
    Resolved_ok string | Resolved_needs_human string | Resolved_failed string
  | Resolved_indeterminate string | Resolved_budget

datatype resolve_decision = Acted | Escalate

record resolution =
  rs_pr :: pr_no
  rs_decision :: resolve_decision
  rs_summary :: string

datatype human_reason =
    Duplicate_rows pr_no | Resolution_disabled | Model_spec_required | Refname_gate string string
  | Escalated string | Refresh_failed string
  | Plan_withheld block_reason | Drifted head_drift | Exec_failed exec_failure | Blocked_by_ancestor

datatype failure_cause = State_drift | Merge_rejected | Ancestor_blocked

record diagnosis =
  dg_merged :: nat
  dg_retargeted :: nat
  dg_needsHuman :: "pr_no list"
  dg_causes :: "(pr_no \<times> failure_cause) list"

record prs_outcome =
  po_firstPass :: exec_report
  po_secondPass :: "exec_report option"
  po_resolutions :: "resolution list"
  po_needsHuman :: "(pr_no \<times> human_reason) list"
  po_diagnosis :: diagnosis

text \<open>What is asked of the conflict agent: number, head branch, and the candidate's own base branch.\<close>

type_synonym resolve_input = "pr_no \<times> string \<times> string"

record 'w prs_deps =
  ds_effects :: "'w merge_effects"
  ds_resolveAll :: "resolve_input list \<Rightarrow> 'w \<Rightarrow> (string + resolve_verdict list) \<times> 'w"
  ds_maxRetries :: "int option"
  ds_refetch :: "('w \<Rightarrow> (string + merge_candidate list) \<times> 'w) option"

section \<open>The post-mortem\<close>

definition diagnoseMergeFailure :: "exec_report \<Rightarrow> diagnosis" where
  "diagnoseMergeFailure p =
     (let causes = sort_key fst
        (map (\<lambda>e. (fst e, State_drift)) (er_stale p) @ map (\<lambda>e. (fst e, Merge_rejected)) (er_failed p)
         @ map (\<lambda>n. (n, Ancestor_blocked)) (er_blocked p))
      in \<lparr>dg_merged = length (er_merged p), dg_retargeted = length (er_retargeted p),
          dg_needsHuman = remdups (map fst causes), dg_causes = causes\<rparr>)"

section \<open>Classification and the conflict set\<close>

definition classifyStage :: "date_parse \<Rightarrow> int \<Rightarrow> classify_config \<Rightarrow> merge_candidate list \<Rightarrow> planned_pr list" where
  "classifyStage dp now cf cs =
     map (\<lambda>c. \<lparr>pp_pr = pd_pr c, pp_head = mc_head c, pp_base = mc_base c,
        pp_sha = (case mc_sha c of None \<Rightarrow> None | Some s \<Rightarrow> if is_sha40 s then Some s else None),
        pp_state = mc_state c, pp_author = pd_author c,
        pp_class = (if mc_state c = Open_pr then Some (classifyPr dp (pr_candidate.truncate c) now cf) else None),
        pp_truncated = pd_truncated c\<rparr>) cs"

definition conflictingRows :: "planned_pr list \<Rightarrow> planned_pr list" where
  "conflictingRows rows =
     filter (\<lambda>c. pp_state c = Open_pr \<and> map_option pc_verdict (pp_class c) = Some Conflicting) rows"

definition conflictSet :: "planned_pr list \<Rightarrow> planned_pr list" where
  "conflictSet rows = sort_key pp_pr (filter (\<lambda>c. pr_count rows (pp_pr c) = 1) (conflictingRows rows))"

fun refused_duplicates :: "planned_pr list \<Rightarrow> planned_pr list \<Rightarrow> pr_no list \<Rightarrow> (pr_no \<times> human_reason) list" where
  "refused_duplicates rows [] seen = []"
| "refused_duplicates rows (c # cs) seen =
     (if pr_count rows (pp_pr c) > 1 \<and> pp_pr c \<notin> set seen
      then (pp_pr c, Duplicate_rows (pp_pr c)) # refused_duplicates rows cs (pp_pr c # seen)
      else refused_duplicates rows cs seen)"

definition refname_char :: "char \<Rightarrow> bool" where
  "refname_char c \<longleftrightarrow> is_word c \<or> c = CHR ''.'' \<or> c = CHR ''/'' \<or> c = CHR ''-''"

fun has_dotdot :: "string \<Rightarrow> bool" where
  "has_dotdot (c # d # s) \<longleftrightarrow> c = CHR ''.'' \<and> d = CHR ''.'' \<or> has_dotdot (d # s)"
| "has_dotdot _ \<longleftrightarrow> False"

definition conservativeRefname :: "string \<Rightarrow> bool" where
  "conservativeRefname s \<longleftrightarrow> length s \<le> 250 \<and>
     (case s of [] \<Rightarrow> False | c # cs \<Rightarrow> (is_word c \<or> c = CHR ''.'') \<and> list_all refname_char cs) \<and> \<not> has_dotdot s"

text \<open>Either probe also refuses a number or a root the schema refuses.\<close>

definition refnameFailure :: "string \<Rightarrow> planned_pr \<Rightarrow> human_reason option" where
  "refnameFailure dir c =
     (if pp_pr c = 0 \<or> dir = [] \<or> \<not> conservativeRefname (pp_head c) then Some (Refname_gate ''headRefName'' (pp_head c))
      else if \<not> conservativeRefname (pp_base c) then Some (Refname_gate ''baseRefName'' (pp_base c))
      else None)"

definition resolution_of :: "planned_pr \<Rightarrow> resolve_verdict \<Rightarrow> resolution" where
  "resolution_of c v =
     (case v of
        Resolved_ok t \<Rightarrow> \<lparr>rs_pr = pp_pr c, rs_decision = Acted, rs_summary = t\<rparr>
      | Resolved_needs_human t \<Rightarrow> \<lparr>rs_pr = pp_pr c, rs_decision = Escalate, rs_summary = t\<rparr>
      | Resolved_failed t \<Rightarrow> \<lparr>rs_pr = pp_pr c, rs_decision = Escalate,
          rs_summary = ''conflict agent did not complete: '' @ t\<rparr>
      | Resolved_indeterminate t \<Rightarrow> \<lparr>rs_pr = pp_pr c, rs_decision = Escalate,
          rs_summary = ''conflict agent did not complete: '' @ t\<rparr>
      | Resolved_budget \<Rightarrow> \<lparr>rs_pr = pp_pr c, rs_decision = Escalate,
          rs_summary = ''conflict agent did not complete: the conflict agent hit its budget bound''\<rparr>)"

text \<open>Stage 4: the rows never dispatched, and the resolutions; \<open>Inl\<close> when the agent rejected.\<close>

definition resolve_stage :: "'w prs_deps \<Rightarrow> prs_input \<Rightarrow> planned_pr list \<Rightarrow> 'w
    \<Rightarrow> (string + (pr_no \<times> human_reason) list \<times> resolution list) \<times> 'w" where
  "resolve_stage ds inp rows w =
     (let dups = refused_duplicates rows (conflictingRows rows) [];
          cs = conflictSet rows
      in if cs = [] then (ok (dups, []), w)
         else if ri_disabled inp \<or> \<not> ri_modelSpec inp
           then (ok (dups @ map (\<lambda>c. (pp_pr c, if ri_disabled inp then Resolution_disabled else Model_spec_required)) cs, []), w)
         else let gate = refnameFailure (ri_repoRoot inp);
                  go = filter (\<lambda>c. gate c = None) cs;
                  stop = concat (map (\<lambda>c. case gate c of None \<Rightarrow> [] | Some r \<Rightarrow> [(pp_pr c, r)]) cs)
              in (case ds_resolveAll ds (map (\<lambda>c. (pp_pr c, pp_head c, pp_base c)) go) w of
                    (Inl e, w1) \<Rightarrow> (throw e, w1)
                  | (Inr vs, w1) \<Rightarrow> (ok (dups @ stop, map2 resolution_of go vs), w1)))"

section \<open>The second pass\<close>

definition pass2Set :: "bool \<Rightarrow> prs_input \<Rightarrow> exec_report \<Rightarrow> merge_candidate list \<Rightarrow> merge_candidate list" where
  "pass2Set refetches inp first cs =
     filter (\<lambda>c. pd_pr c \<notin> set (er_merged first) \<and> (refetches \<or> pd_pr c \<notin> set (er_retargeted first))) cs
     @ map (\<lambda>c. c\<lparr>mc_state := Closed_pr\<rparr>) (filter (\<lambda>c. pd_pr c \<in> set (er_merged first)) (ri_prs inp))"

section \<open>What a human owes\<close>

definition addRow :: "pr_no \<times> human_reason \<Rightarrow> (pr_no, human_reason) omap \<Rightarrow> (pr_no, human_reason) omap" where
  "addRow r m = (if omap_has (fst r) m then m else omap_set (fst r) (snd r) m)"

definition escalations :: "resolution list \<Rightarrow> (pr_no \<times> human_reason) list" where
  "escalations rs = map (\<lambda>r. (rs_pr r, Escalated (rs_summary r))) (filter (\<lambda>r. rs_decision r = Escalate) rs)"

definition withheld_rows :: "merge_plan \<Rightarrow> (pr_no \<times> human_reason) list" where
  "withheld_rows p = map (\<lambda>(n, r). (n, Plan_withheld r)) (mp_needsHuman p)"

definition outcome_rows :: "exec_report \<Rightarrow> (pr_no \<times> human_reason) list" where
  "outcome_rows p = map (\<lambda>(n, d). (n, Drifted d)) (er_stale p) @ map (\<lambda>(n, f). (n, Exec_failed f)) (er_failed p)
     @ map (\<lambda>n. (n, Blocked_by_ancestor)) (er_blocked p)"

definition safety_net :: "merge_plan \<Rightarrow> exec_report \<Rightarrow> exec_report option \<Rightarrow> (pr_no \<times> human_reason) list" where
  "safety_net plan1 first second =
     (case second of
        None \<Rightarrow> []
      | Some p \<Rightarrow> filter (\<lambda>r. fst r \<notin> set (er_merged p) \<and> fst r \<notin> set (er_retargeted p))
          (outcome_rows first @ withheld_rows plan1))"

definition needs_union :: "(pr_no \<times> human_reason) list \<Rightarrow> (pr_no \<times> human_reason) list" where
  "needs_union rows = sort_key fst (fold addRow rows [])"

section \<open>The pipeline\<close>

datatype prs_error = Bad_concurrency int | Bad_retries exec_error | Resolve_rejected string | No_plan

definition plan_and_execute :: "date_parse \<Rightarrow> 'w prs_deps \<Rightarrow> prs_input \<Rightarrow> merge_candidate list \<Rightarrow> 'w
    \<Rightarrow> prs_error + merge_plan \<times> exec_report \<times> 'w forge" where
  "plan_and_execute dp ds inp cs w =
     (case planMergeOrder (ri_baseBranch inp) (classifyStage dp (ri_now inp) (ri_config inp) cs) of
        None \<Rightarrow> throw No_plan
      | Some p \<Rightarrow>
          (case executeMerges (ds_effects ds) p (case ri_maxRetries inp of Some k \<Rightarrow> Some k | None \<Rightarrow> ds_maxRetries ds) w of
             Inl e \<Rightarrow> throw (Bad_retries e)
           | Inr (rep, w', cs) \<Rightarrow> ok (p, rep, w', cs)))"

definition replan :: "date_parse \<Rightarrow> 'w prs_deps \<Rightarrow> prs_input \<Rightarrow> exec_report \<Rightarrow> merge_candidate list \<Rightarrow> 'w
    \<Rightarrow> prs_error + (pr_no \<times> human_reason) list \<times> (merge_plan \<times> exec_report \<times> forge_call list) option \<times> 'w" where
  "replan dp ds inp first cs w =
     (case plan_and_execute dp ds inp (pass2Set (\<not> Option.is_none (ds_refetch ds)) inp first cs) w of
        Inl e \<Rightarrow> throw e
      | Inr (p, rep, w1, t) \<Rightarrow> ok ([], Some (p, rep, t), w1))"

text \<open>Stage 5: \<open>None\<close> when no resolution acted or the refetch threw.\<close>

definition second_pass :: "date_parse \<Rightarrow> 'w prs_deps \<Rightarrow> prs_input \<Rightarrow> exec_report \<Rightarrow> resolution list \<Rightarrow> 'w
    \<Rightarrow> prs_error + (pr_no \<times> human_reason) list \<times> (merge_plan \<times> exec_report \<times> forge_call list) option \<times> 'w" where
  "second_pass dp ds inp first rs w =
     (let acted = filter (\<lambda>r. rs_decision r = Acted) rs
      in if acted = [] then ok ([], None, w)
         else case ds_refetch ds of
           None \<Rightarrow> replan dp ds inp first (ri_prs inp) w
         | Some f \<Rightarrow>
             (case f w of
                (Inl e, w1) \<Rightarrow> ok (map (\<lambda>r. (rs_pr r, Refresh_failed e)) acted, None, w1)
              | (Inr cs, w1) \<Rightarrow> replan dp ds inp first cs w1))"

definition runMergePrs :: "date_parse \<Rightarrow> 'w prs_deps \<Rightarrow> prs_input \<Rightarrow> 'w
    \<Rightarrow> prs_error + prs_outcome \<times> 'w \<times> forge_call list \<times> forge_call list" where
  "runMergePrs dp ds inp w =
     (let k = (case ri_concurrency inp of None \<Rightarrow> 2 | Some i \<Rightarrow> i)
      in if k < 1 then throw (Bad_concurrency k)
         else bind_result (plan_and_execute dp ds inp (ri_prs inp) w) (\<lambda>(plan1, first, w1, t1).
           case resolve_stage ds inp (classifyStage dp (ri_now inp) (ri_config inp) (ri_prs inp)) w1 of
             (Inl e, w2) \<Rightarrow> throw (Resolve_rejected e)
           | (Inr (undispatched, rs), w2) \<Rightarrow>
               bind_result (second_pass dp ds inp first rs w2) (\<lambda>(refetchFailed, second, w3).
                 let finalPlan = (case second of None \<Rightarrow> plan1 | Some (p, _) \<Rightarrow> p);
                     finalReport = (case second of None \<Rightarrow> first | Some (_, rep, _) \<Rightarrow> rep);
                     report2 = map_option (\<lambda>(_, rep, _). rep) second
                 in ok (\<lparr>po_firstPass = first, po_secondPass = report2, po_resolutions = rs,
                         po_needsHuman = needs_union (undispatched @ escalations rs @ refetchFailed
                           @ withheld_rows finalPlan @ outcome_rows finalReport @ safety_net plan1 first report2),
                         po_diagnosis = diagnoseMergeFailure finalReport\<rparr>,
                        w3, t1, (case second of None \<Rightarrow> [] | Some (_, _, t) \<Rightarrow> t)))))"

end
