(* ===== verification/Merge_Prs_Laws.thy ===== *)
theory Merge_Prs_Laws
  imports Merge_Prs
begin

text \<open>
  What the pipeline promises end to end: only eligible pull requests merge, at the head that was reviewed, into the
  trunk or onto a base this pass moved there; what merged in the first pass is left alone by the second; and every
  open pull request ends up merged, retargeted or in the list a human works.
\<close>

section \<open>One pass\<close>

lemma plan_and_execute_parts:
  assumes "plan_and_execute dp ds inp cs w = ok (p, rep, w', t)"
  obtains k where "planMergeOrder (ri_baseBranch inp) (classifyStage dp (ri_now inp) (ri_config inp) cs) = Some p"
    "executeMerges (ds_effects ds) p k w = ok (rep, w', t)"
  using assms unfolding plan_and_execute_def by (auto split: option.splits sum.splits)

lemma classifyStage_row:
  assumes "x \<in> set (classifyStage dp now cf cs)"
  shows "\<exists>c \<in> set cs. pp_pr x = pd_pr c \<and> pp_head x = mc_head c \<and> pp_base x = mc_base c \<and> pp_state x = mc_state c
     \<and> pp_sha x = (case mc_sha c of None \<Rightarrow> None | Some s \<Rightarrow> if is_sha40 s then Some s else None)
     \<and> (mc_state c = Open_pr \<longrightarrow> pp_class x = Some (classifyPr dp (pr_candidate.truncate c) now cf))"
  using assms unfolding classifyStage_def by auto

definition open_numbers :: "merge_candidate list \<Rightarrow> pr_no set" where
  "open_numbers cs = {pd_pr c |c. c \<in> set cs \<and> mc_state c = Open_pr}"

lemma classifyStage_open: "{pp_pr x |x. x \<in> set (classifyStage dp now cf cs) \<and> is_open x} = open_numbers cs"
  unfolding classifyStage_def open_numbers_def is_open_def by force

text \<open>The numbers of a pass: ordered and withheld are the open ones, and the report holds the ordered ones.\<close>

lemma pass_numbers:
  assumes "plan_and_execute dp ds inp cs w = ok (p, rep, w', t)"
  shows "me_pr ` set (mp_order p) \<union> fst ` set (mp_needsHuman p) = open_numbers cs"
    and "set (buckets rep) = me_pr ` set (mp_order p)"
proof -
  obtain k where k: "planMergeOrder (ri_baseBranch inp) (classifyStage dp (ri_now inp) (ri_config inp) cs) = Some p"
    "executeMerges (ds_effects ds) p k w = ok (rep, w', t)"
    using plan_and_execute_parts [OF assms] by blast
  show "me_pr ` set (mp_order p) \<union> fst ` set (mp_needsHuman p) = open_numbers cs"
    using plan_disposes(2) [OF k(1)] unfolding classifyStage_open by simp
  obtain x where "ex_report x = rep"
    "exec_inv (mp_baseBranch p) (mp_order p) (nat (retries_of k)) (mp_order p) x t"
    using executeMerges_inv [OF k(2)] by blast
  then have "mset (buckets rep) = mset (map me_pr (mp_order p))" unfolding exec_inv_def by blast
  then show "set (buckets rep) = me_pr ` set (mp_order p)" by (metis mset_eq_setD set_map)
qed

text \<open>A call that changes the forge is for an ordered entry.\<close>

lemma pass_call_ordered:
  assumes "plan_and_execute dp ds inp cs w = ok (p, rep, w', as @ c # bs)" "\<not> reads c"
  shows "(case c of Merged n _ _ \<Rightarrow> n \<in> open_numbers cs | Retargeted n _ _ \<Rightarrow> n \<in> open_numbers cs | _ \<Rightarrow> False)"
proof -
  obtain k where k: "planMergeOrder (ri_baseBranch inp) (classifyStage dp (ri_now inp) (ri_config inp) cs) = Some p"
    "executeMerges (ds_effects ds) p k w = ok (rep, w', as @ c # bs)"
    using plan_and_execute_parts [OF assms(1)] by blast
  obtain x where "exec_inv (mp_baseBranch p) (mp_order p) (nat (retries_of k)) (mp_order p) x (as @ c # bs)"
    using executeMerges_inv [OF k(2)] by blast
  then have "lawful (run_law (mp_baseBranch p) (mp_order p)) (as @ c # bs)" unfolding exec_inv_def by (rule conjunct1)
  from lawfulD [OF this] have law: "run_law (mp_baseBranch p) (mp_order p) as c" .
  have "n \<in> me_pr ` set (mp_order p) \<Longrightarrow> n \<in> open_numbers cs" for n using pass_numbers(1) [OF assms(1)] by blast
  then show ?thesis using law assms(2) by (cases c) force+
qed

text \<open>What a merge call says of the candidates.\<close>

lemma pass_merge:
  assumes "plan_and_execute dp ds inp cs w = ok (p, rep, w', as @ Merged n pin a # bs)"
  shows "\<exists>c. c \<in> set cs \<and> pd_pr c = n \<and> mc_state c = Open_pr
     \<and> pc_verdict (classifyPr dp (pr_candidate.truncate c) (ri_now inp) (ri_config inp)) = Eligible
     \<and> (\<forall>s. mc_sha c = Some s \<longrightarrow> is_sha40 s \<longrightarrow> pin = Some s)
     \<and> (\<exists>as' q. as = as' @ [Based n (ok q)] \<and> bp_name q = Some (mc_base c))
     \<and> (mc_base c = ri_baseBranch inp \<or> (\<exists>b c'. moved b as \<and> c' \<in> set cs \<and> pd_pr c' = b
          \<and> mc_state c' = Open_pr \<and> mc_head c' = mc_base c))"
proof -
  let ?trunk = "ri_baseBranch inp" and ?rows = "classifyStage dp (ri_now inp) (ri_config inp) cs"
  let ?t = "as @ Merged n pin a # bs"
  obtain k where k: "planMergeOrder ?trunk ?rows = Some p" "executeMerges (ds_effects ds) p k w = ok (rep, w', ?t)"
    using plan_and_execute_parts [OF assms] by blast
  note base = plan_disposes(3) [OF k(1)]
  obtain x where "exec_inv ?trunk (mp_order p) (nat (retries_of k)) (mp_order p) x ?t"
    using executeMerges_inv [OF k(2)] unfolding base by blast
  then have L: "lawful (run_law ?trunk (mp_order p)) ?t" unfolding exec_inv_def by (rule conjunct1)
  from lawfulD [OF L] obtain es e es' sha where e: "mp_order p = es @ e # es'" "me_pr e = n" "me_action e = Merge_it"
    "confirmed n sha (expected_base ?trunk e) as" "pin = pin_of sha" "pinned e sha" "base_went es e as"
    by auto
  have eo: "e \<in> set (mp_order p)" unfolding e(1) by simp
  obtain r where r: "r \<in> set ?rows" "pp_pr r = me_pr e" "is_open r" "clean r"
    "me_baseRefName e = (if pp_base r = ?trunk then None else Some (pp_base r))"
    "me_headSha e = (case pp_sha r of None \<Rightarrow> None | Some s \<Rightarrow> if is_sha40 s then Some s else None)"
    using ordered_is_eligible [OF k(1) eo] by blast
  obtain c where c: "c \<in> set cs" "pp_pr r = pd_pr c" "pp_base r = mc_base c" "pp_state r = mc_state c"
    "pp_sha r = (case mc_sha c of None \<Rightarrow> None | Some s \<Rightarrow> if is_sha40 s then Some s else None)"
    "mc_state c = Open_pr \<longrightarrow> pp_class r = Some (classifyPr dp (pr_candidate.truncate c) (ri_now inp) (ri_config inp))"
    using classifyStage_row [OF r(1)] by blast
  have op: "mc_state c = Open_pr" using r(3) c(4) by (simp add: is_open_def)
  have el: "pc_verdict (classifyPr dp (pr_candidate.truncate c) (ri_now inp) (ri_config inp)) = Eligible"
    using r(4) c(6) op by (auto simp: clean_def)
  have pin: "pin = Some s" if "mc_sha c = Some s" "is_sha40 s" for s
  proof -
    have "me_headSha e = Some s" using r(6) c(5) that by simp
    then have "sha = s" using e(3,6) that(2) unfolding pinned_def by blast
    then show ?thesis using e(5) that(2) by (simp add: pin_of_def)
  qed
  have eb: "expected_base ?trunk e = mc_base c" using r(5) c(3) by (simp add: expected_base_def)
  obtain as' q where q: "as = as' @ [Based n (ok q)]" "bp_name q = Some (mc_base c)"
    using e(4) unfolding confirmed_def eb by blast
  have stack: "\<exists>b c'. moved b as \<and> c' \<in> set cs \<and> pd_pr c' = b \<and> mc_state c' = Open_pr \<and> mc_head c' = mc_base c"
    if nt: "mc_base c \<noteq> ?trunk"
  proof -
    have i: "length es < length (mp_order p)" "mp_order p ! length es = e" unfolding e(1) by simp_all
    obtain j b where jb: "j < length es" "me_action (mp_order p ! j) = Retarget_self" "me_pr (mp_order p ! j) = b"
      "me_basePr e = Some b" "open_owner (sort_key pp_pr ?rows) (pp_base r) = Some b"
      using merge_base_owner [OF k(1) i(1), of r] i(2) e(3) r(1,2) c(3) nt by auto
    have at_j: "mp_order p ! j = es ! j" using jb(1) unfolding e(1) by (simp add: nth_append)
    then have "b \<in> me_pr ` set es" using jb(1,3) by force
    then have went: "landed b as \<or> moved b as" using e(7) jb(4) unfolding base_went_def by blast
    have "\<not> landed b as"
    proof
      assume "landed b as"
      then obtain pin' a' where "Merged b pin' a' \<in> set as" unfolding landed_def by blast
      then obtain xs ys where "as = xs @ Merged b pin' a' # ys" by (meson split_list)
      then have "?t = xs @ Merged b pin' a' # (ys @ Merged n pin a # bs)" by simp
      then have "run_law ?trunk (mp_order p) xs (Merged b pin' a')" using L lawfulD by metis
      then obtain e' where e': "e' \<in> set (mp_order p)" "me_pr e' = b" "me_action e' = Merge_it"
        by (metis in_set_conv_decomp run_law.simps(1))
      have "distinct (map me_pr (mp_order p))" using plan_disposes(1) [OF k(1)] by simp
      moreover have "mp_order p ! j \<in> set (mp_order p)" using jb(1) i(1) by simp
      ultimately have "e' = mp_order p ! j" using e'(1,2) jb(3) by (auto simp: distinct_map dest: inj_onD)
      then show False using e'(3) jb(2) by simp
    qed
    then have m: "moved b as" using went by blast
    obtain r' where r': "r' \<in> set ?rows" "is_open r'" "pp_pr r' = b" "pp_head r' = pp_base r"
      using open_owner_open [OF jb(5)] by auto
    obtain c' where c': "c' \<in> set cs" "pp_pr r' = pd_pr c'" "pp_head r' = mc_head c'" "pp_state r' = mc_state c'"
      using classifyStage_row [OF r'(1)] by blast
    then show ?thesis using m r' c(3) by (auto simp: is_open_def)
  qed
  show ?thesis
    by (intro exI [of _ c] conjI) (use c r e op el pin q stack in \<open>auto\<close>)
qed

section \<open>The two passes\<close>

text \<open>A run that returns, in its parts.\<close>

lemma runMergePrs_parts:
  assumes "runMergePrs dp ds inp w = ok (out, w', t1, t2)"
  obtains plan1 w1 undispatched rs w2 failed second where
    "plan_and_execute dp ds inp (ri_prs inp) w = ok (plan1, po_firstPass out, w1, t1)"
    "resolve_stage ds inp (classifyStage dp (ri_now inp) (ri_config inp) (ri_prs inp)) w1 = (ok (undispatched, rs), w2)"
    "second_pass dp ds inp (po_firstPass out) rs w2 = ok (failed, second, w')"
    "po_secondPass out = map_option (\<lambda>(_, rep, _). rep) second"
    "t2 = (case second of None \<Rightarrow> [] | Some (_, _, t) \<Rightarrow> t)"
    "po_needsHuman out = needs_union (undispatched @ escalations rs @ failed
       @ withheld_rows (case second of None \<Rightarrow> plan1 | Some (p, _) \<Rightarrow> p)
       @ outcome_rows (case second of None \<Rightarrow> po_firstPass out | Some (_, rep, _) \<Rightarrow> rep)
       @ safety_net plan1 (po_firstPass out) (po_secondPass out))"
proof -
  let ?rows = "classifyStage dp (ri_now inp) (ri_config inp) (ri_prs inp)"
  have "\<not> (case ri_concurrency inp of None \<Rightarrow> 2 | Some i \<Rightarrow> i) < 1"
    using assms by (auto simp: runMergePrs_def Let_def)
  note run = assms [unfolded runMergePrs_def Let_def if_not_P [OF this] bind_result_eq_Inr]
  then obtain plan1 first w1 t where p: "plan_and_execute dp ds inp (ri_prs inp) w = ok (plan1, first, w1, t)" by auto
  obtain v w2 where v: "resolve_stage ds inp ?rows w1 = (v, w2)" by (metis surj_pair)
  from run obtain undispatched rs where u: "v = ok (undispatched, rs)" by (cases v) (auto simp: p v)
  from run obtain failed second w3 where s: "second_pass dp ds inp first rs w2 = ok (failed, second, w3)"
    by (auto simp: p v u bind_result_eq_Inr)
  from run have out: "po_firstPass out = first" "t1 = t" "w' = w3" "po_secondPass out = map_option (\<lambda>(_, rep, _). rep) second"
    "t2 = (case second of None \<Rightarrow> [] | Some (_, _, t) \<Rightarrow> t)"
    "po_needsHuman out = needs_union (undispatched @ escalations rs @ failed
       @ withheld_rows (case second of None \<Rightarrow> plan1 | Some (p, _) \<Rightarrow> p)
       @ outcome_rows (case second of None \<Rightarrow> first | Some (_, rep, _) \<Rightarrow> rep)
       @ safety_net plan1 first (map_option (\<lambda>(_, rep, _). rep) second))"
    by (auto simp: p v u s)
  show ?thesis
    using p v [unfolded u] s out(4-6) unfolding out(1) [symmetric] out(2,3) [symmetric] by (intro that) (assumption | simp only:)+
qed

lemma second_pass_parts:
  assumes "second_pass dp ds inp first rs w = ok (failed, Some (p, rep, t), w')"
  obtains cs w1 where "plan_and_execute dp ds inp (pass2Set (\<not> Option.is_none (ds_refetch ds)) inp first cs) w1 = ok (p, rep, w', t)"
    "ds_refetch ds = None \<Longrightarrow> cs = ri_prs inp"
    "\<And>f. ds_refetch ds = Some f \<Longrightarrow> f w = (ok cs, w1)"
  using assms unfolding second_pass_def replan_def Let_def
  by (auto simp: bind_result_eq_Inr split: if_splits option.splits sum.splits prod.splits)

lemma open_pass2: "open_numbers (pass2Set b inp first cs) \<inter> set (er_merged first) = {}"
  by (auto simp: open_numbers_def pass2Set_def)

lemma keys_needs_union: "set (map fst (needs_union rows)) = set (map fst rows)" "distinct (map fst (needs_union rows))"
    "sorted (map fst (needs_union rows))"
proof -
  have k: "set (map fst (addRow r m)) = insert (fst r) (set (map fst m))" for r m
    by (simp del: set_map add: addRow_def omap_has_iff set_okeys_omap_set insert_absorb)
  have "set (map fst (fold addRow rows m)) = set (map fst rows) \<union> set (map fst m)" for m
    by (induction rows arbitrary: m) (simp_all del: set_map add: k)
  from this [of "[]"] show "set (map fst (needs_union rows)) = set (map fst rows)" by (simp add: needs_union_def)
  have d: "distinct (map fst m) \<Longrightarrow> distinct (map fst (addRow r m))" for r m
    by (auto simp: addRow_def intro: distinct_omap_set)
  have "distinct (map fst m) \<Longrightarrow> distinct (map fst (fold addRow rows m))" for m
    by (induction rows arbitrary: m) (simp_all add: d)
  then have "distinct (map fst (fold addRow rows []))" by simp
  then show "distinct (map fst (needs_union rows))" unfolding needs_union_def
    by (metis distinct_map distinct_sort set_sort)
  show "sorted (map fst (needs_union rows))" by (simp add: needs_union_def)
qed

lemma keys_rows:
  "set (map fst (withheld_rows p)) = fst ` set (mp_needsHuman p)"
  "set (map fst (outcome_rows q)) = fst ` set (er_stale q) \<union> fst ` set (er_failed q) \<union> set (er_blocked q)"
  by (force simp: withheld_rows_def outcome_rows_def)+

section \<open>A concrete run\<close>

text \<open>One pull request that merges, and one in conflict that the agent resolves and the second pass merges.\<close>

definition candidate :: "pr_no \<Rightarrow> merge_state \<Rightarrow> merge_candidate" where
  "candidate n st =
     \<lparr>pd_pr = n, pd_author = Some ''bob'', pd_draft = False, pd_mergeState = st, pd_truncated = False,
      pd_threads = [], pd_reviews = [member_review APPROVED ''3000''], pd_comments = [], pd_lastCommitAt = Some ''1000'',
      pd_head = None, mc_head = nat_str n, mc_base = ''main'', mc_sha = None, mc_state = Open_pr\<rparr>"

definition two_candidates :: prs_input where
  "two_candidates =
     \<lparr>ri_baseBranch = ''main'', ri_repoRoot = ''/r'', ri_prs = [candidate 9 DIRTY, candidate 4 CLEAN],
      ri_concurrency = None, ri_maxRetries = None, ri_modelSpec = True, ri_disabled = False, ri_now = 601000,
      ri_config = open_policy\<rparr>"

definition calm_deps :: "unit prs_deps" where
  "calm_deps = \<lparr>ds_effects = calm_forge, ds_resolveAll = (\<lambda>is w. (ok (map (\<lambda>_. Resolved_ok ''merged main'') is), w)),
     ds_maxRetries = Some 1, ds_refetch = Some (\<lambda>w. (ok [candidate 9 CLEAN, candidate 4 CLEAN], w))\<rparr>"

definition calm_pass :: "pr_no \<Rightarrow> forge_call list" where
  "calm_pass n = Fetched n (ok calm_answer) # Validated n (ok \<lparr>hp_ok = True, hp_sha = Some ''abc''\<rparr>)
     # calm_checks n ''main'' @ [Merged n None (ok calm_answer)]"

definition calm_first :: exec_report where "calm_first = empty_report\<lparr>er_merged := [4]\<rparr>"

definition calm_plan :: merge_plan where
  "calm_plan = \<lparr>mp_order = [\<lparr>me_pr = 4, me_action = Merge_it, me_basePr = None, me_depth = 0, me_baseRefName = None,
       me_headSha = None\<rparr>], mp_needsHuman = [(9, Not_eligible)], mp_baseBranch = ''main''\<rparr>"

definition calm_outcome :: prs_outcome where
  "calm_outcome =
     \<lparr>po_firstPass = calm_first, po_secondPass = Some (empty_report\<lparr>er_merged := [9]\<rparr>),
      po_resolutions = [\<lparr>rs_pr = 9, rs_decision = Acted, rs_summary = ''merged main''\<rparr>],
      po_needsHuman = [],
      po_diagnosis = \<lparr>dg_merged = 1, dg_retargeted = 0, dg_needsHuman = [], dg_causes = []\<rparr>\<rparr>"

lemma calm_first_pass:
  "plan_and_execute decimal_dates calm_deps two_candidates (ri_prs two_candidates) () = ok (calm_plan, calm_first, (), calm_pass 4)"
  by code_simp

lemma calm_resolve:
  "resolve_stage calm_deps two_candidates (classifyStage decimal_dates (ri_now two_candidates) (ri_config two_candidates)
     (ri_prs two_candidates)) () = (ok ([], po_resolutions calm_outcome), ())"
  by code_simp

lemma calm_second:
  "second_pass decimal_dates calm_deps two_candidates calm_first (po_resolutions calm_outcome) ()
     = ok ([], Some (\<lparr>mp_order = [\<lparr>me_pr = 9, me_action = Merge_it, me_basePr = None, me_depth = 0, me_baseRefName = None,
         me_headSha = None\<rparr>], mp_needsHuman = [], mp_baseBranch = ''main''\<rparr>, empty_report\<lparr>er_merged := [9]\<rparr>, calm_pass 9), ())"
  by code_simp

lemma calm_pipeline: "runMergePrs decimal_dates calm_deps two_candidates () = ok (calm_outcome, (), calm_pass 4, calm_pass 9)"
  by (simp add: runMergePrs_def Let_def calm_first_pass calm_resolve calm_second)
    (simp add: calm_outcome_def calm_first_def empty_report_def calm_plan_def two_candidates_def escalations_def
      withheld_rows_def outcome_rows_def safety_net_def needs_union_def addRow_def omap_has_def diagnoseMergeFailure_def)

section \<open>The promises\<close>

text \<open>C9 Nothing merges uninvited, end to end: a merge call of a pass is for an open candidate that the acceptance table
calls eligible, is pinned to the candidate's head when that is a full SHA, follows at once on a read of the forge that
named the candidate's base, and that base is the trunk or the head branch of an open candidate whose pull request this
pass has already retargeted.\<close>

theorem pass_merges_eligible:
  assumes "plan_and_execute dp ds inp cs w = ok (p, rep, w', as @ Merged n pin a # bs)"
  shows "\<exists>c. c \<in> set cs \<and> pd_pr c = n \<and> mc_state c = Open_pr
     \<and> pc_verdict (classifyPr dp (pr_candidate.truncate c) (ri_now inp) (ri_config inp)) = Eligible
     \<and> (\<forall>s. mc_sha c = Some s \<longrightarrow> is_sha40 s \<longrightarrow> pin = Some s)
     \<and> (\<exists>as' q. as = as' @ [Based n (ok q)] \<and> bp_name q = Some (mc_base c))
     \<and> (mc_base c = ri_baseBranch inp \<or> (\<exists>c' b g. c' \<in> set cs \<and> mc_state c' = Open_pr \<and> mc_head c' = mc_base c
          \<and> Retargeted (pd_pr c') b (ok g) \<in> set as \<and> gh_code g = 0))"
proof -
  obtain c where c: "c \<in> set cs" "pd_pr c = n" "mc_state c = Open_pr"
    "pc_verdict (classifyPr dp (pr_candidate.truncate c) (ri_now inp) (ri_config inp)) = Eligible"
    "\<forall>s. mc_sha c = Some s \<longrightarrow> is_sha40 s \<longrightarrow> pin = Some s"
    "\<exists>as' q. as = as' @ [Based n (ok q)] \<and> bp_name q = Some (mc_base c)"
    "mc_base c = ri_baseBranch inp \<or> (\<exists>b c'. moved b as \<and> c' \<in> set cs \<and> pd_pr c' = b
          \<and> mc_state c' = Open_pr \<and> mc_head c' = mc_base c)"
    using pass_merge [OF assms] by blast
  have "\<exists>g. a' = ok g \<and> gh_code g = 0" if "succeeded a'" for a' using that by (auto simp: succeeded_def split: sum.splits)
  then have "mc_base c = ri_baseBranch inp \<or> (\<exists>c' b g. c' \<in> set cs \<and> mc_state c' = Open_pr \<and> mc_head c' = mc_base c
          \<and> Retargeted (pd_pr c') b (ok g) \<in> set as \<and> gh_code g = 0)"
    using c(7) unfolding moved_def by metis
  then show ?thesis using c(1-6) by blast
qed

theorem pass_merges_eligible_witness:
  "\<exists>c. c \<in> set (ri_prs two_candidates) \<and> pd_pr c = 4
     \<and> pc_verdict (classifyPr decimal_dates (pr_candidate.truncate c) 601000 open_policy) = Eligible"
proof -
  have t: "calm_pass 4 = butlast (calm_pass 4) @ Merged 4 None (ok calm_answer) # []"
    by (simp add: calm_pass_def calm_checks_def)
  have run: "plan_and_execute decimal_dates calm_deps two_candidates (ri_prs two_candidates) ()
      = ok (calm_plan, calm_first, (), butlast (calm_pass 4) @ Merged 4 None (ok calm_answer) # [])"
    unfolding t [symmetric] by (rule calm_first_pass)
  have "ri_now two_candidates = 601000" "ri_config two_candidates = open_policy" by (simp_all add: two_candidates_def)
  then show ?thesis using pass_merges_eligible [OF run] by metis
qed

text \<open>No pull request is merged twice: what the first pass merged, the second pass neither merges nor retargets.\<close>

lemma never_remerges:
  assumes "runMergePrs dp ds inp w = ok (out, w', t1, t2)" "n \<in> set (er_merged (po_firstPass out))"
  shows "Merged n pin a \<notin> set t2 \<and> Retargeted n b a \<notin> set t2"
proof -
  obtain rs w2 failed second where s: "second_pass dp ds inp (po_firstPass out) rs w2 = ok (failed, second, w')"
    "t2 = (case second of None \<Rightarrow> [] | Some (_, _, t) \<Rightarrow> t)"
    using runMergePrs_parts [OF assms(1)] by metis
  show ?thesis
  proof (cases second)
    case None
    then show ?thesis using s(2) by simp
  next
    case (Some x)
    obtain p rep t where x: "x = (p, rep, t)" by (cases x) auto
    obtain cs w1 where r: "plan_and_execute dp ds inp (pass2Set (\<not> Option.is_none (ds_refetch ds)) inp (po_firstPass out) cs) w1
        = ok (p, rep, w', t)"
      using second_pass_parts s(1) unfolding Some x by metis
    have no: "n \<notin> open_numbers (pass2Set (\<not> Option.is_none (ds_refetch ds)) inp (po_firstPass out) cs)"
      using open_pass2 [of "\<not> Option.is_none (ds_refetch ds)" inp "po_firstPass out" cs] assms(2) by blast
    have "c \<notin> set t" if "c = Merged n pin a \<or> c = Retargeted n b a" for c
    proof
      assume "c \<in> set t"
      then obtain xs ys where "t = xs @ c # ys" by (meson split_list)
      then show False using pass_call_ordered [OF r [unfolded \<open>t = xs @ c # ys\<close>]] that no by auto
    qed
    then show ?thesis using s(2) Some x by auto
  qed
qed

text \<open>C10 No open pull request vanishes: each one given to the pipeline is merged or retargeted in one of the passes
or is in the list a human works, and that list has each number once, in order.\<close>

theorem nothing_vanishes:
  assumes "runMergePrs dp ds inp w = ok (out, w', t1, t2)"
  shows "(\<forall>n \<in> open_numbers (ri_prs inp). n \<in> fst ` set (po_needsHuman out)
        \<or> (\<exists>rep. (rep = po_firstPass out \<or> po_secondPass out = Some rep) \<and> n \<in> set (er_merged rep) \<union> set (er_retargeted rep)))
      \<and> distinct (map fst (po_needsHuman out)) \<and> sorted (map fst (po_needsHuman out))"
proof -
  let ?first = "po_firstPass out"
  obtain plan1 w1 undispatched rs w2 failed second where p1: "plan_and_execute dp ds inp (ri_prs inp) w = ok (plan1, ?first, w1, t1)"
    and "resolve_stage ds inp (classifyStage dp (ri_now inp) (ri_config inp) (ri_prs inp)) w1 = (ok (undispatched, rs), w2)"
    and "second_pass dp ds inp ?first rs w2 = ok (failed, second, w')"
    and second: "po_secondPass out = map_option (\<lambda>(_, rep, _). rep) second"
    and "t2 = (case second of None \<Rightarrow> [] | Some (_, _, t) \<Rightarrow> t)"
    and human: "po_needsHuman out = needs_union (undispatched @ escalations rs @ failed
       @ withheld_rows (case second of None \<Rightarrow> plan1 | Some (p, _) \<Rightarrow> p)
       @ outcome_rows (case second of None \<Rightarrow> ?first | Some (_, rep, _) \<Rightarrow> rep)
       @ safety_net plan1 ?first (po_secondPass out))"
    by (rule runMergePrs_parts [OF assms])
  note keys = keys_needs_union [of "undispatched @ escalations rs @ failed
       @ withheld_rows (case second of None \<Rightarrow> plan1 | Some (p, _) \<Rightarrow> p)
       @ outcome_rows (case second of None \<Rightarrow> ?first | Some (_, rep, _) \<Rightarrow> rep)
       @ safety_net plan1 ?first (po_secondPass out)", folded human]
  have "n \<in> fst ` set (po_needsHuman out)
        \<or> (\<exists>rep. (rep = ?first \<or> po_secondPass out = Some rep) \<and> n \<in> set (er_merged rep) \<union> set (er_retargeted rep))"
    if n: "n \<in> open_numbers (ri_prs inp)" for n
  proof (cases "n \<in> set (er_merged ?first) \<union> set (er_retargeted ?first)")
    case False
    have "n \<in> me_pr ` set (mp_order plan1) \<or> n \<in> fst ` set (mp_needsHuman plan1)"
      using n pass_numbers(1) [OF p1] by blast
    then have row: "n \<in> set (map fst (outcome_rows ?first @ withheld_rows plan1))"
      using False unfolding pass_numbers(2) [OF p1, symmetric] buckets_def map_append set_append keys_rows by auto
    show ?thesis
    proof (cases second)
      case None
      then have "n \<in> set (map fst (po_needsHuman out))" using row unfolding keys(1) by auto
      then show ?thesis by simp
    next
      case (Some x)
      obtain p rep t where x: "x = (p, rep, t)" by (cases x) auto
      have rep: "po_secondPass out = Some rep" using second Some x by simp
      show ?thesis
      proof (cases "n \<in> set (er_merged rep) \<union> set (er_retargeted rep)")
        case True
        then show ?thesis using rep by blast
      next
        case False
        then have "n \<in> set (map fst (safety_net plan1 ?first (po_secondPass out)))"
          using row unfolding rep safety_net_def by auto
        then have "n \<in> set (map fst (po_needsHuman out))" unfolding keys(1) by auto
        then show ?thesis by simp
      qed
    qed
  qed blast
  then show ?thesis using keys(2,3) by blast
qed

theorem nothing_vanishes_witness:
  "9 \<in> fst ` set (po_needsHuman calm_outcome) \<or> (\<exists>rep. (rep = po_firstPass calm_outcome \<or> po_secondPass calm_outcome = Some rep)
     \<and> 9 \<in> set (er_merged rep) \<union> set (er_retargeted rep))"
proof -
  have "candidate 9 DIRTY \<in> set (ri_prs two_candidates)" "pd_pr (candidate 9 DIRTY) = 9" "mc_state (candidate 9 DIRTY) = Open_pr"
    by (simp_all add: two_candidates_def candidate_def)
  then have "9 \<in> open_numbers (ri_prs two_candidates)" unfolding open_numbers_def by force
  then show ?thesis using nothing_vanishes [OF calm_pipeline] by blast
qed

end
