(* ===== verification/Merge_Args.thy ===== *)
theory Merge_Args
  imports Merge_Classify
begin

text \<open>
  The guard of the merge effects (\<open>safeArgs\<close>, \<open>safeRunner\<close> of \<open>src/adapters/forge-github/mergeEffects.ts\<close>) and the
  command lines the production effects build. The guard is shown to accept exactly the documented
  shapes, which no force, no foreign merge method and no protected destination can take.
\<close>

section \<open>The guard\<close>

definition pushDestination :: "string \<Rightarrow> string" where
  "pushDestination r = (if CHR '':'' \<in> set r then tl (dropWhile (\<lambda>c. c \<noteq> CHR '':'') r) else r)"

definition DEFAULT_PROTECTED_BRANCH :: string where "DEFAULT_PROTECTED_BRANCH = ''main''"

definition isProtectedRef :: "string \<Rightarrow> string \<Rightarrow> bool" where
  "isProtectedRef r b \<longleftrightarrow> r = b \<or> r = ''refs/heads/'' @ b"

datatype unsafe_args =
    Unknown_shape | Fetch_protected string | Worktree_flag string | Push_flag string
  | Push_forced string | Push_not_explicit string | Push_protected string

definition is_flag :: "string \<Rightarrow> bool" where
  "is_flag s \<longleftrightarrow> (case s of [] \<Rightarrow> False | c # _ \<Rightarrow> c = CHR ''-'')"

definition strip_plus :: "string \<Rightarrow> string" where
  "strip_plus s = (case s of [] \<Rightarrow> [] | c # cs \<Rightarrow> if c = CHR ''+'' then cs else s)"

definition digits_only :: "string \<Rightarrow> bool" where
  "digits_only s \<longleftrightarrow> s \<noteq> [] \<and> list_all is_digit s"

text \<open>The first refspec of a list that is refused, with its reason.\<close>

fun fetch_check :: "string \<Rightarrow> string list \<Rightarrow> unsafe_args option" where
  "fetch_check b [] = None"
| "fetch_check b (r # rs) =
     (if CHR '':'' \<in> set r \<and> isProtectedRef (pushDestination (strip_plus r)) b then Some (Fetch_protected r)
      else fetch_check b rs)"

definition explicit_refspec :: "string \<Rightarrow> bool" where
  "explicit_refspec r \<longleftrightarrow>
     (let src = takeWhile (\<lambda>c. c \<noteq> CHR '':'') r in src \<noteq> [] \<and> length src + 1 < length r)"

fun push_check :: "string \<Rightarrow> string list \<Rightarrow> unsafe_args option" where
  "push_check b [] = None"
| "push_check b (r # rs) =
     (if (case r of [] \<Rightarrow> False | c # _ \<Rightarrow> c = CHR ''+'') then Some (Push_forced r)
      else if \<not> explicit_refspec r then Some (Push_not_explicit r)
      else if isProtectedRef (pushDestination r) b then Some (Push_protected (pushDestination r))
      else push_check b rs)"

definition worktree_check :: "string list \<Rightarrow> unsafe_args option" where
  "worktree_check rest =
     (case rest of
        _ # verb # tail \<Rightarrow>
          if verb = ''add'' then if length rest = 6 \<and> rest ! 2 = ''-B'' then None else Some Unknown_shape
          else if verb = ''list'' \<or> verb = ''remove'' then
            if tail = [] then Some Unknown_shape
            else map_option Worktree_flag (List.find is_flag tail)
          else Some Unknown_shape
      | _ \<Rightarrow> Some Unknown_shape)"

definition pr_check :: "string list \<Rightarrow> unsafe_args option" where
  "pr_check rest =
     (case rest of
        [_, verb, n, flag] \<Rightarrow>
          if verb = ''merge'' \<and> digits_only n \<and> flag = ''--merge'' then None else Some Unknown_shape
      | [_, verb, n, flag, base] \<Rightarrow>
          if verb = ''edit'' \<and> digits_only n \<and> flag = ''--base'' \<and> base \<noteq> [] then None
          else if verb = ''view'' \<and> digits_only n \<and> flag = ''--json'' \<and> base = ''baseRefName'' then None
          else Some Unknown_shape
      | [_, verb, n, flag, pin, sha] \<Rightarrow>
          if verb = ''merge'' \<and> digits_only n \<and> flag = ''--merge'' \<and> pin = ''--match-head-commit'' \<and> is_sha40 sha then None
          else Some Unknown_shape
      | _ \<Rightarrow> Some Unknown_shape)"

definition strip_prefix :: "string list \<Rightarrow> string list" where
  "strip_prefix args = (case args of a # _ \<Rightarrow> if a = ''-C'' then drop 2 args else args | [] \<Rightarrow> [])"

definition shape_check :: "string \<Rightarrow> string list \<Rightarrow> unsafe_args option" where
  "shape_check b rest =
     (case rest of
        [] \<Rightarrow> Some Unknown_shape
      | sub # tail \<Rightarrow>
          if sub = ''rev-parse'' then if tail = [] then Some Unknown_shape else None
          else if sub = ''fetch'' then if length tail < 2 then Some Unknown_shape else fetch_check b (tl tail)
          else if sub = ''worktree'' then worktree_check rest
          else if sub = ''push'' then
            (case List.find is_flag tail of
               Some f \<Rightarrow> Some (Push_flag f)
             | None \<Rightarrow> if length tail < 2 then Some Unknown_shape else push_check b (tl tail))
          else if sub = ''pr'' then pr_check rest
          else Some Unknown_shape)"

definition safeArgs :: "string option \<Rightarrow> string list \<Rightarrow> unsafe_args + string list" where
  "safeArgs b args =
     (case shape_check (case b of None \<Rightarrow> DEFAULT_PROTECTED_BRANCH | Some x \<Rightarrow> x) (strip_prefix args) of
        None \<Rightarrow> ok args
      | Some e \<Rightarrow> throw e)"

text \<open>The runner throws before the command runs: the state of the world is untouched.\<close>

definition safeRunner :: "string option \<Rightarrow> (string list \<Rightarrow> 'w \<Rightarrow> 'r \<times> 'w) \<Rightarrow> string list \<Rightarrow> 'w \<Rightarrow> (unsafe_args + 'r) \<times> 'w" where
  "safeRunner b run args w =
     (case safeArgs b args of Inl e \<Rightarrow> (throw e, w) | Inr a \<Rightarrow> (case run a w of (r, w') \<Rightarrow> (ok r, w')))"

section \<open>The command lines of the effects\<close>

definition validateRef_args :: "string \<Rightarrow> string \<Rightarrow> string list" where
  "validateRef_args dir r = [''-C'', dir, ''rev-parse'', ''--verify'', ''--quiet'', r @ ''^{commit}'']"

definition fetchRef_args :: "string \<Rightarrow> string \<Rightarrow> string list" where
  "fetchRef_args dir r = [''-C'', dir, ''fetch'', ''origin'', ''+'' @ r @ '':'' @ r]"

definition readBaseRef_args :: "nat \<Rightarrow> string list" where
  "readBaseRef_args n = [''pr'', ''view'', nat_str n, ''--json'', ''baseRefName'']"

definition mergePr_args :: "nat \<Rightarrow> string option \<Rightarrow> string list" where
  "mergePr_args n pin = [''pr'', ''merge'', nat_str n, ''--merge''] @
     (case pin of None \<Rightarrow> [] | Some s \<Rightarrow> [''--match-head-commit'', s])"

definition retargetBase_args :: "nat \<Rightarrow> string \<Rightarrow> string list" where
  "retargetBase_args n b = [''pr'', ''edit'', nat_str n, ''--base'', b]"

definition worktreePrepare_args :: "string \<Rightarrow> nat \<Rightarrow> string \<Rightarrow> string \<Rightarrow> string list" where
  "worktreePrepare_args dir n path r = [''-C'', dir, ''worktree'', ''add'', ''-B'', ''cq-merge/pr-'' @ nat_str n, path, r]"

definition worktreeRemove_args :: "string \<Rightarrow> string \<Rightarrow> string list" where
  "worktreeRemove_args dir path = [''-C'', dir, ''worktree'', ''remove'', path]"

definition pushRef_args :: "string \<Rightarrow> string \<Rightarrow> string list" where
  "pushRef_args dir r = [''-C'', dir, ''push'', ''origin'', r]"

section \<open>What the guard accepts\<close>

lemma fetch_check_None: "fetch_check b rs = None \<longleftrightarrow>
    (\<forall>r \<in> set rs. CHR '':'' \<in> set r \<longrightarrow> \<not> isProtectedRef (pushDestination (strip_plus r)) b)"
  by (induction rs) auto

text \<open>An explicit refspec that is not protected.\<close>

definition pushable :: "string \<Rightarrow> string \<Rightarrow> bool" where
  "pushable b r \<longleftrightarrow> (\<exists>src dst. r = src @ CHR '':'' # dst \<and> CHR '':'' \<notin> set src \<and> src \<noteq> [] \<and> dst \<noteq> []
     \<and> hd src \<noteq> CHR ''+'' \<and> \<not> isProtectedRef dst b)"

lemma colon_split: "CHR '':'' \<notin> set src \<Longrightarrow>
    pushDestination (src @ CHR '':'' # dst) = dst \<and> takeWhile (\<lambda>c. c \<noteq> CHR '':'') (src @ CHR '':'' # dst) = src"
  by (auto simp: pushDestination_def dropWhile_append takeWhile_append)

lemma explicit_refspec_iff: "explicit_refspec r \<longleftrightarrow>
    (\<exists>src dst. r = src @ CHR '':'' # dst \<and> CHR '':'' \<notin> set src \<and> src \<noteq> [] \<and> dst \<noteq> [])"
proof
  assume e: "explicit_refspec r"
  let ?src = "takeWhile (\<lambda>c. c \<noteq> CHR '':'') r"
  have "dropWhile (\<lambda>c. c \<noteq> CHR '':'') r \<noteq> []"
    using e unfolding explicit_refspec_def Let_def by (metis add_lessD1 append.right_neutral less_irrefl takeWhile_dropWhile_id)
  then obtain c dst where d: "dropWhile (\<lambda>c. c \<noteq> CHR '':'') r = c # dst" by (cases "dropWhile (\<lambda>c. c \<noteq> CHR '':'') r") auto
  then have "c = CHR '':''" by (metis (mono_tags, lifting) dropWhile_eq_Cons_conv)
  then have r: "r = ?src @ CHR '':'' # dst" using d by (metis takeWhile_dropWhile_id)
  have "CHR '':'' \<notin> set ?src" by (auto dest: set_takeWhileD)
  moreover have "dst \<noteq> []"
  proof
    assume "dst = []"
    then have "length r = length ?src + 1" using r by (metis length_append_singleton Suc_eq_plus1)
    then show False using e by (simp add: explicit_refspec_def Let_def)
  qed
  ultimately show "\<exists>src dst. r = src @ CHR '':'' # dst \<and> CHR '':'' \<notin> set src \<and> src \<noteq> [] \<and> dst \<noteq> []"
    using r e unfolding explicit_refspec_def Let_def by blast
next
  assume "\<exists>src dst. r = src @ CHR '':'' # dst \<and> CHR '':'' \<notin> set src \<and> src \<noteq> [] \<and> dst \<noteq> []"
  then obtain src dst where "r = src @ CHR '':'' # dst" "CHR '':'' \<notin> set src" "src \<noteq> []" "dst \<noteq> []" by blast
  then show "explicit_refspec r" using colon_split [of src dst] by (auto simp: explicit_refspec_def)
qed

lemma push_check_None: "push_check b rs = None \<longleftrightarrow> (\<forall>r \<in> set rs. pushable b r)"
proof (induction rs)
  case (Cons r rs)
  have "pushable b r \<longleftrightarrow> \<not> (case r of [] \<Rightarrow> False | c # _ \<Rightarrow> c = CHR ''+'') \<and> explicit_refspec r
      \<and> \<not> isProtectedRef (pushDestination r) b"
  proof (cases "explicit_refspec r")
    case True
    then obtain src dst where r: "r = src @ CHR '':'' # dst" "CHR '':'' \<notin> set src" "src \<noteq> []" "dst \<noteq> []"
      unfolding explicit_refspec_iff by blast
    have uniq: "src' = src \<and> dst' = dst" if "r = src' @ CHR '':'' # dst'" "CHR '':'' \<notin> set src'" for src' dst'
      using colon_split [OF r(2), of dst] colon_split [OF that(2), of dst'] that(1) r(1) by metis
    have d: "pushDestination r = dst" using colon_split [OF r(2), of dst] r(1) by simp
    have h: "(case r of [] \<Rightarrow> False | c # _ \<Rightarrow> c = CHR ''+'') \<longleftrightarrow> hd src = CHR ''+''" using r(1,3) by (cases src) auto
    show ?thesis unfolding d h pushable_def using True r uniq by metis
  next
    case False
    then show ?thesis unfolding pushable_def explicit_refspec_iff by blast
  qed
  then show ?case using Cons by simp
qed simp

lemma length_4: "length xs = 4 \<longleftrightarrow> (\<exists>a b c d. xs = [a, b, c, d])"
  by (auto simp: length_Suc_conv eval_nat_numeral)

text \<open>The documented shapes.\<close>

definition documented :: "string \<Rightarrow> string list \<Rightarrow> bool" where
  "documented b rest \<longleftrightarrow>
     (\<exists>x xs. rest = ''rev-parse'' # x # xs) \<or>
     (\<exists>rm r rs. rest = ''fetch'' # rm # r # rs
        \<and> (\<forall>x \<in> set (r # rs). CHR '':'' \<in> set x \<longrightarrow> \<not> isProtectedRef (pushDestination (strip_plus x)) b)) \<or>
     (\<exists>l path r. rest = [''worktree'', ''add'', ''-B'', l, path, r]) \<or>
     (\<exists>v x xs. rest = ''worktree'' # v # x # xs \<and> v \<in> {''list'', ''remove''} \<and> (\<forall>y \<in> set (x # xs). \<not> is_flag y)) \<or>
     (\<exists>rm r rs. rest = ''push'' # rm # r # rs \<and> (\<forall>y \<in> set (rm # r # rs). \<not> is_flag y) \<and> (\<forall>x \<in> set (r # rs). pushable b x)) \<or>
     (\<exists>n. digits_only n \<and>
        (rest = [''pr'', ''merge'', n, ''--merge''] \<or>
         (\<exists>sha. is_sha40 sha \<and> rest = [''pr'', ''merge'', n, ''--merge'', ''--match-head-commit'', sha]) \<or>
         (\<exists>base. base \<noteq> [] \<and> rest = [''pr'', ''edit'', n, ''--base'', base]) \<or>
         rest = [''pr'', ''view'', n, ''--json'', ''baseRefName'']))"

lemma worktree_check_None: "worktree_check (''worktree'' # tail) = None \<longleftrightarrow>
    (\<exists>l path r. tail = [''add'', ''-B'', l, path, r]) \<or>
    (\<exists>v x xs. tail = v # x # xs \<and> v \<in> {''list'', ''remove''} \<and> (\<forall>y \<in> set (x # xs). \<not> is_flag y))"
proof (cases tail)
  case (Cons v xs)
  have five: "length xs = 4 \<and> xs ! 0 = ''-B'' \<longleftrightarrow> (\<exists>l path r. xs = [''-B'', l, path, r])"
    unfolding length_4 by auto
  show ?thesis
    using five Cons by (cases xs) (auto simp: worktree_check_def find_None_iff)
qed (simp add: worktree_check_def)

lemma pr_check_None: "pr_check (''pr'' # tail) = None \<longleftrightarrow>
    (\<exists>n. digits_only n \<and>
        (tail = [''merge'', n, ''--merge''] \<or>
         (\<exists>sha. is_sha40 sha \<and> tail = [''merge'', n, ''--merge'', ''--match-head-commit'', sha]) \<or>
         (\<exists>base. base \<noteq> [] \<and> tail = [''edit'', n, ''--base'', base]) \<or>
         tail = [''view'', n, ''--json'', ''baseRefName'']))"
  by (auto simp: pr_check_def split: list.splits)

lemma shape_check_None: "shape_check b rest = None \<longleftrightarrow> documented b rest"
proof (cases rest)
  case (Cons sub tail)
  consider "sub = ''rev-parse''" | "sub = ''fetch''" | "sub = ''worktree''" | "sub = ''push''" | "sub = ''pr''"
    | "sub \<notin> {''rev-parse'', ''fetch'', ''worktree'', ''push'', ''pr''}" by blast
  then show ?thesis
  proof cases
    case 1
    then show ?thesis using Cons by (cases tail) (auto simp: shape_check_def documented_def)
  next
    case 2
    then show ?thesis using Cons
      by (cases tail; cases "tl tail") (auto simp: shape_check_def documented_def fetch_check_None)
  next
    case 3
    then show ?thesis using Cons by (simp add: shape_check_def documented_def worktree_check_None)
  next
    case 4
    have "shape_check b rest = None \<longleftrightarrow> (\<forall>y \<in> set tail. \<not> is_flag y) \<and> 2 \<le> length tail \<and> (\<forall>x \<in> set (tl tail). pushable b x)"
      using 4 Cons by (auto simp: shape_check_def push_check_None find_None_iff find_Some_iff split: option.splits)
    then show ?thesis using 4 Cons by (cases tail; cases "tl tail") (auto simp: documented_def)
  next
    case 5
    then show ?thesis using Cons by (simp add: shape_check_def documented_def pr_check_None)
  next
    case 6
    then show ?thesis using Cons by (auto simp: shape_check_def documented_def)
  qed
qed (simp add: shape_check_def documented_def)

text \<open>C30 The guard is exact: behind it a command runs, as it was given, when its arguments are one of the documented
shapes after the \<open>-C\<close> prefix, and otherwise the call throws with the world untouched. No documented shape forces,
deletes, pushes or fetches over the protected branch, or merges by another method.\<close>

theorem guard_exact:
  "if documented (case b of None \<Rightarrow> ''main'' | Some x \<Rightarrow> x) (strip_prefix args)
   then safeRunner b run args w = (ok (fst (run args w)), snd (run args w))
   else \<exists>e. safeRunner b run args w = (throw e, w)"
  using shape_check_None [of "case b of None \<Rightarrow> ''main'' | Some x \<Rightarrow> x" "strip_prefix args"]
  by (auto simp: safeRunner_def safeArgs_def DEFAULT_PROTECTED_BRANCH_def split: option.splits prod.splits)

text \<open>The destination is compared with two spellings of the protected branch only.\<close>

lemma other_spelling_passes: "safeArgs None [''push'', ''origin'', ''feat:heads/main''] = ok [''push'', ''origin'', ''feat:heads/main'']"
  by code_simp

lemma is_digit_digit: "d < 10 \<Longrightarrow> is_digit (digit d)"
  unfolding is_digit_def char_between_def by (simp add: of_char_digit)

lemma digits_nat_str: "digits_only (nat_str n)"
proof -
  have "list_all is_digit (nat_str n)"
    by (induction n rule: nat_str.induct) (subst nat_str.simps, simp add: is_digit_digit)
  moreover have "nat_str n \<noteq> []" by (subst nat_str.simps) simp
  ultimately show ?thesis by (simp add: digits_only_def)
qed

text \<open>The production effects stay inside the guard: none of their command lines is refused, for any pull request,
when the head is pinned by a full SHA or not at all, the new base is not empty, a fetched ref has no colon and is not
the protected branch, a worktree path is no flag, and a pushed refspec is explicit, unforced and not protected.\<close>

lemma effects_pass_guard:
  assumes "\<And>s. pin = Some s \<Longrightarrow> is_sha40 s" "base \<noteq> []" "CHR '':'' \<notin> set r"
    "\<not> isProtectedRef r (case b of None \<Rightarrow> ''main'' | Some x \<Rightarrow> x)" "\<not> is_flag path"
    "pushable (case b of None \<Rightarrow> ''main'' | Some x \<Rightarrow> x) spec" "\<not> is_flag spec"
  shows "list_all (\<lambda>args. safeArgs b args = ok args)
    [validateRef_args dir r, fetchRef_args dir r, readBaseRef_args n, mergePr_args n pin, retargetBase_args n base,
     worktreePrepare_args dir n path r, worktreeRemove_args dir path, pushRef_args dir spec]"
proof -
  let ?b = "case b of None \<Rightarrow> ''main'' | Some x \<Rightarrow> x"
  have ok: "safeArgs b args = ok args \<longleftrightarrow> documented ?b (strip_prefix args)" for args
    unfolding shape_check_None [symmetric] by (auto simp: safeArgs_def DEFAULT_PROTECTED_BRANCH_def split: option.splits)
  have fetch: "pushDestination (strip_plus (CHR ''+'' # r @ CHR '':'' # r)) = r"
    using colon_split [OF assms(3), of r] by (simp add: strip_plus_def)
  have "documented ?b (strip_prefix (mergePr_args n pin))"
    using assms(1) digits_nat_str [of n] by (cases pin) (auto simp: documented_def strip_prefix_def mergePr_args_def)
  moreover have "documented ?b (strip_prefix (fetchRef_args dir r))"
    using assms(4) fetch by (auto simp: documented_def strip_prefix_def fetchRef_args_def)
  moreover have "documented ?b (strip_prefix (pushRef_args dir spec))"
    using assms(6,7) by (auto simp: documented_def strip_prefix_def pushRef_args_def is_flag_def)
  moreover have "documented ?b (strip_prefix (worktreeRemove_args dir path))"
    using assms(5) by (auto simp: documented_def strip_prefix_def worktreeRemove_args_def)
  ultimately show ?thesis
    using assms(2) digits_nat_str [of n]
    by (simp add: ok) (simp add: documented_def strip_prefix_def validateRef_args_def readBaseRef_args_def
      retargetBase_args_def worktreePrepare_args_def)
qed

end
