(* ===== verification/Settle_Ledger.thy ===== *)
theory Settle_Ledger
  imports Merge_Classify
begin

text \<open>
  The settle ledger of \<open>src/policy/queue/settle-state.ts\<close>: observations of the code that would merge, the settle
  rule over them, and the strict reading of a persisted ledger. \<open>Date.parse\<close> and \<open>toISOString\<close> are parameters; times are
  whole milliseconds. The text of the ledger is \<open>JSON.stringify\<close> of the value built here.
\<close>

section \<open>The ledger\<close>

definition SETTLE_STATE_VERSION :: int where "SETTLE_STATE_VERSION = 1"

definition MAX_OBSERVATIONS_PER_PR :: nat where "MAX_OBSERVATIONS_PER_PR = 8"

definition MAX_SAFE :: int where "MAX_SAFE = 2 ^ 53 - 1"

text \<open>The last millisecond a \<open>Date\<close> can hold; \<open>toISOString\<close> throws beyond it.\<close>

definition MAX_TIME :: int where "MAX_TIME = 8640000000000000"

record settle_tuple =
  sp_head :: string
  sp_base :: string
  sp_epoch :: int

record observation =
  ob_at :: string
  ob_by :: string

record settle_record =
  sr_tuple :: settle_tuple
  sr_obs :: "observation list"

record settle_state =
  ss_repo :: string
  ss_prs :: "(string, settle_record) omap"

datatype not_settled = No_observation | Tuple_changed | Single_observation | Settle_pending | Observation_in_future

datatype settle_verdict = Settled string int | Not_settled not_settled

definition is_lower_sha :: "string \<Rightarrow> bool" where
  "is_lower_sha s \<longleftrightarrow> length s = 40 \<and> list_all (\<lambda>c. is_digit c \<or> char_between CHR ''a'' CHR ''f'' c) s"

datatype settle_error =
    Bad_pr | Bad_head | Bad_base | Bad_epoch | Bad_clock | Bad_by | Bad_settle

definition tupleProblem :: "settle_tuple \<Rightarrow> settle_error option" where
  "tupleProblem t =
     (if \<not> is_lower_sha (sp_head t) then Some Bad_head
      else if \<not> is_lower_sha (sp_base t) then Some Bad_base
      else if sp_epoch t < 0 \<or> sp_epoch t > MAX_SAFE then Some Bad_epoch
      else None)"

definition emptySettleState :: "string \<Rightarrow> settle_state" where
  "emptySettleState repo = \<lparr>ss_repo = repo, ss_prs = []\<rparr>"

definition sameTuple :: "settle_tuple \<Rightarrow> settle_tuple \<Rightarrow> bool" where
  "sameTuple a b \<longleftrightarrow> sp_head a = sp_head b \<and> sp_base a = sp_base b \<and> sp_epoch a = sp_epoch b"

section \<open>Observing\<close>

datatype observation_change = Created | Reset_record | Appended

definition compacted :: "observation list \<Rightarrow> observation list" where
  "compacted os =
     (case os of
        o1 # _ \<Rightarrow> if length os > MAX_OBSERVATIONS_PER_PR
          then o1 # drop (length os - (MAX_OBSERVATIONS_PER_PR - 1)) os else os
      | [] \<Rightarrow> os)"

definition observeWithChange :: "(int \<Rightarrow> string) \<Rightarrow> settle_state \<Rightarrow> nat \<Rightarrow> settle_tuple \<Rightarrow> int \<Rightarrow> string
    \<Rightarrow> settle_error + settle_state \<times> observation_change" where
  "observeWithChange fmt st pr t nowMs by_whom =
     (if pr = 0 \<or> int pr > MAX_SAFE then throw Bad_pr
      else case tupleProblem t of
        Some e \<Rightarrow> throw e
      | None \<Rightarrow>
          if blank by_whom then throw Bad_by
          else if \<bar>nowMs\<bar> > MAX_TIME then throw Bad_clock
          else (let key = nat_str pr; ob = \<lparr>ob_at = fmt nowMs, ob_by = by_whom\<rparr>;
                    fresh = \<lparr>sr_tuple = t, sr_obs = [ob]\<rparr>
                in case map_of (ss_prs st) key of
                     None \<Rightarrow> ok (st\<lparr>ss_prs := omap_set key fresh (ss_prs st)\<rparr>, Created)
                   | Some prior \<Rightarrow>
                       if sameTuple (sr_tuple prior) t
                       then ok (st\<lparr>ss_prs := omap_set key \<lparr>sr_tuple = t, sr_obs = compacted (sr_obs prior @ [ob])\<rparr>
                              (ss_prs st)\<rparr>, Appended)
                       else ok (st\<lparr>ss_prs := omap_set key fresh (ss_prs st)\<rparr>, Reset_record)))"

definition observe :: "(int \<Rightarrow> string) \<Rightarrow> settle_state \<Rightarrow> nat \<Rightarrow> settle_tuple \<Rightarrow> int \<Rightarrow> string \<Rightarrow> settle_error + settle_state" where
  "observe fmt st pr t nowMs by_whom = bind_result (observeWithChange fmt st pr t nowMs by_whom) (\<lambda>(s, _). ok s)"

section \<open>Settled or not\<close>

definition settleStatus :: "date_parse \<Rightarrow> settle_record option \<Rightarrow> settle_tuple \<Rightarrow> int \<Rightarrow> int \<Rightarrow> settle_error + settle_verdict" where
  "settleStatus dp r t nowMs settleMs =
     (if settleMs < 0 then throw Bad_settle
      else ok (case r of
        None \<Rightarrow> Not_settled No_observation
      | Some rec \<Rightarrow>
          if sr_obs rec = [] then Not_settled No_observation
          else if \<not> sameTuple (sr_tuple rec) t then Not_settled Tuple_changed
          else (let stamps = map (\<lambda>ob. dp (ob_at ob)) (sr_obs rec)
                in if list_ex (\<lambda>ms. case ms of None \<Rightarrow> True | Some m \<Rightarrow> m > nowMs) stamps
                   then Not_settled Observation_in_future
                   else if length stamps < 2 then Not_settled Single_observation
                   else (let elapsed = the (last stamps) - the (hd stamps)
                         in if elapsed < settleMs then Not_settled Settle_pending
                            else Settled (ob_at (hd (sr_obs rec))) elapsed))))"

definition pruneToOpen :: "settle_state \<Rightarrow> nat list \<Rightarrow> settle_state" where
  "pruneToOpen st open_prs = st\<lparr>ss_prs := filter (\<lambda>(k, _). digits_val k \<in> set open_prs) (ss_prs st)\<rparr>"

section \<open>Reading a persisted ledger\<close>

definition object_members :: "jsv \<Rightarrow> (string \<times> jsv) list option" where
  "object_members v = (case v of JObj ms \<Rightarrow> Some ms | JExotic _ ms \<Rightarrow> Some ms | _ \<Rightarrow> None)"

definition asString :: "jsv \<Rightarrow> string" where "asString v = (case v of JStr s \<Rightarrow> s | _ \<Rightarrow> [])"

definition epoch_of :: "jsv \<Rightarrow> int option" where
  "epoch_of v =
     (case v of
        JNum (Fin r) \<Rightarrow> if of_int \<lfloor>r\<rfloor> = r \<and> 0 \<le> r \<and> \<lfloor>r\<rfloor> \<le> MAX_SAFE then Some \<lfloor>r\<rfloor> else None
      | _ \<Rightarrow> None)"

definition isoMs :: "date_parse \<Rightarrow> (int \<Rightarrow> string) \<Rightarrow> string \<Rightarrow> int option" where
  "isoMs dp fmt s = (case dp s of None \<Rightarrow> None | Some ms \<Rightarrow> if fmt ms = s then Some ms else None)"

datatype drop_reason =
    Not_an_object | Tuple_not_object | Tuple_bad settle_error | Not_an_array | No_observations | Over_cap
  | Bad_observed_at | Empty_by | Out_of_order | Bad_key

text \<open>The loop over the observations, with the time of the previous one.\<close>

fun parse_observations :: "date_parse \<Rightarrow> (int \<Rightarrow> string) \<Rightarrow> int option \<Rightarrow> jsv list \<Rightarrow> drop_reason + observation list" where
  "parse_observations dp fmt prev [] = ok []"
| "parse_observations dp fmt prev (v # vs) =
     (let ms = (case object_members v of None \<Rightarrow> [] | Some ms \<Rightarrow> ms);
          stamp = asString (js_get ms ''observedAt''); whom = asString (js_get ms ''by'')
      in case isoMs dp fmt stamp of
           None \<Rightarrow> throw Bad_observed_at
         | Some t \<Rightarrow>
             if blank whom then throw Empty_by
             else if (case prev of None \<Rightarrow> False | Some p \<Rightarrow> t < p) then throw Out_of_order
             else bind_result (parse_observations dp fmt (Some t) vs) (\<lambda>os. ok (\<lparr>ob_at = stamp, ob_by = whom\<rparr> # os)))"

definition parseRecord :: "date_parse \<Rightarrow> (int \<Rightarrow> string) \<Rightarrow> jsv \<Rightarrow> drop_reason + settle_record" where
  "parseRecord dp fmt raw =
     (case object_members raw of
        None \<Rightarrow> throw Not_an_object
      | Some rec \<Rightarrow>
          (case object_members (js_get rec ''tuple'') of
             None \<Rightarrow> throw Tuple_not_object
           | Some tm \<Rightarrow>
               (case epoch_of (js_get tm ''forcePushEpoch'') of
                  None \<Rightarrow> throw (Tuple_bad Bad_epoch)
                | Some e \<Rightarrow>
                    (let t = \<lparr>sp_head = asString (js_get tm ''head''), sp_base = asString (js_get tm ''base''), sp_epoch = e\<rparr>
                     in case tupleProblem t of
                          Some p \<Rightarrow> throw (Tuple_bad p)
                        | None \<Rightarrow>
                            (case js_get rec ''observations'' of
                               JArr vs \<Rightarrow>
                                 if vs = [] then throw No_observations
                                 else if length vs > MAX_OBSERVATIONS_PER_PR then throw Over_cap
                                 else bind_result (parse_observations dp fmt None vs)
                                   (\<lambda>os. ok \<lparr>sr_tuple = t, sr_obs = os\<rparr>)
                             | _ \<Rightarrow> throw Not_an_array)))))"

definition is_pr_key :: "string \<Rightarrow> bool" where
  "is_pr_key k \<longleftrightarrow> (case k of [] \<Rightarrow> False | c # cs \<Rightarrow> is_digit c \<and> c \<noteq> CHR ''0'' \<and> list_all is_digit cs)
     \<and> int (digits_val k) \<le> MAX_SAFE"

fun parse_prs :: "date_parse \<Rightarrow> (int \<Rightarrow> string) \<Rightarrow> (string \<times> jsv) list \<Rightarrow> (string, settle_record) omap
    \<Rightarrow> (string, settle_record) omap \<times> (string \<times> drop_reason) list" where
  "parse_prs dp fmt [] m = (m, [])"
| "parse_prs dp fmt ((k, v) # kvs) m =
     (if \<not> is_pr_key k then (case parse_prs dp fmt kvs m of (m', ds) \<Rightarrow> (m', (k, Bad_key) # ds))
      else case parseRecord dp fmt v of
        Inl d \<Rightarrow> (case parse_prs dp fmt kvs m of (m', ds) \<Rightarrow> (m', (k, d) # ds))
      | Inr r \<Rightarrow> parse_prs dp fmt kvs (omap_set k r m))"

datatype discard = Whole_ledger | One_record string drop_reason

definition parseSettleState :: "date_parse \<Rightarrow> (int \<Rightarrow> string) \<Rightarrow> jsv \<Rightarrow> string \<Rightarrow> settle_state \<times> discard list" where
  "parseSettleState dp fmt raw repo =
     (let nothing = (emptySettleState repo, [Whole_ledger])
      in case object_members raw of
           None \<Rightarrow> nothing
         | Some ledger_ms \<Rightarrow>
             if js_get ledger_ms ''version'' \<noteq> JNum (Fin (of_int SETTLE_STATE_VERSION)) then nothing
             else if js_get ledger_ms ''repo'' \<noteq> JStr repo then nothing
             else (case object_members (js_get ledger_ms ''prs'') of
                 None \<Rightarrow> nothing
               | Some prs \<Rightarrow>
                   (case parse_prs dp fmt prs [] of
                      (m, ds) \<Rightarrow> (\<lparr>ss_repo = repo, ss_prs = m\<rparr>, map (\<lambda>(k, d). One_record k d) ds))))"

section \<open>Writing it\<close>

definition observation_value :: "observation \<Rightarrow> jsv" where
  "observation_value ob = JObj [(''observedAt'', JStr (ob_at ob)), (''by'', JStr (ob_by ob))]"

definition record_value :: "settle_record \<Rightarrow> jsv" where
  "record_value r =
     JObj [(''tuple'', JObj [(''head'', JStr (sp_head (sr_tuple r))), (''base'', JStr (sp_base (sr_tuple r))),
              (''forcePushEpoch'', JNum (Fin (of_int (sp_epoch (sr_tuple r)))))]),
           (''observations'', JArr (map observation_value (sr_obs r)))]"

definition serializeSettleState :: "settle_state \<Rightarrow> jsv" where
  "serializeSettleState st =
     JObj [(''version'', JNum (Fin (of_int SETTLE_STATE_VERSION))), (''repo'', JStr (ss_repo st)),
           (''prs'', JObj (map (\<lambda>(k, r). (k, record_value r)) (sort_key (\<lambda>(k, r). digits_val k) (ss_prs st))))]"

end
