(* ===== verification/Settle_Laws.thy ===== *)
theory Settle_Laws
  imports Settle_Ledger
begin

text \<open>
  The settle ledger against the history it was told: a record is the compacted run of identical observations at the
  end of the history, so the verdict is that of the whole history; a ledger survives being written and read back;
  and reading never yields a malformed record.
\<close>

section \<open>The history of one pull request\<close>

record sighting =
  sg_pr :: nat
  sg_tuple :: settle_tuple
  sg_time :: int
  sg_by :: string

definition observation_of :: "(int \<Rightarrow> string) \<Rightarrow> sighting \<Rightarrow> observation" where
  "observation_of fmt e = \<lparr>ob_at = fmt (sg_time e), ob_by = sg_by e\<rparr>"

text \<open>The sightings of one pull request, and the longest end of a list that saw one tuple.\<close>

definition sightings :: "nat \<Rightarrow> sighting list \<Rightarrow> sighting list" where
  "sightings n h = filter (\<lambda>e. sg_pr e = n) h"

definition current_run :: "sighting list \<Rightarrow> sighting list" where
  "current_run h = rev (takeWhile (\<lambda>e. sg_tuple e = sg_tuple (last h)) (rev h))"

fun observe_all :: "(int \<Rightarrow> string) \<Rightarrow> sighting list \<Rightarrow> settle_state \<Rightarrow> settle_error + settle_state" where
  "observe_all fmt [] st = ok st"
| "observe_all fmt (e # es) st =
     bind_result (observe fmt st (sg_pr e) (sg_tuple e) (sg_time e) (sg_by e)) (observe_all fmt es)"

definition good_sighting :: "sighting \<Rightarrow> bool" where
  "good_sighting e \<longleftrightarrow> sg_pr e \<noteq> 0 \<and> int (sg_pr e) \<le> MAX_SAFE \<and> tupleProblem (sg_tuple e) = None
     \<and> \<not> blank (sg_by e) \<and> 0 \<le> sg_time e \<and> sg_time e \<le> MAX_TIME"

lemma sameTuple_iff [simp]: "sameTuple a b \<longleftrightarrow> a = b"
  unfolding sameTuple_def by (cases a; cases b) auto

lemma current_run_Nil [simp]: "current_run [] = []"
  by (simp add: current_run_def)

lemma current_run_snoc:
  "current_run (h @ [e]) = (if h \<noteq> [] \<and> sg_tuple (last h) = sg_tuple e then current_run h @ [e] else [e])"
  by (cases h rule: rev_cases) (auto simp: current_run_def)

lemma current_run_suffix: "\<exists>h'. h = h' @ current_run h"
  unfolding current_run_def by (metis rev_append rev_rev_ident takeWhile_dropWhile_id)

lemma current_run_empty [simp]: "current_run h = [] \<longleftrightarrow> h = []"
  by (cases h rule: rev_cases) (auto simp: current_run_snoc)

lemma last_current_run: "h \<noteq> [] \<Longrightarrow> last (current_run h) = last h"
  by (metis current_run_empty current_run_suffix last_appendR)

lemma compacted_snoc:
  assumes "os \<noteq> []"
  shows "compacted (compacted os @ [x]) = compacted (os @ [x])"
proof -
  obtain a list where os: "os = a # list" using assms by (cases os) auto
  show ?thesis
  proof (cases "7 < length list")
    case True
    then have "Suc (length list - 7) = length list - 6" by arith
    then show ?thesis using True os by (auto simp: compacted_def MAX_OBSERVATIONS_PER_PR_def drop_Cons')
  next
    case False
    then show ?thesis using os by (auto simp: compacted_def MAX_OBSERVATIONS_PER_PR_def drop_Cons')
  qed
qed

lemma compacted_single [simp]: "compacted [x] = [x]"
  by (simp add: compacted_def MAX_OBSERVATIONS_PER_PR_def)

text \<open>What the ledger holds for a pull request, in terms of its sightings.\<close>

definition ledger_of :: "(int \<Rightarrow> string) \<Rightarrow> sighting list \<Rightarrow> settle_record option" where
  "ledger_of fmt h = (if h = [] then None else Some \<lparr>sr_tuple = sg_tuple (last h),
     sr_obs = compacted (map (observation_of fmt) (current_run h))\<rparr>)"

lemma observe_ledger:
  assumes "good_sighting e" "\<And>n. map_of (ss_prs st) (nat_str n) = ledger_of fmt (sightings n h)"
  shows "\<exists>st'. observe fmt st (sg_pr e) (sg_tuple e) (sg_time e) (sg_by e) = ok st'
    \<and> ss_repo st' = ss_repo st \<and> (\<forall>n. map_of (ss_prs st') (nat_str n) = ledger_of fmt (sightings n (h @ [e])))"
proof -
  let ?h = "sightings (sg_pr e) h"
  have s: "sightings n (h @ [e]) = (if n = sg_pr e then ?h @ [e] else sightings n h)" for n
    by (auto simp: sightings_def)
  have none: "\<not> (sg_pr e = 0 \<or> int (sg_pr e) > MAX_SAFE)" "tupleProblem (sg_tuple e) = None" "\<not> blank (sg_by e)"
    "\<not> \<bar>sg_time e\<bar> > MAX_TIME"
    using assms(1) by (auto simp: good_sighting_def)
  show ?thesis
  proof (cases "?h \<noteq> [] \<and> sg_tuple (last ?h) = sg_tuple e")
    case True
    then have "map_of (ss_prs st) (nat_str (sg_pr e)) = Some \<lparr>sr_tuple = sg_tuple e,
        sr_obs = compacted (map (observation_of fmt) (current_run ?h))\<rparr>"
      unfolding assms(2) ledger_of_def by simp
    then show ?thesis
      using none True assms(2) compacted_snoc [of "map (observation_of fmt) (current_run ?h)" "observation_of fmt e"]
      by (auto simp: observe_def observeWithChange_def Let_def s ledger_of_def current_run_snoc observation_of_def)
  next
    case False
    then show ?thesis
      using none assms(2) [of "sg_pr e"] assms(2)
      by (cases "map_of (ss_prs st) (nat_str (sg_pr e))")
        (auto simp: observe_def observeWithChange_def Let_def s ledger_of_def current_run_snoc observation_of_def
          split: if_splits)
  qed
qed

lemma observe_all_ledger:
  "list_all good_sighting es \<Longrightarrow> (\<And>n. map_of (ss_prs st) (nat_str n) = ledger_of fmt (sightings n h))
     \<Longrightarrow> \<exists>st'. observe_all fmt es st = ok st' \<and> ss_repo st' = ss_repo st
       \<and> (\<forall>n. map_of (ss_prs st') (nat_str n) = ledger_of fmt (sightings n (h @ es)))"
proof (induction es arbitrary: st h)
  case (Cons e es)
  obtain st1 where s1: "observe fmt st (sg_pr e) (sg_tuple e) (sg_time e) (sg_by e) = ok st1" "ss_repo st1 = ss_repo st"
    "\<And>n. map_of (ss_prs st1) (nat_str n) = ledger_of fmt (sightings n (h @ [e]))"
    using observe_ledger [of e st fmt h] Cons.prems by auto
  have "list_all good_sighting es" using Cons.prems(1) by simp
  from Cons.IH [OF this s1(3)] show ?case using s1(1,2) by auto
qed simp

section \<open>The verdict\<close>

lemma compacted_ends: "os \<noteq> [] \<Longrightarrow> compacted os \<noteq> [] \<and> hd (compacted os) = hd os \<and> last (compacted os) = last os
    \<and> set (compacted os) \<subseteq> set os \<and> (length (compacted os) < 2 \<longleftrightarrow> length os < 2)"
  by (cases os) (auto simp: compacted_def MAX_OBSERVATIONS_PER_PR_def drop_Cons' last_drop dest: in_set_dropD)

text \<open>What the rule says of the whole history: no more than the last run of identical sightings.\<close>

definition settled_by :: "sighting list \<Rightarrow> settle_tuple \<Rightarrow> int \<Rightarrow> int \<Rightarrow> bool" where
  "settled_by h t nowMs settleMs \<longleftrightarrow>
     h \<noteq> [] \<and> sg_tuple (last h) = t \<and> 2 \<le> length (current_run h) \<and> sg_time (last h) \<le> nowMs
     \<and> settleMs \<le> sg_time (last h) - sg_time (hd (current_run h))"

lemma status_of_ledger:
  assumes t: "\<And>ms. 0 \<le> ms \<Longrightarrow> ms \<le> MAX_TIME \<Longrightarrow> dp (fmt ms) = Some ms"
    and good: "list_all good_sighting h" "sorted (map sg_time h)" and pos: "0 \<le> settleMs"
  shows "(\<exists>at_first elapsed. settleStatus dp (ledger_of fmt h) t nowMs settleMs = ok (Settled at_first elapsed))
     \<longleftrightarrow> settled_by h t nowMs settleMs"
proof (cases "h = []")
  case True
  then show ?thesis using pos by (simp add: settleStatus_def ledger_of_def settled_by_def)
next
  case False
  let ?run = "current_run h"
  let ?os = "compacted (map (observation_of fmt) ?run)"
  have run: "?run \<noteq> []" "last ?run = last h" using False last_current_run by simp_all
  note ends = compacted_ends [of "map (observation_of fmt) ?run"]
  obtain h' where h': "h = h' @ ?run" using current_run_suffix by blast
  have time: "dp (ob_at (observation_of fmt e)) = Some (sg_time e)" if "e \<in> set h" for e
    using t good(1) that by (auto simp: observation_of_def list_all_iff good_sighting_def)
  have sub: "set ?run \<subseteq> set h" using h' by (metis Un_upper2 set_append)
  have stamps: "\<exists>e \<in> set ?run. ob = observation_of fmt e \<and> dp (ob_at ob) = Some (sg_time e)" if "ob \<in> set ?os" for ob
    using that ends run sub time by fastforce
  have hd_stamp: "dp (ob_at (hd ?os)) = Some (sg_time (hd ?run))"
    using ends run sub time [of "hd ?run"] by (simp add: hd_map subset_iff)
  have last_stamp: "dp (ob_at (last ?os)) = Some (sg_time (last h))"
    using ends run sub time [of "last h"] by (simp add: last_map False)
  have max: "sg_time e \<le> sg_time (last h)" if "e \<in> set h" for e
    using good(2) that by (induction h rule: rev_induct) (auto simp: sorted_append)
  have future: "list_ex (\<lambda>ms. case ms of None \<Rightarrow> True | Some m \<Rightarrow> m > nowMs) (map (\<lambda>ob. dp (ob_at ob)) ?os)
      \<longleftrightarrow> nowMs < sg_time (last h)"
  proof
    assume "list_ex (\<lambda>ms. case ms of None \<Rightarrow> True | Some m \<Rightarrow> m > nowMs) (map (\<lambda>ob. dp (ob_at ob)) ?os)"
    then obtain ob where ob: "ob \<in> set ?os" "case dp (ob_at ob) of None \<Rightarrow> True | Some m \<Rightarrow> m > nowMs" by (auto simp: list_ex_iff)
    obtain e where "e \<in> set ?run" "dp (ob_at ob) = Some (sg_time e)" using stamps [OF ob(1)] by blast
    then show "nowMs < sg_time (last h)" using ob(2) max sub by fastforce
  next
    assume "nowMs < sg_time (last h)"
    moreover have "?os \<noteq> []" using ends run by simp
    then have "last ?os \<in> set ?os" by (rule last_in_set)
    ultimately show "list_ex (\<lambda>ms. case ms of None \<Rightarrow> True | Some m \<Rightarrow> m > nowMs) (map (\<lambda>ob. dp (ob_at ob)) ?os)"
      using last_stamp by (force simp: list_ex_iff)
  qed
  have len: "length ?os < 2 \<longleftrightarrow> length ?run < 2" "?os \<noteq> []" using ends run by simp_all
  have "settleStatus dp (ledger_of fmt h) t nowMs settleMs = ok
      (if sg_tuple (last h) \<noteq> t then Not_settled Tuple_changed
       else if nowMs < sg_time (last h) then Not_settled Observation_in_future
       else if length ?run < 2 then Not_settled Single_observation
       else if sg_time (last h) - sg_time (hd ?run) < settleMs then Not_settled Settle_pending
       else Settled (ob_at (hd ?os)) (sg_time (last h) - sg_time (hd ?run)))"
    using pos False len future hd_stamp last_stamp
    by (simp add: settleStatus_def ledger_of_def Let_def last_map hd_map)
  then show ?thesis using False by (auto simp: settled_by_def)
qed

definition decimal_stamp :: "int \<Rightarrow> string" where "decimal_stamp t = nat_str (nat t)"

definition quiet_tuple :: settle_tuple where
  "quiet_tuple = \<lparr>sp_head = replicate 40 CHR ''a'', sp_base = replicate 40 CHR ''0'', sp_epoch = 0\<rparr>"

definition two_sightings :: "sighting list" where
  "two_sightings = [\<lparr>sg_pr = 7, sg_tuple = quiet_tuple, sg_time = 50000, sg_by = ''scan''\<rparr>,
     \<lparr>sg_pr = 7, sg_tuple = quiet_tuple, sg_time = 650000, sg_by = ''recheck''\<rparr>]"

text \<open>C21 The ledger computes the settle rule: after any valid history of sightings of any pull requests, in time order for
the one asked about, the ledger calls a tuple settled exactly when the run of identical sightings at the end of the whole
history saw that tuple at least twice, the last time not after now, at least the settle time after the first.
Compaction and resets lose nothing.\<close>

theorem settle_refines_history:
  assumes "\<And>ms. 0 \<le> ms \<Longrightarrow> ms \<le> MAX_TIME \<Longrightarrow> dp (fmt ms) = Some ms"
    and "list_all good_sighting h" "sorted (map sg_time (sightings n h))" "0 \<le> settleMs"
  shows "\<exists>st. observe_all fmt h (emptySettleState repo) = ok st
     \<and> ((\<exists>at_first elapsed. settleStatus dp (map_of (ss_prs st) (nat_str n)) t nowMs settleMs = ok (Settled at_first elapsed))
        \<longleftrightarrow> settled_by (sightings n h) t nowMs settleMs)"
proof -
  have "map_of (ss_prs (emptySettleState repo)) (nat_str k) = ledger_of fmt (sightings k [])" for k
    by (simp add: emptySettleState_def ledger_of_def sightings_def)
  from observe_all_ledger [OF assms(2) this] obtain st where st: "observe_all fmt h (emptySettleState repo) = ok st"
    "map_of (ss_prs st) (nat_str n) = ledger_of fmt (sightings n h)" by auto
  have "list_all good_sighting (sightings n h)" using assms(2) by (auto simp: sightings_def list_all_iff)
  from status_of_ledger [OF assms(1) this assms(3,4)] show ?thesis using st by auto
qed

theorem settle_refines_history_witness:
  "\<exists>st. observe_all decimal_stamp two_sightings (emptySettleState ''o/r'') = ok st
     \<and> (\<exists>at_first elapsed. settleStatus decimal_dates (map_of (ss_prs st) (nat_str 7)) quiet_tuple 700000 600000 = ok (Settled at_first elapsed))"
proof -
  have "sightings 7 two_sightings = two_sightings" by (simp add: sightings_def two_sightings_def)
  moreover have "list_all good_sighting two_sightings"
    by code_simp
  moreover have "settled_by two_sightings quiet_tuple 700000 600000"
    by (simp add: settled_by_def two_sightings_def current_run_def)
  moreover have "sorted (map sg_time two_sightings)" by (simp add: two_sightings_def)
  ultimately show ?thesis
    using settle_refines_history [of decimal_dates decimal_stamp two_sightings 7 600000 "''o/r''" quiet_tuple 700000]
    by (simp add: decimal_dates_def decimal_stamp_def)
qed

section \<open>Writing and reading back\<close>

definition good_record :: "date_parse \<Rightarrow> (int \<Rightarrow> string) \<Rightarrow> settle_record \<Rightarrow> bool" where
  "good_record dp fmt r \<longleftrightarrow> tupleProblem (sr_tuple r) = None \<and> sr_obs r \<noteq> []
     \<and> length (sr_obs r) \<le> MAX_OBSERVATIONS_PER_PR
     \<and> list_all (\<lambda>ob. isoMs dp fmt (ob_at ob) \<noteq> None \<and> \<not> blank (ob_by ob)) (sr_obs r)
     \<and> sorted (map (\<lambda>ob. the (isoMs dp fmt (ob_at ob))) (sr_obs r))"

definition good_ledger :: "date_parse \<Rightarrow> (int \<Rightarrow> string) \<Rightarrow> settle_state \<Rightarrow> bool" where
  "good_ledger dp fmt st \<longleftrightarrow> distinct (okeys (ss_prs st)) \<and> list_all (\<lambda>(k, r). is_pr_key k \<and> good_record dp fmt r) (ss_prs st)"

lemma js_get_hit [simp]: "js_get ((k, v) # ms) k = v" "k' \<noteq> k \<Longrightarrow> js_get ((k, v) # ms) k' = js_get ms k'"
  by (simp_all add: js_get_def)

lemma eta_records:
  "\<lparr>ob_at = ob_at ob, ob_by = ob_by ob\<rparr> = ob"
  "\<lparr>sp_head = sp_head t, sp_base = sp_base t, sp_epoch = sp_epoch t\<rparr> = t"
  "\<lparr>sr_tuple = sr_tuple r, sr_obs = sr_obs r\<rparr> = r"
  by simp_all

lemma observation_members:
  "object_members (observation_value ob) = Some [(''observedAt'', JStr (ob_at ob)), (''by'', JStr (ob_by ob))]"
  by (simp add: observation_value_def object_members_def)

lemma parse_observations_back:
  "list_all (\<lambda>ob. isoMs dp fmt (ob_at ob) \<noteq> None \<and> \<not> blank (ob_by ob)) os \<Longrightarrow>
   sorted (map (\<lambda>ob. the (isoMs dp fmt (ob_at ob))) os) \<Longrightarrow>
   (\<And>p ob. prev = Some p \<Longrightarrow> os \<noteq> [] \<Longrightarrow> p \<le> the (isoMs dp fmt (ob_at (hd os)))) \<Longrightarrow>
   parse_observations dp fmt prev (map observation_value os) = ok os"
proof (induction os arbitrary: prev)
  case (Cons ob os)
  obtain ms where ms: "isoMs dp fmt (ob_at ob) = Some ms" using Cons.prems(1) by auto
  have "parse_observations dp fmt (Some ms) (map observation_value os) = ok os"
    by (rule Cons.IH) (use Cons.prems(1,2) ms in \<open>cases os; auto\<close>)+
  moreover have "\<not> (case prev of None \<Rightarrow> False | Some p \<Rightarrow> ms < p)"
    using Cons.prems(3) ms by (auto split: option.splits)
  ultimately show ?case
    using Cons.prems(1) ms by (simp add: observation_members asString_def Let_def eta_records)
qed simp

lemma parseRecord_back:
  assumes "good_record dp fmt r"
  shows "parseRecord dp fmt (record_value r) = ok r"
proof -
  have e: "epoch_of (JNum (Fin (of_int (sp_epoch (sr_tuple r))))) = Some (sp_epoch (sr_tuple r))"
    using assms by (auto simp: epoch_of_def good_record_def tupleProblem_def split: if_splits)
  have "parse_observations dp fmt None (map observation_value (sr_obs r)) = ok (sr_obs r)"
    by (rule parse_observations_back) (use assms in \<open>auto simp: good_record_def\<close>)
  then show ?thesis
    using assms e by (simp add: parseRecord_def record_value_def object_members_def asString_def good_record_def Let_def eta_records)
qed

lemma parse_prs_back:
  "list_all (\<lambda>(k, r). is_pr_key k \<and> good_record dp fmt r) m \<Longrightarrow> distinct (okeys m0 @ okeys m) \<Longrightarrow>
   parse_prs dp fmt (map (\<lambda>(k, r). (k, record_value r)) m) m0 = (m0 @ m, [])"
proof (induction m arbitrary: m0)
  case (Cons kr m)
  obtain k r where kr: "kr = (k, r)" by (cases kr)
  have "omap_set k r m0 = m0 @ [(k, r)]" by (rule omap_set_new) (use Cons.prems(2) kr in auto)
  then show ?case
    using Cons.prems Cons.IH [of "m0 @ [(k, r)]"] parseRecord_back kr by auto
qed simp

definition by_number :: "settle_state \<Rightarrow> settle_state" where
  "by_number st = st\<lparr>ss_prs := sort_key (\<lambda>(k, r). digits_val k) (ss_prs st)\<rparr>"

text \<open>C31 A well-formed ledger survives: reading back what was written gives the ledger with its records in the order
of their numbers, and discards nothing.\<close>

theorem settle_round_trip:
  assumes "good_ledger dp fmt st"
  shows "parseSettleState dp fmt (serializeSettleState st) (ss_repo st) = (by_number st, [])"
proof -
  let ?m = "sort_key (\<lambda>(k, r). digits_val k) (ss_prs st)"
  have "list_all (\<lambda>(k, r). is_pr_key k \<and> good_record dp fmt r) ?m" using assms by (simp add: good_ledger_def list_all_iff)
  moreover have "distinct (okeys ([] :: (string, settle_record) omap) @ okeys ?m)"
    using assms unfolding good_ledger_def by (metis append_Nil distinct_map distinct_sort list.map_disc_iff set_sort)
  ultimately have "parse_prs dp fmt (map (\<lambda>(k, r). (k, record_value r)) ?m) [] = ([] @ ?m, [])" by (rule parse_prs_back)
  then show ?thesis
    by (simp add: parseSettleState_def serializeSettleState_def object_members_def by_number_def Let_def)
qed

definition small_ledger :: settle_state where
  "small_ledger = \<lparr>ss_repo = ''o/r'', ss_prs = [(''7'', \<lparr>sr_tuple = quiet_tuple,
     sr_obs = [\<lparr>ob_at = ''5'', ob_by = ''scan''\<rparr>, \<lparr>ob_at = ''65'', ob_by = ''recheck''\<rparr>]\<rparr>)]\<rparr>"

lemma small_ledger_good: "good_ledger decimal_dates decimal_stamp small_ledger"
  by code_simp

theorem settle_round_trip_witness:
  "parseSettleState decimal_dates decimal_stamp (serializeSettleState small_ledger) ''o/r'' = (small_ledger, [])"
  using settle_round_trip [OF small_ledger_good] by (simp add: small_ledger_def by_number_def)

section \<open>Whatever is read is well formed\<close>

lemma parse_observations_good:
  "parse_observations dp fmt prev vs = ok os \<Longrightarrow> length os = length vs
     \<and> list_all (\<lambda>ob. isoMs dp fmt (ob_at ob) \<noteq> None \<and> \<not> blank (ob_by ob)) os
     \<and> sorted (map (\<lambda>ob. the (isoMs dp fmt (ob_at ob))) os)
     \<and> (\<forall>p ob. prev = Some p \<longrightarrow> ob \<in> set os \<longrightarrow> p \<le> the (isoMs dp fmt (ob_at ob)))"
proof (induction vs arbitrary: prev os)
  case (Cons v vs)
  let ?ms = "case object_members v of None \<Rightarrow> [] | Some ms \<Rightarrow> ms"
  let ?ob = "\<lparr>ob_at = asString (js_get ?ms ''observedAt''), ob_by = asString (js_get ?ms ''by'')\<rparr>"
  obtain t os' where t: "isoMs dp fmt (ob_at ?ob) = Some t" "\<not> blank (ob_by ?ob)" "\<forall>p. prev = Some p \<longrightarrow> p \<le> t"
    "parse_observations dp fmt (Some t) vs = ok os'" "os = ?ob # os'"
    using Cons.prems by (auto simp: Let_def bind_result_eq_Inr split: option.splits if_splits)
  have I: "length os' = length vs" "list_all (\<lambda>ob. isoMs dp fmt (ob_at ob) \<noteq> None \<and> \<not> blank (ob_by ob)) os'"
    "sorted (map (\<lambda>ob. the (isoMs dp fmt (ob_at ob))) os')" "\<forall>ob \<in> set os'. t \<le> the (isoMs dp fmt (ob_at ob))"
    using Cons.IH [OF t(4)] by blast+
  show ?case using t(1-3) I unfolding t(5) by (auto intro: order_trans)
qed simp

lemma parseRecord_good:
  assumes "parseRecord dp fmt raw = ok r"
  shows "good_record dp fmt r"
proof -
  obtain ms tm e vs os where p: "tupleProblem \<lparr>sp_head = asString (js_get tm ''head''), sp_base = asString (js_get tm ''base''),
      sp_epoch = e\<rparr> = None" "js_get ms ''observations'' = JArr vs" "vs \<noteq> []" "length vs \<le> MAX_OBSERVATIONS_PER_PR"
    "parse_observations dp fmt None vs = ok os"
    "r = \<lparr>sr_tuple = \<lparr>sp_head = asString (js_get tm ''head''), sp_base = asString (js_get tm ''base''), sp_epoch = e\<rparr>, sr_obs = os\<rparr>"
    using assms unfolding parseRecord_def Let_def
    by (auto simp: bind_result_eq_Inr split: option.splits jsv.splits if_splits)
  have "length os = length vs" "list_all (\<lambda>ob. isoMs dp fmt (ob_at ob) \<noteq> None \<and> \<not> blank (ob_by ob)) os"
    "sorted (map (\<lambda>ob. the (isoMs dp fmt (ob_at ob))) os)"
    using parse_observations_good [OF p(5)] by blast+
  then show ?thesis using p(1,3,4) unfolding p(6) good_record_def by auto
qed

lemma good_omap_set:
  assumes "distinct (okeys m)" "list_all (\<lambda>(k, r). is_pr_key k \<and> good_record dp fmt r) m" "is_pr_key k" "good_record dp fmt r"
  shows "distinct (okeys (omap_set k r m)) \<and> list_all (\<lambda>(k, r). is_pr_key k \<and> good_record dp fmt r) (omap_set k r m)"
proof
  show "distinct (okeys (omap_set k r m))" using assms(1) by (rule distinct_omap_set)
  show "list_all (\<lambda>(k, r). is_pr_key k \<and> good_record dp fmt r) (omap_set k r m)"
    using assms(2-4) by (induction m) (auto split: if_splits)
qed

lemma parse_prs_good:
  "distinct (okeys m) \<Longrightarrow> list_all (\<lambda>(k, r). is_pr_key k \<and> good_record dp fmt r) m \<Longrightarrow> parse_prs dp fmt kvs m = (m', ds)
   \<Longrightarrow> distinct (okeys m') \<and> list_all (\<lambda>(k, r). is_pr_key k \<and> good_record dp fmt r) m'"
proof (induction kvs arbitrary: m m' ds)
  case (Cons kv kvs)
  obtain k v where kv: "kv = (k, v)" by (cases kv)
  show ?case
  proof (cases "is_pr_key k \<and> (\<exists>r. parseRecord dp fmt v = ok r)")
    case True
    then obtain r where r: "is_pr_key k" "parseRecord dp fmt v = ok r" by blast
    then have "parse_prs dp fmt kvs (omap_set k r m) = (m', ds)" using Cons.prems(3) kv by simp
    then show ?thesis using Cons.IH good_omap_set [OF Cons.prems(1,2) r(1) parseRecord_good [OF r(2)]] by blast
  next
    case False
    then obtain ds' where "parse_prs dp fmt kvs m = (m', ds')"
      using Cons.prems(3) kv by (auto split: sum.splits prod.splits if_splits)
    then show ?thesis using Cons.IH Cons.prems(1,2) by blast
  qed
qed simp

text \<open>Reading never fails and never admits a malformed record: whatever value was persisted, the ledger read from it is
for the asked repository and well formed (numeric keys, valid tuples, one to eight observations with canonical times
in order and a named observer), so a corrupt ledger can only forget, and what is read survives being written again.\<close>

lemma parse_is_well_formed:
  "good_ledger dp fmt (fst (parseSettleState dp fmt raw repo)) \<and> ss_repo (fst (parseSettleState dp fmt raw repo)) = repo"
proof -
  have none: "good_ledger dp fmt (emptySettleState repo) \<and> ss_repo (emptySettleState repo) = repo"
    by (simp add: good_ledger_def emptySettleState_def)
  have "good_ledger dp fmt \<lparr>ss_repo = repo, ss_prs = fst (parse_prs dp fmt prs [])\<rparr>" for prs
    using parse_prs_good [of "[]" dp fmt prs] by (cases "parse_prs dp fmt prs []") (simp add: good_ledger_def)
  then have "good_ledger dp fmt \<lparr>ss_repo = repo, ss_prs = m\<rparr>" if "parse_prs dp fmt prs [] = (m, ds)" for prs m ds
    using that by (metis fst_conv)
  then show ?thesis using none by (auto simp: parseSettleState_def Let_def split: option.splits prod.splits)
qed

end
