(* ===== verification/Gate_Failures.thy ===== *)
theory Gate_Failures
  imports Manifest Run_Log "HOL-Library.Word"
begin

text \<open>
  \<open>src/ops/gates/fingerprint.ts\<close> and \<open>src/ops/gates/regressionGate.ts\<close>: the identity of a check failure that survives
  small drift, the numbering of equivalent failures, and the gate that tolerates old failures and reports new ones.
  The rendering of a finite number, \<open>String(n)\<close>, is the parameter \<open>num\<close>. Bucket widths are positive integers
  (the operation's schema). Strings are byte strings, on which the code's UTF-16 order is the order of bytes.
\<close>

unbundle bit_operations_syntax

section \<open>Failures\<close>

datatype severity = Sev_error | Sev_warning

record check_failure =
  cf_file :: "string option"
  cf_line :: "jsnum option"
  cf_column :: "jsnum option"
  cf_ruleId :: "string option"
  cf_message :: string
  cf_severity :: severity

record failure_set =
  fs_tool :: string
  fs_failures :: "check_failure list"
  fs_exitCode :: "int option"
  fs_numTotalTests :: "int option"
  fs_numPassedTests :: "int option"
  fs_numPassed :: "int option"
  fs_numSkippedTests :: "int option"
  fs_numPendingTests :: "int option"
  fs_numTodoTests :: "int option"

record fingerprint_config =
  fc_lineBucketSize :: "nat option"
  fc_columnBucketSize :: "nat option"
  fc_offsetBucketSize :: "nat option"
  fc_rootDir :: "string option"

record resolved_config =
  rc_line :: nat
  rc_column :: nat
  rc_offset :: nat
  rc_rootDir :: string
  rc_tool :: string

definition or_default :: "'a \<Rightarrow> 'a option \<Rightarrow> 'a" where
  "or_default d v = (case v of None \<Rightarrow> d | Some x \<Rightarrow> x)"

definition no_config :: fingerprint_config where
  "no_config = \<lparr>fc_lineBucketSize = None, fc_columnBucketSize = None, fc_offsetBucketSize = None, fc_rootDir = None\<rparr>"

definition resolveConfig :: "fingerprint_config \<Rightarrow> string \<Rightarrow> resolved_config" where
  "resolveConfig cfg tool = \<lparr>rc_line = or_default 20 (fc_lineBucketSize cfg), rc_column = or_default 20 (fc_columnBucketSize cfg),
     rc_offset = or_default 500 (fc_offsetBucketSize cfg), rc_rootDir = or_default [] (fc_rootDir cfg), rc_tool = tool\<rparr>"

section \<open>Text\<close>

definition js_trim :: "string \<Rightarrow> string" where
  "js_trim s = rev (dropWhile is_space (rev (dropWhile is_space s)))"

text \<open>\<open>s.replace(/\s+/g, ' ')\<close>; the flag says that the last character was white space.\<close>

fun squeeze :: "bool \<Rightarrow> string \<Rightarrow> string" where
  "squeeze after [] = []"
| "squeeze after (c # cs) = (if is_space c then (if after then squeeze True cs else CHR '' '' # squeeze True cs)
     else c # squeeze False cs)"

definition normalizeTestName :: "string \<Rightarrow> string" where
  "normalizeTestName message = js_trim (squeeze False message)"

definition normalizeMessage :: "string \<Rightarrow> string" where
  "normalizeMessage message = js_trim (squeeze False (takeWhile (\<lambda>c. c \<noteq> NL) message))"

definition posix_separators :: "string \<Rightarrow> string" where
  "posix_separators p = map (\<lambda>c. if c = CHR 0x5C then CHR ''/'' else c) p"

definition normalizePath :: "string \<Rightarrow> string \<Rightarrow> string" where
  "normalizePath file rootDir = (let posix = posix_separators file in
     if rootDir = [] then posix
     else let rt = rev (dropWhile (\<lambda>c. c = CHR ''/'') (rev (posix_separators rootDir))) in
       if rt \<noteq> [] \<and> (posix = rt \<or> starts_with (rt @ ''/'') posix)
       then dropWhile (\<lambda>c. c = CHR ''/'') (drop (length rt) posix) else posix)"

text \<open>FNV-1a over the character codes, as eight lowercase hexadecimal digits: \<open>Math.imul(h, p) >>> 0\<close> is the
  product modulo \<open>2^32\<close>.\<close>

definition FNV_OFFSET_BASIS :: "32 word" where "FNV_OFFSET_BASIS = 0x811c9dc5"
definition FNV_PRIME :: "32 word" where "FNV_PRIME = 0x01000193"

definition fnv_step :: "char \<Rightarrow> 32 word \<Rightarrow> 32 word" where
  "fnv_step c h = (h XOR of_nat (of_char c)) * FNV_PRIME"

definition hex8 :: "32 word \<Rightarrow> string" where
  "hex8 h = map (\<lambda>i. hex_digit (unat h div 16 ^ (7 - i) mod 16)) [0..<8]"

definition fnv1a32Hex :: "string \<Rightarrow> string" where
  "fnv1a32Hex text = hex8 (fold fnv_step text FNV_OFFSET_BASIS)"

section \<open>The identity of a failure\<close>

definition VITEST_SUITE_RULE_ID :: string where "VITEST_SUITE_RULE_ID = ''vitest-suite''"
definition VITEST_UNNAMED_RULE_ID :: string where "VITEST_UNNAMED_RULE_ID = ''vitest-unnamed''"

definition isFreeFormVitestRule :: "string option \<Rightarrow> bool" where
  "isFreeFormVitestRule r \<longleftrightarrow> r = Some VITEST_SUITE_RULE_ID \<or> r = Some VITEST_UNNAMED_RULE_ID"

fun severity_text :: "severity \<Rightarrow> string" where
  "severity_text Sev_error = ''error''"
| "severity_text Sev_warning = ''warning''"

text \<open>\<open>Math.floor(x / n)\<close> and \<open>String(x)\<close>.\<close>

fun js_bucket :: "jsnum \<Rightarrow> nat \<Rightarrow> jsnum" where
  "js_bucket (Fin r) n = Fin (of_int \<lfloor>r / of_nat n\<rfloor>)"
| "js_bucket x n = x"

fun js_num_str :: "(rat \<Rightarrow> string) \<Rightarrow> jsnum \<Rightarrow> string" where
  "js_num_str num (Fin r) = num r"
| "js_num_str num PosInf = ''Infinity''"
| "js_num_str num NegInf = ''-Infinity''"
| "js_num_str num NaN = ''NaN''"

definition file_component :: "check_failure \<Rightarrow> resolved_config \<Rightarrow> string" where
  "file_component f cfg = (case cf_file f of None \<Rightarrow> [] | Some p \<Rightarrow> normalizePath p (rc_rootDir cfg))"

definition locationComponents :: "(rat \<Rightarrow> string) \<Rightarrow> check_failure \<Rightarrow> resolved_config \<Rightarrow> string list" where
  "locationComponents num f cfg =
     (let file = file_component f cfg; ruleId = or_default [] (cf_ruleId f); column = or_default (Fin 0) (cf_column f) in
      case cf_line f of
        Some l \<Rightarrow> [rc_tool cfg, file, ruleId, severity_text (cf_severity f), ''position'',
          js_num_str num (js_bucket l (rc_line cfg)), js_num_str num (js_bucket column (rc_column cfg))]
      | None \<Rightarrow> [rc_tool cfg, file, ruleId, severity_text (cf_severity f), ''content'',
          normalizeMessage (cf_message f), js_num_str num (js_bucket column (rc_offset cfg))])"

definition keyComponents :: "(rat \<Rightarrow> string) \<Rightarrow> check_failure \<Rightarrow> resolved_config \<Rightarrow> string list" where
  "keyComponents num f cfg =
     (if rc_tool cfg = ''vitest'' \<and> \<not> isFreeFormVitestRule (cf_ruleId f)
      then [rc_tool cfg, file_component f cfg, or_default [] (cf_ruleId f), severity_text (cf_severity f), ''test-name'',
        normalizeTestName (cf_message f)]
      else locationComponents num f cfg)"

definition json_strings :: "string list \<Rightarrow> string" where
  "json_strings xs = ''['' @ join '','' (map json_str xs) @ '']''"

definition fingerprintKey :: "(rat \<Rightarrow> string) \<Rightarrow> fingerprint_config \<Rightarrow> string \<Rightarrow> check_failure \<Rightarrow> string" where
  "fingerprintKey num cfg tool f = json_strings (keyComponents num f (resolveConfig cfg tool))"

definition fingerprintFailure :: "(rat \<Rightarrow> string) \<Rightarrow> fingerprint_config \<Rightarrow> string \<Rightarrow> check_failure \<Rightarrow> string" where
  "fingerprintFailure num cfg tool f = fnv1a32Hex (fingerprintKey num cfg tool f)"

section \<open>The order of equivalent failures\<close>

definition then_compare :: "int \<Rightarrow> int \<Rightarrow> int" where
  "then_compare a b = (if a \<noteq> 0 then a else b)"

definition compareText :: "string \<Rightarrow> string \<Rightarrow> int" where
  "compareText a b = (if a < b then -1 else if b < a then 1 else 0)"

fun compareNullableText :: "string option \<Rightarrow> string option \<Rightarrow> int" where
  "compareNullableText None None = 0"
| "compareNullableText None (Some b) = -1"
| "compareNullableText (Some a) None = 1"
| "compareNullableText (Some a) (Some b) = compareText a b"

fun js_num_lt :: "jsnum \<Rightarrow> jsnum \<Rightarrow> bool" where
  "js_num_lt (Fin a) (Fin b) = (a < b)"
| "js_num_lt (Fin a) PosInf = True"
| "js_num_lt NegInf (Fin b) = True"
| "js_num_lt NegInf PosInf = True"
| "js_num_lt _ _ = False"

fun compareNullableNumber :: "jsnum option \<Rightarrow> jsnum option \<Rightarrow> int" where
  "compareNullableNumber None None = 0"
| "compareNullableNumber None (Some b) = -1"
| "compareNullableNumber (Some a) None = 1"
| "compareNullableNumber (Some a) (Some b) =
     (if a = NaN \<or> b = NaN then (if (a = NaN) = (b = NaN) then 0 else if a = NaN then 1 else -1)
      else if js_num_lt a b then -1 else if js_num_lt b a then 1 else 0)"

definition compareFailures :: "check_failure \<Rightarrow> check_failure \<Rightarrow> int" where
  "compareFailures a b =
     then_compare (compareNullableNumber (cf_line a) (cf_line b))
    (then_compare (compareNullableNumber (cf_column a) (cf_column b))
    (then_compare (compareText (cf_message a) (cf_message b))
    (then_compare (compareNullableText (cf_file a) (cf_file b))
    (then_compare (compareNullableText (cf_ruleId a) (cf_ruleId b))
      (compareText (severity_text (cf_severity a)) (severity_text (cf_severity b)))))))"

text \<open>\<open>Array.prototype.sort\<close> with a comparator: a stable sort.\<close>

fun sort_insert :: "('a \<Rightarrow> 'a \<Rightarrow> int) \<Rightarrow> 'a \<Rightarrow> 'a list \<Rightarrow> 'a list" where
  "sort_insert cmp x [] = [x]"
| "sort_insert cmp x (y # ys) = (if cmp x y \<le> 0 then x # y # ys else y # sort_insert cmp x ys)"

definition js_sort :: "('a \<Rightarrow> 'a \<Rightarrow> int) \<Rightarrow> 'a list \<Rightarrow> 'a list" where
  "js_sort cmp xs = foldr (sort_insert cmp) xs []"

lemma mset_js_sort [simp]: "mset (js_sort cmp xs) = mset xs"
proof -
  have ins: "mset (sort_insert cmp x ys) = add_mset x (mset ys)" for x ys by (induction ys) auto
  show ?thesis by (induction xs) (simp_all add: js_sort_def ins)
qed

lemma set_js_sort [simp]: "set (js_sort cmp xs) = set xs"
  by (metis mset_js_sort set_mset_mset)

lemma length_js_sort [simp]: "length (js_sort cmp xs) = length xs"
  by (metis mset_js_sort size_mset)

lemma distinct_js_sort [simp]: "distinct (js_sort cmp xs) = distinct xs"
  by (metis mset_js_sort mset_eq_imp_distinct_iff)

section \<open>Occurrence keys\<close>

type_synonym pair = "check_failure \<times> string"
type_synonym groups = "(string, pair list) omap"

definition occurrence_key :: "string \<Rightarrow> nat \<Rightarrow> string" where
  "occurrence_key identity n = identity @ ''#'' @ nat_str n"

definition compare_indices :: "string list \<Rightarrow> check_failure list \<Rightarrow> nat \<Rightarrow> nat \<Rightarrow> int" where
  "compare_indices ids fs a b = then_compare (compareText (ids ! a) (ids ! b))
     (then_compare (compareFailures (fs ! a) (fs ! b)) (int a - int b))"

definition index_order :: "string list \<Rightarrow> check_failure list \<Rightarrow> nat list" where
  "index_order ids fs = js_sort (compare_indices ids fs) [0..<length fs]"

text \<open>The first loop: an index takes the first pair of its group with the same fields.\<close>

definition exact_step :: "string list \<Rightarrow> check_failure list \<Rightarrow> nat \<Rightarrow> groups \<times> (nat \<times> string) list
    \<Rightarrow> groups \<times> (nat \<times> string) list" where
  "exact_step ids fs i st = (case map_of (fst st) (ids ! i) of
       None \<Rightarrow> st
     | Some g \<Rightarrow> (case List.extract (\<lambda>p. compareFailures (fst p) (fs ! i) = 0) g of
           None \<Rightarrow> st
         | Some (ys, p, zs) \<Rightarrow> (omap_set (ids ! i) (ys @ zs) (fst st), snd st @ [(i, snd p)])))"

text \<open>The second loop: an index without a key shifts one off its group, or gets the next ordinal.\<close>

definition drift_step :: "string list \<Rightarrow> nat \<Rightarrow> groups \<times> (nat \<times> string) list \<times> (string, nat) omap
    \<Rightarrow> groups \<times> (nat \<times> string) list \<times> (string, nat) omap" where
  "drift_step ids i st = (case st of (available, keys, occurrences) \<Rightarrow>
     if map_of keys i \<noteq> None then st
     else case or_default [] (map_of available (ids ! i)) of
         p # g \<Rightarrow> (omap_set (ids ! i) g available, keys @ [(i, snd p)], occurrences)
       | [] \<Rightarrow> (let n = or_default 0 (map_of occurrences (ids ! i)) in
           (available, keys @ [(i, occurrence_key (ids ! i) n)], omap_set (ids ! i) (Suc n) occurrences)))"

definition assign_keys :: "string list \<Rightarrow> check_failure list \<Rightarrow> groups \<Rightarrow> (string, nat) omap \<Rightarrow> pair list" where
  "assign_keys ids fs available occurrences =
     (let ord = index_order ids fs; (available1, keys1) = fold (exact_step ids fs) ord (available, []);
          (available2, keys2, occurrences2) = fold (drift_step ids) ord (available1, keys1, occurrences)
      in map (\<lambda>i. (fs ! i, or_default [] (map_of keys2 i))) [0..<length fs])"

definition add_pair :: "(check_failure \<Rightarrow> string) \<Rightarrow> pair \<Rightarrow> groups \<times> (string, nat) omap
    \<Rightarrow> groups \<times> (string, nat) omap" where
  "add_pair ident p st = (let k = ident (fst p); g = or_default [] (map_of (fst st) k) @ [p] in
     (omap_set k g (fst st), omap_set k (length g) (snd st)))"

definition baseline_groups :: "(check_failure \<Rightarrow> string) \<Rightarrow> pair list \<Rightarrow> groups \<times> (string, nat) omap" where
  "baseline_groups ident ps = (case fold (add_pair ident) ps ([], []) of (available, occurrences) \<Rightarrow>
     (map (\<lambda>(k, g). (k, js_sort (\<lambda>a b. compareFailures (fst a) (fst b)) g)) available, occurrences))"

definition fingerprintPairs :: "(rat \<Rightarrow> string) \<Rightarrow> fingerprint_config \<Rightarrow> failure_set \<Rightarrow> failure_set option \<Rightarrow> pair list" where
  "fingerprintPairs num cfg s baseline =
     (let plain = (\<lambda>t. assign_keys (map (fingerprintKey num cfg (fs_tool t)) (fs_failures t)) (fs_failures t)) in
      case baseline of
        None \<Rightarrow> plain s [] []
      | Some b \<Rightarrow> (case baseline_groups (fingerprintKey num cfg (fs_tool b)) (plain b [] []) of
          (available, occurrences) \<Rightarrow> plain s available occurrences))"

definition fingerprintSet :: "(rat \<Rightarrow> string) \<Rightarrow> fingerprint_config \<Rightarrow> failure_set \<Rightarrow> string set" where
  "fingerprintSet num cfg s = set (map snd (fingerprintPairs num cfg s None))"

section \<open>The gate\<close>

datatype side = Base_side | Final_side

datatype untrusted = Unobservable_exit side nat | Empty_behind side int

definition untrustedEvidence :: "failure_set \<Rightarrow> side \<Rightarrow> untrusted option" where
  "untrustedEvidence s sd = (case fs_exitCode s of
       None \<Rightarrow> Some (Unobservable_exit sd (length (fs_failures s)))
     | Some c \<Rightarrow> if fs_failures s = [] \<and> c \<noteq> 0 then Some (Empty_behind sd c) else None)"

datatype totals_regression = Uncomputed string | Count_dropped int int | Skips_rose int int

definition observedFields :: "(string \<times> (failure_set \<Rightarrow> int option)) list" where
  "observedFields = [(''numTotalTests'', fs_numTotalTests), (''numPassedTests'', fs_numPassedTests),
     (''numPassed'', fs_numPassed), (''numSkippedTests'', fs_numSkippedTests),
     (''numPendingTests'', fs_numPendingTests), (''numTodoTests'', fs_numTodoTests)]"

definition skipped :: "failure_set \<Rightarrow> int" where
  "skipped s = or_default (or_default 0 (fs_numPendingTests s)) (fs_numSkippedTests s) + or_default 0 (fs_numTodoTests s)"

definition testTotalsRegression :: "failure_set \<Rightarrow> failure_set \<Rightarrow> totals_regression option" where
  "testTotalsRegression b f =
     (case find (\<lambda>(name, field). field b \<noteq> None \<and> field f = None) observedFields of
        Some (name, field) \<Rightarrow> Some (Uncomputed name)
      | None \<Rightarrow>
          (case (fs_numTotalTests b, fs_numTotalTests f) of
             (Some tb, Some tf) \<Rightarrow>
               if tf < tb then Some (Count_dropped tb tf)
               else if skipped f > skipped b then Some (Skips_rose (skipped b) (skipped f)) else None
           | _ \<Rightarrow> if skipped f > skipped b then Some (Skips_rose (skipped b) (skipped f)) else None))"

record regression_report =
  rr_regression :: bool
  rr_novelFailures :: "check_failure list"
  rr_fixedFailures :: "check_failure list"
  rr_preExistingCount :: nat
  rr_totals :: "totals_regression option"

text \<open>\<open>Inl\<close> is the operation's \<open>indeterminate\<close> result, \<open>Inr\<close> its report.\<close>

definition regressionGate :: "(rat \<Rightarrow> string) \<Rightarrow> fingerprint_config \<Rightarrow> failure_set \<Rightarrow> failure_set
    \<Rightarrow> untrusted + regression_report" where
  "regressionGate num cfg b f =
     (case untrustedEvidence b Base_side of
        Some u \<Rightarrow> throw u
      | None \<Rightarrow>
     (case untrustedEvidence f Final_side of
        Some u \<Rightarrow> throw u
      | None \<Rightarrow>
          (let basePairs = fingerprintPairs num cfg b None; finalPairs = fingerprintPairs num cfg f (Some b);
               baseKeys = map snd basePairs; finalKeys = map snd finalPairs;
               novel = map fst (filter (\<lambda>p. snd p \<notin> set baseKeys) finalPairs);
               fixed = map fst (filter (\<lambda>p. snd p \<notin> set finalKeys) basePairs);
               totals = testTotalsRegression b f
           in ok \<lparr>rr_regression = (novel \<noteq> [] \<or> totals \<noteq> None), rr_novelFailures = novel, rr_fixedFailures = fixed,
                rr_preExistingCount = length basePairs - length fixed, rr_totals = totals\<rparr>)))"

end
