(* ===== verification/Gate_Laws.thy ===== *)
theory Gate_Laws
  imports Gate_Failures
begin

text \<open>
  The regression gate computes multiset differences of failure identities: the bookkeeping of ordinals, the two
  matching loops over the baseline's groups, and what a report therefore says whatever the order of the failures.
\<close>

section \<open>Keys are unambiguous\<close>

lemma hash_notin_nat_str: "CHR ''#'' \<notin> set (nat_str n)"
proof (induction n rule: nat_str.induct)
  case (1 n)
  have "digit d \<noteq> CHR ''#''" if "d < 10" for d
  proof
    assume "digit d = CHR ''#''"
    then have "(of_char (digit d) :: nat) = of_char (CHR ''#'')" by simp
    with that show False by (simp add: of_char_digit)
  qed
  with 1 show ?case by (cases "n < 10") (auto simp: nat_str.simps [of n] dest: sym)
qed

lemma hash_split: "c \<notin> set xs \<Longrightarrow> c \<notin> set ys \<Longrightarrow> xs @ c # us = ys @ c # vs \<Longrightarrow> xs = ys \<and> us = vs"
proof (induction xs arbitrary: ys)
  case (Cons x xs)
  then show ?case by (cases ys) auto
qed (metis append_Nil list.inject list.set_intros(1) neq_Nil_conv append_Cons)

lemma occurrence_key_inj [simp]: "occurrence_key k i = occurrence_key l j \<longleftrightarrow> k = l \<and> i = j"
proof
  assume "occurrence_key k i = occurrence_key l j"
  then have "rev (nat_str i) @ CHR ''#'' # rev k = rev (nat_str j) @ CHR ''#'' # rev l"
    unfolding occurrence_key_def by (metis append_Cons append_Nil append_assoc rev.simps(2) rev_append)
  moreover have "CHR ''#'' \<notin> set (rev (nat_str i))" "CHR ''#'' \<notin> set (rev (nat_str j))"
    by (simp_all add: hash_notin_nat_str)
  ultimately have "rev (nat_str i) = rev (nat_str j) \<and> rev k = rev l"
    using hash_split by metis
  then show "k = l \<and> i = j" by simp
qed simp

section \<open>The books of the ordinals\<close>

definition group_of :: "groups \<Rightarrow> string \<Rightarrow> pair list" where
  "group_of available k = or_default [] (map_of available k)"

definition ordinal_of :: "(string, nat) omap \<Rightarrow> string \<Rightarrow> nat" where
  "ordinal_of occurrences k = or_default 0 (map_of occurrences k)"

definition keys_at :: "string list \<Rightarrow> (nat \<times> string) list \<Rightarrow> string \<Rightarrow> string multiset" where
  "keys_at ids keys k = mset (map snd (filter (\<lambda>p. ids ! fst p = k) keys))"

definition first_keys :: "string \<Rightarrow> nat \<Rightarrow> string multiset" where
  "first_keys k n = mset (map (occurrence_key k) [0..<n])"

text \<open>Of every identity, the keys still in its group and the keys given out are the first ordinals; new ordinals
  are only given out once the group is empty.\<close>

definition books :: "string list \<Rightarrow> (string \<Rightarrow> nat) \<Rightarrow> groups \<Rightarrow> (nat \<times> string) list \<Rightarrow> (string, nat) omap \<Rightarrow> bool" where
  "books ids n available keys occurrences \<longleftrightarrow>
     distinct (map fst keys) \<and> fst ` set keys \<subseteq> {..<length ids} \<and>
     (\<forall>k. mset (map snd (group_of available k)) + keys_at ids keys k = first_keys k (ordinal_of occurrences k)
        \<and> n k \<le> ordinal_of occurrences k \<and> (n k < ordinal_of occurrences k \<longrightarrow> group_of available k = []))"

lemma group_of_set [simp]: "group_of (omap_set k g available) l = (if l = k then g else group_of available l)"
  by (simp add: group_of_def or_default_def)

lemma ordinal_of_set [simp]: "ordinal_of (omap_set k m occurrences) l = (if l = k then m else ordinal_of occurrences l)"
  by (simp add: ordinal_of_def or_default_def)

lemma keys_at_snoc [simp]:
  "keys_at ids (keys @ [(i, x)]) k = keys_at ids keys k + (if ids ! i = k then {#x#} else {#})"
  by (simp add: keys_at_def)

lemma first_keys_Suc [simp]: "first_keys k (Suc n) = add_mset (occurrence_key k n) (first_keys k n)"
  by (simp add: first_keys_def)

lemma set_first_keys [simp]: "set_mset (first_keys k n) = occurrence_key k ` {..<n}"
  by (auto simp: first_keys_def)

lemma size_first_keys [simp]: "size (first_keys k n) = n"
  by (simp add: first_keys_def)

lemma exact_step_books:
  assumes "books ids n available keys occurrences" "i < length ids" "i \<notin> fst ` set keys"
    and s: "exact_step ids fs i (available, keys) = (available', keys')"
  shows "books ids n available' keys' occurrences \<and> fst ` set keys' \<subseteq> insert i (fst ` set keys)"
proof (cases "keys' = keys \<and> available' = available")
  case True
  with assms(1) show ?thesis by auto
next
  case False
  then obtain g ys p zs where g: "map_of available (ids ! i) = Some g"
      "List.extract (\<lambda>p. compareFailures (fst p) (fs ! i) = 0) g = Some (ys, p, zs)"
    and r: "available' = omap_set (ids ! i) (ys @ zs) available" "keys' = keys @ [(i, snd p)]"
    using s unfolding exact_step_def by (auto split: option.splits prod.splits)
  note g = g(1) extract_SomeE [OF g(2)]
  have gk: "group_of available (ids ! i) = ys @ p # zs" using g by (simp add: group_of_def or_default_def)
  have bk: "mset (map snd (group_of available k)) + keys_at ids keys k = first_keys k (ordinal_of occurrences k)
      \<and> n k \<le> ordinal_of occurrences k \<and> (n k < ordinal_of occurrences k \<longrightarrow> group_of available k = [])" for k
    using assms(1) by (simp add: books_def)
  have "mset (map snd (group_of available' k)) + keys_at ids keys' k = first_keys k (ordinal_of occurrences k)
      \<and> n k \<le> ordinal_of occurrences k \<and> (n k < ordinal_of occurrences k \<longrightarrow> group_of available' k = [])" for k
    using bk [of k] gk by (cases "k = ids ! i") (simp_all add: r)
  then show ?thesis using assms(1-3) by (simp add: books_def r)
qed

lemma exact_loop_books:
  assumes "books ids n available keys occurrences" "set ord \<subseteq> {..<length ids}" "distinct ord"
    "set ord \<inter> fst ` set keys = {}"
    and s: "fold (exact_step ids fs) ord (available, keys) = (available', keys')"
  shows "books ids n available' keys' occurrences"
  using assms
proof (induction ord arbitrary: available keys)
  case (Cons i ord)
  obtain av1 ks1 where st: "exact_step ids fs i (available, keys) = (av1, ks1)" by fastforce
  have b: "books ids n av1 ks1 occurrences" "fst ` set ks1 \<subseteq> insert i (fst ` set keys)"
    using exact_step_books [OF Cons.prems(1) _ _ st] Cons.prems(2,4) by simp_all
  have "set ord \<inter> fst ` set ks1 = {}" using b(2) Cons.prems(3,4) by (simp add: disjoint_iff) blast
  then show ?case using Cons.IH [OF b(1)] Cons.prems(2,3,5) st by simp
qed simp

lemma drift_step_books:
  assumes "books ids n available keys occurrences" "i < length ids"
    and s: "drift_step ids i (available, keys, occurrences) = (available', keys', occurrences')"
  shows "books ids n available' keys' occurrences' \<and> fst ` set keys' = insert i (fst ` set keys)"
proof (cases "map_of keys i")
  case None
  then have fresh: "i \<notin> fst ` set keys" by (simp add: map_of_eq_None_iff)
  have bk: "mset (map snd (group_of available k)) + keys_at ids keys k = first_keys k (ordinal_of occurrences k)
      \<and> n k \<le> ordinal_of occurrences k \<and> (n k < ordinal_of occurrences k \<longrightarrow> group_of available k = [])" for k
    using assms(1) by (simp add: books_def)
  have "keys' = keys @ [(i, snd (last keys'))]
      \<and> (\<forall>k. mset (map snd (group_of available' k)) + keys_at ids keys' k = first_keys k (ordinal_of occurrences' k)
        \<and> n k \<le> ordinal_of occurrences' k \<and> (n k < ordinal_of occurrences' k \<longrightarrow> group_of available' k = []))"
  proof (cases "group_of available (ids ! i)")
    case Nil
    then have r: "available' = available" "keys' = keys @ [(i, occurrence_key (ids ! i) (ordinal_of occurrences (ids ! i)))]"
      "occurrences' = omap_set (ids ! i) (Suc (ordinal_of occurrences (ids ! i))) occurrences"
      using s None by (simp_all add: drift_step_def group_of_def ordinal_of_def Let_def)
    have "mset (map snd (group_of available' k)) + keys_at ids keys' k = first_keys k (ordinal_of occurrences' k)
        \<and> n k \<le> ordinal_of occurrences' k \<and> (n k < ordinal_of occurrences' k \<longrightarrow> group_of available' k = [])" for k
      using bk [of k] Nil by (cases "k = ids ! i") (simp_all add: r)
    then show ?thesis by (simp add: r)
  next
    case (Cons p g)
    then have r: "available' = omap_set (ids ! i) g available" "keys' = keys @ [(i, snd p)]" "occurrences' = occurrences"
      using s None by (simp_all add: drift_step_def group_of_def)
    have "mset (map snd (group_of available' k)) + keys_at ids keys' k = first_keys k (ordinal_of occurrences' k)
        \<and> n k \<le> ordinal_of occurrences' k \<and> (n k < ordinal_of occurrences' k \<longrightarrow> group_of available' k = [])" for k
      using bk [of k] Cons by (cases "k = ids ! i") (simp_all add: r)
    then show ?thesis by (simp add: r)
  qed
  moreover from this have "fst ` set keys' = insert i (fst ` set keys)" "distinct (map fst keys')"
    using assms(1) fresh unfolding books_def by (metis (no_types, lifting) Un_insert_right fst_conv image_insert list.set(1,2) set_append sup_bot_right,
      metis (no_types, lifting) fst_conv distinct_append map_append list.map(1,2) distinct_singleton list.set_map disjoint_iff empty_iff list.set(1,2) insert_iff)
  ultimately show ?thesis using assms(1,2) by (simp add: books_def)
next
  case (Some x)
  then have "available' = available" "keys' = keys" "occurrences' = occurrences" "i \<in> fst ` set keys"
    using s by (auto simp: drift_step_def dest: map_of_SomeD intro: rev_image_eqI)
  with assms(1) show ?thesis by auto
qed

lemma drift_loop_books:
  assumes "books ids n available keys occurrences" "set ord \<subseteq> {..<length ids}"
    and s: "fold (drift_step ids) ord (available, keys, occurrences) = (available', keys', occurrences')"
  shows "books ids n available' keys' occurrences' \<and> fst ` set keys' = set ord \<union> fst ` set keys"
  using assms
proof (induction ord arbitrary: available keys occurrences)
  case (Cons i ord)
  obtain av1 ks1 oc1 where st: "drift_step ids i (available, keys, occurrences) = (av1, ks1, oc1)"
    by (metis surj_pair)
  have "books ids n av1 ks1 oc1 \<and> fst ` set ks1 = insert i (fst ` set keys)"
    using drift_step_books [OF Cons.prems(1) _ st] Cons.prems(2) by simp
  then show ?case using Cons.IH [of av1 ks1 oc1] Cons.prems st by auto
qed simp

section \<open>What the pairs are\<close>

definition keys_of :: "(check_failure \<Rightarrow> string) \<Rightarrow> pair list \<Rightarrow> string \<Rightarrow> string multiset" where
  "keys_of ident ps k = mset (map snd (filter (\<lambda>p. ident (fst p) = k) ps))"

lemma size_keys_of: "size (keys_of ident ps k) = count (mset (map ident (map fst ps))) k"
  by (induction ps) (simp_all add: keys_of_def del: mset_map mset_filter)

lemma keys_of_read_out:
  assumes "distinct (map fst keys)" "fst ` set keys = {..<length fs}"
  shows "keys_of ident (map (\<lambda>i. (fs ! i, or_default [] (map_of keys i))) [0..<length fs]) k
    = keys_at (map ident fs) keys k"
proof -
  let ?ks = "map (\<lambda>i. (i, or_default [] (map_of keys i))) [0..<length fs]"
  have "set ?ks = set keys"
  proof (rule set_eqI)
    fix q
    show "q \<in> set ?ks \<longleftrightarrow> q \<in> set keys"
    proof (cases q)
      case (Pair i x)
      have "q \<in> set keys \<longleftrightarrow> map_of keys i = Some x" using assms(1) Pair by simp
      moreover have "i < length fs \<longleftrightarrow> map_of keys i \<noteq> None" using assms(2) by (auto simp: map_of_eq_None_iff)
      ultimately show ?thesis by (cases "map_of keys i") (auto simp: Pair or_default_def)
    qed
  qed
  moreover have "distinct ?ks" "distinct keys" using assms(1) by (auto simp: distinct_map inj_on_def)
  ultimately have m: "mset keys = mset ?ks" by (metis set_eq_iff_mset_eq_distinct)
  have "keys_at (map ident fs) keys k = image_mset snd (filter_mset (\<lambda>p. map ident fs ! fst p = k) (mset keys))"
    by (simp add: keys_at_def)
  also have "\<dots> = image_mset snd (filter_mset (\<lambda>p. map ident fs ! fst p = k) (mset ?ks))" by (simp only: m)
  also have "\<dots> = mset (map snd (filter (\<lambda>p. map ident fs ! fst p = k) ?ks))" by (metis mset_filter mset_map)
  also have "map snd (filter (\<lambda>p. map ident fs ! fst p = k) ?ks)
      = map (\<lambda>i. or_default [] (map_of keys i)) (filter (\<lambda>i. map ident fs ! i = k) [0..<length fs])"
    by (simp add: filter_map comp_def)
  also have "filter (\<lambda>i. map ident fs ! i = k) [0..<length fs] = filter (\<lambda>i. ident (fs ! i) = k) [0..<length fs]"
    by (rule filter_cong) simp_all
  also have "mset (map (\<lambda>i. or_default [] (map_of keys i)) (filter (\<lambda>i. ident (fs ! i) = k) [0..<length fs]))
      = keys_of ident (map (\<lambda>i. (fs ! i, or_default [] (map_of keys i))) [0..<length fs]) k"
    by (simp add: keys_of_def filter_map comp_def)
  finally show ?thesis by simp
qed

text \<open>The matching, whatever the groups were: the keys given to an identity and those left in its group are the first
  ordinals, and beyond the baseline's ordinals nothing is left.\<close>

lemma assign_keys_law:
  assumes "\<And>k. mset (map snd (group_of available k)) = first_keys k (n k)" "\<And>k. ordinal_of occurrences k = n k"
  shows "\<exists>rest m. \<forall>k. rest k + keys_of ident (assign_keys (map ident fs) fs available occurrences) k = first_keys k (m k)
    \<and> n k \<le> m k \<and> (n k < m k \<longrightarrow> rest k = {#})"
proof -
  let ?ids = "map ident fs"
  let ?ord = "index_order ?ids fs"
  have ord: "set ?ord = {..<length ?ids}" "distinct ?ord" by (auto simp: index_order_def)
  have b0: "books ?ids n available [] occurrences" using assms by (simp add: books_def keys_at_def)
  obtain av1 ks1 where e: "fold (exact_step ?ids fs) ?ord (available, []) = (av1, ks1)" by fastforce
  obtain av2 ks2 oc2 where d: "fold (drift_step ?ids) ?ord (av1, ks1, occurrences) = (av2, ks2, oc2)" by (metis surj_pair)
  have b1: "books ?ids n av1 ks1 occurrences" using exact_loop_books [OF b0 _ _ _ e] ord by simp
  have b2: "books ?ids n av2 ks2 oc2" and all: "fst ` set ks2 = {..<length fs} \<union> fst ` set ks1"
    using drift_loop_books [OF b1 _ d] ord by simp_all
  have "fst ` set ks1 \<subseteq> {..<length fs}" using b1 by (simp add: books_def)
  with all have dom: "fst ` set ks2 = {..<length fs}" by auto
  have "keys_of ident (assign_keys ?ids fs available occurrences) k = keys_at ?ids ks2 k" for k
    unfolding assign_keys_def Let_def e prod.case d using keys_of_read_out [OF _ dom] b2 by (simp add: books_def)
  then show ?thesis
    using b2 unfolding books_def
    by (intro exI [of _ "\<lambda>k. mset (map snd (group_of av2 k))"] exI [of _ "ordinal_of oc2"]) auto
qed

section \<open>The baseline's pairs and groups\<close>

lemma assign_fresh:
  "keys_of ident (assign_keys (map ident fs) fs [] []) k = first_keys k (count (mset (map ident fs)) k)"
proof -
  obtain rest m where a: "\<And>k. rest k + keys_of ident (assign_keys (map ident fs) fs [] []) k = first_keys k (m k)"
    "\<And>k. 0 < m k \<Longrightarrow> rest k = {#}"
    using assign_keys_law [of "[]" "\<lambda>_. 0" "[]" ident fs]
    by (auto simp: group_of_def ordinal_of_def or_default_def first_keys_def)
  have e: "keys_of ident (assign_keys (map ident fs) fs [] []) k = first_keys k (m k)" using a(1,2) [of k]
    by (cases "m k") (simp_all add: first_keys_def)
  have "map fst (assign_keys (map ident fs) fs [] []) = fs"
    by (simp add: assign_keys_def Let_def case_prod_beta comp_def map_nth)
  then have "size (keys_of ident (assign_keys (map ident fs) fs [] []) k) = count (mset (map ident fs)) k"
    by (metis (no_types, lifting) size_keys_of)
  then show ?thesis using e by simp
qed

lemma add_pairs_groups:
  assumes "fold (add_pair ident) ps (available, occurrences) = (available', occurrences')"
    "\<And>k. ordinal_of occurrences k = length (group_of available k)"
  shows "mset (map snd (group_of available' k)) = mset (map snd (group_of available k)) + keys_of ident ps k
    \<and> ordinal_of occurrences' k = length (group_of available' k)"
  using assms
proof (induction ps arbitrary: available occurrences)
  case (Cons p ps)
  let ?g = "group_of available (ident (fst p)) @ [p]"
  have st: "add_pair ident p (available, occurrences)
      = (omap_set (ident (fst p)) ?g available, omap_set (ident (fst p)) (length ?g) occurrences)"
    by (simp add: add_pair_def Let_def group_of_def)
  have "mset (map snd (group_of available' k))
      = mset (map snd (group_of (omap_set (ident (fst p)) ?g available) k)) + keys_of ident ps k
    \<and> ordinal_of occurrences' k = length (group_of available' k)"
    using Cons.prems by (intro Cons.IH [of _ "omap_set (ident (fst p)) (length ?g) occurrences"]) (simp_all add: st)
  then show ?case by (auto simp: keys_of_def)
qed (simp add: keys_of_def)

lemma group_of_sorted: "group_of (map (\<lambda>(k, g). (k, h g)) available) k = (case map_of available k of None \<Rightarrow> [] | Some g \<Rightarrow> h g)"
  by (induction available) (auto simp: group_of_def or_default_def)

lemma baseline_groups_law:
  assumes "baseline_groups ident ps = (available, occurrences)"
  shows "mset (map snd (group_of available k)) = keys_of ident ps k \<and> ordinal_of occurrences k = size (keys_of ident ps k)"
proof -
  obtain av oc where f: "fold (add_pair ident) ps ([], []) = (av, oc)" by fastforce
  have g: "mset (map snd (group_of av k)) = keys_of ident ps k" "ordinal_of oc k = length (group_of av k)"
    using add_pairs_groups [OF f, of k] by (simp_all add: group_of_def ordinal_of_def or_default_def)
  have r: "available = map (\<lambda>(k, g). (k, js_sort (\<lambda>a b. compareFailures (fst a) (fst b)) g)) av" "occurrences = oc"
    using assms by (simp_all add: baseline_groups_def f)
  have "mset (map snd (group_of available k)) = mset (map snd (group_of av k))"
    unfolding r group_of_sorted by (simp add: group_of_def or_default_def split: option.split)
  moreover have "size (keys_of ident ps k) = length (group_of av k)" unfolding g(1) [symmetric] by simp
  ultimately show ?thesis using g r by simp
qed

section \<open>The report\<close>

definition identities :: "(rat \<Rightarrow> string) \<Rightarrow> fingerprint_config \<Rightarrow> failure_set \<Rightarrow> check_failure list \<Rightarrow> string multiset" where
  "identities num cfg s fs = mset (map (fingerprintKey num cfg (fs_tool s)) fs)"

lemma baseline_pairs:
  "keys_of (fingerprintKey num cfg (fs_tool b)) (fingerprintPairs num cfg b None) k
   = first_keys k (count (identities num cfg b (fs_failures b)) k)"
  by (simp add: fingerprintPairs_def Let_def assign_fresh identities_def)

lemma final_pairs:
  "\<exists>rest m. \<forall>k. rest k + keys_of (fingerprintKey num cfg (fs_tool f)) (fingerprintPairs num cfg f (Some b)) k = first_keys k (m k)
    \<and> count (identities num cfg b (fs_failures b)) k \<le> m k
    \<and> (count (identities num cfg b (fs_failures b)) k < m k \<longrightarrow> rest k = {#})"
proof -
  let ?id = "fingerprintKey num cfg (fs_tool b)"
  let ?bp = "assign_keys (map ?id (fs_failures b)) (fs_failures b) [] []"
  obtain available occurrences where g: "baseline_groups ?id ?bp = (available, occurrences)" by fastforce
  have "mset (map snd (group_of available k)) = first_keys k (count (identities num cfg b (fs_failures b)) k)"
    "ordinal_of occurrences k = count (identities num cfg b (fs_failures b)) k" for k
    using baseline_groups_law [OF g, of k] by (simp_all add: assign_fresh identities_def)
  from assign_keys_law [OF this, of "fingerprintKey num cfg (fs_tool f)" "fs_failures f"]
  show ?thesis by (simp add: fingerprintPairs_def Let_def g)
qed

lemma pairs_failures: "map fst (fingerprintPairs num cfg s baseline) = fs_failures s"
  by (simp add: fingerprintPairs_def Let_def assign_keys_def case_prod_beta comp_def map_nth split: option.split)

lemma in_pairs_keys: "x \<in> snd ` set ps \<longleftrightarrow> (\<exists>k. x \<in># keys_of ident ps k)"
  by (force simp: keys_of_def)

lemma count_filtered:
  "count (mset (map ident (map fst (filter (\<lambda>p. P (snd p)) ps)))) k = size (filter_mset P (keys_of ident ps k))"
  by (induction ps) (simp_all add: keys_of_def)

lemma count_first_keys: "count (first_keys k n) x \<le> 1"
proof -
  have "distinct (map (occurrence_key k) [0..<n])" by (simp add: distinct_map inj_on_def)
  then show ?thesis unfolding first_keys_def distinct_count_atmost_1 by simp
qed

lemma base_key_iff:
  "occurrence_key k i \<in> snd ` set (fingerprintPairs num cfg b None) \<longleftrightarrow> i < count (identities num cfg b (fs_failures b)) k"
  by (auto simp: in_pairs_keys [of _ _ "fingerprintKey num cfg (fs_tool b)"] baseline_pairs)

lemma novel_identities:
  "identities num cfg f (map fst (filter (\<lambda>p. snd p \<notin> set (map snd (fingerprintPairs num cfg b None)))
      (fingerprintPairs num cfg f (Some b))))
   = identities num cfg f (fs_failures f) - identities num cfg b (fs_failures b)"
proof (rule multiset_eqI)
  fix k
  let ?B = "count (identities num cfg b (fs_failures b)) k"
  let ?F = "keys_of (fingerprintKey num cfg (fs_tool f)) (fingerprintPairs num cfg f (Some b)) k"
  let ?new = "\<lambda>x. x \<notin> snd ` set (fingerprintPairs num cfg b None)"
  obtain rest m where r: "rest + ?F = first_keys k m" "?B \<le> m" "?B < m \<Longrightarrow> rest = {#}"
    using final_pairs [of num cfg f b] by metis
  have F: "size ?F = count (identities num cfg f (fs_failures f)) k"
    by (simp add: size_keys_of pairs_failures identities_def)
  have "{i. i < m \<and> ?B \<le> [0..<m] ! i} = {?B..<m}" by auto
  then have new: "size (filter_mset ?new (first_keys k m)) = m - ?B"
    unfolding first_keys_def mset_filter [symmetric] size_mset filter_map comp_def base_key_iff
    using r(2) by (simp add: not_less length_filter_conv_card)
  have "size (filter_mset ?new ?F) = size ?F - ?B"
  proof (cases "?B < m")
    case True
    then show ?thesis using r new by simp
  next
    case False
    then have "size (filter_mset ?new (rest + ?F)) = 0" "size rest + size ?F = ?B"
      using new r by (simp_all add: r(1) flip: size_union)
    then show ?thesis by simp
  qed
  then show "count (identities num cfg f (map fst (filter (\<lambda>p. snd p \<notin> set (map snd (fingerprintPairs num cfg b None)))
      (fingerprintPairs num cfg f (Some b))))) k
    = count (identities num cfg f (fs_failures f) - identities num cfg b (fs_failures b)) k"
    using F by (simp add: identities_def count_filtered [where P = ?new] del: map_map mset_map)
qed

lemma fixed_identities:
  "identities num cfg b (map fst (filter (\<lambda>p. snd p \<notin> set (map snd (fingerprintPairs num cfg f (Some b))))
      (fingerprintPairs num cfg b None)))
   = identities num cfg b (fs_failures b) - identities num cfg f (fs_failures f)"
proof (rule multiset_eqI)
  fix k
  let ?B = "count (identities num cfg b (fs_failures b)) k"
  let ?id = "fingerprintKey num cfg (fs_tool f)"
  let ?F = "\<lambda>k. keys_of ?id (fingerprintPairs num cfg f (Some b)) k"
  let ?gone = "\<lambda>x. x \<notin> snd ` set (fingerprintPairs num cfg f (Some b))"
  obtain rest m where r: "\<And>k. rest k + ?F k = first_keys k (m k)"
    "\<And>k. count (identities num cfg b (fs_failures b)) k \<le> m k"
    "\<And>k. count (identities num cfg b (fs_failures b)) k < m k \<Longrightarrow> rest k = {#}"
    using final_pairs [of num cfg f b] by metis
  have F: "size (?F k) = count (identities num cfg f (fs_failures f)) k"
    by (simp add: size_keys_of pairs_failures identities_def)
  have own: "x \<in># ?F l \<Longrightarrow> \<exists>i. x = occurrence_key l i" for x l
    using r(1) [of l] set_first_keys [of l "m l"] by (metis (no_types, lifting) imageE set_mset_union UnI2)
  then have gone: "?gone (occurrence_key k i) \<longleftrightarrow> occurrence_key k i \<notin># ?F k" for i
    by (metis in_pairs_keys occurrence_key_inj)
  have "size (filter_mset ?gone (first_keys k ?B)) = ?B - size (?F k)"
  proof (cases "?B < m k")
    case True
    have "filter_mset ?gone (first_keys k ?B) = filter_mset (\<lambda>_. False) (first_keys k ?B)"
    proof (rule filter_mset_cong)
      fix x assume "x \<in># first_keys k ?B"
      then obtain i where "x = occurrence_key k i" "i < m k" using True by auto
      then show "?gone x \<longleftrightarrow> False" using r(1) [of k] r(3) [OF True] gone by simp
    qed simp
    then have "filter_mset ?gone (first_keys k ?B) = {#}" by simp
    moreover have "m k = size (?F k)" using True r(1,3) [of k] by (metis add_0 size_first_keys)
    ultimately show ?thesis using True by simp
  next
    case False
    then have B: "first_keys k ?B = rest k + ?F k" using r(1,2) [of k] by (metis le_antisym not_less)
    have disj: "x \<notin># ?F k" if "x \<in># rest k" for x
      using that count_first_keys [of k ?B x] unfolding B by (auto simp: count_greater_zero_iff [symmetric] simp del: count_greater_zero_iff)
    have key: "\<exists>i. x = occurrence_key k i" if "x \<in># rest k + ?F k" for x
      using that unfolding B [symmetric] by auto
    have "?gone x \<longleftrightarrow> x \<notin># ?F k" if m: "x \<in># rest k + ?F k" for x
    proof -
      obtain i where "x = occurrence_key k i" using key [OF m] by blast
      then show ?thesis using gone [of i] by (simp only:)
    qed
    then have "filter_mset ?gone (rest k) = filter_mset (\<lambda>_. True) (rest k)" "filter_mset ?gone (?F k) = filter_mset (\<lambda>_. False) (?F k)"
      using disj by (intro filter_mset_cong; simp)+
    then have "filter_mset ?gone (first_keys k ?B) = rest k" unfolding B by simp
    moreover have "?B = size (rest k) + size (?F k)" using arg_cong [OF B, of size] by simp
    ultimately show ?thesis by simp
  qed
  then show "count (identities num cfg b (map fst (filter (\<lambda>p. snd p \<notin> set (map snd (fingerprintPairs num cfg f (Some b))))
      (fingerprintPairs num cfg b None)))) k
    = count (identities num cfg b (fs_failures b) - identities num cfg f (fs_failures f)) k"
    using F by (simp add: identities_def count_filtered [where P = ?gone] baseline_pairs del: map_map mset_map)
qed

text \<open>What the gate promises, without ordinals or groups: both runs are trustworthy evidence, no failure identity occurs
  more often than before, and no total that was observed is missing, smaller (the tests) or larger (the skipped ones).\<close>

definition trusted :: "failure_set \<Rightarrow> bool" where
  "trusted s \<longleftrightarrow> (case fs_exitCode s of None \<Rightarrow> False | Some c \<Rightarrow> fs_failures s = [] \<longrightarrow> c = 0)"

definition totals_hold :: "failure_set \<Rightarrow> failure_set \<Rightarrow> bool" where
  "totals_hold b f \<longleftrightarrow> list_all (\<lambda>(name, field). field b \<noteq> None \<longrightarrow> field f \<noteq> None) observedFields
     \<and> (\<forall>tb tf. fs_numTotalTests b = Some tb \<longrightarrow> fs_numTotalTests f = Some tf \<longrightarrow> tb \<le> tf) \<and> skipped f \<le> skipped b"

definition no_regression :: "(rat \<Rightarrow> string) \<Rightarrow> fingerprint_config \<Rightarrow> failure_set \<Rightarrow> failure_set \<Rightarrow> bool" where
  "no_regression num cfg b f \<longleftrightarrow> trusted b \<and> trusted f \<and> totals_hold b f
     \<and> identities num cfg f (fs_failures f) \<subseteq># identities num cfg b (fs_failures b)"

lemma untrusted_iff: "untrustedEvidence s sd = None \<longleftrightarrow> trusted s"
  by (auto simp: untrustedEvidence_def trusted_def split: option.split)

lemma find_None_all: "find P xs = None \<longleftrightarrow> list_all (\<lambda>x. \<not> P x) xs"
  by (induction xs) auto

lemma totals_iff: "testTotalsRegression b f = None \<longleftrightarrow> totals_hold b f"
proof -
  let ?P = "\<lambda>(name :: string, field). field b \<noteq> None \<and> field f = None"
  have "(\<lambda>(name, field). field b \<noteq> None \<longrightarrow> field f \<noteq> None) = (\<lambda>x. \<not> ?P x)" by (auto simp: fun_eq_iff)
  then have a: "list_all (\<lambda>(name, field). field b \<noteq> None \<longrightarrow> field f \<noteq> None) observedFields
      \<longleftrightarrow> find ?P observedFields = None"
    unfolding find_None_all by (rule arg_cong)
  show ?thesis
  proof (cases "find ?P observedFields")
    case None
    then show ?thesis unfolding totals_hold_def a by (auto simp: testTotalsRegression_def split: option.split)
  next
    case (Some q)
    then show ?thesis unfolding totals_hold_def a by (simp add: testTotalsRegression_def split: prod.split)
  qed
qed

lemma gate_ok:
  assumes "regressionGate num cfg b f = ok r"
  shows "trusted b \<and> trusted f"
    and "identities num cfg f (rr_novelFailures r) = identities num cfg f (fs_failures f) - identities num cfg b (fs_failures b)"
    and "identities num cfg b (rr_fixedFailures r) = identities num cfg b (fs_failures b) - identities num cfg f (fs_failures f)"
    and "rr_preExistingCount r = length (fs_failures b) - length (rr_fixedFailures r)"
    and "rr_totals r = testTotalsRegression b f"
    and "rr_regression r \<longleftrightarrow> rr_novelFailures r \<noteq> [] \<or> rr_totals r \<noteq> None"
proof -
  have u: "untrustedEvidence b Base_side = None" "untrustedEvidence f Final_side = None"
    using assms by (auto simp: regressionGate_def split: option.splits)
  then show "trusted b \<and> trusted f" by (simp add: untrusted_iff)
  have len: "length (fingerprintPairs num cfg b None) = length (fs_failures b)" by (metis length_map pairs_failures)
  note r = assms [unfolded regressionGate_def u option.case Let_def, THEN Inr_inject, symmetric]
  show "identities num cfg f (rr_novelFailures r) = identities num cfg f (fs_failures f) - identities num cfg b (fs_failures b)"
    unfolding r by (simp only: regression_report.simps novel_identities)
  show "identities num cfg b (rr_fixedFailures r) = identities num cfg b (fs_failures b) - identities num cfg f (fs_failures f)"
    unfolding r by (simp only: regression_report.simps fixed_identities)
  show "rr_preExistingCount r = length (fs_failures b) - length (rr_fixedFailures r)"
    unfolding r by (simp add: len)
  show "rr_totals r = testTotalsRegression b f" unfolding r by simp
  show "rr_regression r \<longleftrightarrow> rr_novelFailures r \<noteq> [] \<or> rr_totals r \<noteq> None" unfolding r by simp
qed

lemma no_identities: "identities num cfg s fs = {#} \<longleftrightarrow> fs = []"
  by (simp add: identities_def)

text \<open>C22 A gate report is exact up to drift: the identities of the novel failures are the multiset difference of the
  final run and the baseline, those of the fixed failures the opposite difference, the rest of the baseline is counted
  as tolerated, and the verdict is a regression exactly when some identity is novel or the totals regressed.\<close>

theorem gate_reports_differences:
  assumes "regressionGate num cfg b f = ok r"
  shows "identities num cfg f (rr_novelFailures r) = identities num cfg f (fs_failures f) - identities num cfg b (fs_failures b)
    \<and> identities num cfg b (rr_fixedFailures r) = identities num cfg b (fs_failures b) - identities num cfg f (fs_failures f)
    \<and> rr_preExistingCount r = size (identities num cfg b (fs_failures b) \<inter># identities num cfg f (fs_failures f))
    \<and> (rr_regression r \<longleftrightarrow> \<not> identities num cfg f (fs_failures f) \<subseteq># identities num cfg b (fs_failures b)
         \<or> testTotalsRegression b f \<noteq> None)"
proof -
  let ?B = "identities num cfg b (fs_failures b)" and ?F = "identities num cfg f (fs_failures f)"
  note g = gate_ok [OF assms]
  have "?B \<inter># ?F = ?B - (?B - ?F)" by (rule multiset_eqI) simp
  then have "size (?B \<inter># ?F) = size ?B - size (?B - ?F)" by (simp add: size_Diff_submset)
  moreover have "size ?B = length (fs_failures b)" by (simp add: identities_def)
  moreover have "size (?B - ?F) = length (rr_fixedFailures r)" unfolding g(3) [symmetric] by (simp add: identities_def)
  ultimately have "rr_preExistingCount r = size (?B \<inter># ?F)" by (simp add: g(4))
  moreover have "rr_novelFailures r = [] \<longleftrightarrow> ?F \<subseteq># ?B"
    unfolding no_identities [of num cfg f, symmetric] g(2) by (rule Diff_eq_empty_iff_mset)
  ultimately show ?thesis using g by metis
qed

definition demo_failure :: "rat \<Rightarrow> string \<Rightarrow> check_failure" where
  "demo_failure l m = \<lparr>cf_file = Some ''a.ts'', cf_line = Some (Fin l), cf_column = None, cf_ruleId = None, cf_message = m,
     cf_severity = Sev_error\<rparr>"

definition demo_run :: "check_failure list \<Rightarrow> failure_set" where
  "demo_run fs = \<lparr>fs_tool = ''tsc'', fs_failures = fs, fs_exitCode = Some 1, fs_numTotalTests = None,
     fs_numPassedTests = None, fs_numPassed = None, fs_numSkippedTests = None, fs_numPendingTests = None,
     fs_numTodoTests = None\<rparr>"

definition demo_num :: "rat \<Rightarrow> string" where
  "demo_num r = (if r = 0 then ''0'' else ''1'')"

lemma gate_reports_differences_witness:
  "\<exists>r. regressionGate demo_num no_config (demo_run [demo_failure 5 ''y'']) (demo_run [demo_failure 2 ''z'', demo_failure 25 ''z'']) = ok r
    \<and> rr_preExistingCount r = size (identities demo_num no_config (demo_run [demo_failure 5 ''y'']) [demo_failure 5 ''y'']
        \<inter># identities demo_num no_config (demo_run [demo_failure 2 ''z'', demo_failure 25 ''z''])
          [demo_failure 2 ''z'', demo_failure 25 ''z''])"
proof -
  have "is_ok (regressionGate demo_num no_config (demo_run [demo_failure 5 ''y''])
      (demo_run [demo_failure 2 ''z'', demo_failure 25 ''z'']))"
    by code_simp
  then obtain r where r: "regressionGate demo_num no_config (demo_run [demo_failure 5 ''y''])
      (demo_run [demo_failure 2 ''z'', demo_failure 25 ''z'']) = ok r"
    by (auto simp: is_ok_def split: sum.splits)
  from gate_reports_differences [OF r] r show ?thesis by (simp add: demo_run_def)
qed

text \<open>C23 The gate passes exactly when the promise holds; an unobservable or contradictory run never passes.\<close>

theorem gate_passes_iff:
  "(\<exists>r. regressionGate num cfg b f = ok r \<and> \<not> rr_regression r) \<longleftrightarrow> no_regression num cfg b f"
proof (cases "regressionGate num cfg b f")
  case (Inl u)
  then have "\<not> (trusted b \<and> trusted f)"
    by (auto simp: regressionGate_def Let_def simp flip: untrusted_iff [of b Base_side] untrusted_iff [of f Final_side]
      split: option.splits)
  with Inl show ?thesis by (auto simp: no_regression_def)
next
  case (Inr r)
  note g = gate_ok [OF Inr]
  have "rr_novelFailures r = [] \<longleftrightarrow> identities num cfg f (fs_failures f) \<subseteq># identities num cfg b (fs_failures b)"
    unfolding no_identities [of num cfg f, symmetric] g(2) by (rule Diff_eq_empty_iff_mset)
  with g Inr show ?thesis by (auto simp: no_regression_def totals_iff)
qed

text \<open>The verdict does not depend on the order of the failures on either side.\<close>

lemma gate_order_irrelevant:
  assumes "mset fs = mset (fs_failures f)" "mset bs = mset (fs_failures b)"
  shows "no_regression num cfg (b\<lparr>fs_failures := bs\<rparr>) (f\<lparr>fs_failures := fs\<rparr>) = no_regression num cfg b f"
proof -
  have "identities num cfg (f\<lparr>fs_failures := fs\<rparr>) fs = identities num cfg f (fs_failures f)"
    "identities num cfg (b\<lparr>fs_failures := bs\<rparr>) bs = identities num cfg b (fs_failures b)"
    using assms by (simp_all add: identities_def)
  moreover have "fs = [] \<longleftrightarrow> fs_failures f = []" "bs = [] \<longleftrightarrow> fs_failures b = []"
    using assms by (metis mset_zero_iff)+
  ultimately show ?thesis
    by (simp add: no_regression_def trusted_def totals_hold_def observedFields_def skipped_def cong: option.case_cong)
qed

section \<open>Two failures share an identity exactly when their components agree\<close>

definition json_decode :: "string \<Rightarrow> (char \<times> string) option" where
  "json_decode s = (case s of [] \<Rightarrow> None
     | x # xs \<Rightarrow> if x \<noteq> char_of (92 :: nat) then Some (x, xs)
       else (case xs of [] \<Rightarrow> None
         | y # ys \<Rightarrow>
           if y = CHR ''u'' then Some (char_of (16 * (of_char (ys ! 2) - 48 :: nat)
               + (let h = of_char (ys ! 3) in if h < 58 then h - 48 else h - 87)), drop 4 ys)
           else Some (if y = CHR ''b'' then char_of (8 :: nat) else if y = CHR ''t'' then char_of (9 :: nat)
             else if y = CHR ''n'' then char_of (10 :: nat) else if y = CHR ''f'' then char_of (12 :: nat)
             else if y = CHR ''r'' then char_of (13 :: nat) else y, ys)))"

lemma char_of_eq: "m < 256 \<Longrightarrow> n < 256 \<Longrightarrow> char_of m = (char_of n :: char) \<longleftrightarrow> m = n" for m n :: nat
  by (metis mod_less of_char_of)

lemma json_decode_char: "json_decode (json_char c @ u) = Some (c, u)"
proof -
  define n where "n = (of_char c :: nat)"
  have c: "c = char_of n" and n: "n < 256" by (simp_all add: n_def)
  consider "n < 32" "n \<notin> {8, 9, 10, 12, 13}" | "n \<in> {8, 9, 10, 12, 13, 34, 92}" | "32 \<le> n" "n \<noteq> 34" "n \<noteq> 92" by force
  then show ?thesis
  proof cases
    case 1
    have "n div 16 < 2" "n mod 16 < 16" using 1 by auto
    then have "(of_char (hex_digit (n div 16)) :: nat) = 48 + n div 16"
      "(of_char (hex_digit (n mod 16)) :: nat) = (if n mod 16 < 10 then 48 + n mod 16 else 87 + n mod 16)"
      by (simp_all add: hex_digit_def)
    moreover have "json_char c = char_of (92 :: nat) # ''u00'' @ [hex_digit (n div 16), hex_digit (n mod 16)]"
      using 1 by (simp add: json_char_def Let_def flip: n_def)
    ultimately show ?thesis by (simp add: json_decode_def Let_def c)
  next
    case 2
    then have "c \<in> {char_of (8 :: nat), char_of (9 :: nat), char_of (10 :: nat), char_of (12 :: nat), char_of (13 :: nat),
      char_of (34 :: nat), char_of (92 :: nat)}" by (auto simp: c)
    moreover have "CHR ''u'' = char_of (117 :: nat)" "CHR ''b'' = char_of (98 :: nat)" "CHR ''t'' = char_of (116 :: nat)"
      "CHR ''n'' = char_of (110 :: nat)" "CHR ''f'' = char_of (102 :: nat)" "CHR ''r'' = char_of (114 :: nat)"
      by code_simp+
    ultimately show ?thesis by (elim insertE emptyE) (simp_all add: json_char_def json_decode_def Let_def char_of_eq)
  next
    case 3
    then have "json_char c = [c]" by (simp add: json_char_def Let_def flip: n_def)
    moreover have "c \<noteq> char_of (92 :: nat)" using 3 n unfolding c by (subst char_of_eq) simp_all
    ultimately show ?thesis by (simp add: json_decode_def)
  qed
qed

definition quote :: char where "quote = char_of (34 :: nat)"

lemma json_char_not_quote: "json_char d @ w \<noteq> quote # u"
proof
  assume e: "json_char d @ w = quote # u"
  have q: "quote \<noteq> char_of (92 :: nat)" unfolding quote_def by (subst char_of_eq) simp_all
  have "json_decode (quote # u) = Some (quote, u)" using q by (simp add: json_decode_def)
  then have "d = quote" using json_decode_char [of d w] e by simp
  then have "json_char d = [char_of (92 :: nat), quote]" by (simp add: json_char_def quote_def Let_def)
  with e q show False by simp
qed

lemma json_body_inj:
  "concat (map json_char s) @ quote # u = concat (map json_char t) @ quote # v \<Longrightarrow> s = t \<and> u = v"
proof (induction s arbitrary: t)
  case Nil
  then show ?case using json_char_not_quote by (cases t) (auto simp: eq_commute)
next
  case (Cons c cs)
  show ?case
  proof (cases t)
    case Nil
    then show ?thesis using Cons.prems json_char_not_quote by simp
  next
    case t: (Cons d ds)
    have "json_char c @ concat (map json_char cs) @ quote # u = json_char d @ concat (map json_char ds) @ quote # v"
      using Cons.prems t by simp
    then have "c = d \<and> concat (map json_char cs) @ quote # u = concat (map json_char ds) @ quote # v"
      by (metis json_decode_char option.inject prod.inject)
    then show ?thesis using Cons.IH t by simp
  qed
qed

fun json_tail :: "string list \<Rightarrow> string" where
  "json_tail [] = '']''"
| "json_tail (x # xs) = CHR '','' # json_str x @ json_tail xs"

lemma json_str_split: "json_str s @ u = quote # concat (map json_char s) @ quote # u"
  by (simp add: json_str_def quote_def)

lemma json_tail_inj: "json_tail xs = json_tail ys \<Longrightarrow> xs = ys"
proof (induction xs arbitrary: ys)
  case Nil
  then show ?case by (cases ys) auto
next
  case (Cons x xs)
  then obtain y ys' where y: "ys = y # ys'" by (cases ys) auto
  have "json_str x @ json_tail xs = json_str y @ json_tail ys'" using Cons.prems y by simp
  then have "x = y \<and> json_tail xs = json_tail ys'" unfolding json_str_split using json_body_inj by blast
  then show ?case using Cons.IH y by simp
qed

lemma json_strings_tail: "CHR '','' # join '','' (map json_str (x # xs)) @ '']'' = json_tail (x # xs)"
  by (induction xs arbitrary: x) simp_all

lemma json_strings_inj: "json_strings xs = json_strings ys \<Longrightarrow> xs = ys"
proof -
  assume e: "json_strings xs = json_strings ys"
  have q: "json_strings [] \<noteq> json_strings (z # zs)" for z zs
  proof -
    have "json_strings (z # zs) = CHR ''['' # tl (json_tail (z # zs))"
      unfolding json_strings_tail [symmetric] by (simp add: json_strings_def)
    then have "json_strings (z # zs) = CHR ''['' # quote # concat (map json_char z) @ quote # json_tail zs"
      by (simp add: json_str_split)
    moreover have "quote \<noteq> CHR '']''" by (simp add: quote_def char_of_def bit_simps)
    ultimately show ?thesis by (simp add: json_strings_def)
  qed
  show "xs = ys"
  proof (cases xs; cases ys)
    fix x xs' y ys' assume "xs = x # xs'" "ys = y # ys'"
    with e have "join '','' (map json_str (x # xs')) @ '']'' = join '','' (map json_str (y # ys')) @ '']''"
      by (simp add: json_strings_def)
    then have "json_tail xs = json_tail ys" unfolding \<open>xs = x # xs'\<close> \<open>ys = y # ys'\<close> json_strings_tail [symmetric] by simp
    then show ?thesis by (rule json_tail_inj)
  qed (use e q q [symmetric] in auto)
qed

lemma same_identity_iff: "fingerprintKey num cfg tool f = fingerprintKey num cfg tool' g
    \<longleftrightarrow> keyComponents num f (resolveConfig cfg tool) = keyComponents num g (resolveConfig cfg tool')"
  using json_strings_inj by (auto simp: fingerprintKey_def)

end
