(* ===== verification/Fix_Escalation.thy ===== *)
theory Fix_Escalation
  imports Gate_Laws
begin

text \<open>
  \<open>src/ops/fix/escalation.ts\<close>: who gets the next attempt on a failing task (a worker, the rescue role or a human), out
  of a rescue pool per run and per package that grows with the failures fixed so far. The policy's numbers are
  naturals and \<open>rescuePerFixed\<close> is positive, as the configuration schema demands.
\<close>

section \<open>The operations\<close>

record escalation_policy =
  ep_workerAttempts :: nat
  ep_rescueBase :: nat
  ep_rescuePerFixed :: nat
  ep_rescuePerPackageCap :: nat

datatype tier = Worker_tier | Rescue_tier | Human_tier

record escalation_decision =
  ed_tier :: tier
  ed_attempt :: nat
  ed_reason :: string

record escalation_request =
  er_package :: string
  er_task :: string
  er_workerUsed :: nat
  er_rescueUsed :: nat
  er_canRescue :: bool
  er_regression :: bool
  er_reason :: string
  er_stopReason :: "string option"

record escalation_state =
  es_initialFixedFailures :: nat
  es_fixedFingerprints :: "string list"
  es_perRunUsed :: nat
  es_perPackageUsed :: "(string, nat) omap"
  es_events :: "(escalation_decision \<times> string \<times> string) list"

datatype escalation_error = Unsafe_initial int

definition createEscalationState :: "int \<Rightarrow> escalation_error + escalation_state" where
  "createEscalationState i = (if i < 0 \<or> 2 ^ 53 - 1 < i then throw (Unsafe_initial i)
     else ok \<lparr>es_initialFixedFailures = nat i, es_fixedFingerprints = [], es_perRunUsed = 0, es_perPackageUsed = [],
       es_events = []\<rparr>)"

definition rescueAllocation :: "escalation_state \<Rightarrow> escalation_policy \<Rightarrow> nat" where
  "rescueAllocation s p = max (ep_rescueBase p) (es_initialFixedFailures s div ep_rescuePerFixed p)
     + length (es_fixedFingerprints s) div ep_rescuePerFixed p"

text \<open>\<open>[...new Set(xs)]\<close>.\<close>

definition unique_values :: "'a list \<Rightarrow> 'a list" where
  "unique_values xs = rev (remdups (rev xs))"

definition recordFixedFailures :: "(rat \<Rightarrow> string) \<Rightarrow> escalation_state \<Rightarrow> failure_set \<Rightarrow> failure_set \<Rightarrow> escalation_state" where
  "recordFixedFailures num s before_run after_run =
     (let remaining = map snd (fingerprintPairs num no_config after_run None) in
      s\<lparr>es_fixedFingerprints := unique_values (es_fixedFingerprints s
        @ filter (\<lambda>k. k \<notin> set remaining) (map snd (fingerprintPairs num no_config before_run None)))\<rparr>)"

definition nextEscalation :: "escalation_state \<Rightarrow> escalation_policy \<Rightarrow> escalation_request
    \<Rightarrow> escalation_state \<times> escalation_decision" where
  "nextEscalation s p r =
     (let packageUsed = or_default 0 (map_of (es_perPackageUsed s) (er_package r));
          human = (\<lambda>why. (s, \<lparr>ed_tier = Human_tier, ed_attempt = 0, ed_reason = why\<rparr>));
          (nxt, d) =
            (if or_default [] (er_stopReason r) \<noteq> [] then human (or_default [] (er_stopReason r))
             else if \<not> er_regression r \<and> er_rescueUsed r = 0 \<and> er_workerUsed r < ep_workerAttempts p
             then (s, \<lparr>ed_tier = Worker_tier, ed_attempt = er_workerUsed r + 1,
               ed_reason = (if er_workerUsed r = 0 then ''initial task'' else ''worker retry: '' @ er_reason r)\<rparr>)
             else if \<not> er_canRescue r then human (''rescue role unavailable: '' @ er_reason r)
             else if packageUsed \<ge> ep_rescuePerPackageCap p then human (''per-package rescue cap exhausted: '' @ er_reason r)
             else if es_perRunUsed s \<ge> rescueAllocation s p then human (''run rescue pool exhausted: '' @ er_reason r)
             else (s\<lparr>es_perRunUsed := es_perRunUsed s + 1,
                   es_perPackageUsed := omap_set (er_package r) (packageUsed + 1) (es_perPackageUsed s)\<rparr>,
                 \<lparr>ed_tier = Rescue_tier, ed_attempt = er_rescueUsed r + 1,
                   ed_reason = (if er_regression r then ''broader regression; rescue'' else ''rescue retry'')
                     @ '': '' @ er_reason r\<rparr>))
      in (nxt\<lparr>es_events := es_events nxt @ [(d, er_package r, er_task r)]\<rparr>, d))"

text \<open>A composition replaces its state by these two transitions only.\<close>

inductive escalation_step :: "(rat \<Rightarrow> string) \<Rightarrow> escalation_policy \<Rightarrow> escalation_state \<Rightarrow> escalation_state \<Rightarrow> bool"
  for num p where
  decide: "nextEscalation s p r = (s', d) \<Longrightarrow> escalation_step num p s s'"
| credit: "s' = recordFixedFailures num s before_run after_run \<Longrightarrow> escalation_step num p s s'"

section \<open>The rescue budget\<close>

lemma set_unique_values [simp]: "set (unique_values xs) = set xs"
  by (simp add: unique_values_def)

lemma distinct_unique_values [simp]: "distinct (unique_values xs)"
  by (simp add: unique_values_def)

lemma unique_values_absorb: "distinct us \<Longrightarrow> set cs \<subseteq> set us \<Longrightarrow> unique_values (us @ cs) = us"
proof -
  assume "distinct us" "set cs \<subseteq> set us"
  then have "remdups (rev cs @ rev us) = rev us"
    by (induction cs rule: rev_induct) (auto simp: distinct_remdups_id)
  then show ?thesis by (simp add: unique_values_def)
qed

definition rescues :: "(escalation_decision \<times> string \<times> string) list \<Rightarrow> nat" where
  "rescues evs = length (filter (\<lambda>e. ed_tier (fst e) = Rescue_tier) evs)"

definition package_rescues :: "string \<Rightarrow> (escalation_decision \<times> string \<times> string) list \<Rightarrow> nat" where
  "package_rescues pkg evs = length (filter (\<lambda>e. ed_tier (fst e) = Rescue_tier \<and> fst (snd e) = pkg) evs)"

definition rescue_books :: "escalation_policy \<Rightarrow> escalation_state \<Rightarrow> bool" where
  "rescue_books p s \<longleftrightarrow> distinct (es_fixedFingerprints s) \<and> es_perRunUsed s = rescues (es_events s)
     \<and> es_perRunUsed s \<le> rescueAllocation s p
     \<and> (\<forall>pkg. or_default 0 (map_of (es_perPackageUsed s) pkg) = package_rescues pkg (es_events s)
          \<and> package_rescues pkg (es_events s) \<le> ep_rescuePerPackageCap p)"

lemma nextEscalation_cases:
  assumes "nextEscalation s p r = (s', d)"
  shows "ed_tier d \<noteq> Rescue_tier \<and> s' = s\<lparr>es_events := es_events s @ [(d, er_package r, er_task r)]\<rparr>
    \<or> ed_tier d = Rescue_tier \<and> or_default 0 (map_of (es_perPackageUsed s) (er_package r)) < ep_rescuePerPackageCap p
      \<and> es_perRunUsed s < rescueAllocation s p
      \<and> s' = s\<lparr>es_perRunUsed := es_perRunUsed s + 1,
          es_perPackageUsed := omap_set (er_package r) (or_default 0 (map_of (es_perPackageUsed s) (er_package r)) + 1)
            (es_perPackageUsed s),
          es_events := es_events s @ [(d, er_package r, er_task r)]\<rparr>"
  using assms by (auto simp: nextEscalation_def Let_def not_le split: if_splits)

lemma next_keeps_books: "rescue_books p s \<Longrightarrow> nextEscalation s p r = (s', d) \<Longrightarrow> rescue_books p s'"
  by (drule nextEscalation_cases)
    (auto simp: rescue_books_def rescues_def package_rescues_def rescueAllocation_def or_default_def Suc_le_eq)

lemma record_grows: "length (es_fixedFingerprints s) \<le> length (es_fixedFingerprints (recordFixedFailures num s b a))"
  if "distinct (es_fixedFingerprints s)"
proof -
  have "length (es_fixedFingerprints s) = card (set (es_fixedFingerprints s))" using that by (simp add: distinct_card)
  also have "\<dots> \<le> card (set (es_fixedFingerprints (recordFixedFailures num s b a)))"
    by (intro card_mono) (auto simp: recordFixedFailures_def Let_def)
  also have "\<dots> = length (es_fixedFingerprints (recordFixedFailures num s b a))"
    by (rule distinct_card) (simp add: recordFixedFailures_def Let_def)
  finally show ?thesis .
qed

lemma record_keeps_books: "rescue_books p s \<Longrightarrow> rescue_books p (recordFixedFailures num s b a)"
proof -
  assume s: "rescue_books p s"
  then have "length (es_fixedFingerprints s) \<le> length (es_fixedFingerprints (recordFixedFailures num s b a))"
    by (intro record_grows) (simp add: rescue_books_def)
  then have "rescueAllocation s p \<le> rescueAllocation (recordFixedFailures num s b a) p"
    by (simp add: rescueAllocation_def recordFixedFailures_def Let_def div_le_mono)
  with s show ?thesis by (auto simp: rescue_books_def recordFixedFailures_def Let_def)
qed

lemma fresh_books: "createEscalationState i = ok s \<Longrightarrow> rescue_books p s"
  by (auto simp: createEscalationState_def rescue_books_def rescues_def package_rescues_def or_default_def split: if_splits)

interpretation escalation: invariant_system "\<lambda>s. createEscalationState i = ok s" "escalation_step num p" "rescue_books p"
  for i num p
  by unfold_locales (auto intro: fresh_books next_keeps_books record_keeps_books elim!: escalation_step.cases)

text \<open>C27 Whatever failures are reported and whoever asks, the rescues granted so far are within the run's pool, which
  counts every fixed occurrence once, and within the cap of each package.\<close>

theorem rescues_bounded:
  assumes "reach (\<lambda>s. createEscalationState i = ok s) (escalation_step num p) s"
  shows "rescues (es_events s) \<le> max (ep_rescueBase p) (es_initialFixedFailures s div ep_rescuePerFixed p)
      + card (set (es_fixedFingerprints s)) div ep_rescuePerFixed p
    \<and> package_rescues pkg (es_events s) \<le> ep_rescuePerPackageCap p"
proof -
  have b: "rescue_books p s" using assms by (rule escalation.reach_inv)
  then have "card (set (es_fixedFingerprints s)) = length (es_fixedFingerprints s)"
    by (simp add: rescue_books_def distinct_card)
  with b show ?thesis by (simp add: rescue_books_def rescueAllocation_def)
qed

definition demo_policy :: escalation_policy where
  "demo_policy = \<lparr>ep_workerAttempts = 1, ep_rescueBase = 1, ep_rescuePerFixed = 10, ep_rescuePerPackageCap = 1\<rparr>"

definition demo_request :: escalation_request where
  "demo_request = \<lparr>er_package = ''p'', er_task = ''t'', er_workerUsed = 1, er_rescueUsed = 0, er_canRescue = True,
     er_regression = False, er_reason = ''red'', er_stopReason = None\<rparr>"

definition demo_state :: escalation_state where
  "demo_state = fst (nextEscalation \<lparr>es_initialFixedFailures = 0, es_fixedFingerprints = [], es_perRunUsed = 0,
     es_perPackageUsed = [], es_events = []\<rparr> demo_policy demo_request)"

lemma demo_reached: "reach (\<lambda>s. createEscalationState 0 = ok s) (escalation_step (\<lambda>_. ''0'') demo_policy) demo_state"
proof (rule reach_step)
  show "reach (\<lambda>s. createEscalationState 0 = ok s) (escalation_step (\<lambda>_. ''0'') demo_policy)
      \<lparr>es_initialFixedFailures = 0, es_fixedFingerprints = [], es_perRunUsed = 0, es_perPackageUsed = [], es_events = []\<rparr>"
    by (rule reach_init) (simp add: createEscalationState_def)
  show "escalation_step (\<lambda>_. ''0'') demo_policy
      \<lparr>es_initialFixedFailures = 0, es_fixedFingerprints = [], es_perRunUsed = 0, es_perPackageUsed = [], es_events = []\<rparr>
      demo_state"
    unfolding demo_state_def by (rule escalation_step.decide) (rule prod.collapse [symmetric])
qed

lemma rescues_bounded_witness:
  "rescues (es_events demo_state) = 1 \<and> rescues (es_events demo_state) \<le> max 1 (es_initialFixedFailures demo_state div 10)
      + card (set (es_fixedFingerprints demo_state)) div 10
    \<and> package_rescues ''p'' (es_events demo_state) \<le> 1"
proof -
  have "rescues (es_events demo_state) = 1" by code_simp
  then show ?thesis using rescues_bounded [OF demo_reached, of "''p''"] by (simp add: demo_policy_def)
qed

section \<open>Credit\<close>

lemma baseline_key_set: "snd ` set (fingerprintPairs num cfg s None)
    = {x. \<exists>k i. x = occurrence_key k i \<and> i < count (identities num cfg s (fs_failures s)) k}"
proof (rule set_eqI)
  fix x
  have "x \<in> snd ` set (fingerprintPairs num cfg s None) \<longleftrightarrow> (\<exists>k. x \<in># first_keys k (count (identities num cfg s (fs_failures s)) k))"
    unfolding in_pairs_keys [of x _ "fingerprintKey num cfg (fs_tool s)"] baseline_pairs ..
  then show "x \<in> snd ` set (fingerprintPairs num cfg s None)
      \<longleftrightarrow> x \<in> {x. \<exists>k i. x = occurrence_key k i \<and> i < count (identities num cfg s (fs_failures s)) k}"
    by auto
qed

text \<open>C26 Credit is given exactly for the occurrences of an identity that the later run has fewer of, and it is a set: an
  occurrence credited before gains nothing when it is fixed again.\<close>

theorem credit_exact:
  "set (es_fixedFingerprints (recordFixedFailures num s b a)) = set (es_fixedFingerprints s)
     \<union> {x. \<exists>k i. x = occurrence_key k i \<and> count (identities num no_config a (fs_failures a)) k \<le> i
          \<and> i < count (identities num no_config b (fs_failures b)) k}
   \<and> distinct (es_fixedFingerprints (recordFixedFailures num s b a))
   \<and> recordFixedFailures num (recordFixedFailures num s b a) b a = recordFixedFailures num s b a"
proof -
  let ?new = "{x. \<exists>k i. x = occurrence_key k i \<and> count (identities num no_config a (fs_failures a)) k \<le> i
          \<and> i < count (identities num no_config b (fs_failures b)) k}"
  let ?cs = "filter (\<lambda>k. k \<notin> set (map snd (fingerprintPairs num no_config a None)))
    (map snd (fingerprintPairs num no_config b None))"
  have n: "set ?cs = ?new"
    by (auto simp: baseline_key_set not_less)
  have r: "es_fixedFingerprints (recordFixedFailures num u b a) = unique_values (es_fixedFingerprints u @ ?cs)" for u
    by (simp add: recordFixedFailures_def Let_def)
  have "set (es_fixedFingerprints (recordFixedFailures num s b a)) = set (es_fixedFingerprints s) \<union> ?new"
    unfolding r set_unique_values set_append n ..
  moreover have "distinct (es_fixedFingerprints (recordFixedFailures num s b a))" unfolding r by simp
  moreover have "recordFixedFailures num (recordFixedFailures num s b a) b a = recordFixedFailures num s b a"
  proof -
    have "unique_values (unique_values (es_fixedFingerprints s @ ?cs) @ ?cs) = unique_values (es_fixedFingerprints s @ ?cs)"
      by (rule unique_values_absorb) auto
    then show ?thesis by (simp add: recordFixedFailures_def Let_def)
  qed
  ultimately show ?thesis by blast
qed

end
