(* ===== verification/Ratchet_Guard.thy ===== *)
theory Ratchet_Guard
  imports Gate_Failures
begin

text \<open>
  \<open>src/ops/ratchet/monotonicGuard.ts\<close> with the comparators of \<open>src/ops/ratchet/format.ts\<close>: the check that a diff moves
  committed baselines only in the tightening direction. The regular expressions are matchers on the text after a
  position; each is deterministic but the escaped-key pattern, whose matcher follows every split. \<open>JSON.parse\<close> of a
  string body yields UTF-16 code units (\<open>units\<close>); \<open>Number\<close> of a number token is exact up to the overflow to infinity.
\<close>

section \<open>Directions and numbers\<close>

type_synonym units = "nat list"

definition units_of :: "string \<Rightarrow> units" where "units_of s = map of_char s"

definition LOWER_IS_BETTER :: units where "LOWER_IS_BETTER = units_of ''lower-is-better''"
definition HIGHER_IS_BETTER :: units where "HIGHER_IS_BETTER = units_of ''higher-is-better''"

definition isDirection :: "units \<Rightarrow> bool" where
  "isDirection d \<longleftrightarrow> d = LOWER_IS_BETTER \<or> d = HIGHER_IS_BETTER"

definition tightens :: "jsnum \<Rightarrow> jsnum \<Rightarrow> units \<Rightarrow> bool" where
  "tightens prev nxt d = (if d = LOWER_IS_BETTER then js_num_lt nxt prev else js_num_lt prev nxt)"

definition loosens :: "jsnum \<Rightarrow> jsnum \<Rightarrow> units \<Rightarrow> bool" where
  "loosens prev nxt d = (if d = LOWER_IS_BETTER then js_num_lt prev nxt else js_num_lt nxt prev)"

section \<open>Matching\<close>

definition CR :: char where "CR = CHR 0x0D"
definition QUOTE :: char where "QUOTE = CHR 0x22"
definition BACKSLASH :: char where "BACKSLASH = CHR 0x5C"

definition line_end :: "char \<Rightarrow> bool" where "line_end c \<longleftrightarrow> c = NL \<or> c = CR"

abbreviation skip_space :: "string \<Rightarrow> string" where "skip_space \<equiv> dropWhile is_space"

text \<open>A matcher gets whether the position is the start of the text and the text from there, and returns the captured
  text and what follows the match. \<open>scan\<close> is the loop over \<open>exec\<close> of a global pattern; the counter skips the
  characters of the last match.\<close>

type_synonym matcher = "bool \<Rightarrow> string \<Rightarrow> (string \<times> string) option"

fun scan :: "matcher \<Rightarrow> bool \<Rightarrow> nat \<Rightarrow> string \<Rightarrow> string list" where
  "scan m first n [] = []"
| "scan m first n (c # cs) =
     (if n > 0 then scan m False (n - 1) cs
      else case m first (c # cs) of
          None \<Rightarrow> scan m False 0 cs
        | Some (captured, rest) \<Rightarrow> captured # scan m False (length cs - length rest) cs)"

definition scanSide :: "string list \<Rightarrow> matcher \<Rightarrow> string list" where
  "scanSide lines m = concat (map (scan m True 0) lines)"

definition last_of :: "'a list \<Rightarrow> 'a option" where
  "last_of xs = (if xs = [] then None else Some (last xs))"

text \<open>\<open>"name"\s*:\s*\<close>: the text after it.\<close>

definition after_key :: "string \<Rightarrow> string \<Rightarrow> string option" where
  "after_key name s = (let k = QUOTE # name @ [QUOTE] in
     if starts_with k s then (case skip_space (drop (length k) s) of c # cs \<Rightarrow> if c = CHR '':'' then Some (skip_space cs) else None
       | [] \<Rightarrow> None) else None)"

text \<open>The number token \<open>-?(?:0|[1-9]\d*)(?:\.\d+)?(?:[eE][+-]?\d+)?\<close>; each part and what follows it.\<close>

definition sign_part :: "string \<Rightarrow> string \<times> string" where
  "sign_part s = (case s of c # cs \<Rightarrow> if c = CHR ''-'' then ([c], cs) else ([], s) | [] \<Rightarrow> ([], s))"

definition int_part :: "string \<Rightarrow> (string \<times> string) option" where
  "int_part s = (case s of [] \<Rightarrow> None
     | c # cs \<Rightarrow> if c = CHR ''0'' then Some ([c], cs)
       else if is_digit c then Some (takeWhile is_digit s, dropWhile is_digit s) else None)"

definition frac_part :: "string \<Rightarrow> string \<times> string" where
  "frac_part s = (case s of c # cs \<Rightarrow>
       if c = CHR ''.'' \<and> takeWhile is_digit cs \<noteq> [] then (takeWhile is_digit cs, dropWhile is_digit cs) else ([], s)
     | [] \<Rightarrow> ([], s))"

definition expo_part :: "string \<Rightarrow> (string \<times> string) \<times> string" where
  "expo_part s = (case s of c # cs \<Rightarrow>
       (let (sg, ds) = (case cs of d # ds \<Rightarrow> if d = CHR ''+'' \<or> d = CHR ''-'' then ([d], ds) else ([], cs) | [] \<Rightarrow> ([], cs)) in
        if (c = CHR ''e'' \<or> c = CHR ''E'') \<and> takeWhile is_digit ds \<noteq> []
        then ((sg, takeWhile is_digit ds), dropWhile is_digit ds) else (([], []), s))
     | [] \<Rightarrow> (([], []), s))"

definition number_parts :: "string \<Rightarrow> ((string \<times> string \<times> string \<times> string \<times> string) \<times> string) option" where
  "number_parts s = (let (sg, s1) = sign_part s in
     case int_part s1 of None \<Rightarrow> None
     | Some (ip, s2) \<Rightarrow> (let (fp, s3) = frac_part s2; ((es, ed), s4) = expo_part s3 in Some ((sg, ip, fp, es, ed), s4)))"

text \<open>\<open>VALUE_RE\<close>: the token must be followed by a comma, a closing brace, white space or the end.\<close>

definition VALUE_RE :: matcher where
  "VALUE_RE first s = (case after_key ''value'' s of None \<Rightarrow> None
     | Some t \<Rightarrow> (case number_parts t of None \<Rightarrow> None
       | Some (parts, rest) \<Rightarrow>
           if rest = [] \<or> hd rest = CHR '','' \<or> hd rest = CHR ''}'' \<or> is_space (hd rest)
           then Some (take (length t - length rest) t, rest) else None))"

definition MAX_FINITE :: rat where "MAX_FINITE = 2 ^ 1024 - 2 ^ 970"

definition power10 :: "string \<Rightarrow> string \<Rightarrow> rat" where
  "power10 es ed = (if es = ''-'' then 1 / 10 ^ digits_val ed else 10 ^ digits_val ed)"

definition js_Number :: "string \<Rightarrow> jsnum" where
  "js_Number token = (case number_parts token of None \<Rightarrow> NaN
     | Some ((sg, ip, fp, es, ed), _) \<Rightarrow>
         (let m = (of_nat (digits_val (ip @ fp)) :: rat) / 10 ^ length fp * power10 es ed;
              v = (if sg = [] then m else - m)
          in if MAX_FINITE \<le> v then PosInf else if v \<le> - MAX_FINITE then NegInf else Fin v))"

text \<open>\<open>((?:[^"\\]|\\.)*)"\<close>: the body up to the first unescaped quote.\<close>

fun string_body :: "string \<Rightarrow> (string \<times> string) option" where
  "string_body [] = None"
| "string_body (c # cs) =
     (if c = QUOTE then Some ([], cs)
      else if c = BACKSLASH then (case cs of [] \<Rightarrow> None
        | d # ds \<Rightarrow> if line_end d then None else map_option (\<lambda>(b, r). (c # d # b, r)) (string_body ds))
      else map_option (\<lambda>(b, r). (c # b, r)) (string_body cs))"

definition FIELD_RE :: "string \<Rightarrow> matcher" where
  "FIELD_RE name first s = (case after_key name s of None \<Rightarrow> None
     | Some t \<Rightarrow> (case t of [] \<Rightarrow> None | c # cs \<Rightarrow> if c = QUOTE then string_body cs else None))"

definition DIRECTION_RE :: matcher where "DIRECTION_RE = FIELD_RE ''direction''"
definition METRIC_RE :: matcher where "METRIC_RE = FIELD_RE ''metric''"
definition TARGET_RE :: matcher where "TARGET_RE = FIELD_RE ''target''"
definition UNIT_RE :: matcher where "UNIT_RE = FIELD_RE ''unit''"

text \<open>\<open>(?:^|[,{])\s*\<close>: what can follow, the start of the text first.\<close>

definition property_starts :: "bool \<Rightarrow> string \<Rightarrow> string list" where
  "property_starts first s = (if first then [skip_space s] else [])
     @ (case s of [] \<Rightarrow> [] | c # cs \<Rightarrow> if c = CHR '','' \<or> c = CHR ''{'' then [skip_space cs] else [])"

text \<open>A key at a property position; nothing is captured, so the capture is empty.\<close>

definition KEY_RE :: "string \<Rightarrow> matcher" where
  "KEY_RE name first s =
     (case List.find (\<lambda>t. after_key name t \<noteq> None) (property_starts first s) of None \<Rightarrow> None
      | Some t \<Rightarrow> Some ([], tl (skip_space (drop (length name + 2) t))))"

definition DIRECTION_KEY_RE :: matcher where "DIRECTION_KEY_RE = KEY_RE ''direction''"
definition UNIT_KEY_RE :: matcher where "UNIT_KEY_RE = KEY_RE ''unit''"

text \<open>Every text that can follow \<open>(?:[^"\\]|\\.)*\<close>.\<close>

fun body_rests :: "string \<Rightarrow> string list" where
  "body_rests [] = [[]]"
| "body_rests (c # cs) = (c # cs) #
     (if c = QUOTE then []
      else if c = BACKSLASH then (case cs of [] \<Rightarrow> [] | d # ds \<Rightarrow> if line_end d then [] else body_rests ds)
      else body_rests cs)"

definition closes_key :: "string \<Rightarrow> bool" where
  "closes_key s = (case s of [] \<Rightarrow> False
     | c # cs \<Rightarrow> c = QUOTE \<and> (case skip_space cs of [] \<Rightarrow> False | d # ds \<Rightarrow> d = CHR '':''))"

definition escaped_key_at :: "string \<Rightarrow> bool" where
  "escaped_key_at s = (case s of [] \<Rightarrow> False
     | c # cs \<Rightarrow> c = QUOTE \<and> list_ex (\<lambda>r. case r of [] \<Rightarrow> False
         | d # ds \<Rightarrow> d = BACKSLASH \<and> list_ex closes_key (body_rests ds)) (body_rests cs))"

fun escaped_key_from :: "bool \<Rightarrow> string \<Rightarrow> bool" where
  "escaped_key_from first [] = list_ex escaped_key_at (property_starts first [])"
| "escaped_key_from first (c # cs) =
     (list_ex escaped_key_at (property_starts first (c # cs)) \<or> escaped_key_from False cs)"

definition ESCAPED_KEY_RE :: "string \<Rightarrow> bool" where "ESCAPED_KEY_RE line = escaped_key_from True line"

section \<open>JSON string bodies\<close>

definition hex_value :: "char \<Rightarrow> nat" where
  "hex_value c = (if is_digit c then of_char c - 48 else if is_lower c then of_char c - 87 else of_char c - 55)"

fun decodeJsonString :: "string \<Rightarrow> units option" where
  "decodeJsonString [] = Some []"
| "decodeJsonString (c # cs) =
     (if c = BACKSLASH then
        (case cs of [] \<Rightarrow> None
         | d # ds \<Rightarrow>
           if d = CHR ''u'' then
             (case ds of h1 # h2 # h3 # h4 # es \<Rightarrow>
                if list_all is_hex [h1, h2, h3, h4]
                then map_option ((#) (((hex_value h1 * 16 + hex_value h2) * 16 + hex_value h3) * 16 + hex_value h4))
                  (decodeJsonString es)
                else None
              | _ \<Rightarrow> None)
           else (case map_of [(QUOTE, 34 :: nat), (BACKSLASH, 92), (CHR ''/'', 47), (CHR ''b'', 8), (CHR ''f'', 12),
                   (CHR ''n'', 10), (CHR ''r'', 13), (CHR ''t'', 9)] d of
               None \<Rightarrow> None
             | Some n \<Rightarrow> map_option ((#) n) (decodeJsonString ds)))
      else if c = QUOTE \<or> (of_char c :: nat) < 32 then None
      else map_option ((#) (of_char c)) (decodeJsonString cs))"

section \<open>Sections of a diff\<close>

definition chomp_cr :: "string \<Rightarrow> string" where
  "chomp_cr l = (if l \<noteq> [] \<and> last l = CR then butlast l else l)"

definition DIFF_HEADER :: string where "DIFF_HEADER = ''diff --git ''"

definition add_line :: "string list list \<Rightarrow> string \<Rightarrow> string list list" where
  "add_line ss line = (if starts_with DIFF_HEADER line then ss @ [[line]]
     else if ss = [] then [] else butlast ss @ [last ss @ [line]])"

definition splitSections :: "string \<Rightarrow> string list list" where
  "splitSections diff = foldl (\<lambda>ss raw. add_line ss (chomp_cr raw)) [] (split_nl diff)"

definition DIFF_PREFIXES :: "string list" where
  "DIFF_PREFIXES = [''b/'', ''a/'', ''i/'', ''w/'', ''c/'', ''o/'']"

definition stripDiffPrefix :: "string \<Rightarrow> string" where
  "stripDiffPrefix p = (if list_ex (\<lambda>x. starts_with x p) DIFF_PREFIXES then drop 2 p else p)"

text \<open>\<open>replace(/\t.*$/, '')\<close>: the dot stops at line terminators.\<close>

fun strip_tab :: "string \<Rightarrow> string" where
  "strip_tab [] = []"
| "strip_tab (c # cs) = (if c = CHR 0x09 \<and> \<not> list_ex line_end cs then [] else c # strip_tab cs)"

text \<open>The text after the last occurrence of a space and a known prefix.\<close>

fun last_prefixed :: "string \<Rightarrow> string option" where
  "last_prefixed [] = None"
| "last_prefixed (c # cs) = (case last_prefixed cs of Some r \<Rightarrow> Some r
     | None \<Rightarrow> if list_ex (\<lambda>p. starts_with (CHR '' '' # p) (c # cs)) DIFF_PREFIXES then Some (drop 2 cs) else None)"

definition sectionPath :: "string list \<Rightarrow> string option" where
  "sectionPath lines =
     (case List.find (\<lambda>l. starts_with ''+++ '' l \<and> \<not> starts_with ''+++ /dev/null'' l) lines of
        Some l \<Rightarrow> Some (stripDiffPrefix (strip_tab (drop 4 l)))
      | None \<Rightarrow>
     (case List.find (starts_with DIFF_HEADER) lines of
        None \<Rightarrow> None
      | Some header \<Rightarrow> (let rest = drop (length DIFF_HEADER) header in
          case last_prefixed rest of
            Some r \<Rightarrow> Some (stripDiffPrefix (strip_tab r))
          | None \<Rightarrow> (let half = length rest div 2; firsthalf = take half rest in
              if firsthalf \<noteq> [] \<and> drop (half + 1) rest = firsthalf then Some firsthalf else None))))"

definition headerRegion :: "string list \<Rightarrow> string list" where
  "headerRegion lines = takeWhile (\<lambda>l. \<not> starts_with ''@@'' l) lines"

definition is_content :: "char \<Rightarrow> string \<Rightarrow> bool" where
  "is_content c l \<longleftrightarrow> \<not> starts_with ''+++'' l \<and> \<not> starts_with ''---'' l \<and> starts_with [c] l"

definition minus_lines :: "string list \<Rightarrow> string list" where
  "minus_lines lines = map tl (filter (is_content (CHR ''-'')) lines)"

definition plus_lines :: "string list \<Rightarrow> string list" where
  "plus_lines lines = map tl (filter (is_content (CHR ''+'')) lines)"

definition context_lines :: "string list \<Rightarrow> string list" where
  "context_lines lines = map tl (filter (is_content (CHR '' '')) lines)"

definition malformed_field :: "matcher \<Rightarrow> matcher \<Rightarrow> string list \<Rightarrow> bool" where
  "malformed_field keyRe valueRe lines \<longleftrightarrow>
     scanSide lines keyRe \<noteq> [] \<and> (scanSide lines valueRe = [] \<or> decodeJsonString (last (scanSide lines valueRe)) = None)"

definition carriesMalformedStringField :: "string list \<Rightarrow> string list \<Rightarrow> string list \<Rightarrow> bool" where
  "carriesMalformedStringField olds news ctx \<longleftrightarrow>
     list_ex (list_ex ESCAPED_KEY_RE) [olds, news, ctx]
     \<or> list_ex (malformed_field DIRECTION_KEY_RE DIRECTION_RE) [olds, news, ctx]
     \<or> list_ex (malformed_field UNIT_KEY_RE UNIT_RE) [olds, news, ctx]"

definition whitespaceOnly :: "string list \<Rightarrow> string list \<Rightarrow> bool" where
  "whitespaceOnly olds news \<longleftrightarrow> length olds = length news \<and> map js_trim olds = map js_trim news"

section \<open>A modified baseline\<close>

datatype violation_why = Loosened | Direction_changed | Unit_changed | Deleted_without_replacement | Unparsable

record violation =
  bv_path :: string
  bv_target :: "units option"
  bv_metric :: "units option"
  bv_oldValue :: "jsnum option"
  bv_newValue :: "jsnum option"
  bv_oldDirection :: "units option"
  bv_newDirection :: "units option"
  bv_oldUnit :: "units option"
  bv_newUnit :: "units option"
  bv_why :: violation_why

definition bare_violation :: "string \<Rightarrow> violation_why \<Rightarrow> violation" where
  "bare_violation path why = \<lparr>bv_path = path, bv_target = None, bv_metric = None, bv_oldValue = None, bv_newValue = None,
     bv_oldDirection = None, bv_newDirection = None, bv_oldUnit = None, bv_newUnit = None, bv_why = why\<rparr>"

definition unparsable :: "string \<Rightarrow> violation" where "unparsable path = bare_violation path Unparsable"

definition preferDiffLines :: "string list \<Rightarrow> string list \<Rightarrow> string list" where
  "preferDiffLines inline ctx = (if inline \<noteq> [] then inline else ctx)"

definition decoded_field :: "matcher \<Rightarrow> string list \<Rightarrow> string list \<Rightarrow> units option" where
  "decoded_field re side ctx = Option.bind (last_of (preferDiffLines (scanSide side re) (scanSide ctx re))) decodeJsonString"

definition key_present :: "matcher \<Rightarrow> string list \<Rightarrow> string list \<Rightarrow> bool" where
  "key_present re side ctx \<longleftrightarrow> preferDiffLines (scanSide side re) (scanSide ctx re) \<noteq> []"

text \<open>The label of a violation: the new side first, and the raw text when it does not decode.\<close>

definition label_of :: "matcher \<Rightarrow> string list \<Rightarrow> string list \<Rightarrow> string list \<Rightarrow> units option" where
  "label_of re olds news ctx =
     map_option (\<lambda>raw. case decodeJsonString raw of None \<Rightarrow> units_of raw | Some u \<Rightarrow> u)
       (case last_of (preferDiffLines (scanSide news re) (scanSide ctx re)) of
          Some x \<Rightarrow> Some x | None \<Rightarrow> last_of (preferDiffLines (scanSide olds re) (scanSide ctx re)))"

definition side_value :: "string list \<Rightarrow> jsnum option" where
  "side_value lines = map_option js_Number (last_of (scanSide lines VALUE_RE))"

definition not_finite :: "jsnum option \<Rightarrow> bool" where
  "not_finite v \<longleftrightarrow> (case v of None \<Rightarrow> False | Some x \<Rightarrow> \<not> js_is_finite x)"

definition judgeModified :: "string \<Rightarrow> string list \<Rightarrow> string list \<Rightarrow> string list \<Rightarrow> violation list" where
  "judgeModified path olds news ctx =
     (if length (scanSide olds VALUE_RE) \<noteq> length (scanSide news VALUE_RE) then [unparsable path]
      else if scanSide olds VALUE_RE = [] \<and> scanSide ctx VALUE_RE = [] then [unparsable path]
      else
        let newDir = decoded_field DIRECTION_RE news ctx; oldDir = decoded_field DIRECTION_RE olds ctx;
            newUnit = decoded_field UNIT_RE news ctx; oldUnit = decoded_field UNIT_RE olds ctx;
            oldValue = side_value olds; newValue = side_value news;
            labelled = (bare_violation path Unparsable)\<lparr>bv_target := label_of TARGET_RE olds news ctx,
              bv_metric := label_of METRIC_RE olds news ctx, bv_oldValue := oldValue, bv_newValue := newValue\<rparr>;
            flip = (oldDir \<noteq> None \<and> newDir \<noteq> None \<and> oldDir \<noteq> newDir)
        in
        if key_present DIRECTION_KEY_RE olds ctx \<and> oldDir = None \<or> key_present DIRECTION_KEY_RE news ctx \<and> newDir = None
        then [unparsable path]
        else if not_finite oldValue \<or> not_finite newValue
        then [unparsable path]
        else if (oldDir \<noteq> None) \<noteq> (newDir \<noteq> None)
        then [labelled\<lparr>bv_why := Direction_changed, bv_oldDirection := oldDir, bv_newDirection := newDir\<rparr>]
        else if key_present UNIT_KEY_RE olds ctx \<and> oldUnit = None \<or> key_present UNIT_KEY_RE news ctx \<and> newUnit = None
        then [unparsable path]
        else if oldUnit \<noteq> newUnit
        then [labelled\<lparr>bv_why := Unit_changed, bv_oldUnit := oldUnit, bv_newUnit := newUnit\<rparr>]
        else if oldValue = newValue \<and> \<not> flip then []
        else
          let flipped = (if flip then [labelled\<lparr>bv_why := Direction_changed, bv_oldDirection := oldDir,
                bv_newDirection := newDir\<rparr>] else [])
          in (case (oldValue, newValue) of
                (Some old, Some new) \<Rightarrow>
                  if old = new then flipped
                  else (case (case newDir of Some d \<Rightarrow> Some d | None \<Rightarrow> oldDir) of
                      None \<Rightarrow> [unparsable path]
                    | Some d \<Rightarrow>
                        if \<not> isDirection d then [unparsable path]
                        else (if loosens old new d then [labelled\<lparr>bv_why := Loosened\<rparr>] else []) @ flipped)
              | _ \<Rightarrow> flipped))"

section \<open>Added and deleted baselines\<close>

record lifecycle_baseline =
  lb_path :: string
  lb_lines :: "string list"
  lb_target :: units
  lb_metric :: units
  lb_value :: jsnum

definition singleStringField :: "string list \<Rightarrow> matcher \<Rightarrow> units option" where
  "singleStringField lines re = (case scanSide lines re of [x] \<Rightarrow> decodeJsonString x | _ \<Rightarrow> None)"

definition reconstructLifecycle :: "string \<Rightarrow> string list \<Rightarrow> string list \<Rightarrow> lifecycle_baseline option" where
  "reconstructLifecycle path lines wrongSide =
     (if wrongSide \<noteq> [] then None
      else if carriesMalformedStringField lines [] [] then None
      else case (singleStringField lines TARGET_RE, singleStringField lines METRIC_RE, scanSide lines VALUE_RE) of
          (Some t, Some m, [v]) \<Rightarrow>
            if js_is_finite (js_Number v)
            then Some \<lparr>lb_path = path, lb_lines = lines, lb_target = t, lb_metric = m, lb_value = js_Number v\<rparr> else None
        | _ \<Rightarrow> None)"

text \<open>The pairing key \<open>JSON.stringify([target, metric])\<close> identifies the pair.\<close>

definition identityKey :: "lifecycle_baseline \<Rightarrow> units \<times> units" where
  "identityKey b = (lb_target b, lb_metric b)"

definition group_step :: "lifecycle_baseline \<Rightarrow> (units \<times> units, lifecycle_baseline list) omap
    \<Rightarrow> (units \<times> units, lifecycle_baseline list) omap" where
  "group_step b m = (case map_of m (identityKey b) of None \<Rightarrow> omap_set (identityKey b) [b] m
     | Some bs \<Rightarrow> omap_set (identityKey b) (bs @ [b]) m)"

definition group_baselines :: "lifecycle_baseline list \<Rightarrow> (units \<times> units, lifecycle_baseline list) omap" where
  "group_baselines bs = fold group_step bs []"

definition members_of :: "(units \<times> units, lifecycle_baseline list) omap \<Rightarrow> units \<times> units \<Rightarrow> lifecycle_baseline list" where
  "members_of m k = (case map_of m k of None \<Rightarrow> [] | Some bs \<Rightarrow> bs)"

definition ambiguous_keys :: "lifecycle_baseline list \<Rightarrow> lifecycle_baseline list \<Rightarrow> (units \<times> units) list" where
  "ambiguous_keys deleted added = filter (\<lambda>k. length (members_of (group_baselines added) k) > 1
     \<or> length (members_of (group_baselines deleted) k) > 1) (okeys (group_baselines added))"

definition judge_deleted :: "lifecycle_baseline list \<Rightarrow> lifecycle_baseline list \<Rightarrow> lifecycle_baseline \<Rightarrow> violation list" where
  "judge_deleted deleted added d =
     (if identityKey d \<in> set (ambiguous_keys deleted added) then []
      else case members_of (group_baselines added) (identityKey d) of
          [] \<Rightarrow> [(bare_violation (lb_path d) Deleted_without_replacement)\<lparr>bv_target := Some (lb_target d),
            bv_metric := Some (lb_metric d), bv_oldValue := Some (lb_value d)\<rparr>]
        | r # _ \<Rightarrow> if whitespaceOnly (lb_lines d) (lb_lines r) then []
            else judgeModified (lb_path r) (lb_lines d) (lb_lines r) [])"

definition judgeLifecycle :: "lifecycle_baseline list \<Rightarrow> lifecycle_baseline list \<Rightarrow> violation list" where
  "judgeLifecycle deleted added =
     concat (map (\<lambda>k. map (\<lambda>b. unparsable (lb_path b)) (members_of (group_baselines deleted) k @ members_of (group_baselines added) k))
       (ambiguous_keys deleted added))
     @ concat (map (judge_deleted deleted added) deleted)"

section \<open>The check\<close>

definition BASELINE_PATH :: "string \<Rightarrow> bool" where
  "BASELINE_PATH p \<longleftrightarrow> starts_with ''baselines/'' p \<and> 16 \<le> length p \<and> drop (length p - 5) p = ''.json''
     \<and> list_all (\<lambda>c. \<not> line_end c) (take (length p - 15) (drop 10 p))"

definition RATCHET_MANIFEST_PATH :: string where "RATCHET_MANIFEST_PATH = ''baselines/ratchets.json''"

definition rename_markers :: "string list" where
  "rename_markers = [''rename from '', ''rename to '', ''copy from '', ''copy to '']"

definition moves_baseline :: "string \<Rightarrow> bool" where
  "moves_baseline line = list_ex (\<lambda>m. starts_with m line \<and> BASELINE_PATH (drop (length m) line)) rename_markers"

definition hasMarker :: "string list \<Rightarrow> string \<Rightarrow> bool" where
  "hasMarker lines marker = list_ex (starts_with marker) lines"

datatype section_verdict =
    Not_judged "violation list"
  | Judged "violation list"
  | Added_file lifecycle_baseline
  | Deleted_file lifecycle_baseline

definition judge_section :: "string list \<Rightarrow> section_verdict" where
  "judge_section sec =
     (case sectionPath sec of
        None \<Rightarrow> Not_judged (if minus_lines sec \<noteq> [] \<or> plus_lines sec \<noteq> []
          then [unparsable (if sec = [] then ''(missing diff header)'' else hd sec)] else [])
      | Some path \<Rightarrow>
          let olds = minus_lines sec; news = plus_lines sec; ctx = context_lines sec; header = headerRegion sec in
          if list_ex moves_baseline header then Not_judged [unparsable path]
          else if \<not> BASELINE_PATH path \<or> path = RATCHET_MANIFEST_PATH then Not_judged []
          else if hasMarker sec ''Binary files'' \<or> hasMarker sec ''GIT binary patch'' then Judged [unparsable path]
          else if hasMarker header ''new file mode'' \<or> hasMarker header ''--- /dev/null''
          then (case reconstructLifecycle path news olds of None \<Rightarrow> Judged [unparsable path] | Some b \<Rightarrow> Added_file b)
          else if hasMarker header ''deleted file mode'' \<or> hasMarker header ''+++ /dev/null''
          then (case reconstructLifecycle path olds news of None \<Rightarrow> Judged [unparsable path] | Some b \<Rightarrow> Deleted_file b)
          else if olds = [] \<and> news = [] then Judged []
          else if olds = [] \<or> news = [] then Judged [unparsable path]
          else if carriesMalformedStringField olds news ctx then Judged [unparsable path]
          else if whitespaceOnly olds news then Judged []
          else Judged (judgeModified path olds news ctx))"

record guard_state =
  gs_violations :: "violation list"
  gs_filesChecked :: nat
  gs_deleted :: "lifecycle_baseline list"
  gs_added :: "lifecycle_baseline list"

definition section_step :: "string list \<Rightarrow> guard_state \<Rightarrow> guard_state" where
  "section_step sec s = (case judge_section sec of
       Not_judged vs \<Rightarrow> s\<lparr>gs_violations := gs_violations s @ vs\<rparr>
     | Judged vs \<Rightarrow> s\<lparr>gs_violations := gs_violations s @ vs, gs_filesChecked := gs_filesChecked s + 1\<rparr>
     | Added_file b \<Rightarrow> s\<lparr>gs_filesChecked := gs_filesChecked s + 1, gs_added := gs_added s @ [b]\<rparr>
     | Deleted_file b \<Rightarrow> s\<lparr>gs_filesChecked := gs_filesChecked s + 1, gs_deleted := gs_deleted s @ [b]\<rparr>)"

definition guard_init :: guard_state where
  "guard_init = \<lparr>gs_violations = [], gs_filesChecked = 0, gs_deleted = [], gs_added = []\<rparr>"

text \<open>The violations and the number of checked files; the verdict is \<open>ok\<close> when there are no violations.\<close>

definition checkDiffMonotonicity :: "string \<Rightarrow> violation list \<times> nat" where
  "checkDiffMonotonicity diff = (let s = fold section_step (splitSections diff) guard_init in
     (gs_violations s @ judgeLifecycle (gs_deleted s) (gs_added s), gs_filesChecked s))"

end
