(* ===== verification/Ratchet_Guard_Laws.thy ===== *)
theory Ratchet_Guard_Laws
  imports Ratchet_Guard
begin

text \<open>
  What a passing verdict of the monotonic guard says of every baseline the diff touches, and the movement it cannot see:
  a value whose key and number stand on different lines.
\<close>

section \<open>One pair of sides\<close>

definition direction_on :: "string list \<Rightarrow> string list \<Rightarrow> units option" where
  "direction_on side ctx = decoded_field DIRECTION_RE side ctx"

definition unit_on :: "string list \<Rightarrow> string list \<Rightarrow> units option" where
  "unit_on side ctx = decoded_field UNIT_RE side ctx"

text \<open>Nothing moved but white space, or direction and unit stayed and the value stayed or tightened.\<close>

definition acceptable :: "string list \<Rightarrow> string list \<Rightarrow> string list \<Rightarrow> bool" where
  "acceptable olds news ctx \<longleftrightarrow> whitespaceOnly olds news
     \<or> direction_on olds ctx = direction_on news ctx \<and> unit_on olds ctx = unit_on news ctx
       \<and> (side_value olds = side_value news
          \<or> (\<exists>u v d. side_value olds = Some (Fin u) \<and> side_value news = Some (Fin v) \<and> direction_on news ctx = Some d
               \<and> isDirection d \<and> tightens (Fin u) (Fin v) d))"

lemma not_loosens: "isDirection d \<Longrightarrow> u \<noteq> v \<Longrightarrow> \<not> loosens (Fin u) (Fin v) d \<Longrightarrow> tightens (Fin u) (Fin v) d"
  by (auto simp: loosens_def tightens_def)

lemma judgeModified_acceptable:
  assumes "judgeModified path olds news ctx = []"
  shows "acceptable olds news ctx"
proof -
  let ?o = "side_value olds" and ?n = "side_value news"
  have len: "length (scanSide olds VALUE_RE) = length (scanSide news VALUE_RE)"
    using assms by (auto simp: judgeModified_def split: if_splits)
  then have both: "?o = None \<longleftrightarrow> ?n = None" by (auto simp: side_value_def last_of_def)
  have fin: "\<not> not_finite ?o" "\<not> not_finite ?n"
    and pres: "(direction_on olds ctx \<noteq> None) = (direction_on news ctx \<noteq> None)"
    and unit: "unit_on olds ctx = unit_on news ctx"
    using assms by (auto simp: judgeModified_def Let_def direction_on_def unit_on_def split: if_splits)
  have flip: "direction_on olds ctx = direction_on news ctx"
  proof (rule ccontr)
    assume d: "direction_on olds ctx \<noteq> direction_on news ctx"
    with pres have "direction_on olds ctx \<noteq> None \<and> direction_on news ctx \<noteq> None" by auto
    with assms d show False
      by (auto simp: judgeModified_def Let_def direction_on_def unit_on_def split: if_splits option.splits)
  qed
  show ?thesis
  proof (cases "?o = ?n")
    case True
    with flip unit show ?thesis by (simp add: acceptable_def)
  next
    case False
    then obtain x y where xy: "?o = Some x" "?n = Some y" "x \<noteq> y" using both by auto
    with fin obtain u v where uv: "x = Fin u" "y = Fin v" by (auto simp: not_finite_def js_is_finite_iff)
    have "case direction_on news ctx of None \<Rightarrow> False | Some d \<Rightarrow> isDirection d \<and> \<not> loosens x y d"
      using assms xy flip unfolding judgeModified_def Let_def direction_on_def
      by (auto split: if_splits option.splits)
    then obtain d where "direction_on news ctx = Some d" "isDirection d" "\<not> loosens x y d" by (auto split: option.splits)
    with not_loosens [of d u v] xy uv flip unit show ?thesis by (auto simp: acceptable_def)
  qed
qed

section \<open>Groups\<close>

lemma members_of_step: "members_of (group_step b m) k = (if identityKey b = k then members_of m k @ [b] else members_of m k)"
  by (simp add: group_step_def members_of_def split: option.split)

lemma members_of_fold:
  "members_of (fold group_step bs m) k = members_of m k @ filter (\<lambda>b. identityKey b = k) bs"
  by (induction bs arbitrary: m) (simp_all add: members_of_step)

lemma members_of_group: "members_of (group_baselines bs) k = filter (\<lambda>b. identityKey b = k) bs"
  using members_of_fold [of bs "[]" k] by (simp add: group_baselines_def members_of_def)

lemma okeys_group: "set (okeys (group_baselines bs)) = identityKey ` set bs"
proof -
  have "set (okeys (fold group_step bs m)) = set (okeys m) \<union> identityKey ` set bs" for m
  proof (induction bs arbitrary: m)
    case (Cons b bs)
    have "set (okeys (group_step b m)) = insert (identityKey b) (set (okeys m))"
      by (cases "map_of m (identityKey b)") (simp_all only: group_step_def option.case set_okeys_omap_set)
    then show ?case using Cons by simp
  qed simp
  then show ?thesis by (simp add: group_baselines_def)
qed

lemma judgeLifecycle_passes:
  assumes "judgeLifecycle deleted added = []" "d \<in> set deleted"
  shows "\<exists>r. filter (\<lambda>b. identityKey b = identityKey d) added = [r] \<and> acceptable (lb_lines d) (lb_lines r) []"
proof -
  let ?adds = "filter (\<lambda>b. identityKey b = identityKey d) added"
  have judged: "judge_deleted deleted added d = []" using assms by (auto simp: judgeLifecycle_def)
  have "k \<notin> set (ambiguous_keys deleted added)" for k
  proof
    assume k: "k \<in> set (ambiguous_keys deleted added)"
    then have "k \<in> identityKey ` set added" by (auto simp: ambiguous_keys_def simp flip: okeys_group)
    then have "members_of (group_baselines added) k \<noteq> []" by (auto simp: members_of_group filter_empty_conv)
    moreover have "members_of (group_baselines deleted) k @ members_of (group_baselines added) k = []"
      using assms(1) k by (auto simp: judgeLifecycle_def)
    ultimately show False by simp
  qed
  then have clear: "identityKey d \<notin> set (ambiguous_keys deleted added)" .
  obtain r rs where r: "?adds = r # rs"
    using judged clear by (cases ?adds) (simp_all add: judge_deleted_def members_of_group)
  then have "identityKey d \<in> set (okeys (group_baselines added))"
    unfolding okeys_group by (metis (mono_tags, lifting) filter_eq_ConsD image_eqI in_set_conv_decomp)
  with clear have "length ?adds \<le> 1" by (auto simp: ambiguous_keys_def members_of_group)
  with r have one: "?adds = [r]" by simp
  have "whitespaceOnly (lb_lines d) (lb_lines r) \<or> judgeModified (lb_path r) (lb_lines d) (lb_lines r) [] = []"
    using judged clear by (simp add: judge_deleted_def members_of_group one split: if_splits)
  then have "acceptable (lb_lines d) (lb_lines r) []" using judgeModified_acceptable by (auto simp: acceptable_def)
  with one show ?thesis by blast
qed

section \<open>The fold over the sections\<close>

definition violations_of :: "section_verdict \<Rightarrow> violation list" where
  "violations_of v = (case v of Not_judged vs \<Rightarrow> vs | Judged vs \<Rightarrow> vs | _ \<Rightarrow> [])"

definition added_of :: "section_verdict \<Rightarrow> lifecycle_baseline list" where
  "added_of v = (case v of Added_file b \<Rightarrow> [b] | _ \<Rightarrow> [])"

definition deleted_of :: "section_verdict \<Rightarrow> lifecycle_baseline list" where
  "deleted_of v = (case v of Deleted_file b \<Rightarrow> [b] | _ \<Rightarrow> [])"

definition added_files :: "string \<Rightarrow> lifecycle_baseline list" where
  "added_files diff = concat (map (\<lambda>s. added_of (judge_section s)) (splitSections diff))"

definition deleted_files :: "string \<Rightarrow> lifecycle_baseline list" where
  "deleted_files diff = concat (map (\<lambda>s. deleted_of (judge_section s)) (splitSections diff))"

lemma fold_sections:
  "gs_violations (fold section_step ss g) = gs_violations g @ concat (map (\<lambda>s. violations_of (judge_section s)) ss)
   \<and> gs_added (fold section_step ss g) = gs_added g @ concat (map (\<lambda>s. added_of (judge_section s)) ss)
   \<and> gs_deleted (fold section_step ss g) = gs_deleted g @ concat (map (\<lambda>s. deleted_of (judge_section s)) ss)"
  by (induction ss arbitrary: g)
    (simp_all add: section_step_def violations_of_def added_of_def deleted_of_def split: section_verdict.split)

lemma check_conv:
  "fst (checkDiffMonotonicity diff) = concat (map (\<lambda>s. violations_of (judge_section s)) (splitSections diff))
     @ judgeLifecycle (deleted_files diff) (added_files diff)"
  using fold_sections [of "splitSections diff" guard_init]
  by (simp add: checkDiffMonotonicity_def Let_def guard_init_def added_files_def deleted_files_def)

lemma passing_section:
  assumes "fst (checkDiffMonotonicity diff) = []" "sec \<in> set (splitSections diff)"
  shows "violations_of (judge_section sec) = []"
    and "judge_section sec = Deleted_file d \<Longrightarrow>
      \<exists>r. filter (\<lambda>b. identityKey b = identityKey d) (added_files diff) = [r] \<and> acceptable (lb_lines d) (lb_lines r) []"
proof -
  show "violations_of (judge_section sec) = []" using assms by (auto simp: check_conv)
  assume "judge_section sec = Deleted_file d"
  then have "d \<in> set (deleted_files diff)" using assms(2) by (force simp: deleted_files_def deleted_of_def)
  then show "\<exists>r. filter (\<lambda>b. identityKey b = identityKey d) (added_files diff) = [r] \<and> acceptable (lb_lines d) (lb_lines r) []"
    using assms(1) by (intro judgeLifecycle_passes) (simp_all add: check_conv)
qed

definition is_added :: "string list \<Rightarrow> bool" where
  "is_added sec \<longleftrightarrow> hasMarker (headerRegion sec) ''new file mode'' \<or> hasMarker (headerRegion sec) ''--- /dev/null''"

definition is_deleted :: "string list \<Rightarrow> bool" where
  "is_deleted sec \<longleftrightarrow> \<not> is_added sec
     \<and> (hasMarker (headerRegion sec) ''deleted file mode'' \<or> hasMarker (headerRegion sec) ''+++ /dev/null'')"

section \<open>What the lines do not show\<close>

text \<open>A file whose lines \<open>olds\<close> are replaced by \<open>news\<close> between the lines \<open>before\<close> and \<open>after\<close>, and the diff of the change.\<close>

definition file_text :: "string list \<Rightarrow> string" where
  "file_text lines = concat (map (\<lambda>l. l @ [NL]) lines)"

definition diff_lines :: "string \<Rightarrow> string list \<Rightarrow> string list \<Rightarrow> string list \<Rightarrow> string list \<Rightarrow> string list" where
  "diff_lines path before olds news after =
     [''diff --git a/'' @ path @ '' b/'' @ path, ''--- a/'' @ path, ''+++ b/'' @ path, ''@@ -1,8 +1,10 @@'']
     @ map ((#) (CHR '' '')) before @ map ((#) (CHR ''-'')) olds @ map ((#) (CHR ''+'')) news @ map ((#) (CHR '' '')) after"

definition property_line :: "string \<Rightarrow> string \<Rightarrow> string" where
  "property_line name rest = ''  '' @ QUOTE # name @ QUOTE # '':'' @ rest"

definition quoted :: "string \<Rightarrow> string" where "quoted s = QUOTE # s @ [QUOTE]"

definition demo_before :: "string list" where
  "demo_before = [''{'', property_line ''target'' ('' '' @ quoted ''typecheck'' @ '',''),
     property_line ''metric'' ('' '' @ quoted ''typecheck-count'' @ '',''),
     property_line ''direction'' ('' '' @ quoted ''lower-is-better'' @ '',''), property_line ''value'' '' 80,'',
     property_line ''unit'' ('' '' @ quoted ''errors'' @ '','')]"

definition demo_olds :: "string list" where
  "demo_olds = [property_line ''capturedAt'' ('' '' @ quoted ''2026-10-01T00:00:00Z'')]"

definition demo_news :: "string list" where
  "demo_news = [property_line ''capturedAt'' ('' '' @ quoted ''2026-10-02T00:00:00Z'' @ '',''),
     property_line ''value'' [], ''    100'']"

definition demo_diff :: string where
  "demo_diff = file_text (diff_lines ''baselines/t.json'' demo_before demo_olds demo_news [''}''])"

text \<open>C24 When a diff passes, every section of a baseline file is a well-formed addition, or a deletion with exactly one
  added baseline of the same target and metric that is no looser, or changes no content, or reads on its lines as a
  change that keeps direction and unit and does not loosen the value.\<close>

theorem passing_diff_tightens:
  assumes "fst (checkDiffMonotonicity diff) = []" "sec \<in> set (splitSections diff)"
    "sectionPath sec = Some path" "BASELINE_PATH path" "path \<noteq> RATCHET_MANIFEST_PATH"
  shows "is_added sec \<and> (\<exists>b. reconstructLifecycle path (plus_lines sec) (minus_lines sec) = Some b)
    \<or> is_deleted sec \<and> (\<exists>d r. reconstructLifecycle path (minus_lines sec) (plus_lines sec) = Some d
        \<and> filter (\<lambda>b. identityKey b = identityKey d) (added_files diff) = [r] \<and> acceptable (lb_lines d) (lb_lines r) [])
    \<or> minus_lines sec = [] \<and> plus_lines sec = []
    \<or> acceptable (minus_lines sec) (plus_lines sec) (context_lines sec)"
proof -
  note v = passing_section(1) [OF assms(1,2)]
  have moved: "\<not> list_ex moves_baseline (headerRegion sec)"
    and readable: "\<not> (hasMarker sec ''Binary files'' \<or> hasMarker sec ''GIT binary patch'')"
    using v assms(3-5) by (auto simp: judge_section_def violations_of_def Let_def split: if_splits)
  consider "is_added sec" | "is_deleted sec" | "\<not> is_added sec" "\<not> is_deleted sec" by blast
  then show ?thesis
  proof cases
    case 1
    with v moved readable assms(3-5) show ?thesis
      by (auto simp: judge_section_def violations_of_def Let_def is_added_def split: option.splits)
  next
    case 2
    have j: "judge_section sec = (case reconstructLifecycle path (minus_lines sec) (plus_lines sec) of
        None \<Rightarrow> Judged [unparsable path] | Some b \<Rightarrow> Deleted_file b)"
      using 2 moved readable assms(3-5) by (auto simp: judge_section_def Let_def is_deleted_def is_added_def)
    then obtain d where d: "reconstructLifecycle path (minus_lines sec) (plus_lines sec) = Some d"
      using v by (auto simp: violations_of_def split: option.splits)
    with j passing_section(2) [OF assms(1,2), of d] 2 show ?thesis by auto
  next
    case 3
    have "judge_section sec = (if minus_lines sec = [] \<and> plus_lines sec = [] then Judged []
        else if minus_lines sec = [] \<or> plus_lines sec = [] then Judged [unparsable path]
        else if carriesMalformedStringField (minus_lines sec) (plus_lines sec) (context_lines sec) then Judged [unparsable path]
        else if whitespaceOnly (minus_lines sec) (plus_lines sec) then Judged []
        else Judged (judgeModified path (minus_lines sec) (plus_lines sec) (context_lines sec)))"
      using 3 moved readable assms(3-5) by (simp add: judge_section_def Let_def is_deleted_def is_added_def)
    with v have "minus_lines sec = [] \<and> plus_lines sec = [] \<or> whitespaceOnly (minus_lines sec) (plus_lines sec)
      \<or> judgeModified path (minus_lines sec) (plus_lines sec) (context_lines sec) = []"
      by (auto simp: violations_of_def split: if_splits)
    then show ?thesis using judgeModified_acceptable by (auto simp: acceptable_def)
  qed
qed

definition tight_diff :: string where
  "tight_diff = file_text (diff_lines ''baselines/t.json'' (take 4 demo_before) [property_line ''value'' '' 80,'']
     [property_line ''value'' '' 70,''] (drop 5 demo_before @ demo_olds @ [''}'']))"

definition tight_section :: "string list" where "tight_section = hd (splitSections tight_diff)"

lemma passing_diff_tightens_witness:
  "acceptable (minus_lines tight_section) (plus_lines tight_section) (context_lines tight_section)
   \<and> minus_lines tight_section = [property_line ''value'' '' 80,'']"
proof -
  have n: "js_Number ''80'' = Fin 80" "js_Number ''70'' = Fin 70"
  proof -
    have "number_parts ''80'' = Some (([], ''80'', [], [], []), [])" "number_parts ''70'' = Some (([], ''70'', [], [], []), [])"
      by code_simp+
    then show "js_Number ''80'' = Fin 80" "js_Number ''70'' = Fin 70"
      by (simp_all add: js_Number_def power10_def digits_val_def MAX_FINITE_def)
  qed
  let ?m = "minus_lines tight_section" and ?p = "plus_lines tight_section" and ?c = "context_lines tight_section"
  have sections: "splitSections tight_diff = [tight_section]" by code_simp
  have path: "sectionPath tight_section = Some ''baselines/t.json''" "BASELINE_PATH ''baselines/t.json''"
    "''baselines/t.json'' \<noteq> RATCHET_MANIFEST_PATH" by code_simp+
  have markers: "\<not> list_ex moves_baseline (headerRegion tight_section)" "\<not> hasMarker tight_section ''Binary files''"
    "\<not> hasMarker tight_section ''GIT binary patch''" "\<not> is_added tight_section" "\<not> is_deleted tight_section" by code_simp+
  have sides: "?m = [property_line ''value'' '' 80,'']" "?m \<noteq> []" "?p \<noteq> []" "\<not> carriesMalformedStringField ?m ?p ?c"
    "\<not> whitespaceOnly ?m ?p" by code_simp+
  have scans: "scanSide ?m VALUE_RE = [''80'']" "scanSide ?p VALUE_RE = [''70'']" by code_simp+
  have fields: "decoded_field DIRECTION_RE ?m ?c = Some LOWER_IS_BETTER" "decoded_field DIRECTION_RE ?p ?c = Some LOWER_IS_BETTER"
    "decoded_field UNIT_RE ?m ?c = Some (units_of ''errors'')" "decoded_field UNIT_RE ?p ?c = Some (units_of ''errors'')"
    by code_simp+
  have "side_value ?m = Some (Fin 80)" "side_value ?p = Some (Fin 70)" by (simp_all add: side_value_def scans last_of_def n)
  then have judged: "judgeModified ''baselines/t.json'' ?m ?p ?c = []"
    by (simp add: judgeModified_def scans fields Let_def not_finite_def isDirection_def loosens_def)
  have "judge_section tight_section = Judged []"
    using path markers sides judged by (simp add: judge_section_def is_added_def is_deleted_def)
  then have "fst (checkDiffMonotonicity tight_diff) = []"
    by (simp add: checkDiffMonotonicity_def sections section_step_def guard_init_def judgeLifecycle_def ambiguous_keys_def
      group_baselines_def)
  from passing_diff_tightens [OF this _ path] sections markers sides show ?thesis by simp
qed


text \<open>A change that appends a second value whose number is on the line after its key passes the guard: the last value of
  the whole file, the one a JSON parser keeps, has gone from 80 to 100 although lower is better.\<close>

lemma split_value_passes:
  "checkDiffMonotonicity demo_diff = ([], 1)
   \<and> last_of (scan VALUE_RE True 0 (file_text (demo_before @ demo_olds @ [''}'']))) = Some ''80''
   \<and> last_of (scan VALUE_RE True 0 (file_text (demo_before @ demo_news @ [''}'']))) = Some ''100''
   \<and> loosens (js_Number ''80'') (js_Number ''100'') LOWER_IS_BETTER"
proof (intro conjI)
  show "checkDiffMonotonicity demo_diff = ([], 1)" by code_simp
  show "last_of (scan VALUE_RE True 0 (file_text (demo_before @ demo_olds @ [''}'']))) = Some ''80''" by code_simp
  show "last_of (scan VALUE_RE True 0 (file_text (demo_before @ demo_news @ [''}'']))) = Some ''100''" by code_simp
  have "number_parts ''80'' = Some (([], ''80'', [], [], []), [])" "number_parts ''100'' = Some (([], ''100'', [], [], []), [])"
    by code_simp+
  then show "loosens (js_Number ''80'') (js_Number ''100'') LOWER_IS_BETTER"
    by (simp add: js_Number_def power10_def digits_val_def MAX_FINITE_def loosens_def)
qed

end
