(* ===== verification/Ratchet_Check.thy ===== *)
theory Ratchet_Check
  imports Ratchet_Guard
begin

text \<open>
  \<open>src/ops/ratchet/checkRatchet.ts\<close> with the baseline paths of \<open>format.ts\<close>: one live reading against one committed
  baseline. The metric sources, the adapters, the resolved baselines directory, the file system's answers and the
  parsing of a baseline file are parameters; whatever throws is an \<open>Inl\<close>. Reasons are kept as constructors.
\<close>

section \<open>Baseline paths\<close>

definition lower_char :: "char \<Rightarrow> char" where
  "lower_char c = (if is_upper c then char_of (of_char c + 32 :: nat) else c)"

definition slug_char :: "char \<Rightarrow> bool" where "slug_char c \<longleftrightarrow> is_lower c \<or> is_digit c"

text \<open>\<open>replace(/[^a-z0-9]+/g, '-')\<close>; the flag says that the last character was replaced.\<close>

fun dash_runs :: "bool \<Rightarrow> string \<Rightarrow> string" where
  "dash_runs after [] = []"
| "dash_runs after (c # cs) = (if slug_char c then c # dash_runs False cs
     else if after then dash_runs True cs else CHR ''-'' # dash_runs True cs)"

definition MAX_SEGMENT_CHARS :: nat where "MAX_SEGMENT_CHARS = 80"

definition sanitizeSegment :: "string \<Rightarrow> string" where
  "sanitizeSegment raw = take MAX_SEGMENT_CHARS
     (rev (dropWhile (\<lambda>c. c = CHR ''-'') (rev (dropWhile (\<lambda>c. c = CHR ''-'') (dash_runs False (map lower_char raw))))))"

definition pathDigest :: "(string \<Rightarrow> string) \<Rightarrow> string \<Rightarrow> string \<Rightarrow> string" where
  "pathDigest sha256 target metric = take 12 (sha256 (json_strings [target, metric]))"

definition baselineRelPath :: "(string \<Rightarrow> string) \<Rightarrow> string \<Rightarrow> string \<Rightarrow> string" where
  "baselineRelPath sha256 target metric =
     ''baselines/'' @ sanitizeSegment target @ ''--'' @ sanitizeSegment metric @ ''--'' @ pathDigest sha256 target metric @ ''.json''"

section \<open>The check\<close>

text \<open>The schema admits finite values only.\<close>

record baseline_file =
  bf_target :: string
  bf_metric :: string
  bf_direction :: string
  bf_value :: rat
  bf_unit :: "string option"

text \<open>What the code reads off a reading and its adapter in one guarded step.\<close>

record materialized =
  mt_value :: jsv
  mt_unit :: jsv
  mt_direction :: jsv

text \<open>An adapter's answer to raw data: nothing usable, or an object whose members are then read, which may throw.\<close>

datatype extracted = Nothing_usable | Reading_object "string + materialized"

datatype containment = Contained string | Baselines_missing | Baselines_escape string

datatype leaf = Regular_file | Other_file | Not_inspectable

datatype read_error = Enoent | Other_error string

record check_env =
  ce_adapters :: "string \<Rightarrow> (jsv \<Rightarrow> string + extracted) option"
  ce_sources :: "string \<Rightarrow> (string \<Rightarrow> string + jsv) option"
  ce_resolve :: "string \<Rightarrow> containment"
  ce_lstat :: "string \<Rightarrow> leaf"
  ce_read :: "string \<Rightarrow> read_error + string"
  ce_parse :: "string \<Rightarrow> string + baseline_file"

datatype fail_reason =
    Not_an_object
  | Bad_field string
  | Unknown_metric string
  | Unknown_source string
  | Source_failed string
  | Adapter_failed string
  | No_summary
  | Unusable_direction jsv
  | Unusable_value jsv
  | Unusable_reading string
  | Baseline_not_found
  | Directory_escapes string
  | Not_regular
  | Could_not_read string
  | Corrupt_baseline string
  | Disagrees "(string \<times> string \<times> string) list"
  | Unit_disagrees jsv jsv
  | Loosened_reading jsnum jsnum string

record check_outcome =
  co_path :: string
  co_pass :: bool
  co_baselineValue :: "jsnum option"
  co_currentValue :: "jsnum option"
  co_reason :: "fail_reason option"

definition fail_outcome :: "string \<Rightarrow> fail_reason \<Rightarrow> check_outcome" where
  "fail_outcome path r = \<lparr>co_path = path, co_pass = False, co_baselineValue = None, co_currentValue = None, co_reason = Some r\<rparr>"

text \<open>The field guard: the first of the four fields that is not a string.\<close>

fun string_of :: "jsv \<Rightarrow> string option" where
  "string_of (JStr s) = Some s"
| "string_of _ = None"

definition bad_field :: "(string \<times> jsv) list \<Rightarrow> string option" where
  "bad_field ms = List.find (\<lambda>k. string_of (js_get ms k) = None) [''ws'', ''target'', ''metric'', ''sourceId'']"

definition field_of :: "(string \<times> jsv) list \<Rightarrow> string \<Rightarrow> string" where
  "field_of ms k = (case string_of (js_get ms k) of None \<Rightarrow> [] | Some s \<Rightarrow> s)"

definition direction_literal :: "jsv \<Rightarrow> string option" where
  "direction_literal v = (if v = JStr ''lower-is-better'' then Some ''lower-is-better''
     else if v = JStr ''higher-is-better'' then Some ''higher-is-better'' else None)"

fun finite_number :: "jsv \<Rightarrow> jsnum option" where
  "finite_number (JNum n) = (if js_is_finite n then Some n else None)"
| "finite_number _ = None"

text \<open>Rules 1 to 3: the usable reading, as value, unit and direction.\<close>

definition live_reading :: "check_env \<Rightarrow> string \<Rightarrow> string \<Rightarrow> string \<Rightarrow> fail_reason + (jsnum \<times> jsv \<times> string)" where
  "live_reading env ws metric sourceId =
     (case ce_adapters env metric of None \<Rightarrow> throw (Unknown_metric metric)
      | Some extract \<Rightarrow>
     (case ce_sources env sourceId of None \<Rightarrow> throw (Unknown_source sourceId)
      | Some source \<Rightarrow>
     (case source ws of Inl e \<Rightarrow> throw (Source_failed e)
      | Inr raw \<Rightarrow>
     (case (if raw = JNull then Inr Nothing_usable else extract raw) of Inl e \<Rightarrow> throw (Adapter_failed e)
      | Inr Nothing_usable \<Rightarrow> throw No_summary
      | Inr (Reading_object (Inl e)) \<Rightarrow> throw (Unusable_reading e)
      | Inr (Reading_object (Inr m)) \<Rightarrow>
          (case direction_literal (mt_direction m) of None \<Rightarrow> throw (Unusable_direction (mt_direction m))
           | Some d \<Rightarrow> (case finite_number (mt_value m) of None \<Rightarrow> throw (Unusable_value (mt_value m))
             | Some v \<Rightarrow> ok (v, mt_unit m, d)))))))"

text \<open>Rule 4: the committed baseline.\<close>

definition committed_baseline :: "check_env \<Rightarrow> string \<Rightarrow> string \<Rightarrow> fail_reason + baseline_file" where
  "committed_baseline env ws relPath =
     (case ce_resolve env ws of
        Baselines_missing \<Rightarrow> throw Baseline_not_found
      | Baselines_escape e \<Rightarrow> throw (Directory_escapes e)
      | Contained dir \<Rightarrow>
          (let abs = dir @ ''/'' @ drop (length ''baselines/'') relPath in
           if ce_lstat env abs = Other_file then throw Not_regular
           else case ce_read env abs of
               Inl Enoent \<Rightarrow> throw Baseline_not_found
             | Inl (Other_error e) \<Rightarrow> throw (Could_not_read e)
             | Inr txt \<Rightarrow> (case ce_parse env txt of Inl e \<Rightarrow> throw (Corrupt_baseline e) | Inr b \<Rightarrow> ok b)))"

definition disagreements :: "baseline_file \<Rightarrow> string \<Rightarrow> string \<Rightarrow> string \<Rightarrow> (string \<times> string \<times> string) list" where
  "disagreements b target metric direction =
     (if bf_target b \<noteq> target then [(''target'', bf_target b, target)] else [])
     @ (if bf_metric b \<noteq> metric then [(''metric'', bf_metric b, metric)] else [])
     @ (if bf_direction b \<noteq> direction then [(''direction'', bf_direction b, direction)] else [])"

definition unit_value :: "string option \<Rightarrow> jsv" where
  "unit_value u = (case u of None \<Rightarrow> JUndef | Some s \<Rightarrow> JStr s)"

text \<open>Rules 5 and 6: identity, unit, comparison.\<close>

definition compare_reading :: "string \<Rightarrow> string \<Rightarrow> string \<Rightarrow> jsnum \<times> jsv \<times> string \<Rightarrow> baseline_file \<Rightarrow> check_outcome" where
  "compare_reading relPath target metric reading b = (case reading of (v, u, d) \<Rightarrow>
     if disagreements b target metric d \<noteq> [] then fail_outcome relPath (Disagrees (disagreements b target metric d))
     else if unit_value (bf_unit b) \<noteq> u then fail_outcome relPath (Unit_disagrees (unit_value (bf_unit b)) u)
     else if loosens (Fin (bf_value b)) v (units_of d)
     then \<lparr>co_path = relPath, co_pass = False, co_baselineValue = Some (Fin (bf_value b)), co_currentValue = Some v,
       co_reason = Some (Loosened_reading (Fin (bf_value b)) v d)\<rparr>
     else \<lparr>co_path = relPath, co_pass = True, co_baselineValue = Some (Fin (bf_value b)), co_currentValue = Some v,
       co_reason = None\<rparr>)"

definition checkRatchet :: "(string \<Rightarrow> string) \<Rightarrow> check_env \<Rightarrow> jsv \<Rightarrow> check_outcome" where
  "checkRatchet sha256 env input =
     (case (case input of JObj ms \<Rightarrow> Some ms | JExotic c ms \<Rightarrow> Some ms | JArr vs \<Rightarrow> Some [] | _ \<Rightarrow> None) of
        None \<Rightarrow> fail_outcome [] Not_an_object
      | Some ms \<Rightarrow>
     (case bad_field ms of Some k \<Rightarrow> fail_outcome [] (Bad_field k)
      | None \<Rightarrow>
          let ws = field_of ms ''ws''; target = field_of ms ''target''; metric = field_of ms ''metric'';
              relPath = baselineRelPath sha256 target metric in
          (case live_reading env ws metric (field_of ms ''sourceId'') of Inl r \<Rightarrow> fail_outcome relPath r
           | Inr reading \<Rightarrow>
          (case committed_baseline env ws relPath of Inl r \<Rightarrow> fail_outcome relPath r
           | Inr b \<Rightarrow> compare_reading relPath target metric reading b))))"

section \<open>A pass rests on two comparable numbers\<close>

lemma loosens_order:
  "js_is_finite u \<Longrightarrow> js_is_finite v \<Longrightarrow> d = ''lower-is-better'' \<Longrightarrow> loosens u v (units_of d) \<longleftrightarrow> fin_val u < fin_val v"
  "js_is_finite u \<Longrightarrow> js_is_finite v \<Longrightarrow> d = ''higher-is-better'' \<Longrightarrow> loosens u v (units_of d) \<longleftrightarrow> fin_val v < fin_val u"
proof -
  have "units_of ''higher-is-better'' \<noteq> LOWER_IS_BETTER" by code_simp
  then show "js_is_finite u \<Longrightarrow> js_is_finite v \<Longrightarrow> d = ''lower-is-better'' \<Longrightarrow> loosens u v (units_of d) \<longleftrightarrow> fin_val u < fin_val v"
    "js_is_finite u \<Longrightarrow> js_is_finite v \<Longrightarrow> d = ''higher-is-better'' \<Longrightarrow> loosens u v (units_of d) \<longleftrightarrow> fin_val v < fin_val u"
    by (auto simp: loosens_def js_is_finite_iff LOWER_IS_BETTER_def)
qed

text \<open>A value is at least as good as another in a direction.\<close>

definition no_worse :: "string \<Rightarrow> rat \<Rightarrow> rat \<Rightarrow> bool" where
  "no_worse d old new \<longleftrightarrow> (if d = ''lower-is-better'' then new \<le> old else old \<le> new)"

lemma live_reading_usable: "live_reading env ws metric src = ok (v, u, d)
    \<Longrightarrow> js_is_finite v \<and> (d = ''lower-is-better'' \<or> d = ''higher-is-better'')"
  by (auto simp: live_reading_def direction_literal_def
      elim!: finite_number.elims split: option.splits sum.splits extracted.splits if_splits)

text \<open>C25 The check passes exactly when the input is complete, the source and its adapter gave a finite value, the
  committed baseline was read and parsed and agrees in target, metric, direction and unit, and the value is no worse;
  every failure of evidence is a fail.\<close>

theorem ratchet_passes_iff:
  "co_pass (checkRatchet sha256 env (JObj ms)) \<longleftrightarrow>
    bad_field ms = None \<and> (\<exists>v u d b.
      live_reading env (field_of ms ''ws'') (field_of ms ''metric'') (field_of ms ''sourceId'') = ok (v, u, d)
      \<and> committed_baseline env (field_of ms ''ws'') (baselineRelPath sha256 (field_of ms ''target'') (field_of ms ''metric'')) = ok b
      \<and> bf_target b = field_of ms ''target'' \<and> bf_metric b = field_of ms ''metric'' \<and> bf_direction b = d
      \<and> unit_value (bf_unit b) = u \<and> no_worse d (bf_value b) (fin_val v))"
proof (cases "bad_field ms")
  case None
  let ?rel = "baselineRelPath sha256 (field_of ms ''target'') (field_of ms ''metric'')"
  let ?live = "live_reading env (field_of ms ''ws'') (field_of ms ''metric'') (field_of ms ''sourceId'')"
  show ?thesis
  proof (cases ?live)
    case (Inr reading)
    obtain v u d where r: "reading = (v, u, d)" by (metis surj_pair)
    have use: "js_is_finite v" "d = ''lower-is-better'' \<or> d = ''higher-is-better''"
      using live_reading_usable Inr r by auto
    show ?thesis
    proof (cases "committed_baseline env (field_of ms ''ws'') ?rel")
      case (Inl e)
      then show ?thesis using None Inr by (simp add: checkRatchet_def Let_def fail_outcome_def)
    next
      case b: (Inr b)
      have "loosens (Fin (bf_value b)) v (units_of d) \<longleftrightarrow> \<not> no_worse d (bf_value b) (fin_val v)"
        using use by (auto simp: loosens_order no_worse_def)
      then show ?thesis
        using None Inr b r by (auto simp: checkRatchet_def Let_def compare_reading_def disagreements_def fail_outcome_def)
    qed
  qed (use None in \<open>simp add: checkRatchet_def Let_def fail_outcome_def\<close>)
qed (simp add: checkRatchet_def fail_outcome_def)

end
