(* ===== verification/Gate_Commit.thy ===== *)
theory Gate_Commit
  imports Ratchet_Guard
begin

text \<open>
  \<open>src/ops/gates/commitGate.ts\<close>: the subject and trailer conventions of one commit message. Compiling a regular
  expression is the parameter \<open>compile\<close>: \<open>None\<close> for a source that does not compile, else its \<open>test\<close>.
\<close>

section \<open>Trailers\<close>

definition is_letter :: "char \<Rightarrow> bool" where "is_letter c \<longleftrightarrow> is_lower c \<or> is_upper c"
definition trailer_char :: "char \<Rightarrow> bool" where "trailer_char c \<longleftrightarrow> is_alnum c \<or> c = CHR ''-''"

text \<open>\<open>/^[A-Za-z][A-Za-z0-9-]*: .+$/\<close> and \<open>/^[ \t]/\<close>.\<close>

definition TRAILER_LINE_RE :: "string \<Rightarrow> bool" where
  "TRAILER_LINE_RE l \<longleftrightarrow> (case l of [] \<Rightarrow> False
     | c # cs \<Rightarrow> is_letter c \<and> (let r = dropWhile trailer_char cs in
         starts_with '': '' r \<and> drop 2 r \<noteq> [] \<and> list_all (\<lambda>d. \<not> line_end d) (drop 2 r)))"

definition CONTINUATION_LINE_RE :: "string \<Rightarrow> bool" where
  "CONTINUATION_LINE_RE l \<longleftrightarrow> (case l of [] \<Rightarrow> False | c # cs \<Rightarrow> c = CHR '' '' \<or> c = CHR 0x09)"

text \<open>\<open>message.split(/\r?\n/)\<close>.\<close>

definition message_lines :: "string \<Rightarrow> string list" where
  "message_lines m = (let ls = split_nl m in map chomp_cr (butlast ls) @ [last ls])"

fun paragraphs_of :: "string list \<Rightarrow> string list \<Rightarrow> string list list" where
  "paragraphs_of current [] = (if current = [] then [] else [current])"
| "paragraphs_of current (l # ls) =
     (if blank l then (if current = [] then paragraphs_of [] ls else current # paragraphs_of [] ls)
      else paragraphs_of (current @ [l]) ls)"

text \<open>\<open>line.indexOf(': ')\<close> splits the name from the value; the caller knows that it occurs.\<close>

fun split_trailer :: "string \<Rightarrow> string \<times> string" where
  "split_trailer [] = ([], [])"
| "split_trailer (c # cs) = (if starts_with '': '' (c # cs) then ([], drop 1 cs)
     else (let (n, v) = split_trailer cs in (c # n, v)))"

text \<open>The loop over the block; a continuation with nothing before it ends it without trailers.\<close>

fun fold_entries :: "(string \<times> string) list \<Rightarrow> string list \<Rightarrow> (string \<times> string) list option" where
  "fold_entries es [] = Some es"
| "fold_entries es (l # ls) =
     (if CONTINUATION_LINE_RE l
      then (if es = [] then None
            else fold_entries (butlast es @ [(fst (last es), snd (last es) @ '' '' @ js_trim l)]) ls)
      else fold_entries (es @ [split_trailer l]) ls)"

definition first_wins :: "(string \<times> string) list \<Rightarrow> (string, string) omap" where
  "first_wins es = foldl (\<lambda>m e. if omap_has (fst e) m then m else omap_set (fst e) (snd e) m) [] es"

definition trailersOf :: "string list \<Rightarrow> (string, string) omap" where
  "trailersOf lines =
     (let ps = paragraphs_of [] lines in
      if length ps < 2 then []
      else let block = last ps in
        if \<not> TRAILER_LINE_RE (hd block) then []
        else if list_ex (\<lambda>l. \<not> TRAILER_LINE_RE l \<and> \<not> CONTINUATION_LINE_RE l) (tl block) then []
        else case fold_entries [] block of None \<Rightarrow> [] | Some es \<Rightarrow> first_wins es)"

section \<open>The gate\<close>

record trailer_rule =
  tr_name :: string
  tr_required :: bool
  tr_oneOf :: "string list option"
  tr_pattern :: "string option"

record subject_implication =
  si_outcomeValue :: string
  si_subjectPattern :: string

record commit_config =
  cg_subjectPattern :: "string option"
  cg_requireSubject :: "bool option"
  cg_trailers :: "trailer_rule list option"
  cg_outcomeTrailer :: "string option"
  cg_implications :: "subject_implication list option"

datatype commit_message =
    No_subject
  | Subject_mismatch
  | Trailer_missing string
  | Value_not_allowed string "string list"
  | Value_mismatch string
  | Subject_required string string string

record commit_violation =
  cv_rule :: string
  cv_message :: commit_message
  cv_evidence :: string

definition violation_for :: "string \<Rightarrow> commit_message \<Rightarrow> string \<Rightarrow> commit_violation" where
  "violation_for rule m ev = \<lparr>cv_rule = rule, cv_message = m, cv_evidence = ev\<rparr>"

definition DEFAULT_SUBJECT_PATTERN :: string where
  "DEFAULT_SUBJECT_PATTERN = ''^(fix|feat|chore|test|docs|refactor|perf|build|ci|style)('' @ [BACKSLASH] @ ''([^)]+''
     @ [BACKSLASH] @ ''))?!?: .+''"

definition DEFAULT_COMMIT_TRAILERS :: "trailer_rule list" where
  "DEFAULT_COMMIT_TRAILERS =
     [\<lparr>tr_name = ''Confidence'', tr_required = True, tr_oneOf = None,
        tr_pattern = Some (''^[0-9]+('' @ [BACKSLASH] @ ''.[0-9]+)?$'')\<rparr>,
      \<lparr>tr_name = ''Tested'', tr_required = True, tr_oneOf = None, tr_pattern = Some ''^.+$''\<rparr>,
      \<lparr>tr_name = ''Not-tested'', tr_required = False, tr_oneOf = None, tr_pattern = Some ''^.+$''\<rparr>,
      \<lparr>tr_name = ''Outcome'', tr_required = True, tr_oneOf = Some [''broken-test'', ''code-bug'', ''todo''], tr_pattern = None\<rparr>]"

definition DEFAULT_COMMIT_IMPLICATIONS :: "subject_implication list" where
  "DEFAULT_COMMIT_IMPLICATIONS =
     [\<lparr>si_outcomeValue = ''broken-test'', si_subjectPattern = ''^fix'' @ [BACKSLASH] @ ''(test'' @ [BACKSLASH] @ ''):''\<rparr>,
      \<lparr>si_outcomeValue = ''code-bug'', si_subjectPattern = ''^fix('' @ [BACKSLASH] @ ''(|:)''\<rparr>,
      \<lparr>si_outcomeValue = ''todo'', si_subjectPattern = ''^chore'' @ [BACKSLASH] @ ''(test'' @ [BACKSLASH] @ ''): todo''\<rparr>]"

definition DEFAULT_OUTCOME_TRAILER :: string where "DEFAULT_OUTCOME_TRAILER = ''Outcome''"

type_synonym regex_test = "string \<Rightarrow> bool"

definition subject_violations :: "regex_test \<Rightarrow> bool \<Rightarrow> string \<Rightarrow> commit_violation list" where
  "subject_violations subjectRe requireSubject subject =
     (if blank subject then (if requireSubject then [violation_for ''subject'' No_subject []] else [])
      else if \<not> subjectRe subject then [violation_for ''subject'' Subject_mismatch subject] else [])"

definition trailer_violations :: "(string, string) omap \<Rightarrow> trailer_rule \<times> regex_test option \<Rightarrow> commit_violation list" where
  "trailer_violations trailers r = (case r of (rule, valueRe) \<Rightarrow>
     (case map_of trailers (tr_name rule) of
        None \<Rightarrow> if tr_required rule then [violation_for (tr_name rule) (Trailer_missing (tr_name rule)) []] else []
      | Some v \<Rightarrow>
          (let ev = tr_name rule @ '': '' @ v in
           (case tr_oneOf rule of None \<Rightarrow> []
              | Some vs \<Rightarrow> if v \<in> set vs then [] else [violation_for (tr_name rule) (Value_not_allowed (tr_name rule) vs) ev])
           @ (case valueRe of None \<Rightarrow> []
              | Some re \<Rightarrow> if re v then [] else [violation_for (tr_name rule) (Value_mismatch (tr_name rule)) ev]))))"

definition implication_violations :: "(string, string) omap \<Rightarrow> string \<Rightarrow> string
    \<Rightarrow> subject_implication \<times> regex_test \<Rightarrow> commit_violation list" where
  "implication_violations trailers outcomeTrailer subject r = (case r of (imp, re) \<Rightarrow>
     (case map_of trailers outcomeTrailer of
        None \<Rightarrow> []
      | Some v \<Rightarrow> if si_outcomeValue imp \<noteq> v \<or> re subject then []
          else [violation_for (si_outcomeValue imp) (Subject_required outcomeTrailer v (si_subjectPattern imp)) subject]))"

record checked_config =
  cc_subjectRe :: regex_test
  cc_requireSubject :: bool
  cc_rules :: "(trailer_rule \<times> regex_test option) list"
  cc_outcomeTrailer :: string
  cc_implications :: "(subject_implication \<times> regex_test) list"

definition checkMessage :: "string \<Rightarrow> checked_config \<Rightarrow> commit_violation list" where
  "checkMessage message c =
     (let lines = message_lines message; subject = hd lines; trailers = trailersOf lines in
      subject_violations (cc_subjectRe c) (cc_requireSubject c) subject
      @ concat (map (trailer_violations trailers) (cc_rules c))
      @ concat (map (implication_violations trailers (cc_outcomeTrailer c) subject) (cc_implications c)))"

text \<open>All the patterns, or the first source that does not compile.\<close>

fun compile_all :: "('a \<Rightarrow> string + 'b) \<Rightarrow> 'a list \<Rightarrow> string + 'b list" where
  "compile_all f [] = ok []"
| "compile_all f (x # xs) = bind_result (f x) (\<lambda>y. bind_result (compile_all f xs) (\<lambda>ys. ok (y # ys)))"

definition compile_source :: "(string \<Rightarrow> regex_test option) \<Rightarrow> string \<Rightarrow> string + regex_test" where
  "compile_source compile src = (case compile src of None \<Rightarrow> throw src | Some re \<Rightarrow> ok re)"

definition compile_rule :: "(string \<Rightarrow> regex_test option) \<Rightarrow> trailer_rule \<Rightarrow> string + (trailer_rule \<times> regex_test option)" where
  "compile_rule compile r = (case tr_pattern r of None \<Rightarrow> ok (r, None)
     | Some src \<Rightarrow> bind_result (compile_source compile src) (\<lambda>re. ok (r, Some re)))"

definition compile_config :: "(string \<Rightarrow> regex_test option) \<Rightarrow> commit_config \<Rightarrow> string + checked_config" where
  "compile_config compile cfg =
     bind_result (compile_source compile (or_default DEFAULT_SUBJECT_PATTERN (cg_subjectPattern cfg))) (\<lambda>subjectRe.
     bind_result (compile_all (compile_rule compile) (or_default DEFAULT_COMMIT_TRAILERS (cg_trailers cfg))) (\<lambda>rules.
     bind_result (compile_all (\<lambda>i. bind_result (compile_source compile (si_subjectPattern i)) (\<lambda>re. ok (i, re)))
        (or_default DEFAULT_COMMIT_IMPLICATIONS (cg_implications cfg))) (\<lambda>implications.
     ok \<lparr>cc_subjectRe = subjectRe, cc_requireSubject = or_default True (cg_requireSubject cfg), cc_rules = rules,
       cc_outcomeTrailer = or_default DEFAULT_OUTCOME_TRAILER (cg_outcomeTrailer cfg), cc_implications = implications\<rparr>)))"

text \<open>\<open>Inl\<close> is the failed result for a pattern that does not compile; the report is ok when there are no violations.\<close>

definition commitGate :: "(string \<Rightarrow> regex_test option) \<Rightarrow> commit_config \<Rightarrow> string \<Rightarrow> string + commit_violation list" where
  "commitGate compile cfg message = bind_result (compile_config compile cfg) (\<lambda>c. ok (checkMessage message c))"

section \<open>Trailers survive being written\<close>

definition trailer_ok :: "string \<times> string \<Rightarrow> bool" where
  "trailer_ok t \<longleftrightarrow> (case fst t of [] \<Rightarrow> False | c # cs \<Rightarrow> is_letter c \<and> list_all trailer_char cs)
     \<and> snd t \<noteq> [] \<and> list_all (\<lambda>d. \<not> line_end d) (snd t)"

definition trailer_line :: "string \<times> string \<Rightarrow> string" where
  "trailer_line t = fst t @ '': '' @ snd t"

lemma letter_facts: "is_letter c \<Longrightarrow> \<not> is_space c \<and> c \<noteq> CHR '' '' \<and> c \<noteq> CHR 0x09 \<and> c \<noteq> CHR '':''"
  by (auto simp: is_letter_def is_lower_def is_upper_def char_between_def is_space_def)

lemma trailer_char_colon: "\<not> trailer_char (CHR '':'')"
  by (simp add: trailer_char_def is_alnum_def is_digit_def is_lower_def is_upper_def char_between_def)

lemma trailer_line_facts:
  assumes "trailer_ok t"
  shows "TRAILER_LINE_RE (trailer_line t)" "\<not> CONTINUATION_LINE_RE (trailer_line t)" "\<not> blank (trailer_line t)"
    "split_trailer (trailer_line t) = t"
proof -
  obtain c cs v where t: "t = (c # cs, v)" and c: "is_letter c" "list_all trailer_char cs"
    and v: "v \<noteq> []" "list_all (\<lambda>d. \<not> line_end d) v"
    using assms by (cases t) (auto simp: trailer_ok_def split: list.splits)
  have "dropWhile trailer_char (cs @ CHR '':'' # CHR '' '' # v) = CHR '':'' # CHR '' '' # v"
    using c(2) trailer_char_colon by (simp add: dropWhile_append1 list_all_iff dropWhile_append2)
  then show "TRAILER_LINE_RE (trailer_line t)" using c v by (simp add: TRAILER_LINE_RE_def trailer_line_def t starts_with_def)
  show "\<not> CONTINUATION_LINE_RE (trailer_line t)" "\<not> blank (trailer_line t)"
    using letter_facts [OF c(1)] by (simp_all add: CONTINUATION_LINE_RE_def trailer_line_def t blank_def)
  have split: "split_trailer (ns @ CHR '':'' # CHR '' '' # v) = (ns, v)" if "CHR '':'' \<notin> set ns" for ns
    using that by (induction ns) (auto simp: starts_with_def)
  have "CHR '':'' \<notin> set (c # cs)"
    using c letter_facts trailer_char_colon by (auto simp: list_all_iff)
  from split [OF this] show "split_trailer (trailer_line t) = t" by (simp add: trailer_line_def t del: split_trailer.simps)
qed

lemma paragraphs_block: "list_all (\<lambda>l. \<not> blank l) ls \<Longrightarrow> ls \<noteq> [] \<or> current \<noteq> []
    \<Longrightarrow> paragraphs_of current ls = [current @ ls]"
  by (induction ls arbitrary: current) auto

lemma paragraphs_append: "blank b \<Longrightarrow> paragraphs_of current (xs @ b # ys) = paragraphs_of current xs @ paragraphs_of [] ys"
  by (induction current xs rule: paragraphs_of.induct) auto

lemma paragraphs_nonempty: "current \<noteq> [] \<or> list_ex (\<lambda>l. \<not> blank l) ls \<Longrightarrow> paragraphs_of current ls \<noteq> []"
  by (induction current ls rule: paragraphs_of.induct) auto

lemma fold_trailers: "list_all trailer_ok ts \<Longrightarrow> fold_entries es (map trailer_line ts) = Some (es @ ts)"
  by (induction ts arbitrary: es) (simp_all add: trailer_line_facts)

lemma first_wins_distinct: "distinct (map fst es) \<Longrightarrow> first_wins es = es"
proof (induction es rule: rev_induct)
  case (snoc e es)
  then have "fst e \<notin> set (okeys es)" by simp
  with snoc show ?case by (simp add: first_wins_def omap_has_iff omap_set_new)
qed (simp add: first_wins_def)

text \<open>C28 Trailers written as a last paragraph under a subject and any body are read back unchanged.\<close>

theorem trailers_round_trip:
  assumes "\<not> blank subject" "list_all trailer_ok ts" "ts \<noteq> []" "distinct (map fst ts)"
  shows "trailersOf (subject # body @ [] # map trailer_line ts) = ts"
proof -
  have b: "blank []" by (simp add: blank_def)
  have lines: "list_all (\<lambda>l. \<not> blank l) (map trailer_line ts)"
    using assms(2) trailer_line_facts(3) by (auto simp: list_all_iff)
  have p: "paragraphs_of [] (subject # body @ [] # map trailer_line ts)
      = paragraphs_of [] (subject # body) @ [map trailer_line ts]"
    using paragraphs_append [OF b, of "[]" "subject # body"] paragraphs_block [OF lines, of "[]"] assms(3) by simp
  have "paragraphs_of [] (subject # body) \<noteq> []" using assms(1) by (intro paragraphs_nonempty) simp
  then have two: "\<not> length (paragraphs_of [] (subject # body) @ [map trailer_line ts]) < 2"
    by (cases "paragraphs_of [] (subject # body)") simp_all
  have all: "list_all TRAILER_LINE_RE (map trailer_line ts)"
    using assms(2) trailer_line_facts(1) by (auto simp: list_all_iff)
  then have "TRAILER_LINE_RE (hd (map trailer_line ts))" "\<not> list_ex (\<lambda>l. \<not> TRAILER_LINE_RE l \<and> \<not> CONTINUATION_LINE_RE l) (tl (map trailer_line ts))"
    using assms(3) by (cases ts; auto simp: list_all_iff list_ex_iff)+
  with two show ?thesis
    unfolding trailersOf_def Let_def p last_snoc using fold_trailers [OF assms(2), of "[]"] first_wins_distinct [OF assms(4)]
    by simp
qed

lemma trailers_round_trip_witness:
  "trailersOf (''fix: x'' # [''body''] @ [] # map trailer_line [(''Outcome'', ''todo''), (''Tested'', ''yes'')])
   = [(''Outcome'', ''todo''), (''Tested'', ''yes'')]"
  by (rule trailers_round_trip) code_simp+

text \<open>Prose in the last paragraph leaves no trailers, wherever it stands.\<close>

lemma prose_voids_trailers:
  assumes "l \<in> set block" "\<not> TRAILER_LINE_RE l" "\<not> CONTINUATION_LINE_RE l" "list_all (\<lambda>l. \<not> blank l) block"
  shows "trailersOf (xs @ [] # block) = []"
proof -
  have b: "blank []" by (simp add: blank_def)
  have "block \<noteq> []" using assms(1) by auto
  then have p: "paragraphs_of [] (xs @ [] # block) = paragraphs_of [] xs @ [block]"
    using paragraphs_append [OF b, of "[]" xs block] paragraphs_block [OF assms(4), of "[]"] by simp
  have "\<not> TRAILER_LINE_RE (hd block) \<or> list_ex (\<lambda>l. \<not> TRAILER_LINE_RE l \<and> \<not> CONTINUATION_LINE_RE l) (tl block)"
    using assms(1-3) by (cases block) (auto simp: list_ex_iff)
  then show ?thesis unfolding trailersOf_def Let_def p last_snoc by auto
qed

end
