(* ===== verification/Spec2Isabelle.thy ===== *)
theory Spec2Isabelle
  imports Governor_Bound Governor_Seed Dispatch_Crash Run_Log_Crash Topo_Order Manifest Lanes Slot_Pool
    Fold_Order Run_Plan_Laws Entry_Laws Wave_Stop
    Dispatch_Seed Plan_Lock_Laws Merge_Prs_Laws Merge_Args Settle_Laws
    Fix_Escalation Ratchet_Guard_Laws Ratchet_Check Gate_Commit
begin

text \<open>
  \<^bold>\<open>The kernel of cq-toolkit.\<close>

  The toolkit runs plans of jobs, with a journal that survives crashes and a budget governor that
  bounds what the jobs may spend. This library models the kernel under \<open>src/kernel\<close> (and
  \<open>src/shared/jsonLossless.ts\<close>), the part everything else runs through, the merge pipeline under
  \<open>src/ops/merge\<close>, and the gates that judge what a run changed (\<open>src/ops/gates\<close>, \<open>src/ops/fix\<close>,
  \<open>src/ops/ratchet\<close>), and proves what they promise.

  \<^bold>\<open>The program.\<close> \<open>runPlan\<close> (\<open>runner.ts\<close>) checks its options, hashes the plan into a manifest
  (\<open>manifest.ts\<close>), orders the jobs into waves, reads every earlier run of the plan from the journal
  directory (\<open>journal.ts\<close>), refuses histories it may not continue, seeds the governor
  (\<open>governor.ts\<close>) with what was spent and started, claims the next ordinal of the plan, and runs
  the waves: a producer submits the ready jobs of a wave, a pool starts them in order, every start
  and finish is a journal line, and a governed start asks the governor first. At the end undispatched
  jobs are swept, rows the budget caused are re-marked, and the report is built.

  \<^bold>\<open>Theories and code.\<close>
  \<^item> \<open>Cq_Prelude\<close>: names, results as sums, insertion-ordered maps (a JavaScript \<open>Map\<close>), reachability and
    the locale \<open>invariant_system\<close>, through which every state machine below is verified.
  \<^item> \<open>Js_Values\<close>, \<open>Kernel_Types\<close>: JavaScript values and numbers; \<open>types.ts\<close> (results, events, reports).
  \<^item> \<open>Lanes\<close>: \<open>lanes.ts\<close>. \<open>Manifest\<close>, \<open>Topo_Order\<close>: \<open>manifest.ts\<close>. \<open>Json_Lossless\<close>: \<open>jsonLossless.ts\<close>.
  \<^item> \<open>Spend_Evidence\<close>, \<open>Governor_Config\<close>, \<open>Slot_Pool\<close>, \<open>Governor\<close>: \<open>governor.ts\<close>, one definition per method
    of \<open>BudgetGovernor\<close>; \<open>Governor_Seed\<close>: \<open>seedFromJournal\<close>. \<open>Governor_Books\<close>, \<open>Governor_Drain\<close>,
    \<open>Governor_Inv\<close> and \<open>Governor_Bound\<close> hold the ledger invariant and the bounds; \<open>Dispatch_Crash\<close>: when a
    journal seeds, and the ledger equation of a simplified machine of reservations and their lines.
    \<open>Ladder\<close>: \<open>runLadder\<close>, its timers and callbacks as steps, with the clock passing between them; a
    fired timer is consumed before its body runs.
  \<^item> \<open>Run_Log\<close>, \<open>Run_Log_Crash\<close>: append and read of \<open>journal.ts\<close> with torn tails; \<open>Fold_Order\<close>: the order of
    earlier runs (\<open>foldOrderRuns\<close>) and ordinal claims (\<open>claimSeq\<close>, \<open>assertNoSeqGap\<close>), the turns of the claim loop of many calls interleaved
    with each other and with deletions.
  \<^item> \<open>Plan_Lock\<close>: the plan lock of \<open>journal.ts\<close> (the entry and the last fence of \<open>acquirePlanLock\<close> with its two guards,
    \<open>acquirePlanLockRecord\<close>, \<open>publishRecord\<close>, \<open>claimSuccession\<close>,
    release), one step per system call of any number of acquisitions; \<open>Plan_Lock_Inv\<close>: the
    invariant of its claims; \<open>Plan_Lock_Laws\<close>: exclusion, the fence, recovery.
  \<^item> \<open>Run_Plan\<close>, \<open>Run_Plan_Laws\<close>: \<open>runPlanUnderLease\<close> up to the run-started record.
  \<^item> \<open>Run_Entries\<close>, \<open>Entry_Laws\<close>: \<open>executeOp\<close>, session links, outcome entries, launch, blocking.
  \<^item> \<open>Wave_Loop\<close>: the wave loop as a step relation, a step being the code between two awaits.
    \<open>Honest_Stop\<close>: stop sweep, budget attribution, report. \<open>Wave_Inv\<close>, \<open>Wave_Laws\<close>, \<open>Wave_Governor\<close>,
    \<open>Wave_End\<close> and \<open>Wave_Stop\<close>: its invariants and what every run guarantees.
  \<^item> \<open>Governed_Dispatch\<close>: \<open>governedRunOne\<close> between a job's start and its finish, step by step, beside
    arbitrary governor calls and journal lines of the other dispatches. \<open>Governor_Job\<close>: the governor as
    one dispatch sees it (foreign calls leave its hold alone); \<open>Dispatch_Laws\<close>: the dispatch invariant;
    \<open>Dispatch_Refines\<close>: the refinement of the wave loop and the accounting of a dispatch; \<open>Dispatch_Seed\<close>: the
    dispatch stopped anywhere, and what the next run's seed charges for it.

  \<^bold>\<open>The merge pipeline.\<close> Beside the kernel, the library models the decisions of \<open>src/ops/merge\<close>:
  \<^item> \<open>Merge_Classify\<close>: \<open>classifyPrs.ts\<close>, the acceptance table over reviews, comments and merge state.
  \<^item> \<open>Merge_Order\<close>: \<open>planMergeOrder.ts\<close>, the gates and the order of a stack of pull requests;
    \<open>Merge_Order_Laws\<close>: the gates read back, gate by gate; \<open>Merge_Plan\<close>: what the plan promises.
  \<^item> \<open>Merge_Execute\<close>: \<open>executeMerges.ts\<close> over the effects, with a trace of all calls and answers;
    \<open>Merge_Execute_Laws\<close>: the law every call of a trace obeys (the locale \<open>read_law\<close>: reading is always lawful),
    what an outcome says of the trace, the invariant of the loop; \<open>Merge_Run\<close>: what a run promises.
  \<^item> \<open>Merge_Prs\<close>, \<open>Merge_Prs_Laws\<close>: \<open>runPrs.ts\<close> and \<open>diagnoseMergeFailure.ts\<close>, the two passes with the
    conflict stage between them, end to end.
  \<^item> \<open>Merge_Args\<close>: the guard \<open>safeArgs\<close> of \<open>adapters/forge-github/mergeEffects.ts\<close> and the command lines behind it.
  \<^item> \<open>Settle_Ledger\<close>, \<open>Settle_Laws\<close>: \<open>policy/queue/settle-state.ts\<close>, the ledger of observations and its settle rule.

  \<^bold>\<open>The gates.\<close>
  \<^item> \<open>Gate_Failures\<close>: \<open>fingerprint.ts\<close> (the identity of a failure, the numbering of equivalent ones, the two
    matching loops against a baseline) and \<open>regressionGate.ts\<close>; \<open>Gate_Laws\<close>: the books of the ordinals, and the
    gate as a multiset comparison.
  \<^item> \<open>Fix_Escalation\<close>: \<open>fix/escalation.ts\<close>, worker, rescue or human, and the rescue budget of every reachable state.
  \<^item> \<open>Ratchet_Guard\<close>: \<open>ratchet/monotonicGuard.ts\<close>, from the text of a diff to its violations, the regular expressions
    as matchers; \<open>Ratchet_Guard_Laws\<close>: what a passing verdict means, and a movement it does not see.
  \<^item> \<open>Ratchet_Check\<close>: \<open>ratchet/checkRatchet.ts\<close> and the baseline paths of \<open>format.ts\<close>, with what the sources, the
    adapters and the file system answer as parameters.
  \<^item> \<open>Gate_Commit\<close>: \<open>gates/commitGate.ts\<close>, subject, trailers and implications of a commit message.

  \<^bold>\<open>What the lemmas show.\<close> Spending: settled plus held money is bounded by the cap whatever the
  interleaving; after a crash at any point of a dispatch the next run charges its reservation or its settle; a
  parked dispatch is never stranded; a dispatch is charged what it reported, once, between its two
  ledger lines; a governed run never starts more than its quota. Order:
  dependencies finish (in the journal) before their dependants start; one attempt per job and run;
  nothing starts after a stop, failure or trip. Ends: no job is
  lost, the report has one row per job, budget rows are exactly the ones the attribution rule names.
  Journal: reading gives what was appended, a torn tail loses only the torn line, the journal and the
  entries agree, finished work is not redone on resume, ordinals are unique, the fold order is one
  stable sort. Lock: one live holder whatever crashes, reboots and delays do, the record only
  advances, and a lock whose owners are gone is taken over by
  an acquisition that its guards let begin; a ladder escalates in order and settles in time. Values: hashes ignore member order, results survive their line.
  Merges: what the table calls eligible was invited; a plan disposes of every open pull request once, whatever
  the stack and the order of the input, and merges nothing into a branch that the pass merges; a merge call follows
  the checks that confirm it and is pinned; reports and the list for humans are complete; nothing merges twice;
  the guard accepts the documented command lines only; the settle ledger computes its rule on the whole history.
  Gates: a run passes exactly when no failure identity occurs more often, in any order; rescues stay within their
  pools; a diff that passes keeps or tightens every baseline as far as its lines show; a ratchet passes on two
  comparable numbers only; trailers survive being written.

  \<^bold>\<open>Conventions.\<close> Dollar amounts and JavaScript numbers are rationals with the three non-finite
  values (rounding of doubles is not modelled); token counts are naturals. Times are left out of
  events; in the ladder a timer fires at or after its due time, at most a parameter \<open>lag\<close> late. SHA-256, number rendering, \<open>JSON.parse\<close> of a line, the clock and the random bytes of a run
  id, the operation registry, input schemas and bodies are parameters, and so are \<open>Date.parse\<close>, \<open>toISOString\<close>, the configured
  patterns, the effects on the forge, the conflict agent, the refetch, the metric sources and adapters. A thrown error is a
  constructor of an error datatype; message texts that quote several facts are kept to their first
  clause. Fuel appears three times, as the bounds of the code: a merge is retried at most \<open>maxRetries\<close> times, a claim tries at most \<open>CLAIM_ATTEMPTS\<close> = 10000 ordinals
  and a succession walks at most \<open>MAX_CLAIMS\<close> = 10000 claims.

  \<^bold>\<open>Not modelled.\<close> The library behind the publication guard of the plan lock (its answers are arguments of the
  entry; the protocol after it is proved for any interleaving, so without relying on it), corrupt lock files (they refuse), the observational stream, file
  durability and zod schemas are left out, and so are drivers, the harness, adapters, the command
  line, registries, plan builders and the model-driven operations, which are process, network and
  file I/O around external tools. The handle guard "governance requires a governor" has no
  counterpart, since a governance value here always has its configuration. Of the merge pipeline the conflict
  agent, the wiring of drivers, worktrees and the reading of process output are left out; the per-base
  mutexes of the executor are never contended in its sequential loop. Of the gates the adapters that parse tool output,
  the legacy fingerprint, the baseline schema with its timestamps and the rounding of coverage values are left out.
\<close>

end
